(* ===== verification/Prelude.thy ===== *)
theory Prelude
  imports Complex_Main "HOL-Library.Word"
begin

text \<open>
  What every component shares: the model of Python's \<^verbatim>\<open>bytes\<close> as lists of
  8-bit words with slicing, in-place pyslice assignment and the little/big-endian
  conversions of the \<^verbatim>\<open>struct\<close> module; exceptions as values; time stamps as reals
  (readings of \<^verbatim>\<open>time.monotonic()\<close>).

  Conventions. Python integers that a caller supplies are \<^typ>\<open>int\<close>; lengths, offsets
  and decoded unsigned fields are \<^typ>\<open>nat\<close>. A function that may raise returns
  \<open>exn + 'a\<close>; a method that mutates its object and may raise returns the pair of that
  result and the object afterwards, because the source often changes the object
  before it raises. A dynamic type test such as \<^verbatim>\<open>type(n) is int\<close> is the HOL type.
\<close>

unbundle bit_operations_syntax

named_theorems byte_simps \<open>lengths and element access of byte-string operations\<close>
named_theorems op_defs \<open>definitions of state operations, unfolded by invariant proofs\<close>

type_synonym byte = "8 word"
type_synonym bytes = "byte list"
type_synonym time = real

text \<open>
  The exceptions of the modelled code. A constructor carries the message the source
  raises; \<open>is_value_error\<close> tells which of them \<^verbatim>\<open>except ValueError\<close> catches.
\<close>

datatype exn =
    ValueError string
  | TypeError string
  | IndexError
  | StructError
  | AssertionError
  | ReceiveError string
  | KcpAssemblyTimeout "(string \<times> int) list"
  | PushFrameError string
  | MtpTcpFrameError string "(string \<times> nat) list"
  | OutputExhausted string
  | PtzBusy string
  | Mp4CapacityError string
  | Mp4SizeError nat string
  | Mp4OrderError string string
  | StreamClosedError string
  | SlowConsumerError string
  | RuntimeError string
  | SourceUnavailable string
  | SourceCleanupUnconfirmed string
  | RecorderCleanupUnconfirmed string
  | SourcePolicyConflict string
  | HTTPException nat string
  | DatabaseError string
  | OSError string
  | TimeoutExpired
  | P2PProbeError string
  | KeyError string

fun is_value_error :: "exn \<Rightarrow> bool" where
  "is_value_error (TypeError m) = False"
| "is_value_error IndexError = False"
| "is_value_error StructError = False"
| "is_value_error AssertionError = False"
| "is_value_error (PtzBusy m) = False"
| "is_value_error (StreamClosedError m) = False"
| "is_value_error (SlowConsumerError m) = False"
| "is_value_error (RuntimeError m) = False"
| "is_value_error (SourceUnavailable m) = False"
| "is_value_error (SourceCleanupUnconfirmed m) = False"
| "is_value_error (RecorderCleanupUnconfirmed m) = False"
| "is_value_error (SourcePolicyConflict m) = False"
| "is_value_error (HTTPException n m) = False"
| "is_value_error (DatabaseError m) = False"
| "is_value_error (OSError m) = False"
| "is_value_error TimeoutExpired = False"
| "is_value_error (P2PProbeError m) = False"
| "is_value_error (KeyError m) = False"
| "is_value_error e = True"

section \<open>Slices\<close>

definition pyslice :: "'a list \<Rightarrow> nat \<Rightarrow> nat \<Rightarrow> 'a list" where
  "pyslice xs i j = take (j - i) (drop i xs)"

text \<open>\<open>put xs i ys\<close> is \<^verbatim>\<open>xs[i:i+len(ys)] = ys\<close> inside the list.\<close>

definition put :: "'a list \<Rightarrow> nat \<Rightarrow> 'a list \<Rightarrow> 'a list" where
  "put xs i ys = take i xs @ ys @ drop (i + length ys) xs"

lemma length_slice [simp, byte_simps]: "length (pyslice xs i j) = min (j - i) (length xs - i)"
  by (simp add: pyslice_def)

lemma nth_slice [simp, byte_simps]: "i + k < length xs \<Longrightarrow> k < j - i \<Longrightarrow> pyslice xs i j ! k = xs ! (i + k)"
  by (simp add: pyslice_def)

lemma pyslice_full [simp]: "pyslice xs 0 (length xs) = xs"
  by (simp add: pyslice_def)

lemma slice_replicate [simp]: "pyslice (replicate n x) i j = replicate (min (j - i) (n - i)) x"
  by (simp add: pyslice_def)

lemma slice_to_end: "pyslice xs i (length xs) = drop i xs"
  by (simp add: pyslice_def)

lemma length_put [simp, byte_simps]: "i + length ys \<le> length xs \<Longrightarrow> length (put xs i ys) = length xs"
  by (simp add: put_def)

lemma nth_put [byte_simps]:
  "i + length ys \<le> length xs \<Longrightarrow> k < length xs \<Longrightarrow>
   put xs i ys ! k = (if i \<le> k \<and> k < i + length ys then ys ! (k - i) else xs ! k)"
  by (auto simp: put_def nth_append min_def)

lemma slice_append_left: "j \<le> length xs \<Longrightarrow> pyslice (xs @ ys) i j = pyslice xs i j"
  by (simp add: pyslice_def)

lemma slice_append_right: "length xs \<le> i \<Longrightarrow> pyslice (xs @ ys) i j = pyslice ys (i - length xs) (j - length xs)"
  by (simp add: pyslice_def)

lemma slice_prefix: "length xs = j \<Longrightarrow> pyslice (xs @ ys) 0 j = xs"
  by (simp add: pyslice_def)

lemma slice_Cons: "0 < i \<Longrightarrow> pyslice (x # xs) i j = pyslice xs (i - 1) (j - 1)"
  by (cases i) (auto simp: pyslice_def)

lemmas slice_fields = slice_append_right slice_prefix slice_Cons

lemma slice_eqI:
  assumes "length xs = length ys" "\<And>k. i \<le> k \<Longrightarrow> k < j \<Longrightarrow> k < length xs \<Longrightarrow> xs ! k = ys ! k"
  shows "pyslice xs i j = pyslice ys i j"
  using assms by (intro nth_equalityI) auto

lemma slice_put_same:
  "i + length ys \<le> length xs \<Longrightarrow> j = i + length ys \<Longrightarrow> pyslice (put xs i ys) i j = ys"
  by (intro nth_equalityI) (auto simp: nth_put)

lemma slice_slice: "b \<le> j - i \<Longrightarrow> pyslice (pyslice xs i j) a b = pyslice xs (i + a) (i + b)"
  by (auto simp: pyslice_def min_def drop_take ac_simps)

lemma slice_drop: "pyslice (drop n xs) i j = pyslice xs (n + i) (n + j)"
  by (simp add: pyslice_def ac_simps)

lemma slice_put_within:
  assumes "i + length ys \<le> length xs" "i \<le> a" "a \<le> b" "b \<le> i + length ys"
  shows "pyslice (put xs i ys) a b = pyslice ys (a - i) (b - i)"
  using assms by (intro nth_equalityI) (auto simp: nth_put)

lemma slice_put_disjoint:
  assumes "i + length ys \<le> length xs" "b \<le> i \<or> i + length ys \<le> a"
  shows "pyslice (put xs i ys) a b = pyslice xs a b"
  using assms by (intro nth_equalityI) (auto simp: nth_put)

lemma put_slice_id: "i \<le> j \<Longrightarrow> j \<le> length xs \<Longrightarrow> put xs i (pyslice xs i j) = xs"
  by (intro nth_equalityI) (auto simp: nth_put)

lemma slice_nth_eqI:
  assumes "j \<le> length xs" "j \<le> length ys" "\<And>k. i \<le> k \<Longrightarrow> k < j \<Longrightarrow> xs ! k = ys ! k"
  shows "pyslice xs i j = pyslice ys i j"
  using assms by (intro nth_equalityI) auto

lemma put_put_adjacent:
  assumes "i + length a + length b \<le> length xs" "j = i + length a"
  shows "put (put xs i a) j b = put xs i (a @ b)"
  using assms by (intro nth_equalityI) (auto simp: nth_put nth_append)

lemma put_middle: "length a = i \<Longrightarrow> length b = length b' \<Longrightarrow> put (a @ b @ c) i b' = a @ b' @ c"
  by (simp add: put_def)

lemma slice_middle: "length a = i \<Longrightarrow> j = i + length b \<Longrightarrow> pyslice (a @ b @ c) i j = b"
  by (simp add: pyslice_def)

lemma length_concat_const: "\<forall>b \<in> set bs. length b = n \<Longrightarrow> length (concat bs) = length bs * n"
  by (induction bs) auto

lemma split_at: "n \<le> length xs \<Longrightarrow> \<exists>a b. xs = a @ b \<and> length a = n"
  by (intro exI [of _ "take n xs"] exI [of _ "drop n xs"]) simp

text \<open>The first \<open>m * n\<close> elements as \<open>m\<close> chunks of \<open>n\<close>.\<close>

lemma split_chunks:
  "m * n \<le> length xs \<Longrightarrow> \<exists>bs t. xs = concat bs @ t \<and> length bs = m \<and> (\<forall>b \<in> set bs. length b = n)"
proof (induction m arbitrary: xs)
  case 0
  show ?case by (intro exI [of _ "[]"] exI [of _ xs]) simp
next
  case (Suc m)
  then obtain a b where ab: "xs = a @ b" "length a = n" using split_at [of n xs] by auto
  with Suc obtain bs t where "b = concat bs @ t" "length bs = m" "\<forall>b \<in> set bs. length b = n" by fastforce
  with ab show ?case by (intro exI [of _ "a # bs"] exI [of _ t]) simp
qed

section \<open>Little-endian and big-endian integers\<close>

fun le_val :: "bytes \<Rightarrow> nat" where
  "le_val [] = 0"
| "le_val (b # bs) = unat b + 256 * le_val bs"

fun le_bytes :: "nat \<Rightarrow> nat \<Rightarrow> bytes" where
  "le_bytes 0 x = []"
| "le_bytes (Suc n) x = of_nat x # le_bytes n (x div 256)"

definition be_val :: "bytes \<Rightarrow> nat" where
  "be_val bs = le_val (rev bs)"

lemma length_le_bytes [simp, byte_simps]: "length (le_bytes n x) = n"
  by (induction n arbitrary: x) auto

lemma le_bytes_nth: "i < n \<Longrightarrow> le_bytes n x ! i = of_nat (x div 256 ^ i)"
  by (induction n arbitrary: x i) (auto simp: nth_Cons' div_mult2_eq [symmetric] simp flip: power_Suc)

lemma le_bytes_4: "le_bytes 4 x = [of_nat x, of_nat (x div 256), of_nat (x div 65536), of_nat (x div 16777216)]"
proof (intro nth_equalityI)
  fix i assume "i < length (le_bytes 4 x)"
  then consider "i = 0" | "i = 1" | "i = 2" | "i = 3" by fastforce
  then show "le_bytes 4 x ! i = [of_nat x, of_nat (x div 256), of_nat (x div 65536), of_nat (x div 16777216)] ! i"
    by cases (simp_all add: le_bytes_nth)
qed simp

lemma unat_of_nat_byte [simp]: "unat (of_nat x :: byte) = x mod 256"
  by (simp add: unat_of_nat)

lemma unat_byte_lt [simp]: "unat (b :: byte) < 256"
  using unsigned_less [of b, where 'a = nat] by simp

lemma le_val_le_bytes: "le_val (le_bytes n x) = x mod 256 ^ n"
proof (induction n arbitrary: x)
  case 0
  then show ?case by simp
next
  case (Suc n)
  have "x mod 256 ^ Suc n = x mod 256 + 256 * (x div 256 mod 256 ^ n)"
    by (simp add: mod_mult2_eq mult.commute)
  with Suc show ?case by simp
qed

lemma le_val_bound: "le_val bs < 256 ^ length bs"
proof (induction bs)
  case Nil
  then show ?case by simp
next
  case (Cons b bs)
  have "unat b < 256" by simp
  with Cons have "unat b + 256 * le_val bs < 256 * 256 ^ length bs" by linarith
  then show ?case by simp
qed

lemma le_val_append: "le_val (xs @ ys) = le_val xs + 256 ^ length xs * le_val ys"
  by (induction xs) (auto simp: algebra_simps)

lemma le_val_zeros [simp]: "le_val (replicate n 0) = 0"
  by (induction n) auto

lemma le_val_slice_bound: "n = 256 ^ (j - i) \<Longrightarrow> le_val (pyslice bs i j) < n"
proof -
  assume "n = 256 ^ (j - i)"
  moreover have "le_val (pyslice bs i j) < 256 ^ length (pyslice bs i j)" by (rule le_val_bound)
  moreover have "(256 :: nat) ^ length (pyslice bs i j) \<le> 256 ^ (j - i)" by (rule power_increasing) auto
  ultimately show ?thesis by (metis less_le_trans)
qed

lemma le_bytes_le_val: "length bs = n \<Longrightarrow> le_bytes n (le_val bs) = bs"
proof (induction bs arbitrary: n)
  case Nil
  then show ?case by simp
next
  case (Cons b bs)
  have "of_nat (unat b + 256 * le_val bs) = b"
    by (rule word_unat_eq_iff [THEN iffD2]) (simp del: of_nat_add)
  moreover have "(unat b + 256 * le_val bs) div 256 = le_val bs"
    by (simp add: div_eq_0_iff)
  ultimately show ?case using Cons by auto
qed

lemma le_bytes_mod: "le_bytes n (x mod 256 ^ n) = le_bytes n x"
  by (metis le_bytes_le_val le_val_le_bytes length_le_bytes)

text \<open>\<^verbatim>\<open>struct.unpack_from\<close> of one little-endian unsigned field.\<close>

abbreviation u16_at :: "bytes \<Rightarrow> nat \<Rightarrow> nat" where
  "u16_at bs i \<equiv> le_val (pyslice bs i (i + 2))"

abbreviation u32_at :: "bytes \<Rightarrow> nat \<Rightarrow> nat" where
  "u32_at bs i \<equiv> le_val (pyslice bs i (i + 4))"

abbreviation u64_at :: "bytes \<Rightarrow> nat \<Rightarrow> nat" where
  "u64_at bs i \<equiv> le_val (pyslice bs i (i + 8))"

text \<open>\<open>mask n x\<close> is Python's \<^verbatim>\<open>x & (2**n - 1)\<close> on an unbounded integer.\<close>

definition mask_int :: "nat \<Rightarrow> int \<Rightarrow> nat" where
  "mask_int n x = nat (x mod 2 ^ n)"

lemma mask_int_bound [simp]: "mask_int n x < 2 ^ n"
  by (simp add: mask_int_def nat_less_iff)

lemma mask_int_id: "0 \<le> x \<Longrightarrow> x < 2 ^ n \<Longrightarrow> mask_int n x = nat x"
  by (simp add: mask_int_def)

lemma u_at_put_same:
  assumes "i + n \<le> length xs" "x < 256 ^ n"
  shows "le_val (pyslice (put xs i (le_bytes n x)) i (i + n)) = x"
  using assms by (simp add: slice_put_same le_val_le_bytes)

lemmas put_fields = slice_put_same slice_put_disjoint nth_put le_val_le_bytes

lemma mask_int_256: "mask_int 32 x < 256 ^ 4" "mask_int 64 x < 256 ^ 8"
  using mask_int_bound [of 32 x] mask_int_bound [of 64 x] by (simp_all del: mask_int_bound)

section \<open>Sums as results\<close>

text \<open>Sequencing of computations that may raise.\<close>

fun bind_res :: "exn + 'a \<Rightarrow> ('a \<Rightarrow> exn + 'b) \<Rightarrow> exn + 'b" where
  "bind_res (Inl e) f = Inl e"
| "bind_res (Inr x) f = f x"

lemma bind_res_Inr: "bind_res r f = Inr y \<longleftrightarrow> (\<exists>x. r = Inr x \<and> f x = Inr y)"
  by (cases r) auto

lemma bind_res_Inl: "bind_res r f = Inl e \<longleftrightarrow> r = Inl e \<or> (\<exists>x. r = Inr x \<and> f x = Inl e)"
  by (cases r) auto

lemma bind_res_cong [fundef_cong]:
  "r = r' \<Longrightarrow> (\<And>x. r' = Inr x \<Longrightarrow> f x = g x) \<Longrightarrow> bind_res r f = bind_res r' g"
  by (cases r') auto

text \<open>
  A run of \<^verbatim>\<open>struct.pack_into\<close> calls on unsigned little-endian fields, each given by its
  width in bytes, its offset and its value: a value outside the width or a field
  outside the buffer raises.
\<close>

fun pack_fields :: "(nat \<times> nat \<times> int) list \<Rightarrow> bytes \<Rightarrow> exn + bytes" where
  "pack_fields [] frame = Inr frame"
| "pack_fields ((n, off, x) # fs) frame =
     (if 0 \<le> x \<and> x < 256 ^ n \<and> off + n \<le> length frame
      then pack_fields fs (put frame off (le_bytes n (nat x))) else Inl StructError)"

lemma pack_fields_length: "pack_fields fs frame = Inr f \<Longrightarrow> length f = length frame"
  by (induction fs frame rule: pack_fields.induct) (auto split: if_splits)

lemma pack_fields_ok:
  "\<forall>(n, off, x) \<in> set fs. 0 \<le> x \<and> x < 256 ^ n \<and> off + n \<le> length frame \<Longrightarrow>
   pack_fields fs frame = Inr (foldl (\<lambda>f (n, off, x). put f off (le_bytes n (nat x))) frame fs)"
  by (induction fs frame rule: pack_fields.induct) auto

section \<open>Decimal numerals and ASCII\<close>

fun show_nat :: "nat \<Rightarrow> string" where
  "show_nat n = (if n < 10 then [char_of (48 + n)] else show_nat (n div 10) @ [char_of (48 + n mod 10)])"

declare show_nat.simps [simp del]

definition show_int :: "int \<Rightarrow> string" where
  "show_int i = (if i < 0 then ''-'' @ show_nat (nat (- i)) else show_nat (nat i))"

definition ascii :: "string \<Rightarrow> bytes" where
  "ascii s = map (\<lambda>c. of_nat (of_char c)) s"

lemma length_ascii [simp, byte_simps]: "length (ascii s) = length s"
  by (simp add: ascii_def)

section \<open>Dictionaries\<close>

text \<open>
  A Python \<^verbatim>\<open>dict\<close> as the list of its items in insertion order: a lookup is
  \<^const>\<open>map_of\<close>, assigning an existing key keeps its place, a new key goes last.
\<close>

type_synonym ('k, 'v) dict = "('k \<times> 'v) list"

fun dict_set :: "'k \<Rightarrow> 'v \<Rightarrow> ('k, 'v) dict \<Rightarrow> ('k, 'v) dict" where
  "dict_set k v [] = [(k, v)]"
| "dict_set k v ((k', v') # d) = (if k' = k then (k, v) # d else (k', v') # dict_set k v d)"

definition dict_pop :: "'k \<Rightarrow> ('k, 'v) dict \<Rightarrow> ('k, 'v) dict" where
  "dict_pop k d = filter (\<lambda>(k', v). k' \<noteq> k) d"

lemma map_of_dict_set [simp]: "map_of (dict_set k v d) = (map_of d)(k \<mapsto> v)"
  by (induction d) auto

lemma map_of_dict_pop [simp]: "map_of (dict_pop k d) = (map_of d)(k := None)"
  by (induction d) (auto simp: dict_pop_def)

lemma set_keys_dict_set [simp]: "fst ` set (dict_set k v d) = insert k (fst ` set d)"
  by (induction k v d rule: dict_set.induct) (simp_all add: insert_commute)

lemma set_keys_dict_pop [simp]: "fst ` set (dict_pop k d) = fst ` set d - {k}"
  by (auto simp: dict_pop_def)

lemma distinct_dict_set [simp]: "distinct (map fst (dict_set k v d)) \<longleftrightarrow> distinct (map fst d)"
  by (induction k v d rule: dict_set.induct) (simp_all del: set_map add: list.set_map)

lemma distinct_dict_pop: "distinct (map fst d) \<Longrightarrow> distinct (map fst (dict_pop k d))"
  by (induction d) (auto simp: dict_pop_def)

lemma dict_set_new: "k \<notin> fst ` set d \<Longrightarrow> dict_set k v d = d @ [(k, v)]"
  by (induction d) auto

lemma length_dict_set: "length (dict_set k v d) = (if k \<in> fst ` set d then length d else Suc (length d))"
  by (induction k v d rule: dict_set.induct) simp_all

lemma dict_pop_absent: "k \<notin> fst ` set d \<Longrightarrow> dict_pop k d = d"
  by (induction d) (auto simp: dict_pop_def)

lemma length_dict_pop_le: "length (dict_pop k d) \<le> length d"
  by (simp add: dict_pop_def)

lemma nth_update: "j < length xs \<Longrightarrow> xs[i := x] ! j = (if i = j then x else xs ! j)"
  by (cases "i = j") simp_all

lemma length_dict_pop_less: "k \<in> fst ` set d \<Longrightarrow> length (dict_pop k d) < length d"
  by (auto simp: dict_pop_def intro: length_filter_less)

lemma dict_pop_split:
  assumes "distinct (map fst d)" "map_of d k = Some v"
  obtains a b where "d = a @ (k, v) # b" "dict_pop k d = a @ b"
proof -
  obtain a b where d: "d = a @ (k, v) # b" using assms(2) by (meson map_of_SomeD split_list)
  with assms(1) have "k \<notin> fst ` set a" "k \<notin> fst ` set b" by auto
  then have "dict_pop k a = a" "dict_pop k b = b" by (simp_all add: dict_pop_absent)
  with d that show ?thesis by (simp add: dict_pop_def)
qed

lemma length_dict_pop:
  "distinct (map fst d) \<Longrightarrow> map_of d k = Some v \<Longrightarrow> Suc (length (dict_pop k d)) = length d"
  by (erule dict_pop_split) auto

lemma sum_list_dict_pop:
  fixes f :: "'k \<times> 'v \<Rightarrow> 'a :: ab_group_add"
  assumes "distinct (map fst d)" "map_of d k = Some v"
  shows "(\<Sum>x\<leftarrow>dict_pop k d. f x) = (\<Sum>x\<leftarrow>d. f x) - f (k, v)"
  using assms by (rule dict_pop_split) simp

lemma set_dict_pop: "set (dict_pop k d) = {(k', v) \<in> set d. k' \<noteq> k}"
  by (auto simp: dict_pop_def)

lemma set_dict_set: "distinct (map fst d) \<Longrightarrow> (k', x) \<in> set (dict_set k v d) \<longleftrightarrow> (if k' = k then x = v else (k', x) \<in> set d)"
proof -
  assume "distinct (map fst d)"
  then have "distinct (map fst (dict_set k v d))" by simp
  from map_of_eq_Some_iff [OF this, of k' x] map_of_eq_Some_iff [OF \<open>distinct (map fst d)\<close>, of k' x] show ?thesis
    by (simp only: map_of_dict_set fun_upd_apply) auto
qed

lemma map_of_None_keys: "map_of d k = None \<longleftrightarrow> k \<notin> fst ` set d"
  by (simp add: map_of_eq_None_iff)

section \<open>JSON values\<close>

text \<open>What \<^verbatim>\<open>json.loads\<close> returns; the value of a float is never used by the modelled code.\<close>

datatype json = JNull | JBool bool | JInt int | JFloat | JStr string | JList "json list" | JObj "(string \<times> json) list"

type_synonym json_decoder = "bytes \<Rightarrow> json option"

fun obj_get :: "json \<Rightarrow> string \<Rightarrow> json option" where
  "obj_get (JObj ps) k = map_of ps k"
| "obj_get _ k = None"

fun is_obj :: "json \<Rightarrow> bool" where
  "is_obj (JObj ps) = True"
| "is_obj _ = False"

end
