(* ===== verification/Machine.thy ===== *)
theory Machine
  imports Prelude
begin

text \<open>
  Components whose methods run under one lock are state machines: an interleaving of
  callers is a sequence of operations, each with the events it makes visible. This
  theory has the execution of such a sequence and the interface through which a
  component proves an invariant that relates its state to everything that happened.
\<close>

fun run_ops :: "('op \<Rightarrow> 's \<Rightarrow> 'e list \<times> 's) \<Rightarrow> 'op list \<Rightarrow> 's \<Rightarrow> 'e list \<times> 's" where
  "run_ops exec [] s = ([], s)"
| "run_ops exec (op # ops) s =
     (let (es, s1) = exec op s; (es', s2) = run_ops exec ops s1 in (es @ es', s2))"

lemma run_ops_append:
  "run_ops exec (xs @ ys) s =
     (let (es, s1) = run_ops exec xs s; (es', s2) = run_ops exec ys s1 in (es @ es', s2))"
  by (induction xs arbitrary: s) (auto simp: split_beta Let_def)

text \<open>Induction over a run in which every operation satisfies a condition.\<close>

lemma run_ops_induct:
  assumes step: "\<And>h s op es s'. I h s \<Longrightarrow> allowed op \<Longrightarrow> exec op s = (es, s') \<Longrightarrow> I (h @ es) s'"
  shows "I h s \<Longrightarrow> \<forall>op \<in> set ops. allowed op \<Longrightarrow> run_ops exec ops s = (es, s') \<Longrightarrow> I (h @ es) s'"
proof (induction ops arbitrary: h s es)
  case (Cons op ops)
  obtain e1 s1 where 1: "exec op s = (e1, s1)" by fastforce
  obtain e2 where 2: "run_ops exec ops s1 = (e2, s')" "es = e1 @ e2"
    using Cons.prems(3) 1 by (auto split: prod.splits)
  have "I (h @ e1) s1" using step [OF Cons.prems(1) _ 1] Cons.prems(2) by simp
  then show ?case using Cons.IH [of "h @ e1" s1 e2] Cons.prems(2) 2 by simp
qed simp

lemma history_snoc_split:
  "h @ [e] = h1 @ x # h2 \<longleftrightarrow> (h2 = [] \<and> h1 = h \<and> x = e) \<or> (\<exists>h3. h2 = h3 @ [e] \<and> h = h1 @ x # h3)"
  by (cases h2 rule: rev_cases) auto

text \<open>Every event of a history is justified by what happened before it.\<close>

definition each_event :: "('e list \<Rightarrow> 'e \<Rightarrow> bool) \<Rightarrow> 'e list \<Rightarrow> bool" where
  "each_event P h \<longleftrightarrow> (\<forall>h1 e h2. h = h1 @ e # h2 \<longrightarrow> P h1 e)"

lemma each_event_simps [simp]: "each_event P []" "each_event P (h @ [e]) \<longleftrightarrow> each_event P h \<and> P h e"
  by (auto simp: each_event_def history_snoc_split)

lemma each_event_append:
  "each_event P (h @ es) \<longleftrightarrow> each_event P h \<and> (\<forall>e1 e e2. es = e1 @ e # e2 \<longrightarrow> P (h @ e1) e)"
proof (induction es rule: rev_induct)
  case (snoc x es)
  have "each_event P (h @ es @ [x]) \<longleftrightarrow> each_event P (h @ es) \<and> P (h @ es) x"
    using each_event_simps(2) [of P "h @ es" x] by simp
  with snoc show ?case by (auto simp: history_snoc_split)
qed simp

lemma each_eventD: "each_event P (h1 @ e # h2) \<Longrightarrow> P h1 e"
  by (simp add: each_event_def)

text \<open>
  A machine is its step function, the states it may start in, and an invariant of the
  history (the events so far, oldest first) and the state.
\<close>

locale machine =
  fixes exec :: "'op \<Rightarrow> 's \<Rightarrow> 'e list \<times> 's"
    and start :: "'s \<Rightarrow> bool"
    and inv :: "'e list \<Rightarrow> 's \<Rightarrow> bool"
  assumes inv_start: "start s \<Longrightarrow> inv [] s"
    and inv_exec: "inv h s \<Longrightarrow> exec op s = (es, s') \<Longrightarrow> inv (h @ es) s'"
begin

lemma inv_run: "inv h s \<Longrightarrow> run_ops exec ops s = (es, s') \<Longrightarrow> inv (h @ es) s'"
  using run_ops_induct [of inv "\<lambda>_. True" exec h s ops es s'] inv_exec by simp

lemma reachable_inv: "start s \<Longrightarrow> run_ops exec ops s = (h, s') \<Longrightarrow> inv h s'"
  using inv_run [OF inv_start] by fastforce

text \<open>Any point of the history is a point of the run at which the invariant held.\<close>

lemma history_split:
  assumes "start s" "run_ops exec ops s = (h1 @ e # h2, s')"
  obtains xs op ys hx es ey sx where "ops = xs @ op # ys" "run_ops exec xs s = (hx, sx)"
    "fst (exec op sx) = es @ e # ey" "h1 = hx @ es" "inv hx sx"
proof -
  have "\<exists>xs op ys hx es ey sx. ops = xs @ op # ys \<and> run_ops exec xs s = (hx, sx) \<and>
      fst (exec op sx) = es @ e # ey \<and> h1 = hx @ es" if "run_ops exec ops s = (h1 @ e # h2, s')" for s h1
    using that
  proof (induction ops arbitrary: s h1)
    case (Cons op ops)
    obtain e1 s1 where 1: "exec op s = (e1, s1)" by fastforce
    obtain e2 where 2: "run_ops exec ops s1 = (e2, s')" "h1 @ e # h2 = e1 @ e2"
      using Cons.prems 1 by (auto split: prod.splits)
    from 2(2) consider (here) ey where "e1 = h1 @ e # ey" | (later) h where "h1 = e1 @ h" "e2 = h @ e # h2"
      by (auto simp: append_eq_append_conv2 Cons_eq_append_conv)
    then show ?case
    proof cases
      case here
      then show ?thesis using 1
        by (intro exI [of _ "[]"] exI [of _ op] exI [of _ ops] exI [of _ h1] exI [of _ ey] exI [of _ s]) simp
    next
      case later
      then obtain xs op' ys hx es ey sx where r: "ops = xs @ op' # ys" "run_ops exec xs s1 = (hx, sx)"
        "fst (exec op' sx) = es @ e # ey" "h = hx @ es" using Cons.IH 2(1) by blast
      then have "run_ops exec (op # xs) s = (e1 @ hx, sx)" using 1 by simp
      with r later show ?thesis by (metis append.assoc append_Cons)
    qed
  qed simp
  from this [OF assms(2)] obtain xs op ys hx es ey sx where r: "ops = xs @ op # ys" "run_ops exec xs s = (hx, sx)"
    "fst (exec op sx) = es @ e # ey" "h1 = hx @ es" by blast
  then show ?thesis using that reachable_inv [OF assms(1) r(2)] by blast
qed

end

end
