(* ===== verification/Rc5.thy ===== *)
theory Rc5
  imports Prelude
begin

text \<open>
  The RC5 cipher of \<^verbatim>\<open>crypto.py\<close> (class \<open>RC5\<close>): key expansion and the two
  block transforms, for the word sizes 16, 32 and 64 the constructor accepts. The word
  size is the HOL type: a value of type \<open>'a rc5\<close> is an \<open>RC5\<close> object with
  \<^verbatim>\<open>w = LENGTH('w)\<close>, and \<^verbatim>\<open>& self.mask\<close> is the wrap-around of \<open>'w word\<close>.
  The lemmas show that decryption inverts encryption for every key and every number of
  rounds, in both orders.
\<close>

record 'x rc5 =
  rc5_r :: nat
  rc5_S :: "'x list"

definition rc5_ww :: "'w::len itself \<Rightarrow> nat" where
  "rc5_ww t = LENGTH('w) div 8"

definition rc5_P :: "'w::len word" where
  "rc5_P = (if LENGTH('w) = 16 then 0xB7E1
            else if LENGTH('w) = 32 then 0xB7E15163 else 0xB7E151628AED2A6B)"

definition rc5_Q :: "'w::len word" where
  "rc5_Q = (if LENGTH('w) = 16 then 0x9E37
            else if LENGTH('w) = 32 then 0x9E3779B9 else 0x9E3779B97F4A7C15)"

definition rc5_shift :: "'w::len word \<Rightarrow> nat" where
  "rc5_shift y = unat (y AND of_nat (LENGTH('w) - 1))"

definition rc5_rotl :: "'w::len word \<Rightarrow> 'w word \<Rightarrow> 'w word" where
  "rc5_rotl x y = push_bit (rc5_shift y) x OR drop_bit (LENGTH('w) - rc5_shift y) x"

definition rc5_rotr :: "'w::len word \<Rightarrow> 'w word \<Rightarrow> 'w word" where
  "rc5_rotr x y = drop_bit (rc5_shift y) x OR push_bit (LENGTH('w) - rc5_shift y) x"

text \<open>The key bytes, last first, shifted into the little-endian words of \<open>L\<close>.\<close>

definition rc5_load_key :: "nat \<Rightarrow> bytes \<Rightarrow> 'w::len word list" where
  "rc5_load_key u key =
     foldl (\<lambda>L i. L[i div u := push_bit 8 (L ! (i div u)) + ucast (key ! i)])
       (replicate (max 1 ((length key + u - 1) div u)) 0) (rev [0..<length key])"

text \<open>The mixing loop: \<open>n\<close> iterations are left.\<close>

fun rc5_mix ::
  "nat \<Rightarrow> 'w::len word list \<Rightarrow> 'w word list \<Rightarrow> nat \<Rightarrow> nat \<Rightarrow> 'w word \<Rightarrow> 'w word \<Rightarrow> 'w word list"
where
  "rc5_mix 0 S L i j A B = S"
| "rc5_mix (Suc n) S L i j A B =
     (let A' = rc5_rotl (S ! i + A + B) 3;
          B' = rc5_rotl (L ! j + A' + B) (A' + B)
      in rc5_mix n (S[i := A']) (L[j := B'])
           ((i + 1) mod length S) ((j + 1) mod length L) A' B')"

definition rc5_expand :: "nat \<Rightarrow> bytes \<Rightarrow> 'w::len word list" where
  "rc5_expand r key =
     (let L = rc5_load_key (rc5_ww TYPE('w)) key;
          t = 2 * (r + 1);
          S = map (\<lambda>i. rc5_P + of_nat i * rc5_Q) [0..<t]
      in rc5_mix (3 * max t (length L)) S L 0 0 0 0)"

definition rc5_init :: "bytes \<Rightarrow> nat \<Rightarrow> exn + 'w::len word rc5" where
  "rc5_init key rounds =
     (if LENGTH('w) \<noteq> 16 \<and> LENGTH('w) \<noteq> 32 \<and> LENGTH('w) \<noteq> 64 then Inl AssertionError
      else Inr \<lparr>rc5_r = rounds, rc5_S = rc5_expand rounds key\<rparr>)"

section \<open>Block transforms\<close>

text \<open>Round \<open>i\<close> of encryption and its inverse, on the two halves.\<close>

definition rc5_enc_round :: "'w::len word list \<Rightarrow> nat \<Rightarrow> 'w word \<times> 'w word \<Rightarrow> 'w word \<times> 'w word" where
  "rc5_enc_round S i = (\<lambda>(A, B).
     (let A' = rc5_rotl (A XOR B) B + S ! (2 * i);
          B' = rc5_rotl (B XOR A') A' + S ! (2 * i + 1)
      in (A', B')))"

definition rc5_dec_round :: "'w::len word list \<Rightarrow> nat \<Rightarrow> 'w word \<times> 'w word \<Rightarrow> 'w word \<times> 'w word" where
  "rc5_dec_round S i = (\<lambda>(A, B).
     (let B' = rc5_rotr (B - S ! (2 * i + 1)) A XOR A;
          A' = rc5_rotr (A - S ! (2 * i)) B' XOR B'
      in (A', B')))"

text \<open>Rounds \<open>1..r\<close> upwards, and \<open>r..1\<close> downwards.\<close>

primrec rc5_enc_rounds :: "'w::len word list \<Rightarrow> nat \<Rightarrow> 'w word \<times> 'w word \<Rightarrow> 'w word \<times> 'w word" where
  "rc5_enc_rounds S 0 = id"
| "rc5_enc_rounds S (Suc r) = rc5_enc_round S (Suc r) \<circ> rc5_enc_rounds S r"

primrec rc5_dec_rounds :: "'w::len word list \<Rightarrow> nat \<Rightarrow> 'w word \<times> 'w word \<Rightarrow> 'w word \<times> 'w word" where
  "rc5_dec_rounds S 0 = id"
| "rc5_dec_rounds S (Suc r) = rc5_dec_rounds S r \<circ> rc5_dec_round S (Suc r)"

definition rc5_unpack :: "bytes \<Rightarrow> 'w::len word \<times> 'w word" where
  "rc5_unpack b = (let u = rc5_ww TYPE('w) in (of_nat (le_val (take u b)), of_nat (le_val (drop u b))))"

definition rc5_pack :: "'w::len word \<times> 'w word \<Rightarrow> bytes" where
  "rc5_pack = (\<lambda>(A, B). let u = rc5_ww TYPE('w) in le_bytes u (unat A) @ le_bytes u (unat B))"

definition rc5_encrypt_block :: "'w::len word rc5 \<Rightarrow> bytes \<Rightarrow> exn + bytes" where
  "rc5_encrypt_block c b =
     (if length b \<noteq> 2 * rc5_ww TYPE('w) then Inl StructError
      else let (A, B) = rc5_unpack b
           in Inr (rc5_pack (rc5_enc_rounds (rc5_S c) (rc5_r c) (A + rc5_S c ! 0, B + rc5_S c ! 1))))"

definition rc5_decrypt_block :: "'w::len word rc5 \<Rightarrow> bytes \<Rightarrow> exn + bytes" where
  "rc5_decrypt_block c b =
     (if length b \<noteq> 2 * rc5_ww TYPE('w) then Inl StructError
      else let (A, B) = rc5_dec_rounds (rc5_S c) (rc5_r c) (rc5_unpack b)
           in Inr (rc5_pack (A - rc5_S c ! 0, B - rc5_S c ! 1)))"

section \<open>Rotations are mutually inverse\<close>

lemma rc5_shift_lt: "rc5_shift (y :: 'w::len word) < LENGTH('w)"
proof -
  have "y AND of_nat (LENGTH('w) - 1) \<le> (of_nat (LENGTH('w) - 1) :: 'w word)"
    by (rule word_and_le1)
  then have "rc5_shift y \<le> unat (of_nat (LENGTH('w) - 1) :: 'w word)"
    by (simp add: rc5_shift_def word_le_nat_alt)
  also have "\<dots> \<le> LENGTH('w) - 1"
    by (simp add: unat_of_nat)
  finally show ?thesis using len_gt_0 [where 'a = 'w] by linarith
qed

lemma bit_rc5_rotl:
  assumes "n < LENGTH('w)"
  shows "bit (rc5_rotl x y :: 'w::len word) n \<longleftrightarrow>
    bit x (if rc5_shift y \<le> n then n - rc5_shift y else LENGTH('w) + n - rc5_shift y)"
  using rc5_shift_lt [of y] assms
  by (auto simp: rc5_rotl_def bit_simps not_le dest: bit_imp_le_length)

lemma bit_rc5_rotr:
  assumes "n < LENGTH('w)"
  shows "bit (rc5_rotr x y :: 'w::len word) n \<longleftrightarrow>
    bit x (if n + rc5_shift y < LENGTH('w) then n + rc5_shift y else n + rc5_shift y - LENGTH('w))"
  using rc5_shift_lt [of y] assms
  by (auto simp: rc5_rotr_def bit_simps not_less add.commute dest: bit_imp_le_length)

lemma rc5_rotr_rotl [simp]: "rc5_rotr (rc5_rotl x y) y = (x :: 'w::len word)"
  using rc5_shift_lt [of y]
  by (intro bit_word_eqI) (auto simp: bit_rc5_rotl bit_rc5_rotr not_le)

lemma rc5_rotl_rotr [simp]: "rc5_rotl (rc5_rotr x y) y = (x :: 'w::len word)"
  using rc5_shift_lt [of y]
  by (intro bit_word_eqI) (auto simp: bit_rc5_rotl bit_rc5_rotr not_le)

lemma xor_cancel_right [simp]: "(a XOR b) XOR b = (a :: 'w::len word)"
  by (simp add: xor.assoc)

lemma rc5_dec_enc_round [simp]: "rc5_dec_round S i (rc5_enc_round S i ab) = ab"
  by (cases ab) (simp add: rc5_dec_round_def rc5_enc_round_def Let_def)

lemma rc5_enc_dec_round [simp]: "rc5_enc_round S i (rc5_dec_round S i ab) = ab"
  by (cases ab) (simp add: rc5_dec_round_def rc5_enc_round_def Let_def)

lemma rc5_dec_enc_rounds [simp]: "rc5_dec_rounds S r (rc5_enc_rounds S r ab) = ab"
  by (induction r arbitrary: ab) auto

lemma rc5_enc_dec_rounds [simp]: "rc5_enc_rounds S r (rc5_dec_rounds S r ab) = ab"
  by (induction r arbitrary: ab) auto

section \<open>Blocks as byte strings\<close>

lemma length_rc5_pack [simp]: "length (rc5_pack (AB :: 'w::len word \<times> 'w word)) = 2 * rc5_ww TYPE('w)"
  by (simp add: rc5_pack_def Let_def split: prod.split)

lemma rc5_ww_bits: "8 dvd LENGTH('w::len) \<Longrightarrow> (256 :: nat) ^ rc5_ww TYPE('w) = 2 ^ LENGTH('w)"
  by (auto simp: rc5_ww_def power_mult elim!: dvdE)

lemma rc5_unpack_pack:
  assumes "8 dvd LENGTH('w::len)"
  shows "rc5_unpack (rc5_pack AB) = (AB :: 'w word \<times> 'w word)"
  by (cases AB) (simp add: rc5_unpack_def rc5_pack_def Let_def le_val_le_bytes
      rc5_ww_bits [OF assms] unsigned_less [THEN mod_less])

lemma unat_of_nat_le_val:
  assumes "8 dvd LENGTH('w::len)" "length b = rc5_ww TYPE('w)"
  shows "unat (of_nat (le_val b) :: 'w word) = le_val b"
  using le_val_bound [of b] assms by (simp add: unat_of_nat rc5_ww_bits)

lemma rc5_pack_unpack:
  assumes "8 dvd LENGTH('w::len)" "length b = 2 * rc5_ww TYPE('w)"
  shows "rc5_pack (rc5_unpack b :: 'w word \<times> 'w word) = b"
  using assms by (simp add: rc5_unpack_def rc5_pack_def Let_def unat_of_nat_le_val le_bytes_le_val)

lemma rc5_init_width:
  "rc5_init key r = Inr (c :: 'w::len word rc5) \<Longrightarrow> 8 dvd LENGTH('w)"
  by (auto simp: rc5_init_def split: if_splits)

lemma rc5_decrypt_encrypt:
  fixes c :: "'w::len word rc5"
  assumes "8 dvd LENGTH('w)" "length b = 2 * rc5_ww TYPE('w)"
  shows "bind_res (rc5_encrypt_block c b) (rc5_decrypt_block c) = Inr b"
  using assms rc5_pack_unpack [OF assms]
  by (cases "rc5_unpack b :: 'w word \<times> 'w word")
    (simp add: rc5_encrypt_block_def rc5_decrypt_block_def rc5_unpack_pack)

lemma rc5_encrypt_decrypt:
  fixes c :: "'w::len word rc5"
  assumes "8 dvd LENGTH('w)" "length b = 2 * rc5_ww TYPE('w)"
  shows "bind_res (rc5_decrypt_block c b) (rc5_encrypt_block c) = Inr b"
proof -
  obtain A B where AB: "rc5_dec_rounds (rc5_S c) (rc5_r c) (rc5_unpack b) = (A, B)"
    by fastforce
  then have "rc5_enc_rounds (rc5_S c) (rc5_r c) (A, B) = rc5_unpack b"
    by (metis rc5_enc_dec_rounds)
  with AB assms show ?thesis
    by (simp add: rc5_encrypt_block_def rc5_decrypt_block_def rc5_unpack_pack rc5_pack_unpack)
qed

text \<open>
  For every key, every number of rounds and each of the word sizes the constructor
  accepts, decrypting an encrypted block and encrypting a decrypted block both give the
  block back; no such call raises.
\<close>
theorem rc5_block_roundtrip:
  fixes c :: "'w::len word rc5"
  assumes "rc5_init key rounds = Inr c" "length b = 2 * rc5_ww TYPE('w)"
  shows "\<exists>e d. rc5_encrypt_block c b = Inr e \<and> rc5_decrypt_block c e = Inr b \<and>
               rc5_decrypt_block c b = Inr d \<and> rc5_encrypt_block c d = Inr b"
proof -
  note w = rc5_init_width [OF assms(1)]
  from rc5_decrypt_encrypt [OF w assms(2), of c] rc5_encrypt_decrypt [OF w assms(2), of c]
  show ?thesis by (auto simp: bind_res_Inr)
qed

theorem rc5_block_roundtrip_witness:
  "\<exists>c :: 32 word rc5. rc5_init [0x77, 0x77, 0x77, 0x2E] 6 = Inr c \<and>
     (\<exists>e d. rc5_encrypt_block c [1, 2, 3, 4, 5, 6, 7, 8] = Inr e \<and>
        rc5_decrypt_block c e = Inr [1, 2, 3, 4, 5, 6, 7, 8] \<and>
        rc5_decrypt_block c [1, 2, 3, 4, 5, 6, 7, 8] = Inr d \<and>
        rc5_encrypt_block c d = Inr [1, 2, 3, 4, 5, 6, 7, 8])"
proof -
  let ?c = "\<lparr>rc5_r = 6, rc5_S = rc5_expand 6 [0x77, 0x77, 0x77, 0x2E]\<rparr> :: 32 word rc5"
  have "rc5_init [0x77, 0x77, 0x77, 0x2E] 6 = Inr ?c" by (simp add: rc5_init_def)
  moreover have "length [1, 2, 3, 4, 5, 6, 7, 8 :: byte] = 2 * rc5_ww TYPE(32)"
    by (simp add: rc5_ww_def)
  ultimately show ?thesis using rc5_block_roundtrip by blast
qed

end
