(* ===== verification/KeyTransforms.thy ===== *)
theory KeyTransforms
  imports Prelude
begin

text \<open>
  The 32-bit key transforms of \<^verbatim>\<open>crypto.py\<close>: the nibble substitution
  \<open>_sub_nibbles\<close> and the transforms built on it (\<open>decrypt_rkey\<close>,
  \<open>encrypt_rkey\<close>, \<open>gw_m3\<close>, \<open>gw_dm3\<close>), and \<open>gw_encode_password\<close>.
  \<open>_sub_nibbles\<close> also reverses the order of the nibbles; the lemmas describe it on the
  list of base-16 digits, where it is a reversal and a map, so that the inverse tables
  give inverse transforms.
\<close>

definition SBOX :: "nat list" where
  "SBOX = [1, 6, 0xD, 5, 0, 0xC, 0xE, 4, 0xB, 7, 0xF, 2, 8, 0xA, 3, 9]"

definition M3 :: "nat list" where
  "M3 = [4, 8, 0, 0xB, 0xA, 7, 6, 3, 0xD, 0xF, 2, 5, 0xE, 1, 9, 0xC]"

definition py_index :: "'a list \<Rightarrow> 'a \<Rightarrow> nat" where
  "py_index xs v = length (takeWhile (\<lambda>x. x \<noteq> v) xs)"

definition SBOX_INV :: "nat list" where
  "SBOX_INV = map (py_index SBOX) [0..<16]"

definition M3_INV :: "nat list" where
  "M3_INV = map (py_index M3) [0..<16]"

primrec sub_nibbles_loop :: "nat \<Rightarrow> nat list \<Rightarrow> 32 word \<Rightarrow> 32 word \<Rightarrow> 32 word" where
  "sub_nibbles_loop 0 sbox out x = out"
| "sub_nibbles_loop (Suc n) sbox out x =
     sub_nibbles_loop n sbox (push_bit 4 out OR of_nat (sbox ! unat (x AND 0xF))) (drop_bit 4 x)"

definition sub_nibbles :: "32 word \<Rightarrow> nat list \<Rightarrow> 32 word" where
  "sub_nibbles x sbox = sub_nibbles_loop 8 sbox 0 x"

text \<open>\<^verbatim>\<open>((r << k) | (r >> (32 - k))) & 0xFFFFFFFF\<close>\<close>

definition rotl32 :: "nat \<Rightarrow> 32 word \<Rightarrow> 32 word" where
  "rotl32 k r = push_bit k r OR drop_bit (32 - k) r"

definition decrypt_rkey :: "32 word \<Rightarrow> 32 word" where
  "decrypt_rkey x =
     (let r = sub_nibbles (x XOR 0x25C314A6) SBOX;
          r = rotl32 30 r
      in sub_nibbles (r XOR 0x1D74CBA2) SBOX)"

definition encrypt_rkey :: "32 word \<Rightarrow> 32 word" where
  "encrypt_rkey x =
     (let r = sub_nibbles x SBOX_INV XOR 0x1D74CBA2;
          r = rotl32 2 r
      in sub_nibbles r SBOX_INV XOR 0x25C314A6)"

definition gw_m3 :: "32 word \<Rightarrow> 32 word" where
  "gw_m3 x =
     (let r = sub_nibbles x M3 XOR 0xA2E39FD9;
          r = rotl32 2 r
      in sub_nibbles r M3)"

definition gw_dm3 :: "32 word \<Rightarrow> 32 word" where
  "gw_dm3 x =
     (let r = sub_nibbles x M3_INV;
          r = rotl32 30 r
      in sub_nibbles (r XOR 0xA2E39FD9) M3_INV)"

definition gw_encode_password :: "32 word \<Rightarrow> 32 word" where
  "gw_encode_password x = foldl (\<lambda>x i. x * 0xA2E39FD9 + of_nat i) x [0..<17]"

section \<open>Base-16 digits\<close>

fun nibs :: "nat \<Rightarrow> nat \<Rightarrow> nat list" where
  "nibs 0 v = []"
| "nibs (Suc n) v = v mod 16 # nibs n (v div 16)"

fun unnibs :: "nat list \<Rightarrow> nat" where
  "unnibs [] = 0"
| "unnibs (d # ds) = d + 16 * unnibs ds"

lemma length_nibs [simp]: "length (nibs n v) = n"
  by (induction n arbitrary: v) auto

lemma nibs_lt: "d \<in> set (nibs n v) \<Longrightarrow> d < 16"
  by (induction n arbitrary: v) auto

lemma unnibs_nibs: "unnibs (nibs n v) = v mod 16 ^ n"
  by (induction n arbitrary: v) (simp_all add: mod_mult2_eq mult.commute)

lemma nibs_unnibs: "\<forall>d \<in> set ds. d < 16 \<Longrightarrow> nibs (length ds) (unnibs ds) = ds"
  by (induction ds) auto

lemma unnibs_lt: "\<forall>d \<in> set ds. d < 16 \<Longrightarrow> unnibs ds < 16 ^ length ds"
proof (induction ds)
  case Nil
  then show ?case by simp
next
  case (Cons d ds)
  then have "unnibs ds < 16 ^ length ds" "d < 16" by auto
  then have "d + 16 * unnibs ds < 16 * 16 ^ length ds" by linarith
  then show ?case by simp
qed

lemma unnibs_append: "unnibs (xs @ ys) = unnibs xs + 16 ^ length xs * unnibs ys"
  by (induction xs) (simp_all add: algebra_simps)

section \<open>Nibble substitution on digits\<close>

definition sbox_ok :: "nat list \<Rightarrow> bool" where
  "sbox_ok s \<longleftrightarrow> length s = 16 \<and> (\<forall>d \<in> set s. d < 16)"

lemma sbox_ok_tables: "sbox_ok SBOX" "sbox_ok SBOX_INV" "sbox_ok M3" "sbox_ok M3_INV"
  by code_simp+

lemma sbox_ok_nth: "sbox_ok s \<Longrightarrow> d < 16 \<Longrightarrow> s ! d < 16"
  by (simp add: sbox_ok_def)

lemma shift_or_nibble:
  assumes "d < 16"
  shows "unat (push_bit 4 out OR of_nat d :: 32 word) = (16 * unat out + d) mod 2 ^ 32"
proof -
  have "\<not> bit (push_bit 4 out) n \<or> \<not> bit (of_nat d :: 32 word) n" for n
  proof (cases "n < 4")
    case True
    then show ?thesis by (simp add: bit_simps)
  next
    case False
    then have "d < 2 ^ n" using assms power_increasing [of 4 n "2 :: nat"] by simp
    then have "\<not> bit d n" by (simp add: bit_iff_odd)
    then show ?thesis by (simp add: bit_simps)
  qed
  then have "push_bit 4 out OR of_nat d = push_bit 4 out + (of_nat d :: 32 word)"
    by (simp add: disjunctive_add_eq_or bit_eq_iff bit_simps)
  also have "\<dots> = of_nat (16 * unat out + d)"
    by (simp add: push_bit_eq_mult)
  finally show ?thesis by (simp only: unat_of_nat) simp
qed

lemma unat_low_nibble: "unat (x AND 0xF :: 32 word) = unat x mod 16"
proof -
  have "x AND 0xF = take_bit 4 x" by (simp only: take_bit_eq_mask mask_eq_exp_minus_1) simp
  then have "unat (x AND 0xF) = take_bit 4 (unat x)" by (simp only: unsigned_take_bit_eq)
  then show ?thesis by (simp add: take_bit_eq_mod)
qed

lemma unat_drop_nibble: "unat (drop_bit 4 x :: 32 word) = unat x div 16"
  by (simp add: drop_bit_eq_div unat_div_distrib)

lemma unat_sub_nibbles_loop:
  assumes "sbox_ok s"
  shows "unat (sub_nibbles_loop n s out x) =
    (16 ^ n * unat out + unnibs (rev (map ((!) s) (nibs n (unat x))))) mod 2 ^ 32"
proof (induction n arbitrary: out x)
  case 0
  show ?case using unsigned_less [of out, where 'a = nat] by simp
next
  case (Suc n)
  let ?d = "s ! (unat x mod 16)" and ?U = "unnibs (rev (map ((!) s) (nibs n (unat x div 16))))"
  have d: "?d < 16" by (rule sbox_ok_nth [OF assms]) simp
  have "unat (sub_nibbles_loop (Suc n) s out x) =
      (16 ^ n * ((16 * unat out + ?d) mod 2 ^ 32) + ?U) mod 2 ^ 32"
    by (simp add: Suc.IH unat_low_nibble unat_drop_nibble shift_or_nibble [OF d])
  also have "\<dots> = (16 ^ n * (16 * unat out + ?d) + ?U) mod 2 ^ 32"
    by (metis mod_add_left_eq mod_mult_right_eq)
  also have "\<dots> = (16 ^ Suc n * unat out + (?U + 16 ^ n * ?d)) mod 2 ^ 32"
    by (simp add: algebra_simps)
  finally show ?case by (simp add: unnibs_append)
qed

lemma set_map_nth_lt: "sbox_ok s \<Longrightarrow> \<forall>d \<in> set (map ((!) s) (nibs n v)). d < 16"
  by (auto dest: nibs_lt intro: sbox_ok_nth)

lemma unat_sub_nibbles:
  assumes "sbox_ok s"
  shows "unat (sub_nibbles x s) = unnibs (rev (map ((!) s) (nibs 8 (unat x))))"
  using unnibs_lt [of "rev (map ((!) s) (nibs 8 (unat x)))"] set_map_nth_lt [OF assms, of 8 "unat x"]
  by (simp add: sub_nibbles_def unat_sub_nibbles_loop [OF assms])

lemma nibs_sub_nibbles:
  assumes "sbox_ok s"
  shows "nibs 8 (unat (sub_nibbles x s)) = rev (map ((!) s) (nibs 8 (unat x)))"
  using nibs_unnibs [of "rev (map ((!) s) (nibs 8 (unat x)))"] set_map_nth_lt [OF assms]
  by (simp add: unat_sub_nibbles [OF assms])

lemma sub_nibbles_inverse:
  assumes "sbox_ok s" "sbox_ok t" "\<And>d. d < 16 \<Longrightarrow> t ! (s ! d) = d"
  shows "sub_nibbles (sub_nibbles x s) t = x"
proof (rule word_unat_eq_iff [THEN iffD2])
  have "map ((!) t \<circ> (!) s) (nibs 8 (unat x)) = nibs 8 (unat x)"
    by (rule map_idI) (auto dest!: nibs_lt simp: assms(3))
  then have "unat (sub_nibbles (sub_nibbles x s) t) = unnibs (nibs 8 (unat x))"
    by (simp add: unat_sub_nibbles [OF assms(2)] nibs_sub_nibbles [OF assms(1)] rev_map [symmetric])
  then show "unat (sub_nibbles (sub_nibbles x s) t) = unat x"
    using unsigned_less [of x, where 'a = nat] by (simp add: unnibs_nibs)
qed

lemma sbox_tables_inverse:
  "\<forall>d < 16. SBOX_INV ! (SBOX ! d) = d" "\<forall>d < 16. SBOX ! (SBOX_INV ! d) = d"
  "\<forall>d < 16. M3_INV ! (M3 ! d) = d" "\<forall>d < 16. M3 ! (M3_INV ! d) = d"
  by code_simp+

lemmas sub_nibbles_inverses [simp] =
  sub_nibbles_inverse [OF sbox_ok_tables(1,2) sbox_tables_inverse(1) [rule_format]]
  sub_nibbles_inverse [OF sbox_ok_tables(2,1) sbox_tables_inverse(2) [rule_format]]
  sub_nibbles_inverse [OF sbox_ok_tables(3,4) sbox_tables_inverse(3) [rule_format]]
  sub_nibbles_inverse [OF sbox_ok_tables(4,3) sbox_tables_inverse(4) [rule_format]]

lemma bit_rotl32: "k < 32 \<Longrightarrow> n < 32 \<Longrightarrow> bit (rotl32 k r) n = bit r (if k \<le> n then n - k else 32 + n - k)"
  by (auto simp: rotl32_def bit_simps not_le dest: bit_imp_le_length)

lemma rotl32_inverses [simp]: "rotl32 30 (rotl32 2 r) = r" "rotl32 2 (rotl32 30 r) = r"
  by (rule bit_word_eqI; auto simp: bit_rotl32 not_le)+

text \<open>
  The session-key transform is a bijection on 32-bit values: encrypting and
  decrypting an RKey are mutually inverse, and so are the two challenge transforms.
\<close>
theorem key_transforms_inverse:
  "encrypt_rkey (decrypt_rkey x) = x \<and> decrypt_rkey (encrypt_rkey x) = x \<and>
   gw_dm3 (gw_m3 x) = x \<and> gw_m3 (gw_dm3 x) = x"
  by (simp add: encrypt_rkey_def decrypt_rkey_def gw_m3_def gw_dm3_def xor.assoc)

text \<open>
  The numeric password encoding loses nothing: two 32-bit passwords with the same
  encoding are equal.
\<close>
theorem gw_encode_password_inj: "gw_encode_password x = gw_encode_password y \<longleftrightarrow> x = y"
proof -
  have step: "inj (\<lambda>x :: 32 word. x * 0xA2E39FD9 + of_nat i)" for i
  proof (rule injI)
    fix x y :: "32 word"
    assume "x * 0xA2E39FD9 + of_nat i = y * 0xA2E39FD9 + of_nat i"
    then have "x * (0xA2E39FD9 * 0xac08f069) = y * (0xA2E39FD9 * 0xac08f069)"
      by (simp only: mult.assoc [symmetric] add_right_cancel)
    moreover have "0xA2E39FD9 * 0xac08f069 = (1 :: 32 word)" by simp
    ultimately show "x = y" by (simp only: mult_1_right)
  qed
  have "inj (\<lambda>x :: 32 word. foldl (\<lambda>x i. x * 0xA2E39FD9 + of_nat i) x is)" for "is"
  proof (induction "is")
    case Nil
    show ?case by simp
  next
    case (Cons i "is")
    from inj_compose [OF Cons step [of i]] show ?case by (simp add: comp_def)
  qed
  then show ?thesis by (auto simp: gw_encode_password_def dest: injD)
qed

end
