(* ===== verification/GuteFrame.thy ===== *)
theory GuteFrame
  imports Rc5
begin

text \<open>
  The gute frame of \<^verbatim>\<open>crypto.py\<close>: the two checksums, the length of the encrypted
  payload, and the frame encryption of modes 0, 1 and 2, with the sealing helpers of
  \<^verbatim>\<open>wire.py\<close>. A frame is a byte string whose header holds its length (offset 2), an
  identity (4), sequence (0xC) and checksum (0x10) words and the flags (0x14); the
  payload starts at 0x18. Encryption rewrites sequence, checksum and payload with a
  payload cipher and masks the identity; the locale \<open>block_cipher\<close> states what that
  construction needs of the cipher, and the frame round trip is proved once in it.
\<close>

definition BASE_SESSION_KEY :: bytes where
  "BASE_SESSION_KEY = [0x77, 0x77, 0x77, 0x2E, 0x67, 0x77, 0x65, 0x6C, 0x6C, 0x2E, 0x63, 0x63]"

section \<open>Checksums\<close>

definition gute_checksum :: "bytes \<Rightarrow> exn + nat" where
  "gute_checksum hdr =
     (if length hdr < 0x18 then Inl StructError
      else Inr ((u32_at hdr 0 + u32_at hdr 4 + u32_at hdr 8 + u32_at hdr 0xC + u32_at hdr 0x14) mod 2 ^ 32))"

definition set_checksum :: "bytes \<Rightarrow> exn + bytes" where
  "set_checksum frm = bind_res (gute_checksum frm) (\<lambda>c. Inr (put frm 0x10 (le_bytes 4 c)))"

definition verify_checksum :: "bytes \<Rightarrow> exn + bool" where
  "verify_checksum frm =
     (if length frm < 0x14 then Inl StructError
      else bind_res (gute_checksum frm) (\<lambda>c. Inr (u32_at frm 0x10 = c)))"

definition modern_encrypted_data_len :: "bytes \<Rightarrow> exn + nat" where
  "modern_encrypted_data_len frm =
     (if length frm < 0x18 then Inl (ValueError ''truncated gute frame'')
      else let declared = u16_at frm 2
      in if declared \<noteq> length frm then Inl (ValueError ''invalid gute frame length'')
      else let flags = u32_at frm 0x14;
               n = int declared - 0x18;
               n = (if bit flags 22 then n - 0x50 else n);
               n = (if bit flags 24 then n - 0x10 else n)
      in if n < 0 then Inl (ValueError ''invalid gute encrypted length'') else Inr (nat n))"

definition frame_length_ok :: "bytes \<Rightarrow> bool" where
  "frame_length_ok frm \<longleftrightarrow> \<not> (length frm < 0x18 \<or> u16_at frm 2 \<noteq> length frm)"

definition gute_mode1_xor_checksum :: "bytes \<Rightarrow> exn + nat" where
  "gute_mode1_xor_checksum frm =
     (if \<not> frame_length_ok frm then Inl (ValueError ''invalid gute frame length'')
      else bind_res (modern_encrypted_data_len frm) (\<lambda>n.
        let flags = u32_at frm 0x14;
            out = foldl (\<lambda>out off. out XOR u32_at frm off) (flags AND 0xFFFFFF) [0, 4, 8, 0xC];
            out = foldl (\<lambda>out i. out XOR u32_at frm (0x18 + 4 * i)) out [0..<n div 4]
        in Inr (out AND 0xFFFFFFFF)))"

section \<open>Encryption of the payload and of the identity\<close>

text \<open>The loop over the complete eight-byte payload blocks, in the order of the index.\<close>

primrec crypt_blocks :: "(bytes \<Rightarrow> exn + bytes) \<Rightarrow> bytes \<Rightarrow> nat \<Rightarrow> bytes \<Rightarrow> exn + bytes" where
  "crypt_blocks transform src 0 out = Inr out"
| "crypt_blocks transform src (Suc n) out =
     bind_res (crypt_blocks transform src n out) (\<lambda>out.
       bind_res (transform (pyslice src (0x18 + n * 8) (0x18 + n * 8 + 8))) (\<lambda>b.
         Inr (put out (0x18 + n * 8) b)))"

definition modern_crypt_payload :: "(bytes \<Rightarrow> exn + bytes) \<Rightarrow> bytes \<Rightarrow> bytes \<Rightarrow> exn + bytes" where
  "modern_crypt_payload transform src out =
     bind_res (transform (pyslice src 0xC 0x14)) (\<lambda>b.
       bind_res (modern_encrypted_data_len src) (\<lambda>n.
         crypt_blocks transform src (n div 8) (put out 0xC b)))"

definition base_rc5 :: "exn + 32 word rc5" where
  "base_rc5 = rc5_init BASE_SESSION_KEY 6"

definition modern_decrypt_id :: "bytes \<Rightarrow> bytes \<Rightarrow> exn + bytes" where
  "modern_decrypt_id out wire =
     (let masked = le_bytes 4 (u32_at wire 4 XOR u32_at wire 0xC) @
                   le_bytes 4 (u32_at wire 8 XOR u32_at wire 0x10)
      in bind_res base_rc5 (\<lambda>c. bind_res (rc5_decrypt_block c masked) (\<lambda>b. Inr (put out 4 b))))"

definition modern_encrypt_id :: "bytes \<Rightarrow> bytes \<Rightarrow> exn + bytes" where
  "modern_encrypt_id out plain =
     bind_res base_rc5 (\<lambda>c. bind_res (rc5_encrypt_block c (pyslice plain 4 12)) (\<lambda>e.
       let out = put out 4 (le_bytes 4 (u32_at e 0 XOR u32_at out 0xC))
       in Inr (put out 8 (le_bytes 4 (u32_at e 4 XOR u32_at out 0x10)))))"

section \<open>The three frame modes\<close>

definition mode1_key :: "bytes \<Rightarrow> bytes" where
  "mode1_key frm = pyslice frm 0 4 @ pyslice frm 0x14 0x17 @ [0]"

definition gute_mode1_decrypt :: "bytes \<Rightarrow> exn + bytes" where
  "gute_mode1_decrypt wire =
     (if \<not> frame_length_ok wire then Inl (ValueError ''invalid gute frame length'')
      else if wire ! 0x16 AND 3 \<noteq> 1 then Inl (ValueError ''gute_mode1_decrypt requires mode 1'')
      else bind_res (modern_decrypt_id wire wire) (\<lambda>out.
        bind_res (rc5_init (mode1_key wire) 6 :: exn + 32 word rc5) (\<lambda>c.
          modern_crypt_payload (rc5_decrypt_block c) wire out)))"

definition gute_mode1_encrypt :: "bytes \<Rightarrow> exn + bytes" where
  "gute_mode1_encrypt plain =
     (if \<not> frame_length_ok plain then Inl (ValueError ''invalid gute frame length'')
      else if plain ! 0x16 AND 3 \<noteq> 1 then Inl (ValueError ''gute_mode1_encrypt requires mode 1'')
      else bind_res (rc5_init (mode1_key plain) 6 :: exn + 32 word rc5) (\<lambda>c.
        bind_res (modern_crypt_payload (rc5_encrypt_block c) plain plain) (\<lambda>out.
          modern_encrypt_id out plain)))"

definition gute_mode2_decrypt :: "bytes \<Rightarrow> bytes \<Rightarrow> exn + bytes" where
  "gute_mode2_decrypt wire session_key =
     (if length session_key \<noteq> 32 then Inl (ValueError ''modern mode-2 requires a 32-byte session key'')
      else if \<not> frame_length_ok wire then Inl (ValueError ''invalid gute frame length'')
      else if wire ! 0x16 AND 3 \<noteq> 2 then Inl (ValueError ''gute_mode2_decrypt requires mode 2'')
      else bind_res (modern_decrypt_id wire wire) (\<lambda>out.
        bind_res (rc5_init session_key 6 :: exn + 32 word rc5) (\<lambda>c.
          modern_crypt_payload (rc5_decrypt_block c) wire out)))"

definition gute_mode2_encrypt :: "bytes \<Rightarrow> bytes \<Rightarrow> exn + bytes" where
  "gute_mode2_encrypt plain session_key =
     (if length session_key \<noteq> 32 then Inl (ValueError ''modern mode-2 requires a 32-byte session key'')
      else if \<not> frame_length_ok plain then Inl (ValueError ''invalid gute frame length'')
      else if plain ! 0x16 AND 3 \<noteq> 2 then Inl (ValueError ''gute_mode2_encrypt requires mode 2'')
      else bind_res (rc5_init session_key 6 :: exn + 32 word rc5) (\<lambda>c.
        bind_res (modern_crypt_payload (rc5_encrypt_block c) plain plain) (\<lambda>out.
          modern_encrypt_id out plain)))"

definition gute_mode0_decrypt :: "bytes \<Rightarrow> exn + bytes" where
  "gute_mode0_decrypt wire =
     (if \<not> frame_length_ok wire then Inl (ValueError ''invalid gute frame length'')
      else if wire ! 0x16 AND 3 \<noteq> 0 then Inl (ValueError ''gute_mode0_decrypt requires mode 0'')
      else modern_decrypt_id wire wire)"

definition gute_mode0_encrypt :: "bytes \<Rightarrow> exn + bytes" where
  "gute_mode0_encrypt plain =
     (if \<not> frame_length_ok plain then Inl (ValueError ''invalid gute frame length'')
      else if plain ! 0x16 AND 3 \<noteq> 0 then Inl (ValueError ''gute_mode0_encrypt requires mode 0'')
      else modern_encrypt_id plain plain)"

section \<open>Sealing (wire.py)\<close>

definition hash_string :: "bytes \<Rightarrow> 32 word" where
  "hash_string data =
     foldl (\<lambda>v b. v XOR (push_bit 5 v + ucast b + drop_bit 2 v)) 0x4E67C6A7 data"

definition new_header :: "int \<Rightarrow> nat \<Rightarrow> int \<Rightarrow> int \<Rightarrow> int \<Rightarrow> exn + bytes" where
  "new_header subtype len identity sequence flags =
     (if len < 2 then Inl IndexError
      else if \<not> (0 \<le> subtype \<and> subtype \<le> 255) then Inl (ValueError ''byte must be in range(0, 256)'')
      else if len < 0x18 \<or> len > 0xFFFF then Inl StructError
      else Inr (put (put (put (put (put (put (replicate len 0) 0 [0x7F]) 1 [of_int subtype])
             2 (le_bytes 2 len)) 4 (le_bytes 8 (mask_int 64 identity)))
             0x0C (le_bytes 4 (mask_int 32 sequence))) 0x14 (le_bytes 4 (mask_int 32 flags))))"

text \<open>\<open>rand15\<close> is the value of \<^verbatim>\<open>secrets.randbits(15)\<close>.\<close>

definition randomized_flags :: "nat \<Rightarrow> nat \<Rightarrow> nat \<Rightarrow> nat \<Rightarrow> nat" where
  "randomized_flags rand15 md proc extra =
     ((extra OR push_bit 1 (rand15 AND 0x7FFF)) OR push_bit 16 (md AND 3)) OR push_bit 18 (proc AND 3)"

definition finish_mode1 :: "bytes \<Rightarrow> exn + bytes" where
  "finish_mode1 frame =
     bind_res (gute_mode1_xor_checksum frame) (\<lambda>c. gute_mode1_encrypt (put frame 0x10 (le_bytes 4 c)))"

definition finish_mode2 :: "bytes \<Rightarrow> bytes \<Rightarrow> exn + bytes" where
  "finish_mode2 frame session_key =
     bind_res (gute_mode1_xor_checksum frame) (\<lambda>c.
       gute_mode2_encrypt (put frame 0x10 (le_bytes 4 c)) session_key)"

section \<open>Frames as segments\<close>

text \<open>
  The proofs split a frame as \<open>a @ i @ s @ l @ concat bs @ t\<close>: four bytes, the
  identity, the sequence and checksum words, the flags, the complete blocks of the
  encrypted payload and the tail that stays clear.
\<close>

lemma crypt_blocks_map:
  assumes "list_all2 (\<lambda>b c. length b = 8 \<and> transform b = Inr c \<and> length c = 8) bs bs'"
    and "length pre = 24" "length pre' = 24" "length cs = length bs" "\<forall>c \<in> set cs. length c = 8"
  shows "crypt_blocks transform (pre @ concat bs @ t) (length bs) (pre' @ concat cs @ t') =
    Inr (pre' @ concat bs' @ t')"
  using assms
proof (induction bs arbitrary: bs' cs t t' rule: rev_induct)
  case Nil
  then show ?case by simp
next
  case (snoc b bs)
  let ?n = "length bs" and ?P = "\<lambda>b c. length b = 8 \<and> transform b = Inr c \<and> length c = 8"
  obtain cs' c where cs: "cs = cs' @ [c]" "length cs' = ?n"
    using snoc.prems(4) by (cases cs rule: rev_cases) auto
  obtain ds d where ds: "bs' = ds @ [d]" "list_all2 ?P bs ds" "?P b d"
    using snoc.prems(1) by (auto simp: list_all2_append1 list_all2_Cons1)
  have IH: "crypt_blocks transform (pre @ concat bs @ b @ t) ?n (pre' @ concat cs' @ c @ t') =
      Inr (pre' @ concat ds @ c @ t')"
    using snoc.prems cs ds by (intro snoc.IH) auto
  have "\<forall>x \<in> set bs. length x = 8" "\<forall>x \<in> set ds. length x = 8" "length ds = ?n"
    using ds(2) by (auto simp: list_all2_conv_all_nth in_set_conv_nth)
  then have len: "length (pre @ concat bs) = 24 + ?n * 8" "length (pre' @ concat ds) = 24 + ?n * 8"
    using snoc.prems by (simp_all add: length_concat_const [where n = 8])
  have "pyslice ((pre @ concat bs) @ b @ t) (24 + ?n * 8) (24 + ?n * 8 + 8) = b"
    using len ds by (intro slice_middle) auto
  moreover have "put ((pre' @ concat ds) @ c @ t') (24 + ?n * 8) d = (pre' @ concat ds) @ d @ t'"
    using snoc.prems len cs ds by (intro put_middle) auto
  ultimately show ?case using IH cs ds by simp
qed

lemma frame_segments:
  assumes "24 + m * 8 \<le> length p"
  obtains a i s l bs t where "p = a @ i @ s @ l @ concat bs @ t"
    "length a = 4" "length i = 8" "length s = 8" "length l = 4" "length bs = m" "\<forall>b \<in> set bs. length b = 8"
proof -
  obtain a r1 where 1: "p = a @ r1" "length a = 4" using split_at [of 4 p] assms by auto
  obtain i r2 where 2: "r1 = i @ r2" "length i = 8" using split_at [of 8 r1] assms 1 by auto
  obtain s r3 where 3: "r2 = s @ r3" "length s = 8" using split_at [of 8 r2] assms 1 2 by auto
  obtain l r4 where 4: "r3 = l @ r4" "length l = 4" using split_at [of 4 r3] assms 1 2 3 by auto
  obtain bs t where "r4 = concat bs @ t" "length bs = m" "\<forall>b \<in> set bs. length b = 8"
    using split_chunks [of m 8 r4] assms 1 2 3 4 by auto
  with 1 2 3 4 show ?thesis by (intro that [of a i s l bs t]) auto
qed

lemma data_len_bound: "modern_encrypted_data_len p = Inr n \<Longrightarrow> 24 + n div 8 * 8 \<le> length p"
  by (auto simp: modern_encrypted_data_len_def Let_def split: if_splits)

text \<open>The length of the encrypted payload depends on the first four bytes, the flags and the length.\<close>

lemma data_len_cong:
  assumes "length a = 4" "length l = 4" "length x = 16" "length x' = 16" "length y = length y'"
  shows "modern_encrypted_data_len (a @ x @ l @ y) = modern_encrypted_data_len (a @ x' @ l @ y')"
proof -
  have "pyslice (a @ x @ l @ y) 2 4 = pyslice (a @ x' @ l @ y') 2 4"
    using assms by (simp add: slice_append_left)
  moreover have "pyslice ((a @ x) @ l @ y) 20 24 = l" "pyslice ((a @ x') @ l @ y') 20 24 = l"
    using assms by (intro slice_middle; simp)+
  ultimately show ?thesis using assms by (simp add: modern_encrypted_data_len_def Let_def)
qed

section \<open>Payload cipher round trip\<close>

text \<open>
  What the frame construction needs of its payload cipher: on eight-byte blocks \<open>E\<close>
  returns an eight-byte block that \<open>D\<close> maps back.
\<close>

locale block_cipher =
  fixes E D :: "bytes \<Rightarrow> exn + bytes"
  assumes block: "length b = 8 \<Longrightarrow> \<exists>e. E b = Inr e \<and> length e = 8 \<and> D e = Inr b"
begin

lemma payload_roundtrip:
  assumes n: "modern_encrypted_data_len (a @ i @ s @ l @ concat bs @ t) = Inr n"
    and len: "length a = 4" "length i = 8" "length s = 8" "length l = 4" "length bs = n div 8"
      "\<forall>b \<in> set bs. length b = 8"
  shows "\<exists>s' bs'. length s' = 8 \<and> length bs' = n div 8 \<and> (\<forall>b \<in> set bs'. length b = 8) \<and>
    modern_crypt_payload E (a @ i @ s @ l @ concat bs @ t) (a @ i @ s @ l @ concat bs @ t) =
      Inr (a @ i @ s' @ l @ concat bs' @ t) \<and>
    (\<forall>j j'. length j = 8 \<longrightarrow> length j' = 8 \<longrightarrow>
      modern_crypt_payload D (a @ j @ s' @ l @ concat bs' @ t) (a @ j' @ s' @ l @ concat bs' @ t) =
        Inr (a @ j' @ s @ l @ concat bs @ t))"
proof -
  obtain f where f: "\<And>b. length b = 8 \<Longrightarrow> E b = Inr (f b) \<and> length (f b) = 8 \<and> D (f b) = Inr b"
    using block by metis
  have sl: "pyslice ((a @ j) @ x @ l @ y) 12 20 = x" if "length j = 8" "length x = 8" for j x and y :: bytes
    using that len by (intro slice_middle) auto
  have pt: "put ((a @ j) @ x @ l @ y) 12 x' = (a @ j) @ x' @ l @ y"
    if "length j = 8" "length x = 8" "length x' = 8" for j x x' and y :: bytes
    using that len by (intro put_middle) auto
  have enc: "crypt_blocks E ((a @ i @ s @ l) @ concat bs @ t) (length bs) ((a @ i @ f s @ l) @ concat bs @ t) =
      Inr ((a @ i @ f s @ l) @ concat (map f bs) @ t)"
    using len f by (intro crypt_blocks_map) (auto simp: list_all2_map2 list_all2_same)
  have dec: "crypt_blocks D ((a @ j @ f s @ l) @ concat (map f bs) @ t) (length (map f bs))
      ((a @ j' @ s @ l) @ concat (map f bs) @ t) = Inr ((a @ j' @ s @ l) @ concat bs @ t)"
    if "length j = 8" "length j' = 8" for j j'
    using that len f by (intro crypt_blocks_map) (auto simp: list_all2_map1 list_all2_same)
  have n': "modern_encrypted_data_len (a @ j @ f s @ l @ concat (map f bs) @ t) = Inr n"
    if "length j = 8" for j
    using that n len f data_len_cong [of a l "i @ s" "j @ f s" "concat bs @ t" "concat (map f bs) @ t"]
    by (simp add: length_concat_const [where n = 8])
  have "modern_crypt_payload E (a @ i @ s @ l @ concat bs @ t) (a @ i @ s @ l @ concat bs @ t) =
      Inr (a @ i @ f s @ l @ concat (map f bs) @ t)"
    using n enc len f sl [of i s] pt [of i s "f s"] by (simp add: modern_crypt_payload_def)
  moreover have "modern_crypt_payload D (a @ j @ f s @ l @ concat (map f bs) @ t)
      (a @ j' @ f s @ l @ concat (map f bs) @ t) = Inr (a @ j' @ s @ l @ concat bs @ t)"
    if "length j = 8" "length j' = 8" for j j'
    using that n' dec len f sl [of j "f s"] pt [of j' "f s" s] by (simp add: modern_crypt_payload_def)
  ultimately show ?thesis using len f by (intro exI [of _ "f s"] exI [of _ "map f bs"]) auto
qed

end

interpretation rc5_32: block_cipher "rc5_encrypt_block c" "rc5_decrypt_block c" for c :: "32 word rc5"
proof
  fix b :: bytes assume b: "length b = 8"
  then have w: "8 dvd LENGTH(32)" "length b = 2 * rc5_ww TYPE(32)" by (simp_all add: rc5_ww_def)
  obtain e where "rc5_encrypt_block c b = Inr e" "rc5_decrypt_block c e = Inr b"
    using rc5_decrypt_encrypt [OF w, of c] by (auto simp: bind_res_Inr)
  moreover from this have "length e = 8"
    by (auto simp: rc5_decrypt_block_def rc5_ww_def split: if_splits)
  ultimately show "\<exists>e. rc5_encrypt_block c b = Inr e \<and> length e = 8 \<and> rc5_decrypt_block c e = Inr b"
    by blast
qed

section \<open>The masked identity\<close>

lemma base_rc5_ok: "\<exists>c. base_rc5 = Inr c"
  by (simp add: base_rc5_def rc5_init_def)

lemma le_val4_lt: "length b = 4 \<Longrightarrow> le_val b < 2 ^ 32"
  using le_val_bound [of b] by simp

lemma le_val4_xor:
  assumes "length b = 4" "length c = 4"
  shows "le_val (le_bytes 4 (le_val b XOR le_val c)) = le_val b XOR le_val c"
proof -
  have "take_bit 32 (le_val b XOR le_val c) = le_val b XOR le_val c"
    by (simp only: take_bit_xor take_bit_nat_eq_self [OF le_val4_lt [OF assms(1)]]
        take_bit_nat_eq_self [OF le_val4_lt [OF assms(2)]])
  then show ?thesis by (simp add: le_val_le_bytes take_bit_eq_mod)
qed

lemma mask_unmask: "length b = 4 \<Longrightarrow> length c = 4 \<Longrightarrow>
    le_bytes 4 (le_val (le_bytes 4 (le_val b XOR le_val c)) XOR le_val c) = b"
  by (simp add: le_val4_xor xor.assoc le_bytes_le_val)

text \<open>
  Masking the identity with the encrypted sequence and checksum words and unmasking it
  with the same words is the identity, whatever those words are.
\<close>

lemma id_roundtrip:
  assumes len: "length a = 4" "length i = 8" "length k = 8" "length s = 8" "length s' = 8"
  shows "\<exists>j. length j = 8 \<and>
    modern_encrypt_id (a @ k @ s @ r) (a @ i @ s' @ r') = Inr (a @ j @ s @ r) \<and>
    (\<forall>m. length m = 8 \<longrightarrow> modern_decrypt_id (a @ m @ s @ r) (a @ j @ s @ r) = Inr (a @ i @ s @ r))"
proof -
  obtain c where c: "base_rc5 = Inr c" using base_rc5_ok by blast
  obtain e where e: "rc5_encrypt_block c i = Inr e" "length e = 8" "rc5_decrypt_block c e = Inr i"
    using rc5_32.block [OF len(2)] by blast
  obtain e1 e2 where e12: "e = e1 @ e2" "length e1 = 4" "length e2 = 4" using split_at [of 4 e] e by auto
  obtain s1 s2 where s12: "s = s1 @ s2" "length s1 = 4" "length s2 = 4" using split_at [of 4 s] len by auto
  obtain k1 k2 where k12: "k = k1 @ k2" "length k1 = 4" "length k2 = 4" using split_at [of 4 k] len by auto
  let ?m1 = "le_bytes 4 (le_val e1 XOR le_val s1)" and ?m2 = "le_bytes 4 (le_val e2 XOR le_val s2)"
  have sl: "pyslice (a @ x @ y @ z @ w @ v) 4 8 = x" "pyslice (a @ x @ y @ z @ w @ v) 8 12 = y"
    "pyslice (a @ x @ y @ z @ w @ v) 12 16 = z" "pyslice (a @ x @ y @ z @ w @ v) 16 20 = w"
    if "length x = 4" "length y = 4" "length z = 4" "length w = 4" for x y z w v
    using that len by (simp_all add: pyslice_def)
  have pt: "put (a @ x @ y @ v) 4 x' = a @ x' @ y @ v" "put (a @ x @ y @ v) 8 y' = a @ x @ y' @ v"
    "put (a @ x @ y @ v) 4 i = a @ i @ v"
    if "length x = 4" "length y = 4" "length x' = 4" "length y' = 4" for x x' y y' v
    using that len by (simp_all add: put_def)
  have pi: "pyslice (a @ i @ s' @ r') 4 12 = i" and ee: "pyslice (e1 @ e2) 0 4 = e1" "pyslice (e1 @ e2) 4 8 = e2"
    using len e12 by (simp_all add: pyslice_def)
  have "modern_encrypt_id (a @ k @ s @ r) (a @ i @ s' @ r') = Inr (a @ (?m1 @ ?m2) @ s @ r)"
    using s12 k12 by (simp add: modern_encrypt_id_def c e(1) [unfolded e12(1)] sl pt pi ee Let_def)
  moreover have "modern_decrypt_id (a @ m @ s @ r) (a @ (?m1 @ ?m2) @ s @ r) = Inr (a @ i @ s @ r)"
    if m: "length m = 8" for m
  proof -
    obtain m1 m2 where "m = m1 @ m2" "length m1 = 4" "length m2 = 4" using split_at [of 4 m] m by auto
    with e(3) e12 s12 show ?thesis by (simp add: modern_decrypt_id_def c sl pt mask_unmask Let_def)
  qed
  ultimately show ?thesis by (intro exI [of _ "?m1 @ ?m2"]) simp
qed

section \<open>Frame round trips\<close>

text \<open>Encryption keeps the bytes the length and mode tests and the mode-1 key read.\<close>

lemma header_kept:
  assumes "length a = 4" "length x = 16" "length x' = 16" "length l = 4" "length y = length y'"
  shows "frame_length_ok (a @ x @ l @ y) = frame_length_ok (a @ x' @ l @ y')"
    "(a @ x @ l @ y) ! 0x16 = (a @ x' @ l @ y') ! 0x16"
    "mode1_key (a @ x @ l @ y) = mode1_key (a @ x' @ l @ y')"
  using assms by (simp_all add: frame_length_ok_def pyslice_def nth_append mode1_key_def)

text \<open>
  The construction shared by modes 1 and 2: payload encryption followed by identity
  masking, undone by unmasking followed by payload decryption.
\<close>

lemma frame_roundtrip:
  fixes c :: "32 word rc5"
  assumes n: "modern_encrypted_data_len p = Inr n"
  shows "\<exists>w out. bind_res (modern_crypt_payload (rc5_encrypt_block c) p p) (\<lambda>out. modern_encrypt_id out p) = Inr w \<and>
    modern_decrypt_id w w = Inr out \<and> modern_crypt_payload (rc5_decrypt_block c) w out = Inr p \<and>
    frame_length_ok w = frame_length_ok p \<and> w ! 0x16 = p ! 0x16 \<and> mode1_key w = mode1_key p \<and>
    length w = length p"
proof -
  obtain a i s l bs t where p: "p = a @ i @ s @ l @ concat bs @ t"
    and len: "length a = 4" "length i = 8" "length s = 8" "length l = 4" "length bs = n div 8"
      "\<forall>b \<in> set bs. length b = 8"
    using frame_segments [OF data_len_bound [OF n]] by metis
  obtain s' bs' where s': "length s' = 8" "length bs' = n div 8" "\<forall>b \<in> set bs'. length b = 8"
    and enc: "modern_crypt_payload (rc5_encrypt_block c) p p = Inr (a @ i @ s' @ l @ concat bs' @ t)"
    and dec: "\<And>j j'. length j = 8 \<Longrightarrow> length j' = 8 \<Longrightarrow>
      modern_crypt_payload (rc5_decrypt_block c) (a @ j @ s' @ l @ concat bs' @ t)
        (a @ j' @ s' @ l @ concat bs' @ t) = Inr (a @ j' @ s @ l @ concat bs @ t)"
    using rc5_32.payload_roundtrip [OF n [unfolded p] len] unfolding p by blast
  obtain j where j: "length j = 8"
    "modern_encrypt_id (a @ i @ s' @ l @ concat bs' @ t) p = Inr (a @ j @ s' @ l @ concat bs' @ t)"
    "\<And>m. length m = 8 \<Longrightarrow> modern_decrypt_id (a @ m @ s' @ l @ concat bs' @ t)
      (a @ j @ s' @ l @ concat bs' @ t) = Inr (a @ i @ s' @ l @ concat bs' @ t)"
    using id_roundtrip [OF len(1,2,2) s'(1) len(3), of "l @ concat bs' @ t" "l @ concat bs @ t"]
    unfolding p by blast
  have lc: "length (concat bs' @ t) = length (concat bs @ t)"
    using len s' by (simp add: length_concat_const [where n = 8])
  show ?thesis
    using enc j dec [OF j(1) len(2)] len s' lc
      header_kept [of a "j @ s'" "i @ s" l "concat bs' @ t" "concat bs @ t"]
    by (intro exI [of _ "a @ j @ s' @ l @ concat bs' @ t"] exI [of _ "a @ i @ s' @ l @ concat bs' @ t"])
      (auto simp: p)
qed

lemma mode_encrypt_decrypt:
  fixes c :: "32 word rc5"
  assumes "modern_encrypted_data_len p = Inr n"
    and "bind_res (modern_crypt_payload (rc5_encrypt_block c) p p) (\<lambda>out. modern_encrypt_id out p) = Inr w"
  shows "bind_res (modern_decrypt_id w w) (modern_crypt_payload (rc5_decrypt_block c) w) = Inr p"
    "frame_length_ok w = frame_length_ok p" "w ! 0x16 = p ! 0x16" "mode1_key w = mode1_key p"
    "length w = length p"
  using frame_roundtrip [OF assms(1), of c] assms(2) by auto

lemma crypt_payload_data_len:
  "modern_crypt_payload f p q = Inr r \<Longrightarrow> \<exists>n. modern_encrypted_data_len p = Inr n"
  by (auto simp: modern_crypt_payload_def bind_res_Inr)

lemma mode1_decrypt_encrypt:
  assumes "gute_mode1_encrypt p = Inr w"
  shows "gute_mode1_decrypt w = Inr p \<and> length w = length p"
proof -
  let ?c = "\<lparr>rc5_r = 6, rc5_S = rc5_expand 6 (mode1_key p)\<rparr> :: 32 word rc5"
  have p: "frame_length_ok p" "p ! 0x16 AND 3 = 1" and
    w: "bind_res (modern_crypt_payload (rc5_encrypt_block ?c) p p) (\<lambda>out. modern_encrypt_id out p) = Inr w"
    using assms by (auto simp: gute_mode1_encrypt_def rc5_init_def split: if_splits)
  obtain n where "modern_encrypted_data_len p = Inr n"
    using w by (auto simp: bind_res_Inr dest!: crypt_payload_data_len)
  from mode_encrypt_decrypt [OF this w] p show ?thesis
    by (simp add: gute_mode1_decrypt_def rc5_init_def)
qed

lemma mode2_decrypt_encrypt:
  assumes "gute_mode2_encrypt p key = Inr w"
  shows "gute_mode2_decrypt w key = Inr p \<and> length w = length p"
proof -
  let ?c = "\<lparr>rc5_r = 6, rc5_S = rc5_expand 6 key\<rparr> :: 32 word rc5"
  have p: "length key = 32" "frame_length_ok p" "p ! 0x16 AND 3 = 2" and
    w: "bind_res (modern_crypt_payload (rc5_encrypt_block ?c) p p) (\<lambda>out. modern_encrypt_id out p) = Inr w"
    using assms by (auto simp: gute_mode2_encrypt_def rc5_init_def split: if_splits)
  obtain n where "modern_encrypted_data_len p = Inr n"
    using w by (auto simp: bind_res_Inr dest!: crypt_payload_data_len)
  from mode_encrypt_decrypt [OF this w] p show ?thesis
    by (simp add: gute_mode2_decrypt_def rc5_init_def)
qed

text \<open>
  Mode 1: a complete frame whose length field, mode bits and trailer flags are
  consistent is encrypted without error to a frame of the same length, and decrypting
  that frame gives the original back, byte for byte.
\<close>
theorem gute_mode1_roundtrip:
  assumes "frame_length_ok p" "p ! 0x16 AND 3 = 1" "modern_encrypted_data_len p = Inr n"
  shows "\<exists>w. gute_mode1_encrypt p = Inr w \<and> length w = length p \<and> gute_mode1_decrypt w = Inr p"
proof -
  let ?c = "\<lparr>rc5_r = 6, rc5_S = rc5_expand 6 (mode1_key p)\<rparr> :: 32 word rc5"
  obtain w where "gute_mode1_encrypt p = Inr w"
    using frame_roundtrip [OF assms(3), of ?c] assms(1,2)
    by (auto simp: gute_mode1_encrypt_def rc5_init_def)
  with mode1_decrypt_encrypt show ?thesis by blast
qed

definition sample_frame :: "byte \<Rightarrow> bytes" where
  "sample_frame md = [0x7F, 0xA1, 0x29, 0, 1, 2, 3, 4, 5, 6, 7, 8, 9, 0, 0, 0, 0, 0, 0, 0, 0x55, 0xAA, md, 0] @
     [10, 11, 12, 13, 14, 15, 16, 17, 18, 19, 20, 21, 22, 23, 24, 25, 26]"

lemma sample_frame_ok:
  "frame_length_ok (sample_frame md)" "sample_frame md ! 0x16 = md"
  "unat md < 64 \<Longrightarrow> modern_encrypted_data_len (sample_frame md) = Inr 17"
  by (simp_all add: frame_length_ok_def modern_encrypted_data_len_def sample_frame_def pyslice_def
      bit_iff_odd div_nat_eqI)

theorem gute_mode1_roundtrip_witness:
  "\<exists>w. gute_mode1_encrypt (sample_frame 1) = Inr w \<and> length w = length (sample_frame 1) \<and>
       gute_mode1_decrypt w = Inr (sample_frame 1)"
  by (rule gute_mode1_roundtrip [where n = 17]) (simp_all add: sample_frame_ok)

text \<open>
  Mode 2: under any 32-byte session key, encryption succeeds on every consistent
  frame, keeps its length, and decryption with the same key restores it.
\<close>
theorem gute_mode2_roundtrip:
  assumes "length key = 32" "frame_length_ok p" "p ! 0x16 AND 3 = 2" "modern_encrypted_data_len p = Inr n"
  shows "\<exists>w. gute_mode2_encrypt p key = Inr w \<and> length w = length p \<and> gute_mode2_decrypt w key = Inr p"
proof -
  let ?c = "\<lparr>rc5_r = 6, rc5_S = rc5_expand 6 key\<rparr> :: 32 word rc5"
  obtain w where "gute_mode2_encrypt p key = Inr w"
    using frame_roundtrip [OF assms(4), of ?c] assms(1-3)
    by (auto simp: gute_mode2_encrypt_def rc5_init_def)
  with mode2_decrypt_encrypt show ?thesis by blast
qed

theorem gute_mode2_roundtrip_witness:
  "\<exists>w. gute_mode2_encrypt (sample_frame 2) (replicate 32 7) = Inr w \<and>
       length w = length (sample_frame 2) \<and>
       gute_mode2_decrypt w (replicate 32 7) = Inr (sample_frame 2)"
  by (rule gute_mode2_roundtrip [where n = 17]) (simp_all add: sample_frame_ok)

text \<open>Mode 0 masks the identity only.\<close>

lemma gute_mode0_roundtrip:
  assumes "frame_length_ok p" "p ! 0x16 AND 3 = 0"
  shows "\<exists>w. gute_mode0_encrypt p = Inr w \<and> length w = length p \<and> gute_mode0_decrypt w = Inr p"
proof -
  have "24 + 0 * 8 \<le> length p" using assms(1) by (simp add: frame_length_ok_def)
  from frame_segments [OF this] obtain a i s l bs t where p: "p = a @ i @ s @ l @ concat bs @ t"
    and len: "length a = 4" "length i = 8" "length s = 8" "length l = 4" by metis
  obtain j where j: "length j = 8"
    "modern_encrypt_id p p = Inr (a @ j @ s @ l @ concat bs @ t)"
    "modern_decrypt_id (a @ j @ s @ l @ concat bs @ t) (a @ j @ s @ l @ concat bs @ t) = Inr p"
    using id_roundtrip [OF len(1,2,2,3,3), of "l @ concat bs @ t" "l @ concat bs @ t"]
    unfolding p by blast
  have "frame_length_ok (a @ j @ s @ l @ concat bs @ t) = frame_length_ok p"
    "(a @ j @ s @ l @ concat bs @ t) ! 0x16 = p ! 0x16"
    using header_kept [of a "j @ s" "i @ s" l "concat bs @ t" "concat bs @ t"] len j(1) by (simp_all add: p)
  with j assms len show ?thesis by (simp add: gute_mode0_encrypt_def gute_mode0_decrypt_def p)
qed

section \<open>Checksums\<close>

lemma gute_checksum_sealed:
  "24 \<le> length frm \<Longrightarrow> length x = 4 \<Longrightarrow> gute_checksum (put frm 0x10 x) = gute_checksum frm"
  by (simp add: gute_checksum_def slice_put_disjoint)

lemma verify_set_checksum: "24 \<le> length frm \<Longrightarrow> bind_res (set_checksum frm) verify_checksum = Inr True"
  by (simp add: set_checksum_def verify_checksum_def gute_checksum_def slice_put_disjoint
      slice_put_same le_val_le_bytes)

text \<open>The XOR checksum does not read its own slot.\<close>

lemma data_len_put_checksum:
  "24 \<le> length frm \<Longrightarrow> length x = 4 \<Longrightarrow>
   modern_encrypted_data_len (put frm 0x10 x) = modern_encrypted_data_len frm"
  by (simp add: modern_encrypted_data_len_def slice_put_disjoint Let_def)

lemma xor_checksum_put:
  assumes "24 \<le> length frm" "length x = 4"
  shows "gute_mode1_xor_checksum (put frm 0x10 x) = gute_mode1_xor_checksum frm"
proof -
  have "frame_length_ok (put frm 0x10 x) = frame_length_ok frm"
    using assms by (simp add: frame_length_ok_def slice_put_disjoint)
  then show ?thesis
    using assms by (simp add: gute_mode1_xor_checksum_def data_len_put_checksum slice_put_disjoint)
qed

lemma xor_checksum_lt: "gute_mode1_xor_checksum frm = Inr c \<Longrightarrow> c < 2 ^ 32"
proof -
  have "(0xFFFFFFFF :: nat) = mask 32" by (simp add: mask_eq_exp_minus_1)
  then have "x AND 0xFFFFFFFF < 2 ^ 32" for x :: nat
    by (simp only: take_bit_eq_mask [symmetric] take_bit_nat_less_exp)
  then show "gute_mode1_xor_checksum frm = Inr c \<Longrightarrow> c < 2 ^ 32"
    by (auto simp: gute_mode1_xor_checksum_def bind_res_Inr Let_def split: if_splits)
qed

lemma mode1_encrypt_data_len: "gute_mode1_xor_checksum frm = Inr c \<Longrightarrow> \<exists>n. modern_encrypted_data_len frm = Inr n"
  by (auto simp: gute_mode1_xor_checksum_def bind_res_Inr split: if_splits)

lemma xor_checksum_length: "gute_mode1_xor_checksum frm = Inr c \<Longrightarrow> 24 \<le> length frm \<and> frame_length_ok frm"
  by (auto simp: gute_mode1_xor_checksum_def frame_length_ok_def split: if_splits)

lemma sealed_frame:
  assumes "gute_mode1_xor_checksum frame = Inr c"
  defines "p \<equiv> put frame 0x10 (le_bytes 4 c)"
  shows "frame_length_ok p" "p ! 0x16 = frame ! 0x16" "\<exists>n. modern_encrypted_data_len p = Inr n"
    "gute_mode1_xor_checksum p = Inr (u32_at p 0x10)"
proof -
  note len = xor_checksum_length [OF assms(1)]
  show "frame_length_ok p" using len by (simp add: p_def frame_length_ok_def slice_put_disjoint)
  show "p ! 0x16 = frame ! 0x16" using len by (simp add: p_def nth_put)
  show "\<exists>n. modern_encrypted_data_len p = Inr n"
    using len mode1_encrypt_data_len [OF assms(1)] by (simp add: p_def data_len_put_checksum)
  show "gute_mode1_xor_checksum p = Inr (u32_at p 0x10)"
    using len assms(1) xor_checksum_lt [OF assms(1)]
    by (simp add: p_def xor_checksum_put slice_put_same le_val_le_bytes)
qed

text \<open>
  Sealing: when \<open>finish_mode1\<close> returns a datagram, the receiver's decryption of it
  is the sender's frame with the checksum slot filled in, and the checksum the receiver
  recomputes over the decrypted frame equals the stored one.
\<close>
theorem finish_mode1_verifies:
  assumes "finish_mode1 frame = Inr w"
  shows "\<exists>c p. gute_mode1_xor_checksum frame = Inr c \<and> p = put frame 0x10 (le_bytes 4 c) \<and>
    gute_mode1_decrypt w = Inr p \<and> gute_mode1_xor_checksum p = Inr (u32_at p 0x10)"
proof -
  obtain c where c: "gute_mode1_xor_checksum frame = Inr c"
    and w: "gute_mode1_encrypt (put frame 0x10 (le_bytes 4 c)) = Inr w"
    using assms by (auto simp: finish_mode1_def bind_res_Inr)
  show ?thesis
    using c mode1_decrypt_encrypt [OF w] sealed_frame(4) [OF c] by blast
qed

text \<open>Sealing succeeds on every consistent mode-1 frame.\<close>

lemma finish_mode1_total:
  assumes "frame_length_ok p" "p ! 0x16 AND 3 = 1" "modern_encrypted_data_len p = Inr n"
  shows "\<exists>w. finish_mode1 p = Inr w"
proof -
  obtain c where c: "gute_mode1_xor_checksum p = Inr c"
    using assms by (simp add: gute_mode1_xor_checksum_def Let_def)
  let ?p = "put p 0x10 (le_bytes 4 c)"
  let ?c = "\<lparr>rc5_r = 6, rc5_S = rc5_expand 6 (mode1_key ?p)\<rparr> :: 32 word rc5"
  obtain m where "modern_encrypted_data_len ?p = Inr m" using sealed_frame(3) [OF c] by blast
  from frame_roundtrip [OF this, of ?c] sealed_frame(1,2) [OF c] assms(2) c show ?thesis
    by (auto simp: finish_mode1_def gute_mode1_encrypt_def rc5_init_def)
qed

theorem finish_mode1_verifies_witness:
  "\<exists>w c p. finish_mode1 (sample_frame 1) = Inr w \<and> gute_mode1_xor_checksum (sample_frame 1) = Inr c \<and>
     p = put (sample_frame 1) 0x10 (le_bytes 4 c) \<and> gute_mode1_decrypt w = Inr p \<and>
     gute_mode1_xor_checksum p = Inr (u32_at p 0x10)"
proof -
  obtain w where w: "finish_mode1 (sample_frame 1) = Inr w"
    using finish_mode1_total [of "sample_frame 1" 17] by (auto simp: sample_frame_ok)
  from finish_mode1_verifies [OF w] w show ?thesis by blast
qed

end
