(* ===== verification/Des.thy ===== *)
theory Des
  imports DesTables
begin

text \<open>
  Single DES as \<^verbatim>\<open>crypto.py\<close> implements it on lists of bits (numbers 0 and 1): key
  schedule, block transform and \<open>des_encrypt\<close>. The lemmas show that the block transform
  under the reversed key schedule undoes the block transform, so the authentication token
  determines the challenge.
\<close>

definition DES_AUTH_KEY :: bytes where
  "DES_AUTH_KEY = [0xA3, 0x16, 0xA9, 0x9D, 0x48, 0x30, 0x38, 0x21]"

definition permute :: "nat list \<Rightarrow> nat list \<Rightarrow> nat list" where
  "permute bits table = map (\<lambda>i. bits ! (i - 1)) table"

text \<open>\<^verbatim>\<open>[(b[i >> 3] >> (7 - (i & 7))) & 1 for i in range(64)]\<close>\<close>

definition block_bits :: "bytes \<Rightarrow> nat list" where
  "block_bits b = map (\<lambda>i. unat (drop_bit (7 - i mod 8) (b ! (i div 8)) AND 1)) [0..<64]"

fun des_key_rounds :: "nat list \<Rightarrow> nat list \<Rightarrow> nat list \<Rightarrow> nat list list" where
  "des_key_rounds [] c d = []"
| "des_key_rounds (s # ss) c d =
     (let c = drop s c @ take s c; d = drop s d @ take s d
      in permute (c @ d) DES_PC2 # des_key_rounds ss c d)"

definition des_subkeys :: "bytes \<Rightarrow> nat list list" where
  "des_subkeys key = (let cd = permute (block_bits key) DES_PC1 in des_key_rounds DES_SHIFTS (take 28 cd) (drop 28 cd))"

text \<open>Substitution of the six-bit chunk \<open>i\<close> to four bits.\<close>

definition des_chunk :: "nat list \<Rightarrow> nat \<Rightarrow> nat list" where
  "des_chunk er i =
     (let chunk = pyslice er (i * 6) (i * 6 + 6);
          row = push_bit 1 (chunk ! 0) OR chunk ! 5;
          col = ((push_bit 3 (chunk ! 1) OR push_bit 2 (chunk ! 2)) OR push_bit 1 (chunk ! 3)) OR chunk ! 4;
          val = DES_SBOX ! i ! (row * 16 + col)
      in [drop_bit 3 val AND 1, drop_bit 2 val AND 1, drop_bit 1 val AND 1, val AND 1])"

definition des_f :: "nat list \<Rightarrow> nat list \<Rightarrow> nat list" where
  "des_f right k =
     (let er = map2 (XOR) (permute right DES_E) k
      in permute (concat (map (des_chunk er) [0..<8])) DES_P)"

definition des_round :: "nat list \<times> nat list \<Rightarrow> nat list \<Rightarrow> nat list \<times> nat list" where
  "des_round = (\<lambda>(left, right) k. (right, map2 (XOR) left (des_f right k)))"

definition bits_block :: "nat list \<Rightarrow> bytes" where
  "bits_block fin = map (\<lambda>i. of_nat (\<Sum>j \<leftarrow> [0..<8]. push_bit (7 - j) (fin ! (i * 8 + j)))) [0..<8]"

definition des_block :: "bytes \<Rightarrow> nat list list \<Rightarrow> bytes" where
  "des_block block subkeys =
     (let bits = permute (block_bits block) DES_IP;
          (left, right) = foldl des_round (take 32 bits, drop 32 bits) subkeys
      in bits_block (permute (right @ left) DES_FP))"

definition des_encrypt :: "bytes \<Rightarrow> bytes \<Rightarrow> exn + bytes" where
  "des_encrypt block8 key8 =
     (if \<not> (length block8 = 8 \<and> length key8 = 8) then Inl AssertionError
      else Inr (des_block block8 (des_subkeys key8)))"

section \<open>Permutations\<close>

definition inverse_tables :: "nat list \<Rightarrow> nat list \<Rightarrow> bool" where
  "inverse_tables t u \<longleftrightarrow> length t = 64 \<and> length u = 64 \<and> (\<forall>k < 64. u ! k - 1 < 64 \<and> t ! (u ! k - 1) - 1 = k)"

lemma des_tables_inverse: "inverse_tables DES_IP DES_FP" "inverse_tables DES_FP DES_IP"
  by code_simp+

lemma des_table_lengths [simp]: "length DES_P = 32" "length DES_IP = 64" "length DES_FP = 64"
  by (simp_all add: DES_P_def DES_IP_def DES_FP_def)

lemma length_permute [simp]: "length (permute bits t) = length t"
  by (simp add: permute_def)

lemma permute_inverse:
  assumes "inverse_tables t u" "length bits = 64"
  shows "permute (permute bits t) u = bits"
  using assms by (intro nth_equalityI) (auto simp: permute_def inverse_tables_def)

definition bits_ok :: "nat list \<Rightarrow> bool" where
  "bits_ok bs \<longleftrightarrow> (\<forall>b \<in> set bs. b < 2)"

lemma bits_ok_permute:
  assumes "inverse_tables t u" "length bits = 64" "bits_ok bits"
  shows "bits_ok (permute bits u)"
proof -
  have "bits ! (u ! k - 1) \<in> set bits" if "k < 64" for k
    using assms that by (intro nth_mem) (simp add: inverse_tables_def)
  with assms show ?thesis by (fastforce simp: bits_ok_def permute_def inverse_tables_def in_set_conv_nth)
qed

section \<open>Feistel rounds\<close>

lemma xor_bit_lt: "a < 2 \<Longrightarrow> b < 2 \<Longrightarrow> a XOR b < (2 :: nat)"
  by (auto simp: less_2_cases_iff)

lemma and_1_lt: "n AND 1 < (2 :: nat)"
  by (simp add: and_one_eq)

lemma length_des_f [simp]: "length (des_f r k) = 32"
  by (simp add: des_f_def)

lemma length_des_chunks: "length (concat (map (des_chunk er) [0..<8])) = 32"
  by (simp add: length_concat des_chunk_def Let_def comp_def sum_list_triv)

lemma des_P_range: "\<forall>i \<in> set DES_P. i - 1 < 32"
  by code_simp

lemma bits_ok_des_f: "bits_ok (des_f r k)"
proof -
  define out where "out = concat (map (des_chunk (map2 (XOR) (permute r DES_E) k)) [0..<8])"
  have "\<forall>x \<in> set out. x < 2"
    using and_1_lt by (auto simp: out_def des_chunk_def Let_def)
  moreover have "out ! (i - 1) \<in> set out" if "i \<in> set DES_P" for i
    using that des_P_range by (intro nth_mem) (simp add: out_def length_des_chunks)
  ultimately show ?thesis by (simp add: bits_ok_def des_f_def permute_def [of out] flip: out_def)
qed

lemma xor_twice: "length l = length f \<Longrightarrow> map2 (XOR) (map2 (XOR) l f) f = (l :: nat list)"
  by (intro nth_equalityI) (auto simp: xor.assoc)

lemma bits_ok_map2_xor: "bits_ok l \<Longrightarrow> bits_ok f \<Longrightarrow> bits_ok (map2 (XOR) l f)"
proof (induction l arbitrary: f)
  case (Cons a l)
  then show ?case by (cases f) (auto simp: bits_ok_def xor_bit_lt, fastforce)
qed (simp add: bits_ok_def)

lemma des_rounds_ok:
  assumes "length l = 32" "length r = 32" "bits_ok l" "bits_ok r" "foldl des_round (l, r) ks = (l', r')"
  shows "length l' = 32 \<and> length r' = 32 \<and> bits_ok l' \<and> bits_ok r'"
  using assms
proof (induction ks arbitrary: l r)
  case Nil
  then show ?case by simp
next
  case (Cons k ks)
  then show ?case
    by (intro Cons.IH [of r "map2 (XOR) l (des_f r k)"]) (auto simp: des_round_def bits_ok_map2_xor bits_ok_des_f)
qed

text \<open>Running the rounds with the keys reversed, from the swapped halves, undoes them.\<close>

lemma des_rounds_reverse:
  assumes "length l = 32" "length r = 32" "foldl des_round (l, r) ks = (l', r')"
  shows "foldl des_round (r', l') (rev ks) = (r, l)"
  using assms
proof (induction ks arbitrary: l r)
  case Nil
  then show ?case by simp
next
  case (Cons k ks)
  let ?x = "map2 (XOR) l (des_f r k)"
  have "foldl des_round (r, ?x) ks = (l', r')" using Cons.prems by (simp add: des_round_def)
  then have "foldl des_round (r', l') (rev ks) = (?x, r)" using Cons by simp
  then show ?case using Cons.prems by (simp add: des_round_def xor_twice)
qed

section \<open>Bytes and bits\<close>

lemma upt_8: "[0..<8] = [0, 1, 2, 3, 4, 5, 6, 7 :: nat]"
  by (simp add: upt_rec)

lemma bit_sum_horner:
  "(\<Sum>j \<leftarrow> [0..<8]. push_bit (7 - j) (of_bool (g j))) =
    (horner_sum of_bool 2 (map (\<lambda>k. g (7 - k)) [0..<8]) :: nat)"
  unfolding upt_8 by (simp add: push_bit_eq_mult algebra_simps split del: if_split)

lemma unat_bit: "unat (drop_bit k w AND 1 :: byte) = of_bool (bit w k)"
  by (simp add: and_one_eq mod_2_eq_odd bit_iff_odd_drop_bit)

lemma byte_of_bits:
  assumes "\<And>j. j < 8 \<Longrightarrow> f j < (2 :: nat)" "i < 8"
  shows "unat (drop_bit (7 - i) (of_nat (\<Sum>j \<leftarrow> [0..<8]. push_bit (7 - j) (f j)) :: byte) AND 1) = f i"
proof -
  have ix: "7 - i < 8" "[0..<8] ! (7 - i) = 7 - i" "7 - (7 - i) = i" using assms(2) by simp_all
  have "(\<Sum>j \<leftarrow> [0..<8]. push_bit (7 - j) (f j)) = (\<Sum>j \<leftarrow> [0..<8]. push_bit (7 - j) (of_bool (f j = 1)))"
    using assms(1) by (intro arg_cong [where f = sum_list] map_cong refl) (fastforce simp: less_2_cases_iff)
  then have "bit (of_nat (\<Sum>j \<leftarrow> [0..<8]. push_bit (7 - j) (f j)) :: byte) (7 - i) = (f i = 1)"
    using assms(2) ix by (simp add: bit_sum_horner bit_horner_sum_bit_iff bit_simps)
  then show ?thesis
    using assms(1) [OF assms(2)] unfolding unat_bit by auto
qed

lemma unat_and_1_lt: "unat (x AND 1 :: byte) < 2"
  by (simp add: and_one_eq unat_mod_distrib)

lemma bits_of_byte: "of_nat (\<Sum>j \<leftarrow> [0..<8]. push_bit (7 - j) (unat (drop_bit (7 - j) x AND 1))) = (x :: byte)"
proof (rule bit_word_eqI)
  let ?f = "\<lambda>j. unat (drop_bit (7 - j) x AND 1)"
  have f: "?f j < 2" for j by (rule unat_and_1_lt)
  fix n assume n: "n < LENGTH(8)"
  define y where "y = (of_nat (\<Sum>j \<leftarrow> [0..<8]. push_bit (7 - j) (?f j)) :: byte)"
  have "unat (drop_bit (7 - (7 - n)) y AND 1) = ?f (7 - n)"
    unfolding y_def using f n by (intro byte_of_bits) auto
  then show "bit (of_nat (\<Sum>j \<leftarrow> [0..<8]. push_bit (7 - j) (?f j)) :: byte) n = bit x n"
    using n unfolding unat_bit y_def by (simp add: of_bool_eq_iff)
qed

lemma block_bits_bits_block:
  assumes "length bits = 64" "bits_ok bits"
  shows "block_bits (bits_block bits) = bits"
proof (rule nth_equalityI)
  show "length (block_bits (bits_block bits)) = length bits" using assms by (simp add: block_bits_def)
  fix i assume "i < length (block_bits (bits_block bits))"
  then have i: "i < 64" "i div 8 < 8" "i mod 8 < 8" by (simp_all add: block_bits_def)
  have "bits ! (i div 8 * 8 + j) < 2" if "j < 8" for j
    using assms i that by (auto simp: bits_ok_def intro!: nth_mem)
  from byte_of_bits [OF this i(3)] show "block_bits (bits_block bits) ! i = bits ! i"
    using i by (simp add: block_bits_def bits_block_def)
qed

lemma bits_block_block_bits:
  assumes "length b = 8"
  shows "bits_block (block_bits b) = b"
proof (rule nth_equalityI)
  show "length (bits_block (block_bits b)) = length b" using assms by (simp add: bits_block_def)
  fix i assume "i < length (bits_block (block_bits b))"
  then have i: "i < 8" by (simp add: bits_block_def)
  have "(\<Sum>j \<leftarrow> [0..<8]. push_bit (7 - j) (block_bits b ! (i * 8 + j))) =
      (\<Sum>j \<leftarrow> [0..<8]. push_bit (7 - j) (unat (drop_bit (7 - j) (b ! i) AND 1)))"
    using i by (intro arg_cong [where f = sum_list] map_cong refl) (simp add: block_bits_def)
  then show "bits_block (block_bits b) ! i = b ! i"
    using i bits_of_byte [of "b ! i"] by (simp add: bits_block_def)
qed

section \<open>Decryption by the reversed key schedule\<close>

lemma bits_ok_block_bits: "bits_ok (block_bits b)" "length (block_bits b) = 64"
  using unat_and_1_lt by (auto simp: bits_ok_def block_bits_def)

lemma bits_ok_append: "bits_ok (xs @ ys) \<longleftrightarrow> bits_ok xs \<and> bits_ok ys"
  by (auto simp: bits_ok_def)

lemma des_block_reverse:
  assumes "length b = 8"
  shows "des_block (des_block b ks) (rev ks) = b"
proof -
  define bits where "bits = permute (block_bits b) DES_IP"
  have bits: "length bits = 64" "bits_ok bits"
    using bits_ok_permute [OF des_tables_inverse(2)] bits_ok_block_bits by (simp_all add: bits_def)
  obtain l r where lr: "foldl des_round (take 32 bits, drop 32 bits) ks = (l, r)" by fastforce
  have ok: "bits_ok (take 32 bits)" "bits_ok (drop 32 bits)"
    using bits(2) by (metis append_take_drop_id bits_ok_append)+
  have h: "length (take 32 bits) = 32" "length (drop 32 bits) = 32" using bits(1) by simp_all
  note lr_ok = des_rounds_ok [OF h ok lr] and rev = des_rounds_reverse [OF h lr]
  define fin where "fin = permute (r @ l) DES_FP"
  have fin: "length fin = 64" "bits_ok fin"
    using bits_ok_permute [OF des_tables_inverse(1), of "r @ l"] lr_ok bits(1)
    by (simp_all add: fin_def bits_ok_append)
  have 1: "des_block b ks = bits_block fin" using lr by (simp add: des_block_def fin_def bits_def)
  have 2: "permute fin DES_IP = r @ l"
    using permute_inverse [OF des_tables_inverse(2), of "r @ l"] lr_ok bits(1) by (simp add: fin_def)
  have "des_block (bits_block fin) (rev ks) = bits_block (permute (take 32 bits @ drop 32 bits) DES_FP)"
    using rev lr_ok bits(1) by (simp add: des_block_def block_bits_bits_block [OF fin] 2)
  also have "\<dots> = bits_block (block_bits b)"
    using permute_inverse [OF des_tables_inverse(1)] bits_ok_block_bits(2) by (simp add: bits_def)
  finally show ?thesis using 1 assms by (simp add: bits_block_block_bits)
qed

text \<open>
  The DES block transform is invertible: running it on its own output with the same
  round keys in reverse order gives the block back. Hence under one key two eight-byte
  challenges have the same authentication token only if they are equal.
\<close>
theorem des_encrypt_invertible:
  assumes "length b = 8" "length key = 8"
  shows "\<exists>t. des_encrypt b key = Inr t \<and> des_block t (rev (des_subkeys key)) = b \<and>
    (\<forall>b'. des_encrypt b' key = Inr t \<longrightarrow> b' = b)"
proof -
  have "b' = b" if "des_encrypt b' key = Inr (des_block b (des_subkeys key))" for b'
    using that assms des_block_reverse [of b "des_subkeys key"] des_block_reverse [of b' "des_subkeys key"]
    by (auto simp: des_encrypt_def split: if_splits)
  with assms show ?thesis by (simp add: des_encrypt_def des_block_reverse)
qed

theorem des_encrypt_invertible_witness:
  "\<exists>t. des_encrypt [1, 2, 3, 4, 5, 6, 7, 8] DES_AUTH_KEY = Inr t \<and>
     des_block t (rev (des_subkeys DES_AUTH_KEY)) = [1, 2, 3, 4, 5, 6, 7, 8] \<and>
     (\<forall>b'. des_encrypt b' DES_AUTH_KEY = Inr t \<longrightarrow> b' = [1, 2, 3, 4, 5, 6, 7, 8])"
  by (rule des_encrypt_invertible) (simp_all add: DES_AUTH_KEY_def)

end
