(* ===== verification/MediaProtocol.thy ===== *)
theory MediaProtocol
  imports Prelude
begin

text \<open>
  The MTP/KCP and AV-session codecs of \<^verbatim>\<open>media_protocol.py\<close> and the window report of
  \<^verbatim>\<open>kcp_window.py\<close>: the checksummed \<open>c0\<close> frame, the KCP segments coalesced in one
  \<open>c0/10\<close> frame, the AV control records and the route meter. The lemmas are round
  trips between the builders and the parsers.
\<close>

abbreviation (input) MTP_PREFIX_SIZE :: nat where "MTP_PREFIX_SIZE \<equiv> 6"
abbreviation (input) MTP_MAX_FRAME_SIZE :: nat where "MTP_MAX_FRAME_SIZE \<equiv> 0x7FF"
abbreviation (input) KCP_HEADER_SIZE :: nat where "KCP_HEADER_SIZE \<equiv> 24"
abbreviation (input) KCP_PUSH :: nat where "KCP_PUSH \<equiv> 0x51"
abbreviation (input) KCP_ACK :: nat where "KCP_ACK \<equiv> 0x52"
abbreviation (input) KCP_WASK :: nat where "KCP_WASK \<equiv> 0x53"
abbreviation (input) KCP_WINS :: nat where "KCP_WINS \<equiv> 0x54"

record kcp_segment =
  sg_conv :: nat
  sg_command :: nat
  sg_fragment :: nat
  sg_window :: nat
  sg_timestamp :: nat
  sg_sequence :: nat
  sg_unacknowledged :: nat
  sg_body :: bytes

record media_meter =
  mm_kind :: nat
  mm_link_id :: nat
  mm_flags :: nat
  mm_source_id :: nat
  mm_destination_id :: nat
  mm_sequence :: nat
  mm_timestamp :: nat
  mm_channel_type :: nat
  mm_record_length :: nat
  mm_role :: nat
  mm_call_id :: "nat option"

section \<open>MTP frames\<close>

definition rotate_left_16 :: "nat \<Rightarrow> nat \<Rightarrow> nat" where
  "rotate_left_16 value shift =
     (let shift = shift AND 15
      in (push_bit shift value OR drop_bit ((16 - shift) AND 15) value) AND 0xFFFF)"

definition mtp_frame_length :: "bytes \<Rightarrow> exn + nat" where
  "mtp_frame_length frame =
     (if length frame < 4 then Inl (ValueError ''truncated MTP prefix'')
      else Inr ((unat (frame ! 2) AND 7) OR push_bit 3 (unat (frame ! 3))))"

definition mtp_checksum :: "bytes \<Rightarrow> exn + nat" where
  "mtp_checksum frame =
     (if length frame < 30 then Inl (ValueError ''MTP frame must contain 24 checksum bytes'')
      else Inr (foldl (\<lambda>c i. c XOR rotate_left_16 (u16_at frame (MTP_PREFIX_SIZE + i * 2)) i) 0 [0..<12]
                AND 0xFFFF))"

definition verify_mtp_frame :: "bytes \<Rightarrow> bool" where
  "verify_mtp_frame frame =
     (if length frame < 30 \<or> frame ! 0 \<noteq> 0xC0 \<or> mtp_frame_length frame \<noteq> Inr (length frame) then False
      else case mtp_checksum frame of Inl e \<Rightarrow> False
           | Inr c \<Rightarrow> u16_at frame 4 = (c XOR u16_at frame 2))"

definition build_mtp_frame :: "int \<Rightarrow> bytes \<Rightarrow> exn + bytes" where
  "build_mtp_frame subtype payload =
     (if \<not> (0 \<le> subtype \<and> subtype \<le> 0xFF) then Inl (ValueError ''MTP subtype must fit in one byte'')
      else if length payload < 24 then Inl (ValueError ''MTP payload must contain at least 24 bytes'')
      else let total = MTP_PREFIX_SIZE + length payload
      in if total > MTP_MAX_FRAME_SIZE then Inl (ValueError ''MTP frame exceeds the 11-bit length field'')
      else let frame = [0xC0, of_int subtype, of_nat (total AND 7), of_nat (drop_bit 3 total), 0, 0] @ payload
      in bind_res (mtp_checksum frame) (\<lambda>c. Inr (put frame 4 (le_bytes 2 (c XOR u16_at frame 2)))))"

section \<open>KCP segments\<close>

definition kcp_header_pack :: "nat \<Rightarrow> nat \<Rightarrow> nat \<Rightarrow> nat \<Rightarrow> nat \<Rightarrow> nat \<Rightarrow> nat \<Rightarrow> nat \<Rightarrow> bytes" where
  "kcp_header_pack conv command fragment window timestamp sequence una len =
     le_bytes 4 conv @ le_bytes 1 command @ le_bytes 1 fragment @ le_bytes 2 window @
     le_bytes 4 timestamp @ le_bytes 4 sequence @ le_bytes 4 una @ le_bytes 4 len"

definition kcp_segment_at :: "bytes \<Rightarrow> nat \<Rightarrow> nat \<Rightarrow> kcp_segment" where
  "kcp_segment_at frame cursor end' =
     \<lparr>sg_conv = u32_at frame cursor, sg_command = unat (frame ! (cursor + 4)),
      sg_fragment = unat (frame ! (cursor + 5)), sg_window = u16_at frame (cursor + 6),
      sg_timestamp = u32_at frame (cursor + 8), sg_sequence = u32_at frame (cursor + 12),
      sg_unacknowledged = u32_at frame (cursor + 16),
      sg_body = pyslice frame (cursor + KCP_HEADER_SIZE) end'\<rparr>"

function parse_kcp_loop :: "bytes \<Rightarrow> nat \<Rightarrow> kcp_segment list \<Rightarrow> exn + kcp_segment list" where
  "parse_kcp_loop frame cursor segments =
     (if cursor < length frame then
        if cursor + KCP_HEADER_SIZE > length frame then Inl (ValueError ''truncated KCP header'')
        else let end' = cursor + KCP_HEADER_SIZE + u32_at frame (cursor + 20)
        in if end' > length frame then Inl (ValueError ''truncated KCP payload'')
        else parse_kcp_loop frame end' (segments @ [kcp_segment_at frame cursor end'])
      else Inr segments)"
  by pat_completeness auto
termination by (relation "measure (\<lambda>(frame, cursor, segments). length frame - cursor)") auto

declare parse_kcp_loop.simps [simp del]

definition parse_kcp_segments :: "bytes \<Rightarrow> exn + kcp_segment list" where
  "parse_kcp_segments frame =
     (if \<not> verify_mtp_frame frame \<or> pyslice frame 0 2 \<noteq> [0xC0, 0x10]
      then Inl (ValueError ''not a valid c0/10 MTP frame'')
      else bind_res (parse_kcp_loop frame MTP_PREFIX_SIZE []) (\<lambda>segments.
        if segments = [] then Inl (ValueError ''empty KCP frame'') else Inr segments))"

definition monotonic_ms :: "time \<Rightarrow> int" where
  "monotonic_ms now = \<lfloor>now * 1000\<rfloor>"

definition build_kcp_push ::
  "int \<Rightarrow> int \<Rightarrow> bytes \<Rightarrow> int option \<Rightarrow> int \<Rightarrow> int \<Rightarrow> time \<Rightarrow> exn + bytes"
where
  "build_kcp_push conv sequence body timestamp unacknowledged window now =
     (if \<not> (0 \<le> window \<and> window \<le> 0xFFFF) then Inl (ValueError ''invalid KCP receive window'')
      else if length body \<ge> 2 ^ 32 then Inl StructError
      else let timestamp = (case timestamp of None \<Rightarrow> monotonic_ms now | Some t \<Rightarrow> t)
      in build_mtp_frame 0x10 (kcp_header_pack (mask_int 32 conv) KCP_PUSH 0 (nat window)
           (mask_int 32 timestamp) (mask_int 32 sequence) (mask_int 32 unacknowledged) (length body) @ body))"

definition build_kcp_ack :: "int \<Rightarrow> int \<Rightarrow> int \<Rightarrow> int \<Rightarrow> int \<Rightarrow> exn + bytes" where
  "build_kcp_ack conv sequence timestamp unacknowledged window =
     (if \<not> (0 \<le> window \<and> window \<le> 0xFFFF) then Inl (ValueError ''invalid KCP receive window'')
      else build_mtp_frame 0x10 (kcp_header_pack (mask_int 32 conv) KCP_ACK 0 (nat window)
           (mask_int 32 timestamp) (mask_int 32 sequence) (mask_int 32 unacknowledged) 0))"

definition build_window_report :: "int \<Rightarrow> int \<Rightarrow> int \<Rightarrow> exn + bytes" where
  "build_window_report conv unacknowledged window =
     (if \<not> (0 \<le> conv \<and> conv \<le> 0xFFFFFFFF) \<or> \<not> (0 \<le> unacknowledged \<and> unacknowledged \<le> 0xFFFFFFFF) \<or>
         \<not> (0 \<le> window \<and> window \<le> 0xFFFF) then Inl (ValueError ''invalid KCP window report'')
      else build_mtp_frame 0x10 (kcp_header_pack (nat conv) KCP_WINS 0 (nat window) 0 0 (nat unacknowledged) 0))"

section \<open>AV control records\<close>

definition build_av_init :: "int \<Rightarrow> bytes option \<Rightarrow> int option \<Rightarrow> exn + bytes" where
  "build_av_init call_id request_user_data connection_type =
     (let finish = (\<lambda>ctype user.
        let body = put (replicate 76 0) 0 [3, 2, 0x4C, 0];
            body = put body 4 (le_bytes 4 (mask_int 32 call_id));
            body = put body 8 (le_bytes 4 1);
            body = put body 16 (le_bytes 4 (nat ctype));
            body = put body 20 (le_bytes 4 1);
            body = put body 24 user
        in Inr (put body 64 (le_bytes 4 9)))
      in case (request_user_data, connection_type) of
           (None, None) \<Rightarrow> finish 1 (put (put (replicate 32 0) 0 (le_bytes 4 1)) 23 [0x12])
         | (Some user, Some ctype) \<Rightarrow>
             if length user \<noteq> 32 then Inl (ValueError ''AV INIT request user data must be exactly 32 bytes'')
             else if ctype \<noteq> 1 \<and> ctype \<noteq> 2 then Inl (ValueError ''AV INIT connection type is unsupported'')
             else finish ctype user
         | _ \<Rightarrow> Inl (ValueError ''AV INIT connection type and request user data must be provided together''))"

definition build_av_control :: "int \<Rightarrow> int \<Rightarrow> bytes" where
  "build_av_control call_id action =
     (let body = put (replicate 76 0) 0 [3, 0, 0x4C, 0];
          body = put body 4 (le_bytes 4 (mask_int 32 call_id));
          body = put body 8 (le_bytes 4 (mask_int 32 action))
      in put body 64 (le_bytes 4 9))"

section \<open>The route meter\<close>

definition build_media_meter_request ::
  "int \<Rightarrow> int \<Rightarrow> int \<Rightarrow> int \<Rightarrow> int \<Rightarrow> int option \<Rightarrow> time \<Rightarrow> exn + bytes"
where
  "build_media_meter_request access_id device_id link_id call_id sequence timestamp now =
     (let timestamp = (case timestamp of None \<Rightarrow> monotonic_ms now | Some t \<Rightarrow> t);
          inner = put (replicate 72 0) 1 [1];
          inner = put inner 2 (le_bytes 2 0x44);
          inner = put inner 4 (le_bytes 4 (mask_int 32 link_id));
          inner = put inner 8 (le_bytes 4 8);
          inner = put inner 12 (le_bytes 8 (mask_int 64 access_id));
          inner = put inner 20 (le_bytes 8 (mask_int 64 device_id));
          inner = put inner 28 (le_bytes 4 (mask_int 32 sequence));
          inner = put inner 32 (le_bytes 4 (mask_int 32 timestamp));
          inner = put inner 48 (le_bytes 4 4);
          inner = put inner 52 (le_bytes 4 72);
          inner = put inner 64 [2, 1, 0, 0];
          inner = put inner 68 (le_bytes 4 (mask_int 32 call_id))
      in build_mtp_frame 0x90 inner)"

definition parse_media_meter :: "bytes \<Rightarrow> media_meter option" where
  "parse_media_meter frame =
     (if \<not> verify_mtp_frame frame \<or> pyslice frame 0 2 \<noteq> [0xC0, 0x90] then None
      else let inner = drop MTP_PREFIX_SIZE frame
      in if (length inner \<noteq> 68 \<and> length inner \<noteq> 72) \<or> u16_at inner 2 \<noteq> 0x44 then None
      else Some \<lparr>mm_kind = unat (inner ! 1), mm_link_id = u32_at inner 4, mm_flags = u32_at inner 8,
        mm_source_id = u64_at inner 12, mm_destination_id = u64_at inner 20,
        mm_sequence = u32_at inner 28, mm_timestamp = u32_at inner 32,
        mm_channel_type = u32_at inner 48, mm_record_length = u32_at inner 52,
        mm_role = unat (inner ! 65),
        mm_call_id = (if length inner = 72 then Some (u32_at inner 68) else None)\<rparr>)"

definition build_media_meter_ack :: "bytes \<Rightarrow> exn + bytes" where
  "build_media_meter_ack frame =
     (case parse_media_meter frame of
        None \<Rightarrow> Inl (ValueError ''not a camera meter request'')
      | Some parsed \<Rightarrow>
          if mm_kind parsed \<noteq> 1 then Inl (ValueError ''not a camera meter request'')
          else let inner = put (replicate 68 0) 1 [2];
                   inner = put inner 2 (le_bytes 2 0x44);
                   inner = put inner 4 (le_bytes 4 (mm_link_id parsed));
                   inner = put inner 12 (le_bytes 8 (mm_destination_id parsed));
                   inner = put inner 20 (le_bytes 8 (mm_source_id parsed));
                   inner = put inner 28 (le_bytes 4 (mm_sequence parsed));
                   inner = put inner 32 (pyslice frame 38 46);
                   inner = put inner 48 (le_bytes 4 (mm_channel_type parsed));
                   inner = put inner 52 (le_bytes 4 68);
                   inner = put inner 64 [2]
               in build_mtp_frame 0x90 inner)"

section \<open>Frames that are built verify\<close>

lemma and_7_or_shift: "((n AND 7) OR push_bit 3 (drop_bit 3 n)) = (n :: nat)"
proof -
  have "(7 :: nat) = mask 3" by (simp add: mask_eq_exp_minus_1)
  then have "n AND 7 = take_bit 3 n" by (simp add: take_bit_eq_mask)
  moreover have "take_bit 3 n OR push_bit 3 (drop_bit 3 n) = n"
    by (rule bit_eqI) (metis bit_or_iff bit_push_bit_iff_nat bit_drop_bit_eq bit_take_bit_iff le_add_diff_inverse not_less comp_apply)
  ultimately show ?thesis by simp
qed

lemma xor_less_16: "a < 2 ^ 16 \<Longrightarrow> b < 2 ^ 16 \<Longrightarrow> a XOR b < (2 :: nat) ^ 16"
  unfolding take_bit_nat_eq_self_iff [symmetric] by (simp add: take_bit_xor)

lemma u16_bound: "u16_at bs i < 2 ^ 16"
  by (rule le_val_slice_bound) simp

text \<open>The checksum reads only the 24 bytes after the prefix.\<close>

lemma mtp_checksum_cong:
  assumes "length f = length g" "\<And>k. 6 \<le> k \<Longrightarrow> k < 30 \<Longrightarrow> f ! k = g ! k"
  shows "mtp_checksum f = mtp_checksum g"
proof (cases "length f < 30")
  case True
  with assms show ?thesis by (simp add: mtp_checksum_def)
next
  case False
  have eq: "pyslice f (6 + i * 2) (6 + i * 2 + 2) = pyslice g (6 + i * 2) (6 + i * 2 + 2)"
    if "i < 12" for i
    using assms False that by (intro slice_nth_eqI) auto
  have "foldl (\<lambda>c i. c XOR rotate_left_16 (u16_at f (6 + i * 2)) i) 0 [0..<12] =
        foldl (\<lambda>c i. c XOR rotate_left_16 (u16_at g (6 + i * 2)) i) 0 [0..<12]"
    by (rule foldl_cong) (simp_all only: eq set_upt atLeastLessThan_iff)
  with assms False show ?thesis by (simp add: mtp_checksum_def)
qed

lemma mtp_checksum_bound: "mtp_checksum f = Inr c \<Longrightarrow> c < 2 ^ 16"
proof -
  assume "mtp_checksum f = Inr c"
  then obtain x where "c = x AND 0xFFFF" by (auto simp: mtp_checksum_def split: if_splits)
  moreover have "(0xFFFF :: nat) = mask 16" by (simp add: mask_eq_exp_minus_1)
  ultimately show ?thesis by (simp only: take_bit_eq_mask [symmetric] take_bit_nat_less_exp)
qed

lemma build_mtp_frame_shape:
  assumes "build_mtp_frame s p = Inr f"
  defines "t \<equiv> 6 + length p"
  defines "f0 \<equiv> [0xC0, of_int s, of_nat (t AND 7), of_nat (drop_bit 3 t), 0, 0] @ p"
  obtains c where "0 \<le> s" "s \<le> 0xFF" "24 \<le> length p" "t \<le> 0x7FF" "mtp_checksum f0 = Inr c"
    "f = put f0 4 (le_bytes 2 (c XOR u16_at f0 2))"
  using assms by (auto simp: build_mtp_frame_def Let_def bind_res_Inr split: if_splits)

lemma build_mtp_frame_bytes:
  assumes "build_mtp_frame s p = Inr f"
  shows "length f = 6 + length p" "f ! 0 = 0xC0" "f ! 1 = of_int s" "drop 6 f = p"
    "f ! 2 = of_nat ((6 + length p) AND 7)" "f ! 3 = of_nat (drop_bit 3 (6 + length p))"
proof -
  obtain c where f: "24 \<le> length p"
    "f = put ([0xC0, of_int s, of_nat ((6 + length p) AND 7), of_nat (drop_bit 3 (6 + length p)), 0, 0] @ p) 4
       (le_bytes 2 c)"
    using assms by (rule build_mtp_frame_shape) blast
  show "length f = 6 + length p" "f ! 0 = 0xC0" "f ! 1 = of_int s"
    "f ! 2 = of_nat ((6 + length p) AND 7)" "f ! 3 = of_nat (drop_bit 3 (6 + length p))"
    using f by (simp_all add: put_def)
  show "drop 6 f = p" using f by (simp add: put_def)
qed

lemma build_mtp_frame_Inr_iff:
  "(\<exists>f. build_mtp_frame s p = Inr f) \<longleftrightarrow>
     0 \<le> s \<and> s \<le> 0xFF \<and> 24 \<le> length p \<and> length p \<le> 0x7FF - 6"
  by (auto simp: build_mtp_frame_def Let_def mtp_checksum_def)

lemma mtp_frame_length_build:
  assumes "build_mtp_frame s p = Inr f"
  shows "mtp_frame_length f = Inr (length f)"
proof -
  note b = build_mtp_frame_bytes [OF assms]
  have le: "6 + length p \<le> 2047" using assms build_mtp_frame_Inr_iff [of s p] by auto
  have "(6 + length p) AND 7 \<le> 7" by (metis and_nat_def and.commute nat_le_iff AND_upper2 of_nat_0_le_iff of_nat_numeral order_refl zero_le_numeral)
  moreover have "drop_bit 3 (6 + length p) < 256" using le by (simp add: drop_bit_eq_div)
  ultimately have "unat (f ! 2) = (6 + length p) AND 7" "unat (f ! 3) = drop_bit 3 (6 + length p)"
    using b(5,6) by simp_all
  with b(1) show ?thesis by (simp add: mtp_frame_length_def and_7_or_shift)
qed

lemma build_mtp_frame_verifies:
  assumes "build_mtp_frame s p = Inr f"
  shows "verify_mtp_frame f"
proof -
  let ?t = "6 + length p"
  let ?f0 = "[0xC0, of_int s, of_nat (?t AND 7), of_nat (drop_bit 3 ?t), 0, 0] @ p"
  obtain c where c: "24 \<le> length p" "mtp_checksum ?f0 = Inr c"
    "f = put ?f0 4 (le_bytes 2 (c XOR u16_at ?f0 2))"
    using assms by (rule build_mtp_frame_shape)
  have "mtp_checksum f = mtp_checksum ?f0"
    unfolding c(3) by (rule mtp_checksum_cong) (use c(1) in \<open>auto simp: nth_put\<close>)
  moreover have "u16_at f 2 = u16_at ?f0 2"
    unfolding c(3) by (subst slice_put_disjoint) auto
  moreover have "c XOR u16_at ?f0 2 < 256 ^ 2"
    using xor_less_16 [OF mtp_checksum_bound [OF c(2)] u16_bound [of ?f0 2]] by simp
  then have "u16_at f 4 = (c XOR u16_at ?f0 2)"
    unfolding c(3) by (simp add: slice_put_same le_val_le_bytes)
  ultimately show ?thesis
    using c(1,2) build_mtp_frame_bytes [OF assms] mtp_frame_length_build [OF assms]
    by (simp add: verify_mtp_frame_def)
qed

text \<open>
  A payload of 24 to 2041 bytes under a one-byte subtype is framed without an
  error, and the frame passes the receiver's verification: its length field is the
  frame's length, its checksum matches, and subtype and payload are recovered from it.
\<close>
theorem build_mtp_frame_roundtrip:
  assumes "0 \<le> subtype" "subtype \<le> 0xFF" "24 \<le> length payload" "length payload \<le> 2041"
  shows "\<exists>frame. build_mtp_frame subtype payload = Inr frame \<and> verify_mtp_frame frame \<and>
           mtp_frame_length frame = Inr (length frame) \<and>
           take 2 frame = [0xC0, of_int subtype] \<and> drop 6 frame = payload"
proof -
  obtain f where f: "build_mtp_frame subtype payload = Inr f"
    using assms build_mtp_frame_Inr_iff [of subtype payload] by auto
  note b = build_mtp_frame_bytes [OF f]
  have "take 2 f = [f ! 0, f ! 1]" using b(1) by (simp add: take_Suc_conv_app_nth numeral_2_eq_2)
  with b f build_mtp_frame_verifies [OF f] mtp_frame_length_build [OF f] show ?thesis by auto
qed

theorem build_mtp_frame_roundtrip_witness:
  "\<exists>frame. build_mtp_frame 0x10 (replicate 24 7) = Inr frame \<and> verify_mtp_frame frame \<and>
           mtp_frame_length frame = Inr (length frame) \<and>
           take 2 frame = [0xC0, of_int 0x10] \<and> drop 6 frame = replicate 24 7"
  by (rule build_mtp_frame_roundtrip) simp_all

section \<open>Segments that are encoded parse\<close>

definition kcp_segment_bytes :: "kcp_segment \<Rightarrow> bytes" where
  "kcp_segment_bytes s = kcp_header_pack (sg_conv s) (sg_command s) (sg_fragment s) (sg_window s)
     (sg_timestamp s) (sg_sequence s) (sg_unacknowledged s) (length (sg_body s)) @ sg_body s"

definition kcp_segment_wf :: "kcp_segment \<Rightarrow> bool" where
  "kcp_segment_wf s \<longleftrightarrow> sg_conv s < 2 ^ 32 \<and> sg_command s < 256 \<and> sg_fragment s < 256 \<and>
     sg_window s < 2 ^ 16 \<and> sg_timestamp s < 2 ^ 32 \<and> sg_sequence s < 2 ^ 32 \<and>
     sg_unacknowledged s < 2 ^ 32 \<and> length (sg_body s) < 2 ^ 32"

lemma length_kcp_header_pack [simp]: "length (kcp_header_pack a b c d e f g h) = 24"
  by (simp add: kcp_header_pack_def)

lemma length_kcp_segment_bytes [simp]: "length (kcp_segment_bytes s) = 24 + length (sg_body s)"
  by (simp add: kcp_segment_bytes_def)

lemma kcp_segment_at_bytes:
  assumes "kcp_segment_wf s" "length pre = n"
  shows "kcp_segment_at (pre @ kcp_segment_bytes s @ post) n (n + 24 + length (sg_body s)) = s"
    "u32_at (pre @ kcp_segment_bytes s @ post) (n + 20) = length (sg_body s)"
proof -
  obtain cv cm fr wi ts sq un bd where s: "s = \<lparr>sg_conv = cv, sg_command = cm, sg_fragment = fr, sg_window = wi,
      sg_timestamp = ts, sg_sequence = sq, sg_unacknowledged = un, sg_body = bd\<rparr>" by (cases s)
  let ?f = "pre @ kcp_segment_bytes s @ post"
  note wf = assms(1) [unfolded kcp_segment_wf_def s, simplified]
  have f: "?f = pre @ le_bytes 4 cv @ le_bytes 1 cm @ le_bytes 1 fr @ le_bytes 2 wi @
     le_bytes 4 ts @ le_bytes 4 sq @ le_bytes 4 un @ le_bytes 4 (length bd) @ bd @ post"
    by (simp add: s kcp_segment_bytes_def kcp_header_pack_def)
  have "u32_at ?f n = cv" "unat (?f ! (n + 4)) = cm" "unat (?f ! (n + 5)) = fr" "u16_at ?f (n + 6) = wi"
    "u32_at ?f (n + 8) = ts" "u32_at ?f (n + 12) = sq" "u32_at ?f (n + 16) = un"
    "pyslice ?f (n + 24) (n + 24 + length bd) = bd"
    using wf assms(2) unfolding f by (simp_all add: slice_fields nth_append le_val_le_bytes)
  moreover show "u32_at ?f (n + 20) = length (sg_body s)"
    using wf assms(2) unfolding f by (simp add: slice_fields le_val_le_bytes s)
  ultimately show "kcp_segment_at ?f n (n + 24 + length (sg_body s)) = s"
    unfolding kcp_segment_at_def by (simp add: s)
qed

lemma parse_kcp_loop_segments:
  "\<forall>s \<in> set ss. kcp_segment_wf s \<Longrightarrow> length pre = n \<Longrightarrow>
   parse_kcp_loop (pre @ concat (map kcp_segment_bytes ss)) n acc = Inr (acc @ ss)"
proof (induction ss arbitrary: pre n acc)
  case Nil
  then show ?case by (simp add: parse_kcp_loop.simps)
next
  case (Cons s ss)
  let ?post = "concat (map kcp_segment_bytes ss)"
  let ?f = "pre @ kcp_segment_bytes s @ ?post"
  note at = kcp_segment_at_bytes [of s pre n ?post]
  have "parse_kcp_loop ?f n acc = parse_kcp_loop ?f (n + 24 + length (sg_body s)) (acc @ [s])"
    by (subst parse_kcp_loop.simps) (use Cons.prems at in \<open>simp add: Let_def\<close>)
  also have "\<dots> = Inr ((acc @ [s]) @ ss)"
    using Cons.IH [of "pre @ kcp_segment_bytes s" "n + 24 + length (sg_body s)" "acc @ [s]"] Cons.prems by simp
  finally show ?case by simp
qed

lemma parse_kcp_frame:
  assumes "build_mtp_frame 0x10 (concat (map kcp_segment_bytes ss)) = Inr f"
    "\<forall>s \<in> set ss. kcp_segment_wf s"
  shows "parse_kcp_segments f = Inr ss"
proof -
  note b = build_mtp_frame_bytes [OF assms(1)]
  have ne: "ss \<noteq> []" using assms(1) by (auto simp: build_mtp_frame_def)
  have "f = take 6 f @ concat (map kcp_segment_bytes ss)" using b(4) by (metis append_take_drop_id)
  then have "parse_kcp_loop f 6 [] = Inr ss"
    using parse_kcp_loop_segments [OF assms(2), of "take 6 f" 6 "[]"] b(1) by simp
  moreover have "pyslice f 0 2 = [f ! 0, f ! 1]"
    using b(1) by (simp add: pyslice_def take_Suc_conv_app_nth numeral_2_eq_2)
  ultimately show ?thesis
    using ne b(2,3) build_mtp_frame_verifies [OF assms(1)] by (simp add: parse_kcp_segments_def)
qed

text \<open>
  A \<open>c0/10\<close> frame built around any number of coalesced KCP segments, whose
  fields fit their widths, parses to exactly those segments in order.
\<close>
theorem parse_kcp_segments_roundtrip:
  assumes "\<forall>s \<in> set ss. kcp_segment_wf s"
    "24 \<le> length (concat (map kcp_segment_bytes ss))" "length (concat (map kcp_segment_bytes ss)) \<le> 2041"
  shows "\<exists>frame. build_mtp_frame 0x10 (concat (map kcp_segment_bytes ss)) = Inr frame \<and>
           parse_kcp_segments frame = Inr ss"
proof -
  obtain f where "build_mtp_frame 0x10 (concat (map kcp_segment_bytes ss)) = Inr f"
    using assms(2,3) build_mtp_frame_Inr_iff [of "0x10" "concat (map kcp_segment_bytes ss)"] by auto
  with parse_kcp_frame [OF this assms(1)] show ?thesis by blast
qed

definition demo_segment :: kcp_segment where
  "demo_segment = \<lparr>sg_conv = 7, sg_command = KCP_PUSH, sg_fragment = 0, sg_window = 256,
     sg_timestamp = 1000, sg_sequence = 3, sg_unacknowledged = 2, sg_body = [1, 2, 3]\<rparr>"

theorem parse_kcp_segments_roundtrip_witness:
  "\<exists>frame. build_mtp_frame 0x10 (concat (map kcp_segment_bytes [demo_segment, demo_segment])) = Inr frame \<and>
     parse_kcp_segments frame = Inr [demo_segment, demo_segment]"
  by (rule parse_kcp_segments_roundtrip) (simp_all add: demo_segment_def kcp_segment_wf_def)

text \<open>What the client sends is what a receiver running the same parser reads.\<close>

lemma build_kcp_push_parses:
  assumes "build_kcp_push conv sequence body (Some ts) una window now = Inr f"
  shows "parse_kcp_segments f = Inr [\<lparr>sg_conv = mask_int 32 conv, sg_command = KCP_PUSH, sg_fragment = 0,
    sg_window = nat window, sg_timestamp = mask_int 32 ts, sg_sequence = mask_int 32 sequence,
    sg_unacknowledged = mask_int 32 una, sg_body = body\<rparr>]" (is "_ = Inr [?s]")
proof (rule parse_kcp_frame)
  show "build_mtp_frame 0x10 (concat (map kcp_segment_bytes [?s])) = Inr f"
    using assms by (simp add: build_kcp_push_def kcp_segment_bytes_def split: if_splits)
  have "0 \<le> window" "window \<le> 0xFFFF" "length body < 2 ^ 32"
    using assms by (auto simp: build_kcp_push_def split: if_splits)
  then show "\<forall>s \<in> set [?s]. kcp_segment_wf s"
    using mask_int_bound [of 32] by (simp add: kcp_segment_wf_def nat_less_iff del: mask_int_bound)
qed

lemma build_kcp_ack_parses:
  assumes "build_kcp_ack conv sequence ts una window = Inr f"
  shows "parse_kcp_segments f = Inr [\<lparr>sg_conv = mask_int 32 conv, sg_command = KCP_ACK, sg_fragment = 0,
    sg_window = nat window, sg_timestamp = mask_int 32 ts, sg_sequence = mask_int 32 sequence,
    sg_unacknowledged = mask_int 32 una, sg_body = []\<rparr>]" (is "_ = Inr [?s]")
proof (rule parse_kcp_frame)
  show "build_mtp_frame 0x10 (concat (map kcp_segment_bytes [?s])) = Inr f"
    using assms by (simp add: build_kcp_ack_def kcp_segment_bytes_def split: if_splits)
  have "0 \<le> window" "window \<le> 0xFFFF"
    using assms by (auto simp: build_kcp_ack_def split: if_splits)
  then show "\<forall>s \<in> set [?s]. kcp_segment_wf s"
    using mask_int_bound [of 32] by (simp add: kcp_segment_wf_def nat_less_iff del: mask_int_bound)
qed

lemma build_window_report_parses:
  assumes "build_window_report conv una window = Inr f"
  shows "parse_kcp_segments f = Inr [\<lparr>sg_conv = nat conv, sg_command = KCP_WINS, sg_fragment = 0,
    sg_window = nat window, sg_timestamp = 0, sg_sequence = 0, sg_unacknowledged = nat una, sg_body = []\<rparr>]"
    (is "_ = Inr [?s]")
proof (rule parse_kcp_frame)
  show "build_mtp_frame 0x10 (concat (map kcp_segment_bytes [?s])) = Inr f"
    using assms by (simp add: build_window_report_def kcp_segment_bytes_def split: if_splits)
  have "0 \<le> window" "window \<le> 0xFFFF" "0 \<le> conv" "conv \<le> 0xFFFFFFFF" "0 \<le> una" "una \<le> 0xFFFFFFFF"
    using assms by (auto simp: build_window_report_def split: if_splits)
  then show "\<forall>s \<in> set [?s]. kcp_segment_wf s"
    by (simp add: kcp_segment_wf_def nat_less_iff)
qed

section \<open>The meter exchange\<close>

lemma parse_media_meter_bounds:
  assumes "parse_media_meter f = Some m"
  shows "mm_link_id m < 256 ^ 4" "mm_source_id m < 256 ^ 8" "mm_destination_id m < 256 ^ 8"
    "mm_sequence m < 256 ^ 4" "mm_channel_type m < 256 ^ 4" "mm_timestamp m = u32_at f 38"
    "length f = 74 \<or> length f = 78"
  using assms by (auto simp: parse_media_meter_def Let_def slice_drop
      intro!: le_val_slice_bound split: if_splits)

lemma parse_built_meter:
  assumes "build_mtp_frame 0x90 inner = Inr f" "length inner = 68 \<or> length inner = 72" "u16_at inner 2 = 0x44"
  shows "parse_media_meter f = Some \<lparr>mm_kind = unat (inner ! 1), mm_link_id = u32_at inner 4,
        mm_flags = u32_at inner 8, mm_source_id = u64_at inner 12, mm_destination_id = u64_at inner 20,
        mm_sequence = u32_at inner 28, mm_timestamp = u32_at inner 32,
        mm_channel_type = u32_at inner 48, mm_record_length = u32_at inner 52,
        mm_role = unat (inner ! 65),
        mm_call_id = (if length inner = 72 then Some (u32_at inner 68) else None)\<rparr>"
proof -
  note b = build_mtp_frame_bytes [OF assms(1)]
  have "pyslice f 0 2 = [f ! 0, f ! 1]"
    using b(1) by (simp add: pyslice_def take_Suc_conv_app_nth numeral_2_eq_2)
  with b(2-4) build_mtp_frame_verifies [OF assms(1)] assms(2,3) show ?thesis
    by (auto simp: parse_media_meter_def Let_def)
qed

lemma media_meter_request_parses:
  "\<exists>f. build_media_meter_request access_id device_id link_id call_id sequence (Some ts) now = Inr f \<and>
     parse_media_meter f = Some \<lparr>mm_kind = 1, mm_link_id = mask_int 32 link_id, mm_flags = 8,
       mm_source_id = mask_int 64 access_id, mm_destination_id = mask_int 64 device_id,
       mm_sequence = mask_int 32 sequence, mm_timestamp = mask_int 32 ts, mm_channel_type = 4,
       mm_record_length = 72, mm_role = 1, mm_call_id = Some (mask_int 32 call_id)\<rparr>"
proof -
  define inner where "inner = (let inner = put (replicate 72 0) 1 [1];
          inner = put inner 2 (le_bytes 2 0x44);
          inner = put inner 4 (le_bytes 4 (mask_int 32 link_id));
          inner = put inner 8 (le_bytes 4 8);
          inner = put inner 12 (le_bytes 8 (mask_int 64 access_id));
          inner = put inner 20 (le_bytes 8 (mask_int 64 device_id));
          inner = put inner 28 (le_bytes 4 (mask_int 32 sequence));
          inner = put inner 32 (le_bytes 4 (mask_int 32 ts));
          inner = put inner 48 (le_bytes 4 4);
          inner = put inner 52 (le_bytes 4 72);
          inner = put inner 64 [2, 1, 0, 0]
      in put inner 68 (le_bytes 4 (mask_int 32 call_id)))"
  have 1: "length inner = 72" "u16_at inner 2 = 0x44" "unat (inner ! 1) = 1" "unat (inner ! 65) = 1"
    "u32_at inner 4 = mask_int 32 link_id" "u32_at inner 8 = 8" "u64_at inner 12 = mask_int 64 access_id"
    "u64_at inner 20 = mask_int 64 device_id" "u32_at inner 28 = mask_int 32 sequence"
    "u32_at inner 32 = mask_int 32 ts" "u32_at inner 48 = 4" "u32_at inner 52 = 72"
    "u32_at inner 68 = mask_int 32 call_id"
    using mask_int_256 by (simp_all add: inner_def Let_def put_fields)
  obtain f where f: "build_mtp_frame 0x90 inner = Inr f"
    using 1(1) build_mtp_frame_Inr_iff [of "0x90" inner] by auto
  then have "build_media_meter_request access_id device_id link_id call_id sequence (Some ts) now = Inr f"
    by (simp add: build_media_meter_request_def inner_def Let_def)
  with parse_built_meter [OF f] 1 show ?thesis by (simp del: length_slice)
qed

text \<open>
  The acknowledgement of a meter request is built without an error and parses
  to the reply that belongs to it: kind 2, source and destination exchanged, link,
  sequence, time stamp and channel type echoed, and no call id.
\<close>
theorem media_meter_ack_answers:
  assumes "parse_media_meter frame = Some req" "mm_kind req = 1"
  shows "\<exists>ack. build_media_meter_ack frame = Inr ack \<and> parse_media_meter ack = Some
    \<lparr>mm_kind = 2, mm_link_id = mm_link_id req, mm_flags = 0, mm_source_id = mm_destination_id req,
     mm_destination_id = mm_source_id req, mm_sequence = mm_sequence req, mm_timestamp = mm_timestamp req,
     mm_channel_type = mm_channel_type req, mm_record_length = 68, mm_role = 0, mm_call_id = None\<rparr>"
proof -
  note bd = parse_media_meter_bounds [OF assms(1)]
  define inner where "inner = (let inner = put (replicate 68 0) 1 [2];
                   inner = put inner 2 (le_bytes 2 0x44);
                   inner = put inner 4 (le_bytes 4 (mm_link_id req));
                   inner = put inner 12 (le_bytes 8 (mm_destination_id req));
                   inner = put inner 20 (le_bytes 8 (mm_source_id req));
                   inner = put inner 28 (le_bytes 4 (mm_sequence req));
                   inner = put inner 32 (pyslice frame 38 46);
                   inner = put inner 48 (le_bytes 4 (mm_channel_type req));
                   inner = put inner 52 (le_bytes 4 68)
               in put inner 64 [2])"
  have len [simp]: "length (pyslice frame 38 46) = 8" using bd(7) by auto
  have z: "le_val (pyslice (replicate 68 0) 8 12) = 0" by (simp add: pyslice_def drop_replicate numeral_eq_Suc)
  have 1: "length inner = 68" "u16_at inner 2 = 0x44" "unat (inner ! 1) = 2" "unat (inner ! 65) = 0"
    "u32_at inner 4 = mm_link_id req" "u32_at inner 8 = 0" "u64_at inner 12 = mm_destination_id req"
    "u64_at inner 20 = mm_source_id req" "u32_at inner 28 = mm_sequence req"
    "u32_at inner 32 = mm_timestamp req" "u32_at inner 48 = mm_channel_type req" "u32_at inner 52 = 68"
    using bd z len by (simp_all add: inner_def Let_def put_fields slice_put_within slice_slice del: length_slice)
  obtain ack where ack: "build_mtp_frame 0x90 inner = Inr ack"
    using 1(1) build_mtp_frame_Inr_iff [of "0x90" inner] by auto
  then have "build_media_meter_ack frame = Inr ack"
    using assms by (simp add: build_media_meter_ack_def inner_def Let_def)
  with parse_built_meter [OF ack] 1 show ?thesis by (simp del: length_slice)
qed

theorem media_meter_ack_answers_witness:
  "\<exists>frame req ack. build_media_meter_request 5 6 7 8 1 (Some 1000) 0 = Inr frame \<and>
     parse_media_meter frame = Some req \<and> mm_kind req = 1 \<and> build_media_meter_ack frame = Inr ack \<and>
     parse_media_meter ack = Some
    \<lparr>mm_kind = 2, mm_link_id = mm_link_id req, mm_flags = 0, mm_source_id = mm_destination_id req,
     mm_destination_id = mm_source_id req, mm_sequence = mm_sequence req, mm_timestamp = mm_timestamp req,
     mm_channel_type = mm_channel_type req, mm_record_length = 68, mm_role = 0, mm_call_id = None\<rparr>"
proof -
  obtain f r where f: "build_media_meter_request 5 6 7 8 1 (Some 1000) 0 = Inr f"
    "parse_media_meter f = Some r" "mm_kind r = 1"
    using media_meter_request_parses [of 5 6 7 8 1 1000 0] by fastforce
  with media_meter_ack_answers [OF f(2,3)] show ?thesis by blast
qed

end
