(* ===== verification/KcpReceive.thy ===== *)
theory KcpReceive
  imports MediaProtocol "HOL-Library.Sublist"
begin

text \<open>
  The bounded KCP message assembly of \<^verbatim>\<open>kcp_receive.py\<close> (class \<^verbatim>\<open>KcpReceiver\<close>) and its
  pinned-peer adapter \<^verbatim>\<open>media_receive.py\<close>. Every call of \<^verbatim>\<open>self.clock()\<close> is an argument
  of the operation that makes it. The lemmas show that the receiver stays inside its
  segment and byte budgets, and that it refines in-order reassembly: whatever the
  network reorders, duplicates or drops, the messages delivered are a prefix of the
  messages sent, and every message whose fragments were all acknowledged is delivered.
\<close>

section \<open>The receiver\<close>

record kcp_receiver =
  kr_conv :: nat
  kr_next_sequence :: nat
  kr_max_segments :: nat
  kr_max_bytes :: nat
  kr_timeout :: time
  kr_pending :: "(nat, kcp_segment) dict"
  kr_parts :: "bytes list"
  kr_remaining :: "int option"
  kr_buffered_bytes :: int
  kr_since :: "time option"
  kr_window_rejected :: nat
  kr_first_rejected :: "nat option"
  kr_last_rejected :: nat
  kr_closed :: bool

record receive_result =
  rr_acknowledge :: bool
  rr_unacknowledged :: nat
  rr_messages :: "bytes list"

abbreviation (input) KCP_MASK :: nat where "KCP_MASK \<equiv> 0xFFFFFFFF"

definition kcp_init :: "int \<Rightarrow> int \<Rightarrow> int \<Rightarrow> int \<Rightarrow> time \<Rightarrow> exn + kcp_receiver" where
  "kcp_init conv initial_sequence max_segments max_bytes timeout =
     (if \<not> (0 \<le> conv \<and> conv \<le> 0xFFFFFFFF) \<or> \<not> (0 \<le> initial_sequence \<and> initial_sequence \<le> 0xFFFFFFFF)
      then Inl (ValueError ''invalid KCP conversation/initial sequence'')
      else if \<not> (1 \<le> max_segments \<and> max_segments \<le> 128) then Inl (ValueError ''invalid KCP segment budget'')
      else if \<not> (1 \<le> max_bytes \<and> max_bytes \<le> 1024 * 1024) then Inl (ValueError ''invalid KCP byte budget'')
      else if \<not> (0.1 \<le> timeout \<and> timeout \<le> 10) then Inl (ValueError ''invalid KCP assembly timeout'')
      else Inr \<lparr>kr_conv = nat conv, kr_next_sequence = nat initial_sequence,
        kr_max_segments = nat max_segments, kr_max_bytes = nat max_bytes, kr_timeout = timeout,
        kr_pending = [], kr_parts = [], kr_remaining = None, kr_buffered_bytes = 0, kr_since = None,
        kr_window_rejected = 0, kr_first_rejected = None, kr_last_rejected = 0, kr_closed = False\<rparr>)"

definition kcp_close :: "kcp_receiver \<Rightarrow> kcp_receiver" where
  "kcp_close r = r\<lparr>kr_closed := True, kr_pending := [], kr_parts := [], kr_remaining := None,
     kr_buffered_bytes := 0, kr_since := None\<rparr>"

definition available_window :: "kcp_receiver \<Rightarrow> int" where
  "available_window r =
     (if kr_closed r then 0
      else int (kr_max_segments r) - int (length (kr_pending r)) - int (length (kr_parts r)))"

definition kcp_fail :: "string \<Rightarrow> kcp_receiver \<Rightarrow> (exn + 'a) \<times> kcp_receiver" where
  "kcp_fail reason r = (Inl (ReceiveError reason), kcp_close r)"

definition reject_future :: "nat \<Rightarrow> kcp_receiver \<Rightarrow> (exn + receive_result) \<times> kcp_receiver" where
  "reject_future sequence r =
     (let r = r\<lparr>kr_window_rejected := min KCP_MASK (kr_window_rejected r + 1)\<rparr>;
          r = (if kr_first_rejected r = None then r\<lparr>kr_first_rejected := Some sequence\<rparr> else r);
          r = r\<lparr>kr_last_rejected := sequence\<rparr>
      in (Inr \<lparr>rr_acknowledge = False, rr_unacknowledged = kr_next_sequence r, rr_messages = []\<rparr>, r))"

definition kcp_distance :: "nat \<Rightarrow> kcp_receiver \<Rightarrow> nat" where
  "kcp_distance sequence r = mask_int 32 (int sequence - int (kr_next_sequence r))"

definition kcp_gap :: "kcp_receiver \<Rightarrow> nat" where
  "kcp_gap r = (if kr_pending r = [] then 0
     else Min (set (map (\<lambda>(seq, s). kcp_distance seq r) (kr_pending r))))"

definition kcp_expire :: "time \<Rightarrow> kcp_receiver \<Rightarrow> (exn + unit) \<times> kcp_receiver" where
  "kcp_expire now r =
     (if kr_closed r then (Inl (ReceiveError ''KCP receiver is closed''), r)
      else case kr_since r of
        None \<Rightarrow> (Inr (), r)
      | Some since \<Rightarrow>
          if now - since \<ge> kr_timeout r then
            let facts = [(''kcp_next_sequence'', int (kr_next_sequence r)),
                  (''kcp_pending'', int (length (kr_pending r))), (''kcp_parts'', int (length (kr_parts r))),
                  (''kcp_gap'', int (kcp_gap r)),
                  (''kcp_remaining'', case kr_remaining r of Some n \<Rightarrow> n + 1 | None \<Rightarrow> 0),
                  (''kcp_bytes'', kr_buffered_bytes r),
                  (''kcp_window_rejected'', int (kr_window_rejected r)),
                  (''kcp_first_rejected'', case kr_first_rejected r of Some n \<Rightarrow> int n | None \<Rightarrow> 0),
                  (''kcp_last_rejected'', int (kr_last_rejected r))]
            in (Inl (KcpAssemblyTimeout facts), kcp_close r)
          else (Inr (), r))"

function kcp_drain :: "bytes list \<Rightarrow> kcp_receiver \<Rightarrow> (exn + bytes list) \<times> kcp_receiver" where
  "kcp_drain messages r =
     (case map_of (kr_pending r) (kr_next_sequence r) of
        None \<Rightarrow> (Inr messages, r)
      | Some current \<Rightarrow>
          let r = r\<lparr>kr_pending := dict_pop (kr_next_sequence r) (kr_pending r)\<rparr>
          in if (case kr_remaining r of None \<Rightarrow> False | Some n \<Rightarrow> int (sg_fragment current) \<noteq> n)
          then kcp_fail ''invalid KCP fragment chain'' r
          else let r = r\<lparr>kr_parts := kr_parts r @ [sg_body current],
                         kr_remaining := Some (int (sg_fragment current) - 1),
                         kr_next_sequence := (kr_next_sequence r + 1) mod 2 ^ 32\<rparr>
          in if sg_fragment current = 0 then
            let message = concat (kr_parts r)
            in kcp_drain (messages @ [message])
                 (r\<lparr>kr_buffered_bytes := kr_buffered_bytes r - int (length message),
                    kr_parts := [], kr_remaining := None\<rparr>)
          else kcp_drain messages r)"
  by pat_completeness auto
termination
  by (relation "measure (\<lambda>(messages, r). length (kr_pending r))")
     (auto simp: map_of_eq_None_iff intro!: length_dict_pop_less dest!: map_of_SomeD intro: rev_image_eqI)

declare kcp_drain.simps [simp del]

text \<open>The end of \<^verbatim>\<open>receive\<close>: retain the segment, drain what is in order, restart the deadline.\<close>

definition kcp_accept ::
  "time \<Rightarrow> time \<Rightarrow> kcp_segment \<Rightarrow> kcp_receiver \<Rightarrow> (exn + receive_result) \<times> kcp_receiver"
where
  "kcp_accept now_since now_done segment r =
     (let r = (if kr_since r = None then r\<lparr>kr_since := Some now_since\<rparr> else r);
          r = r\<lparr>kr_pending := dict_set (sg_sequence segment) segment (kr_pending r),
                kr_buffered_bytes := kr_buffered_bytes r + int (length (sg_body segment))\<rparr>
      in case kcp_drain [] r of
        (Inl e, r) \<Rightarrow> (Inl e, r)
      | (Inr messages, r) \<Rightarrow>
          let r = (if kr_pending r = [] \<and> kr_parts r = [] then r\<lparr>kr_since := None\<rparr>
                   else if messages \<noteq> [] then r\<lparr>kr_since := Some now_done\<rparr> else r)
          in (Inr \<lparr>rr_acknowledge = True, rr_unacknowledged = kr_next_sequence r,
                    rr_messages = messages\<rparr>, r))"

definition kcp_receive ::
  "time \<Rightarrow> time \<Rightarrow> time \<Rightarrow> kcp_segment \<Rightarrow> kcp_receiver \<Rightarrow> (exn + receive_result) \<times> kcp_receiver"
where
  "kcp_receive now_expire now_since now_done segment r =
     (case kcp_expire now_expire r of
        (Inl e, r) \<Rightarrow> (Inl e, r)
      | (Inr _, r) \<Rightarrow>
        let answer = (\<lambda>ack r. (Inr \<lparr>rr_acknowledge = ack, rr_unacknowledged = kr_next_sequence r,
                                     rr_messages = []\<rparr>, r))
        in if sg_conv segment \<noteq> kr_conv r \<or> sg_command segment \<noteq> KCP_PUSH then answer False r
        else if \<not> sg_sequence segment \<le> KCP_MASK \<or> \<not> sg_fragment segment < kr_max_segments r \<or>
                length (sg_body segment) > MTP_MAX_FRAME_SIZE - MTP_PREFIX_SIZE - KCP_HEADER_SIZE
        then kcp_fail ''invalid KCP receive segment'' r
        else let distance = kcp_distance (sg_sequence segment) r;
                 used = length (kr_pending r) + length (kr_parts r)
        in if distance \<ge> 0x80000000 then answer True r
        else if distance \<ge> kr_max_segments r then reject_future (sg_sequence segment) r
        else case map_of (kr_pending r) (sg_sequence segment) of
          Some previous \<Rightarrow>
            if sg_body previous \<noteq> sg_body segment \<or> sg_fragment previous \<noteq> sg_fragment segment
            then kcp_fail ''conflicting KCP duplicate'' r else answer True r
        | None \<Rightarrow>
          if distance \<noteq> 0 \<and> used \<ge> kr_max_segments r - 1 then reject_future (sg_sequence segment) r
          else if used \<ge> kr_max_segments r \<or>
                  kr_buffered_bytes r + int (length (sg_body segment)) > int (kr_max_bytes r)
          then kcp_fail ''KCP receive budget exceeded'' r
          else kcp_accept now_since now_done segment r)"

section \<open>The budgets are kept\<close>

abbreviation pending_bytes :: "kcp_receiver \<Rightarrow> int" where
  "pending_bytes r \<equiv> (\<Sum>p\<leftarrow>kr_pending r. int (length (sg_body (snd p))))"

definition kcp_core :: "kcp_receiver \<Rightarrow> bool" where
  "kcp_core r \<longleftrightarrow> kr_next_sequence r < 2 ^ 32 \<and> 1 \<le> kr_max_segments r \<and> kr_max_segments r \<le> 128 \<and>
     distinct (map fst (kr_pending r)) \<and>
     (\<forall>(k, s) \<in> set (kr_pending r). k < 2 ^ 32 \<and> kcp_distance k r < kr_max_segments r) \<and>
     length (kr_pending r) + length (kr_parts r) \<le> kr_max_segments r \<and>
     kr_buffered_bytes r = pending_bytes r + int (length (concat (kr_parts r))) \<and>
     kr_buffered_bytes r \<le> int (kr_max_bytes r) \<and>
     (kr_remaining r = None \<longleftrightarrow> kr_parts r = []) \<and> (\<forall>n. kr_remaining r = Some n \<longrightarrow> 0 \<le> n)"

definition kcp_wf :: "kcp_receiver \<Rightarrow> bool" where
  "kcp_wf r \<longleftrightarrow> kcp_core r \<and> kr_next_sequence r \<notin> fst ` set (kr_pending r) \<and>
     (kr_since r = None \<longleftrightarrow> kr_pending r = [] \<and> kr_parts r = []) \<and>
     (kr_closed r \<longrightarrow> kr_pending r = [] \<and> kr_parts r = [])"

text \<open>One iteration of the draining loop, when the fragment fits the chain.\<close>

definition kcp_consume :: "kcp_segment \<Rightarrow> kcp_receiver \<Rightarrow> kcp_receiver" where
  "kcp_consume c r = r\<lparr>kr_pending := dict_pop (kr_next_sequence r) (kr_pending r),
     kr_next_sequence := (kr_next_sequence r + 1) mod 2 ^ 32,
     kr_parts := (if sg_fragment c = 0 then [] else kr_parts r @ [sg_body c]),
     kr_remaining := (if sg_fragment c = 0 then None else Some (int (sg_fragment c) - 1)),
     kr_buffered_bytes := (if sg_fragment c = 0
       then kr_buffered_bytes r - int (length (concat (kr_parts r @ [sg_body c]))) else kr_buffered_bytes r)\<rparr>"

definition kcp_emit :: "kcp_segment \<Rightarrow> kcp_receiver \<Rightarrow> bytes list" where
  "kcp_emit c r = (if sg_fragment c = 0 then [concat (kr_parts r @ [sg_body c])] else [])"

definition kcp_breaks_chain :: "kcp_segment \<Rightarrow> kcp_receiver \<Rightarrow> bool" where
  "kcp_breaks_chain c r \<longleftrightarrow> (\<exists>n. kr_remaining r = Some n \<and> int (sg_fragment c) \<noteq> n)"

lemma kcp_drain_unfold:
  "kcp_drain m r = (case map_of (kr_pending r) (kr_next_sequence r) of None \<Rightarrow> (Inr m, r)
     | Some c \<Rightarrow> if kcp_breaks_chain c r
         then kcp_fail ''invalid KCP fragment chain'' (r\<lparr>kr_pending := dict_pop (kr_next_sequence r) (kr_pending r)\<rparr>)
         else kcp_drain (m @ kcp_emit c r) (kcp_consume c r))"
  by (subst kcp_drain.simps, cases r)
     (auto simp: Let_def kcp_consume_def kcp_emit_def kcp_breaks_chain_def split: option.split)

lemma kcp_drain_induct [case_names step]:
  assumes "\<And>m r. (\<And>c. map_of (kr_pending r) (kr_next_sequence r) = Some c \<Longrightarrow> \<not> kcp_breaks_chain c r \<Longrightarrow>
                    P (m @ kcp_emit c r) (kcp_consume c r)) \<Longrightarrow> P m r"
  shows "P m r"
proof (induction "length (kr_pending r)" arbitrary: m r rule: less_induct)
  case less
  show ?case
  proof (rule assms)
    fix c assume "map_of (kr_pending r) (kr_next_sequence r) = Some c"
    then have "length (kr_pending (kcp_consume c r)) < length (kr_pending r)"
      by (auto simp: kcp_consume_def intro!: length_dict_pop_less dest!: map_of_SomeD intro: rev_image_eqI)
    then show "P (m @ kcp_emit c r) (kcp_consume c r)" by (rule less)
  qed
qed

lemma mask_int_diff:
  assumes "a < 2 ^ 32" "b < 2 ^ 32"
  shows "mask_int 32 (int a - int b) = (if b \<le> a then a - b else a + 2 ^ 32 - b)"
proof (cases "b \<le> a")
  case True
  with assms show ?thesis by (simp add: mask_int_def mod_pos_pos_trivial)
next
  case False
  have "(int a - int b) mod 2 ^ 32 = (int a - int b + 2 ^ 32) mod 2 ^ 32" by simp
  also have "\<dots> = int a - int b + 2 ^ 32" using assms False by (intro mod_pos_pos_trivial) auto
  finally show ?thesis using assms False by (simp add: mask_int_def)
qed

lemma Suc_mod_32: "b < 2 ^ 32 \<Longrightarrow> (b + 1) mod 2 ^ 32 = (if b = 2 ^ 32 - 1 then 0 else b + (1 :: nat))"
  by auto

lemma kcp_distance_next:
  assumes "k < 2 ^ 32" "kr_next_sequence r < 2 ^ 32" "k \<noteq> kr_next_sequence r"
    "kr_next_sequence r' = (kr_next_sequence r + 1) mod 2 ^ 32"
  shows "kcp_distance k r' = kcp_distance k r - 1"
proof -
  have "kr_next_sequence r' < 2 ^ 32" using assms(4) by simp
  with assms show ?thesis
    by (simp only: kcp_distance_def mask_int_diff Suc_mod_32) auto
qed

lemma kcp_core_consume:
  assumes "kcp_core r" "map_of (kr_pending r) (kr_next_sequence r) = Some c" "\<not> kcp_breaks_chain c r"
  shows "kcp_core (kcp_consume c r)"
proof -
  let ?p = "kr_pending r" and ?n = "kr_next_sequence r"
  have d: "distinct (map fst ?p)" and n: "?n < 2 ^ 32" using assms(1) by (auto simp: kcp_core_def)
  have "\<forall>(k, s) \<in> set (dict_pop ?n ?p). k < 2 ^ 32 \<and> kcp_distance k (kcp_consume c r) < kr_max_segments r"
  proof clarify
    fix k s assume "(k, s) \<in> set (dict_pop ?n ?p)"
    then have k: "(k, s) \<in> set ?p" "k \<noteq> ?n" by (auto simp: dict_pop_def)
    with assms(1) have *: "k < 2 ^ 32" "kcp_distance k r < kr_max_segments r" by (auto simp: kcp_core_def)
    moreover have "kcp_distance k (kcp_consume c r) = kcp_distance k r - 1"
      using *(1) n k(2) by (rule kcp_distance_next) (simp add: kcp_consume_def)
    ultimately show "k < 2 ^ 32 \<and> kcp_distance k (kcp_consume c r) < kr_max_segments r" by simp
  qed
  moreover have "pending_bytes (kcp_consume c r) = pending_bytes r - int (length (sg_body c))"
    using d assms(2) by (simp add: kcp_consume_def sum_list_dict_pop)
  moreover have "length (dict_pop ?n ?p) + 1 = length ?p" using length_dict_pop [OF d assms(2)] by simp
  moreover have "0 \<le> pending_bytes (kcp_consume c r)" by (intro sum_list_nonneg) auto
  ultimately show ?thesis
    using assms(1) d by (simp add: kcp_core_def kcp_consume_def distinct_dict_pop)
qed

lemma kcp_wf_close:
  "kr_next_sequence r < 2 ^ 32 \<Longrightarrow> 1 \<le> kr_max_segments r \<Longrightarrow> kr_max_segments r \<le> 128 \<Longrightarrow> kcp_wf (kcp_close r)"
  by (simp add: kcp_wf_def kcp_core_def kcp_close_def)

text \<open>What the loop leaves behind, whichever way it ends.\<close>

lemma kcp_drain_core:
  assumes "kcp_core r" "kcp_drain m r = (res, r')"
  shows "(\<forall>e. res = Inl e \<longrightarrow> kcp_wf r' \<and> kr_closed r') \<and>
    (\<forall>ms. res = Inr ms \<longrightarrow> kcp_core r' \<and> kr_next_sequence r' \<notin> fst ` set (kr_pending r') \<and>
       kr_since r' = kr_since r \<and> kr_closed r' = kr_closed r) \<and>
    kr_max_segments r' = kr_max_segments r \<and> kr_max_bytes r' = kr_max_bytes r \<and>
    kr_conv r' = kr_conv r \<and> kr_timeout r' = kr_timeout r"
  using assms
proof (induction m r rule: kcp_drain_induct)
  case (step m r)
  show ?case
  proof (cases "map_of (kr_pending r) (kr_next_sequence r)")
    case None
    with step.prems show ?thesis by (auto simp: kcp_drain_unfold [of m r] map_of_None_keys)
  next
    case (Some c)
    show ?thesis
    proof (cases "kcp_breaks_chain c r")
      case True
      with Some step.prems show ?thesis
        by (auto simp: kcp_drain_unfold [of m r] kcp_fail_def kcp_core_def intro: kcp_wf_close)
           (simp_all add: kcp_close_def)
    next
      case False
      with Some step.prems have "kcp_drain (m @ kcp_emit c r) (kcp_consume c r) = (res, r')"
        by (simp add: kcp_drain_unfold [of m r])
      from step.IH [OF Some False kcp_core_consume [OF step.prems(1) Some False] this]
      show ?thesis by (simp add: kcp_consume_def)
    qed
  qed
qed

lemma kcp_core_since [simp]: "kcp_core (r\<lparr>kr_since := t\<rparr>) = kcp_core r"
  by (simp add: kcp_core_def kcp_distance_def)

lemma kcp_core_insert:
  assumes "kcp_core r" "sg_sequence s < 2 ^ 32" "kcp_distance (sg_sequence s) r < kr_max_segments r"
    "map_of (kr_pending r) (sg_sequence s) = None"
    "length (kr_pending r) + length (kr_parts r) < kr_max_segments r"
    "kr_buffered_bytes r + int (length (sg_body s)) \<le> int (kr_max_bytes r)"
  shows "kcp_core (r\<lparr>kr_pending := dict_set (sg_sequence s) s (kr_pending r),
           kr_buffered_bytes := kr_buffered_bytes r + int (length (sg_body s))\<rparr>)"
  using assms by (auto simp: kcp_core_def kcp_distance_def dict_set_new map_of_None_keys)

lemma kcp_accept_wf:
  assumes "kcp_wf r" "\<not> kr_closed r" "sg_sequence s < 2 ^ 32" "kcp_distance (sg_sequence s) r < kr_max_segments r"
    "map_of (kr_pending r) (sg_sequence s) = None"
    "length (kr_pending r) + length (kr_parts r) < kr_max_segments r"
    "kr_buffered_bytes r + int (length (sg_body s)) \<le> int (kr_max_bytes r)"
    "kcp_accept t1 t2 s r = (res, r')"
  shows "kcp_wf r'" "kr_closed r' \<longleftrightarrow> (\<exists>e. res = Inl e)"
    "kr_max_segments r' = kr_max_segments r" "kr_max_bytes r' = kr_max_bytes r" "kr_conv r' = kr_conv r"
proof -
  define r1 where "r1 = (if kr_since r = None then r\<lparr>kr_since := Some t1\<rparr> else r)"
  define r2 where "r2 = r1\<lparr>kr_pending := dict_set (sg_sequence s) s (kr_pending r1),
                kr_buffered_bytes := kr_buffered_bytes r1 + int (length (sg_body s))\<rparr>"
  have "kcp_core r1" using assms(1) by (simp add: r1_def kcp_wf_def)
  then have c2: "kcp_core r2" unfolding r2_def
    using assms by (intro kcp_core_insert) (auto simp: r1_def kcp_distance_def)
  have s2: "kr_since r2 \<noteq> None" "\<not> kr_closed r2" "kr_max_segments r2 = kr_max_segments r"
    "kr_max_bytes r2 = kr_max_bytes r" "kr_conv r2 = kr_conv r"
    using assms(2) by (simp_all add: r1_def r2_def)
  obtain d r3 where d: "kcp_drain [] r2 = (d, r3)" by fastforce
  note dr = kcp_drain_core [OF c2 d]
  have acc: "kcp_accept t1 t2 s r = (case d of Inl e \<Rightarrow> (Inl e, r3)
      | Inr messages \<Rightarrow> let r = (if kr_pending r3 = [] \<and> kr_parts r3 = [] then r3\<lparr>kr_since := None\<rparr>
                   else if messages \<noteq> [] then r3\<lparr>kr_since := Some t2\<rparr> else r3)
          in (Inr \<lparr>rr_acknowledge = True, rr_unacknowledged = kr_next_sequence r, rr_messages = messages\<rparr>, r))"
    unfolding kcp_accept_def Let_def r1_def [symmetric] r2_def [symmetric] d by simp
  show "kcp_wf r'" "kr_closed r' \<longleftrightarrow> (\<exists>e. res = Inl e)"
    "kr_max_segments r' = kr_max_segments r" "kr_max_bytes r' = kr_max_bytes r" "kr_conv r' = kr_conv r"
    using dr s2 acc assms(8) by (auto simp: kcp_wf_def Let_def split: sum.splits if_splits)
qed

abbreviation kcp_push_ok :: "kcp_receiver \<Rightarrow> kcp_segment \<Rightarrow> bool" where
  "kcp_push_ok r s \<equiv> sg_conv s = kr_conv r \<and> sg_command s = KCP_PUSH \<and> sg_sequence s < 2 ^ 32 \<and>
     sg_fragment s < kr_max_segments r \<and> length (sg_body s) \<le> 2017"

abbreviation kcp_answer :: "bool \<Rightarrow> kcp_receiver \<Rightarrow> receive_result" where
  "kcp_answer ack r \<equiv> \<lparr>rr_acknowledge = ack, rr_unacknowledged = kr_next_sequence r, rr_messages = []\<rparr>"

text \<open>The branches of \<^const>\<open>kcp_receive\<close>, each with what holds on it.\<close>

lemma kcp_receive_cases:
  assumes "kcp_receive t0 t1 t2 s r = (res, r')"
  obtains
    (expired) e where "res = Inl e" "r' = (if kr_closed r then r else kcp_close r)"
      "kr_closed r \<or> (\<exists>f. e = KcpAssemblyTimeout f)"
  | (foreign) "\<not> kr_closed r" "res = Inr (kcp_answer False r)" "r' = r"
      "sg_conv s \<noteq> kr_conv r \<or> sg_command s \<noteq> KCP_PUSH"
  | (invalid) "\<not> kr_closed r" "res = Inl (ReceiveError ''invalid KCP receive segment'')" "r' = kcp_close r"
      "sg_conv s = kr_conv r \<and> sg_command s = KCP_PUSH" "\<not> kcp_push_ok r s"
  | (again) "\<not> kr_closed r" "res = Inr (kcp_answer True r)" "r' = r" "kcp_push_ok r s"
      "2 ^ 31 \<le> kcp_distance (sg_sequence s) r \<or> sg_sequence s \<in> fst ` set (kr_pending r)"
  | (future) "\<not> kr_closed r" "reject_future (sg_sequence s) r = (res, r')" "kcp_push_ok r s"
      "kcp_distance (sg_sequence s) r < 2 ^ 31" "kcp_distance (sg_sequence s) r \<noteq> 0 \<or> kr_max_segments r = 0"
  | (conflict) p where "\<not> kr_closed r" "res = Inl (ReceiveError ''conflicting KCP duplicate'')" "r' = kcp_close r"
      "kcp_push_ok r s" "kcp_distance (sg_sequence s) r < 2 ^ 31"
      "map_of (kr_pending r) (sg_sequence s) = Some p"
      "sg_body p \<noteq> sg_body s \<or> sg_fragment p \<noteq> sg_fragment s"
  | (budget) "\<not> kr_closed r" "res = Inl (ReceiveError ''KCP receive budget exceeded'')" "r' = kcp_close r"
      "kcp_push_ok r s"
  | (accept) "\<not> kr_closed r" "kcp_accept t1 t2 s r = (res, r')" "kcp_push_ok r s"
      "kcp_distance (sg_sequence s) r < 2 ^ 31" "kcp_distance (sg_sequence s) r < kr_max_segments r"
      "map_of (kr_pending r) (sg_sequence s) = None"
      "length (kr_pending r) + length (kr_parts r) < kr_max_segments r"
      "kr_buffered_bytes r + int (length (sg_body s)) \<le> int (kr_max_bytes r)"
proof (cases "fst (kcp_expire t0 r)")
  case (Inl e)
  then have ex: "kcp_expire t0 r = (Inl e, if kr_closed r then r else kcp_close r)"
    "kr_closed r \<or> (\<exists>f. e = KcpAssemblyTimeout f)"
    by (auto simp: kcp_expire_def Let_def split: if_splits option.splits)
  from assms [unfolded kcp_receive_def ex(1) prod.case sum.case] ex(2) show ?thesis
    by (intro expired [of e]) auto
next
  case (Inr u)
  then have ex: "kcp_expire t0 r = (Inr u, r)" "\<not> kr_closed r"
    by (auto simp: kcp_expire_def Let_def split: if_splits option.splits)
  note rcv = assms [unfolded kcp_receive_def ex(1) Let_def prod.case sum.case]
  let ?q = "sg_sequence s"
  let ?d = "kcp_distance ?q r" and ?used = "length (kr_pending r) + length (kr_parts r)"
  consider "sg_conv s \<noteq> kr_conv r \<or> sg_command s \<noteq> KCP_PUSH"
    | "sg_conv s = kr_conv r \<and> sg_command s = KCP_PUSH" "\<not> kcp_push_ok r s"
    | "kcp_push_ok r s" "2 ^ 31 \<le> ?d" | "kcp_push_ok r s" "?d < 2 ^ 31" "kr_max_segments r \<le> ?d"
    | (near) "kcp_push_ok r s" "?d < 2 ^ 31" "?d < kr_max_segments r" by linarith
  then show ?thesis
  proof cases
    case 1
    from rcv [unfolded if_P [OF 1]] 1 ex(2) show ?thesis by (intro foreign) auto
  next
    case 2
    then have g: "\<not> (sg_conv s \<noteq> kr_conv r \<or> sg_command s \<noteq> KCP_PUSH)"
      "\<not> ?q \<le> KCP_MASK \<or> \<not> sg_fragment s < kr_max_segments r \<or>
          length (sg_body s) > MTP_MAX_FRAME_SIZE - MTP_PREFIX_SIZE - KCP_HEADER_SIZE" by auto
    from rcv [unfolded if_not_P [OF g(1)] if_P [OF g(2)] kcp_fail_def] 2 ex(2)
    show ?thesis by (intro invalid) auto
  next
    case 3
    then have g: "\<not> (sg_conv s \<noteq> kr_conv r \<or> sg_command s \<noteq> KCP_PUSH)"
      "\<not> (\<not> ?q \<le> KCP_MASK \<or> \<not> sg_fragment s < kr_max_segments r \<or>
          length (sg_body s) > MTP_MAX_FRAME_SIZE - MTP_PREFIX_SIZE - KCP_HEADER_SIZE)"
      "?d \<ge> 0x80000000" by auto
    from rcv [unfolded if_not_P [OF g(1)] if_not_P [OF g(2)] if_P [OF g(3)]] 3 ex(2)
    show ?thesis by (intro again) auto
  next
    case 4
    then have g: "\<not> (sg_conv s \<noteq> kr_conv r \<or> sg_command s \<noteq> KCP_PUSH)"
      "\<not> (\<not> ?q \<le> KCP_MASK \<or> \<not> sg_fragment s < kr_max_segments r \<or>
          length (sg_body s) > MTP_MAX_FRAME_SIZE - MTP_PREFIX_SIZE - KCP_HEADER_SIZE)"
      "\<not> ?d \<ge> 0x80000000" by auto
    from rcv [unfolded if_not_P [OF g(1)] if_not_P [OF g(2)] if_not_P [OF g(3)] if_P [OF 4(3)]] 4 ex(2)
    show ?thesis by (intro future) auto
  next
    case near
    then have g: "\<not> (sg_conv s \<noteq> kr_conv r \<or> sg_command s \<noteq> KCP_PUSH)"
      "\<not> (\<not> ?q \<le> KCP_MASK \<or> \<not> sg_fragment s < kr_max_segments r \<or>
          length (sg_body s) > MTP_MAX_FRAME_SIZE - MTP_PREFIX_SIZE - KCP_HEADER_SIZE)"
      "\<not> ?d \<ge> 0x80000000" "\<not> ?d \<ge> kr_max_segments r" by auto
    note rcv = rcv [unfolded if_not_P [OF g(1)] if_not_P [OF g(2)] if_not_P [OF g(3)] if_not_P [OF g(4)]]
    show ?thesis
    proof (cases "map_of (kr_pending r) ?q")
      case (Some p)
      note rcv = rcv [unfolded Some option.case]
      from Some have k: "?q \<in> fst ` set (kr_pending r)" by (metis map_of_None_keys option.distinct(1))
      show ?thesis
      proof (cases "sg_body p \<noteq> sg_body s \<or> sg_fragment p \<noteq> sg_fragment s")
        case True
        from rcv [unfolded if_P [OF True] kcp_fail_def] near ex(2) Some True
        show ?thesis by (intro conflict [of p]) auto
      next
        case False
        from rcv [unfolded if_not_P [OF False]] near ex(2) k show ?thesis by (intro again) auto
      qed
    next
      case None
      note rcv = rcv [unfolded None option.case]
      consider (full) "?d \<noteq> 0 \<and> ?used \<ge> kr_max_segments r - 1"
        | (over) "\<not> (?d \<noteq> 0 \<and> ?used \<ge> kr_max_segments r - 1)" "?used \<ge> kr_max_segments r \<or>
                  kr_buffered_bytes r + int (length (sg_body s)) > int (kr_max_bytes r)"
        | (fits) "\<not> (?d \<noteq> 0 \<and> ?used \<ge> kr_max_segments r - 1)" "\<not> (?used \<ge> kr_max_segments r \<or>
                  kr_buffered_bytes r + int (length (sg_body s)) > int (kr_max_bytes r))" by blast
      then show ?thesis
      proof cases
        case full
        from rcv [unfolded if_P [OF full]] near ex(2) full show ?thesis by (intro future) auto
      next
        case over
        note rcv = rcv [unfolded if_not_P [OF over(1)] if_P [OF over(2)] kcp_fail_def]
        with near ex(2) show ?thesis by (intro budget) auto
      next
        case fits
        note rcv = rcv [unfolded if_not_P [OF fits(1)] if_not_P [OF fits(2)]]
        from fits(2) have "?used < kr_max_segments r"
          "kr_buffered_bytes r + int (length (sg_body s)) \<le> int (kr_max_bytes r)" by auto
        with rcv near ex(2) None show ?thesis by (intro accept)
      qed
    qed
  qed
qed

lemma reject_future_eq:
  "reject_future q r = (Inr (kcp_answer False r),
     r\<lparr>kr_window_rejected := min KCP_MASK (kr_window_rejected r + 1),
       kr_first_rejected := (case kr_first_rejected r of None \<Rightarrow> Some q | Some p \<Rightarrow> Some p), kr_last_rejected := q\<rparr>)"
  by (cases r) (auto simp: reject_future_def Let_def split: option.split)

lemma kcp_wf_reject_fields [simp]:
  "kcp_wf (r\<lparr>kr_window_rejected := a, kr_first_rejected := b, kr_last_rejected := c\<rparr>) = kcp_wf r"
  by (simp add: kcp_wf_def kcp_core_def kcp_distance_def)

lemma kcp_wf_reject: "kcp_wf r \<Longrightarrow> reject_future q r = (res, r') \<Longrightarrow> kcp_wf r'"
  unfolding reject_future_eq by (metis kcp_wf_reject_fields prod.inject)

lemma kcp_receive_wf:
  assumes "kcp_wf r" "kcp_receive t0 t1 t2 s r = (res, r')"
  shows "kcp_wf r'"
  using assms(2)
proof (cases rule: kcp_receive_cases)
  case accept
  show ?thesis
    by (rule kcp_accept_wf(1) [OF assms(1) accept(1) _ accept(5-8) accept(2)]) (use accept(3) in simp)
next
  case future
  with assms(1) kcp_wf_reject show ?thesis by blast
qed (use assms(1) in \<open>auto simp: kcp_wf_def kcp_core_def kcp_close_def\<close>)

section \<open>The specification: in-order reassembly\<close>

text \<open>
  A sender cuts every message into fragments numbered downwards to zero and sends the
  fragments of all messages as one stream with consecutive sequence numbers, modulo
  \<open>2 ^ 32\<close>. Reading a stream in order delivers its messages.
\<close>

definition kcp_fragments :: "bytes list \<Rightarrow> (nat \<times> bytes) list" where
  "kcp_fragments bodies = zip (rev [0..<length bodies]) bodies"

definition kcp_stream :: "bytes list list \<Rightarrow> (nat \<times> bytes) list" where
  "kcp_stream msgs = concat (map kcp_fragments msgs)"

definition asm_step :: "bytes list \<times> bytes list \<Rightarrow> nat \<times> bytes \<Rightarrow> bytes list \<times> bytes list" where
  "asm_step s x = (if fst x = 0 then (fst s @ [concat (snd s @ [snd x])], []) else (fst s, snd s @ [snd x]))"

definition assembled :: "(nat \<times> bytes) list \<Rightarrow> bytes list \<times> bytes list" where
  "assembled st = foldl asm_step ([], []) st"

definition chain_ok :: "(nat \<times> bytes) list \<Rightarrow> bool" where
  "chain_ok st \<longleftrightarrow> (\<forall>i. Suc i < length st \<longrightarrow> fst (st ! i) \<noteq> 0 \<longrightarrow> fst (st ! Suc i) = fst (st ! i) - 1)"

definition chain_left :: "(nat \<times> bytes) list \<Rightarrow> nat \<Rightarrow> int option" where
  "chain_left st n = (if n = 0 \<or> fst (st ! (n - 1)) = 0 then None else Some (int (fst (st ! (n - 1))) - 1))"

lemma kcp_fragments_Cons: "kcp_fragments (b # bs) = (length bs, b) # kcp_fragments bs"
  by (simp add: kcp_fragments_def)

lemma length_kcp_fragments [simp]: "length (kcp_fragments bs) = length bs"
  by (simp add: kcp_fragments_def)

lemma assembled_take_Suc:
  "n < length st \<Longrightarrow> assembled (take (Suc n) st) = asm_step (assembled (take n st)) (st ! n)"
  by (simp add: assembled_def take_Suc_conv_app_nth)

lemma fst_foldl_asm: "fst (foldl asm_step (o', p) st) = o' @ fst (foldl asm_step ([], p) st)"
proof (induction st arbitrary: o' p)
  case Nil
  then show ?case by simp
next
  case (Cons x st)
  have e: "asm_step (o', p) x = (o' @ fst (asm_step ([], p) x), snd (asm_step ([], p) x))"
    by (simp add: asm_step_def)
  have "fst (foldl asm_step (o', p) (x # st)) =
      (o' @ fst (asm_step ([], p) x)) @ fst (foldl asm_step ([], snd (asm_step ([], p) x)) st)"
    unfolding foldl.simps e by (rule Cons)
  also have "\<dots> = o' @ fst (foldl asm_step ([], p) (x # st))"
    using Cons [of "fst (asm_step ([], p) x)" "snd (asm_step ([], p) x)"] by simp
  finally show ?case .
qed

lemma foldl_asm_fragments:
  "bs \<noteq> [] \<Longrightarrow> foldl asm_step (o', p) (kcp_fragments bs) = (o' @ [concat p @ concat bs], [])"
proof (induction bs arbitrary: p)
  case Nil
  then show ?case by simp
next
  case (Cons b bs)
  then show ?case by (cases "bs = []") (simp_all add: kcp_fragments_Cons asm_step_def kcp_fragments_def)
qed

lemma assembled_stream:
  assumes "\<forall>m \<in> set msgs. m \<noteq> []"
  shows "assembled (kcp_stream msgs) = (map concat msgs, [])"
proof -
  have "foldl asm_step (o', []) (kcp_stream msgs) = (o' @ map concat msgs, [])" for o'
    using assms by (induction msgs arbitrary: o') (simp_all add: kcp_stream_def foldl_asm_fragments)
  then show ?thesis by (simp add: assembled_def)
qed

lemma chain_ok_append:
  assumes "chain_ok a" "chain_ok b" "a \<noteq> [] \<Longrightarrow> fst (last a) = 0"
  shows "chain_ok (a @ b)"
  unfolding chain_ok_def
proof (intro allI impI)
  fix i assume i: "Suc i < length (a @ b)" "fst ((a @ b) ! i) \<noteq> 0"
  consider "Suc i < length a" | "Suc i = length a" | "length a \<le> i" by linarith
  then show "fst ((a @ b) ! Suc i) = fst ((a @ b) ! i) - 1"
  proof cases
    case 2
    then have "a \<noteq> []" "i = length a - 1" by auto
    then have "(a @ b) ! i = last a" by (simp add: nth_append last_conv_nth)
    with assms(3) i(2) \<open>a \<noteq> []\<close> show ?thesis by simp
  next
    case 3
    then have "Suc i - length a = Suc (i - length a)" by simp
    with 3 i assms(2) show ?thesis by (auto simp: chain_ok_def nth_append)
  qed (use i assms(1) in \<open>auto simp: chain_ok_def nth_append\<close>)
qed

lemma chain_ok_fragments: "chain_ok (kcp_fragments bs)"
  by (auto simp: chain_ok_def kcp_fragments_def rev_nth)

lemma last_kcp_fragments: "bs \<noteq> [] \<Longrightarrow> fst (last (kcp_fragments bs)) = 0"
  by (simp add: kcp_fragments_def last_conv_nth rev_nth)

lemma chain_ok_stream: "chain_ok (kcp_stream msgs)"
proof (induction msgs)
  case Nil
  then show ?case by (simp add: kcp_stream_def chain_ok_def)
next
  case (Cons m msgs)
  have "kcp_stream (m # msgs) = kcp_fragments m @ kcp_stream msgs" by (simp add: kcp_stream_def)
  moreover have "kcp_fragments m \<noteq> [] \<Longrightarrow> m \<noteq> []" by (metis length_0_conv length_kcp_fragments)
  ultimately show ?case
    using chain_ok_append [OF chain_ok_fragments Cons] last_kcp_fragments by metis
qed

section \<open>The receiver refines it\<close>

definition kcp_genuine :: "nat \<Rightarrow> nat \<Rightarrow> (nat \<times> bytes) list \<Rightarrow> nat \<Rightarrow> kcp_segment \<Rightarrow> bool" where
  "kcp_genuine conv s0 st i s \<longleftrightarrow> i < length st \<and> sg_conv s = conv \<and> sg_command s = KCP_PUSH \<and>
     sg_sequence s = (s0 + i) mod 2 ^ 32 \<and> sg_fragment s = fst (st ! i) \<and> sg_body s = snd (st ! i)"

text \<open>\<open>kcp_sim s0 st r n\<close>: the receiver has consumed the first \<open>n\<close> fragments of the stream.\<close>

definition kcp_sim :: "nat \<Rightarrow> (nat \<times> bytes) list \<Rightarrow> kcp_receiver \<Rightarrow> nat \<Rightarrow> bool" where
  "kcp_sim s0 st r n \<longleftrightarrow> n \<le> length st \<and> kr_next_sequence r = (s0 + n) mod 2 ^ 32 \<and>
     kr_parts r = snd (assembled (take n st)) \<and> kr_remaining r = chain_left st n \<and>
     (\<forall>k s. map_of (kr_pending r) k = Some s \<longrightarrow>
        (\<exists>i. n \<le> i \<and> i < length st \<and> k = (s0 + i) mod 2 ^ 32 \<and>
             sg_fragment s = fst (st ! i) \<and> sg_body s = snd (st ! i)))"

definition kcp_held :: "nat \<Rightarrow> (nat \<times> bytes) list \<Rightarrow> kcp_receiver \<Rightarrow> nat \<Rightarrow> nat set" where
  "kcp_held s0 st r n = {i. i < length st \<and> (i < n \<or> map_of (kr_pending r) ((s0 + i) mod 2 ^ 32) \<noteq> None)}"

lemma seq_inj: "i \<le> 2 ^ 31 \<Longrightarrow> j \<le> 2 ^ 31 \<Longrightarrow> (s0 + i) mod 2 ^ 32 = (s0 + j) mod (2 :: nat) ^ 32 \<Longrightarrow> i = j"
proof (induction i j rule: linorder_wlog)
  case (le i j)
  then have "2 ^ 32 dvd (s0 + j) - (s0 + i)" by (metis mod_eq_dvd_iff_nat add_le_cancel_left)
  with le(2) show ?case using le(1,3) by (auto dest: dvd_imp_le)
next
  case (sym i j)
  then show ?case by metis
qed

lemma kcp_sim_consume:
  assumes "kcp_sim s0 st r n" "chain_ok st" "length st \<le> 2 ^ 31"
    "map_of (kr_pending r) (kr_next_sequence r) = Some c"
  shows "n < length st" "\<not> kcp_breaks_chain c r" "kcp_sim s0 st (kcp_consume c r) (Suc n)"
    "fst (assembled (take (Suc n) st)) = fst (assembled (take n st)) @ kcp_emit c r"
    "kcp_held s0 st r n \<subseteq> kcp_held s0 st (kcp_consume c r) (Suc n)"
proof -
  note sim = assms(1) [unfolded kcp_sim_def]
  obtain i where i: "n \<le> i" "i < length st" "(s0 + n) mod 2 ^ 32 = (s0 + i) mod 2 ^ 32"
    "sg_fragment c = fst (st ! i)" "sg_body c = snd (st ! i)" using sim assms(4) by metis
  then have "n = i" using assms(3) by (intro seq_inj [of n i s0]) auto
  with i have n: "n < length st" "sg_fragment c = fst (st ! n)" "sg_body c = snd (st ! n)" by auto
  show "n < length st" by fact
  show "\<not> kcp_breaks_chain c r"
    using sim n assms(2) by (cases n) (auto simp: kcp_breaks_chain_def chain_left_def chain_ok_def of_nat_diff Suc_le_eq)
  note asm = assembled_take_Suc [OF n(1)]
  show "fst (assembled (take (Suc n) st)) = fst (assembled (take n st)) @ kcp_emit c r"
    using sim n by (simp add: asm asm_step_def kcp_emit_def)
  have next': "(kr_next_sequence r + 1) mod 2 ^ 32 = (s0 + Suc n) mod 2 ^ 32"
    using sim by (simp add: mod_Suc_eq)
  have "\<exists>i. Suc n \<le> i \<and> i < length st \<and> k = (s0 + i) mod 2 ^ 32 \<and>
             sg_fragment s = fst (st ! i) \<and> sg_body s = snd (st ! i)"
    if k: "map_of (kr_pending r) k = Some s" "k \<noteq> kr_next_sequence r" for k s
  proof -
    obtain i where i: "n \<le> i" "i < length st" "k = (s0 + i) mod 2 ^ 32"
      "sg_fragment s = fst (st ! i)" "sg_body s = snd (st ! i)" using sim k(1) by metis
    moreover have "i \<noteq> n" using i(3) k(2) sim by auto
    ultimately show ?thesis by (intro exI [of _ i]) auto
  qed
  then show "kcp_sim s0 st (kcp_consume c r) (Suc n)"
    using n sim next' asm by (auto simp: kcp_sim_def kcp_consume_def asm_step_def chain_left_def)
  show "kcp_held s0 st r n \<subseteq> kcp_held s0 st (kcp_consume c r) (Suc n)"
  proof
    fix j assume j: "j \<in> kcp_held s0 st r n"
    show "j \<in> kcp_held s0 st (kcp_consume c r) (Suc n)"
    proof (cases "(s0 + j) mod 2 ^ 32 = kr_next_sequence r")
      case True
      with j sim assms(3) have "j = n" by (intro seq_inj [of j n s0]) (auto simp: kcp_held_def)
      with j show ?thesis by (simp add: kcp_held_def)
    next
      case False
      with j show ?thesis by (auto simp: kcp_held_def kcp_consume_def)
    qed
  qed
qed

lemma kcp_drain_sim:
  assumes "kcp_sim s0 st r n" "chain_ok st" "length st \<le> 2 ^ 31"
  shows "\<exists>n' new r'. kcp_drain m r = (Inr (m @ new), r') \<and> n \<le> n' \<and> kcp_sim s0 st r' n' \<and>
    fst (assembled (take n' st)) = fst (assembled (take n st)) @ new \<and>
    kcp_held s0 st r n \<subseteq> kcp_held s0 st r' n'"
  using assms(1)
proof (induction m r arbitrary: n rule: kcp_drain_induct)
  case (step m r)
  show ?case
  proof (cases "map_of (kr_pending r) (kr_next_sequence r)")
    case None
    with step.prems show ?thesis
      by (intro exI [of _ n] exI [of _ "[]"] exI [of _ r]) (simp add: kcp_drain_unfold [of m r])
  next
    case (Some c)
    note cs = kcp_sim_consume [OF step.prems assms(2,3) Some]
    from step.IH [OF Some cs(2,3)] obtain n' new r' where
      "kcp_drain (m @ kcp_emit c r) (kcp_consume c r) = (Inr ((m @ kcp_emit c r) @ new), r')" "Suc n \<le> n'"
      "kcp_sim s0 st r' n'"
      "fst (assembled (take n' st)) = fst (assembled (take (Suc n) st)) @ new"
      "kcp_held s0 st (kcp_consume c r) (Suc n) \<subseteq> kcp_held s0 st r' n'" by blast
    with cs Some show ?thesis
      by (intro exI [of _ n'] exI [of _ "kcp_emit c r @ new"] exI [of _ r'])
         (auto simp: kcp_drain_unfold [of m r])
  qed
qed

lemma kcp_distance_sim:
  assumes "kcp_sim s0 st r n" "i < length st" "length st \<le> 2 ^ 31"
  shows "kcp_distance ((s0 + i) mod 2 ^ 32) r = (if n \<le> i then i - n else 2 ^ 32 - (n - i))"
proof -
  have "kcp_distance ((s0 + i) mod 2 ^ 32) r = mask_int 32 (int i - int n)"
    using assms(1) by (simp add: kcp_distance_def kcp_sim_def mask_int_def zmod_int mod_diff_eq)
  also have "\<dots> = (if n \<le> i then i - n else i + 2 ^ 32 - n)"
    using assms by (intro mask_int_diff) (auto simp: kcp_sim_def)
  finally show ?thesis using assms by (auto simp: kcp_sim_def)
qed

lemma kcp_accept_sim:
  assumes "kcp_sim s0 st r n" "chain_ok st" "length st \<le> 2 ^ 31" "kcp_genuine conv s0 st i s" "n \<le> i"
    "\<not> kr_closed r"
  shows "\<exists>x r' n'. kcp_accept t1 t2 s r = (Inr x, r') \<and> n \<le> n' \<and> kcp_sim s0 st r' n' \<and>
    fst (assembled (take n' st)) = fst (assembled (take n st)) @ rr_messages x \<and>
    kcp_held s0 st r n \<subseteq> kcp_held s0 st r' n' \<and> i \<in> kcp_held s0 st r' n'"
proof -
  define r1 where "r1 = (if kr_since r = None then r\<lparr>kr_since := Some t1\<rparr> else r)"
  define r2 where "r2 = r1\<lparr>kr_pending := dict_set (sg_sequence s) s (kr_pending r1),
                kr_buffered_bytes := kr_buffered_bytes r1 + int (length (sg_body s))\<rparr>"
  have p2: "map_of (kr_pending r2) = (map_of (kr_pending r))((s0 + i) mod 2 ^ 32 \<mapsto> s)"
    using assms(4) by (simp add: r2_def r1_def kcp_genuine_def)
  have "kcp_sim s0 st r2 n"
    using assms(1,4,5) p2 by (auto simp: kcp_sim_def kcp_genuine_def r2_def r1_def)
  from kcp_drain_sim [OF this assms(2,3), of "[]"] obtain n' new r3 where
    d: "kcp_drain [] r2 = (Inr new, r3)" "n \<le> n'" "kcp_sim s0 st r3 n'"
    "fst (assembled (take n' st)) = fst (assembled (take n st)) @ new"
    "kcp_held s0 st r2 n \<subseteq> kcp_held s0 st r3 n'" by auto
  define r4 where "r4 = (if kr_pending r3 = [] \<and> kr_parts r3 = [] then r3\<lparr>kr_since := None\<rparr>
                   else if new \<noteq> [] then r3\<lparr>kr_since := Some t2\<rparr> else r3)"
  have eq: "kcp_accept t1 t2 s r = (Inr \<lparr>rr_acknowledge = True, rr_unacknowledged = kr_next_sequence r4, rr_messages = new\<rparr>, r4)"
    unfolding kcp_accept_def Let_def r1_def [symmetric] r2_def [symmetric] d(1) r4_def by simp
  have h: "kcp_held s0 st r4 n' = kcp_held s0 st r3 n'" "kcp_sim s0 st r4 n' = kcp_sim s0 st r3 n'"
    by (simp_all add: r4_def kcp_held_def kcp_sim_def)
  have "kcp_held s0 st r n \<subseteq> kcp_held s0 st r2 n" "i \<in> kcp_held s0 st r2 n"
    using p2 assms(4) by (auto simp: kcp_held_def kcp_genuine_def)
  with d eq h show ?thesis by auto
qed

lemma kcp_receive_sim:
  assumes "kcp_sim s0 st r n" "chain_ok st" "length st \<le> 2 ^ 31"
    "\<forall>x \<in> set st. fst x < kr_max_segments r \<and> length (snd x) \<le> 2017"
    "kcp_genuine (kr_conv r) s0 st i s" "\<not> kr_closed r" "kcp_receive t0 t1 t2 s r = (res, r')"
  shows "(\<exists>x n'. res = Inr x \<and> n \<le> n' \<and> kcp_sim s0 st r' n' \<and>
      fst (assembled (take n' st)) = fst (assembled (take n st)) @ rr_messages x \<and>
      kcp_held s0 st r n \<subseteq> kcp_held s0 st r' n' \<and> (rr_acknowledge x \<longrightarrow> i \<in> kcp_held s0 st r' n')) \<or>
    (\<exists>f. res = Inl (KcpAssemblyTimeout f)) \<or> res = Inl (ReceiveError ''KCP receive budget exceeded'')"
proof -
  have i: "i < length st" "sg_sequence s = (s0 + i) mod 2 ^ 32" "sg_fragment s = fst (st ! i)" "sg_body s = snd (st ! i)"
    using assms(5) by (auto simp: kcp_genuine_def)
  have ok: "kcp_push_ok r s" using assms(4,5) i nth_mem [OF i(1)] by (auto simp: kcp_genuine_def)
  note dist = kcp_distance_sim [OF assms(1) i(1) assms(3)]
  have le: "n \<le> i" if "kcp_distance (sg_sequence s) r < 2 ^ 31"
    using that dist i(1) assms(1,3) by (auto simp: i(2) kcp_sim_def split: if_splits)
  show ?thesis
    using assms(7)
  proof (cases rule: kcp_receive_cases)
    case again
    have "i \<in> kcp_held s0 st r n"
      using again(5) dist i assms(1,3) map_of_None_keys [of "kr_pending r" "sg_sequence s"]
      by (auto simp: kcp_held_def kcp_sim_def split: if_splits)
    with again assms(1) show ?thesis by (intro disjI1 exI [of _ "kcp_answer True r"] exI [of _ n]) auto
  next
    case future
    then have "res = Inr (kcp_answer False r)" "kcp_sim s0 st r' n" "kcp_held s0 st r' n = kcp_held s0 st r n"
      using assms(1) by (auto simp: reject_future_eq kcp_sim_def kcp_held_def)
    then show ?thesis by (intro disjI1 exI [of _ "kcp_answer False r"] exI [of _ n]) auto
  next
    case (conflict p)
    obtain j where j: "n \<le> j" "j < length st" "(s0 + i) mod 2 ^ 32 = (s0 + j) mod 2 ^ 32"
      "sg_fragment p = fst (st ! j)" "sg_body p = snd (st ! j)"
      using assms(1) conflict(6) i(2) unfolding kcp_sim_def by metis
    have "i = j" using j i assms(3) by (intro seq_inj [of i j s0]) auto
    with j i conflict(7) show ?thesis by auto
  next
    case accept
    from kcp_accept_sim [OF assms(1-3,5) le [OF accept(4)] assms(6), of t1 t2] accept(2) show ?thesis by auto
  qed (use ok assms(6) in auto)
qed

type_synonym kcp_arrival = "(time \<times> time \<times> time) \<times> kcp_segment"

text \<open>A session: the owner hands over arriving segments until one raises.\<close>

fun kcp_run :: "kcp_arrival list \<Rightarrow> kcp_receiver \<Rightarrow> receive_result list \<times> exn option \<times> kcp_receiver" where
  "kcp_run [] r = ([], None, r)"
| "kcp_run (((t0, t1, t2), s) # as) r =
     (case kcp_receive t0 t1 t2 s r of
        (Inl e, r') \<Rightarrow> ([], Some e, r')
      | (Inr x, r') \<Rightarrow> (case kcp_run as r' of (xs, e, r'') \<Rightarrow> (x # xs, e, r'')))"

definition kcp_acked :: "nat \<Rightarrow> nat \<Rightarrow> (nat \<times> bytes) list \<Rightarrow> kcp_arrival list \<Rightarrow> receive_result list \<Rightarrow> nat \<Rightarrow> bool" where
  "kcp_acked conv s0 st as xs i \<longleftrightarrow>
     (\<exists>(a, x) \<in> set (zip as xs). rr_acknowledge x \<and> kcp_genuine conv s0 st i (snd a))"

definition kcp_run_ok :: "exn option \<Rightarrow> bool" where
  "kcp_run_ok e \<longleftrightarrow> e = None \<or> (\<exists>f. e = Some (KcpAssemblyTimeout f)) \<or>
     e = Some (ReceiveError ''KCP receive budget exceeded'')"

lemma kcp_genuine_index:
  "length st \<le> 2 ^ 31 \<Longrightarrow> kcp_genuine conv s0 st i s \<Longrightarrow> kcp_genuine conv s0 st j s \<Longrightarrow> i = j"
  by (rule seq_inj [of i j s0]) (auto simp: kcp_genuine_def)

lemma kcp_receive_keeps:
  assumes "kcp_wf r" "kcp_receive t0 t1 t2 s r = (Inr x, r')"
  shows "\<not> kr_closed r" "\<not> kr_closed r'" "kr_max_segments r' = kr_max_segments r" "kr_conv r' = kr_conv r"
proof -
  have "\<not> kr_closed r \<and> \<not> kr_closed r' \<and> kr_max_segments r' = kr_max_segments r \<and> kr_conv r' = kr_conv r"
    using assms(2)
  proof (cases rule: kcp_receive_cases)
    case accept
    have q: "sg_sequence s < 2 ^ 32" using accept(3) by simp
    from kcp_accept_wf(2,3,5) [OF assms(1) accept(1) q accept(5-8) accept(2)] accept(1) show ?thesis by simp
  qed (auto simp: reject_future_eq)
  then show "\<not> kr_closed r" "\<not> kr_closed r'" "kr_max_segments r' = kr_max_segments r" "kr_conv r' = kr_conv r"
    by simp_all
qed

lemma kcp_run_sim:
  assumes "kcp_wf r" "kcp_sim s0 st r n" "chain_ok st" "length st \<le> 2 ^ 31" "\<not> kr_closed r"
    "\<forall>x \<in> set st. fst x < kr_max_segments r \<and> length (snd x) \<le> 2017"
    "\<forall>a \<in> set as. \<exists>i. kcp_genuine (kr_conv r) s0 st i (snd a)" "kcp_run as r = (xs, e, r')"
  shows "kcp_run_ok e \<and> (\<exists>r'' n'. kcp_wf r'' \<and> kcp_sim s0 st r'' n' \<and>
    fst (assembled (take n' st)) = fst (assembled (take n st)) @ concat (map rr_messages xs) \<and>
    kcp_held s0 st r n \<subseteq> kcp_held s0 st r'' n' \<and>
    (\<forall>i. kcp_acked (kr_conv r) s0 st as xs i \<longrightarrow> i \<in> kcp_held s0 st r'' n'))"
  using assms
proof (induction as r arbitrary: n xs e r' rule: kcp_run.induct)
  case (1 r)
  then show ?case by (auto simp: kcp_run_ok_def kcp_acked_def)
next
  case (2 t0 t1 t2 s as r)
  obtain res r1 where rcv: "kcp_receive t0 t1 t2 s r = (res, r1)" by fastforce
  obtain i where i: "kcp_genuine (kr_conv r) s0 st i s" using "2.prems"(7) by auto
  note step = kcp_receive_sim [OF "2.prems"(2-4,6) i "2.prems"(5) rcv]
  show ?case
  proof (cases res)
    case (Inl err)
    with rcv "2.prems"(8) have "xs = []" "e = Some err" by simp_all
    with step Inl have "kcp_run_ok e" by (auto simp: kcp_run_ok_def)
    with "2.prems"(1,2) \<open>xs = []\<close> show ?thesis
      by (intro conjI exI [of _ r] exI [of _ n]) (simp_all add: kcp_acked_def)
  next
    case (Inr x)
    obtain ys where ys: "kcp_run as r1 = (ys, e, r')" "xs = x # ys"
      using "2.prems"(8) rcv Inr by (auto split: prod.splits)
    from step Inr obtain n1 where n1: "kcp_sim s0 st r1 n1"
      "fst (assembled (take n1 st)) = fst (assembled (take n st)) @ rr_messages x"
      "kcp_held s0 st r n \<subseteq> kcp_held s0 st r1 n1" "rr_acknowledge x \<longrightarrow> i \<in> kcp_held s0 st r1 n1" by auto
    note keep = kcp_receive_keeps [OF "2.prems"(1) rcv [unfolded Inr]]
    have bnd: "\<forall>x \<in> set st. fst x < kr_max_segments r1 \<and> length (snd x) \<le> 2017"
      using "2.prems"(6) by (simp only: keep(3))
    have gen: "\<forall>a \<in> set as. \<exists>i. kcp_genuine (kr_conv r1) s0 st i (snd a)"
      using "2.prems"(7) by (simp add: keep(4))
    from "2.IH" [OF rcv [symmetric] Inr kcp_receive_wf [OF "2.prems"(1) rcv] n1(1) "2.prems"(3,4) keep(2) bnd gen ys(1)]
    obtain r'' n' where ok: "kcp_run_ok e" and IH: "kcp_wf r''" "kcp_sim s0 st r'' n'"
      "fst (assembled (take n' st)) = fst (assembled (take n1 st)) @ concat (map rr_messages ys)"
      "kcp_held s0 st r1 n1 \<subseteq> kcp_held s0 st r'' n'"
      "\<forall>i. kcp_acked (kr_conv r1) s0 st as ys i \<longrightarrow> i \<in> kcp_held s0 st r'' n'" by blast
    have ack: "j \<in> kcp_held s0 st r1 n1 \<or> kcp_acked (kr_conv r1) s0 st as ys j"
      if "kcp_acked (kr_conv r) s0 st (((t0, t1, t2), s) # as) xs j" for j
      using that n1(4) kcp_genuine_index [OF "2.prems"(4) i] ys(2) keep(4) by (auto simp: kcp_acked_def)
    show ?thesis
      using IH(1,2,3,4,5) n1(2,3) ys(2) ack by (intro conjI ok exI [of _ r''] exI [of _ n']) (simp, simp, simp, blast, blast)
  qed
qed

lemma kcp_init_bounds:
  assumes "kcp_init conv s0 ms mb to = Inr r"
  shows "nat s0 < 2 ^ 32" "1 \<le> nat ms" "nat ms \<le> 128"
proof -
  have "0 \<le> s0 \<and> s0 \<le> 0xFFFFFFFF \<and> 1 \<le> ms \<and> ms \<le> 128"
    using assms unfolding kcp_init_def by (simp only: split: if_split_asm) simp_all
  then show "nat s0 < 2 ^ 32" "1 \<le> nat ms" "nat ms \<le> 128"
    by (simp_all add: nat_less_iff nat_le_iff le_nat_iff)
qed

lemma kcp_init_fields:
  assumes "kcp_init conv s0 ms mb to = Inr r"
  shows "r = \<lparr>kr_conv = nat conv, kr_next_sequence = nat s0, kr_max_segments = nat ms, kr_max_bytes = nat mb,
        kr_timeout = to, kr_pending = [], kr_parts = [], kr_remaining = None, kr_buffered_bytes = 0,
        kr_since = None, kr_window_rejected = 0, kr_first_rejected = None, kr_last_rejected = 0,
        kr_closed = False\<rparr>"
  using assms unfolding kcp_init_def by (simp only: split: if_split_asm) simp_all

lemma kcp_init_sim:
  assumes "kcp_init conv s0 ms mb to = Inr r"
  shows "kcp_wf r" "kcp_sim (nat s0) st r 0" "\<not> kr_closed r" "kr_conv r = nat conv" "kr_max_segments r = nat ms"
proof -
  note r = kcp_init_fields [OF assms] and b = kcp_init_bounds [OF assms]
  have c: "kr_next_sequence r = nat s0" "kr_max_segments r = nat ms" "kr_conv r = nat conv" "\<not> kr_closed r"
    "kr_pending r = []" "kr_parts r = []" "kr_remaining r = None" "kr_buffered_bytes r = 0" "kr_since r = None"
    by (simp_all only: r kcp_receiver.simps not_False_eq_True)
  then show "\<not> kr_closed r" "kr_conv r = nat conv" "kr_max_segments r = nat ms" by simp_all
  show "kcp_wf r" unfolding kcp_wf_def kcp_core_def c using b by simp
  have "nat s0 mod 2 ^ 32 = nat s0" using b(1) by (rule mod_less)
  then show "kcp_sim (nat s0) st r 0"
    unfolding kcp_sim_def c by (simp only: add_0_right) (simp add: assembled_def chain_left_def)
qed

lemma assembled_mono:
  assumes "n \<le> m"
  shows "prefix (fst (assembled (take n st))) (fst (assembled (take m st)))"
proof -
  obtain k where k: "m = n + k" using assms le_Suc_ex by blast
  obtain o' p where op: "assembled (take n st) = (o', p)" by fastforce
  have "assembled (take m st) = foldl asm_step (o', p) (take k (drop n st))"
    by (simp add: k take_add assembled_def op [unfolded assembled_def])
  then show ?thesis by (simp add: op fst_foldl_asm [of o'])
qed

lemma set_kcp_fragments: "x \<in> set (kcp_fragments m) \<Longrightarrow> fst x < length m \<and> snd x \<in> set m"
  by (cases x) (auto simp: kcp_fragments_def dest: set_zip_leftD set_zip_rightD)

lemma kcp_stream_bounds:
  assumes "\<forall>m \<in> set msgs. length m \<le> k \<and> (\<forall>b \<in> set m. length b \<le> 2017)" "x \<in> set (kcp_stream msgs)"
  shows "fst x < k \<and> length (snd x) \<le> 2017"
proof -
  obtain m where m: "m \<in> set msgs" "x \<in> set (kcp_fragments m)" using assms(2) by (auto simp: kcp_stream_def)
  with assms(1) set_kcp_fragments [OF m(2)] show ?thesis by fastforce
qed

lemma take_kcp_stream: "kcp_stream (take k msgs) = take (length (kcp_stream (take k msgs))) (kcp_stream msgs)"
proof -
  have "kcp_stream msgs = kcp_stream (take k msgs) @ kcp_stream (drop k msgs)"
    unfolding kcp_stream_def by (metis append_take_drop_id concat_append map_append)
  then show ?thesis by (metis append_eq_conv_conj)
qed

text \<open>
  C1. Reassembly. A sender cuts messages into fragments that fit the receiver's
  budget and numbers at most \<open>2 ^ 31\<close> of them from the negotiated start, wrapping at
  \<open>2 ^ 32\<close>; the network delivers any sequence of them, reordered, duplicated or with
  losses. Then the messages the receiver hands out are, in order and without
  repetition, the first messages that were sent; the session ends only by the assembly
  deadline or the receive budget; and every message up to one whose fragments were
  all acknowledged has been handed out, so nothing acknowledged is lost.
\<close>
theorem kcp_reassembly_refines:
  assumes "kcp_init conv s0 max_segments max_bytes timeout = Inr r"
    "\<forall>m \<in> set msgs. m \<noteq> [] \<and> length m \<le> nat max_segments \<and> (\<forall>b \<in> set m. length b \<le> 2017)"
    "length (kcp_stream msgs) \<le> 2 ^ 31"
    "\<forall>a \<in> set arrivals. \<exists>i. kcp_genuine (nat conv) (nat s0) (kcp_stream msgs) i (snd a)"
    "kcp_run arrivals r = (results, err, r')"
  shows "prefix (concat (map rr_messages results)) (map concat msgs) \<and>
    (err = None \<or> (\<exists>f. err = Some (KcpAssemblyTimeout f)) \<or>
     err = Some (ReceiveError ''KCP receive budget exceeded'')) \<and>
    (\<forall>k. (\<forall>i < length (kcp_stream (take k msgs)).
             kcp_acked (nat conv) (nat s0) (kcp_stream msgs) arrivals results i) \<longrightarrow>
         prefix (map concat (take k msgs)) (concat (map rr_messages results)))"
proof -
  let ?st = "kcp_stream msgs"
  note i = kcp_init_sim [OF assms(1)]
  have b: "\<forall>x \<in> set ?st. fst x < kr_max_segments r \<and> length (snd x) \<le> 2017"
    using kcp_stream_bounds [of msgs "nat max_segments"] assms(2) i(5) by auto
  obtain r'' n where ok: "kcp_run_ok err" and w: "kcp_wf r''" "kcp_sim (nat s0) ?st r'' n"
    and out: "fst (assembled (take n ?st)) = concat (map rr_messages results)"
    and ack: "\<And>i. kcp_acked (nat conv) (nat s0) ?st arrivals results i \<Longrightarrow> i \<in> kcp_held (nat s0) ?st r'' n"
    using kcp_run_sim [OF i(1) i(2) chain_ok_stream assms(3) i(3) b _ assms(5)] assms(4) i(4)
    by (auto simp: assembled_def)
  have all: "assembled ?st = (map concat msgs, [])" using assms(2) by (intro assembled_stream) auto
  have "prefix (concat (map rr_messages results)) (map concat msgs)"
    using assembled_mono [of n "max n (length ?st)" ?st] out all by simp
  moreover have "prefix (map concat (take k msgs)) (concat (map rr_messages results))"
    if k: "\<forall>i < length (kcp_stream (take k msgs)). kcp_acked (nat conv) (nat s0) ?st arrivals results i" for k
  proof -
    let ?l = "length (kcp_stream (take k msgs))"
    have "?l \<le> n"
    proof (rule ccontr)
      assume "\<not> ?l \<le> n"
      with k ack have "n \<in> kcp_held (nat s0) ?st r'' n" by auto
      then have "map_of (kr_pending r'') (kr_next_sequence r'') \<noteq> None"
        using w(2) by (auto simp: kcp_held_def kcp_sim_def)
      with w(1) show False by (simp add: kcp_wf_def map_of_None_keys)
    qed
    moreover have "assembled (kcp_stream (take k msgs)) = (map concat (take k msgs), [])"
      using assms(2) by (intro assembled_stream) (auto dest: in_set_takeD)
    ultimately show ?thesis
      using assembled_mono [of ?l n ?st] take_kcp_stream [of k msgs] out by simp
  qed
  ultimately show ?thesis using ok by (simp add: kcp_run_ok_def)
qed

definition demo_messages :: "bytes list list" where
  "demo_messages = [[[1], [2]], [[3]]]"

definition demo_push :: "nat \<Rightarrow> nat \<Rightarrow> bytes \<Rightarrow> kcp_arrival" where
  "demo_push q f b = ((0, 0, 0), \<lparr>sg_conv = 7, sg_command = KCP_PUSH, sg_fragment = f, sg_window = 256,
     sg_timestamp = 0, sg_sequence = q, sg_unacknowledged = 0, sg_body = b\<rparr>)"

text \<open>The second fragment first, the first one twice, then the second message, across the wrap.\<close>

definition demo_arrivals :: "kcp_arrival list" where
  "demo_arrivals = [demo_push 0 0 [2], demo_push 0xFFFFFFFF 1 [1], demo_push 0xFFFFFFFF 1 [1], demo_push 1 0 [3]]"

definition demo_receiver :: kcp_receiver where
  "demo_receiver = \<lparr>kr_conv = 7, kr_next_sequence = 0xFFFFFFFF, kr_max_segments = 128, kr_max_bytes = 262144,
        kr_timeout = 2, kr_pending = [], kr_parts = [], kr_remaining = None, kr_buffered_bytes = 0,
        kr_since = None, kr_window_rejected = 0, kr_first_rejected = None, kr_last_rejected = 0,
        kr_closed = False\<rparr>"

lemma demo_stream: "kcp_stream demo_messages = [(1, [1]), (0, [2]), (0, [3])]"
  by (simp add: kcp_stream_def demo_messages_def kcp_fragments_def)

theorem kcp_reassembly_refines_witness:
  "\<exists>results err r'. kcp_init 7 0xFFFFFFFF 128 262144 2 = Inr demo_receiver \<and>
     kcp_run demo_arrivals demo_receiver = (results, err, r') \<and>
     prefix (concat (map rr_messages results)) (map concat demo_messages)"
proof -
  obtain results err r' where run: "kcp_run demo_arrivals demo_receiver = (results, err, r')"
    using prod_cases3 by blast
  have init: "kcp_init 7 0xFFFFFFFF 128 262144 2 = Inr demo_receiver"
    by (simp add: kcp_init_def demo_receiver_def)
  have msgs: "\<forall>m \<in> set demo_messages. m \<noteq> [] \<and> length m \<le> nat 128 \<and> (\<forall>b \<in> set m. length b \<le> 2017)"
    by (simp add: demo_messages_def)
  have len: "length (kcp_stream demo_messages) \<le> 2 ^ 31" by (simp add: demo_stream)
  have "kcp_genuine (nat 7) (nat 0xFFFFFFFF) (kcp_stream demo_messages) 0 (snd (demo_push 0xFFFFFFFF 1 [1]))"
    "kcp_genuine (nat 7) (nat 0xFFFFFFFF) (kcp_stream demo_messages) 1 (snd (demo_push 0 0 [2]))"
    "kcp_genuine (nat 7) (nat 0xFFFFFFFF) (kcp_stream demo_messages) 2 (snd (demo_push 1 0 [3]))"
    by (simp_all add: kcp_genuine_def demo_stream demo_push_def)
  then have gen: "\<forall>a \<in> set demo_arrivals. \<exists>i. kcp_genuine (nat 7) (nat 0xFFFFFFFF) (kcp_stream demo_messages) i (snd a)"
    by (auto simp: demo_arrivals_def)
  show ?thesis using kcp_reassembly_refines [OF init msgs len gen run] init run by blast
qed

section \<open>Every reachable receiver is inside its budgets\<close>

inductive kcp_reach :: "kcp_receiver \<Rightarrow> kcp_receiver \<Rightarrow> bool" where
  start: "kcp_reach r r"
| receive: "kcp_reach r0 r \<Longrightarrow> kcp_reach r0 (snd (kcp_receive t0 t1 t2 s r))"
| expire: "kcp_reach r0 r \<Longrightarrow> kcp_reach r0 (snd (kcp_expire t r))"
| close: "kcp_reach r0 r \<Longrightarrow> kcp_reach r0 (kcp_close r)"

lemma kcp_close_params [simp]:
  "kr_max_segments (kcp_close r) = kr_max_segments r" "kr_max_bytes (kcp_close r) = kr_max_bytes r"
  "kr_conv (kcp_close r) = kr_conv r"
  by (simp_all add: kcp_close_def)

lemma kcp_expire_snd: "snd (kcp_expire t r) = r \<or> snd (kcp_expire t r) = kcp_close r"
  by (auto simp: kcp_expire_def Let_def split: option.split)

lemma kcp_receive_params:
  assumes "kcp_wf r" "kcp_receive t0 t1 t2 s r = (res, r')"
  shows "kr_max_segments r' = kr_max_segments r \<and> kr_max_bytes r' = kr_max_bytes r \<and> kr_conv r' = kr_conv r"
  using assms(2)
proof (cases rule: kcp_receive_cases)
  case accept
  have q: "sg_sequence s < 2 ^ 32" using accept(3) by simp
  from kcp_accept_wf(3-5) [OF assms(1) accept(1) q accept(5-8) accept(2)] show ?thesis by simp
qed (auto simp: reject_future_eq)

lemma kcp_wf_close': "kcp_wf r \<Longrightarrow> kcp_wf (kcp_close r)"
  by (rule kcp_wf_close) (simp_all add: kcp_wf_def kcp_core_def)

lemma kcp_reach_wf:
  assumes "kcp_reach r0 r" "kcp_wf r0"
  shows "kcp_wf r \<and> kr_max_segments r = kr_max_segments r0 \<and> kr_max_bytes r = kr_max_bytes r0"
  using assms
proof (induction rule: kcp_reach.induct)
  case (receive r0 r t0 t1 t2 s)
  obtain res r' where "kcp_receive t0 t1 t2 s r = (res, r')" by fastforce
  with receive kcp_receive_wf kcp_receive_params show ?case by fastforce
next
  case (expire r0 r t)
  with kcp_expire_snd [of t r] kcp_wf_close' [of r] show ?case by auto
next
  case (close r0 r)
  with kcp_wf_close' [of r] show ?case by simp
qed simp

text \<open>
  C12. Whatever segments arrive, whenever the owner polls the deadline or closes, a
  receiver holds at most its segment budget (of at most 128) and its byte budget; its
  byte counter is exactly the bytes it retains; it never holds the segment it is
  waiting for; the window it advertises is between zero and the segment budget; the
  deadline runs exactly while something is retained; and a closed receiver retains
  nothing.
\<close>
theorem kcp_receiver_bounded:
  assumes "kcp_init conv s0 max_segments max_bytes timeout = Inr r0" "kcp_reach r0 r"
  shows "length (kr_pending r) + length (kr_parts r) \<le> nat max_segments \<and> nat max_segments \<le> 128 \<and>
    kr_buffered_bytes r = pending_bytes r + int (length (concat (kr_parts r))) \<and>
    kr_buffered_bytes r \<le> max_bytes \<and> kr_next_sequence r \<notin> fst ` set (kr_pending r) \<and>
    0 \<le> available_window r \<and> available_window r \<le> max_segments \<and>
    (kr_since r = None \<longleftrightarrow> kr_pending r = [] \<and> kr_parts r = []) \<and>
    (kr_closed r \<longrightarrow> kr_pending r = [] \<and> kr_parts r = [] \<and> kr_buffered_bytes r = 0)"
proof -
  have mb: "1 \<le> max_bytes \<and> 1 \<le> max_segments"
    using assms(1) unfolding kcp_init_def by (simp only: split: if_split_asm) simp_all
  have "kr_max_bytes r0 = nat max_bytes" by (simp only: kcp_init_fields [OF assms(1)] kcp_receiver.simps)
  then have "kcp_wf r" "kr_max_segments r = nat max_segments" "kr_max_bytes r = nat max_bytes"
    using kcp_reach_wf [OF assms(2) kcp_init_sim(1) [OF assms(1)]] kcp_init_sim(5) [OF assms(1)] by simp_all
  with mb kcp_init_bounds(3) [OF assms(1)] show ?thesis
    by (auto simp: kcp_wf_def kcp_core_def available_window_def)
qed

theorem kcp_receiver_bounded_witness:
  "kcp_init 7 0xFFFFFFFF 128 262144 2 = Inr demo_receiver \<and>
   (let r = snd (kcp_receive 0 0 0 (snd (demo_push 0 0 [2])) demo_receiver)
    in kr_buffered_bytes r \<le> 262144 \<and> 0 \<le> available_window r \<and> available_window r \<le> 128)"
proof -
  have init: "kcp_init 7 0xFFFFFFFF 128 262144 2 = Inr demo_receiver"
    by (simp add: kcp_init_def demo_receiver_def)
  have "kcp_reach demo_receiver (snd (kcp_receive 0 0 0 (snd (demo_push 0 0 [2])) demo_receiver))"
    by (intro kcp_reach.intros)
  from kcp_receiver_bounded [OF init this] init show ?thesis by (simp add: Let_def)
qed

section \<open>The pinned-peer adapter\<close>

type_synonym peer = "string \<times> int"

record media_receiver =
  mr_peer :: peer
  mr_receiver :: kcp_receiver

record media_receive_batch =
  mb_acknowledgements :: "bytes list"
  mb_messages :: "bytes list"

text \<open>The clock readings of one segment's \<^verbatim>\<open>receive\<close> call, in the order of the segments.\<close>

fun media_segments ::
  "((time \<times> time \<times> time) \<times> kcp_segment) list \<Rightarrow> bytes list \<Rightarrow> bytes list \<Rightarrow> kcp_receiver \<Rightarrow>
   (exn + media_receive_batch) \<times> kcp_receiver"
where
  "media_segments [] acks messages r =
     (Inr \<lparr>mb_acknowledgements = acks, mb_messages = messages\<rparr>, r)"
| "media_segments (((t0, t1, t2), segment) # rest) acks messages r =
     (if sg_conv segment = kr_conv r \<and> sg_command segment = KCP_WASK \<and> sg_fragment segment = 0 \<and>
         sg_body segment = [] then
        (case build_window_report (int (sg_conv segment)) (int (kr_next_sequence r)) (available_window r) of
           Inl e \<Rightarrow> (Inl e, r)
         | Inr report \<Rightarrow> media_segments rest (acks @ [report]) messages r)
      else case kcp_receive t0 t1 t2 segment r of
        (Inl e, r) \<Rightarrow> (Inl e, r)
      | (Inr result, r) \<Rightarrow>
          if rr_acknowledge result then
            (case build_kcp_ack (int (sg_conv segment)) (int (sg_sequence segment)) (int (sg_timestamp segment))
                    (int (rr_unacknowledged result)) (available_window r) of
               Inl e \<Rightarrow> (Inl e, r)
             | Inr ack \<Rightarrow> media_segments rest (acks @ [ack]) (messages @ rr_messages result) r)
          else media_segments rest acks (messages @ rr_messages result) r)"

definition media_receive ::
  "time \<Rightarrow> (nat \<Rightarrow> time \<times> time \<times> time) \<Rightarrow> bytes \<Rightarrow> peer \<Rightarrow> media_receiver \<Rightarrow>
   (exn + media_receive_batch) \<times> media_receiver"
where
  "media_receive now clock wire peer m =
     (case kcp_expire now (mr_receiver m) of
        (Inl e, r) \<Rightarrow> (Inl e, m\<lparr>mr_receiver := r\<rparr>)
      | (Inr _, r) \<Rightarrow>
        let m = m\<lparr>mr_receiver := r\<rparr>;
            nothing = (Inr \<lparr>mb_acknowledgements = [], mb_messages = []\<rparr>, m)
        in if peer \<noteq> mr_peer m \<or> length wire > MTP_MAX_FRAME_SIZE then nothing
        else case parse_kcp_segments wire of
          Inl e \<Rightarrow> nothing
        | Inr segments \<Rightarrow>
            (case media_segments (zip (map clock [0..<length segments]) segments) [] [] r of
               (res, r) \<Rightarrow> (res, m\<lparr>mr_receiver := r\<rparr>)))"

definition kcp_reply_to :: "kcp_receiver \<Rightarrow> kcp_segment list \<Rightarrow> bytes \<Rightarrow> bool" where
  "kcp_reply_to r segs a \<longleftrightarrow> (\<exists>s. parse_kcp_segments a = Inr [s] \<and> sg_conv s = kr_conv r \<and> sg_body s = [] \<and>
     sg_window s \<le> 128 \<and>
     (sg_command s = KCP_WINS \<or>
      sg_command s = KCP_ACK \<and> (\<exists>p \<in> set segs. sg_command p = KCP_PUSH \<and> sg_sequence p = sg_sequence s)))"

definition is_receive_error :: "exn \<Rightarrow> bool" where
  "is_receive_error e \<longleftrightarrow> (\<exists>m. e = ReceiveError m) \<or> (\<exists>f. e = KcpAssemblyTimeout f)"

lemma kcp_wf_window: "kcp_wf r \<Longrightarrow> 0 \<le> available_window r \<and> available_window r \<le> 128"
  by (auto simp: kcp_wf_def kcp_core_def available_window_def)

lemma build_kcp_ack_total:
  "0 \<le> w \<Longrightarrow> w \<le> 128 \<Longrightarrow> \<exists>f. build_kcp_ack c q ts u w = Inr f"
  by (simp add: build_kcp_ack_def build_mtp_frame_Inr_iff)

lemma build_window_report_total:
  "0 \<le> c \<Longrightarrow> c < 2 ^ 32 \<Longrightarrow> 0 \<le> u \<Longrightarrow> u < 2 ^ 32 \<Longrightarrow> 0 \<le> w \<Longrightarrow> w \<le> 128 \<Longrightarrow>
   \<exists>f. build_window_report c u w = Inr f"
  by (simp add: build_window_report_def build_mtp_frame_Inr_iff)

lemma kcp_report_replies:
  assumes "build_window_report (int (kr_conv r)) u w = Inr f" "w \<le> 128"
  shows "kcp_reply_to r segs f"
  using build_window_report_parses [OF assms(1)] assms(2) by (simp add: kcp_reply_to_def nat_le_iff)

lemma kcp_ack_replies:
  assumes "build_kcp_ack (int (kr_conv r)) (int (sg_sequence s)) ts u w = Inr f" "w \<le> 128"
    "kr_conv r < 2 ^ 32" "sg_sequence s < 2 ^ 32" "s \<in> set segs" "sg_command s = KCP_PUSH"
  shows "kcp_reply_to r segs f"
proof -
  have "mask_int 32 (int (sg_sequence s)) = sg_sequence s" "mask_int 32 (int (kr_conv r)) = kr_conv r"
    using assms(3,4) by (simp_all add: mask_int_id)
  with build_kcp_ack_parses [OF assms(1)] assms(2,5,6) show ?thesis
    by (auto simp: kcp_reply_to_def nat_le_iff)
qed

lemma kcp_receive_error:
  assumes "kcp_receive t0 t1 t2 s r = (Inl e, r')"
  shows "is_receive_error e"
  using assms
proof (cases rule: kcp_receive_cases)
  case (expired e')
  then show ?thesis using assms
    by (auto simp: is_receive_error_def kcp_receive_def kcp_expire_def Let_def split: if_splits option.splits)
next
  case accept
  have "kcp_drain m q = (Inl e, q') \<Longrightarrow> is_receive_error e" for m q q'
  proof (induction m q rule: kcp_drain_induct)
    case (step m q)
    then show ?case
      by (auto simp: kcp_drain_unfold [of m q] kcp_fail_def is_receive_error_def split: option.splits if_splits)
  qed
  with accept(2) show ?thesis by (fastforce simp: kcp_accept_def Let_def split: prod.splits sum.splits if_splits)
qed (auto simp: is_receive_error_def reject_future_eq)

lemma kcp_receive_acked:
  assumes "kcp_receive t0 t1 t2 s r = (Inr x, r')" "rr_acknowledge x"
  shows "sg_conv s = kr_conv r \<and> sg_command s = KCP_PUSH \<and> sg_sequence s < 2 ^ 32"
  using assms by (cases rule: kcp_receive_cases) (auto simp: reject_future_eq)

lemma kcp_reply_mono: "kcp_reply_to r segs a \<Longrightarrow> set segs \<subseteq> set segs' \<Longrightarrow> kr_conv r' = kr_conv r \<Longrightarrow> kcp_reply_to r' segs' a"
  by (fastforce simp: kcp_reply_to_def)

lemma media_segments_replies:
  assumes "media_segments ss acks msgs r = (res, r')" "kcp_wf r" "kr_conv r < 2 ^ 32"
    "\<forall>a \<in> set acks. kcp_reply_to r segs a" "set (map snd ss) \<subseteq> set segs"
  shows "kcp_wf r' \<and> kr_conv r' = kr_conv r \<and> (\<forall>e. res = Inl e \<longrightarrow> is_receive_error e) \<and>
    (\<forall>b. res = Inr b \<longrightarrow> (\<forall>a \<in> set (mb_acknowledgements b). kcp_reply_to r segs a))"
  using assms
proof (induction ss acks msgs r rule: media_segments.induct)
  case (1 acks messages r)
  then show ?case by auto
next
  case (2 t0 t1 t2 s rest acks messages r)
  note win = kcp_wf_window [OF "2.prems"(2)]
  have next_lt: "kr_next_sequence r < 2 ^ 32" using "2.prems"(2) by (simp add: kcp_wf_def kcp_core_def)
  let ?probe = "sg_conv s = kr_conv r \<and> sg_command s = KCP_WASK \<and> sg_fragment s = 0 \<and> sg_body s = []"
  have rest: "set (map snd rest) \<subseteq> set segs" and mem: "s \<in> set segs" using "2.prems"(5) by auto
  show ?case
  proof (cases ?probe)
    case True
    obtain f where f: "build_window_report (int (sg_conv s)) (int (kr_next_sequence r)) (available_window r) = Inr f"
      using build_window_report_total [of "int (kr_conv r)" "int (kr_next_sequence r)" "available_window r"]
        win next_lt "2.prems"(3) True by auto
    with True win have "kcp_reply_to r segs f" by (intro kcp_report_replies) auto
    then have acks: "\<forall>a \<in> set (acks @ [f]). kcp_reply_to r segs a" using "2.prems"(4) by simp
    have ms: "media_segments rest (acks @ [f]) messages r = (res, r')" using "2.prems"(1) True f by simp
    show ?thesis by (rule "2.IH"(1) [OF True f ms "2.prems"(2,3) acks rest])
  next
    case False
    obtain x r1 where rcv: "kcp_receive t0 t1 t2 s r = (x, r1)" by fastforce
    show ?thesis
    proof (cases x)
      case (Inl e)
      then have "res = Inl e" "r' = r1" using "2.prems"(1) False rcv by simp_all
      moreover have "is_receive_error e" using rcv Inl by (auto intro: kcp_receive_error)
      ultimately show ?thesis
        using kcp_receive_wf [OF "2.prems"(2) rcv] kcp_receive_params [OF "2.prems"(2) rcv] by simp
    next
      case (Inr y)
      note w1 = kcp_receive_wf [OF "2.prems"(2) rcv]
      note c1 = kcp_receive_params [OF "2.prems"(2) rcv, THEN conjunct2, THEN conjunct2]
      have conv1: "kr_conv r1 < 2 ^ 32" using c1 "2.prems"(3) by simp
      have acks: "\<forall>a \<in> set acks. kcp_reply_to r1 segs a" using "2.prems"(4) c1 kcp_reply_mono by blast
      have eq: "kcp_reply_to r1 segs a = kcp_reply_to r segs a" for a by (simp add: kcp_reply_to_def c1)
      show ?thesis
      proof (cases "rr_acknowledge y")
        case True
        obtain f where f: "build_kcp_ack (int (sg_conv s)) (int (sg_sequence s)) (int (sg_timestamp s))
            (int (rr_unacknowledged y)) (available_window r1) = Inr f"
          using build_kcp_ack_total kcp_wf_window [OF w1] by blast
        note a = kcp_receive_acked [OF rcv [unfolded Inr] True]
        have "kcp_reply_to r1 segs f"
          using f a c1 kcp_wf_window [OF w1] "2.prems"(3) mem
          by (intro kcp_ack_replies [of r1 s "int (sg_timestamp s)" "int (rr_unacknowledged y)" "available_window r1"]) auto
        with acks have acks': "\<forall>a \<in> set (acks @ [f]). kcp_reply_to r1 segs a" by simp
        have ms: "media_segments rest (acks @ [f]) (messages @ rr_messages y) r1 = (res, r')"
          using "2.prems"(1) False rcv Inr True f by simp
        from "2.IH"(2) [OF False rcv [symmetric] Inr True f ms w1 conv1 acks' rest] c1 show ?thesis
          by (simp add: eq)
      next
        case nack: False
        have ms: "media_segments rest acks (messages @ rr_messages y) r1 = (res, r')"
          using "2.prems"(1) False rcv Inr nack by simp
        from "2.IH"(3) [OF False rcv [symmetric] Inr nack ms w1 conv1 acks rest] c1 show ?thesis
          by (simp add: eq)
      qed
    qed
  qed
qed

lemma media_receive_foreign:
  assumes "kcp_expire now (mr_receiver m) = (Inr (), mr_receiver m)" "peer \<noteq> mr_peer m"
  shows "media_receive now clock wire peer m = (Inr \<lparr>mb_acknowledgements = [], mb_messages = []\<rparr>, m)"
  using assms by (simp add: media_receive_def Let_def)

lemma map_snd_zip_clock: "set (map snd (zip (map c [0..<length ss]) ss)) = set ss"
  by simp

text \<open>
  What the adapter answers. With a receiver in a reachable state, one datagram
  leaves the receiver well-formed; the only exceptions are the receiver's own terminal
  errors, never a builder's; a datagram from an unpinned peer is answered by nothing;
  and every acknowledgement produced is a well-formed frame with one segment of the
  receiver's conversation that is a window report or the \<open>ACK\<close> of a \<open>PUSH\<close> contained
  in this datagram.
\<close>
theorem media_receive_replies:
  assumes "kcp_wf (mr_receiver m)" "kr_conv (mr_receiver m) < 2 ^ 32"
    "media_receive now clock wire peer m = (res, m')"
  shows "kcp_wf (mr_receiver m') \<and> mr_peer m' = mr_peer m \<and>
    (\<forall>e. res = Inl e \<longrightarrow> is_receive_error e) \<and>
    (\<forall>b. res = Inr b \<longrightarrow>
       (peer \<noteq> mr_peer m \<longrightarrow> mb_acknowledgements b = [] \<and> mb_messages b = []) \<and>
       (\<forall>a \<in> set (mb_acknowledgements b). \<exists>segs. parse_kcp_segments wire = Inr segs \<and>
          kcp_reply_to (mr_receiver m) segs a))"
proof (cases "fst (kcp_expire now (mr_receiver m))")
  case (Inl e)
  then obtain r1 where ex: "kcp_expire now (mr_receiver m) = (Inl e, r1)" by (metis prod.collapse)
  then have "is_receive_error e"
    by (auto simp: kcp_expire_def is_receive_error_def Let_def split: if_splits option.splits)
  moreover have "kcp_wf r1"
    using kcp_expire_snd [of now "mr_receiver m"] assms(1) kcp_wf_close' ex by auto
  ultimately show ?thesis using assms(3) ex by (auto simp: media_receive_def)
next
  case (Inr u)
  then have ex: "kcp_expire now (mr_receiver m) = (Inr u, mr_receiver m)"
    by (auto simp: kcp_expire_def Let_def split: if_splits option.splits)
  show ?thesis
  proof (cases "peer \<noteq> mr_peer m \<or> length wire > MTP_MAX_FRAME_SIZE \<or> (\<exists>e. parse_kcp_segments wire = Inl e)")
    case True
    then have "res = Inr \<lparr>mb_acknowledgements = [], mb_messages = []\<rparr>" "mr_receiver m' = mr_receiver m" "mr_peer m' = mr_peer m"
      using assms(3) ex by (auto simp: media_receive_def Let_def split: if_splits)
    with assms(1) show ?thesis by simp
  next
    case False
    then obtain segs where segs: "parse_kcp_segments wire = Inr segs" by (cases "parse_kcp_segments wire") auto
    obtain r' where ms: "media_segments (zip (map clock [0..<length segs]) segs) [] [] (mr_receiver m) = (res, r')"
      "m' = m\<lparr>mr_receiver := r'\<rparr>"
      using assms(3) ex False segs by (auto simp: media_receive_def Let_def split: prod.splits)
    have "set (map snd (zip (map clock [0..<length segs]) segs)) \<subseteq> set segs" by (simp only: map_snd_zip_clock)
    from media_segments_replies [OF ms(1) assms(1,2) _ this] ms(2) segs False show ?thesis by auto
  qed
qed

theorem media_receive_replies_witness:
  "kcp_wf demo_receiver \<and> kr_conv demo_receiver < 2 ^ 32 \<and>
   kcp_wf (mr_receiver (snd (media_receive 0 (\<lambda>_. (0, 0, 0)) [1, 2, 3] (''h'', 1)
     \<lparr>mr_peer = (''h'', 1), mr_receiver = demo_receiver\<rparr>)))"
proof -
  let ?m = "\<lparr>mr_peer = (''h'', 1), mr_receiver = demo_receiver\<rparr>"
  have wf: "kcp_wf (mr_receiver ?m)" "kr_conv (mr_receiver ?m) < 2 ^ 32"
    by (simp_all add: demo_receiver_def kcp_wf_def kcp_core_def)
  obtain res m' where "media_receive 0 (\<lambda>_. (0, 0, 0)) [1, 2, 3] (''h'', 1) ?m = (res, m')" by fastforce
  with media_receive_replies [OF wf this] wf show ?thesis by simp
qed

end
