(* ===== verification/Framing.thy ===== *)
theory Framing
  imports MediaProtocol "HOL-Library.Sublist"
begin

text \<open>
  Incremental record framing over a byte stream. The interface \<open>stream_framer\<close> says what
  a framer promises: one step function that recognises the next record of a buffer, and
  a \<open>feed\<close> that applies it as often as it can. Its lemmas show that what a framer
  delivers does not depend on how the network cuts the stream into reads. It is
  interpreted for the MTP TCP framer (\<^verbatim>\<open>mtp_tcp_framing.py\<close>), the push framer
  (\<^verbatim>\<open>push_framing.py\<close>) and, in its own theory, the V1 record receiver.
\<close>

section \<open>The interface\<close>

datatype 'r frame_step = Need | Bad exn | Rec nat 'r

text \<open>The reference: cut records off the front of the whole stream while there is one.\<close>

function scan_frames :: "(bytes \<Rightarrow> 'r frame_step) \<Rightarrow> bytes \<Rightarrow> 'r list \<times> bytes" where
  "scan_frames step xs =
     (case step xs of
        Rec n r \<Rightarrow> if 0 < n \<and> n \<le> length xs
          then (case scan_frames step (drop n xs) of (rs, rest) \<Rightarrow> (r # rs, rest)) else ([], xs)
      | _ \<Rightarrow> ([], xs))"
  by pat_completeness auto
termination by (relation "measure (\<lambda>(step, xs). length xs)") auto

declare scan_frames.simps [simp del]

fun feed_all :: "(bytes \<Rightarrow> 's \<Rightarrow> (exn + 'r list) \<times> 's) \<Rightarrow> bytes list \<Rightarrow> 's \<Rightarrow> (exn + 'r list) \<times> 's" where
  "feed_all feed [] s = (Inr [], s)"
| "feed_all feed (d # ds) s =
     (case feed d s of
        (Inl e, s') \<Rightarrow> (Inl e, s')
      | (Inr rs, s') \<Rightarrow>
          (case feed_all feed ds s' of (Inl e, s'') \<Rightarrow> (Inl e, s'') | (Inr rs', s'') \<Rightarrow> (Inr (rs @ rs'), s'')))"

locale record_format =
  fixes step :: "bytes \<Rightarrow> 'r frame_step"
  assumes step_Nil: "step [] = Need"
    and rec_bound: "step xs = Rec n r \<Longrightarrow> 0 < n \<and> n \<le> length xs"
    and rec_stable: "step xs = Rec n r \<Longrightarrow> step (xs @ ys) = Rec n r"
    and bad_stable: "step xs = Bad e \<Longrightarrow> step (xs @ ys) = Bad e"
begin

lemma scan_Rec: "step xs = Rec n r \<Longrightarrow>
    scan_frames step xs = (r # fst (scan_frames step (drop n xs)), snd (scan_frames step (drop n xs)))"
  using rec_bound [of xs n r] by (simp add: scan_frames.simps [of step xs] split: prod.split)

lemma scan_stop: "(\<And>n r. step xs \<noteq> Rec n r) \<Longrightarrow> scan_frames step xs = ([], xs)"
  by (cases "step xs") (auto simp: scan_frames.simps [of step xs])

lemma scan_append:
  "scan_frames step (xs @ ys) =
     (fst (scan_frames step xs) @ fst (scan_frames step (snd (scan_frames step xs) @ ys)),
      snd (scan_frames step (snd (scan_frames step xs) @ ys)))"
proof (induction "length xs" arbitrary: xs rule: less_induct)
  case less
  show ?case
  proof (cases "\<exists>n r. step xs = Rec n r")
    case True
    then obtain n r where n: "step xs = Rec n r" by blast
    note b = rec_bound [OF n]
    have "length (drop n xs) < length xs" using b by auto
    note IH = less [OF this]
    have "drop n (xs @ ys) = drop n xs @ ys" using b by simp
    then show ?thesis using IH scan_Rec [OF n] scan_Rec [OF rec_stable [OF n, of ys]] by simp
  next
    case False
    then show ?thesis using scan_stop [of xs] by auto
  qed
qed

lemma scan_rest_stops: "step (snd (scan_frames step xs)) \<noteq> Rec n r"
proof (induction "length xs" arbitrary: xs rule: less_induct)
  case less
  show ?case
  proof (cases "\<exists>n r. step xs = Rec n r")
    case True
    then obtain m r' where n: "step xs = Rec m r'" by blast
    have "length (drop m xs) < length xs" using rec_bound [OF n] by auto
    then show ?thesis using scan_Rec [OF n] less [of "drop m xs"] by simp
  next
    case False
    then show ?thesis using scan_stop [of xs] by auto
  qed
qed

lemma scan_records:
  "(\<And>f. f \<in> set fs \<Longrightarrow> step f = Rec (length f) (out f)) \<Longrightarrow> scan_frames step (concat fs) = (map out fs, [])"
proof (induction fs)
  case Nil
  then show ?case using step_Nil scan_stop [of "[]"] by simp
next
  case (Cons f fs)
  have "step (f @ concat fs) = Rec (length f) (out f)" using Cons.prems [of f] rec_stable by simp
  from scan_Rec [OF this] Cons show ?case by simp
qed

text \<open>A stream of records with an incomplete last one shows no error in any of its prefixes.\<close>

lemma scan_prefix_good:
  assumes "scan_frames step (xs @ ys) = (rs, t)" "step t = Need"
  shows "step (snd (scan_frames step xs)) \<noteq> Bad e"
proof
  assume b: "step (snd (scan_frames step xs)) = Bad e"
  then have "step (snd (scan_frames step xs) @ ys) = Bad e" by (rule bad_stable)
  moreover from this have "scan_frames step (snd (scan_frames step xs) @ ys) = ([], snd (scan_frames step xs) @ ys)"
    by (intro scan_stop) simp
  ultimately show False using assms scan_append [of xs ys] by simp
qed

end

text \<open>
  The loop of a \<open>feed\<close> walks an offset through its buffer. It follows the step function,
  except that a local policy may stop it with an error of its own.
\<close>

locale feed_loop = record_format step for step :: "bytes \<Rightarrow> 'r frame_step" +
  fixes loop :: "bytes \<Rightarrow> nat \<Rightarrow> 'r list \<Rightarrow> exn + 'r list \<times> nat"
    and policy :: "exn \<Rightarrow> bool"
  assumes loop_Need: "offset \<le> length b \<Longrightarrow> step (drop offset b) = Need \<Longrightarrow> loop b offset rs = Inr (rs, offset)"
    and loop_Bad: "offset \<le> length b \<Longrightarrow> step (drop offset b) = Bad e \<Longrightarrow>
        loop b offset rs = Inl e \<or> (\<exists>e'. loop b offset rs = Inl e' \<and> policy e')"
    and loop_Rec: "offset \<le> length b \<Longrightarrow> step (drop offset b) = Rec n r \<Longrightarrow>
        loop b offset rs = loop b (offset + n) (rs @ [r]) \<or> (\<exists>e'. loop b offset rs = Inl e' \<and> policy e')"
begin

text \<open>The loop computes the reference scan, or stops with the step's error or the policy's.\<close>

lemma loop_scan:
  assumes "offset \<le> length b"
  shows "(\<forall>e. loop b offset acc = Inl e \<longrightarrow>
            policy e \<or> step (snd (scan_frames step (drop offset b))) = Bad e) \<and>
         (\<forall>rs off. loop b offset acc = Inr (rs, off) \<longrightarrow>
            rs = acc @ fst (scan_frames step (drop offset b)) \<and>
            snd (scan_frames step (drop offset b)) = drop off b \<and> step (drop off b) = Need)"
  using assms
proof (induction "length b - offset" arbitrary: offset acc rule: less_induct)
  case less
  show ?case
  proof (cases "step (drop offset b)")
    case Need
    with loop_Need [OF less.prems] show ?thesis by (simp add: scan_stop)
  next
    case (Bad e)
    with loop_Bad [OF less.prems Bad, of acc] show ?thesis by (auto simp: scan_stop)
  next
    case (Rec n r)
    note b = rec_bound [OF Rec]
    have "length b - (offset + n) < length b - offset" "offset + n \<le> length b" using b by auto
    note IH = less.hyps [OF this, of "acc @ [r]"]
    have d: "drop n (drop offset b) = drop (offset + n) b" by (simp add: add.commute)
    from loop_Rec [OF less.prems Rec, of acc] show ?thesis
    proof
      assume "loop b offset acc = loop b (offset + n) (acc @ [r])"
      with IH scan_Rec [OF Rec, unfolded d] show ?thesis by simp
    qed auto
  qed
qed

end

locale stream_framer = record_format step for step :: "bytes \<Rightarrow> 'r frame_step" +
  fixes feed :: "bytes \<Rightarrow> 's \<Rightarrow> (exn + 'r list) \<times> 's"
    and buf :: "'s \<Rightarrow> bytes"
    and opened :: "'s \<Rightarrow> bool"
    and policy :: "exn \<Rightarrow> bool"
  assumes feed_ok: "feed d s = (Inr rs, s') \<Longrightarrow> scan_frames step (buf s @ d) = (rs, buf s')"
    and feed_need: "feed d s = (Inr rs, s') \<Longrightarrow> step (buf s') = Need"
    and feed_open: "feed d s = (Inr rs, s') \<Longrightarrow> opened s'"
    and feed_err: "opened s \<Longrightarrow> feed d s = (Inl e, s') \<Longrightarrow> policy e \<or> step (snd (scan_frames step (buf s @ d))) = Bad e"
begin

lemma feed_ok_scan:
  assumes "feed d s = (Inr rs, s')"
  shows "scan_frames step (buf s @ d @ ys) =
    (rs @ fst (scan_frames step (buf s' @ ys)), snd (scan_frames step (buf s' @ ys)))"
  using feed_ok [OF assms] scan_append [of "buf s @ d" ys] by simp

lemma feed_stops: "feed d s = (Inr rs, s') \<Longrightarrow> step (buf s') \<noteq> Rec n r"
  using feed_need by fastforce

lemma feed_all_need: "feed_all feed ds s = (Inr rs, s') \<Longrightarrow> step (buf s) = Need \<Longrightarrow> step (buf s') = Need"
proof (induction ds arbitrary: s rs)
  case (Cons d ds)
  then obtain rs1 s1 where f: "feed d s = (Inr rs1, s1)" by (auto split: prod.splits sum.splits)
  then obtain rs2 where "feed_all feed ds s1 = (Inr rs2, s')"
    using Cons.prems(1) by (auto split: prod.splits sum.splits)
  with Cons.IH feed_need [OF f] show ?case by blast
qed simp

text \<open>However the stream is cut, the records delivered are those of the whole stream.\<close>

lemma feed_all_ok:
  "feed_all feed ds s = (Inr rs, s') \<Longrightarrow> (\<And>n r. step (buf s) \<noteq> Rec n r) \<Longrightarrow>
   scan_frames step (buf s @ concat ds) = (rs, buf s')"
proof (induction ds arbitrary: s rs)
  case Nil
  then show ?case by (simp add: scan_stop)
next
  case (Cons d ds)
  obtain rs1 s1 where f: "feed d s = (Inr rs1, s1)" using Cons.prems(1) by (auto split: prod.splits sum.splits)
  then obtain rs2 where g: "feed_all feed ds s1 = (Inr rs2, s')" "rs = rs1 @ rs2"
    using Cons.prems(1) by (auto split: prod.splits sum.splits)
  from Cons.IH [OF g(1) feed_stops [OF f]] g(2) feed_ok_scan [OF f, of "concat ds"] show ?case by simp
qed

lemma feed_all_open: "feed_all feed ds s = (Inr rs, s') \<Longrightarrow> opened s \<Longrightarrow> opened s'"
proof (induction ds arbitrary: s rs)
  case (Cons d ds)
  then obtain rs1 s1 where f: "feed d s = (Inr rs1, s1)" by (auto split: prod.splits sum.splits)
  then obtain rs2 where "feed_all feed ds s1 = (Inr rs2, s')"
    using Cons.prems(1) by (auto split: prod.splits sum.splits)
  with Cons.IH feed_open [OF f] show ?case by blast
qed simp

text \<open>A stream made of records is delivered whole unless the local policy stops it.\<close>

lemma feed_all_good:
  assumes "scan_frames step (buf s @ concat ds) = (fs, t)" "step t = Need" "\<And>n r. step (buf s) \<noteq> Rec n r"
    "feed_all feed ds s = (res, s')" "opened s"
  shows "res = Inr fs \<and> buf s' = t \<or> (\<exists>e. res = Inl e \<and> policy e)"
  using assms(1,3-)
proof (induction ds arbitrary: s fs res s')
  case Nil
  then show ?case using scan_stop [of "buf s"] by auto
next
  case (Cons d ds)
  obtain x s1 where f: "feed d s = (x, s1)" by fastforce
  show ?case
  proof (cases x)
    case (Inl e)
    then have "res = Inl e" using Cons.prems(3) f by simp
    moreover have "step (snd (scan_frames step (buf s @ d))) \<noteq> Bad e"
      using scan_prefix_good [of "buf s @ d" "concat ds" fs t] Cons.prems(1) assms(2) by simp
    ultimately show ?thesis using feed_err [OF Cons.prems(4), of d e s1] f Inl by simp
  next
    case (Inr rs)
    note f = f [unfolded Inr]
    let ?r = "scan_frames step (buf s1 @ concat ds)"
    have sc: "?r = (fst ?r, t)" "fs = rs @ fst ?r"
      using feed_ok_scan [OF f, of "concat ds"] Cons.prems(1) by (auto simp: prod_eq_iff)
    obtain y s2 where g: "feed_all feed ds s1 = (y, s2)" by fastforce
    from Cons.IH [OF sc(1) feed_stops [OF f] g feed_open [OF f]] show ?thesis
      using Cons.prems(3) f g sc(2) by (auto split: sum.splits)
  qed
qed

end

section \<open>The MTP TCP framer\<close>

abbreviation (input) TCP_RECORD_LIMIT :: nat where "TCP_RECORD_LIMIT \<equiv> 1500"
abbreviation (input) MAX_READ_BYTES :: nat where "MAX_READ_BYTES \<equiv> 4096"
abbreviation (input) MAX_RECORDS_PER_FEED :: nat where "MAX_RECORDS_PER_FEED \<equiv> 64"

record mtp_tcp_framer =
  mf_buffer :: bytes
  mf_closed :: bool

definition mtp_framer_init :: mtp_tcp_framer where
  "mtp_framer_init = \<lparr>mf_buffer = [], mf_closed = False\<rparr>"

definition mtp_framer_abort :: "mtp_tcp_framer \<Rightarrow> mtp_tcp_framer" where
  "mtp_framer_abort s = s\<lparr>mf_buffer := [], mf_closed := True\<rparr>"

function mtp_feed_loop :: "bytes \<Rightarrow> nat \<Rightarrow> bytes list \<Rightarrow> exn + bytes list \<times> nat" where
  "mtp_feed_loop buffer offset records =
     (if length buffer - offset \<ge> 4 then
        let prefix = pyslice buffer offset (offset + 4)
        in if prefix ! 0 \<noteq> 0xC0 \<or> prefix ! 1 \<notin> {0x10, 0x50, 0x90, 0xD0}
        then Inl (MtpTcpFrameError ''unmapped inbound MTP TCP prefix'' [])
        else bind_res (mtp_frame_length prefix) (\<lambda>size.
          if \<not> (30 \<le> size \<and> size \<le> TCP_RECORD_LIMIT)
          then Inl (MtpTcpFrameError ''invalid MTP TCP record length''
                 [(''mtp_kind'', unat (prefix ! 1)), (''mtp_length'', size)])
          else if length buffer - offset < size then Inr (records, offset)
          else if length records \<ge> MAX_RECORDS_PER_FEED
          then Inl (MtpTcpFrameError ''MTP TCP record batch exceeds admission policy'' [])
          else let record = pyslice buffer offset (offset + size)
          in if \<not> verify_mtp_frame record
          then Inl (MtpTcpFrameError ''invalid MTP TCP record checksum'' [])
          else mtp_feed_loop buffer (offset + size) (records @ [record]))
      else Inr (records, offset))"
  by pat_completeness auto
termination by (relation "measure (\<lambda>(buffer, offset, records). length buffer - offset)") auto

declare mtp_feed_loop.simps [simp del]

definition mtp_feed :: "bytes \<Rightarrow> mtp_tcp_framer \<Rightarrow> (exn + bytes list) \<times> mtp_tcp_framer" where
  "mtp_feed data s =
     (if mf_closed s then (Inl (MtpTcpFrameError ''MTP TCP decoder is closed'' []), s)
      else if length data > MAX_READ_BYTES
      then (Inl (MtpTcpFrameError ''MTP TCP read exceeds admission policy'' []), mtp_framer_abort s)
      else let s = s\<lparr>mf_buffer := mf_buffer s @ data\<rparr>
      in case mtp_feed_loop (mf_buffer s) 0 [] of
           Inl e \<Rightarrow> (Inl e, mtp_framer_abort s)
         | Inr (records, offset) \<Rightarrow> (Inr records, s\<lparr>mf_buffer := drop offset (mf_buffer s)\<rparr>))"

definition mtp_finish :: "mtp_tcp_framer \<Rightarrow> (exn + unit) \<times> mtp_tcp_framer" where
  "mtp_finish s =
     (if mf_closed s then (Inl (MtpTcpFrameError ''MTP TCP decoder is closed'' []), s)
      else if mf_buffer s \<noteq> [] then (Inl (MtpTcpFrameError ''truncated MTP TCP stream'' []), mtp_framer_abort s)
      else (Inr (), s\<lparr>mf_closed := True\<rparr>))"

text \<open>What one iteration recognises at the front of a buffer, the batch limit apart.\<close>

definition mtp_prefix_ok :: "bytes \<Rightarrow> bool" where
  "mtp_prefix_ok xs \<longleftrightarrow> xs ! 0 = 0xC0 \<and> xs ! 1 \<in> {0x10, 0x50, 0x90, 0xD0}"

definition mtp_size :: "bytes \<Rightarrow> nat" where
  "mtp_size xs = (unat (xs ! 2) AND 7) OR push_bit 3 (unat (xs ! 3))"

definition mtp_step :: "bytes \<Rightarrow> bytes frame_step" where
  "mtp_step xs =
     (if length xs < 4 then Need
      else if \<not> mtp_prefix_ok xs then Bad (MtpTcpFrameError ''unmapped inbound MTP TCP prefix'' [])
      else if \<not> (30 \<le> mtp_size xs \<and> mtp_size xs \<le> TCP_RECORD_LIMIT)
      then Bad (MtpTcpFrameError ''invalid MTP TCP record length''
             [(''mtp_kind'', unat (xs ! 1)), (''mtp_length'', mtp_size xs)])
      else if length xs < mtp_size xs then Need
      else if \<not> verify_mtp_frame (take (mtp_size xs) xs)
      then Bad (MtpTcpFrameError ''invalid MTP TCP record checksum'' [])
      else Rec (mtp_size xs) (take (mtp_size xs) xs))"

lemma mtp_head_append:
  assumes "4 \<le> length xs"
  shows "mtp_prefix_ok (xs @ ys) = mtp_prefix_ok xs" "mtp_size (xs @ ys) = mtp_size xs" "(xs @ ys) ! 1 = xs ! 1"
proof -
  have "(xs @ ys) ! i = xs ! i" if "i < 4" for i using that assms by (simp add: nth_append)
  then show "mtp_prefix_ok (xs @ ys) = mtp_prefix_ok xs" "mtp_size (xs @ ys) = mtp_size xs" "(xs @ ys) ! 1 = xs ! 1"
    by (simp_all add: mtp_prefix_ok_def mtp_size_def)
qed

lemma mtp_step_Need: "mtp_step xs = Need \<longleftrightarrow> length xs < 4 \<or>
    mtp_prefix_ok xs \<and> 30 \<le> mtp_size xs \<and> mtp_size xs \<le> TCP_RECORD_LIMIT \<and> length xs < mtp_size xs"
  by (auto simp: mtp_step_def)

lemma mtp_step_append: "mtp_step xs \<noteq> Need \<Longrightarrow> mtp_step (xs @ ys) = mtp_step xs"
proof -
  assume n: "mtp_step xs \<noteq> Need"
  then have l: "4 \<le> length xs" by (simp add: mtp_step_Need)
  note h = mtp_head_append [OF l, of ys]
  show ?thesis
  proof (cases "mtp_prefix_ok xs \<and> 30 \<le> mtp_size xs \<and> mtp_size xs \<le> TCP_RECORD_LIMIT")
    case True
    with n have "mtp_size xs \<le> length xs" by (simp add: mtp_step_Need not_less)
    with l h show ?thesis by (simp add: mtp_step_def)
  next
    case False
    with l h show ?thesis by (auto simp: mtp_step_def)
  qed
qed

lemma mtp_step_Rec:
  "mtp_step xs = Rec n r \<longleftrightarrow> 4 \<le> length xs \<and> mtp_prefix_ok xs \<and> 30 \<le> mtp_size xs \<and>
     mtp_size xs \<le> TCP_RECORD_LIMIT \<and> mtp_size xs \<le> length xs \<and> verify_mtp_frame r \<and>
     n = mtp_size xs \<and> r = take n xs"
  by (auto simp: mtp_step_def)

definition mtp_policy :: "exn \<Rightarrow> bool" where
  "mtp_policy e \<longleftrightarrow> e = MtpTcpFrameError ''MTP TCP read exceeds admission policy'' [] \<or>
     e = MtpTcpFrameError ''MTP TCP record batch exceeds admission policy'' []"

interpretation mtp_format: record_format mtp_step
proof
  show "mtp_step [] = Need" by (simp add: mtp_step_def)
qed (simp_all add: mtp_step_append, auto simp: mtp_step_Rec)

lemma mtp_feed_loop_step:
  assumes "offset \<le> length buffer"
  shows "mtp_feed_loop buffer offset records =
    (case mtp_step (drop offset buffer) of
       Need \<Rightarrow> Inr (records, offset)
     | Bad e \<Rightarrow> Inl (if e = MtpTcpFrameError ''invalid MTP TCP record checksum'' [] \<and> 64 \<le> length records
                  then MtpTcpFrameError ''MTP TCP record batch exceeds admission policy'' [] else e)
     | Rec n r \<Rightarrow> if 64 \<le> length records then Inl (MtpTcpFrameError ''MTP TCP record batch exceeds admission policy'' [])
                 else mtp_feed_loop buffer (offset + n) (records @ [r]))"
proof (cases "length buffer - offset < 4")
  case True
  then show ?thesis by (simp add: mtp_feed_loop.simps [of buffer offset] mtp_step_def)
next
  case False
  let ?x = "drop offset buffer"
  have p: "pyslice buffer offset (offset + 4) ! i = ?x ! i" if "i < 4" for i using that False by simp
  have "pyslice buffer offset (offset + 4) ! 0 = 0xC0 \<and> pyslice buffer offset (offset + 4) ! 1 \<in> {0x10, 0x50, 0x90, 0xD0} \<longleftrightarrow>
    mtp_prefix_ok ?x" by (simp add: p mtp_prefix_ok_def del: nth_slice)
  moreover have "mtp_frame_length (pyslice buffer offset (offset + 4)) = Inr (mtp_size ?x)"
    using False p by (simp add: mtp_frame_length_def mtp_size_def)
  moreover have "pyslice buffer offset (offset + mtp_size ?x) = take (mtp_size ?x) ?x" by (simp add: pyslice_def)
  moreover have "pyslice buffer offset (offset + 4) ! 1 = ?x ! 1" by (rule p) simp
  ultimately show ?thesis
    using False
    by (simp add: mtp_feed_loop.simps [of buffer offset records] mtp_step_def Let_def) blast
qed

interpretation mtp_loop: feed_loop mtp_step mtp_feed_loop mtp_policy
  by unfold_locales (simp_all add: mtp_feed_loop_step mtp_policy_def)

lemma mtp_feed_cases:
  "(\<exists>e. mtp_feed d s = (Inl e, s) \<and> mf_closed s \<and> e = MtpTcpFrameError ''MTP TCP decoder is closed'' []) \<or>
   (\<exists>e. mtp_feed d s = (Inl e, mtp_framer_abort s) \<and> \<not> mf_closed s \<and>
      (mtp_policy e \<or> mtp_step (snd (scan_frames mtp_step (mf_buffer s @ d))) = Bad e)) \<or>
   (\<exists>rs rest. mtp_feed d s = (Inr rs, s\<lparr>mf_buffer := rest\<rparr>) \<and> \<not> mf_closed s \<and> length d \<le> MAX_READ_BYTES \<and>
      scan_frames mtp_step (mf_buffer s @ d) = (rs, rest) \<and> mtp_step rest = Need)"
proof -
  note sc = mtp_loop.loop_scan [of 0 "mf_buffer s @ d" "[]", simplified]
  consider "mf_closed s" | "\<not> mf_closed s" "length d > MAX_READ_BYTES" | (run) "\<not> mf_closed s" "\<not> length d > MAX_READ_BYTES"
    by blast
  then show ?thesis
  proof cases
    case run
    show ?thesis
    proof (cases "mtp_feed_loop (mf_buffer s @ d) 0 []")
      case (Inl e)
      with run sc show ?thesis by (simp add: mtp_feed_def Let_def mtp_framer_abort_def)
    next
      case (Inr x)
      then obtain rs off where "mtp_feed_loop (mf_buffer s @ d) 0 [] = Inr (rs, off)" by (cases x) auto
      with run sc show ?thesis by (simp add: mtp_feed_def Let_def prod_eq_iff)
    qed
  qed (simp_all add: mtp_feed_def mtp_policy_def)
qed

interpretation mtp_framer: stream_framer mtp_step mtp_feed mf_buffer "\<lambda>s. \<not> mf_closed s" mtp_policy
proof
  fix d s rs s'
  assume "mtp_feed d s = (Inr rs, s')"
  with mtp_feed_cases [of d s] show "scan_frames mtp_step (mf_buffer s @ d) = (rs, mf_buffer s')" by auto
next
  fix d s rs s'
  assume "mtp_feed d s = (Inr rs, s')"
  with mtp_feed_cases [of d s] show "mtp_step (mf_buffer s') = Need" "\<not> mf_closed s'" by auto
next
  fix d s e s'
  assume "mtp_feed d s = (Inl e, s')" "\<not> mf_closed s"
  with mtp_feed_cases [of d s] show "mtp_policy e \<or> mtp_step (snd (scan_frames mtp_step (mf_buffer s @ d))) = Bad e"
    by auto
qed

definition mtp_record_ok :: "bytes \<Rightarrow> bool" where
  "mtp_record_ok f \<longleftrightarrow> verify_mtp_frame f \<and> length f \<le> TCP_RECORD_LIMIT \<and> f ! 1 \<in> {0x10, 0x50, 0x90, 0xD0}"

lemma mtp_step_record: "mtp_record_ok f \<Longrightarrow> mtp_step f = Rec (length f) f"
proof -
  assume f: "mtp_record_ok f"
  then have v: "30 \<le> length f" "f ! 0 = 0xC0" "mtp_frame_length f = Inr (length f)"
    by (auto simp: mtp_record_ok_def verify_mtp_frame_def split: if_splits)
  then have "mtp_size f = length f" by (auto simp: mtp_frame_length_def mtp_size_def split: if_splits)
  with f v show ?thesis by (auto simp: mtp_step_Rec mtp_record_ok_def mtp_prefix_ok_def)
qed

lemma mtp_init_Need: "mtp_step (mf_buffer mtp_framer_init) = Need" "\<not> mf_closed mtp_framer_init"
  "mf_buffer mtp_framer_init = []"
  by (simp_all add: mtp_framer_init_def mtp_step_def)

lemma mtp_scan_verified: "r \<in> set (fst (scan_frames mtp_step xs)) \<Longrightarrow> mtp_record_ok r"
proof (induction "length xs" arbitrary: xs rule: less_induct)
  case less
  show ?case
  proof (cases "\<exists>n r'. mtp_step xs = Rec n r'")
    case True
    then obtain n r' where n: "mtp_step xs = Rec n r'" by blast
    then have v: "mtp_record_ok r'" by (auto simp: mtp_step_Rec mtp_record_ok_def mtp_prefix_ok_def)
    have l: "length (drop n xs) < length xs" using mtp_format.rec_bound [OF n] by auto
    show ?thesis using less.hyps [OF l] less.prems v mtp_format.scan_Rec [OF n] by auto
  next
    case False
    then have "scan_frames mtp_step xs = ([], xs)" by (intro mtp_format.scan_stop) auto
    with less.prems show ?thesis by simp
  qed
qed

text \<open>
  Delivery. A stream of valid inbound MTP TCP records, cut into reads at any
  places, is delivered record for record and in order with nothing left over, unless
  the connection is refused by the admission policy: a read over 4096 bytes or more
  than 64 records in one read.
\<close>
theorem mtp_stream_delivered:
  assumes "\<forall>f \<in> set frames. mtp_record_ok f" "concat chunks = concat frames"
    "feed_all mtp_feed chunks mtp_framer_init = (res, s)"
  shows "res = Inr frames \<and> mf_buffer s = [] \<or>
    res = Inl (MtpTcpFrameError ''MTP TCP read exceeds admission policy'' []) \<or>
    res = Inl (MtpTcpFrameError ''MTP TCP record batch exceeds admission policy'' [])"
proof -
  have "scan_frames mtp_step (concat chunks) = (frames, [])"
    using mtp_format.scan_records [of frames "\<lambda>f. f"] mtp_step_record assms(1,2) by simp
  with mtp_framer.feed_all_good [of mtp_framer_init chunks frames "[]" res s] assms(3) mtp_init_Need
  show ?thesis by (auto simp: mtp_policy_def)
qed

text \<open>
  The admission policy as a condition on the reads alone: no read is over 4096 bytes and
  none completes more than 64 records. \<open>buffer\<close> is what the reads before left over.
\<close>

fun reads_admitted :: "bytes \<Rightarrow> bytes list \<Rightarrow> bool" where
  "reads_admitted buffer [] \<longleftrightarrow> True"
| "reads_admitted buffer (d # ds) \<longleftrightarrow>
     (case scan_frames mtp_step (buffer @ d) of (records, rest) \<Rightarrow>
        length d \<le> 4096 \<and> length records \<le> 64 \<and> reads_admitted rest ds)"

abbreviation (input) batch_error :: exn where
  "batch_error \<equiv> MtpTcpFrameError ''MTP TCP record batch exceeds admission policy'' []"

text \<open>Within the batch limit the loop reads exactly the records of the buffer or reports its error.\<close>

lemma mtp_loop_exact:
  assumes "offset \<le> length b" "scan_frames mtp_step (drop offset b) = (rs, rest)" "length acc + length rs \<le> 64"
  shows "case mtp_step rest of
      Bad e \<Rightarrow> mtp_feed_loop b offset acc \<in> {Inl e, Inl batch_error}
    | _ \<Rightarrow> \<exists>off. mtp_feed_loop b offset acc = Inr (acc @ rs, off) \<and> rest = drop off b"
  using assms
proof (induction "length b - offset" arbitrary: offset acc rs rule: less_induct)
  case less
  show ?case
  proof (cases "mtp_step (drop offset b)")
    case Need
    then show ?thesis using less.prems mtp_format.scan_stop [of "drop offset b"]
      by (simp add: mtp_feed_loop_step [OF less.prems(1)])
  next
    case (Bad e)
    then show ?thesis using less.prems mtp_format.scan_stop [of "drop offset b"]
      by (auto simp: mtp_feed_loop_step [OF less.prems(1)])
  next
    case (Rec n r)
    note b = mtp_format.rec_bound [OF Rec]
    obtain rs' where rs: "rs = r # rs'" "scan_frames mtp_step (drop (offset + n) b) = (rs', rest)"
      using mtp_format.scan_Rec [OF Rec] less.prems(2) by (auto simp: prod_eq_iff add.commute)
    have "length b - (offset + n) < length b - offset" "offset + n \<le> length b" "length (acc @ [r]) + length rs' \<le> 64"
      using b less.prems(3) rs(1) by auto
    note IH = less.hyps [OF this(1,2) rs(2) this(3)]
    have "mtp_feed_loop b offset acc = mtp_feed_loop b (offset + n) (acc @ [r])"
      using less.prems(3) rs(1) Rec by (simp add: mtp_feed_loop_step [OF less.prems(1), of acc])
    then show ?thesis using IH rs(1) by (cases "mtp_step rest") simp_all
  qed
qed

lemma mtp_feed_exact:
  assumes "\<not> mf_closed s" "length d \<le> 4096" "scan_frames mtp_step (mf_buffer s @ d) = (rs, rest)" "length rs \<le> 64"
  shows "case mtp_step rest of
      Bad e \<Rightarrow> mtp_feed d s \<in> {(Inl e, mtp_framer_abort s), (Inl batch_error, mtp_framer_abort s)}
    | _ \<Rightarrow> mtp_feed d s = (Inr rs, s\<lparr>mf_buffer := rest\<rparr>)"
  using mtp_loop_exact [of 0 "mf_buffer s @ d" rs rest "[]"] assms
  by (auto simp: mtp_feed_def mtp_framer_abort_def Let_def split: frame_step.splits)

lemma mtp_feed_all_exact:
  assumes "\<not> mf_closed s" "mtp_step (mf_buffer s) = Need" "reads_admitted (mf_buffer s) ds"
    "scan_frames mtp_step (mf_buffer s @ concat ds) = (rs, rest)"
  shows "case mtp_step rest of
      Bad e \<Rightarrow> \<exists>e' s'. feed_all mtp_feed ds s = (Inl e', s') \<and> mf_closed s' \<and> mf_buffer s' = [] \<and> (e' = e \<or> e' = batch_error)
    | _ \<Rightarrow> feed_all mtp_feed ds s = (Inr rs, s\<lparr>mf_buffer := rest\<rparr>)"
  using assms
proof (induction ds arbitrary: s rs)
  case Nil
  then show ?case using mtp_format.scan_stop [of "mf_buffer s"] by auto
next
  case (Cons d ds)
  obtain rs1 rest1 where 1: "scan_frames mtp_step (mf_buffer s @ d) = (rs1, rest1)" by fastforce
  have ad: "length d \<le> 4096" "length rs1 \<le> 64" "reads_admitted rest1 ds" using Cons.prems(3) 1 by simp_all
  note f = mtp_feed_exact [OF Cons.prems(1) ad(1) 1 ad(2)]
  obtain rs2 where 2: "scan_frames mtp_step (rest1 @ concat ds) = (rs2, rest)" "rs = rs1 @ rs2"
    using mtp_format.scan_append [of "mf_buffer s @ d" "concat ds"] 1 Cons.prems(4) by (auto simp: prod_eq_iff)
  show ?case
  proof (cases "mtp_step rest1")
    case (Bad e)
    have b: "mtp_step (rest1 @ concat ds) = Bad e" by (rule mtp_format.bad_stable [OF Bad])
    then have "rest = rest1 @ concat ds" using 2(1) mtp_format.scan_stop [of "rest1 @ concat ds"] by simp
    with f Bad b show ?thesis by (auto simp: mtp_framer_abort_def)
  next
    case Need
    then have g: "mtp_feed d s = (Inr rs1, s\<lparr>mf_buffer := rest1\<rparr>)" using f by simp
    have "\<not> mf_closed (s\<lparr>mf_buffer := rest1\<rparr>)" "mtp_step (mf_buffer (s\<lparr>mf_buffer := rest1\<rparr>)) = Need"
      "reads_admitted (mf_buffer (s\<lparr>mf_buffer := rest1\<rparr>)) ds"
      "scan_frames mtp_step (mf_buffer (s\<lparr>mf_buffer := rest1\<rparr>) @ concat ds) = (rs2, rest)"
      using Cons.prems(1) Need ad(3) 2(1) by simp_all
    from Cons.IH [OF this] g 2(2) show ?thesis by (auto split: frame_step.splits)
  next
    case (Rec n r)
    with mtp_format.scan_rest_stops [of "mf_buffer s @ d" n r] 1 show ?thesis by simp
  qed
qed

text \<open>
  C17. However a stream is cut into reads of at most 4096 bytes that complete at most 64
  records each, the MTP TCP framer reads it as the record-by-record reference reads the
  whole stream. When the reference meets no invalid record, every read succeeds, the
  records delivered are the reference's, each has passed the checksum and the size limit,
  and less than one record stays buffered; a stream of valid records is delivered whole.
  When it meets an invalid record, a read fails and the framer is closed and empty.
\<close>
theorem mtp_feed_chunking:
  assumes "reads_admitted [] chunks" "scan_frames mtp_step (concat chunks) = (records, rest)"
  shows "(case mtp_step rest of
       Bad e \<Rightarrow> \<exists>e' s. feed_all mtp_feed chunks mtp_framer_init = (Inl e', s) \<and> mf_closed s \<and> mf_buffer s = [] \<and>
         (e' = e \<or> e' = MtpTcpFrameError ''MTP TCP record batch exceeds admission policy'' [])
     | _ \<Rightarrow> feed_all mtp_feed chunks mtp_framer_init = (Inr records, \<lparr>mf_buffer = rest, mf_closed = False\<rparr>) \<and> length rest < 1500) \<and>
    (\<forall>r \<in> set records. verify_mtp_frame r \<and> length r \<le> 1500) \<and>
    (\<forall>frames. (\<forall>f \<in> set frames. mtp_record_ok f) \<and> concat chunks = concat frames \<longrightarrow>
       feed_all mtp_feed chunks mtp_framer_init = (Inr frames, mtp_framer_init))"
proof -
  note ex = mtp_feed_all_exact [of mtp_framer_init chunks records rest, unfolded mtp_init_Need(3) append_Nil, OF mtp_init_Need(2) mtp_format.step_Nil assms]
  have "length rest < 1500" if "\<nexists>e. mtp_step rest = Bad e"
    using that mtp_format.scan_rest_stops [of "concat chunks"] assms(2) by (cases "mtp_step rest") (auto simp: mtp_step_Need)
  moreover have "\<forall>r \<in> set records. verify_mtp_frame r \<and> length r \<le> 1500"
    using mtp_scan_verified [of _ "concat chunks"] assms(2) by (auto simp: mtp_record_ok_def)
  moreover have "records = frames \<and> rest = []" if "\<forall>f \<in> set frames. mtp_record_ok f" "concat chunks = concat frames" for frames
    using mtp_format.scan_records [of frames "\<lambda>f. f"] mtp_step_record that assms(2) by simp
  ultimately show ?thesis using ex mtp_format.step_Nil by (auto simp: mtp_framer_init_def split: frame_step.splits)
qed

lemma built_record_ok:
  assumes "build_mtp_frame subtype payload = Inr f" "length payload \<le> 1494" "of_int subtype \<in> {0x10, 0x50, 0x90, 0xD0 :: byte}"
  shows "mtp_record_ok f"
  using build_mtp_frame_verifies [OF assms(1)] build_mtp_frame_bytes [OF assms(1)] assms(2,3)
  by (simp add: mtp_record_ok_def)

definition demo_record :: bytes where
  "demo_record = projr (build_mtp_frame 0x10 (replicate 24 7))"

lemma demo_record_ok: "mtp_record_ok demo_record"
proof -
  obtain f where "build_mtp_frame 0x10 (replicate 24 7) = Inr f"
    using build_mtp_frame_Inr_iff [of "0x10" "replicate 24 7"] by auto
  then show ?thesis using built_record_ok [of "0x10" "replicate 24 7" f] by (simp add: demo_record_def)
qed

theorem mtp_stream_delivered_witness:
  "mtp_record_ok demo_record \<and>
   (let res = fst (feed_all mtp_feed [take 11 demo_record, drop 11 demo_record @ demo_record] mtp_framer_init)
    in res = Inr [demo_record, demo_record] \<or>
       res = Inl (MtpTcpFrameError ''MTP TCP read exceeds admission policy'' []) \<or>
       res = Inl (MtpTcpFrameError ''MTP TCP record batch exceeds admission policy'' []))"
proof -
  obtain res s where f: "feed_all mtp_feed [take 11 demo_record, drop 11 demo_record @ demo_record] mtp_framer_init = (res, s)"
    by fastforce
  have "\<forall>f \<in> set [demo_record, demo_record]. mtp_record_ok f" using demo_record_ok by simp
  from mtp_stream_delivered [OF this _ f] f demo_record_ok show ?thesis by auto
qed

theorem mtp_feed_chunking_witness:
  "mtp_record_ok demo_record \<and>
   feed_all mtp_feed [take 11 demo_record, drop 11 demo_record @ demo_record] mtp_framer_init =
     (Inr [demo_record, demo_record], mtp_framer_init)"
proof -
  let ?cs = "[take 11 demo_record, drop 11 demo_record @ demo_record]"
  note ok = demo_record_ok
  have len: "length demo_record \<le> 1500" using ok by (simp add: mtp_record_ok_def)
  have two: "scan_frames mtp_step (demo_record @ demo_record) = ([demo_record, demo_record], [])"
    using mtp_format.scan_records [of "[demo_record, demo_record]" "\<lambda>f. f"] mtp_step_record [OF ok] by simp
  obtain r1 b1 where 1: "scan_frames mtp_step (take 11 demo_record) = (r1, b1)" by fastforce
  obtain r2 b2 where 2: "scan_frames mtp_step (b1 @ drop 11 demo_record @ demo_record) = (r2, b2)" by fastforce
  have "r1 @ r2 = [demo_record, demo_record]"
    using mtp_format.scan_append [of "take 11 demo_record" "drop 11 demo_record @ demo_record"] 1 2 two
    by (simp flip: append_assoc)
  then have "length r1 + length r2 = 2" by (metis length_append length_Cons list.size(3) numeral_2_eq_2)
  then have "length r1 \<le> 64" "length r2 \<le> 64" by linarith+
  moreover have "min (length demo_record) 11 \<le> 4096" "length demo_record - 11 + length demo_record \<le> 4096" using len by linarith+
  ultimately have "reads_admitted [] ?cs" using 1 2 by simp
  moreover have c: "concat ?cs = demo_record @ demo_record" by (simp flip: append_assoc)
  ultimately have "\<forall>frames. (\<forall>f \<in> set frames. mtp_record_ok f) \<and> concat ?cs = concat frames \<longrightarrow>
      feed_all mtp_feed ?cs mtp_framer_init = (Inr frames, mtp_framer_init)"
    using mtp_feed_chunking [of ?cs "[demo_record, demo_record]" "[]"] two by argo
  from spec [OF this, of "[demo_record, demo_record]"] c ok show ?thesis by (simp del: feed_all.simps)
qed

section \<open>The push framer\<close>

abbreviation (input) PUSH_HEADER_SIZE :: nat where "PUSH_HEADER_SIZE \<equiv> 20"
abbreviation (input) MAX_FRAME_BYTES :: nat where "MAX_FRAME_BYTES \<equiv> 0x8400"
abbreviation (input) MAX_FRAMES_PER_FEED :: nat where "MAX_FRAMES_PER_FEED \<equiv> 256"

record push_tcp_framer =
  pf_buffer :: bytes
  pf_closed :: bool

definition push_framer_init :: push_tcp_framer where
  "push_framer_init = \<lparr>pf_buffer = [], pf_closed = False\<rparr>"

definition push_framer_abort :: "push_tcp_framer \<Rightarrow> push_tcp_framer" where
  "push_framer_abort s = s\<lparr>pf_buffer := [], pf_closed := True\<rparr>"

definition push_framer_fail :: "string \<Rightarrow> push_tcp_framer \<Rightarrow> (exn + 'a) \<times> push_tcp_framer" where
  "push_framer_fail reason s = (Inl (PushFrameError reason), s\<lparr>pf_buffer := [], pf_closed := True\<rparr>)"

function push_feed_loop :: "bytes \<Rightarrow> nat \<Rightarrow> bytes list \<Rightarrow> exn + bytes list \<times> nat" where
  "push_feed_loop buffer offset frames =
     (if length buffer - offset \<ge> PUSH_HEADER_SIZE then
        if buffer ! offset \<noteq> 3 then Inl (PushFrameError ''invalid push protocol'')
        else let size = PUSH_HEADER_SIZE + u16_at buffer (offset + 4)
        in if \<not> (PUSH_HEADER_SIZE < size \<and> size \<le> MAX_FRAME_BYTES)
        then Inl (PushFrameError ''invalid push frame length'')
        else if length buffer - offset < size then Inr (frames, offset)
        else if length frames \<ge> MAX_FRAMES_PER_FEED
        then Inl (PushFrameError ''push frame batch exceeds admission policy'')
        else push_feed_loop buffer (offset + size) (frames @ [pyslice buffer offset (offset + size)])
      else Inr (frames, offset))"
  by pat_completeness auto
termination by (relation "measure (\<lambda>(buffer, offset, frames). length buffer - offset)") auto

declare push_feed_loop.simps [simp del]

definition push_feed :: "bytes \<Rightarrow> push_tcp_framer \<Rightarrow> (exn + bytes list) \<times> push_tcp_framer" where
  "push_feed data s =
     (if pf_closed s then (Inl (PushFrameError ''push decoder is closed''), s)
      else if length data > MAX_FRAME_BYTES then push_framer_fail ''push read exceeds admission policy'' s
      else let s = s\<lparr>pf_buffer := pf_buffer s @ data\<rparr>
      in case push_feed_loop (pf_buffer s) 0 [] of
           Inl e \<Rightarrow> (Inl e, s\<lparr>pf_buffer := [], pf_closed := True\<rparr>)
         | Inr (frames, offset) \<Rightarrow> (Inr frames, s\<lparr>pf_buffer := drop offset (pf_buffer s)\<rparr>))"

definition push_finish :: "push_tcp_framer \<Rightarrow> (exn + unit) \<times> push_tcp_framer" where
  "push_finish s =
     (if pf_closed s then (Inl (PushFrameError ''push decoder is closed''), s)
      else if pf_buffer s \<noteq> [] then push_framer_fail ''truncated push stream'' s
      else (Inr (), s\<lparr>pf_closed := True\<rparr>))"

definition push_size :: "bytes \<Rightarrow> nat" where
  "push_size xs = PUSH_HEADER_SIZE + u16_at xs 4"

definition push_step :: "bytes \<Rightarrow> bytes frame_step" where
  "push_step xs =
     (if length xs < PUSH_HEADER_SIZE then Need
      else if xs ! 0 \<noteq> 3 then Bad (PushFrameError ''invalid push protocol'')
      else if \<not> (PUSH_HEADER_SIZE < push_size xs \<and> push_size xs \<le> MAX_FRAME_BYTES)
      then Bad (PushFrameError ''invalid push frame length'')
      else if length xs < push_size xs then Need else Rec (push_size xs) (take (push_size xs) xs))"

definition push_policy :: "exn \<Rightarrow> bool" where
  "push_policy e \<longleftrightarrow> e = PushFrameError ''push read exceeds admission policy'' \<or>
     e = PushFrameError ''push frame batch exceeds admission policy''"

lemma push_head_append:
  assumes "20 \<le> length xs"
  shows "push_size (xs @ ys) = push_size xs" "(xs @ ys) ! 0 = xs ! 0"
  using assms by (auto simp: push_size_def slice_append_left nth_append)

lemma push_step_Need: "push_step xs = Need \<longleftrightarrow> length xs < 20 \<or>
    xs ! 0 = 3 \<and> 20 < push_size xs \<and> push_size xs \<le> 0x8400 \<and> length xs < push_size xs"
  by (auto simp: push_step_def)

lemma push_step_Rec: "push_step xs = Rec n r \<longleftrightarrow> 20 \<le> length xs \<and> xs ! 0 = 3 \<and> 20 < push_size xs \<and>
    push_size xs \<le> 0x8400 \<and> push_size xs \<le> length xs \<and> n = push_size xs \<and> r = take n xs"
  by (auto simp: push_step_def)

lemma push_step_append: "push_step xs \<noteq> Need \<Longrightarrow> push_step (xs @ ys) = push_step xs"
proof -
  assume n: "push_step xs \<noteq> Need"
  then have l: "20 \<le> length xs" by (simp add: push_step_Need)
  note h = push_head_append [OF l, of ys]
  show ?thesis
  proof (cases "xs ! 0 = 3 \<and> 20 < push_size xs \<and> push_size xs \<le> 0x8400")
    case True
    with n have "push_size xs \<le> length xs" by (simp add: push_step_Need not_less)
    with l h show ?thesis by (simp add: push_step_def)
  next
    case False
    with l h show ?thesis by (auto simp: push_step_def)
  qed
qed

interpretation push_format: record_format push_step
proof
  show "push_step [] = Need" by (simp add: push_step_def)
qed (simp_all add: push_step_append, auto simp: push_step_Rec)

lemma push_feed_loop_step:
  assumes "offset \<le> length buffer"
  shows "push_feed_loop buffer offset frames =
    (case push_step (drop offset buffer) of
       Need \<Rightarrow> Inr (frames, offset)
     | Bad e \<Rightarrow> Inl e
     | Rec n r \<Rightarrow> if 256 \<le> length frames then Inl (PushFrameError ''push frame batch exceeds admission policy'')
                 else push_feed_loop buffer (offset + n) (frames @ [r]))"
proof (cases "length buffer - offset < 20")
  case True
  then show ?thesis by (simp add: push_feed_loop.simps [of buffer offset] push_step_def)
next
  case False
  let ?x = "drop offset buffer"
  have "u16_at buffer (offset + 4) = u16_at ?x 4" by (simp add: slice_drop add.commute)
  moreover have "pyslice buffer offset (offset + push_size ?x) = take (push_size ?x) ?x" by (simp add: pyslice_def)
  ultimately show ?thesis
    using False by (simp add: push_feed_loop.simps [of buffer offset frames] push_step_def push_size_def Let_def)
qed

interpretation push_loop: feed_loop push_step push_feed_loop push_policy
  by unfold_locales (simp_all add: push_feed_loop_step push_policy_def)

lemma push_feed_cases:
  "(\<exists>e. push_feed d s = (Inl e, s) \<and> pf_closed s) \<or>
   (\<exists>e s'. push_feed d s = (Inl e, s') \<and> \<not> pf_closed s \<and> pf_closed s' \<and> pf_buffer s' = [] \<and>
      (push_policy e \<or> push_step (snd (scan_frames push_step (pf_buffer s @ d))) = Bad e)) \<or>
   (\<exists>rs rest. push_feed d s = (Inr rs, s\<lparr>pf_buffer := rest\<rparr>) \<and> \<not> pf_closed s \<and>
      scan_frames push_step (pf_buffer s @ d) = (rs, rest) \<and> push_step rest = Need)"
proof -
  note sc = push_loop.loop_scan [of 0 "pf_buffer s @ d" "[]", simplified]
  consider "pf_closed s" | "\<not> pf_closed s" "length d > MAX_FRAME_BYTES" | (run) "\<not> pf_closed s" "\<not> length d > MAX_FRAME_BYTES"
    by blast
  then show ?thesis
  proof cases
    case run
    show ?thesis
    proof (cases "push_feed_loop (pf_buffer s @ d) 0 []")
      case (Inl e)
      with run sc show ?thesis by (simp add: push_feed_def Let_def)
    next
      case (Inr x)
      then obtain rs off where "push_feed_loop (pf_buffer s @ d) 0 [] = Inr (rs, off)" by (cases x) auto
      with run sc show ?thesis by (simp add: push_feed_def Let_def prod_eq_iff)
    qed
  qed (simp_all add: push_feed_def push_policy_def push_framer_fail_def)
qed

interpretation push_framer: stream_framer push_step push_feed pf_buffer "\<lambda>s. \<not> pf_closed s" push_policy
proof
  fix d s rs s'
  assume "push_feed d s = (Inr rs, s')"
  with push_feed_cases [of d s] show "scan_frames push_step (pf_buffer s @ d) = (rs, pf_buffer s')"
    "push_step (pf_buffer s') = Need" "\<not> pf_closed s'" by auto
next
  fix d s e s'
  assume "push_feed d s = (Inl e, s')" "\<not> pf_closed s"
  with push_feed_cases [of d s] show "push_policy e \<or> push_step (snd (scan_frames push_step (pf_buffer s @ d))) = Bad e"
    by auto
qed

definition push_frame_ok :: "bytes \<Rightarrow> bool" where
  "push_frame_ok f \<longleftrightarrow> 20 < length f \<and> length f \<le> 0x8400 \<and> f ! 0 = 3 \<and> u16_at f 4 = length f - 20"

lemma push_step_frame: "push_frame_ok f \<Longrightarrow> push_step f = Rec (length f) f"
  by (simp add: push_step_Rec push_frame_ok_def push_size_def)

lemma push_init_Need: "push_step (pf_buffer push_framer_init) = Need" "\<not> pf_closed push_framer_init"
  "pf_buffer push_framer_init = []"
  by (simp_all add: push_framer_init_def push_step_def)

text \<open>
  A stream of well-formed push frames, cut into reads at any places, is
  delivered frame for frame and in order, and end of file is then accepted, unless the
  admission policy refuses a read; with a truncated last frame, end of file is refused
  and the partial frame is discarded.
\<close>
theorem push_stream_delivered:
  assumes "\<forall>f \<in> set frames. push_frame_ok f" "push_frame_ok g" "k < length g"
    "concat chunks = concat frames @ take k g" "feed_all push_feed chunks push_framer_init = (res, s)"
  shows "(res = Inr frames \<and>
     (fst (push_finish s) = (if k = 0 then Inr () else Inl (PushFrameError ''truncated push stream''))) \<and>
     pf_buffer (snd (push_finish s)) = []) \<or>
    res = Inl (PushFrameError ''push read exceeds admission policy'') \<or>
    res = Inl (PushFrameError ''push frame batch exceeds admission policy'')"
proof -
  have need: "push_step (take k g) = Need"
  proof (rule ccontr)
    assume "push_step (take k g) \<noteq> Need"
    from push_step_append [OF this, of "drop k g"] have "push_step (take k g) = Rec (length g) g"
      using push_step_frame [OF assms(2)] by simp
    with push_format.rec_bound [OF this] assms(3) show False by simp
  qed
  have sc: "scan_frames push_step (concat chunks) = (frames, take k g)"
    using push_format.scan_records [of frames "\<lambda>f. f"] push_step_frame assms(1,4)
      push_format.scan_append [of "concat frames" "take k g"] push_format.scan_stop [of "take k g"] need by simp
  show ?thesis
    using push_framer.feed_all_good [of push_framer_init chunks frames "take k g" res s]
      push_framer.feed_all_open [of chunks push_framer_init frames s] sc need push_init_Need assms(3,5)
    by (auto simp: push_policy_def push_finish_def push_framer_fail_def)
qed

definition demo_push_frame :: bytes where
  "demo_push_frame = [3, 0, 0, 0, 1, 0] @ replicate 15 0"

theorem push_stream_delivered_witness:
  "push_frame_ok demo_push_frame \<and>
   (let res = fst (feed_all push_feed [take 7 demo_push_frame, drop 7 demo_push_frame @ [3]] push_framer_init)
    in res = Inr [demo_push_frame] \<or>
       res = Inl (PushFrameError ''push read exceeds admission policy'') \<or>
       res = Inl (PushFrameError ''push frame batch exceeds admission policy''))"
proof -
  have ok: "push_frame_ok demo_push_frame" by (simp add: push_frame_ok_def demo_push_frame_def pyslice_def)
  obtain res s where f: "feed_all push_feed [take 7 demo_push_frame, drop 7 demo_push_frame @ [3]] push_framer_init = (res, s)"
    by fastforce
  have "take 1 demo_push_frame = [3]" "1 < length demo_push_frame" by (simp_all add: demo_push_frame_def)
  with push_stream_delivered [of "[demo_push_frame]" demo_push_frame 1, OF _ ok _ _ f] f ok show ?thesis by auto
qed

end
