(* ===== verification/TcpRelay.thy ===== *)
theory TcpRelay
  imports MediaProtocol
begin

text \<open>
  The envelopes of KCP and meter records on a TCP relay: \<^verbatim>\<open>mtp_tcp_kcp.py\<close> (wrapping and
  unwrapping of KCP frames), \<^verbatim>\<open>mtp_tcp_handshake.py\<close> (pairing request, extended meter) and
  \<^verbatim>\<open>mtp_tcp_ack.py\<close> (meter replies). The lemmas show that an envelope leaves the KCP bytes
  unchanged and that a reply is addressed to the source of its request.
\<close>

section \<open>KCP envelopes\<close>

abbreviation (input) RELAY_RECORD_LIMIT :: nat where "RELAY_RECORD_LIMIT \<equiv> 1500"

definition validate_conversation :: "bytes \<Rightarrow> int \<Rightarrow> exn + unit" where
  "validate_conversation frame conversation =
     (if \<not> (0 \<le> conversation \<and> conversation \<le> 0xFFFFFFFF) then Inl (ValueError ''invalid KCP conversation'')
      else bind_res (parse_kcp_segments frame) (\<lambda>segments.
        if \<exists>segment \<in> set segments. int (sg_conv segment) \<noteq> conversation
        then Inl (ValueError ''KCP record belongs to a different conversation'') else Inr ()))"

definition wrap_tcp_relay_kcp :: "bytes \<Rightarrow> int \<Rightarrow> int \<Rightarrow> int \<Rightarrow> exn + bytes" where
  "wrap_tcp_relay_kcp frame destination_id expected_conversation channel_type =
     (if \<not> (0 \<le> destination_id \<and> destination_id < 2 ^ 64) then Inl (ValueError ''invalid TCP relay destination'')
      else if channel_type \<noteq> 0x85 \<and> channel_type \<noteq> 0x86 then Inl (ValueError ''unsupported TCP relay channel'')
      else if length frame + (if channel_type = 0x86 then 8 else 0) > RELAY_RECORD_LIMIT
      then Inl (ValueError ''TCP relay record exceeds receive limit'')
      else bind_res (validate_conversation frame expected_conversation) (\<lambda>_.
        let payload = drop 6 frame
        in if channel_type = 0x86 then build_mtp_frame 0x60 (le_bytes 8 (nat destination_id) @ payload)
           else build_mtp_frame 0 payload))"

definition unwrap_tcp_relay_kcp :: "bytes \<Rightarrow> int \<Rightarrow> exn + bytes" where
  "unwrap_tcp_relay_kcp frame expected_conversation =
     (if length frame > RELAY_RECORD_LIMIT \<or>
         (pyslice frame 0 2 \<noteq> [0xC0, 0x10] \<and> pyslice frame 0 2 \<noteq> [0xC0, 0x50]) \<or> \<not> verify_mtp_frame frame
      then Inl (ValueError ''invalid inbound TCP relay KCP record'')
      else let offset = (if frame ! 1 = 0x50 then 14 else 6)
      in bind_res (build_mtp_frame 0x10 (drop offset frame)) (\<lambda>normalized.
         bind_res (validate_conversation normalized expected_conversation) (\<lambda>_. Inr normalized)))"

section \<open>Pairing and the extended meter\<close>

record mtp_tcp_meter =
  tm_kind :: nat
  tm_timestamp_ms :: nat

definition parse_mtp_tcp_meter :: "bytes \<Rightarrow> int \<Rightarrow> int \<Rightarrow> int \<Rightarrow> mtp_tcp_meter option" where
  "parse_mtp_tcp_meter frame expected_link_id expected_source_id expected_destination_id =
     (if length frame \<noteq> 82 \<or> pyslice frame 0 2 \<noteq> [0xC0, 0xD0] \<or> \<not> verify_mtp_frame frame then None
      else let body = drop 14 frame
      in if body ! 0 \<noteq> 0 \<or> (body ! 1 \<noteq> 1 \<and> body ! 1 \<noteq> 2) \<or> u16_at body 2 \<noteq> 68 then None
      else if int (u32_at body 4) \<noteq> expected_link_id \<or> int (u64_at body 12) \<noteq> expected_source_id \<or>
              int (u64_at body 20) \<noteq> expected_destination_id then None
      else Some \<lparr>tm_kind = unat (body ! 1), tm_timestamp_ms = u64_at body 32\<rparr>)"

definition build_mtp_tcp_pair_request :: "int \<Rightarrow> int \<Rightarrow> int \<Rightarrow> int \<Rightarrow> exn + bytes" where
  "build_mtp_tcp_pair_request relay_link_id source_id destination_id timestamp_ms =
     (if \<not> (0 \<le> relay_link_id \<and> relay_link_id < 2 ^ 32) \<or> \<not> (0 \<le> source_id \<and> source_id < 2 ^ 64) \<or>
         \<not> (0 \<le> destination_id \<and> destination_id < 2 ^ 64) \<or> \<not> (0 \<le> timestamp_ms \<and> timestamp_ms < 2 ^ 64)
      then Inl (ValueError ''TCP pairing field is outside its unsigned wire width'')
      else let payload = put (replicate 68 0) 1 [1];
               payload = put payload 2 (le_bytes 2 68);
               payload = put payload 4 (le_bytes 4 (nat relay_link_id));
               payload = put payload 12 (le_bytes 8 (nat source_id));
               payload = put payload 20 (le_bytes 8 (nat destination_id));
               payload = put payload 32 (le_bytes 8 (nat timestamp_ms))
           in build_mtp_frame 0x80 payload)"

section \<open>Meter replies\<close>

definition meter_reply :: "bytes \<Rightarrow> bool \<Rightarrow> exn + bytes" where
  "meter_reply request extended =
     (let record_length = u32_at request 52
      in if record_length > 68 \<or> u32_at request 8 AND 0x40 \<noteq> 0
      then Inl (ValueError ''extended TCP meter body is not supported'')
      else let body = put (replicate 68 0) 1 [2];
               body = put body 2 (le_bytes 2 68);
               body = put body 4 (pyslice request 4 8);
               body = put body 12 (pyslice request 20 28);
               body = put body 20 (pyslice request 12 20);
               body = put body 28 (pyslice request 28 40);
               body = put body 48 (pyslice request 48 52);
               body = put body 52 (le_bytes 4 68);
               body = put body 64 [2]
           in if extended then build_mtp_frame 0xE0 (pyslice request 12 20 @ body)
              else let channel = u32_at request 48
                   in build_mtp_frame (if channel = 1 \<or> channel = 2 then 0x90 else 0x80) body)"

definition build_mtp_tcp_meter_ack :: "bytes \<Rightarrow> int \<Rightarrow> int \<Rightarrow> int \<Rightarrow> exn + bytes" where
  "build_mtp_tcp_meter_ack frame expected_link_id expected_source_id expected_destination_id =
     (case parse_mtp_tcp_meter frame expected_link_id expected_source_id expected_destination_id of
        None \<Rightarrow> Inl (ValueError ''not a correlated extended TCP meter request'')
      | Some meter \<Rightarrow>
          if tm_kind meter \<noteq> 1 then Inl (ValueError ''not a correlated extended TCP meter request'')
          else meter_reply (drop 14 frame) True)"

definition build_mtp_tcp_plain_meter_ack :: "bytes \<Rightarrow> int \<Rightarrow> int \<Rightarrow> int \<Rightarrow> exn + bytes" where
  "build_mtp_tcp_plain_meter_ack frame expected_link_id expected_source_id expected_destination_id =
     (case parse_media_meter frame of
        None \<Rightarrow> Inl (ValueError ''not a correlated plain TCP meter request'')
      | Some meter \<Rightarrow>
          if length frame \<noteq> 74 \<or> mm_kind meter \<noteq> 1 \<or> int (mm_link_id meter) \<noteq> expected_link_id \<or>
             int (mm_source_id meter) \<noteq> expected_source_id \<or>
             int (mm_destination_id meter) \<noteq> expected_destination_id \<or> frame ! 6 \<noteq> 0
          then Inl (ValueError ''not a correlated plain TCP meter request'')
          else meter_reply (drop 6 frame) False)"

section \<open>An envelope keeps the KCP bytes\<close>

lemma build_take_2: "build_mtp_frame s p = Inr f \<Longrightarrow> pyslice f 0 2 = [0xC0, of_int s]"
  using build_mtp_frame_bytes [of s p f] by (simp add: pyslice_def take_Suc_conv_app_nth numeral_2_eq_2)

text \<open>
  A KCP frame of the expected conversation that fits a relay record is wrapped
  for channel \<open>0x86\<close> without an error: the record verifies, is addressed to the
  destination, and carries the KCP bytes unchanged. When the relay delivers the same KCP
  bytes behind any eight-byte prefix of its own, unwrapping gives back exactly the
  original frame.
\<close>
theorem tcp_relay_kcp_roundtrip:
  assumes "build_mtp_frame 0x10 kcp = Inr frame" "length kcp \<le> 1486"
    "parse_kcp_segments frame = Inr segs" "\<forall>s \<in> set segs. int (sg_conv s) = conv"
    "0 \<le> conv" "conv \<le> 0xFFFFFFFF" "0 \<le> dest" "dest < 2 ^ 64" "length relay_prefix = 8"
  shows "\<exists>out inbound. wrap_tcp_relay_kcp frame dest conv 0x86 = Inr out \<and> verify_mtp_frame out \<and>
    take 2 out = [0xC0, 0x60] \<and> u64_at out 6 = nat dest \<and> drop 14 out = kcp \<and>
    build_mtp_frame 0x50 (relay_prefix @ kcp) = Inr inbound \<and> unwrap_tcp_relay_kcp inbound conv = Inr frame"
proof -
  note b = build_mtp_frame_bytes [OF assms(1)]
  have k: "24 \<le> length kcp" using assms(1) build_mtp_frame_Inr_iff [of "0x10" kcp] by auto
  have v: "validate_conversation frame conv = Inr ()"
    using assms(3-6) by (simp add: validate_conversation_def)
  obtain out where out: "build_mtp_frame 0x60 (le_bytes 8 (nat dest) @ kcp) = Inr out"
    using k assms(2) build_mtp_frame_Inr_iff [of "0x60" "le_bytes 8 (nat dest) @ kcp"] by auto
  note o = build_mtp_frame_bytes [OF out]
  have wrap: "wrap_tcp_relay_kcp frame dest conv 0x86 = Inr out"
    using out b(1,4) assms(2,7,8) v by (simp add: wrap_tcp_relay_kcp_def)
  have "pyslice out 6 14 = pyslice (drop 6 out) 0 8" by (simp add: slice_drop)
  then have u: "u64_at out 6 = nat dest"
    using o(4) assms(7,8) by (simp add: slice_prefix le_val_le_bytes nat_less_iff)
  have "drop 14 out = drop 8 (drop 6 out)" by simp
  then have d: "drop 14 out = kcp" using o(4) by simp
  obtain inb where inb: "build_mtp_frame 0x50 (relay_prefix @ kcp) = Inr inb"
    using k assms(2,9) build_mtp_frame_Inr_iff [of "0x50" "relay_prefix @ kcp"] by auto
  note i = build_mtp_frame_bytes [OF inb]
  have "drop 14 inb = drop 8 (drop 6 inb)" by simp
  then have "drop 14 inb = kcp" using i(4) assms(9) by simp
  then have "unwrap_tcp_relay_kcp inb conv = Inr frame"
    using build_mtp_frame_verifies [OF inb] build_take_2 [OF inb] i(1,3) assms(1,2,9) v
    by (simp add: unwrap_tcp_relay_kcp_def)
  moreover have "take 2 out = [0xC0, 0x60]" using build_take_2 [OF out] by (simp add: pyslice_def)
  ultimately show ?thesis
    using wrap u inb build_mtp_frame_verifies [OF out] d by auto
qed

definition demo_kcp :: bytes where
  "demo_kcp = kcp_segment_bytes demo_segment"

theorem tcp_relay_kcp_roundtrip_witness:
  "\<exists>frame out inbound. build_mtp_frame 0x10 demo_kcp = Inr frame \<and>
     wrap_tcp_relay_kcp frame 99 7 0x86 = Inr out \<and> drop 14 out = demo_kcp \<and>
     build_mtp_frame 0x50 (replicate 8 1 @ demo_kcp) = Inr inbound \<and> unwrap_tcp_relay_kcp inbound 7 = Inr frame"
proof -
  have l: "length demo_kcp = 27" by (simp add: demo_kcp_def demo_segment_def)
  obtain f where f: "build_mtp_frame 0x10 demo_kcp = Inr f"
    using build_mtp_frame_Inr_iff [of "0x10" demo_kcp] l by auto
  have "parse_kcp_segments f = Inr [demo_segment]"
    by (rule parse_kcp_frame) (use f in \<open>simp_all add: demo_kcp_def kcp_segment_wf_def demo_segment_def\<close>)
  from tcp_relay_kcp_roundtrip [OF f _ this, of 7 99 "replicate 8 1"] l f show ?thesis
    by (auto simp: demo_segment_def)
qed

section \<open>A meter reply answers its request\<close>

lemma meter_reply_body:
  assumes "length request = 68" "u32_at request 52 \<le> 68" "u32_at request 8 AND 0x40 = 0"
  shows "\<exists>body. meter_reply request True = build_mtp_frame 0xE0 (pyslice request 12 20 @ body) \<and> length body = 68 \<and>
    body ! 0 = 0 \<and> body ! 1 = 2 \<and> u16_at body 2 = 68 \<and> pyslice body 4 8 = pyslice request 4 8 \<and>
    pyslice body 12 20 = pyslice request 20 28 \<and> pyslice body 20 28 = pyslice request 12 20 \<and>
    pyslice body 28 40 = pyslice request 28 40"
proof -
  define body where "body = (let body = put (replicate 68 0) 1 [2];
               body = put body 2 (le_bytes 2 68);
               body = put body 4 (pyslice request 4 8);
               body = put body 12 (pyslice request 20 28);
               body = put body 20 (pyslice request 12 20);
               body = put body 28 (pyslice request 28 40);
               body = put body 48 (pyslice request 48 52);
               body = put body 52 (le_bytes 4 68)
           in put body 64 [2])"
  have "meter_reply request True = build_mtp_frame 0xE0 (pyslice request 12 20 @ body)"
    using assms by (simp add: meter_reply_def body_def Let_def)
  moreover have "length body = 68" "body ! 0 = 0" "body ! 1 = 2" "u16_at body 2 = 68"
    "pyslice body 4 8 = pyslice request 4 8" "pyslice body 12 20 = pyslice request 20 28"
    "pyslice body 20 28 = pyslice request 12 20" "pyslice body 28 40 = pyslice request 28 40"
    using assms(1) by (simp_all add: body_def Let_def put_fields)
  ultimately show ?thesis by blast
qed

text \<open>
  The reply to a correlated extended meter request, when the request is of the
  supported form, is built without an error and is routed to the request's source: its
  route prefix is the source id; its body is a kind-2 record with source and
  destination exchanged that echoes link id, sequence and the 64-bit time stamp.
\<close>
theorem mtp_tcp_meter_ack_answers:
  assumes "parse_mtp_tcp_meter frame link source dest = Some meter" "tm_kind meter = 1"
    "u32_at (drop 14 frame) 52 \<le> 68" "u32_at (drop 14 frame) 8 AND 0x40 = 0"
  shows "\<exists>ack. build_mtp_tcp_meter_ack frame link source dest = Inr ack \<and> verify_mtp_frame ack \<and>
    length ack = 82 \<and> take 2 ack = [0xC0, 0xE0] \<and> int (u64_at ack 6) = source \<and>
    unat (drop 14 ack ! 1) = 2 \<and> int (u32_at (drop 14 ack) 4) = link \<and> int (u64_at (drop 14 ack) 12) = dest \<and>
    int (u64_at (drop 14 ack) 20) = source \<and>
    pyslice (drop 14 ack) 28 40 = pyslice (drop 14 frame) 28 40 \<and> u64_at (drop 14 ack) 32 = tm_timestamp_ms meter"
proof -
  let ?q = "drop 14 frame"
  have p: "length frame = 82" "int (u32_at ?q 4) = link" "int (u64_at ?q 12) = source" "int (u64_at ?q 20) = dest"
    "tm_timestamp_ms meter = u64_at ?q 32"
    using assms(1) by (auto simp: parse_mtp_tcp_meter_def Let_def split: if_splits)
  then obtain body where body: "meter_reply ?q True = build_mtp_frame 0xE0 (pyslice ?q 12 20 @ body)" "length body = 68"
    "body ! 1 = 2" "pyslice body 4 8 = pyslice ?q 4 8" "pyslice body 12 20 = pyslice ?q 20 28"
    "pyslice body 20 28 = pyslice ?q 12 20" "pyslice body 28 40 = pyslice ?q 28 40"
    using meter_reply_body [of ?q] assms(3,4) by auto
  have l8: "length (pyslice ?q 12 20) = 8" using p(1) by simp
  obtain ack where ack: "build_mtp_frame 0xE0 (pyslice ?q 12 20 @ body) = Inr ack"
    using build_mtp_frame_Inr_iff [of "0xE0" "pyslice ?q 12 20 @ body"] body(2) l8 by auto
  note a = build_mtp_frame_bytes [OF ack]
  have "pyslice ack 6 14 = pyslice (drop 6 ack) 0 8" "drop 14 ack = drop 8 (drop 6 ack)" by (simp_all add: slice_drop)
  then have r: "pyslice ack 6 14 = pyslice ?q 12 20" "drop 14 ack = body"
    unfolding a(4) using l8 by (simp_all add: slice_prefix)
  have ts: "pyslice body 32 40 = pyslice ?q 32 40"
    using body(7) slice_slice [of 12 40 28 body 4] slice_slice [of 12 40 28 ?q 4] by simp
  have "build_mtp_tcp_meter_ack frame link source dest = Inr ack"
    using assms(1,2) body(1) ack by (simp add: build_mtp_tcp_meter_ack_def)
  then show ?thesis
    using r p body ts a(1) l8 build_mtp_frame_verifies [OF ack] build_take_2 [OF ack]
    by (intro exI [of _ ack]) (simp add: pyslice_def [of ack 0 2] del: length_slice)
qed

definition demo_meter_body :: bytes where
  "demo_meter_body = [0, 1, 68, 0, 5, 0, 0, 0, 0, 0, 0, 0, 6, 0, 0, 0, 0, 0, 0, 0, 7, 0, 0, 0, 0, 0, 0, 0] @ replicate 40 0"

theorem mtp_tcp_meter_ack_answers_witness:
  "\<exists>frame meter ack. parse_mtp_tcp_meter frame 5 6 7 = Some meter \<and> tm_kind meter = 1 \<and>
     build_mtp_tcp_meter_ack frame 5 6 7 = Inr ack \<and> verify_mtp_frame ack \<and> u64_at ack 6 = 6"
proof -
  obtain f where f: "build_mtp_frame 0xD0 (replicate 8 9 @ demo_meter_body) = Inr f"
    using build_mtp_frame_Inr_iff [of "0xD0" "replicate 8 9 @ demo_meter_body"] by (auto simp: demo_meter_body_def)
  note b = build_mtp_frame_bytes [OF f]
  have "drop 14 f = drop 8 (drop 6 f)" by simp
  then have d: "drop 14 f = demo_meter_body" unfolding b(4) by simp
  have p: "parse_mtp_tcp_meter f 5 6 7 = Some \<lparr>tm_kind = 1, tm_timestamp_ms = 0\<rparr>"
    using build_take_2 [OF f] build_mtp_frame_verifies [OF f] b(1)
    by (simp add: parse_mtp_tcp_meter_def d) (simp add: demo_meter_body_def pyslice_def)
  have "u32_at (drop 14 f) 52 \<le> 68" "u32_at (drop 14 f) 8 AND 0x40 = 0"
    unfolding d by (simp_all add: demo_meter_body_def pyslice_def)
  from mtp_tcp_meter_ack_answers [OF p _ this] obtain ack where
    "build_mtp_tcp_meter_ack f 5 6 7 = Inr ack" "verify_mtp_frame ack" "int (u64_at ack 6) = 6" by auto
  with p show ?thesis by (intro exI [of _ f] exI [of _ "\<lparr>tm_kind = 1, tm_timestamp_ms = 0\<rparr>"] exI [of _ ack]) simp
qed

end
