(* ===== verification/Quicklz.thy ===== *)
theory Quicklz
  imports Prelude
begin

text \<open>
  The QuickLZ level-2 decoder of \<^verbatim>\<open>quicklz.py\<close>. Every access of the code is checked: an
  index into the block, the output or the hash tables that is out of range is an \<open>IndexError\<close>
  branch of the model and an unpacking past the end of the block a \<open>StructError\<close> branch; the
  lemmas show that no input reaches one, that the decoder terminates (it is a total function), and that
  what it returns has exactly the advertised length.
\<close>

abbreviation (input) QLZ_HASH_VALUES :: nat where "QLZ_HASH_VALUES \<equiv> 2048"
abbreviation (input) QLZ_HASH_SLOTS :: nat where "QLZ_HASH_SLOTS \<equiv> 4"
abbreviation (input) QLZ_MAX_OUTPUT :: nat where "QLZ_MAX_OUTPUT \<equiv> 0x7FFF"

text \<open>Indexing and \<^verbatim>\<open>struct.unpack_from\<close> with the formats \<^verbatim>\<open><H\<close> and \<^verbatim>\<open><I\<close>.\<close>

definition byte_at :: "bytes \<Rightarrow> nat \<Rightarrow> exn + byte" where
  "byte_at source i = (if i < length source then Inr (source ! i) else Inl IndexError)"

definition unpack_u16 :: "bytes \<Rightarrow> nat \<Rightarrow> exn + nat" where
  "unpack_u16 source i = (if i + 2 \<le> length source then Inr (u16_at source i) else Inl StructError)"

definition unpack_u32 :: "bytes \<Rightarrow> nat \<Rightarrow> exn + nat" where
  "unpack_u32 source i = (if i + 4 \<le> length source then Inr (u32_at source i) else Inl StructError)"

definition block_sizes :: "bytes \<Rightarrow> exn + nat \<times> nat \<times> nat" where
  "block_sizes source =
     (if length source < 3 then Inl (ValueError ''QuickLZ block is truncated'')
      else bind_res (byte_at source 0) (\<lambda>flags.
      let header_length = (if flags AND 2 \<noteq> 0 then 9 else 3)
      in if length source < header_length then Inl (ValueError ''QuickLZ header is truncated'')
      else bind_res (if header_length = 9
                     then bind_res (unpack_u32 source 1) (\<lambda>c. bind_res (unpack_u32 source 5) (\<lambda>n. Inr (c, n)))
                     else bind_res (byte_at source 1) (\<lambda>c. bind_res (byte_at source 2) (\<lambda>n. Inr (unat c, unat n))))
        (\<lambda>(compressed_length, output_length).
         if compressed_length \<noteq> length source
         then Inl (ValueError ''QuickLZ compressed length does not match the block'')
         else if \<not> (0 < output_length \<and> output_length \<le> QLZ_MAX_OUTPUT)
         then Inl (ValueError ''QuickLZ output length is outside the resource-service limit'')
         else Inr (header_length, compressed_length, output_length))))"

definition hash_at :: "bytes \<Rightarrow> nat \<Rightarrow> exn + nat" where
  "hash_at output position =
     (if position + 2 < length output then
        let value = unat (output ! position) OR push_bit 8 (unat (output ! (position + 1))) OR
                    push_bit 16 (unat (output ! (position + 2)))
        in Inr ((drop_bit 9 value XOR drop_bit 13 value XOR value) AND (QLZ_HASH_VALUES - 1))
      else Inl IndexError)"

text \<open>
  The decoder's locals. The two hash tables have 2048 rows, the first with 4 slots each; they
  are functions here, and the operations on them check the bounds of the lists.
\<close>

record qlz_state =
  qz_cursor :: nat
  qz_control :: nat
  qz_output :: bytes
  qz_positions :: "nat \<Rightarrow> nat \<Rightarrow> nat option"
  qz_counts :: "nat \<Rightarrow> nat"
  qz_last_hashed :: int

definition qlz_record :: "nat \<Rightarrow> qlz_state \<Rightarrow> exn + qlz_state" where
  "qlz_record hashed st =
     (let count = qz_counts st hashed; slot = count AND (QLZ_HASH_SLOTS - 1)
      in if hashed < QLZ_HASH_VALUES \<and> slot < QLZ_HASH_SLOTS
         then Inr (st\<lparr>qz_positions := (qz_positions st)(hashed := (qz_positions st hashed)(slot := Some (nat (qz_last_hashed st)))),
                      qz_counts := (qz_counts st)(hashed := (count + 1) AND 0xFF)\<rparr>)
         else Inl IndexError)"

definition qlz_lookup :: "nat \<Rightarrow> nat \<Rightarrow> qlz_state \<Rightarrow> exn + nat option" where
  "qlz_lookup hashed slot st =
     (if hashed < QLZ_HASH_VALUES \<and> slot < QLZ_HASH_SLOTS then Inr (qz_positions st hashed slot) else Inl IndexError)"

lemma qlz_record_keeps:
  "qlz_record h st = Inr st' \<Longrightarrow> qz_output st' = qz_output st \<and> qz_cursor st' = qz_cursor st \<and>
     qz_control st' = qz_control st \<and> qz_last_hashed st' = qz_last_hashed st"
  by (auto simp: qlz_record_def Let_def split: if_splits)

function qlz_hash_loop :: "int \<Rightarrow> qlz_state \<Rightarrow> exn + qlz_state" where
  "qlz_hash_loop through st =
     (if qz_last_hashed st < through then
        let st = st\<lparr>qz_last_hashed := qz_last_hashed st + 1\<rparr>
        in bind_res (hash_at (qz_output st) (nat (qz_last_hashed st)))
             (\<lambda>hashed. bind_res (qlz_record hashed st) (qlz_hash_loop through))
      else Inr st)"
  by pat_completeness auto
termination
  by (relation "measure (\<lambda>(through, st). nat (through - qz_last_hashed st))") (auto dest!: qlz_record_keeps)

declare qlz_hash_loop.simps [simp del]

definition update_hashes :: "int \<Rightarrow> qlz_state \<Rightarrow> exn + qlz_state" where
  "update_hashes through st =
     (if through \<ge> int (length (qz_output st)) - 2
      then Inl (ValueError ''QuickLZ hash update exceeds available output'')
      else qlz_hash_loop through st)"

fun copy_match :: "bytes \<Rightarrow> nat \<Rightarrow> nat \<Rightarrow> exn + bytes" where
  "copy_match output reference 0 = Inr output"
| "copy_match output reference (Suc n) =
     (if reference < length output then copy_match (output @ [output ! reference]) (reference + 1) n
      else Inl IndexError)"

definition qlz_reload :: "bytes \<Rightarrow> nat \<Rightarrow> qlz_state \<Rightarrow> exn + qlz_state" where
  "qlz_reload source compressed_length st =
     (if qz_control st = 1 then
        if qz_cursor st + 4 > compressed_length then Inl (ValueError ''QuickLZ control word is truncated'')
        else bind_res (unpack_u32 source (qz_cursor st)) (\<lambda>control.
          if control AND 0x80000000 = 0 then Inl (ValueError ''QuickLZ control word has no sentinel'')
          else Inr (st\<lparr>qz_control := control, qz_cursor := qz_cursor st + 4\<rparr>))
      else Inr st)"

text \<open>A back reference: the token gives slot, hash, length and the cursor after it.\<close>

definition qlz_token :: "bytes \<Rightarrow> nat \<Rightarrow> nat \<Rightarrow> exn + nat \<times> nat \<times> nat \<times> nat" where
  "qlz_token source compressed_length cursor =
     (if cursor + 2 > compressed_length then Inl (ValueError ''QuickLZ reference is truncated'')
      else bind_res (unpack_u16 source cursor) (\<lambda>token.
        let slot = token AND 3;
            hashed = drop_bit 5 token AND (QLZ_HASH_VALUES - 1);
            encoded_length = drop_bit 2 token AND 7
        in if encoded_length \<noteq> 0 then Inr (slot, hashed, encoded_length + 2, cursor + 2)
           else if cursor + 3 > compressed_length then Inl (ValueError ''QuickLZ long reference is truncated'')
           else bind_res (byte_at source (cursor + 2)) (\<lambda>match_length.
             if unat match_length < 3 then Inl (ValueError ''QuickLZ long reference is too short'')
             else Inr (slot, hashed, unat match_length, cursor + 3))))"

definition qlz_copy :: "nat \<Rightarrow> nat option \<Rightarrow> nat \<Rightarrow> qlz_state \<Rightarrow> exn + qlz_state" where
  "qlz_copy output_length reference match_length st =
     (let match_start = length (qz_output st)
      in case reference of
        None \<Rightarrow> Inl (ValueError ''QuickLZ reference points outside decoded history'')
      | Some reference \<Rightarrow>
        if reference \<ge> match_start
        then Inl (ValueError ''QuickLZ reference points outside decoded history'')
        else if match_start + match_length > output_length
        then Inl (ValueError ''QuickLZ reference exceeds advertised output'')
        else bind_res (copy_match (qz_output st) reference match_length) (\<lambda>output.
          let st = st\<lparr>qz_output := output\<rparr>
          in bind_res (if qz_last_hashed st < int match_start then update_hashes (int match_start) st else Inr st)
               (\<lambda>st. Inr (st\<lparr>qz_last_hashed := int (length (qz_output st)) - 1\<rparr>))))"

definition qlz_reference :: "bytes \<Rightarrow> nat \<Rightarrow> nat \<Rightarrow> qlz_state \<Rightarrow> exn + qlz_state" where
  "qlz_reference source compressed_length output_length st =
     bind_res (qlz_token source compressed_length (qz_cursor st)) (\<lambda>(slot, hashed, match_length, cursor).
     bind_res (qlz_lookup hashed slot st) (\<lambda>reference.
       qlz_copy output_length reference match_length (st\<lparr>qz_cursor := cursor\<rparr>)))"

definition qlz_literal :: "bytes \<Rightarrow> nat \<Rightarrow> qlz_state \<Rightarrow> exn + qlz_state" where
  "qlz_literal source compressed_length st =
     (if qz_cursor st \<ge> compressed_length then Inl (ValueError ''QuickLZ literal is truncated'')
      else bind_res (byte_at source (qz_cursor st)) (\<lambda>b.
        let st = st\<lparr>qz_output := qz_output st @ [b], qz_cursor := qz_cursor st + 1\<rparr>;
            through = int (length (qz_output st)) - 3
        in if qz_last_hashed st < through then update_hashes through st else Inr st))"

definition qlz_step :: "bytes \<Rightarrow> nat \<Rightarrow> nat \<Rightarrow> qlz_state \<Rightarrow> exn + qlz_state" where
  "qlz_step source compressed_length output_length st =
     bind_res (qlz_reload source compressed_length st) (\<lambda>st.
     bind_res (if qz_control st AND 1 \<noteq> 0 then qlz_reference source compressed_length output_length st
               else qlz_literal source compressed_length st) (\<lambda>st.
     Inr (st\<lparr>qz_control := drop_bit 1 (qz_control st)\<rparr>)))"

lemma qlz_hash_loop_keeps:
  "qlz_hash_loop through st = Inr st' \<Longrightarrow> qz_output st' = qz_output st \<and> qz_cursor st' = qz_cursor st \<and>
     qz_control st' = qz_control st"
proof (induction through st rule: qlz_hash_loop.induct)
  case (1 through st)
  show ?case
  proof (cases "qz_last_hashed st < through")
    case True
    let ?st = "st\<lparr>qz_last_hashed := qz_last_hashed st + 1\<rparr>"
    obtain h st1 where r: "hash_at (qz_output ?st) (nat (qz_last_hashed ?st)) = Inr h" "qlz_record h ?st = Inr st1"
      "qlz_hash_loop through st1 = Inr st'"
      using "1.prems" True by (auto simp: qlz_hash_loop.simps [of through st] Let_def bind_res_Inr)
    from "1.IH" [OF True refl r] qlz_record_keeps [OF r(2)] show ?thesis by simp
  next
    case False
    with "1.prems" show ?thesis by (simp add: qlz_hash_loop.simps [of through st])
  qed
qed

lemma update_hashes_keeps:
  "update_hashes through st = Inr st' \<Longrightarrow> qz_output st' = qz_output st \<and> qz_cursor st' = qz_cursor st \<and>
     qz_control st' = qz_control st"
  by (auto simp: update_hashes_def qlz_hash_loop_keeps split: if_splits)

lemma copy_match_length: "copy_match out ref n = Inr out' \<Longrightarrow> length out' = length out + n"
  by (induction out ref n rule: copy_match.induct) (auto split: if_splits)

lemma qlz_literal_grows:
  "qlz_literal source cl st = Inr st' \<Longrightarrow> length (qz_output st') = length (qz_output st) + 1"
  by (auto simp: qlz_literal_def Let_def bind_res_Inr dest!: update_hashes_keeps split: if_splits)

lemma nat_and_masks: "(n :: nat) AND 2047 < 2048" "(n :: nat) AND 3 < 4"
proof -
  have "n AND 2047 = take_bit 11 n" "n AND 3 = take_bit 2 n" by (simp_all add: take_bit_eq_mask mask_eq_exp_minus_1)
  then show "n AND 2047 < 2048" "n AND 3 < 4" using take_bit_nat_less_exp [of 11 n] take_bit_nat_less_exp [of 2 n] by simp_all
qed

lemma qlz_token_fields:
  "qlz_token source cl cur = Inr (slot, h, ml, cur') \<Longrightarrow> 3 \<le> ml \<and> slot < 4 \<and> h < 2048"
  by (auto simp: qlz_token_def Let_def bind_res_Inr nat_and_masks split: if_splits)

lemma qlz_copy_length:
  assumes "qlz_copy ol ref ml st = Inr st'"
  shows "length (qz_output st') = length (qz_output st) + ml \<and> length (qz_output st) + ml \<le> ol"
  using assms
  by (auto simp: qlz_copy_def Let_def bind_res_Inr dest!: copy_match_length update_hashes_keeps
      split: if_splits option.splits)

lemma qlz_reference_grows:
  assumes "qlz_reference source cl ol st = Inr st'"
  shows "length (qz_output st) < length (qz_output st') \<and> length (qz_output st') \<le> ol"
proof -
  obtain slot h ml cur where t: "qlz_token source cl (qz_cursor st) = Inr (slot, h, ml, cur)"
    "qlz_copy ol (qz_positions st h slot) ml (st\<lparr>qz_cursor := cur\<rparr>) = Inr st'"
    using assms by (auto simp: qlz_reference_def qlz_lookup_def bind_res_Inr split: if_splits)
  from qlz_copy_length [OF t(2)] qlz_token_fields [OF t(1)] show ?thesis by simp
qed

lemma qlz_reload_keeps: "qlz_reload source cl st = Inr st' \<Longrightarrow> qz_output st' = qz_output st"
  by (auto simp: qlz_reload_def bind_res_Inr split: if_splits)

lemma qlz_step_grows:
  assumes "qlz_step source cl ol st = Inr st'"
  shows "length (qz_output st) < length (qz_output st') \<and>
    (length (qz_output st) < ol \<longrightarrow> length (qz_output st') \<le> ol)"
proof -
  obtain st1 st2 where s: "qlz_reload source cl st = Inr st1"
    "(if qz_control st1 AND 1 \<noteq> 0 then qlz_reference source cl ol st1 else qlz_literal source cl st1) = Inr st2"
    "st' = st2\<lparr>qz_control := drop_bit 1 (qz_control st2)\<rparr>"
    using assms by (auto simp: qlz_step_def bind_res_Inr)
  show ?thesis
  proof (cases "qz_control st1 AND 1 \<noteq> 0")
    case True
    from s(2) [unfolded if_P [OF True]] have "qlz_reference source cl ol st1 = Inr st2" .
    from qlz_reference_grows [OF this] qlz_reload_keeps [OF s(1)] s(3) show ?thesis by simp
  next
    case False
    from s(2) [unfolded if_not_P [OF False]] have "qlz_literal source cl st1 = Inr st2" .
    from qlz_literal_grows [OF this] qlz_reload_keeps [OF s(1)] s(3) show ?thesis by simp
  qed
qed

text \<open>Every iteration adds output, so the loop ends.\<close>

function qlz_loop :: "bytes \<Rightarrow> nat \<Rightarrow> nat \<Rightarrow> qlz_state \<Rightarrow> exn + qlz_state" where
  "qlz_loop source compressed_length output_length st =
     (if length (qz_output st) < output_length
      then bind_res (qlz_step source compressed_length output_length st)
             (qlz_loop source compressed_length output_length)
      else Inr st)"
  by pat_completeness auto
termination
  by (relation "measure (\<lambda>(source, cl, ol, st). ol - length (qz_output st))")
     (auto dest!: qlz_step_grows)

declare qlz_loop.simps [simp del]

definition decompress_level2 :: "bytes \<Rightarrow> int \<Rightarrow> exn + bytes" where
  "decompress_level2 source expected_length =
     bind_res (block_sizes source) (\<lambda>(header_length, compressed_length, output_length).
       if expected_length \<noteq> int output_length
       then Inl (ValueError ''QuickLZ header length does not match the gute frame'')
       else bind_res (byte_at source 0) (\<lambda>flags.
       if drop_bit 2 flags AND 3 \<noteq> 2 then Inl (ValueError ''QuickLZ block is not compression level 2'')
       else if flags AND 1 = 0 then
         let payload = drop header_length source
         in if length payload \<noteq> output_length
            then Inl (ValueError ''uncompressed QuickLZ payload length is invalid'') else Inr payload
       else bind_res (qlz_loop source compressed_length output_length
              \<lparr>qz_cursor = header_length, qz_control = 1, qz_output = [], qz_positions = \<lambda>_ _. None,
               qz_counts = \<lambda>_. 0, qz_last_hashed = -1\<rparr>) (\<lambda>st.
         let trailing = pyslice source (qz_cursor st) compressed_length
         in if length trailing > 4 \<or> (\<exists>b \<in> set trailing. b \<noteq> 0)
            then Inl (ValueError ''QuickLZ block has trailing data'') else Inr (qz_output st))))"

section \<open>No input reaches an index error\<close>

definition qlz_inv :: "qlz_state \<Rightarrow> bool" where
  "qlz_inv st \<longleftrightarrow> -1 \<le> qz_last_hashed st \<and>
     (\<forall>h slot p. qz_positions st h slot = Some p \<longrightarrow> p + 2 < length (qz_output st))"

text \<open>The errors a caller of the decoder can see.\<close>

definition qlz_clean :: "exn \<Rightarrow> bool" where
  "qlz_clean e \<longleftrightarrow> (\<exists>m. e = ValueError m \<and> m \<noteq> ''QuickLZ hash update exceeds available output'')"

lemma qlz_hash_loop_ok:
  "qlz_inv st \<Longrightarrow> through + 2 < int (length (qz_output st)) \<Longrightarrow> \<exists>st'. qlz_hash_loop through st = Inr st' \<and> qlz_inv st'"
proof (induction through st rule: qlz_hash_loop.induct)
  case (1 through st)
  show ?case
  proof (cases "qz_last_hashed st < through")
    case True
    let ?st = "st\<lparr>qz_last_hashed := qz_last_hashed st + 1\<rparr>"
    have l: "-1 \<le> qz_last_hashed st" using "1.prems"(1) by (simp add: qlz_inv_def)
    have b: "nat (qz_last_hashed ?st) + 2 < length (qz_output ?st)" using True "1.prems"(2) l by auto
    then obtain h where h: "hash_at (qz_output ?st) (nat (qz_last_hashed ?st)) = Inr h" "h < 2048"
      by (auto simp: hash_at_def Let_def nat_and_masks)
    then obtain st1 where r: "qlz_record h ?st = Inr st1" by (auto simp: qlz_record_def Let_def nat_and_masks)
    have "qlz_inv st1" using "1.prems"(1) b r by (auto simp: qlz_inv_def qlz_record_def Let_def split: if_splits)
    moreover have "qz_output st1 = qz_output st" using qlz_record_keeps [OF r] by simp
    ultimately show ?thesis using "1.IH" [OF True refl h(1) r] "1.prems"(2) True h(1) r
      by (simp add: qlz_hash_loop.simps [of through st] Let_def)
  next
    case False
    with "1.prems" show ?thesis by (simp add: qlz_hash_loop.simps [of through st])
  qed
qed

lemma copy_match_ok: "ref < length out \<Longrightarrow> \<exists>out'. copy_match out ref n = Inr out'"
  by (induction out ref n rule: copy_match.induct) auto

lemma qlz_inv_grow: "qlz_inv st \<Longrightarrow> length (qz_output st) \<le> length out \<Longrightarrow> qlz_inv (st\<lparr>qz_output := out\<rparr>)"
  by (fastforce simp: qlz_inv_def)

lemma qlz_inv_fields [simp]:
  "qlz_inv (st\<lparr>qz_cursor := c\<rparr>) = qlz_inv st" "qlz_inv (st\<lparr>qz_control := k\<rparr>) = qlz_inv st"
  by (simp_all add: qlz_inv_def)

lemma qlz_copy_ok:
  assumes "qlz_inv st" "3 \<le> ml"
  shows "(\<exists>e. qlz_copy ol ref ml st = Inl e \<and> qlz_clean e) \<or> (\<exists>st'. qlz_copy ol ref ml st = Inr st' \<and> qlz_inv st')"
proof (cases "\<exists>p. ref = Some p \<and> p < length (qz_output st) \<and> length (qz_output st) + ml \<le> ol")
  case True
  then obtain p where p: "ref = Some p" "p < length (qz_output st)" "length (qz_output st) + ml \<le> ol" by blast
  obtain out where out: "copy_match (qz_output st) p ml = Inr out" using copy_match_ok [OF p(2)] by blast
  let ?st = "st\<lparr>qz_output := out\<rparr>"
  note l = copy_match_length [OF out]
  have i: "qlz_inv ?st" using assms(1) l by (intro qlz_inv_grow) auto
  obtain st1 where u: "update_hashes (int (length (qz_output st))) ?st = Inr st1" "qlz_inv st1"
    using qlz_hash_loop_ok [OF i, of "int (length (qz_output st))"] l assms(2) by (auto simp: update_hashes_def)
  have "qlz_inv (s\<lparr>qz_last_hashed := int n - 1\<rparr>)" if "qlz_inv s" for s n using that by (simp add: qlz_inv_def)
  with p out u i show ?thesis by (simp add: qlz_copy_def Let_def)
next
  case False
  then show ?thesis by (cases ref) (auto simp: qlz_copy_def qlz_clean_def Let_def not_le)
qed

text \<open>A computation that either fails cleanly or returns a state that keeps the invariant.\<close>

definition qlz_safe :: "exn + qlz_state \<Rightarrow> bool" where
  "qlz_safe r = (case r of Inl e \<Rightarrow> qlz_clean e | Inr st \<Rightarrow> qlz_inv st)"

lemma qlz_safe_bind: "qlz_safe r \<Longrightarrow> (\<And>st. r = Inr st \<Longrightarrow> qlz_inv st \<Longrightarrow> qlz_safe (f st)) \<Longrightarrow> qlz_safe (bind_res r f)"
  by (cases r) (auto simp: qlz_safe_def)

lemma qlz_reload_safe: "qlz_inv st \<Longrightarrow> qlz_safe (qlz_reload source (length source) st)"
  by (auto simp: qlz_reload_def unpack_u32_def qlz_safe_def qlz_clean_def qlz_inv_def Let_def)

lemma qlz_literal_safe:
  assumes "qlz_inv st"
  shows "qlz_safe (qlz_literal source (length source) st)"
proof (cases "length source \<le> qz_cursor st")
  case True
  then show ?thesis by (simp add: qlz_literal_def qlz_safe_def qlz_clean_def)
next
  case False
  define st1 where "st1 = st\<lparr>qz_output := qz_output st @ [source ! qz_cursor st], qz_cursor := qz_cursor st + 1\<rparr>"
  have i: "qlz_inv st1" unfolding st1_def using qlz_inv_grow [OF assms, of "qz_output st @ [source ! qz_cursor st]"] by simp
  have "qlz_safe (update_hashes (int (length (qz_output st1)) - 3) st1)"
    using qlz_hash_loop_ok [OF i, of "int (length (qz_output st1)) - 3"] by (auto simp: update_hashes_def qlz_safe_def)
  moreover have "qlz_literal source (length source) st = (if qz_last_hashed st1 < int (length (qz_output st1)) - 3
      then update_hashes (int (length (qz_output st1)) - 3) st1 else Inr st1)"
    using False by (simp add: qlz_literal_def byte_at_def st1_def Let_def)
  ultimately show ?thesis using i by (simp add: qlz_safe_def)
qed

lemma qlz_token_clean: "qlz_token source (length source) cursor = Inl e \<Longrightarrow> qlz_clean e"
  by (auto simp: qlz_token_def qlz_clean_def unpack_u16_def byte_at_def Let_def split: if_splits)

lemma qlz_reference_safe:
  assumes "qlz_inv st"
  shows "qlz_safe (qlz_reference source (length source) ol st)"
proof (cases "qlz_token source (length source) (qz_cursor st)")
  case (Inl e)
  with qlz_token_clean [OF Inl] show ?thesis by (simp add: qlz_reference_def qlz_safe_def)
next
  case (Inr x)
  then obtain slot h ml cur where x: "x = (slot, h, ml, cur)" by (cases x) auto
  note f = qlz_token_fields [OF Inr [unfolded x]]
  have "qlz_inv (st\<lparr>qz_cursor := cur\<rparr>)" using assms by simp
  from qlz_copy_ok [OF this, of ml ol "qz_positions st h slot"] f
  show ?thesis using Inr x by (auto simp: qlz_reference_def qlz_lookup_def qlz_safe_def)
qed

lemma qlz_step_safe: "qlz_inv st \<Longrightarrow> qlz_safe (qlz_step source (length source) ol st)"
  unfolding qlz_step_def
  by (rule qlz_safe_bind [OF qlz_reload_safe], assumption,
      rule qlz_safe_bind, simp add: qlz_literal_safe qlz_reference_safe, simp add: qlz_safe_def)

lemma qlz_loop_safe:
  "cl = length source \<Longrightarrow> qlz_inv st \<Longrightarrow> length (qz_output st) \<le> ol \<Longrightarrow>
   qlz_safe (qlz_loop source cl ol st) \<and> (\<forall>st'. qlz_loop source cl ol st = Inr st' \<longrightarrow> length (qz_output st') = ol)"
proof (induction source cl ol st rule: qlz_loop.induct)
  case (1 source cl ol st)
  show ?case
  proof (cases "length (qz_output st) < ol")
    case True
    note s = qlz_step_safe [OF "1.prems"(2), of source ol, folded "1.prems"(1)]
    show ?thesis
    proof (cases "qlz_step source cl ol st")
      case (Inl e)
      with True s show ?thesis by (simp add: qlz_loop.simps [of source cl ol st] qlz_safe_def)
    next
      case (Inr st')
      with s qlz_step_grows [OF Inr] True have "qlz_inv st'" "length (qz_output st') \<le> ol"
        by (simp_all add: qlz_safe_def)
      from "1.IH" [OF True Inr "1.prems"(1) this] True Inr show ?thesis by (simp add: qlz_loop.simps [of source cl ol st])
    qed
  next
    case False
    then have "qlz_loop source cl ol st = Inr st" by (simp add: qlz_loop.simps [of source cl ol st])
    with False "1.prems" show ?thesis by (simp add: qlz_safe_def)
  qed
qed

lemma block_sizes_clean:
  "block_sizes source = Inl e \<Longrightarrow> qlz_clean e"
  by (auto simp: block_sizes_def qlz_clean_def byte_at_def unpack_u32_def Let_def split: if_splits)

lemma block_sizes_bounds: "block_sizes source = Inr (h, cl, ol) \<Longrightarrow> 0 < ol \<and> ol \<le> 0x7FFF \<and> cl = length source \<and> 3 \<le> length source"
  by (auto simp: block_sizes_def Let_def bind_res_Inr split: if_splits)

text \<open>
  C18. Memory safety of the decoder: for every block and every expected length it
  terminates, and either returns an output of exactly the expected length (at most 32767
  bytes) or raises one of its own validation errors; an index out of range of the block, of
  the output or of a hash table, an unpacking past the end of the block, and the hash-table
  consistency error cannot happen.
\<close>
theorem decompress_level2_safe:
  "case decompress_level2 source expected_length of
     Inr output \<Rightarrow> int (length output) = expected_length \<and> 0 < length output \<and> length output \<le> 0x7FFF
   | Inl e \<Rightarrow> \<exists>m. e = ValueError m \<and> m \<noteq> ''QuickLZ hash update exceeds available output''"
proof (cases "block_sizes source")
  case (Inl e)
  then show ?thesis using block_sizes_clean [OF Inl] by (simp add: decompress_level2_def qlz_clean_def)
next
  case (Inr x)
  then obtain h cl ol where x: "block_sizes source = Inr (h, cl, ol)" by (cases x) auto
  let ?st = "\<lparr>qz_cursor = h, qz_control = 1, qz_output = [], qz_positions = \<lambda>_ _. None,
               qz_counts = \<lambda>_. 0, qz_last_hashed = -1\<rparr>"
  have i: "qlz_inv ?st" by (simp add: qlz_inv_def)
  note bs = block_sizes_bounds [OF x]
  have flags: "byte_at source 0 = Inr (source ! 0)" using bs by (auto simp: byte_at_def)
  note l = qlz_loop_safe [OF _ i, of cl source ol]
  show ?thesis
  proof (cases "qlz_loop source cl ol ?st")
    case (Inl e)
    with l bs have "qlz_clean e" by (simp add: qlz_safe_def)
    with Inl x bs flags show ?thesis
      by (auto simp: decompress_level2_def qlz_clean_def Let_def split: if_splits)
  next
    case (Inr st)
    with l bs have "length (qz_output st) = ol" by simp
    with Inr x bs flags show ?thesis
      by (auto simp: decompress_level2_def Let_def split: if_splits)
  qed
qed

end
