(* ===== verification/StreamProtocol.thy ===== *)
theory StreamProtocol
  imports GuteFrame Framing
begin

text \<open>
  The StreamPipe records of \<^verbatim>\<open>stream_protocol.py\<close> (encrypted TLVs, built-in commands, V1
  user data, encoding headers and audio packets) and the incremental V1 receiver of
  \<^verbatim>\<open>v1_receive.py\<close>, which is an instance of the framing interface. The lemmas are round
  trips between what the client packs and what it or a peer unpacks.
\<close>

definition V1_MAGIC :: bytes where
  "V1_MAGIC = [0xFF, 0xFF, 0xFF, 0x88]"

abbreviation (input) MICROPHONE_STATE_CHANGE :: int where "MICROPHONE_STATE_CHANGE \<equiv> 0x32"

record v1_encoding_header =
  eh_marker :: nat
  eh_audio_codec :: nat
  eh_audio_codec_option :: nat
  eh_audio_channels :: nat
  eh_audio_bit_width :: nat
  eh_audio_sample_rate :: nat
  eh_audio_frame_size :: nat
  eh_video_codec :: nat
  eh_video_frame_rate :: nat
  eh_video_width :: nat
  eh_video_height :: nat

record builtin_command =
  bc_command :: nat
  bc_flags :: nat
  bc_timestamp :: nat
  bc_payload :: bytes

section \<open>Encrypted TLVs\<close>

primrec tlv_blocks :: "(bytes \<Rightarrow> exn + bytes) \<Rightarrow> nat \<Rightarrow> nat \<Rightarrow> bytes \<Rightarrow> exn + bytes" where
  "tlv_blocks transform 0 cursor body = Inr body"
| "tlv_blocks transform (Suc n) cursor body =
     bind_res (transform (pyslice body cursor (cursor + 8))) (\<lambda>b.
       tlv_blocks transform n (cursor + 8) (put body cursor b))"

definition crypt_tlv :: "bytes \<Rightarrow> bytes \<Rightarrow> nat \<Rightarrow> bool \<Rightarrow> exn + bytes" where
  "crypt_tlv payload cookie inner_type encrypt =
     (if length cookie \<noteq> 8 then Inl (ValueError ''CALLING cookie must be eight bytes'')
      else bind_res
        (if encrypt then
           if 4 + length payload > 0xFFFF then Inl StructError
           else Inr ([of_nat inner_type, 2] @ le_bytes 2 (4 + length payload) @ payload)
         else if length payload < 4 \<or> unat (payload ! 0) \<noteq> inner_type
         then Inl (ValueError ''unexpected inner TLV type'')
         else if u16_at payload 2 \<noteq> length payload then Inl (ValueError ''inner TLV length mismatch'')
         else Inr payload)
        (\<lambda>body. bind_res (rc5_init cookie 6 :: exn + 32 word rc5) (\<lambda>cipher.
           bind_res (tlv_blocks (if encrypt then rc5_encrypt_block cipher else rc5_decrypt_block cipher)
                       ((length body - 4) div 8) 4 body)
             (\<lambda>body. Inr (if encrypt then body else drop 4 body)))))"

definition encrypt_command_tlv :: "bytes \<Rightarrow> bytes \<Rightarrow> exn + bytes" where
  "encrypt_command_tlv payload cookie = crypt_tlv payload cookie 2 True"

definition decrypt_command_tlv :: "bytes \<Rightarrow> bytes \<Rightarrow> exn + bytes" where
  "decrypt_command_tlv frame cookie = crypt_tlv frame cookie 2 False"

definition encrypt_media_tlv :: "bytes \<Rightarrow> bytes \<Rightarrow> exn + bytes" where
  "encrypt_media_tlv payload cookie = crypt_tlv payload cookie 4 True"

definition decrypt_media_tlv :: "bytes \<Rightarrow> bytes \<Rightarrow> exn + bytes" where
  "decrypt_media_tlv frame cookie = crypt_tlv frame cookie 4 False"

section \<open>Commands and user data\<close>

definition pack_legacy_capture_header :: "int \<Rightarrow> exn + bytes" where
  "pack_legacy_capture_header frame_rate =
     (if \<not> (1 \<le> frame_rate \<and> frame_rate \<le> 0x3F)
      then Inl (ValueError ''legacy capture frame rate must be between 1 and 63'')
      else let frame = put (replicate 28 0) 0 V1_MAGIC;
               frame = put frame 4 [0x00, 0x01, 0x05, 0x21, 0x01, 0x14, 0xF0]
           in Inr (put frame 11 [of_nat (push_bit 2 (nat frame_rate))]))"

definition pack_legacy_talk_control :: "bool \<Rightarrow> bytes" where
  "pack_legacy_talk_control enabled = V1_MAGIC @ [0, 2, 5, if enabled then 1 else 0] @ replicate 20 0"

definition build_builtin_command :: "int \<Rightarrow> bytes \<Rightarrow> int \<Rightarrow> int option \<Rightarrow> int \<Rightarrow> exn + bytes" where
  "build_builtin_command command payload flags timestamp_us time_ns =
     (if \<not> (0 \<le> command \<and> command \<le> 0xFF) then Inl (ValueError ''command must fit in one byte'')
      else if \<not> (0 \<le> flags \<and> flags \<le> 3)
      then Inl (ValueError ''only the low two command flag bits are defined'')
      else let timestamp_us = (case timestamp_us of None \<Rightarrow> time_ns div 1000 | Some t \<Rightarrow> t)
      in Inr ([0] @ le_bytes 1 (nat command) @ le_bytes 2 (nat flags) @
              le_bytes 4 (mask_int 32 timestamp_us) @ payload))"

definition parse_builtin_command :: "bytes \<Rightarrow> exn + builtin_command" where
  "parse_builtin_command frame =
     (if length frame < 8 then Inl (ValueError ''built-in command body is shorter than eight bytes'')
      else if frame ! 0 \<noteq> 0 then Inl (ValueError ''unexpected built-in command reserved byte'')
      else if drop_bit 2 (u16_at frame 2) \<noteq> 0 then Inl (ValueError ''unexpected built-in command flag bits'')
      else Inr \<lparr>bc_command = unat (frame ! 1), bc_flags = u16_at frame 2, bc_timestamp = u32_at frame 4,
                bc_payload = drop 8 frame\<rparr>)"

definition pack_v1_sequence_user_data :: "bytes \<Rightarrow> exn + bytes" where
  "pack_v1_sequence_user_data body =
     (if length body > 0xFFFF then Inl (ValueError ''v1 sequenced user-data body is too large'')
      else Inr (V1_MAGIC @ le_bytes 2 0x0300 @ le_bytes 2 (length body) @ replicate 20 0 @ body))"

definition unpack_v1_sequence_user_data :: "bytes \<Rightarrow> exn + bytes" where
  "unpack_v1_sequence_user_data frame =
     (if length frame < 28 \<or> pyslice frame 0 4 \<noteq> V1_MAGIC
      then Inl (ValueError ''not a v1 sequenced user-data frame'')
      else if u16_at frame 4 \<noteq> 0x0300 \<or> (\<exists>b \<in> set (pyslice frame 8 28). b \<noteq> 0)
      then Inl (ValueError ''invalid v1 sequenced user-data header'')
      else if length frame \<noteq> u16_at frame 6 + 28
      then Inl (ValueError ''v1 sequenced user-data length mismatch'')
      else Inr (drop 28 frame))"

function user_data_loop :: "bytes \<Rightarrow> nat \<Rightarrow> bytes list \<Rightarrow> exn + bytes list" where
  "user_data_loop payload cursor frames =
     (if cursor < length payload then
        if cursor + 8 > length payload \<or> pyslice payload cursor (cursor + 4) \<noteq> V1_MAGIC
        then Inl (ValueError ''not a complete v1 user-data record'')
        else if u16_at payload (cursor + 4) \<noteq> 0x0200 then Inl (ValueError ''invalid v1 user-data header'')
        else let end' = cursor + 8 + u16_at payload (cursor + 6)
        in if end' > length payload then Inl (ValueError ''truncated v1 user-data body'')
        else user_data_loop payload end' (frames @ [pyslice payload (cursor + 8) end'])
      else Inr frames)"
  by pat_completeness auto
termination by (relation "measure (\<lambda>(payload, cursor, frames). length payload - cursor)") auto

declare user_data_loop.simps [simp del]

definition unpack_v1_user_data_frames :: "bytes \<Rightarrow> exn + bytes list" where
  "unpack_v1_user_data_frames payload =
     bind_res (user_data_loop payload 0 []) (\<lambda>frames.
       if frames = [] then Inl (ValueError ''empty v1 user-data payload'') else Inr frames)"

definition pack_microphone_command :: "bool \<Rightarrow> int option \<Rightarrow> int \<Rightarrow> exn + bytes" where
  "pack_microphone_command enabled timestamp_us time_ns =
     bind_res (build_builtin_command MICROPHONE_STATE_CHANGE [if enabled then 1 else 0] 0 timestamp_us time_ns)
       pack_v1_sequence_user_data"

section \<open>Encoding headers and audio packets\<close>

definition pack_v1_audio_encoding_header :: "v1_encoding_header \<Rightarrow> exn + bytes" where
  "pack_v1_audio_encoding_header header =
     (if eh_audio_channels header \<noteq> 1 \<and> eh_audio_channels header \<noteq> 2
      then Inl (ValueError ''v1 encoding header supports mono or stereo audio'')
      else if \<not> (8 \<le> eh_audio_bit_width header \<and> eh_audio_bit_width header \<le> 0xFF) \<or>
              eh_audio_bit_width header mod 8 \<noteq> 0
      then Inl (ValueError ''audio bit width must be an 8-bit multiple fitting u8'')
      else if \<not> (1 \<le> eh_audio_sample_rate header \<and> eh_audio_sample_rate header \<le> 0xFFFFFFFF)
      then Inl (ValueError ''intercom sample rate must fit in the native u32 field'')
      else if \<not> (1 \<le> eh_audio_frame_size header \<and> eh_audio_frame_size header \<le> 0xFFFF)
      then Inl (ValueError ''intercom frame size must fit in the native u16 field'')
      else let descriptor = put (replicate 20 0) 1 [2];
               descriptor = put descriptor 4 (le_bytes 4 (eh_audio_sample_rate header));
               descriptor = put descriptor 8 (le_bytes 2 (eh_audio_frame_size header));
               descriptor = put descriptor 10 [of_nat (eh_audio_channels header)];
               descriptor = put descriptor 11 [of_nat (eh_audio_bit_width header)];
               descriptor = put descriptor 12 [of_nat (eh_audio_codec header)];
               descriptor = put descriptor 13 [of_nat (eh_audio_codec_option header)];
               frame = put (replicate 28 0) 0 V1_MAGIC;
               frame = put frame 4 (le_bytes 2 0x0500);
               serialized = [0, 1] @ descriptor
           in Inr (put frame 8 (take 20 serialized)))"

definition unpack_v1_encoding_header :: "bytes \<Rightarrow> exn + v1_encoding_header" where
  "unpack_v1_encoding_header frame =
     (if length frame \<noteq> 28 \<or> pyslice frame 0 4 \<noteq> V1_MAGIC
      then Inl (ValueError ''not a complete v1 encoding header'')
      else if drop_bit 8 (u16_at frame 4) \<noteq> 1 \<or> pyslice frame 6 8 \<noteq> [0, 0]
      then Inl (ValueError ''invalid v1 encoding-header marker'')
      else if frame ! 10 \<noteq> 0 \<and> frame ! 10 \<noteq> 1 then Inl (ValueError ''invalid v1 audio channel encoding'')
      else Inr \<lparr>eh_marker = u16_at frame 4, eh_audio_codec = unat (frame ! 8),
        eh_audio_codec_option = unat (frame ! 9), eh_audio_channels = unat (frame ! 10) + 1,
        eh_audio_bit_width = (unat (frame ! 11) + 1) * 8, eh_audio_sample_rate = u32_at frame 12,
        eh_audio_frame_size = u16_at frame 16, eh_video_codec = unat (frame ! 18),
        eh_video_frame_rate = unat (frame ! 19), eh_video_width = u32_at frame 20,
        eh_video_height = u32_at frame 24\<rparr>)"

definition build_v1_audio_packet :: "bytes list \<Rightarrow> int \<Rightarrow> int \<Rightarrow> exn + bytes" where
  "build_v1_audio_packet frames timestamp record_marker =
     (if frames = [] then Inl (ValueError ''at least one audio frame is required'')
      else if length frames > 0xFFFF then Inl (ValueError ''too many audio frames'')
      else if \<exists>frame \<in> set frames. frame = [] \<or> length frame > 0xFFFF
      then Inl (ValueError ''audio frames must contain 1..65535 bytes'')
      else let header = put (replicate 28 0) 0 V1_MAGIC;
               header = put header 4 (le_bytes 2 (mask_int 16 record_marker));
               header = put header 6 (le_bytes 2 (length frames));
               header = put header 20 (le_bytes 8 (mask_int 64 timestamp))
           in Inr (header @ concat (map (\<lambda>frame. le_bytes 2 (length frame)) frames) @ concat frames))"

section \<open>The V1 receiver\<close>

abbreviation (input) V1_MAX_RECORD :: nat where "V1_MAX_RECORD \<equiv> 1048576"
abbreviation (input) V1_MAX_CHUNK :: nat where "V1_MAX_CHUNK \<equiv> 65535"
abbreviation (input) V1_MAX_AUDIO_FRAMES :: nat where "V1_MAX_AUDIO_FRAMES \<equiv> 256"

record v1_record =
  vr_encoding :: "v1_encoding_header option"
  vr_audio :: "bytes list"
  vr_video :: bytes
  vr_audio_timestamp :: nat
  vr_video_timestamp :: nat

record v1_receiver =
  vx_buffer :: bytes
  vx_closed :: bool

definition v1_init :: v1_receiver where
  "v1_init = \<lparr>vx_buffer = [], vx_closed = False\<rparr>"

definition v1_close :: "v1_receiver \<Rightarrow> v1_receiver" where
  "v1_close s = s\<lparr>vx_buffer := [], vx_closed := True\<rparr>"

text \<open>The audio payloads one after the other, and the offset after them.\<close>

fun v1_audio :: "bytes \<Rightarrow> nat \<Rightarrow> nat list \<Rightarrow> bytes list \<times> nat" where
  "v1_audio buffer offset [] = ([], offset)"
| "v1_audio buffer offset (sz # sizes) =
     (case v1_audio buffer (offset + sz) sizes of
        (audio, offset') \<Rightarrow> (pyslice buffer offset (offset + sz) # audio, offset'))"

text \<open>
  One iteration of the loop of \<^verbatim>\<open>feed\<close>, on the bytes from the cursor on:
  \<open>Need\<close> is \<^verbatim>\<open>break\<close>, \<open>Bad\<close> is \<^verbatim>\<open>_fail\<close>, \<open>Rec\<close> appends a record and advances the cursor.
\<close>

definition v1_next :: "bytes \<Rightarrow> v1_record frame_step" where
  "v1_next buf =
     (if length buf < 28 then Need
      else let header = take 28 buf
      in if take 4 header \<noteq> V1_MAGIC then Bad (ValueError ''V1 record boundary mismatch'')
      else let marker = u16_at header 4; count = u16_at header 6
      in if drop_bit 8 marker = 1 then
           (case unpack_v1_encoding_header header of
              Inl e \<Rightarrow> Bad (ValueError ''invalid V1 encoding header'')
            | Inr encoding \<Rightarrow> Rec 28 \<lparr>vr_encoding = Some encoding, vr_audio = [], vr_video = [],
                               vr_audio_timestamp = 0, vr_video_timestamp = 0\<rparr>)
      else if (marker \<noteq> 0 \<and> marker \<noteq> 8) \<or> count > V1_MAX_AUDIO_FRAMES
      then Bad (ValueError ''unsupported V1 record type or audio count'')
      else let video_size = u32_at header 8; descriptors = 28 + count * 2
      in if descriptors + video_size > V1_MAX_RECORD then Bad (ValueError ''V1 record size exceeds budget'')
      else if length buf < descriptors then Need
      else let sizes = map (\<lambda>i. u16_at buf (28 + i * 2)) [0..<count]
      in if 0 \<in> set sizes then Bad (ValueError ''invalid V1 audio frame size'')
      else let total = descriptors + sum_list sizes + video_size
      in if total > V1_MAX_RECORD then Bad (ValueError ''V1 record size exceeds budget'')
      else if length buf < total then Need
      else case v1_audio buf descriptors sizes of (audio, offset) \<Rightarrow>
        Rec total \<lparr>vr_encoding = None, vr_audio = audio, vr_video = pyslice buf offset (offset + video_size),
          vr_audio_timestamp = u64_at header 20, vr_video_timestamp = u64_at header 12\<rparr>)"

lemma v1_next_bound: "v1_next buf = Rec n r \<Longrightarrow> 28 \<le> n \<and> n \<le> length buf"
  by (auto simp: v1_next_def Let_def split: if_splits sum.splits prod.splits)

function v1_feed_loop :: "bytes \<Rightarrow> nat \<Rightarrow> v1_record list \<Rightarrow> exn + v1_record list \<times> nat" where
  "v1_feed_loop buffer cursor records =
     (case v1_next (drop cursor buffer) of
        Need \<Rightarrow> Inr (records, cursor)
      | Bad e \<Rightarrow> Inl e
      | Rec n r \<Rightarrow> v1_feed_loop buffer (cursor + n) (records @ [r]))"
  by pat_completeness auto
termination
  by (relation "measure (\<lambda>(buffer, cursor, records). length buffer - cursor)") (auto dest: v1_next_bound)

declare v1_feed_loop.simps [simp del]

definition v1_feed :: "bytes \<Rightarrow> v1_receiver \<Rightarrow> (exn + v1_record list) \<times> v1_receiver" where
  "v1_feed payload s =
     (if vx_closed s then (Inl (ValueError ''V1 receiver is closed''), s)
      else if length payload > V1_MAX_CHUNK \<or> length (vx_buffer s) + length payload > V1_MAX_RECORD + V1_MAX_CHUNK
      then (Inl (ValueError ''V1 input budget exceeded''), v1_close s)
      else let s = s\<lparr>vx_buffer := vx_buffer s @ payload\<rparr>
      in case v1_feed_loop (vx_buffer s) 0 [] of
           Inl e \<Rightarrow> (Inl e, v1_close s)
         | Inr (records, cursor) \<Rightarrow> (Inr records, s\<lparr>vx_buffer := drop cursor (vx_buffer s)\<rparr>))"

section \<open>TLV round trip\<close>

text \<open>The in-place loop replaces the complete blocks after the header.\<close>

lemma tlv_blocks_map:
  "list_all2 (\<lambda>b c. length b = 8 \<and> transform b = Inr c \<and> length c = 8) bs cs \<Longrightarrow>
   tlv_blocks transform (length bs) (length a) (a @ concat bs @ t) = Inr (a @ concat cs @ t)"
proof (induction bs cs arbitrary: a rule: list_all2_induct)
  case Nil
  then show ?case by simp
next
  case (Cons b bs c cs)
  have "pyslice (a @ b @ concat bs @ t) (length a) (length a + 8) = b" using Cons(1) by (intro slice_middle) auto
  moreover have "put (a @ b @ concat bs @ t) (length a) c = a @ c @ concat bs @ t"
    using Cons(1) by (intro put_middle) auto
  ultimately show ?case using Cons.IH [of "a @ c"] Cons(1) by simp
qed

context block_cipher
begin

lemma tlv_roundtrip:
  assumes "length a = 4" "n = length p div 8"
  shows "\<exists>q. length q = length p \<and> tlv_blocks E n 4 (a @ p) = Inr (a @ q) \<and> tlv_blocks D n 4 (a @ q) = Inr (a @ p)"
proof -
  obtain f where f: "\<And>b. length b = 8 \<Longrightarrow> E b = Inr (f b) \<and> length (f b) = 8 \<and> D (f b) = Inr b"
    using block by metis
  obtain bs t where p: "p = concat bs @ t" "length bs = n" "\<forall>b \<in> set bs. length b = 8"
    using split_chunks [of n 8 p] assms(2) by auto
  let ?q = "concat (map f bs) @ t"
  have "length ?q = length p" using p f by (simp add: length_concat_const [of _ 8])
  moreover have "tlv_blocks E n 4 (a @ p) = Inr (a @ ?q)"
    using tlv_blocks_map [of E bs "map f bs" a t] f p assms(1) by (simp add: list_all2_map2 list_all2_same)
  moreover have "tlv_blocks D n 4 (a @ ?q) = Inr (a @ p)"
    using tlv_blocks_map [of D "map f bs" bs a t] f p assms(1) by (simp add: list_all2_map1 list_all2_same)
  ultimately show ?thesis by blast
qed

end

lemma rc5_init_32: "\<exists>c. (rc5_init key r :: exn + 32 word rc5) = Inr c"
  by (simp add: rc5_init_def)

lemma crypt_tlv_roundtrip:
  assumes "length cookie = 8" "length payload \<le> 0xFFFF - 4" "ty < 256"
  shows "\<exists>frame. crypt_tlv payload cookie ty True = Inr frame \<and> length frame = length payload + 4 \<and>
    crypt_tlv frame cookie ty False = Inr payload"
proof -
  obtain c :: "32 word rc5" where c: "rc5_init cookie 6 = Inr c" using rc5_init_32 by blast
  let ?a = "[of_nat ty, 2] @ le_bytes 2 (4 + length payload)"
  obtain q where q: "length q = length payload" "tlv_blocks (rc5_encrypt_block c) (length payload div 8) 4 (?a @ payload) = Inr (?a @ q)"
    "tlv_blocks (rc5_decrypt_block c) (length payload div 8) 4 (?a @ q) = Inr (?a @ payload)"
    using rc5_32.tlv_roundtrip [of ?a "length payload div 8" payload c] by auto
  have enc: "crypt_tlv payload cookie ty True = Inr (?a @ q)"
    using assms(1,2) c q(2) by (simp add: crypt_tlv_def)
  have "u16_at (?a @ q) 2 = 4 + length payload"
    using assms(2) by (simp add: slice_fields le_val_le_bytes)
  then have "crypt_tlv (?a @ q) cookie ty False = Inr payload"
    using assms(1,3) c q(1,3) by (simp add: crypt_tlv_def)
  with enc q(1) show ?thesis by auto
qed

text \<open>
  Under the same eight-byte cookie, the encrypted command and media TLVs decrypt
  to the payload they were made of, for every payload that fits the 16-bit length
  field.
\<close>
theorem tlv_encryption_roundtrip:
  assumes "length cookie = 8" "length payload \<le> 65531"
  shows "(\<exists>frame. encrypt_command_tlv payload cookie = Inr frame \<and> length frame = length payload + 4 \<and>
            decrypt_command_tlv frame cookie = Inr payload) \<and>
         (\<exists>frame. encrypt_media_tlv payload cookie = Inr frame \<and> length frame = length payload + 4 \<and>
            decrypt_media_tlv frame cookie = Inr payload)"
  unfolding encrypt_command_tlv_def decrypt_command_tlv_def encrypt_media_tlv_def decrypt_media_tlv_def
  using crypt_tlv_roundtrip [OF assms(1), of payload 2] crypt_tlv_roundtrip [OF assms(1), of payload 4] assms(2) by simp

theorem tlv_encryption_roundtrip_witness:
  "\<exists>frame. encrypt_media_tlv (replicate 19 1) (replicate 8 5) = Inr frame \<and> length frame = 23 \<and>
     decrypt_media_tlv frame (replicate 8 5) = Inr (replicate 19 1)"
  using tlv_encryption_roundtrip [of "replicate 8 5" "replicate 19 1"] by simp

section \<open>Command round trip\<close>

lemma V1_MAGIC_length [simp]: "length V1_MAGIC = 4"
  by (simp add: V1_MAGIC_def)

lemma user_data_roundtrip:
  assumes "length body \<le> 0xFFFF"
  shows "\<exists>frame. pack_v1_sequence_user_data body = Inr frame \<and> unpack_v1_sequence_user_data frame = Inr body"
proof -
  let ?f = "V1_MAGIC @ le_bytes 2 0x0300 @ le_bytes 2 (length body) @ replicate 20 0 @ body"
  have p: "pack_v1_sequence_user_data body = Inr ?f" using assms by (simp add: pack_v1_sequence_user_data_def)
  have "u16_at ?f 4 = 0x0300" "u16_at ?f 6 = length body" "pyslice ?f 8 28 = replicate 20 0" "pyslice ?f 0 4 = V1_MAGIC"
    using assms by (simp_all add: slice_fields le_val_le_bytes)
  moreover have "drop 28 ?f = body" by simp
  ultimately have "unpack_v1_sequence_user_data ?f = Inr body"
    by (simp add: unpack_v1_sequence_user_data_def del: append_assoc)
  with p show ?thesis by blast
qed

lemma builtin_command_roundtrip:
  assumes "0 \<le> command" "command \<le> 0xFF" "0 \<le> flags" "flags \<le> 3"
  shows "\<exists>frame. build_builtin_command command payload flags (Some ts) now = Inr frame \<and>
    length frame = 8 + length payload \<and>
    parse_builtin_command frame = Inr \<lparr>bc_command = nat command, bc_flags = nat flags,
      bc_timestamp = mask_int 32 ts, bc_payload = payload\<rparr>"
proof -
  let ?f = "[0] @ le_bytes 1 (nat command) @ le_bytes 2 (nat flags) @ le_bytes 4 (mask_int 32 ts) @ payload"
  have b: "build_builtin_command command payload flags (Some ts) now = Inr ?f"
    using assms by (simp add: build_builtin_command_def)
  have n: "nat command < 256" "nat flags < 4" using assms by auto
  have "u16_at ?f 2 = nat flags" "u32_at ?f 4 = mask_int 32 ts" "unat (?f ! 1) = nat command" "?f ! 0 = 0"
    "drop 8 ?f = payload"
    using n mask_int_256 by (simp_all add: slice_fields le_val_le_bytes)
  moreover have "drop_bit 2 (nat flags) = 0" using n(2) by (simp add: drop_bit_eq_div)
  ultimately have "parse_builtin_command ?f = Inr \<lparr>bc_command = nat command, bc_flags = nat flags,
      bc_timestamp = mask_int 32 ts, bc_payload = payload\<rparr>"
    by (simp add: parse_builtin_command_def)
  with b show ?thesis by auto
qed

text \<open>
  The microphone command the client sends is, for a receiver of V1 user data and
  built-in commands, command \<open>0x32\<close> with one payload byte that is the requested state.
\<close>
theorem microphone_command_understood:
  "\<exists>frame body. pack_microphone_command enabled (Some ts) now = Inr frame \<and>
     unpack_v1_sequence_user_data frame = Inr body \<and>
     parse_builtin_command body = Inr \<lparr>bc_command = 0x32, bc_flags = 0, bc_timestamp = mask_int 32 ts,
       bc_payload = [if enabled then 1 else 0]\<rparr>"
proof -
  obtain body where body: "build_builtin_command 0x32 [if enabled then 1 else 0] 0 (Some ts) now = Inr body"
    "length body = 9" "parse_builtin_command body = Inr \<lparr>bc_command = 0x32, bc_flags = 0,
      bc_timestamp = mask_int 32 ts, bc_payload = [if enabled then 1 else 0]\<rparr>"
    using builtin_command_roundtrip [of "0x32" 0 "[if enabled then 1 else 0]" ts now] by auto
  obtain frame where "pack_v1_sequence_user_data body = Inr frame" "unpack_v1_sequence_user_data frame = Inr body"
    using user_data_roundtrip [of body] body(2) by auto
  with body show ?thesis by (auto simp: pack_microphone_command_def)
qed

section \<open>The V1 receiver is a stream framer\<close>

lemma v1_audio_append:
  "offset + sum_list sizes \<le> length xs \<Longrightarrow> v1_audio (xs @ ys) offset sizes = v1_audio xs offset sizes"
  by (induction xs offset sizes rule: v1_audio.induct) (simp_all add: slice_append_left)

lemma snd_v1_audio: "snd (v1_audio xs offset sizes) = offset + sum_list sizes"
  by (induction xs offset sizes rule: v1_audio.induct) (auto split: prod.split)

abbreviation v1_count :: "bytes \<Rightarrow> nat" where
  "v1_count xs \<equiv> u16_at (take 28 xs) 6"

abbreviation v1_video_size :: "bytes \<Rightarrow> nat" where
  "v1_video_size xs \<equiv> u32_at (take 28 xs) 8"

definition v1_sizes :: "bytes \<Rightarrow> nat list" where
  "v1_sizes xs = map (\<lambda>i. u16_at xs (28 + i * 2)) [0..<v1_count xs]"

definition v1_total :: "bytes \<Rightarrow> nat" where
  "v1_total xs = 28 + v1_count xs * 2 + sum_list (v1_sizes xs) + v1_video_size xs"

definition v1_av :: "bytes \<Rightarrow> v1_record" where
  "v1_av xs = \<lparr>vr_encoding = None, vr_audio = fst (v1_audio xs (28 + v1_count xs * 2) (v1_sizes xs)),
     vr_video = pyslice xs (28 + v1_count xs * 2 + sum_list (v1_sizes xs)) (v1_total xs),
     vr_audio_timestamp = u64_at (take 28 xs) 20, vr_video_timestamp = u64_at (take 28 xs) 12\<rparr>"

text \<open>The part of an iteration that only depends on the 28-byte header.\<close>

definition v1_head :: "bytes \<Rightarrow> v1_record frame_step" where
  "v1_head h =
     (if take 4 h \<noteq> V1_MAGIC then Bad (ValueError ''V1 record boundary mismatch'')
      else if drop_bit 8 (u16_at h 4) = 1 then
           (case unpack_v1_encoding_header h of
              Inl e \<Rightarrow> Bad (ValueError ''invalid V1 encoding header'')
            | Inr encoding \<Rightarrow> Rec 28 \<lparr>vr_encoding = Some encoding, vr_audio = [], vr_video = [],
                               vr_audio_timestamp = 0, vr_video_timestamp = 0\<rparr>)
      else if (u16_at h 4 \<noteq> 0 \<and> u16_at h 4 \<noteq> 8) \<or> u16_at h 6 > V1_MAX_AUDIO_FRAMES
      then Bad (ValueError ''unsupported V1 record type or audio count'')
      else if 28 + u16_at h 6 * 2 + u32_at h 8 > V1_MAX_RECORD then Bad (ValueError ''V1 record size exceeds budget'')
      else Need)"

lemma v1_next_eq:
  "v1_next xs =
     (if length xs < 28 then Need else if v1_head (take 28 xs) \<noteq> Need then v1_head (take 28 xs)
      else if length xs < 28 + v1_count xs * 2 then Need
      else if 0 \<in> set (v1_sizes xs) then Bad (ValueError ''invalid V1 audio frame size'')
      else if v1_total xs > V1_MAX_RECORD then Bad (ValueError ''V1 record size exceeds budget'')
      else if length xs < v1_total xs then Need else Rec (v1_total xs) (v1_av xs))"
proof -
  have s: "(case v1_audio xs (28 + v1_count xs * 2) (v1_sizes xs) of (audio, offset) \<Rightarrow>
        Rec (v1_total xs) \<lparr>vr_encoding = None, vr_audio = audio, vr_video = pyslice xs offset (offset + v1_video_size xs),
          vr_audio_timestamp = u64_at (take 28 xs) 20, vr_video_timestamp = u64_at (take 28 xs) 12\<rparr>) =
      Rec (v1_total xs) (v1_av xs)"
    using snd_v1_audio [of xs "28 + v1_count xs * 2" "v1_sizes xs"]
    by (auto simp: v1_av_def v1_total_def split: prod.split)
  note d = v1_next_def [of xs, unfolded Let_def, folded v1_sizes_def [of xs], folded v1_total_def [of xs], unfolded s]
  show ?thesis
  proof (cases "length xs < 28")
    case True
    then show ?thesis unfolding d by (simp only: if_P)
  next
    case False
    then show ?thesis unfolding d v1_head_def by (auto split: sum.splits)
  qed
qed

lemma v1_fields_append:
  assumes "28 \<le> length xs"
  shows "take 28 (xs @ ys) = take 28 xs"
    "28 + v1_count xs * 2 \<le> length xs \<Longrightarrow> v1_sizes (xs @ ys) = v1_sizes xs"
    "28 + v1_count xs * 2 \<le> length xs \<Longrightarrow> v1_total (xs @ ys) = v1_total xs"
    "28 + v1_count xs * 2 \<le> length xs \<Longrightarrow> v1_total xs \<le> length xs \<Longrightarrow> v1_av (xs @ ys) = v1_av xs"
proof -
  show t: "take 28 (xs @ ys) = take 28 xs" using assms by simp
  show sz: "v1_sizes (xs @ ys) = v1_sizes xs" if "28 + v1_count xs * 2 \<le> length xs"
    using that unfolding v1_sizes_def t by (intro map_cong) (auto simp: slice_append_left)
  show tt: "v1_total (xs @ ys) = v1_total xs" if "28 + v1_count xs * 2 \<le> length xs"
    unfolding v1_total_def t sz [OF that] by (rule refl)
  show "v1_av (xs @ ys) = v1_av xs" if l: "28 + v1_count xs * 2 \<le> length xs" "v1_total xs \<le> length xs"
  proof -
    have "v1_audio (xs @ ys) (28 + v1_count xs * 2) (v1_sizes xs) = v1_audio xs (28 + v1_count xs * 2) (v1_sizes xs)"
      using l(2) by (intro v1_audio_append) (simp add: v1_total_def)
    then show ?thesis
      unfolding v1_av_def t sz [OF l(1)] tt [OF l(1)] using l(2) by (simp add: slice_append_left)
  qed
qed

lemma v1_next_append: "v1_next xs \<noteq> Need \<Longrightarrow> v1_next (xs @ ys) = v1_next xs"
proof -
  assume n: "v1_next xs \<noteq> Need"
  then have l: "28 \<le> length xs" by (auto simp: v1_next_eq [of xs] split: if_splits)
  note f = v1_fields_append [OF l, of ys]
  show ?thesis
  proof (cases "v1_head (take 28 xs) = Need")
    case False
    with l f(1) show ?thesis by (simp add: v1_next_eq)
  next
    case True
    with n l have d: "28 + v1_count xs * 2 \<le> length xs" by (auto simp: v1_next_eq [of xs] split: if_splits)
    show ?thesis
    proof (cases "0 \<in> set (v1_sizes xs) \<or> v1_total xs > V1_MAX_RECORD")
      case bad: True
      with True l d f(1-3) show ?thesis by (auto simp: v1_next_eq)
    next
      case False
      with n True l d have "v1_total xs \<le> length xs" by (auto simp: v1_next_eq [of xs] split: if_splits)
      with False True l d f(1-3) f(4) [OF d] show ?thesis by (simp add: v1_next_eq)
    qed
  qed
qed

interpretation v1_format: record_format v1_next
proof
  show "v1_next [] = Need" by (simp add: v1_next_def)
next
  fix xs :: bytes and n r
  assume "v1_next xs = Rec n r"
  from v1_next_bound [OF this] show "0 < n \<and> n \<le> length xs" by auto
qed (simp_all add: v1_next_append)

definition v1_policy :: "exn \<Rightarrow> bool" where
  "v1_policy e \<longleftrightarrow> e = ValueError ''V1 input budget exceeded''"

interpretation v1_loop: feed_loop v1_next v1_feed_loop v1_policy
  by unfold_locales (simp_all add: v1_feed_loop.simps)

lemma v1_feed_cases:
  "(\<exists>e. v1_feed d s = (Inl e, s) \<and> vx_closed s) \<or>
   (\<exists>e s'. v1_feed d s = (Inl e, s') \<and> \<not> vx_closed s \<and>
      (v1_policy e \<or> v1_next (snd (scan_frames v1_next (vx_buffer s @ d))) = Bad e)) \<or>
   (\<exists>rs rest. v1_feed d s = (Inr rs, s\<lparr>vx_buffer := rest\<rparr>) \<and> \<not> vx_closed s \<and>
      scan_frames v1_next (vx_buffer s @ d) = (rs, rest) \<and> v1_next rest = Need)"
proof -
  note sc = v1_loop.loop_scan [of 0 "vx_buffer s @ d" "[]", simplified]
  let ?over = "length d > V1_MAX_CHUNK \<or> length (vx_buffer s) + length d > V1_MAX_RECORD + V1_MAX_CHUNK"
  consider "vx_closed s" | "\<not> vx_closed s" ?over | (run) "\<not> vx_closed s" "\<not> ?over" by blast
  then show ?thesis
  proof cases
    case run
    show ?thesis
    proof (cases "v1_feed_loop (vx_buffer s @ d) 0 []")
      case (Inl e)
      with run sc show ?thesis by (simp add: v1_feed_def Let_def)
    next
      case (Inr x)
      then obtain rs off where "v1_feed_loop (vx_buffer s @ d) 0 [] = Inr (rs, off)" by (cases x) auto
      with run sc show ?thesis by (simp add: v1_feed_def Let_def prod_eq_iff)
    qed
  qed (simp_all add: v1_feed_def v1_policy_def)
qed

interpretation v1_framer: stream_framer v1_next v1_feed vx_buffer "\<lambda>s. \<not> vx_closed s" v1_policy
proof
  fix d s rs s'
  assume "v1_feed d s = (Inr rs, s')"
  with v1_feed_cases [of d s] show "scan_frames v1_next (vx_buffer s @ d) = (rs, vx_buffer s')"
    "v1_next (vx_buffer s') = Need" "\<not> vx_closed s'" by auto
next
  fix d s e s'
  assume "v1_feed d s = (Inl e, s')" "\<not> vx_closed s"
  with v1_feed_cases [of d s] show "v1_policy e \<or> v1_next (snd (scan_frames v1_next (vx_buffer s @ d))) = Bad e"
    by auto
qed

section \<open>Audio packets arrive\<close>

definition v1_header :: "nat \<Rightarrow> nat \<Rightarrow> nat \<Rightarrow> bytes" where
  "v1_header marker count ts = V1_MAGIC @ le_bytes 2 marker @ le_bytes 2 count @ replicate 12 0 @ le_bytes 8 ts"

lemma v1_header_puts:
  "put (put (put (put (replicate 28 0) 0 V1_MAGIC) 4 (le_bytes 2 m)) 6 (le_bytes 2 c)) 20 (le_bytes 8 ts) = v1_header m c ts"
  by (simp add: put_def v1_header_def drop_replicate)

lemma length_sizes_bytes: "length (concat (map (\<lambda>f. le_bytes 2 (length f)) fs)) = 2 * length fs"
  by (induction fs) auto

lemma sizes_at:
  assumes "i < length fs" "\<forall>f \<in> set fs. length f < 65536"
  shows "u16_at (concat (map (\<lambda>f. le_bytes 2 (length f)) fs) @ rest) (i * 2) = length (fs ! i)"
  using assms
proof (induction fs arbitrary: i)
  case (Cons f fs)
  show ?case
  proof (cases i)
    case 0
    with Cons.prems show ?thesis by (simp add: slice_prefix le_val_le_bytes del: le_bytes.simps)
  next
    case (Suc j)
    then have "u16_at (le_bytes 2 (length f) @ concat (map (\<lambda>f. le_bytes 2 (length f)) fs) @ rest) (i * 2) =
        u16_at (concat (map (\<lambda>f. le_bytes 2 (length f)) fs) @ rest) (j * 2)"
      by (simp add: slice_append_right)
    with Cons Suc show ?thesis by simp
  qed
qed simp

lemma v1_audio_concat:
  "length a = offset \<Longrightarrow> v1_audio (a @ concat fs @ rest) offset (map length fs) = (fs, offset + length (concat fs))"
proof (induction fs arbitrary: a offset)
  case (Cons f fs)
  from Cons.IH [of "a @ f" "offset + length f"] Cons.prems show ?case
    by (simp add: slice_middle split: prod.split)
qed simp

lemma v1_next_audio:
  assumes "fs \<noteq> []" "length fs \<le> 256" "\<forall>f \<in> set fs. f \<noteq> [] \<and> length f \<le> 0xFFFF" "m = 0 \<or> m = 8"
    "28 + 2 * length fs + length (concat fs) \<le> V1_MAX_RECORD" "ts < 256 ^ 8"
  defines "p \<equiv> v1_header m (length fs) ts @ concat (map (\<lambda>f. le_bytes 2 (length f)) fs) @ concat fs"
  shows "v1_next p = Rec (length p) \<lparr>vr_encoding = None, vr_audio = fs, vr_video = [],
    vr_audio_timestamp = ts, vr_video_timestamp = 0\<rparr>"
proof -
  have h: "take 28 p = v1_header m (length fs) ts" "length (v1_header m (length fs) ts) = 28"
    by (simp_all add: p_def v1_header_def)
  have lp: "length p = 28 + 2 * length fs + length (concat fs)"
    by (simp add: p_def h(2) length_sizes_bytes)
  have fld: "take 4 (take 28 p) = V1_MAGIC" "u16_at (take 28 p) 4 = m" "v1_count p = length fs"
    "v1_video_size p = 0" "u64_at (take 28 p) 20 = ts" "u64_at (take 28 p) 12 = 0"
    using assms(2,4,6) unfolding h(1) v1_header_def
    by (auto simp: slice_fields le_val_le_bytes pyslice_def [of "replicate _ _ @ _"])
  have sd: "v1_sizes p = map (\<lambda>i. u16_at p (28 + i * 2)) [0..<length fs]" unfolding v1_sizes_def fld(3) by (rule refl)
  have sz: "v1_sizes p = map length fs"
  proof (rule nth_equalityI)
    fix i assume "i < length (v1_sizes p)"
    then have i: "i < length fs" by (simp add: sd)
    have "u16_at p (28 + i * 2) = u16_at (concat (map (\<lambda>f. le_bytes 2 (length f)) fs) @ concat fs) (i * 2)"
      using h(2) by (simp add: p_def slice_append_right)
    also have "\<dots> = length (fs ! i)" using i assms(3) by (intro sizes_at) auto
    finally show "v1_sizes p ! i = map length fs ! i" using i by (simp add: sd)
  qed (simp add: sd)
  have tot: "v1_total p = length p" unfolding v1_total_def fld sz lp by (simp add: length_concat)
  have "v1_audio p (28 + length fs * 2) (map length fs) = (fs, 28 + length fs * 2 + length (concat fs))"
    using v1_audio_concat [of "v1_header m (length fs) ts @ concat (map (\<lambda>f. le_bytes 2 (length f)) fs)"
        "28 + length fs * 2" fs "[]"] h(2) by (simp add: p_def length_sizes_bytes)
  then have av: "v1_av p = \<lparr>vr_encoding = None, vr_audio = fs, vr_video = [], vr_audio_timestamp = ts, vr_video_timestamp = 0\<rparr>"
    unfolding v1_av_def tot fld sz lp by (simp add: length_concat pyslice_def)
  have "v1_head (take 28 p) = Need" using assms(2,4,5) unfolding v1_head_def fld by auto
  moreover have "0 \<notin> set (v1_sizes p)" using assms(3) sz by auto
  ultimately show ?thesis using lp assms(5) by (simp add: v1_next_eq [of p, unfolded fld(3) tot av])
qed

definition audio_packet_ok :: "bytes list \<Rightarrow> bool" where
  "audio_packet_ok fs \<longleftrightarrow> fs \<noteq> [] \<and> length fs \<le> 256 \<and> (\<forall>f \<in> set fs. f \<noteq> [] \<and> length f \<le> 0xFFFF) \<and>
     28 + 2 * length fs + length (concat fs) \<le> V1_MAX_RECORD"

lemma build_v1_audio_packet_next:
  assumes "audio_packet_ok fs"
  shows "\<exists>p. build_v1_audio_packet fs ts 0 = Inr p \<and> v1_next p = Rec (length p) \<lparr>vr_encoding = None,
    vr_audio = fs, vr_video = [], vr_audio_timestamp = mask_int 64 ts, vr_video_timestamp = 0\<rparr>"
proof -
  have m: "mask_int 16 0 = 0" by (simp add: mask_int_def)
  have "build_v1_audio_packet fs ts 0 = Inr (v1_header 0 (length fs) (mask_int 64 ts) @
      concat (map (\<lambda>f. le_bytes 2 (length f)) fs) @ concat fs)"
    using assms unfolding build_v1_audio_packet_def Let_def v1_header_puts m by (auto simp: audio_packet_ok_def)
  with v1_next_audio [of fs 0 "mask_int 64 ts"] assms mask_int_256(2) show ?thesis
    unfolding audio_packet_ok_def by blast
qed

text \<open>
  Talk audio survives the byte stream: any sequence of audio packets built by the
  client, concatenated and cut into reads at any places, comes out of a V1 receiver as
  one record per packet with the same audio frames and time stamp and no video, unless
  a read exceeds the receiver's input budget.
\<close>
theorem v1_audio_stream_delivered:
  assumes "list_all2 (\<lambda>(fs, ts) p. audio_packet_ok fs \<and> build_v1_audio_packet fs ts 0 = Inr p) talk packets"
    "concat chunks = concat packets" "feed_all v1_feed chunks v1_init = (res, s)"
  shows "res = Inr (map (\<lambda>(fs, ts). \<lparr>vr_encoding = None, vr_audio = fs, vr_video = [],
      vr_audio_timestamp = mask_int 64 ts, vr_video_timestamp = 0\<rparr>) talk) \<and> vx_buffer s = [] \<or>
    res = Inl (ValueError ''V1 input budget exceeded'')"
proof -
  let ?rec = "\<lambda>(fs, ts). \<lparr>vr_encoding = None, vr_audio = fs, vr_video = [],
      vr_audio_timestamp = mask_int 64 ts, vr_video_timestamp = 0\<rparr>"
  have "scan_frames v1_next (concat packets) = (map ?rec talk, [])"
    using assms(1)
  proof (induction talk packets rule: list_all2_induct)
    case Nil
    then show ?case by (simp add: v1_format.scan_stop v1_format.step_Nil)
  next
    case (Cons x talk p packets)
    obtain fs ts where x: "x = (fs, ts)" by fastforce
    with Cons(1) build_v1_audio_packet_next [of fs ts] have "v1_next p = Rec (length p) (?rec x)" by auto
    then have "v1_next (p @ concat packets) = Rec (length p) (?rec x)" by (rule v1_format.rec_stable)
    from v1_format.scan_Rec [OF this] Cons.IH show ?case by simp
  qed
  with v1_framer.feed_all_good [of v1_init chunks "map ?rec talk" "[]" res s] assms(2,3)
  show ?thesis by (auto simp: v1_init_def v1_format.step_Nil v1_policy_def)
qed

theorem v1_audio_stream_delivered_witness:
  "\<exists>p. build_v1_audio_packet [[1, 2], [3]] 9 0 = Inr p \<and>
     (let res = fst (feed_all v1_feed [take 5 p, drop 5 p] v1_init)
      in res = Inr [\<lparr>vr_encoding = None, vr_audio = [[1, 2], [3]], vr_video = [], vr_audio_timestamp = 9, vr_video_timestamp = 0\<rparr>] \<or>
         res = Inl (ValueError ''V1 input budget exceeded''))"
proof -
  have ok: "audio_packet_ok [[1, 2], [3]]" by (simp add: audio_packet_ok_def)
  then obtain p where p: "build_v1_audio_packet [[1, 2], [3]] 9 0 = Inr p"
    using build_v1_audio_packet_next [of "[[1, 2], [3]]" 9] by blast
  obtain res s where f: "feed_all v1_feed [take 5 p, drop 5 p] v1_init = (res, s)" by fastforce
  have "mask_int 64 9 = 9" by (simp add: mask_int_def)
  with v1_audio_stream_delivered [of "[([[1, 2], [3]], 9)]" "[p]", OF _ _ f] p ok f show ?thesis by auto
qed

end
