(* ===== verification/Broker.thy ===== *)
theory Broker
  imports GuteFrame Machine "HOL-Library.Multiset"
begin

text \<open>
  The broker's sequence namespace (\<^verbatim>\<open>broker_sequences.py\<close>) and the correlation of transport
  receipts (\<^verbatim>\<open>broker_transactions.py\<close>). The lemmas show that no sequence number is ever
  handed out twice in a generation, and that every ticket issued is resolved at most
  once, by its own receipt, its timeout, its cancellation or the closing of the session.
\<close>

section \<open>Sequences\<close>

record broker_sequences =
  bs_session :: int
  bs_generation :: int
  bs_next :: int
  bs_closed :: bool

definition sequences_init :: "int \<Rightarrow> int \<Rightarrow> int \<Rightarrow> exn + broker_sequences" where
  "sequences_init session_id generation next_sequence =
     (if \<not> (0 < session_id \<and> session_id < 2 ^ 64) \<or> generation \<le> 0 \<or>
         \<not> (0 \<le> next_sequence \<and> next_sequence < 2 ^ 32)
      then Inl (ValueError ''invalid broker sequence identity'')
      else Inr \<lparr>bs_session = session_id, bs_generation = generation, bs_next = next_sequence, bs_closed = False\<rparr>)"

definition sequences_match :: "int \<Rightarrow> int \<Rightarrow> broker_sequences \<Rightarrow> bool" where
  "sequences_match session_id generation s \<longleftrightarrow>
     \<not> bs_closed s \<and> (session_id, generation) = (bs_session s, bs_generation s)"

definition sequences_reserve :: "int \<Rightarrow> broker_sequences \<Rightarrow> (exn + int list) \<times> broker_sequences" where
  "sequences_reserve cnt s =
     (if \<not> (1 \<le> cnt \<and> cnt \<le> 64) then (Inl (ValueError ''sequence reservation must contain 1..64 IDs''), s)
      else if bs_closed s then (Inl (ValueError ''broker sequence namespace closed''), s)
      else if bs_next s + cnt > 2 ^ 32
      then (Inl (ValueError ''broker sequence exhausted; new generation required''), s)
      else (Inr [bs_next s..bs_next s + cnt - 1], s\<lparr>bs_next := bs_next s + cnt\<rparr>))"

definition sequences_allocate :: "broker_sequences \<Rightarrow> (exn + int) \<times> broker_sequences" where
  "sequences_allocate s =
     (case sequences_reserve 1 s of (Inl e, s) \<Rightarrow> (Inl e, s) | (Inr ids, s) \<Rightarrow> (Inr (ids ! 0), s))"

definition sequences_close :: "broker_sequences \<Rightarrow> broker_sequences" where
  "sequences_close s = s\<lparr>bs_closed := True, bs_session := 0\<rparr>"

section \<open>Transactions\<close>

abbreviation (input) MAX_PENDING :: nat where "MAX_PENDING \<equiv> 8"
abbreviation (input) MAX_TIMEOUT :: time where "MAX_TIMEOUT \<equiv> 10"

record receipt_ticket =
  rt_generation :: int
  rt_sequence :: int
  rt_kind :: int

record transport_receipt =
  tr_ticket :: receipt_ticket
  tr_result :: nat

definition receipt_accepted :: "transport_receipt \<Rightarrow> bool" where
  "receipt_accepted r \<longleftrightarrow> tr_result r = 0"

record broker_transactions =
  bt_sequences :: broker_sequences
  bt_owns_sequences :: bool
  bt_session :: int
  bt_generation :: int
  bt_pending :: "(int, receipt_ticket \<times> time) dict"
  bt_closed :: bool

definition transactions_init ::
  "int \<Rightarrow> int \<Rightarrow> int \<Rightarrow> broker_sequences option \<Rightarrow> exn + broker_transactions"
where
  "transactions_init session_id generation next_sequence sequences =
     bind_res (sequences_init session_id generation next_sequence) (\<lambda>seed.
       if (case sequences of None \<Rightarrow> False | Some s \<Rightarrow> \<not> sequences_match session_id generation s)
       then Inl (ValueError ''broker sequence identity mismatch'')
       else Inr \<lparr>bt_sequences = (case sequences of Some s \<Rightarrow> s | None \<Rightarrow> seed),
                 bt_owns_sequences = (sequences = None), bt_session = session_id,
                 bt_generation = generation, bt_pending = [], bt_closed = False\<rparr>)"

definition transactions_active :: "broker_transactions \<Rightarrow> bool" where
  "transactions_active b \<longleftrightarrow>
     \<not> bt_closed b \<and> sequences_match (bt_session b) (bt_generation b) (bt_sequences b)"

definition transactions_register ::
  "int \<Rightarrow> time \<Rightarrow> time \<Rightarrow> broker_transactions \<Rightarrow> (exn + receipt_ticket) \<times> broker_transactions"
where
  "transactions_register kind timeout now b =
     (if \<not> transactions_active b then (Inl (ValueError ''broker transactions closed''), b)
      else if \<not> (0 \<le> kind \<and> kind \<le> 255) \<or> \<not> (0 < timeout \<and> timeout \<le> MAX_TIMEOUT)
      then (Inl (ValueError ''invalid broker transaction bounds''), b)
      else if length (bt_pending b) \<ge> MAX_PENDING
      then (Inl (ValueError ''broker transaction capacity exhausted''), b)
      else case sequences_allocate (bt_sequences b) of
        (Inl e, s) \<Rightarrow> (Inl e, b\<lparr>bt_sequences := s\<rparr>)
      | (Inr sequence, s) \<Rightarrow>
          let ticket = \<lparr>rt_generation = bt_generation b, rt_sequence = sequence, rt_kind = kind\<rparr>
          in (Inr ticket, b\<lparr>bt_sequences := s,
                bt_pending := dict_set sequence (ticket, now + timeout) (bt_pending b)\<rparr>))"

definition transactions_poll :: "time \<Rightarrow> broker_transactions \<Rightarrow> receipt_ticket list \<times> broker_transactions" where
  "transactions_poll now b =
     (let expired = map (\<lambda>(k, ticket, deadline). ticket)
                      (filter (\<lambda>(k, ticket, deadline). now \<ge> deadline) (bt_pending b))
      in (expired, b\<lparr>bt_pending := fold (\<lambda>ticket. dict_pop (rt_sequence ticket)) expired (bt_pending b)\<rparr>))"

definition transactions_cancel :: "receipt_ticket \<Rightarrow> broker_transactions \<Rightarrow> bool \<times> broker_transactions" where
  "transactions_cancel ticket b =
     (case map_of (bt_pending b) (rt_sequence ticket) of
        None \<Rightarrow> (False, b)
      | Some (pending, deadline) \<Rightarrow>
          if pending \<noteq> ticket then (False, b)
          else (True, b\<lparr>bt_pending := dict_pop (rt_sequence ticket) (bt_pending b)\<rparr>))"

definition receipt_header_ok :: "bytes \<Rightarrow> int \<Rightarrow> exn + bool" where
  "receipt_header_ok plain session =
     (if length plain \<noteq> 32 \<or> (plain ! 0 \<noteq> 0x7E \<and> plain ! 0 \<noteq> 0x7F) \<or> u16_at plain 2 \<noteq> 32 \<or>
         int (u64_at plain 4) \<noteq> session then Inr False
      else bind_res (gute_mode1_xor_checksum plain) (\<lambda>c. Inr (u32_at plain 16 = c)))"

definition transactions_accept ::
  "bytes \<Rightarrow> int \<Rightarrow> time \<Rightarrow> broker_transactions \<Rightarrow> (exn + transport_receipt option) \<times> broker_transactions"
where
  "transactions_accept plain generation now b =
     (if \<not> transactions_active b \<or> generation \<noteq> bt_generation b then (Inr None, b)
      else case receipt_header_ok plain (bt_session b) of
        Inl e \<Rightarrow> (Inl e, b)
      | Inr ok \<Rightarrow>
        if \<not> ok then (Inr None, b)
        else let flags = u32_at plain 20
        in if drop_bit 16 flags AND 3 \<noteq> 2 \<or> \<not> bit flags 20 \<or> bit flags 21 then (Inr None, b)
        else let sequence = int (u32_at plain 12)
        in case map_of (bt_pending b) sequence of
          None \<Rightarrow> (Inr None, b)
        | Some (ticket, deadline) \<Rightarrow>
            if uint (plain ! 1) \<noteq> rt_kind ticket \<or> now \<ge> deadline then (Inr None, b)
            else (Inr (Some \<lparr>tr_ticket = ticket, tr_result = u16_at plain 26\<rparr>),
                  b\<lparr>bt_pending := dict_pop sequence (bt_pending b)\<rparr>))"

definition transactions_close :: "broker_transactions \<Rightarrow> receipt_ticket list \<times> broker_transactions" where
  "transactions_close b =
     (let cancelled = map (\<lambda>(k, ticket, deadline). ticket) (bt_pending b);
          b = b\<lparr>bt_pending := [], bt_session := 0, bt_closed := True\<rparr>
      in (cancelled, if bt_owns_sequences b then b\<lparr>bt_sequences := sequences_close (bt_sequences b)\<rparr> else b))"

section \<open>A sequence number is never handed out twice\<close>

lemma sequences_reserve_Inr:
  "sequences_reserve n s = (Inr ids, s') \<longleftrightarrow>
     1 \<le> n \<and> n \<le> 64 \<and> \<not> bs_closed s \<and> bs_next s + n \<le> 2 ^ 32 \<and>
     ids = [bs_next s..bs_next s + n - 1] \<and> s' = s\<lparr>bs_next := bs_next s + n\<rparr>"
  by (auto simp: sequences_reserve_def)

lemma sequences_reserve_Inl: "sequences_reserve n s = (Inl e, s') \<Longrightarrow> s' = s"
  by (auto simp: sequences_reserve_def split: if_splits)

lemma sequences_allocate_Inr:
  "sequences_allocate s = (Inr q, s') \<longleftrightarrow>
     \<not> bs_closed s \<and> bs_next s + 1 \<le> 2 ^ 32 \<and> q = bs_next s \<and> s' = s\<lparr>bs_next := bs_next s + 1\<rparr>"
  by (auto simp: sequences_allocate_def sequences_reserve_def)

lemma sequences_allocate_Inl: "sequences_allocate s = (Inl e, s') \<Longrightarrow> s' = s"
  by (auto simp: sequences_allocate_def sequences_reserve_def split: if_splits)

text \<open>A history of reservations; a refused one hands out nothing.\<close>

fun reserve_all :: "int list \<Rightarrow> broker_sequences \<Rightarrow> int list \<times> broker_sequences" where
  "reserve_all [] s = ([], s)"
| "reserve_all (n # ns) s =
     (case sequences_reserve n s of
        (Inl e, s') \<Rightarrow> reserve_all ns s'
      | (Inr ids, s') \<Rightarrow> (case reserve_all ns s' of (rest, s'') \<Rightarrow> (ids @ rest, s'')))"

lemma reserve_all_interval:
  "reserve_all ns s = (ids, s') \<Longrightarrow> bs_next s \<le> 2 ^ 32 \<Longrightarrow>
   ids = [bs_next s..bs_next s' - 1] \<and> bs_next s \<le> bs_next s' \<and> bs_next s' \<le> 2 ^ 32"
proof (induction ns arbitrary: s ids)
  case (Cons n ns)
  obtain r s1 where r: "sequences_reserve n s = (r, s1)" by fastforce
  show ?case
  proof (cases r)
    case (Inl e)
    with Cons r sequences_reserve_Inl [of n s e s1] show ?thesis by auto
  next
    case (Inr xs)
    with r have x: "1 \<le> n" "bs_next s + n \<le> 2 ^ 32" "xs = [bs_next s..bs_next s + n - 1]" "bs_next s1 = bs_next s + n"
      by (auto simp: sequences_reserve_Inr)
    obtain rest where rest: "reserve_all ns s1 = (rest, s')" "ids = xs @ rest"
      using Cons.prems(1) r Inr by (auto split: prod.splits)
    from Cons.IH [OF rest(1)] x have IH: "rest = [bs_next s1..bs_next s' - 1]" "bs_next s1 \<le> bs_next s'" "bs_next s' \<le> 2 ^ 32"
      by auto
    have "[bs_next s..bs_next s' - 1] = xs @ rest"
      using upto_split2 [of "bs_next s" "bs_next s1 - 1" "bs_next s' - 1"] IH x by (cases "bs_next s1 = bs_next s'") auto
    with rest(2) IH x show ?thesis by auto
  qed
qed auto

text \<open>
  Over any history of reservations in one generation, refused ones included, the
  numbers handed out are consecutive from the negotiated start, so no number is used
  twice, none wraps past \<open>2 ^ 32\<close>, and none is skipped or recycled.
\<close>
theorem sequences_never_reused:
  assumes "sequences_init session generation start = Inr s" "reserve_all counts s = (ids, s')"
  shows "ids = [start..bs_next s' - 1] \<and> distinct ids \<and> sorted_wrt (<) ids \<and> (\<forall>i \<in> set ids. 0 \<le> i \<and> i < 2 ^ 32)"
proof -
  have s: "bs_next s = start" "0 \<le> start" "start < 2 ^ 32"
    using assms(1) by (auto simp: sequences_init_def split: if_splits)
  from reserve_all_interval [OF assms(2)] s have "ids = [start..bs_next s' - 1]" "bs_next s' \<le> 2 ^ 32" by auto
  with s(2) show ?thesis by (auto simp: sorted_wrt_upto)
qed

theorem sequences_never_reused_witness:
  "sequences_init 7 1 4294967290 = Inr \<lparr>bs_session = 7, bs_generation = 1, bs_next = 4294967290, bs_closed = False\<rparr> \<and>
   fst (reserve_all [2, 64, 3, 1, 1] \<lparr>bs_session = 7, bs_generation = 1, bs_next = 4294967290, bs_closed = False\<rparr>) =
     [4294967290, 4294967291, 4294967292, 4294967293, 4294967294, 4294967295] \<and>
   distinct [4294967290, 4294967291, 4294967292, 4294967293, 4294967294, 4294967295 :: int]"
proof -
  let ?s = "\<lparr>bs_session = 7, bs_generation = 1, bs_next = 4294967290, bs_closed = False\<rparr>"
  have init: "sequences_init 7 1 4294967290 = Inr ?s" by (simp add: sequences_init_def)
  have run: "reserve_all [2, 64, 3, 1, 1] ?s =
      ([4294967290, 4294967291, 4294967292, 4294967293, 4294967294, 4294967295], ?s\<lparr>bs_next := 4294967296\<rparr>)"
    by (simp add: sequences_reserve_def upto_rec1)
  from sequences_never_reused [OF init run] init run show ?thesis by simp
qed

section \<open>Every ticket is resolved exactly once\<close>

text \<open>
  What can happen to the transactions of a generation: the owner's calls, with the clock
  readings they take, and, when the namespace is shared, reservations by its other users and
  its closing by its owner.
\<close>

datatype bt_op =
    Register int time time
  | Poll time
  | Cancel receipt_ticket
  | Accept bytes int time
  | Close
  | Others int
  | Retired

text \<open>One call: the tickets it issues, the tickets it resolves, and the state after it.\<close>

fun bt_exec :: "bt_op \<Rightarrow> broker_transactions \<Rightarrow> receipt_ticket list \<times> receipt_ticket list \<times> broker_transactions" where
  "bt_exec (Register kind timeout now) b =
     (case transactions_register kind timeout now b of (Inl e, b') \<Rightarrow> ([], [], b') | (Inr t, b') \<Rightarrow> ([t], [], b'))"
| "bt_exec (Poll now) b = (case transactions_poll now b of (ts, b') \<Rightarrow> ([], ts, b'))"
| "bt_exec (Cancel t) b = (case transactions_cancel t b of (ok, b') \<Rightarrow> ([], if ok then [t] else [], b'))"
| "bt_exec (Accept plain generation now) b =
     (case transactions_accept plain generation now b of
        (Inr (Some r), b') \<Rightarrow> ([], [tr_ticket r], b') | (_, b') \<Rightarrow> ([], [], b'))"
| "bt_exec Close b = (case transactions_close b of (ts, b') \<Rightarrow> ([], ts, b'))"
| "bt_exec (Others n) b = ([], [], b\<lparr>bt_sequences := snd (sequences_reserve n (bt_sequences b))\<rparr>)"
| "bt_exec Retired b = ([], [], b\<lparr>bt_sequences := sequences_close (bt_sequences b)\<rparr>)"

abbreviation pending_tickets :: "broker_transactions \<Rightarrow> receipt_ticket list" where
  "pending_tickets b \<equiv> map (fst \<circ> snd) (bt_pending b)"

definition bt_inv :: "broker_transactions \<Rightarrow> bool" where
  "bt_inv b \<longleftrightarrow> length (bt_pending b) \<le> MAX_PENDING \<and> distinct (map fst (bt_pending b)) \<and>
     (\<forall>(k, t, d) \<in> set (bt_pending b). rt_sequence t = k \<and> k < bs_next (bt_sequences b) \<and>
        rt_generation t = bt_generation b)"

lemma pending_pop:
  assumes "distinct (map fst p)" "map_of p k = Some (t, d)"
  shows "mset (map (fst \<circ> snd) p) = add_mset t (mset (map (fst \<circ> snd) (dict_pop k p)))"
proof -
  obtain a b where "p = a @ (k, t, d) # b" "dict_pop k p = a @ b" by (rule dict_pop_split [OF assms])
  then show ?thesis by simp
qed

lemma bt_inv_pop: "bt_inv b \<Longrightarrow> bt_inv (b\<lparr>bt_pending := dict_pop k (bt_pending b)\<rparr>)"
proof -
  assume "bt_inv b"
  moreover have "length (dict_pop k (bt_pending b)) \<le> length (bt_pending b)" by (simp add: dict_pop_def)
  moreover have "set (dict_pop k (bt_pending b)) \<subseteq> set (bt_pending b)" by (auto simp: dict_pop_def)
  ultimately show ?thesis unfolding bt_inv_def
    by (simp add: distinct_dict_pop) (meson order_trans subsetD)
qed

text \<open>Popping the tickets of a sublist of the items leaves the other items.\<close>

lemma fold_pop_filter:
  assumes "distinct (map fst p)" "\<forall>(k, t, d) \<in> set p. rt_sequence t = k"
  shows "fold (\<lambda>t. dict_pop (rt_sequence t)) (map (fst \<circ> snd) (filter P p)) p = filter (\<lambda>x. \<not> P x) p"
proof -
  have fold: "fold (\<lambda>t. dict_pop (rt_sequence t)) ts p = filter (\<lambda>(k, v). k \<notin> rt_sequence ` set ts) p" for ts
  proof (induction ts rule: rev_induct)
    case Nil
    then show ?case by simp
  next
    case (snoc t ts)
    then show ?case by (auto simp: dict_pop_def intro!: filter_cong)
  qed
  have "fst x \<in> rt_sequence ` set (map (fst \<circ> snd) (filter P p)) \<longleftrightarrow> P x" if x: "x \<in> set p" for x
  proof
    assume "fst x \<in> rt_sequence ` set (map (fst \<circ> snd) (filter P p))"
    then obtain y where y: "y \<in> set p" "P y" "fst x = rt_sequence (fst (snd y))" by auto
    then have "fst y = fst x" using assms(2) by (auto simp: split_beta)
    with x y assms(1) show "P x" by (metis eq_key_imp_eq_value prod.collapse)
  next
    assume "P x"
    moreover have "fst x = rt_sequence (fst (snd x))" using x assms(2) by (auto simp: split_beta)
    ultimately show "fst x \<in> rt_sequence ` set (map (fst \<circ> snd) (filter P p))" using x by auto
  qed
  then show ?thesis unfolding fold by (intro filter_cong) (simp_all add: split_beta)
qed

lemma transactions_poll_eq:
  assumes "bt_inv b"
  shows "transactions_poll now b = (map (fst \<circ> snd) (filter (\<lambda>(k, t, d). now \<ge> d) (bt_pending b)),
    b\<lparr>bt_pending := filter (\<lambda>x. \<not> (\<lambda>(k, t, d). now \<ge> d) x) (bt_pending b)\<rparr>)"
proof -
  have "(\<lambda>(k :: int, t :: receipt_ticket, d :: time). t) = fst \<circ> snd" by auto
  moreover have "\<forall>(k, t, d) \<in> set (bt_pending b). rt_sequence t = k" using assms by (auto simp: bt_inv_def)
  ultimately show ?thesis
    using assms fold_pop_filter [of "bt_pending b" "\<lambda>(k, t, d). now \<ge> d"]
    unfolding transactions_poll_def Let_def by (simp only: bt_inv_def)
qed

lemma bt_inv_sublist:
  assumes "bt_inv b" "set p \<subseteq> set (bt_pending b)" "length p \<le> length (bt_pending b)" "distinct (map fst p)"
  shows "bt_inv (b\<lparr>bt_pending := p\<rparr>)"
  using assms by (fastforce simp: bt_inv_def)

lemma transactions_register_Inr:
  assumes "transactions_register kind timeout now b = (Inr t, b')" "bt_inv b"
  shows "rt_sequence t = bs_next (bt_sequences b)" "rt_generation t = bt_generation b"
    "b' = b\<lparr>bt_sequences := (bt_sequences b)\<lparr>bs_next := bs_next (bt_sequences b) + 1\<rparr>,
            bt_pending := bt_pending b @ [(rt_sequence t, t, now + timeout)]\<rparr>"
    "length (bt_pending b) < 8"
proof -
  note r = assms(1) [unfolded transactions_register_def Let_def]
  obtain s where s: "sequences_allocate (bt_sequences b) = (Inr (rt_sequence t), s)" "length (bt_pending b) < 8"
    "t = \<lparr>rt_generation = bt_generation b, rt_sequence = rt_sequence t, rt_kind = kind\<rparr>"
    "b' = b\<lparr>bt_sequences := s, bt_pending := dict_set (rt_sequence t) (t, now + timeout) (bt_pending b)\<rparr>"
    using r by (auto simp: not_le split: if_splits prod.splits sum.splits)
  from s(1) have q: "rt_sequence t = bs_next (bt_sequences b)" "s = (bt_sequences b)\<lparr>bs_next := bs_next (bt_sequences b) + 1\<rparr>"
    by (simp_all add: sequences_allocate_Inr)
  have "rt_sequence t \<notin> fst ` set (bt_pending b)" using assms(2) q(1) by (fastforce simp: bt_inv_def)
  with s q show "b' = b\<lparr>bt_sequences := (bt_sequences b)\<lparr>bs_next := bs_next (bt_sequences b) + 1\<rparr>,
            bt_pending := bt_pending b @ [(rt_sequence t, t, now + timeout)]\<rparr>" by (simp add: dict_set_new)
  show "rt_sequence t = bs_next (bt_sequences b)" "length (bt_pending b) < 8" by fact+
  show "rt_generation t = bt_generation b" by (subst s(3)) simp
qed

lemma transactions_register_Inl:
  assumes "transactions_register kind timeout now b = (Inl e, b')"
  shows "b' = b"
proof -
  have "sequences_allocate (bt_sequences b) = (Inl e, s) \<Longrightarrow> b\<lparr>bt_sequences := s\<rparr> = b" for e s
    by (drule sequences_allocate_Inl) (cases b, simp)
  with assms show ?thesis unfolding transactions_register_def Let_def
    by (auto split: if_splits prod.splits sum.splits)
qed

text \<open>What one call does to the accounting of tickets.\<close>

lemma bt_exec_keeps:
  assumes "bt_inv b" "bt_exec x b = (i, r, b')"
  shows "bt_inv b' \<and> mset (pending_tickets b) + mset i = mset r + mset (pending_tickets b') \<and>
    bt_generation b' = bt_generation b \<and> bs_next (bt_sequences b) \<le> bs_next (bt_sequences b') \<and>
    (\<forall>t \<in> set i. bs_next (bt_sequences b) \<le> rt_sequence t \<and> rt_sequence t < bs_next (bt_sequences b') \<and>
       rt_generation t = bt_generation b) \<and> length i \<le> 1"
proof (cases x)
  case (Register kind timeout now)
  obtain res b1 where reg: "transactions_register kind timeout now b = (res, b1)" by fastforce
  show ?thesis
  proof (cases res)
    case (Inl e)
    with Register assms reg transactions_register_Inl [of kind timeout now b e b1] show ?thesis by auto
  next
    case (Inr t)
    note t = transactions_register_Inr [OF reg [unfolded Inr] assms(1)]
    have "rt_sequence t \<notin> fst ` set (bt_pending b)" using assms(1) t(1) by (fastforce simp: bt_inv_def)
    moreover have "i = [t]" "r = []" "b' = b1" using Register assms(2) reg Inr by simp_all
    ultimately show ?thesis using assms(1) t by (fastforce simp: bt_inv_def)
  qed
next
  case (Poll now)
  then have p: "i = []" "r = map (fst \<circ> snd) (filter (\<lambda>(k, t, d). now \<ge> d) (bt_pending b))"
    "b' = b\<lparr>bt_pending := filter (\<lambda>x. \<not> (\<lambda>(k, t, d). now \<ge> d) x) (bt_pending b)\<rparr>"
    using assms(2) transactions_poll_eq [OF assms(1)] by simp_all
  have "bt_inv b'" unfolding p(3)
    using assms(1) by (intro bt_inv_sublist) (auto simp: distinct_map_filter bt_inv_def)
  moreover have "mset (pending_tickets b) = mset r + mset (pending_tickets b')"
    unfolding p(2,3) by (simp add: mset_map mset_filter) (metis image_mset_union multiset_partition)
  ultimately show ?thesis using p by simp
next
  case (Cancel t)
  show ?thesis
  proof (cases "\<exists>d. map_of (bt_pending b) (rt_sequence t) = Some (t, d)")
    case True
    then obtain d where d: "map_of (bt_pending b) (rt_sequence t) = Some (t, d)" by blast
    with Cancel assms(2) have "i = []" "r = [t]" "b' = b\<lparr>bt_pending := dict_pop (rt_sequence t) (bt_pending b)\<rparr>"
      by (simp_all add: transactions_cancel_def)
    with assms(1) d pending_pop [OF _ d] bt_inv_pop [OF assms(1), of "rt_sequence t"] show ?thesis
      by (simp add: bt_inv_def)
  next
    case False
    then have "transactions_cancel t b = (False, b)" by (auto simp: transactions_cancel_def split: option.splits prod.splits)
    with Cancel assms show ?thesis by simp
  qed
next
  case (Accept plain generation now)
  obtain res b1 where a: "transactions_accept plain generation now b = (res, b1)" by fastforce
  show ?thesis
  proof (cases "\<exists>rc. res = Inr (Some rc)")
    case True
    then obtain rc where rc: "res = Inr (Some rc)" by blast
    with a obtain q d where q: "map_of (bt_pending b) q = Some (tr_ticket rc, d)" "b1 = b\<lparr>bt_pending := dict_pop q (bt_pending b)\<rparr>"
      by (auto simp: transactions_accept_def Let_def split: if_splits sum.splits option.splits prod.splits)
    with Accept assms(2) a rc have "i = []" "r = [tr_ticket rc]" "b' = b\<lparr>bt_pending := dict_pop q (bt_pending b)\<rparr>" by simp_all
    with assms(1) q pending_pop [OF _ q(1)] bt_inv_pop [OF assms(1), of q] show ?thesis by (simp add: bt_inv_def)
  next
    case False
    then have "b1 = b" using a
      by (auto simp: transactions_accept_def Let_def split: if_splits sum.splits option.splits prod.splits)
    with False Accept assms a show ?thesis by (auto split: sum.splits option.splits)
  qed
next
  case Close
  have "(\<lambda>(k :: int, t :: receipt_ticket, d :: time). t) = fst \<circ> snd" by auto
  with Close assms show ?thesis
    by (cases "bt_owns_sequences b") (auto simp: transactions_close_def Let_def bt_inv_def sequences_close_def)
next
  case (Others n)
  obtain res s where s: "sequences_reserve n (bt_sequences b) = (res, s)" by fastforce
  then have "bs_next (bt_sequences b) \<le> bs_next s"
    by (cases res) (auto simp: sequences_reserve_Inr dest: sequences_reserve_Inl)
  with Others assms s show ?thesis by (fastforce simp: bt_inv_def)
next
  case Retired
  with assms show ?thesis by (auto simp: bt_inv_def sequences_close_def)
qed

text \<open>
  A frame that is the transport receipt of a ticket: a complete header of this session with a
  valid checksum, the flags of a mode-2 acknowledgement, and the ticket's sequence and kind.
\<close>

definition receipt_of :: "int \<Rightarrow> bytes \<Rightarrow> receipt_ticket \<Rightarrow> bool" where
  "receipt_of session plain t \<longleftrightarrow>
     length plain = 32 \<and> plain ! 0 \<in> {0x7E, 0x7F} \<and> u16_at plain 2 = 32 \<and> int (u64_at plain 4) = session \<and>
     gute_mode1_xor_checksum plain = Inr (u32_at plain 16) \<and>
     drop_bit 16 (u32_at plain 20) AND 3 = 2 \<and> bit (u32_at plain 20) 20 \<and> \<not> bit (u32_at plain 20) 21 \<and>
     int (u32_at plain 12) = rt_sequence t \<and> uint (plain ! 1) = rt_kind t"

text \<open>A ticket that was issued, with its deadline; a ticket that was resolved, with the call that did it.\<close>

datatype bt_event = Issued receipt_ticket time | Resolved receipt_ticket bt_op

fun deadline_of :: "bt_op \<Rightarrow> time" where
  "deadline_of (Register kind timeout now) = now + timeout"
| "deadline_of _ = 0"

definition bt_events :: "bt_op \<Rightarrow> broker_transactions \<Rightarrow> bt_event list \<times> broker_transactions" where
  "bt_events x b = (case bt_exec x b of (i, r, b') \<Rightarrow> (map (\<lambda>t. Issued t (deadline_of x)) i @ map (\<lambda>t. Resolved t x) r, b'))"

text \<open>Why a call may resolve a ticket with the given deadline.\<close>

fun resolved_by :: "int \<Rightarrow> int \<Rightarrow> bt_op \<Rightarrow> receipt_ticket \<Rightarrow> time \<Rightarrow> bool" where
  "resolved_by session generation (Accept plain g now) t deadline \<longleftrightarrow>
     g = generation \<and> receipt_of session plain t \<and> now < deadline"
| "resolved_by session generation (Poll now) t deadline \<longleftrightarrow> deadline \<le> now"
| "resolved_by session generation (Cancel t') t deadline \<longleftrightarrow> t' = t"
| "resolved_by session generation Close t deadline \<longleftrightarrow> True"
| "resolved_by session generation _ t deadline \<longleftrightarrow> False"

definition resolved :: "bt_event list \<Rightarrow> receipt_ticket \<Rightarrow> bool" where
  "resolved h t \<longleftrightarrow> (\<exists>x. Resolved t x \<in> set h)"

fun ticket_justified :: "int \<Rightarrow> int \<Rightarrow> bt_event list \<Rightarrow> bt_event \<Rightarrow> bool" where
  "ticket_justified session generation h (Issued t d) \<longleftrightarrow>
     rt_generation t = generation \<and> (\<forall>t' d'. Issued t' d' \<in> set h \<longrightarrow> rt_sequence t' < rt_sequence t)"
| "ticket_justified session generation h (Resolved t x) \<longleftrightarrow>
     \<not> resolved h t \<and> (\<exists>d. Issued t d \<in> set h \<and> resolved_by session generation x t d)"

definition bt_hist :: "int \<Rightarrow> int \<Rightarrow> bt_event list \<Rightarrow> broker_transactions \<Rightarrow> bool" where
  "bt_hist session generation h b \<longleftrightarrow>
     bt_inv b \<and> bt_generation b = generation \<and> (bt_closed b \<or> bt_session b = session) \<and>
     each_event (ticket_justified session generation) h \<and>
     (\<forall>(k, t, d) \<in> set (bt_pending b). Issued t d \<in> set h \<and> \<not> resolved h t) \<and>
     (\<forall>t d. Issued t d \<in> set h \<longrightarrow> rt_sequence t < bs_next (bt_sequences b) \<and>
        (resolved h t \<or> (rt_sequence t, t, d) \<in> set (bt_pending b)))"

lemma resolved_append [simp]:
  "resolved (h @ map (\<lambda>t. Resolved t x) ts) t \<longleftrightarrow> resolved h t \<or> t \<in> set ts"
  "resolved (h @ [Issued t' d]) t = resolved h t"
  by (auto simp: resolved_def)

lemma accept_receipt:
  "transactions_accept plain generation now b = (Inr (Some rc), b') \<longleftrightarrow>
     transactions_active b \<and> generation = bt_generation b \<and>
     (\<exists>q d. map_of (bt_pending b) q = Some (tr_ticket rc, d) \<and> receipt_of (bt_session b) plain ((tr_ticket rc)\<lparr>rt_sequence := q\<rparr>) \<and>
        now < d \<and> tr_result rc = u16_at plain 26 \<and> b' = b\<lparr>bt_pending := dict_pop q (bt_pending b)\<rparr>)"
proof (cases "gute_mode1_xor_checksum plain")
  case (Inl e)
  then show ?thesis by (auto simp: transactions_accept_def receipt_header_ok_def receipt_of_def)
next
  case (Inr c)
  show ?thesis
    by (cases rc)
      (auto simp: transactions_accept_def receipt_header_ok_def receipt_of_def Inr Let_def not_le split: option.splits prod.splits if_splits)
qed

text \<open>A call either issues one ticket or resolves the pending ones that a predicate selects.\<close>

lemma filter_key:
  assumes "distinct (map fst p)" "map_of p k = Some v"
  shows "filter (\<lambda>x. fst x = k) p = [(k, v)]"
  using assms by (induction p) (auto simp: filter_empty_conv rev_image_eqI split: if_splits)

lemma bt_exec_shape:
  assumes "bt_inv b" "bt_exec x b = (i, r, b')" "bt_closed b \<or> bt_session b = session"
  shows "(\<exists>t. i = [t] \<and> r = [] \<and> bt_pending b' = bt_pending b @ [(rt_sequence t, t, deadline_of x)] \<and>
       rt_sequence t = bs_next (bt_sequences b)) \<or>
     (i = [] \<and> (\<exists>P. r = map (fst \<circ> snd) (filter P (bt_pending b)) \<and> bt_pending b' = filter (\<lambda>x. \<not> P x) (bt_pending b) \<and>
       (\<forall>(k, t, d) \<in> set (bt_pending b). P (k, t, d) \<longrightarrow> resolved_by session (bt_generation b) x t d)))"
    (is "?issue \<or> ?resolve")
proof -
  note inv = assms(1)
  have none: ?resolve if "i = []" "r = []" "bt_pending b' = bt_pending b"
    using that by (intro conjI exI [of _ "\<lambda>_. False"]) auto
  have one: ?resolve if q: "map_of (bt_pending b) q = Some (t, d)" "i = []" "r = [t]" "bt_pending b' = dict_pop q (bt_pending b)"
    "resolved_by session (bt_generation b) x t d" for q t d
  proof -
    have "distinct (map fst (bt_pending b))" using inv by (simp add: bt_inv_def)
    note f = filter_key [OF this q(1)]
    have "P = (t, d)" if "(q, P) \<in> set (bt_pending b)" for P
      using map_of_is_SomeI [OF _ that] inv q(1) by (simp add: bt_inv_def)
    moreover have "dict_pop q (bt_pending b) = filter (\<lambda>x. \<not> fst x = q) (bt_pending b)"
      unfolding dict_pop_def by (rule filter_cong) auto
    ultimately show ?thesis using q f
      by (intro conjI exI [of _ "\<lambda>x. fst x = q"]) auto
  qed
  show ?thesis
  proof (cases x)
    case (Register kind timeout now)
    obtain res b1 where reg: "transactions_register kind timeout now b = (res, b1)" by fastforce
    show ?thesis
    proof (cases res)
      case (Inl e)
      with Register assms(2) reg transactions_register_Inl [of kind timeout now b e b1] none show ?thesis by auto
    next
      case (Inr t)
      with Register assms(2) reg transactions_register_Inr [OF reg [unfolded Inr] inv] show ?thesis by auto
    qed
  next
    case (Poll now)
    then show ?thesis using assms(2) transactions_poll_eq [OF inv, of now]
      by (intro disjI2 conjI exI [of _ "\<lambda>(k, t, d). now \<ge> d"]) auto
  next
    case (Cancel t)
    show ?thesis
    proof (cases "\<exists>d. map_of (bt_pending b) (rt_sequence t) = Some (t, d)")
      case True
      then obtain d where d: "map_of (bt_pending b) (rt_sequence t) = Some (t, d)" by blast
      with Cancel assms(2) show ?thesis by (intro disjI2 one [OF d]) (auto simp: transactions_cancel_def)
    next
      case False
      then have "transactions_cancel t b = (False, b)" by (auto simp: transactions_cancel_def split: option.splits prod.splits)
      with Cancel assms(2) none show ?thesis by simp
    qed
  next
    case (Accept plain generation now)
    obtain res b1 where a: "transactions_accept plain generation now b = (res, b1)" by fastforce
    show ?thesis
    proof (cases "\<exists>rc. res = Inr (Some rc)")
      case True
      then obtain rc where rc: "res = Inr (Some rc)" by blast
      obtain q d where q: "map_of (bt_pending b) q = Some (tr_ticket rc, d)" "receipt_of (bt_session b) plain ((tr_ticket rc)\<lparr>rt_sequence := q\<rparr>)"
        "now < d" "b1 = b\<lparr>bt_pending := dict_pop q (bt_pending b)\<rparr>" "generation = bt_generation b"
        "bt_session b = session"
        using a rc assms(3) by (auto simp: accept_receipt transactions_active_def)
      have "rt_sequence (tr_ticket rc) = q" using map_of_SomeD [OF q(1)] inv by (auto simp: bt_inv_def)
      then have "(tr_ticket rc)\<lparr>rt_sequence := q\<rparr> = tr_ticket rc" by (cases "tr_ticket rc") simp
      with one [OF q(1)] q a rc Accept assms(2) show ?thesis by auto
    next
      case False
      then have "b1 = b" using a
        by (auto simp: transactions_accept_def Let_def split: if_splits sum.splits option.splits prod.splits)
      with False Accept assms a none show ?thesis by (auto split: sum.splits option.splits)
    qed
  next
    case Close
    have "(\<lambda>(k :: int, t :: receipt_ticket, d :: time). t) = fst \<circ> snd" by auto
    with Close assms(2) show ?thesis
      by (intro disjI2 conjI exI [of _ "\<lambda>_. True"]) (auto simp: transactions_close_def Let_def)
  next
    case (Others n)
    then show ?thesis using assms(2) none by auto
  next
    case Retired
    then show ?thesis using assms(2) none by auto
  qed
qed

lemma bt_exec_session:
  assumes "bt_exec x b = (i, r, b')"
  shows "bt_closed b' \<or> \<not> bt_closed b \<and> bt_session b' = bt_session b"
  using assms
proof (cases x)
  case (Register kind timeout now)
  then show ?thesis using assms
    by (auto simp: transactions_register_def Let_def split: if_splits sum.splits prod.splits) 
qed (auto simp: transactions_poll_def transactions_cancel_def transactions_close_def transactions_accept_def Let_def
     split: if_splits sum.splits prod.splits option.splits)

lemma bt_histI:
  assumes "bt_inv b" "bt_generation b = generation" "bt_closed b \<or> bt_session b = session"
    "each_event (ticket_justified session generation) h"
    "\<And>k t d. (k, t, d) \<in> set (bt_pending b) \<Longrightarrow> Issued t d \<in> set h \<and> \<not> resolved h t"
    "\<And>t d. Issued t d \<in> set h \<Longrightarrow> rt_sequence t < bs_next (bt_sequences b) \<and>
        (resolved h t \<or> (rt_sequence t, t, d) \<in> set (bt_pending b))"
  shows "bt_hist session generation h b"
  unfolding bt_hist_def using assms by blast

lemma bt_hist_exec:
  assumes h: "bt_hist session generation h b" and e: "bt_events x b = (es, b')"
  shows "bt_hist session generation (h @ es) b'"
proof -
  obtain i r where x: "bt_exec x b = (i, r, b')" "es = map (\<lambda>t. Issued t (deadline_of x)) i @ map (\<lambda>t. Resolved t x) r"
    using e by (auto simp: bt_events_def split: prod.splits)
  have inv: "bt_inv b" "bt_generation b = generation" and s: "bt_closed b \<or> bt_session b = session"
    and ev: "each_event (ticket_justified session generation) h"
    and pend: "\<And>k t d. (k, t, d) \<in> set (bt_pending b) \<Longrightarrow> Issued t d \<in> set h \<and> \<not> resolved h t"
    and iss: "\<And>t d. Issued t d \<in> set h \<Longrightarrow> rt_sequence t < bs_next (bt_sequences b) \<and>
        (resolved h t \<or> (rt_sequence t, t, d) \<in> set (bt_pending b))"
    using h by (auto simp: bt_hist_def)
  note k = bt_exec_keeps [OF inv(1) x(1)]
  have s': "bt_closed b' \<or> bt_session b' = session" using bt_exec_session [OF x(1)] s by auto
  from bt_exec_shape [OF inv(1) x(1) s] show ?thesis
  proof (elim disjE exE conjE)
    fix t
    assume t: "i = [t]" "r = []" "bt_pending b' = bt_pending b @ [(rt_sequence t, t, deadline_of x)]" "rt_sequence t = bs_next (bt_sequences b)"
    have es: "es = [Issued t (deadline_of x)]" using x(2) t(1,2) by simp
    have j: "ticket_justified session generation h (Issued t (deadline_of x))" using k iss t(1,4) inv(2) by auto
    have new: "\<not> resolved h t"
    proof
      assume "resolved h t"
      then obtain y h1 h2 where "h = h1 @ Resolved t y # h2" by (auto simp: resolved_def in_set_conv_decomp)
      with each_eventD [of "ticket_justified session generation" h1 "Resolved t y" h2] ev iss t(4) show False by fastforce
    qed
    have p': "Issued u d \<in> set (h @ es) \<and> \<not> resolved (h @ es) u" if "(k, u, d) \<in> set (bt_pending b')" for k u d
      using that pend [of k u d] new unfolding es t(3) by auto
    have "rt_sequence u < bs_next (bt_sequences b') \<and> (resolved (h @ es) u \<or> (rt_sequence u, u, d) \<in> set (bt_pending b'))"
      if "Issued u d \<in> set (h @ es)" for u d
    proof (cases "Issued u d \<in> set h")
      case True
      from iss [OF this] k show ?thesis unfolding es t(3) by auto
    next
      case False
      then show ?thesis using that k t(1,3) unfolding es by auto
    qed
    moreover have "each_event (ticket_justified session generation) (h @ es)" using ev j unfolding es by simp
    ultimately show ?thesis using k inv(2) s' p' by (intro bt_histI) auto
  next
    fix P
    assume P: "i = []" "r = map (fst \<circ> snd) (filter P (bt_pending b))" "bt_pending b' = filter (\<lambda>x. \<not> P x) (bt_pending b)"
      "\<forall>(k, t, d) \<in> set (bt_pending b). P (k, t, d) \<longrightarrow> resolved_by session (bt_generation b) x t d"
    have es: "es = map (\<lambda>t. Resolved t x) r" using x(2) P(1) by simp
    have key: "k = rt_sequence t" if "(k, t, d) \<in> set (bt_pending b)" for k t d using that inv(1) by (auto simp: bt_inv_def)
    have same: "d = d'" if "(k, t, d) \<in> set (bt_pending b)" "(k', t, d') \<in> set (bt_pending b)" for k k' t d d'
      using that key [OF that(1)] key [OF that(2)] inv(1) by (auto simp: bt_inv_def dest: eq_key_imp_eq_value)
    have r: "t \<in> set r \<longleftrightarrow> (\<exists>k d. (k, t, d) \<in> set (bt_pending b) \<and> P (k, t, d))" for t by (auto simp: P(2) image_iff)
    have inj: "inj_on (fst \<circ> snd) (set (bt_pending b))"
    proof (rule inj_onI)
      fix y z
      assume yz: "y \<in> set (bt_pending b)" "z \<in> set (bt_pending b)" "(fst \<circ> snd) y = (fst \<circ> snd) z"
      obtain k t d where y: "y = (k, t, d)" by (cases y)
      obtain k' d' where z: "z = (k', t, d')" using yz(3) y by (cases z) simp
      show "y = z" using key [OF yz(1) [unfolded y]] key [OF yz(2) [unfolded z]] same [OF yz(1) [unfolded y] yz(2) [unfolded z]] y z
        by simp
    qed
    have "distinct (bt_pending b)" using inv(1) by (simp add: bt_inv_def distinct_map)
    then have dr: "distinct r" unfolding P(2) by (simp add: distinct_map inj_on_subset [OF inj] subset_iff)
    have "ticket_justified session generation (h @ e1) e" if split: "es = e1 @ e # e2" for e1 e e2
    proof -
      obtain r1 t r2 where m: "r = r1 @ t # r2" "e1 = map (\<lambda>t. Resolved t x) r1" "e = Resolved t x"
        using split unfolding es by (auto simp: map_eq_append_conv map_eq_Cons_conv)
      obtain k d where kd: "(k, t, d) \<in> set (bt_pending b)" "P (k, t, d)" using r [of t] m(1) by auto
      with P(4) inv(2) pend [OF kd(1)] m dr show ?thesis by auto
    qed
    then have ev': "each_event (ticket_justified session generation) (h @ es)" using ev by (auto simp: each_event_append)
    have "t \<notin> set r" if p: "(k, t, d) \<in> set (bt_pending b')" for k t d
    proof
      assume "t \<in> set r"
      then obtain k' d' where u: "(k', t, d') \<in> set (bt_pending b)" "P (k', t, d')" using r by blast
      have "(k, t, d) \<in> set (bt_pending b)" "\<not> P (k, t, d)" using p by (auto simp: P(3))
      with u key [OF u(1)] key [of k t d] same [OF u(1), of k d] show False by simp
    qed
    then have p': "Issued t d \<in> set (h @ es) \<and> \<not> resolved (h @ es) t" if "(k, t, d) \<in> set (bt_pending b')" for k t d
      using that pend [of k t d] unfolding es by (auto simp: P(3))
    have "rt_sequence t < bs_next (bt_sequences b') \<and> (resolved (h @ es) t \<or> (rt_sequence t, t, d) \<in> set (bt_pending b'))"
      if "Issued t d \<in> set (h @ es)" for t d
    proof -
      from that have "Issued t d \<in> set h" by (auto simp: es)
      from iss [OF this] k show ?thesis unfolding es using r by (auto simp: P(3))
    qed
    with k inv(2) s' ev' p' show ?thesis by (intro bt_histI) auto
  qed
qed

lemma bt_hist_init: "transactions_init session generation start sequences = Inr b \<Longrightarrow> bt_hist session generation [] b"
  by (auto simp: transactions_init_def bind_res_Inr bt_inv_def bt_hist_def split: if_splits)

interpretation transactions: machine bt_events "\<lambda>b. \<exists>start sequences. transactions_init session generation start sequences = Inr b"
  "bt_hist session generation" for session generation
  by unfold_locales (blast intro: bt_hist_init, rule bt_hist_exec)

text \<open>
  C19. Over any history of calls on the transactions of a generation, interleaved with
  reservations by other users of the namespace and with its closing: at most eight tickets are
  pending; every issued ticket is of this generation with a sequence number above all earlier
  ones; a ticket is resolved only once and only after it was issued, either by a frame before
  its deadline that is its own receipt (this session, a valid checksum, the acknowledgement
  flags, its sequence and its kind), or by a poll at or after its deadline, by its own
  cancellation, or by the close; an issued ticket is either resolved or still pending with its
  deadline, so none is lost; and while the transactions are open, the receipt of a pending
  ticket that arrives in time resolves it with the result the frame carries.
\<close>
theorem tickets_resolved_once:
  assumes "transactions_init session generation start sequences = Inr b" "run_ops bt_events ops b = (h, b')"
  shows "length (bt_pending b') \<le> 8 \<and> each_event (ticket_justified session generation) h \<and>
    (\<forall>t d. Issued t d \<in> set h \<longrightarrow> (resolved h t \<longleftrightarrow> (rt_sequence t, t, d) \<notin> set (bt_pending b'))) \<and>
    (\<forall>t d plain now. transactions_active b' \<and> (rt_sequence t, t, d) \<in> set (bt_pending b') \<and> receipt_of session plain t \<and> now < d \<longrightarrow>
       (\<exists>b''. transactions_accept plain generation now b' = (Inr (Some \<lparr>tr_ticket = t, tr_result = u16_at plain 26\<rparr>), b'')))"
proof -
  have hist: "bt_hist session generation h b'" using transactions.reachable_inv [OF _ assms(2)] assms(1) by blast
  then have pend: "\<not> resolved h t" if "(rt_sequence t, t, d) \<in> set (bt_pending b')" for t d using that by (auto simp: bt_hist_def)
  have "\<exists>b''. transactions_accept plain generation now b' = (Inr (Some \<lparr>tr_ticket = t, tr_result = u16_at plain 26\<rparr>), b'')"
    if "transactions_active b'" "(rt_sequence t, t, d) \<in> set (bt_pending b')" "receipt_of session plain t" "now < d" for t d plain now
  proof -
    have "map_of (bt_pending b') (rt_sequence t) = Some (t, d)" "bt_session b' = session" "bt_generation b' = generation"
      using hist that(1,2) by (auto simp: bt_hist_def bt_inv_def transactions_active_def)
    with that show ?thesis
      by (intro exI [of _ "b'\<lparr>bt_pending := dict_pop (rt_sequence t) (bt_pending b')\<rparr>"])
        (auto simp: accept_receipt intro!: exI [of _ "rt_sequence t"])
  qed
  with pend hist show ?thesis by (auto simp: bt_hist_def bt_inv_def)
qed

definition demo_transactions :: broker_transactions where
  "demo_transactions = \<lparr>bt_sequences = \<lparr>bs_session = 7, bs_generation = 1, bs_next = 5, bs_closed = False\<rparr>,
     bt_owns_sequences = True, bt_session = 7, bt_generation = 1, bt_pending = [], bt_closed = False\<rparr>"

theorem tickets_resolved_once_witness:
  "\<exists>h b'. transactions_init 7 1 5 None = Inr demo_transactions \<and>
     run_ops bt_events [Register 3 1 0, Others 2, Register 4 9 0, Poll 2] demo_transactions = (h, b') \<and>
     Issued \<lparr>rt_generation = 1, rt_sequence = 5, rt_kind = 3\<rparr> 1 \<in> set h \<and> Issued \<lparr>rt_generation = 1, rt_sequence = 8, rt_kind = 4\<rparr> 9 \<in> set h \<and>
     resolved h \<lparr>rt_generation = 1, rt_sequence = 5, rt_kind = 3\<rparr> \<and> \<not> resolved h \<lparr>rt_generation = 1, rt_sequence = 8, rt_kind = 4\<rparr>"
proof -
  have init: "transactions_init 7 1 5 None = Inr demo_transactions"
    by (simp add: transactions_init_def sequences_init_def demo_transactions_def)
  let ?t = "\<lparr>rt_generation = 1, rt_sequence = 5, rt_kind = 3\<rparr>" and ?u = "\<lparr>rt_generation = 1, rt_sequence = 8, rt_kind = 4\<rparr>"
  have run: "run_ops bt_events [Register 3 1 0, Others 2, Register 4 9 0, Poll 2] demo_transactions =
    ([Issued ?t 1, Issued ?u 9, Resolved ?t (Poll 2)],
     \<lparr>bt_sequences = \<lparr>bs_session = 7, bs_generation = 1, bs_next = 9, bs_closed = False\<rparr>,
     bt_owns_sequences = True, bt_session = 7, bt_generation = 1, bt_pending = [(8, ?u, 9)], bt_closed = False\<rparr>)"
    by (simp add: demo_transactions_def bt_events_def transactions_register_def transactions_active_def sequences_match_def
        sequences_allocate_def sequences_reserve_def transactions_poll_def dict_pop_def Let_def)
  from tickets_resolved_once [OF init run] init run show ?thesis by (auto simp: resolved_def)
qed

end
