(* ===== verification/Budget.thy ===== *)
theory Budget
  imports Prelude
begin

text \<open>
  Admission of traffic: the token bucket of \<^verbatim>\<open>account_policy.py\<close>, the output accounting with
  reserved cleanup capacity of \<^verbatim>\<open>account_output_budget.py\<close> and the media rate budget of
  \<^verbatim>\<open>media_policy.py\<close>. Python floats are reals here, so rounding is not modelled; the
  reserve objects of the source are entries of a store, addressed by their identity.
  The lemmas show that reserved capacity cannot be borrowed: an accepted reservation
  can always be spent, whatever ordinary traffic does. The media budget admits no more
  than its rate over any period.
\<close>

section \<open>The token bucket\<close>

datatype account_policy = FINITE | CONTINUOUS

abbreviation (input) MAX_CLEANUP_RESERVES :: int where "MAX_CLEANUP_RESERVES \<equiv> 24"

record traffic_budget =
  tb_max_packets :: int
  tb_max_octets :: int
  tb_packets :: real
  tb_octets :: real
  tb_policy :: account_policy
  tb_cleanup_reserves :: int
  tb_last :: time

definition validate_media_capacity :: "int \<Rightarrow> exn + unit" where
  "validate_media_capacity capacity =
     (if capacity < 1 then Inl (ValueError ''invalid media route capacity'') else Inr ())"

definition traffic_init :: "int \<Rightarrow> int \<Rightarrow> account_policy \<Rightarrow> int \<Rightarrow> time \<Rightarrow> exn + traffic_budget" where
  "traffic_init packets octets policy members now =
     bind_res (validate_media_capacity members) (\<lambda>_.
       if \<not> (1 \<le> packets \<and> packets \<le> 512 * members) \<or> \<not> (1 \<le> octets \<and> octets \<le> 1024 * 1024 * members)
       then Inl (ValueError ''invalid traffic limits'')
       else Inr \<lparr>tb_max_packets = packets, tb_max_octets = octets, tb_packets = of_int packets,
                 tb_octets = of_int octets, tb_policy = policy,
                 tb_cleanup_reserves = max MAX_CLEANUP_RESERVES (18 + 2 * members), tb_last = now\<rparr>)"

definition traffic_available :: "int \<Rightarrow> int \<Rightarrow> time \<Rightarrow> traffic_budget \<Rightarrow> (exn + bool) \<times> traffic_budget" where
  "traffic_available packets octets now tb =
     (if now < tb_last tb then (Inl (ValueError ''invalid traffic clock''), tb)
      else let elapsed = now - tb_last tb;
               tb = (if tb_policy tb = CONTINUOUS
                     then tb\<lparr>tb_packets := min (of_int (tb_max_packets tb))
                               (tb_packets tb + elapsed * of_int (tb_max_packets tb) / 60),
                             tb_octets := min (of_int (tb_max_octets tb))
                               (tb_octets tb + elapsed * of_int (tb_max_octets tb) / 60)\<rparr>
                     else tb);
               tb = tb\<lparr>tb_last := now\<rparr>
           in (Inr (tb_packets tb \<ge> of_int packets \<and> tb_octets tb \<ge> of_int octets), tb))"

definition traffic_charge :: "int \<Rightarrow> int \<Rightarrow> time \<Rightarrow> traffic_budget \<Rightarrow> (exn + unit) \<times> traffic_budget" where
  "traffic_charge size' reserved now tb =
     (if \<not> (0 \<le> size' \<and> size' \<le> 1024 * 1024) \<or> \<not> (0 \<le> reserved \<and> reserved \<le> tb_cleanup_reserves tb)
      then (Inl (ValueError ''invalid traffic charge''), tb)
      else case traffic_available (1 + reserved) (size' + reserved * 4096) now tb of
        (Inl e, tb) \<Rightarrow> (Inl e, tb)
      | (Inr ok, tb) \<Rightarrow>
          if \<not> ok then (Inl (ValueError ''traffic budget exhausted''), tb)
          else (Inr (), tb\<lparr>tb_packets := tb_packets tb - 1, tb_octets := tb_octets tb - of_int size'\<rparr>))"

section \<open>Output with reserves\<close>

type_synonym slots = "(string, nat) dict"

record account_output =
  ao_traffic :: traffic_budget
  ao_ptz :: "nat option"
  ao_media :: "nat list"
  ao_media_capacity :: int
  ao_siren :: "nat option"
  ao_objects :: "(nat, slots) dict"
  ao_fresh :: nat

definition output_init :: "int option \<Rightarrow> int option \<Rightarrow> account_policy \<Rightarrow> int \<Rightarrow> time \<Rightarrow> exn + account_output" where
  "output_init packets octets policy media_capacity now =
     bind_res (validate_media_capacity media_capacity) (\<lambda>_.
     bind_res (traffic_init (case packets of None \<Rightarrow> 512 * media_capacity | Some n \<Rightarrow> n)
                 (case octets of None \<Rightarrow> 1024 * 1024 * media_capacity | Some n \<Rightarrow> n) policy media_capacity now) (\<lambda>tb.
     Inr \<lparr>ao_traffic = tb, ao_ptz = None, ao_media = [], ao_media_capacity = media_capacity, ao_siren = None,
          ao_objects = [], ao_fresh = 0\<rparr>))"

definition slots_of :: "nat \<Rightarrow> account_output \<Rightarrow> slots" where
  "slots_of i a = (case map_of (ao_objects a) i of None \<Rightarrow> [] | Some d \<Rightarrow> d)"

definition reserve_remaining :: "nat \<Rightarrow> account_output \<Rightarrow> nat" where
  "reserve_remaining i a = sum_list (map snd (slots_of i a))"

definition output_reserved :: "account_output \<Rightarrow> nat" where
  "output_reserved a = (case ao_ptz a of Some i \<Rightarrow> reserve_remaining i a | None \<Rightarrow> 0) +
     sum_list (map (\<lambda>i. reserve_remaining i a) (ao_media a)) +
     (case ao_siren a of Some i \<Rightarrow> reserve_remaining i a | None \<Rightarrow> 0)"

definition output_charge :: "int \<Rightarrow> time \<Rightarrow> account_output \<Rightarrow> (exn + unit) \<times> account_output" where
  "output_charge size' now a =
     (if \<not> (0 < size' \<and> size' \<le> 1024 * 1024) then (Inl (ValueError ''invalid datagram size''), a)
      else case traffic_charge size' (int (output_reserved a)) now (ao_traffic a) of
        (Inl e, tb) \<Rightarrow> (Inl (OutputExhausted ''account output budget exhausted''), a\<lparr>ao_traffic := tb\<rparr>)
      | (Inr _, tb) \<Rightarrow> (Inr (), a\<lparr>ao_traffic := tb\<rparr>))"

text \<open>A new reserve object with its slots, and the constructor calls of the three classes.\<close>

definition ptz_slots :: slots where "ptz_slots = [(''start'', 1), (''release'', 3), (''receipt'', 2)]"
definition siren_slots :: slots where "siren_slots = [(''on'', 1), (''off'', 2), (''read'', 3), (''receipt'', 6)]"
definition media_slots :: slots where "media_slots = [(''open'', 1), (''close'', 1)]"

definition new_reserve :: "slots \<Rightarrow> account_output \<Rightarrow> account_output" where
  "new_reserve d a = a\<lparr>ao_objects := dict_set (ao_fresh a) d (ao_objects a), ao_fresh := ao_fresh a + 1\<rparr>"

definition reserve_ptz :: "time \<Rightarrow> account_output \<Rightarrow> (exn + nat) \<times> account_output" where
  "reserve_ptz now a =
     (let required = int (output_reserved a) + 6
      in if ao_ptz a \<noteq> None then (Inl (OutputExhausted ''PTZ cleanup capacity unavailable''), a)
      else case traffic_available required (required * 4096) now (ao_traffic a) of
        (Inl e, tb) \<Rightarrow> (Inl e, a\<lparr>ao_traffic := tb\<rparr>)
      | (Inr ok, tb) \<Rightarrow>
          let a = a\<lparr>ao_traffic := tb\<rparr>
          in if \<not> ok then (Inl (OutputExhausted ''PTZ cleanup capacity unavailable''), a)
             else (Inr (ao_fresh a), (new_reserve ptz_slots a)\<lparr>ao_ptz := Some (ao_fresh a)\<rparr>))"

definition reserve_siren :: "time \<Rightarrow> account_output \<Rightarrow> (exn + nat) \<times> account_output" where
  "reserve_siren now a =
     (let required = int (output_reserved a) + 12
      in if ao_siren a \<noteq> None then (Inl (OutputExhausted ''siren cleanup capacity unavailable''), a)
      else case traffic_available required (required * 4096) now (ao_traffic a) of
        (Inl e, tb) \<Rightarrow> (Inl e, a\<lparr>ao_traffic := tb\<rparr>)
      | (Inr ok, tb) \<Rightarrow>
          let a = a\<lparr>ao_traffic := tb\<rparr>
          in if \<not> ok then (Inl (OutputExhausted ''siren cleanup capacity unavailable''), a)
             else (Inr (ao_fresh a), (new_reserve siren_slots a)\<lparr>ao_siren := Some (ao_fresh a)\<rparr>))"

definition reserve_media :: "time \<Rightarrow> account_output \<Rightarrow> (exn + nat) \<times> account_output" where
  "reserve_media now a =
     (let required = int (output_reserved a) + 2
      in if int (length (ao_media a)) \<ge> ao_media_capacity a
      then (Inl (OutputExhausted ''media cleanup capacity unavailable''), a)
      else case traffic_available required (required * 4096) now (ao_traffic a) of
        (Inl e, tb) \<Rightarrow> (Inl e, a\<lparr>ao_traffic := tb\<rparr>)
      | (Inr ok, tb) \<Rightarrow>
          let a = a\<lparr>ao_traffic := tb\<rparr>
          in if \<not> ok then (Inl (OutputExhausted ''media cleanup capacity unavailable''), a)
             else (Inr (ao_fresh a), (new_reserve media_slots a)\<lparr>ao_media := ao_media a @ [ao_fresh a]\<rparr>))"

text \<open>The common body of the three \<^verbatim>\<open>charge\<close> methods: \<open>live\<close> is the owner's identity test.\<close>

definition reserve_spend ::
  "bool \<Rightarrow> string \<Rightarrow> nat \<Rightarrow> string \<Rightarrow> int \<Rightarrow> time \<Rightarrow> account_output \<Rightarrow> (exn + unit) \<times> account_output"
where
  "reserve_spend live msg i kind size' now a =
     (case map_of (slots_of i a) kind of
        None \<Rightarrow> (Inl (OutputExhausted msg), a)
      | Some n \<Rightarrow>
          if \<not> live \<or> n = 0 \<or> \<not> (0 < size' \<and> size' \<le> 4096) then (Inl (OutputExhausted msg), a)
          else case traffic_charge size' 0 now (ao_traffic a) of
            (Inl e, tb) \<Rightarrow> (Inl e, a\<lparr>ao_traffic := tb\<rparr>)
          | (Inr _, tb) \<Rightarrow>
              (Inr (), a\<lparr>ao_traffic := tb, ao_objects := dict_set i (dict_set kind (n - 1) (slots_of i a)) (ao_objects a)\<rparr>))"

definition ptz_charge :: "nat \<Rightarrow> string \<Rightarrow> int \<Rightarrow> time \<Rightarrow> account_output \<Rightarrow> (exn + unit) \<times> account_output" where
  "ptz_charge i kind size' now a =
     reserve_spend (ao_ptz a = Some i) ''PTZ output reservation unavailable'' i kind size' now a"

definition siren_charge :: "nat \<Rightarrow> string \<Rightarrow> int \<Rightarrow> time \<Rightarrow> account_output \<Rightarrow> (exn + unit) \<times> account_output" where
  "siren_charge i kind size' now a =
     reserve_spend (ao_siren a = Some i) ''siren output reservation unavailable'' i kind size' now a"

definition media_charge :: "nat \<Rightarrow> string \<Rightarrow> int \<Rightarrow> time \<Rightarrow> account_output \<Rightarrow> (exn + unit) \<times> account_output" where
  "media_charge i kind size' now a =
     reserve_spend (i \<in> set (ao_media a)) ''media output reservation unavailable'' i kind size' now a"

definition zero_slots :: "nat \<Rightarrow> account_output \<Rightarrow> account_output" where
  "zero_slots i a = a\<lparr>ao_objects := dict_set i (map (\<lambda>(k, n). (k, 0)) (slots_of i a)) (ao_objects a)\<rparr>"

definition ptz_close :: "nat \<Rightarrow> account_output \<Rightarrow> account_output" where
  "ptz_close i a = zero_slots i (if ao_ptz a = Some i then a\<lparr>ao_ptz := None\<rparr> else a)"

definition siren_close :: "nat \<Rightarrow> account_output \<Rightarrow> account_output" where
  "siren_close i a = zero_slots i (if ao_siren a = Some i then a\<lparr>ao_siren := None\<rparr> else a)"

definition media_close :: "nat \<Rightarrow> account_output \<Rightarrow> account_output" where
  "media_close i a = zero_slots i (a\<lparr>ao_media := remove1 i (ao_media a)\<rparr>)"

section \<open>Reserved capacity cannot be borrowed\<close>

definition tb_ok :: "traffic_budget \<Rightarrow> bool" where
  "tb_ok tb \<longleftrightarrow> 0 \<le> tb_max_packets tb \<and> 0 \<le> tb_max_octets tb \<and>
     tb_packets tb \<le> of_int (tb_max_packets tb) \<and> tb_octets tb \<le> of_int (tb_max_octets tb)"

lemma traffic_available_ok:
  assumes "tb_ok tb" "traffic_available p q now tb = (res, tb')"
  shows "tb_ok tb'" "tb_packets tb \<le> tb_packets tb'" "tb_octets tb \<le> tb_octets tb'"
    "tb_cleanup_reserves tb' = tb_cleanup_reserves tb"
    "res = Inr ok \<Longrightarrow> ok \<longleftrightarrow> tb_packets tb' \<ge> of_int p \<and> tb_octets tb' \<ge> of_int q"
    "tb_last tb \<le> now \<Longrightarrow> \<exists>ok. res = Inr ok"
  using assms
  by (auto simp: traffic_available_def tb_ok_def Let_def divide_nonneg_nonneg split: if_splits)

lemma traffic_charge_ok:
  assumes "tb_ok tb" "traffic_charge n reserved now tb = (res, tb')"
  shows "tb_ok tb'" "tb_cleanup_reserves tb' = tb_cleanup_reserves tb"
    "res = Inl e \<Longrightarrow> tb_packets tb \<le> tb_packets tb' \<and> tb_octets tb \<le> tb_octets tb'"
    "res = Inr u \<Longrightarrow> 0 \<le> reserved \<and> of_int reserved \<le> tb_packets tb' \<and> of_int (reserved * 4096) \<le> tb_octets tb' \<and>
       tb_packets tb - 1 \<le> tb_packets tb' \<and> tb_octets tb - of_int n \<le> tb_octets tb'"
proof -
  obtain r1 tb1 where av: "traffic_available (1 + reserved) (n + reserved * 4096) now tb = (r1, tb1)" by fastforce
  note a = traffic_available_ok(1-5) [OF assms(1) av]
  note c = assms(2) [unfolded traffic_charge_def av]
  show "tb_ok tb'" using c a(1) assms(1) by (auto simp: tb_ok_def split: if_splits sum.splits)
  show "tb_cleanup_reserves tb' = tb_cleanup_reserves tb" using c a(4) by (auto split: if_splits sum.splits)
  show "tb_packets tb \<le> tb_packets tb' \<and> tb_octets tb \<le> tb_octets tb'" if "res = Inl e"
    using c a(2,3) that by (auto split: if_splits sum.splits)
  show "0 \<le> reserved \<and> of_int reserved \<le> tb_packets tb' \<and> of_int (reserved * 4096) \<le> tb_octets tb' \<and>
       tb_packets tb - 1 \<le> tb_packets tb' \<and> tb_octets tb - of_int n \<le> tb_octets tb'" if "res = Inr u"
    using c a(2,3) a(5) [of True] that by (auto split: if_splits sum.splits)
qed

lemma traffic_charge_enough:
  assumes "tb_ok tb" "tb_last tb \<le> now" "0 \<le> n" "n \<le> 4096" "0 \<le> tb_cleanup_reserves tb"
    "1 \<le> tb_packets tb" "4096 \<le> tb_octets tb"
  shows "fst (traffic_charge n 0 now tb) = Inr ()"
proof -
  obtain r1 tb1 where av: "traffic_available (1 + 0) (n + 0 * 4096) now tb = (r1, tb1)" by fastforce
  note a = traffic_available_ok [OF assms(1) av]
  from a(6) assms(2) obtain ok where ok: "r1 = Inr ok" by blast
  have "of_int n \<le> (4096 :: real)" using assms(4) by linarith
  then have "ok" using a(5) [OF ok] a(2,3) assms(6,7) by auto
  then show ?thesis using assms(3-5) ok av by (auto simp: traffic_charge_def)
qed

definition ao_live :: "account_output \<Rightarrow> nat list" where
  "ao_live a = (case ao_ptz a of Some i \<Rightarrow> [i] | None \<Rightarrow> []) @ ao_media a @ (case ao_siren a of Some i \<Rightarrow> [i] | None \<Rightarrow> [])"

definition ao_inv :: "account_output \<Rightarrow> bool" where
  "ao_inv a \<longleftrightarrow> distinct (ao_live a) \<and> (\<forall>i \<in> set (ao_live a). i < ao_fresh a) \<and>
     (\<forall>i. distinct (map fst (slots_of i a))) \<and>
     tb_ok (ao_traffic a) \<and> 0 \<le> tb_cleanup_reserves (ao_traffic a) \<and>
     real (output_reserved a) \<le> tb_packets (ao_traffic a) \<and>
     real (4096 * output_reserved a) \<le> tb_octets (ao_traffic a)"

lemma output_reserved_live: "output_reserved a = sum_list (map (\<lambda>i. reserve_remaining i a) (ao_live a))"
  by (simp add: output_reserved_def ao_live_def split: option.split)

lemma sum_list_upd:
  fixes f :: "nat \<Rightarrow> nat"
  assumes "distinct xs"
  shows "sum_list (map (f(i := v)) xs) + (if i \<in> set xs then f i else 0) = sum_list (map f xs) + (if i \<in> set xs then v else 0)"
  using assms by (induction xs) (auto split: if_splits)

text \<open>Changing the slots of one object moves the total by the difference.\<close>

lemma slots_of_set: "slots_of j (a\<lparr>ao_objects := dict_set i d (ao_objects a)\<rparr>) = (if j = i then d else slots_of j a)"
  by (simp add: slots_of_def)

lemma reserve_remaining_set:
  "(\<lambda>j. reserve_remaining j (a\<lparr>ao_objects := dict_set i d (ao_objects a)\<rparr>)) =
   (\<lambda>j. reserve_remaining j a)(i := sum_list (map snd d))"
  by (auto simp: reserve_remaining_def slots_of_set)

lemma reserved_set_slots:
  assumes "distinct (ao_live a)"
  shows "output_reserved (a\<lparr>ao_objects := dict_set i d (ao_objects a)\<rparr>) + (if i \<in> set (ao_live a) then reserve_remaining i a else 0)
    = output_reserved a + (if i \<in> set (ao_live a) then sum_list (map snd d) else 0)"
proof -
  have l: "ao_live (a\<lparr>ao_objects := dict_set i d (ao_objects a)\<rparr>) = ao_live a" by (simp add: ao_live_def)
  show ?thesis
    unfolding output_reserved_live l reserve_remaining_set
    using sum_list_upd [OF assms, of "\<lambda>j. reserve_remaining j a" i "sum_list (map snd d)"] by simp
qed

lemma reserve_remaining_traffic [simp]: "reserve_remaining i (a\<lparr>ao_traffic := tb\<rparr>) = reserve_remaining i a"
  by (simp add: reserve_remaining_def slots_of_def)

lemma output_reserved_traffic [simp]: "output_reserved (a\<lparr>ao_traffic := tb\<rparr>) = output_reserved a"
  by (simp add: output_reserved_def split: option.split)

lemma ao_live_traffic [simp]: "ao_live (a\<lparr>ao_traffic := tb\<rparr>) = ao_live a"
  by (simp add: ao_live_def)

lemma slots_of_traffic [simp]: "slots_of i (a\<lparr>ao_traffic := tb\<rparr>) = slots_of i a"
  by (simp add: slots_of_def)

lemma ao_inv_traffic:
  assumes "ao_inv a" "tb_ok tb" "tb_cleanup_reserves tb = tb_cleanup_reserves (ao_traffic a)"
    "real (output_reserved a) \<le> tb_packets tb" "real (4096 * output_reserved a) \<le> tb_octets tb"
  shows "ao_inv (a\<lparr>ao_traffic := tb\<rparr>)"
  using assms by (simp add: ao_inv_def)

lemma sum_slots_set:
  fixes d :: slots
  assumes "distinct (map fst d)" "map_of d k = Some n"
  shows "sum_list (map snd (dict_set k m d)) + n = sum_list (map snd d) + m"
  using assms
proof (induction d)
  case (Cons x d)
  obtain k' v where x: "x = (k', v)" by fastforce
  with Cons show ?case by (cases "k' = k") auto
qed simp

lemma output_charge_inv:
  assumes "ao_inv a"
  shows "ao_inv (snd (output_charge n now a))"
proof -
  obtain r tb where c: "traffic_charge n (int (output_reserved a)) now (ao_traffic a) = (r, tb)" by fastforce
  have ok: "tb_ok (ao_traffic a)" using assms by (simp add: ao_inv_def)
  have "real (output_reserved a) \<le> tb_packets tb \<and> real (4096 * output_reserved a) \<le> tb_octets tb"
    using traffic_charge_ok(3,4) [OF ok c] assms by (cases r) (auto simp: ao_inv_def)
  then have "ao_inv (a\<lparr>ao_traffic := tb\<rparr>)"
    using traffic_charge_ok(1,2) [OF ok c] assms by (intro ao_inv_traffic) auto
  with assms c show ?thesis by (simp add: output_charge_def split: sum.split)
qed

text \<open>The common part of the three reservations.\<close>

lemma available_inv:
  assumes "ao_inv a" "traffic_available p q now (ao_traffic a) = (r, tb)"
  shows "ao_inv (a\<lparr>ao_traffic := tb\<rparr>)"
  using assms traffic_available_ok(1-4) [OF _ assms(2)] by (intro ao_inv_traffic) (auto simp: ao_inv_def)

lemma new_reserve_inv:
  assumes "ao_inv a" "distinct (map fst d)" "ao_live (f (new_reserve d a)) = L" "\<And>b. ao_objects (f b) = ao_objects b"
    "\<And>b. ao_traffic (f b) = ao_traffic b" "\<And>b. ao_fresh (f b) = ao_fresh b"
    "set L = insert (ao_fresh a) (set (ao_live a))" "distinct L"
    "real (output_reserved a + sum_list (map snd d)) \<le> tb_packets (ao_traffic a)"
    "real (4096 * (output_reserved a + sum_list (map snd d))) \<le> tb_octets (ao_traffic a)"
  shows "ao_inv (f (new_reserve d a))"
proof -
  let ?b = "f (new_reserve d a)"
  have s: "slots_of j ?b = (if j = ao_fresh a then d else slots_of j a)" for j
    by (simp add: slots_of_def assms(4) new_reserve_def)
  have fr: "ao_fresh a \<notin> set (ao_live a)" using assms(1) by (auto simp: ao_inv_def)
  have "output_reserved ?b = (\<Sum>j \<in> set L. reserve_remaining j ?b)"
    using assms(3,8) by (simp add: output_reserved_live sum_list_distinct_conv_sum_set)
  also have "\<dots> = sum_list (map snd d) + (\<Sum>j \<in> set (ao_live a). reserve_remaining j ?b)"
    unfolding assms(7) using fr by (simp add: reserve_remaining_def s)
  also have "(\<Sum>j \<in> set (ao_live a). reserve_remaining j ?b) = (\<Sum>j \<in> set (ao_live a). reserve_remaining j a)"
    using fr by (intro sum.cong) (auto simp: reserve_remaining_def s)
  also have "\<dots> = output_reserved a"
    using assms(1) by (simp add: output_reserved_live sum_list_distinct_conv_sum_set ao_inv_def)
  finally have "output_reserved ?b = output_reserved a + sum_list (map snd d)" by simp
  with assms s show ?thesis by (auto simp: ao_inv_def new_reserve_def)
qed

lemma reserve_ptz_inv:
  assumes "ao_inv a"
  shows "ao_inv (snd (reserve_ptz now a))"
proof (cases "ao_ptz a")
  case None
  obtain r tb where av: "traffic_available (int (output_reserved a) + 6) ((int (output_reserved a) + 6) * 4096) now (ao_traffic a) = (r, tb)"
    by fastforce
  let ?a = "a\<lparr>ao_traffic := tb\<rparr>"
  have i: "ao_inv ?a" by (rule available_inv [OF assms av])
  show ?thesis
  proof (cases "r = Inr True")
    case True
    have ok: "tb_ok (ao_traffic a)" using assms by (simp add: ao_inv_def)
    have "of_int (int (output_reserved a) + 6) \<le> tb_packets tb \<and> of_int ((int (output_reserved a) + 6) * 4096) \<le> tb_octets tb"
      using traffic_available_ok(5) [OF ok av True] by simp
    then have "ao_inv ((new_reserve ptz_slots ?a)\<lparr>ao_ptz := Some (ao_fresh a)\<rparr>)"
      using i None by (intro new_reserve_inv [OF i, where f = "\<lambda>b. b\<lparr>ao_ptz := Some (ao_fresh a)\<rparr>"])
        (auto simp: ptz_slots_def ao_live_def new_reserve_def ao_inv_def split: option.splits)
    with None True av show ?thesis by (simp add: reserve_ptz_def Let_def)
  next
    case False
    with None av i show ?thesis by (auto simp: reserve_ptz_def Let_def split: sum.split)
  qed
qed (use assms in \<open>simp add: reserve_ptz_def\<close>)

lemma reserve_siren_inv:
  assumes "ao_inv a"
  shows "ao_inv (snd (reserve_siren now a))"
proof (cases "ao_siren a")
  case None
  obtain r tb where av: "traffic_available (int (output_reserved a) + 12) ((int (output_reserved a) + 12) * 4096) now (ao_traffic a) = (r, tb)"
    by fastforce
  let ?a = "a\<lparr>ao_traffic := tb\<rparr>"
  have i: "ao_inv ?a" by (rule available_inv [OF assms av])
  show ?thesis
  proof (cases "r = Inr True")
    case True
    have ok: "tb_ok (ao_traffic a)" using assms by (simp add: ao_inv_def)
    have "of_int (int (output_reserved a) + 12) \<le> tb_packets tb \<and> of_int ((int (output_reserved a) + 12) * 4096) \<le> tb_octets tb"
      using traffic_available_ok(5) [OF ok av True] by simp
    then have "ao_inv ((new_reserve siren_slots ?a)\<lparr>ao_siren := Some (ao_fresh a)\<rparr>)"
      using i None by (intro new_reserve_inv [OF i, where f = "\<lambda>b. b\<lparr>ao_siren := Some (ao_fresh a)\<rparr>"])
        (auto simp: siren_slots_def ao_live_def new_reserve_def ao_inv_def split: option.splits)
    with None True av show ?thesis by (simp add: reserve_siren_def Let_def)
  next
    case False
    with None av i show ?thesis by (auto simp: reserve_siren_def Let_def split: sum.split)
  qed
qed (use assms in \<open>simp add: reserve_siren_def\<close>)

lemma reserve_media_inv:
  assumes "ao_inv a"
  shows "ao_inv (snd (reserve_media now a))"
proof (cases "int (length (ao_media a)) \<ge> ao_media_capacity a")
  case False
  obtain r tb where av: "traffic_available (int (output_reserved a) + 2) ((int (output_reserved a) + 2) * 4096) now (ao_traffic a) = (r, tb)"
    by fastforce
  let ?a = "a\<lparr>ao_traffic := tb\<rparr>"
  have i: "ao_inv ?a" by (rule available_inv [OF assms av])
  show ?thesis
  proof (cases "r = Inr True")
    case True
    have ok: "tb_ok (ao_traffic a)" using assms by (simp add: ao_inv_def)
    have "of_int (int (output_reserved a) + 2) \<le> tb_packets tb \<and> of_int ((int (output_reserved a) + 2) * 4096) \<le> tb_octets tb"
      using traffic_available_ok(5) [OF ok av True] by simp
    then have "ao_inv ((new_reserve media_slots ?a)\<lparr>ao_media := ao_media a @ [ao_fresh a]\<rparr>)"
      using i by (intro new_reserve_inv [OF i, where f = "\<lambda>b. b\<lparr>ao_media := ao_media a @ [ao_fresh a]\<rparr>"])
        (auto simp: media_slots_def ao_live_def new_reserve_def ao_inv_def split: option.splits)
    with False True av show ?thesis by (simp add: reserve_media_def Let_def)
  next
    case no: False
    with False av i show ?thesis by (auto simp: reserve_media_def Let_def split: sum.split)
  qed
qed (use assms in \<open>simp add: reserve_media_def\<close>)

lemma reserve_spend_cases:
  assumes "reserve_spend live msg i kind n now a = (res, a')"
  obtains (refused) "res = Inl (OutputExhausted msg)" "a' = a"
    "\<not> live \<or> \<not> (0 < n \<and> n \<le> 4096) \<or> map_of (slots_of i a) kind \<in> {None, Some 0}"
  | (failed) e tb where "traffic_charge n 0 now (ao_traffic a) = (Inl e, tb)" "res = Inl e" "a' = a\<lparr>ao_traffic := tb\<rparr>"
      "live" "0 < n \<and> n \<le> 4096"
  | (spent) k tb where "traffic_charge n 0 now (ao_traffic a) = (Inr (), tb)" "res = Inr ()" "live" "0 < n" "n \<le> 4096"
      "map_of (slots_of i a) kind = Some (Suc k)"
      "a' = a\<lparr>ao_traffic := tb, ao_objects := dict_set i (dict_set kind k (slots_of i a)) (ao_objects a)\<rparr>"
proof (cases "map_of (slots_of i a) kind")
  case None
  with assms refused show ?thesis by (simp add: reserve_spend_def)
next
  case (Some m)
  obtain r tb where c: "traffic_charge n 0 now (ao_traffic a) = (r, tb)" by fastforce
  show ?thesis
  proof (cases "\<not> live \<or> m = 0 \<or> \<not> (0 < n \<and> n \<le> 4096)")
    case True
    with assms Some have "res = Inl (OutputExhausted msg)" "a' = a" by (auto simp: reserve_spend_def)
    with True Some show ?thesis by (intro refused) auto
  next
    case False
    then obtain k where "m = Suc k" by (cases m) auto
    with False Some assms c show ?thesis
      by (cases r) (auto simp: reserve_spend_def intro: failed spent)
  qed
qed

lemma ao_update_commute: "a\<lparr>ao_traffic := tb, ao_objects := d\<rparr> = a\<lparr>ao_objects := d, ao_traffic := tb\<rparr>"
  by (cases a) simp

lemma reserve_spend_inv:
  assumes "ao_inv a" "reserve_spend live msg i kind n now a = (res, a')" "live \<longrightarrow> i \<in> set (ao_live a)"
  shows "ao_inv a'"
  using assms(2)
proof (cases rule: reserve_spend_cases)
  case refused
  with assms(1) show ?thesis by simp
next
  case (failed e tb)
  have "tb_ok (ao_traffic a)" using assms(1) by (simp add: ao_inv_def)
  from traffic_charge_ok(1-3) [OF this failed(1)] failed assms(1) show ?thesis
    by (auto simp: ao_inv_def intro!: ao_inv_traffic)
next
  case (spent k tb)
  let ?d = "dict_set kind k (slots_of i a)"
  have ok: "tb_ok (ao_traffic a)" and d: "distinct (map fst (slots_of i a))" and l: "distinct (ao_live a)"
    using assms(1) by (auto simp: ao_inv_def)
  note c = traffic_charge_ok [OF ok spent(1)]
  have i: "i \<in> set (ao_live a)" using assms(3) spent(3) by simp
  have "sum_list (map snd ?d) + 1 = reserve_remaining i a"
    using sum_slots_set [OF d spent(6), of k] by (simp add: reserve_remaining_def)
  with reserved_set_slots [OF l, of i ?d] i
  have res: "output_reserved (a\<lparr>ao_objects := dict_set i ?d (ao_objects a)\<rparr>) + 1 = output_reserved a" by simp
  let ?b = "a\<lparr>ao_objects := dict_set i ?d (ao_objects a)\<rparr>"
  have sl: "distinct (map fst (slots_of j ?b))" for j using assms(1) d by (simp add: slots_of_set ao_inv_def)
  have lv: "ao_live ?b = ao_live a" by (simp add: ao_live_def)
  have pk: "tb_packets (ao_traffic a) - 1 \<le> tb_packets tb" "tb_octets (ao_traffic a) - of_int n \<le> tb_octets tb"
    using c(4) [OF refl] by auto
  have n: "real_of_int n \<le> 4096" using spent(5) by linarith
  have inv: "real (output_reserved a) \<le> tb_packets (ao_traffic a)" "real (4096 * output_reserved a) \<le> tb_octets (ao_traffic a)"
    using assms(1) by (auto simp: ao_inv_def)
  have rr: "real (output_reserved ?b) = real (output_reserved a) - 1" using res by linarith
  have "real (output_reserved ?b) \<le> tb_packets tb" "real (4096 * output_reserved ?b) \<le> tb_octets tb"
    using rr pk n inv by auto
  then have "ao_inv (?b\<lparr>ao_traffic := tb\<rparr>)"
    using assms(1) sl lv c(1,2) unfolding ao_inv_def by (simp only: output_reserved_traffic ao_live_traffic slots_of_traffic) simp
  then show ?thesis unfolding spent(7) by (simp only: ao_update_commute)
qed

lemma zero_slots_inv:
  assumes "ao_inv a"
  shows "ao_inv (zero_slots i a)"
proof -
  let ?d = "map (\<lambda>(k, n). (k, 0)) (slots_of i a) :: slots"
  have "sum_list (map snd ?d) = 0" by (simp add: split_beta comp_def)
  moreover have l: "distinct (ao_live a)" using assms by (simp add: ao_inv_def)
  ultimately have "output_reserved (zero_slots i a) + (if i \<in> set (ao_live a) then reserve_remaining i a else 0) =
      output_reserved a + (if i \<in> set (ao_live a) then 0 else 0)"
    using reserved_set_slots [OF l, of i ?d] unfolding zero_slots_def by presburger
  then have le: "output_reserved (zero_slots i a) \<le> output_reserved a" by (simp split: if_splits)
  have "map fst ?d = map fst (slots_of i a)" by auto
  then have "distinct (map fst (slots_of j (zero_slots i a)))" for j
    using assms by (metis ao_inv_def slots_of_set zero_slots_def)
  moreover have "ao_live (zero_slots i a) = ao_live a" "ao_traffic (zero_slots i a) = ao_traffic a" "ao_fresh (zero_slots i a) = ao_fresh a"
    by (simp_all add: zero_slots_def ao_live_def)
  moreover have "real (output_reserved (zero_slots i a)) \<le> real (output_reserved a)"
    "real (4096 * output_reserved (zero_slots i a)) \<le> real (4096 * output_reserved a)" using le by simp_all
  ultimately show ?thesis using assms unfolding ao_inv_def by (auto intro: order_trans)
qed

lemma ao_inv_fewer:
  assumes "ao_inv a" "ao_objects b = ao_objects a" "ao_traffic b = ao_traffic a" "ao_fresh b = ao_fresh a"
    "set (ao_live b) \<subseteq> set (ao_live a)" "distinct (ao_live b)"
  shows "ao_inv b"
proof -
  have s: "slots_of j b = slots_of j a" for j using assms(2) by (simp add: slots_of_def)
  have "output_reserved b = (\<Sum>j \<in> set (ao_live b). reserve_remaining j a)"
    using assms(6) s by (simp add: output_reserved_live sum_list_distinct_conv_sum_set reserve_remaining_def)
  also have "\<dots> \<le> (\<Sum>j \<in> set (ao_live a). reserve_remaining j a)" using assms(5) by (intro sum_mono2) auto
  also have "\<dots> = output_reserved a" using assms(1) by (simp add: output_reserved_live sum_list_distinct_conv_sum_set ao_inv_def)
  finally have "real (output_reserved b) \<le> real (output_reserved a)" "real (4096 * output_reserved b) \<le> real (4096 * output_reserved a)"
    by simp_all
  with assms s show ?thesis unfolding ao_inv_def by (auto intro: order_trans)
qed

lemma detach_inv:
  assumes "ao_inv a"
  shows "ao_inv (a\<lparr>ao_ptz := None\<rparr>)" "ao_inv (a\<lparr>ao_siren := None\<rparr>)" "ao_inv (a\<lparr>ao_media := remove1 i (ao_media a)\<rparr>)"
proof -
  have d: "distinct (ao_live a)" using assms by (simp add: ao_inv_def)
  show "ao_inv (a\<lparr>ao_ptz := None\<rparr>)" "ao_inv (a\<lparr>ao_siren := None\<rparr>)" "ao_inv (a\<lparr>ao_media := remove1 i (ao_media a)\<rparr>)"
    using d by (auto simp: ao_live_def dest: notin_set_remove1 intro!: ao_inv_fewer [OF assms])
qed

section \<open>Every reachable account can pay for its cleanup\<close>

inductive output_reach :: "account_output \<Rightarrow> account_output \<Rightarrow> bool" where
  start: "output_reach a a"
| charge: "output_reach a b \<Longrightarrow> output_reach a (snd (output_charge n now b))"
| open_ptz: "output_reach a b \<Longrightarrow> output_reach a (snd (reserve_ptz now b))"
| open_siren: "output_reach a b \<Longrightarrow> output_reach a (snd (reserve_siren now b))"
| open_media: "output_reach a b \<Longrightarrow> output_reach a (snd (reserve_media now b))"
| ptz: "output_reach a b \<Longrightarrow> output_reach a (snd (ptz_charge i kind n now b))"
| siren: "output_reach a b \<Longrightarrow> output_reach a (snd (siren_charge i kind n now b))"
| media: "output_reach a b \<Longrightarrow> output_reach a (snd (media_charge i kind n now b))"
| close_ptz: "output_reach a b \<Longrightarrow> output_reach a (ptz_close i b)"
| close_siren: "output_reach a b \<Longrightarrow> output_reach a (siren_close i b)"
| close_media: "output_reach a b \<Longrightarrow> output_reach a (media_close i b)"

lemma spend_inv': "ao_inv a \<Longrightarrow> (live \<Longrightarrow> i \<in> set (ao_live a)) \<Longrightarrow> ao_inv (snd (reserve_spend live msg i kind n now a))"
  using reserve_spend_inv [of a live msg i kind n now "fst (reserve_spend live msg i kind n now a)"] by fastforce

lemma output_reach_inv: "output_reach a b \<Longrightarrow> ao_inv a \<Longrightarrow> ao_inv b"
proof (induction rule: output_reach.induct)
  case (close_ptz a b i)
  then show ?case unfolding ptz_close_def by (intro zero_slots_inv) (simp add: detach_inv)
next
  case (close_siren a b i)
  then show ?case unfolding siren_close_def by (intro zero_slots_inv) (simp add: detach_inv)
next
  case (close_media a b i)
  then show ?case unfolding media_close_def by (intro zero_slots_inv) (simp add: detach_inv)
next
  case (ptz a b i kind n now)
  then show ?case unfolding ptz_charge_def by (intro spend_inv') (auto simp: ao_live_def)
next
  case (siren a b i kind n now)
  then show ?case unfolding siren_charge_def by (intro spend_inv') (auto simp: ao_live_def)
next
  case (media a b i kind n now)
  then show ?case unfolding media_charge_def by (intro spend_inv') (auto simp: ao_live_def)
qed (simp_all add: output_charge_inv reserve_ptz_inv reserve_siren_inv reserve_media_inv)

lemma output_init_inv:
  assumes "output_init packets octets policy capacity now = Inr a"
  shows "ao_inv a"
proof -
  obtain p q where "1 \<le> p" "1 \<le> q" and a: "a = \<lparr>ao_traffic = \<lparr>tb_max_packets = p, tb_max_octets = q, tb_packets = of_int p,
      tb_octets = of_int q, tb_policy = policy, tb_cleanup_reserves = max MAX_CLEANUP_RESERVES (18 + 2 * capacity), tb_last = now\<rparr>,
      ao_ptz = None, ao_media = [], ao_media_capacity = capacity, ao_siren = None, ao_objects = [], ao_fresh = 0\<rparr>"
    using assms by (auto simp: output_init_def traffic_init_def bind_res_Inr split: if_splits)
  then have tb: "tb_ok (ao_traffic a)" "0 \<le> tb_cleanup_reserves (ao_traffic a)" "0 \<le> tb_packets (ao_traffic a)"
    "0 \<le> tb_octets (ao_traffic a)" by (simp_all add: tb_ok_def)
  then show ?thesis by (simp add: ao_inv_def ao_live_def slots_of_def output_reserved_def a)
qed

lemma reserve_spend_succeeds:
  assumes "ao_inv a" "i \<in> set (ao_live a)" "map_of (slots_of i a) kind = Some (Suc k)" "0 < n" "n \<le> 4096"
    "tb_last (ao_traffic a) \<le> now"
  shows "fst (reserve_spend True msg i kind n now a) = Inr ()"
proof -
  have "Suc k \<le> reserve_remaining i a"
    using assms(3) unfolding reserve_remaining_def by (intro member_le_sum_list) (auto intro: rev_image_eqI dest: map_of_SomeD)
  also have "\<dots> \<le> output_reserved a"
    unfolding output_reserved_live using assms(2) by (intro member_le_sum_list) auto
  finally have "1 \<le> output_reserved a" by simp
  then have "1 \<le> tb_packets (ao_traffic a)" "4096 \<le> tb_octets (ao_traffic a)" using assms(1) by (auto simp: ao_inv_def)
  then have "fst (traffic_charge n 0 now (ao_traffic a)) = Inr ()"
    using assms by (intro traffic_charge_enough) (auto simp: ao_inv_def)
  with assms(3-5) show ?thesis by (auto simp: reserve_spend_def split: prod.split sum.split)
qed

text \<open>
  C6. Reserved capacity cannot be borrowed. After any history of ordinary sends,
  reservations, spendings and releases on an account, as long as a PTZ, siren or media
  reservation is held and still has a slot of a kind, charging that slot for a
  datagram of up to 4096 bytes succeeds (with a clock that has not gone back): ordinary
  traffic can never use up what a STOP, an OFF or a CLOSE will need.
\<close>
theorem cleanup_capacity_guaranteed:
  assumes "output_init packets octets policy capacity start = Inr a0" "output_reach a0 a"
    "map_of (slots_of i a) kind = Some (Suc k)" "0 < n" "n \<le> 4096" "tb_last (ao_traffic a) \<le> now"
  shows "(ao_ptz a = Some i \<longrightarrow> fst (ptz_charge i kind n now a) = Inr ()) \<and>
    (ao_siren a = Some i \<longrightarrow> fst (siren_charge i kind n now a) = Inr ()) \<and>
    (i \<in> set (ao_media a) \<longrightarrow> fst (media_charge i kind n now a) = Inr ())"
proof -
  have inv: "ao_inv a" by (rule output_reach_inv [OF assms(2) output_init_inv [OF assms(1)]])
  note s = reserve_spend_succeeds [OF inv _ assms(3-6)]
  show ?thesis
    using s unfolding ptz_charge_def siren_charge_def media_charge_def
    by (simp add: ao_live_def split: option.splits)
qed

definition demo_output :: account_output where
  "demo_output = \<lparr>ao_traffic = \<lparr>tb_max_packets = 512, tb_max_octets = 1048576, tb_packets = 512, tb_octets = 1048576,
       tb_policy = FINITE, tb_cleanup_reserves = 24, tb_last = 0\<rparr>,
     ao_ptz = None, ao_media = [], ao_media_capacity = 1, ao_siren = None, ao_objects = [], ao_fresh = 0\<rparr>"

theorem cleanup_capacity_guaranteed_witness:
  "output_init None None FINITE 1 0 = Inr demo_output \<and>
   (let a = snd (reserve_ptz 1 demo_output)
    in ao_ptz a = Some 0 \<and> map_of (slots_of 0 a) ''release'' = Some 3 \<and>
       fst (ptz_charge 0 ''release'' 100 2 a) = Inr ())"
proof -
  let ?a = "snd (reserve_ptz 1 demo_output)"
  have init: "output_init None None FINITE 1 0 = Inr demo_output"
    by (simp add: output_init_def traffic_init_def validate_media_capacity_def demo_output_def)
  have a: "ao_ptz ?a = Some 0" "map_of (slots_of 0 ?a) ''release'' = Some (Suc 2)" "tb_last (ao_traffic ?a) \<le> 2"
    by (simp_all add: reserve_ptz_def traffic_available_def output_reserved_def demo_output_def new_reserve_def
        slots_of_def ptz_slots_def Let_def)
  have "output_reach demo_output ?a" by (intro output_reach.intros)
  from cleanup_capacity_guaranteed [OF init this a(2) _ _ a(3), of 100] a init show ?thesis by (simp add: Let_def)
qed

section \<open>The media rate budget\<close>

record media_rate_budget =
  mq_last :: time
  mq_credit :: "real list"

definition media_limits :: "real list" where
  "media_limits = [2 * 1024 * 1024, 256 * 1024, 4096]"

definition media_rate_init :: "time \<Rightarrow> media_rate_budget" where
  "media_rate_init now = \<lparr>mq_last = now, mq_credit = media_limits\<rparr>"

definition media_rate_charge ::
  "int \<Rightarrow> int \<Rightarrow> int \<Rightarrow> time \<Rightarrow> media_rate_budget \<Rightarrow> (exn + unit) \<times> media_rate_budget"
where
  "media_rate_charge rx tx records now q =
     (let costs = [rx, tx, records]
      in if \<exists>cost \<in> set costs. cost < 0 then (Inl (ValueError ''invalid media charge''), q)
      else if now < mq_last q then (Inl (ValueError ''invalid media clock''), q)
      else let elapsed = min 1 (now - mq_last q);
               q = q\<lparr>mq_last := now, mq_credit :=
                 map (\<lambda>(credit, limit). min limit (credit + elapsed * limit)) (zip (mq_credit q) media_limits)\<rparr>
      in if \<exists>(cost, credit) \<in> set (zip costs (mq_credit q)). of_int cost > credit
      then (Inl (ValueError ''media rate exhausted''), q)
      else (Inr (), q\<lparr>mq_credit := map (\<lambda>(credit, cost). credit - of_int cost) (zip (mq_credit q) costs)\<rparr>))"

definition mq_inv :: "media_rate_budget \<Rightarrow> bool" where
  "mq_inv q \<longleftrightarrow> length (mq_credit q) = 3 \<and> (\<forall>i < 3. 0 \<le> mq_credit q ! i \<and> mq_credit q ! i \<le> media_limits ! i)"

text \<open>The charges of a period with the time of each, and the sums of the admitted ones.\<close>

type_synonym media_cost = "(int \<times> int \<times> int) \<times> time"

fun admitted :: "media_cost list \<Rightarrow> media_rate_budget \<Rightarrow> media_cost list \<times> media_rate_budget" where
  "admitted [] q = ([], q)"
| "admitted (((rx, tx, records), now) # cs) q =
     (case media_rate_charge rx tx records now q of (res, q') \<Rightarrow>
        (case admitted cs q' of (ok, q'') \<Rightarrow>
           (case res of Inr _ \<Rightarrow> (((rx, tx, records), now) # ok, q'') | Inl _ \<Rightarrow> (ok, q''))))"

definition charge_cost :: "nat \<Rightarrow> media_cost \<Rightarrow> real" where
  "charge_cost i c = (case c of ((rx, tx, records), now) \<Rightarrow> of_int ([rx, tx, records] ! i))"

lemma media_limits_simps [simp]: "length media_limits = 3" "i < 3 \<Longrightarrow> 0 \<le> media_limits ! i"
  by (auto simp: media_limits_def less_Suc_eq numeral_3_eq_3)

lemma media_rate_charge_step:
  assumes "mq_inv q" "media_rate_charge rx tx records now q = (res, q')"
  shows "mq_inv q' \<and> mq_last q \<le> mq_last q' \<and>
    (\<forall>i < 3. mq_credit q' ! i + (case res of Inr _ \<Rightarrow> charge_cost i ((rx, tx, records), now) | Inl _ \<Rightarrow> 0)
       \<le> mq_credit q ! i + (mq_last q' - mq_last q) * media_limits ! i)"
proof -
  let ?costs = "[rx, tx, records]" and ?e = "min 1 (now - mq_last q)"
  define c1 where "c1 = map (\<lambda>(credit, limit). min limit (credit + ?e * limit)) (zip (mq_credit q) media_limits)"
  consider "\<exists>cost \<in> set ?costs. cost < 0" | "\<not> (\<exists>cost \<in> set ?costs. cost < 0)" "now < mq_last q"
    | (run) "\<not> (\<exists>cost \<in> set ?costs. cost < 0)" "\<not> now < mq_last q" by blast
  then show ?thesis
  proof cases
    case run
    have l: "length (mq_credit q) = 3" "length c1 = 3" using assms(1) by (auto simp: mq_inv_def c1_def)
    have c1: "0 \<le> c1 ! i" "c1 ! i \<le> media_limits ! i" "c1 ! i \<le> mq_credit q ! i + (now - mq_last q) * media_limits ! i"
      if "i < 3" for i
    proof -
      have eq: "c1 ! i = min (media_limits ! i) (mq_credit q ! i + ?e * media_limits ! i)"
        using that l by (simp add: c1_def)
      have b: "0 \<le> mq_credit q ! i" "0 \<le> media_limits ! i" "0 \<le> ?e * media_limits ! i"
        "?e * media_limits ! i \<le> (now - mq_last q) * media_limits ! i"
        using that assms(1) run(2) by (auto simp: mq_inv_def intro!: mult_right_mono mult_nonneg_nonneg)
      then show "0 \<le> c1 ! i" "c1 ! i \<le> media_limits ! i" "c1 ! i \<le> mq_credit q ! i + (now - mq_last q) * media_limits ! i"
        unfolding eq by linarith+
    qed
    note d = assms(2) [unfolded media_rate_charge_def Let_def if_not_P [OF run(1)] if_not_P [OF run(2)] c1_def [symmetric]]
    show ?thesis
    proof (cases "\<exists>(cost, credit) \<in> set (zip ?costs c1). of_int cost > credit")
      case True
      with d have "res = Inl (ValueError ''media rate exhausted'')" "q' = q\<lparr>mq_last := now, mq_credit := c1\<rparr>" by auto
      with c1 l run(2) show ?thesis by (simp add: mq_inv_def)
    next
      case False
      with d have r: "res = Inr ()" "q' = q\<lparr>mq_last := now, mq_credit := map (\<lambda>(credit, cost). credit - of_int cost) (zip c1 ?costs)\<rparr>"
        by auto
      have le: "of_int (?costs ! i) \<le> c1 ! i" "0 \<le> ?costs ! i" if "i < 3" for i
      proof -
        have "(?costs ! i, c1 ! i) \<in> set (zip ?costs c1)" using that l by (auto simp: set_zip)
        with False show "of_int (?costs ! i) \<le> c1 ! i" by force
        have "?costs ! i \<in> set ?costs" using that by (intro nth_mem) simp
        with run(1) show "0 \<le> ?costs ! i" by force
      qed
      have nth: "mq_credit q' ! i = c1 ! i - of_int (?costs ! i)" if "i < 3" for i using that l r(2) by simp
      have "mq_inv q'" unfolding mq_inv_def
      proof (intro conjI allI impI)
        show "length (mq_credit q') = 3" using r(2) l by simp
        fix i :: nat assume i: "i < 3"
        have "0 \<le> real_of_int (?costs ! i)" using le(2) [OF i] by linarith
        then show "0 \<le> mq_credit q' ! i" "mq_credit q' ! i \<le> media_limits ! i" unfolding nth [OF i] using le(1) [OF i] c1(2) [OF i] by linarith+
      qed
      with c1 nth r run(2) show ?thesis by (simp add: charge_cost_def)
    qed
  qed (use assms in \<open>auto simp: media_rate_charge_def\<close>)
qed

lemma admitted_sum:
  assumes "mq_inv q" "admitted cs q = (ok, q')" "i < 3"
  shows "mq_inv q' \<and> mq_last q \<le> mq_last q' \<and>
    mq_credit q' ! i + (\<Sum>c\<leftarrow>ok. charge_cost i c) \<le> mq_credit q ! i + (mq_last q' - mq_last q) * media_limits ! i"
  using assms(1,2)
proof (induction cs q arbitrary: ok rule: admitted.induct)
  case (1 q)
  then show ?case by simp
next
  case (2 rx tx records now cs q)
  obtain res q1 where s: "media_rate_charge rx tx records now q = (res, q1)" by fastforce
  obtain ok1 where a: "admitted cs q1 = (ok1, q')"
    "ok = (case res of Inr _ \<Rightarrow> ((rx, tx, records), now) # ok1 | Inl _ \<Rightarrow> ok1)"
    using "2.prems"(2) s by (auto split: prod.splits sum.splits)
  note st = media_rate_charge_step [OF "2.prems"(1) s]
  from st have "mq_inv q1" by blast
  note IH = "2.IH" [OF s [symmetric] this a(1)]
  have "(\<Sum>c\<leftarrow>ok. charge_cost i c) = (case res of Inr _ \<Rightarrow> charge_cost i ((rx, tx, records), now) | Inl _ \<Rightarrow> 0) + (\<Sum>c\<leftarrow>ok1. charge_cost i c)"
    by (simp add: a(2) split: sum.split)
  moreover have "(mq_last q' - mq_last q) * media_limits ! i = (mq_last q' - mq_last q1) * media_limits ! i + (mq_last q1 - mq_last q) * media_limits ! i"
    by (simp add: algebra_simps)
  moreover have "mq_credit q1 ! i + (case res of Inr _ \<Rightarrow> charge_cost i ((rx, tx, records), now) | Inl _ \<Rightarrow> 0)
       \<le> mq_credit q ! i + (mq_last q1 - mq_last q) * media_limits ! i" using st assms(3) by blast
  ultimately show ?case using IH st by linarith
qed

text \<open>
  C22. The media rate budget bounds what it admits: over any history of charges the
  admitted received bytes, sent bytes and records are each at most one second's limit
  plus the limit times the elapsed time, however the charges are spaced, and the
  remaining credit stays between zero and the limit.
\<close>
theorem media_rate_bounded:
  assumes "admitted cs (media_rate_init start) = (ok, q)" "i < 3"
  shows "(\<Sum>c\<leftarrow>ok. charge_cost i c) \<le> media_limits ! i * (1 + (mq_last q - start)) \<and>
    0 \<le> mq_credit q ! i \<and> mq_credit q ! i \<le> media_limits ! i"
proof -
  have "mq_inv (media_rate_init start)" by (simp add: mq_inv_def media_rate_init_def)
  note s = admitted_sum [OF this assms]
  then have "0 \<le> mq_credit q ! i" "mq_credit q ! i \<le> media_limits ! i" using assms(2) by (auto simp: mq_inv_def)
  with s show ?thesis by (simp add: media_rate_init_def algebra_simps)
qed

theorem media_rate_bounded_witness:
  "\<exists>q. admitted [((2097152, 0, 1), 0), ((1, 0, 1), 0), ((1048576, 0, 1), 1 / 2)] (media_rate_init 0) =
     ([((2097152, 0, 1), 0), ((1048576, 0, 1), 1 / 2)], q) \<and>
   (\<Sum>c\<leftarrow>[((2097152, 0, 1), 0), ((1048576, 0, 1), 1 / 2)]. charge_cost 0 c) \<le> media_limits ! 0 * (1 + (mq_last q - 0))"
proof -
  let ?cs = "[((2097152, 0, 1), 0), ((1, 0, 1), 0), ((1048576, 0, 1), 1 / 2)]"
  have "\<exists>q. admitted ?cs (media_rate_init 0) = ([((2097152, 0, 1), 0), ((1048576, 0, 1), 1 / 2)], q)"
    by (simp add: media_rate_charge_def media_rate_init_def media_limits_def Let_def)
  with media_rate_bounded [of ?cs 0 _ _ 0] show ?thesis by fastforce
qed

end
