(* ===== verification/ConnAuth.thy ===== *)
theory ConnAuth
  imports Prelude
begin

text \<open>
  Connection authentication of \<^verbatim>\<open>auth.py\<close>: the 80-byte trailer that proves possession
  of an access token, the stand-alone authentication frame that carries it, and the
  verifier. AES comes from a third-party package and HMAC-MD5 from the interpreter's
  C library; both are arguments: \<open>aes encrypt key iv data\<close> is CBC over whole blocks and
  \<open>hmac_md5 key message\<close> the digest. \<open>aes_ok\<close> and \<open>digest_ok\<close> name what is relied on.
\<close>

type_synonym aes_cipher = "bool \<Rightarrow> bytes \<Rightarrow> bytes \<Rightarrow> bytes \<Rightarrow> bytes"
type_synonym digest = "bytes \<Rightarrow> bytes \<Rightarrow> bytes"

definition IOTVIDEO_AES_IV :: bytes where
  "IOTVIDEO_AES_IV = [0x69, 0x6F, 0x74, 0x56, 0x69, 0x64, 0x65, 0x6F] @ replicate 8 0"

abbreviation (input) CONN_AUTH_FRAME_LEN :: nat where "CONN_AUTH_FRAME_LEN \<equiv> 0x6C"
abbreviation (input) CONN_AUTH_BLOB_LEN :: nat where "CONN_AUTH_BLOB_LEN \<equiv> 0x50"

section \<open>Hashes\<close>

text \<open>The four running hashes; \<^verbatim>\<open>_u32\<close> is the wrap-around of the 32-bit word.\<close>

definition key_hash_step :: "32 word \<times> 32 word \<times> 32 word \<times> 32 word \<Rightarrow> byte \<Rightarrow> 32 word \<times> 32 word \<times> 32 word \<times> 32 word" where
  "key_hash_step h b = (case h of (h0, h1, h2, h3) \<Rightarrow>
     (h0 * 0x83 + ucast b,
      h1 XOR (ucast b + push_bit 5 h1 + drop_bit 2 h1),
      ucast b + push_bit 5 h2 + h2,
      ucast b + push_bit 6 h3 + push_bit 16 h3 - h3))"

definition normalize_aes_key :: "bytes \<Rightarrow> bytes" where
  "normalize_aes_key key =
     (if length key \<in> {16, 24, 32} then key
      else case foldl key_hash_step (0, 0x4E67C6A7, 0x1505, 0) key of (h0, h1, h2, h3) \<Rightarrow>
        le_bytes 4 (unat h0) @ le_bytes 4 (unat h1) @ le_bytes 4 (unat h2) @ le_bytes 4 (unat h3))"

definition aes_cbc :: "aes_cipher \<Rightarrow> bytes \<Rightarrow> bytes \<Rightarrow> bool \<Rightarrow> exn + bytes" where
  "aes_cbc aes data key encrypt =
     (if length data mod 16 \<noteq> 0 then Inl (ValueError ''AES-CBC data length must be a multiple of 16'')
      else Inr (aes encrypt (normalize_aes_key key) IOTVIDEO_AES_IV data))"

definition sum_u16 :: "bytes \<Rightarrow> exn + nat" where
  "sum_u16 data =
     (if length data mod 2 \<noteq> 0 then Inl (ValueError ''checksum input must contain whole 16-bit words'')
      else Inr ((\<Sum>i\<leftarrow>[0..<length data div 2]. u16_at data (2 * i)) mod 2 ^ 16))"

definition strdat_step :: "32 word \<times> 32 word \<Rightarrow> byte \<Rightarrow> 32 word \<times> 32 word" where
  "strdat_step h b = (case h of (h0, h1) \<Rightarrow>
     (h0 * 0x83 + ucast b, h1 XOR (ucast b + push_bit 5 h1 + drop_bit 2 h1)))"

definition strdat_hash64 :: "bytes \<Rightarrow> bytes" where
  "strdat_hash64 data = (case foldl strdat_step (0, 0x4E67C6A7) data of (h0, h1) \<Rightarrow>
     le_bytes 4 (unat h0) @ le_bytes 4 (unat h1))"

section \<open>The authentication trailer and frame\<close>

text \<open>The drawn nonce is always an argument: \<^verbatim>\<open>nonce=None\<close> asks for twelve random bytes.\<close>

definition build_conn_auth_blob :: "aes_cipher \<Rightarrow> digest \<Rightarrow> bytes \<Rightarrow> bytes \<Rightarrow> bytes \<Rightarrow> exn + bytes" where
  "build_conn_auth_blob aes hmac_md5 access_token signed_header nonce =
     (if length access_token \<noteq> 64 then Inl (ValueError ''connection auth requires a 64-byte access token'')
      else if length signed_header \<noteq> 8 then Inl (ValueError ''signed header must be exactly eight bytes'')
      else if length nonce \<noteq> 12 then Inl (ValueError ''nonce must be exactly 12 bytes'')
      else let blob = put (put (replicate CONN_AUTH_BLOB_LEN 0) 0 [1]) 1 [1];
               blob = put blob 4 nonce;
               blob = put blob 16 (take 48 access_token)
      in bind_res (sum_u16 (pyslice blob 4 64)) (\<lambda>c.
           let blob = put blob 2 (le_bytes 2 c);
               blob = put blob 64 (hmac_md5 (pyslice access_token 48 64) (signed_header @ pyslice blob 0 64))
           in bind_res (aes_cbc aes (pyslice blob 16 64) (pyslice blob 4 16) True) (\<lambda>e.
                Inr (put blob 16 e))))"

definition gute_init_checksum :: "bytes \<Rightarrow> exn + nat" where
  "gute_init_checksum frame =
     (if length frame < 0x18 then Inl (ValueError ''truncated gute frame'')
      else let declared = u16_at frame 2
      in if declared > length frame then Inl (ValueError ''declared frame length exceeds buffer'')
      else let flags = u32_at frame 0x14;
               encrypted_len = int declared - 0x18;
               encrypted_len = (if bit flags 22 then encrypted_len - 0x50 else encrypted_len);
               encrypted_len = (if bit flags 24 then encrypted_len - 0x10 else encrypted_len)
      in if encrypted_len < 0 \<or> encrypted_len mod 4 \<noteq> 0
      then Inl (ValueError ''invalid checksum-covered payload length'')
      else let checksum = foldl (\<lambda>c off. c XOR u32_at frame off) (flags AND 0xFFFFFF) [0, 4, 8, 0x0C];
               checksum = foldl (\<lambda>c i. c XOR u32_at frame (0x18 + 4 * i)) checksum [0..<nat encrypted_len div 4]
           in Inr (checksum AND 0xFFFFFFFF))"

record parsed_conn_auth =
  pa_access_id :: nat
  pa_sequence :: nat
  pa_terminal_auth :: bool
  pa_nonce :: bytes
  pa_token_prefix :: bytes
  pa_signature_valid :: bool
  pa_blob_checksum_valid :: bool
  pa_frame_checksum_valid :: bool

definition conn_auth_header :: "int \<Rightarrow> int \<Rightarrow> bool \<Rightarrow> int \<Rightarrow> bytes" where
  "conn_auth_header access_id sequence terminal_auth header_random15 =
     (let frame = replicate (CONN_AUTH_FRAME_LEN + (if terminal_auth then 16 else 0)) 0;
          frame = put frame 0 [0x7F];
          frame = put frame 2 (le_bytes 2 CONN_AUTH_FRAME_LEN);
          frame = put frame 4 (le_bytes 8 (mask_int 64 access_id));
          frame = put frame 0x0C (le_bytes 4 (mask_int 32 sequence));
          flags = 0x00400000 OR push_bit 1 (nat header_random15);
          frame = put frame 0x14 (le_bytes 4 flags)
      in if terminal_auth then put frame 0x18 (le_bytes 2 1) else frame)"

definition build_conn_authinfo ::
  "aes_cipher \<Rightarrow> digest \<Rightarrow> int \<Rightarrow> bytes \<Rightarrow> int \<Rightarrow> int \<Rightarrow> bool \<Rightarrow> bytes \<Rightarrow> int \<Rightarrow> exn + bytes"
where
  "build_conn_authinfo aes hmac_md5 access_id access_token sequence terminal_id terminal_auth nonce header_random15 =
     (if length access_token \<noteq> 64 then Inl (ValueError ''connection auth requires a 64-byte access token'')
      else if length nonce \<noteq> 12 then Inl (ValueError ''nonce must be exactly 12 bytes'')
      else if \<not> (0 \<le> header_random15 \<and> header_random15 \<le> 0x7FFF)
      then Inl (ValueError ''header_random15 must fit in 15 bits'')
      else let frame = conn_auth_header access_id sequence terminal_auth header_random15
      in bind_res (gute_init_checksum frame) (\<lambda>c.
           let frame = put frame 0x10 (le_bytes 4 c)
           in bind_res (build_conn_auth_blob aes hmac_md5 access_token (pyslice frame 0x0C 0x14) nonce) (\<lambda>blob.
                let frame = put frame (CONN_AUTH_FRAME_LEN - CONN_AUTH_BLOB_LEN) blob
                in if terminal_auth
                   then let terminal_key = strdat_hash64 (ascii (show_int access_id @ show_int terminal_id))
                        in Inr (take CONN_AUTH_FRAME_LEN frame @ hmac_md5 terminal_key (pyslice blob 64 80))
                   else Inr frame)))"

definition parse_conn_authinfo :: "aes_cipher \<Rightarrow> digest \<Rightarrow> bytes \<Rightarrow> bytes \<Rightarrow> exn + parsed_conn_auth" where
  "parse_conn_authinfo aes hmac_md5 frame access_token =
     (if length access_token \<noteq> 64 then Inl (ValueError ''connection auth requires a 64-byte access token'')
      else if length frame \<noteq> CONN_AUTH_FRAME_LEN \<and> length frame \<noteq> CONN_AUTH_FRAME_LEN + 16
      then Inl (ValueError ''unexpected connection-auth frame size'')
      else if frame ! 0 \<noteq> 0x7F \<or> u16_at frame 2 \<noteq> CONN_AUTH_FRAME_LEN
      then Inl (ValueError ''not a connection-auth frame'')
      else let blob = pyslice frame (CONN_AUTH_FRAME_LEN - CONN_AUTH_BLOB_LEN) CONN_AUTH_FRAME_LEN
      in bind_res (aes_cbc aes (pyslice blob 16 64) (pyslice blob 4 16) False) (\<lambda>d.
           let blob = put blob 16 d;
               signed = pyslice frame 0x0C 0x14 @ pyslice blob 0 64;
               expected_signature = hmac_md5 (pyslice access_token 48 64) signed
           in bind_res (sum_u16 (pyslice blob 4 64)) (\<lambda>bs.
              bind_res (gute_init_checksum frame) (\<lambda>fs.
                Inr \<lparr>pa_access_id = u64_at frame 4, pa_sequence = u32_at frame 0x0C,
                     pa_terminal_auth = bit (u16_at frame 0x18) 0, pa_nonce = pyslice blob 4 16,
                     pa_token_prefix = pyslice blob 16 64,
                     pa_signature_valid = (pyslice blob 64 80 = expected_signature),
                     pa_blob_checksum_valid = (u16_at blob 2 = bs),
                     pa_frame_checksum_valid = (u32_at frame 0x10 = fs)\<rparr>))))"

section \<open>What is relied on\<close>

definition aes_ok :: "aes_cipher \<Rightarrow> bool" where
  "aes_ok aes \<longleftrightarrow> (\<forall>key iv data. length key \<in> {16, 24, 32} \<longrightarrow> length iv = 16 \<longrightarrow> length data mod 16 = 0 \<longrightarrow>
     length (aes True key iv data) = length data \<and> aes False key iv (aes True key iv data) = data)"

definition digest_ok :: "digest \<Rightarrow> bool" where
  "digest_ok hmac_md5 \<longleftrightarrow> (\<forall>key msg. length (hmac_md5 key msg) = 16)"

lemma normalized_key_length [simp]: "length (normalize_aes_key key) \<in> {16, 24, 32}"
  by (auto simp: normalize_aes_key_def split: prod.splits)

lemma put_put_same: "length ys = length zs \<Longrightarrow> i + length ys \<le> length xs \<Longrightarrow> put (put xs i ys) i zs = put xs i zs"
  by (intro nth_equalityI) (auto simp: nth_put)

lemma sum_u16_ok: "length data mod 2 = 0 \<Longrightarrow> \<exists>c < 2 ^ 16. sum_u16 data = Inr c"
  by (simp add: sum_u16_def)

text \<open>
  The trailer is a clear text with the nonce, the token prefix, their checksum and a
  signature, of which the token prefix is then encrypted under the nonce.
\<close>

definition trailer_ok :: "digest \<Rightarrow> bytes \<Rightarrow> bytes \<Rightarrow> bytes \<Rightarrow> bytes \<Rightarrow> bool" where
  "trailer_ok hmac_md5 access_token signed_header nonce clear \<longleftrightarrow>
     length clear = 80 \<and> pyslice clear 4 16 = nonce \<and> pyslice clear 16 64 = take 48 access_token \<and>
     pyslice clear 64 80 = hmac_md5 (pyslice access_token 48 64) (signed_header @ pyslice clear 0 64) \<and>
     sum_u16 (pyslice clear 4 64) = Inr (u16_at clear 2)"

lemma conn_auth_blob_opens:
  assumes "aes_ok aes" "digest_ok hmac_md5" "length access_token = 64" "length signed_header = 8" "length nonce = 12"
  shows "\<exists>blob clear. build_conn_auth_blob aes hmac_md5 access_token signed_header nonce = Inr blob \<and>
    length blob = 80 \<and> pyslice blob 4 16 = nonce \<and> trailer_ok hmac_md5 access_token signed_header nonce clear \<and>
    bind_res (aes_cbc aes (pyslice blob 16 64) nonce False) (\<lambda>d. Inr (put blob 16 d)) = Inr clear"
proof -
  let ?key = "normalize_aes_key nonce" and ?iv = IOTVIDEO_AES_IV
  define b1 where "b1 = put (put (put (put (replicate 80 0) 0 [1]) 1 [1]) 4 nonce) 16 (take 48 access_token)"
  have b1: "length b1 = 80" "pyslice b1 4 16 = nonce" "pyslice b1 16 64 = take 48 access_token"
    using assms(3,5) by (simp_all add: b1_def put_fields)
  obtain c where c: "c < 2 ^ 16" "sum_u16 (pyslice b1 4 64) = Inr c"
    using sum_u16_ok [of "pyslice b1 4 64"] b1(1) by auto
  define b2 where "b2 = put b1 2 (le_bytes 2 c)"
  have b2: "length b2 = 80" "pyslice b2 4 16 = nonce" "pyslice b2 16 64 = take 48 access_token"
    "pyslice b2 4 64 = pyslice b1 4 64" "pyslice b2 2 4 = le_bytes 2 c"
    using b1 by (simp_all add: b2_def put_fields)
  define clear where "clear = put b2 64 (hmac_md5 (pyslice access_token 48 64) (signed_header @ pyslice b2 0 64))"
  have h: "length (hmac_md5 k m) = 16" for k m using assms(2) by (simp add: digest_ok_def)
  have clear: "length clear = 80" "pyslice clear 4 16 = nonce" "pyslice clear 16 64 = take 48 access_token"
    "pyslice clear 4 64 = pyslice b2 4 64" "pyslice clear 2 4 = le_bytes 2 c" "pyslice clear 0 64 = pyslice b2 0 64"
    "pyslice clear 64 80 = hmac_md5 (pyslice access_token 48 64) (signed_header @ pyslice b2 0 64)"
    using b2 h by (simp_all add: clear_def put_fields)
  then have ok: "trailer_ok hmac_md5 access_token signed_header nonce clear"
    using b2(4) c by (simp add: trailer_ok_def le_val_le_bytes)
  let ?e = "aes True ?key ?iv (take 48 access_token)"
  have e: "length ?e = 48" "aes False ?key ?iv ?e = take 48 access_token"
    using assms(1,3) normalized_key_length [of nonce] unfolding aes_ok_def by (auto simp: IOTVIDEO_AES_IV_def)
  have "build_conn_auth_blob aes hmac_md5 access_token signed_header nonce = Inr (put clear 16 ?e)"
    using assms(3-5) c(2) clear(1-3)
    unfolding build_conn_auth_blob_def Let_def b1_def [symmetric]
    by (simp add: b2_def [symmetric] clear_def [symmetric] aes_cbc_def)
  moreover have "pyslice (put clear 16 ?e) 4 16 = nonce" "pyslice (put clear 16 ?e) 16 64 = ?e"
    using clear(1,2) e(1) by (simp_all add: put_fields)
  moreover have "put (put clear 16 ?e) 16 (take 48 access_token) = clear"
    using clear(1,3) e(1) assms(3) put_slice_id [of 16 64 clear] by (simp add: put_put_same)
  ultimately show ?thesis using ok clear(1) e
    by (intro exI [of _ "put clear 16 ?e"] exI [of _ clear]) (simp add: aes_cbc_def)
qed

section \<open>The authentication frame verifies\<close>

lemma init_checksum_auth:
  assumes "0x6C \<le> length f" "u16_at f 2 = 0x6C" "bit (u32_at f 0x14) 22" "\<not> bit (u32_at f 0x14) 24"
  shows "gute_init_checksum f = Inr (((((((u32_at f 0x14 AND 0xFFFFFF) XOR u32_at f 0) XOR u32_at f 4) XOR u32_at f 8)
    XOR u32_at f 0xC) XOR u32_at f 0x18) AND 0xFFFFFFFF)"
  using assms unfolding gute_init_checksum_def Let_def by simp

lemma auth_flags:
  assumes "0 \<le> r" "r \<le> 0x7FFF"
  shows "0x00400000 OR push_bit 1 (nat r) < 2 ^ 32" "bit (0x00400000 OR push_bit 1 (nat r)) 22"
    "\<not> bit (0x00400000 OR push_bit 1 (nat r)) 24"
proof -
  have r: "push_bit 1 (nat r) < 2 ^ 16" using assms by (simp add: push_bit_eq_mult nat_less_iff)
  have "take_bit 23 (0x00400000 OR push_bit 1 (nat r)) = 0x00400000 OR push_bit 1 (nat r)"
    using r by (simp add: take_bit_or take_bit_nat_eq_self)
  then have lt: "0x00400000 OR push_bit 1 (nat r) < 2 ^ 23" by (metis take_bit_nat_less_exp)
  then show "0x00400000 OR push_bit 1 (nat r) < 2 ^ 32" by simp
  show "bit (0x00400000 OR push_bit 1 (nat r)) 22" by (simp only: bit_or_iff) (simp add: bit_iff_odd)
  show "\<not> bit (0x00400000 OR push_bit 1 (nat r)) 24" using lt by (simp add: bit_iff_odd)
qed

lemma conn_auth_header_fields:
  assumes "0 \<le> r" "r \<le> 0x7FFF" "f = conn_auth_header access_id sequence terminal_auth r"
  shows "length f = (if terminal_auth then 124 else 108)" "f ! 0 = 0x7F" "u16_at f 2 = 0x6C"
    "u64_at f 4 = mask_int 64 access_id" "u32_at f 0x0C = mask_int 32 sequence"
    "bit (u32_at f 0x14) 22" "\<not> bit (u32_at f 0x14) 24" "bit (u16_at f 0x18) 0 = terminal_auth"
  using auth_flags [OF assms(1,2)] mask_int_256
  by (simp_all add: assms(3) conn_auth_header_def Let_def put_fields bit_0)

text \<open>
  A connection-authentication frame verifies at the peer that shares the token,
  for every identity, sequence, nonce and header randomness and with or without the
  terminal extension: building succeeds with the documented size, and the verifier
  reads back the identity, sequence, nonce and token prefix and finds the signature,
  the trailer checksum and the frame checksum valid.
\<close>
theorem conn_authinfo_verifies:
  assumes "aes_ok aes" "digest_ok hmac_md5" "length access_token = 64" "length nonce = 12" "0 \<le> r" "r \<le> 0x7FFF"
  shows "\<exists>frame. build_conn_authinfo aes hmac_md5 access_id access_token sequence terminal_id terminal_auth nonce r
      = Inr frame \<and> length frame = (if terminal_auth then 124 else 108) \<and>
    parse_conn_authinfo aes hmac_md5 frame access_token = Inr
      \<lparr>pa_access_id = mask_int 64 access_id, pa_sequence = mask_int 32 sequence, pa_terminal_auth = terminal_auth,
       pa_nonce = nonce, pa_token_prefix = take 48 access_token, pa_signature_valid = True,
       pa_blob_checksum_valid = True, pa_frame_checksum_valid = True\<rparr>"
proof -
  define f0 where "f0 = conn_auth_header access_id sequence terminal_auth r"
  note f0 = conn_auth_header_fields [OF assms(5,6) f0_def]
  define c where "c = ((((((u32_at f0 0x14 AND 0xFFFFFF) XOR u32_at f0 0) XOR u32_at f0 4) XOR u32_at f0 8)
    XOR u32_at f0 0xC) XOR u32_at f0 0x18) AND 0xFFFFFFFF"
  have len0: "0x6C \<le> length f0" using f0(1) by simp
  have c: "gute_init_checksum f0 = Inr c" using init_checksum_auth [OF len0 f0(3,6,7)] by (simp add: c_def)
  have "(0xFFFFFFFF :: nat) = mask 32" by (simp add: mask_eq_exp_minus_1)
  then have c_lt: "c < 2 ^ 32" unfolding c_def by (simp only: take_bit_eq_mask [symmetric] take_bit_nat_less_exp)
  define f1 where "f1 = put f0 0x10 (le_bytes 4 c)"
  have f1: "length f1 = length f0" "length (pyslice f1 0x0C 0x14) = 8" using len0 by (simp_all add: f1_def)
  obtain blob clear where b: "build_conn_auth_blob aes hmac_md5 access_token (pyslice f1 0x0C 0x14) nonce = Inr blob"
    "length blob = 80" "pyslice blob 4 16 = nonce" "trailer_ok hmac_md5 access_token (pyslice f1 0x0C 0x14) nonce clear"
    "bind_res (aes_cbc aes (pyslice blob 16 64) nonce False) (\<lambda>d. Inr (put blob 16 d)) = Inr clear"
    using conn_auth_blob_opens [OF assms(1-3) f1(2) assms(4)] by blast
  obtain d where d: "aes_cbc aes (pyslice blob 16 64) nonce False = Inr d" "put blob 16 d = clear"
    using b(5) by (auto simp: bind_res_Inr)
  define f2 where "f2 = put f1 0x1C blob"
  define f3 where "f3 = (if terminal_auth then take 0x6C f2 @
    hmac_md5 (strdat_hash64 (ascii (show_int access_id @ show_int terminal_id))) (pyslice blob 64 80) else f2)"
  have built: "build_conn_authinfo aes hmac_md5 access_id access_token sequence terminal_id terminal_auth nonce r = Inr f3"
    using assms(3-6) c b(1)
    by (simp add: build_conn_authinfo_def f0_def [symmetric] f1_def [symmetric] f2_def f3_def Let_def)
  have len2: "length f2 = length f0" using f0(1) f1(1) b(2) by (simp add: f2_def)
  then have len3: "length f3 = length f0" using assms(2) f0(1) by (simp add: f3_def digest_ok_def)
  have take3: "pyslice f3 i j = pyslice f2 i j" if "j \<le> 0x6C" for i j
    using that len2 len0 by (simp add: f3_def pyslice_def drop_take)
  have low: "pyslice f3 i j = pyslice f1 i j" if "j \<le> 0x1C" for i j
    using that take3 [of j i] b(2) f1(1) len0 by (simp add: f2_def slice_put_disjoint)
  have low0: "pyslice f3 i j = pyslice f0 i j" if "j \<le> 0x10 \<or> 0x14 \<le> i \<and> j \<le> 0x1C" for i j
    using that low [of j i] len0 by (auto simp: f1_def slice_put_disjoint)
  have blob: "pyslice f3 0x1C 0x6C = blob" using take3 [of 108 28] b(2) f1(1) len0 by (simp add: f2_def slice_put_same)
  have "f3 ! 0 = f2 ! 0" using len2 len0 by (simp add: f3_def nth_append)
  moreover have "f0 \<noteq> []" using len0 by auto
  ultimately have hd: "f3 ! 0 = 0x7F" using f0(2) len0 f1(1) b(2) by (simp add: f2_def f1_def nth_put length_greater_0_conv [symmetric] del: length_greater_0_conv)
  have sum3: "gute_init_checksum f3 = Inr c"
    using init_checksum_auth [of f3] f0(3,6,7) len3 len0 low0 by (simp add: c_def)
  have "pyslice f3 0x10 0x14 = le_bytes 4 c" using low [of 20 16] len0 by (simp add: f1_def slice_put_same)
  then have chk: "u32_at f3 0x10 = c" using c_lt by (simp add: le_val_le_bytes)
  have "parse_conn_authinfo aes hmac_md5 f3 access_token = Inr
      \<lparr>pa_access_id = mask_int 64 access_id, pa_sequence = mask_int 32 sequence, pa_terminal_auth = terminal_auth,
       pa_nonce = nonce, pa_token_prefix = take 48 access_token, pa_signature_valid = True,
       pa_blob_checksum_valid = True, pa_frame_checksum_valid = True\<rparr>"
    using assms(3) len3 f0 hd low0 low [of 20 12] b(3,4) d sum3 chk
    by (simp add: parse_conn_authinfo_def Let_def blob trailer_ok_def del: length_slice)
  with built len3 f0(1) show ?thesis by auto
qed

definition demo_aes :: aes_cipher where
  "demo_aes encrypt key iv data = map (\<lambda>b. NOT b) data"

definition demo_digest :: digest where
  "demo_digest key msg = le_bytes 16 (le_val key + le_val msg)"

theorem conn_authinfo_verifies_witness:
  "\<exists>frame. build_conn_authinfo demo_aes demo_digest (-1) (replicate 64 9) 7 3 True (replicate 12 5) 0x1234
      = Inr frame \<and> length frame = 124 \<and>
    parse_conn_authinfo demo_aes demo_digest frame (replicate 64 9) = Inr
      \<lparr>pa_access_id = 2 ^ 64 - 1, pa_sequence = 7, pa_terminal_auth = True,
       pa_nonce = replicate 12 5, pa_token_prefix = replicate 48 9, pa_signature_valid = True,
       pa_blob_checksum_valid = True, pa_frame_checksum_valid = True\<rparr>"
proof -
  have "aes_ok demo_aes" "digest_ok demo_digest"
    by (simp_all add: aes_ok_def digest_ok_def demo_aes_def demo_digest_def comp_def)
  from conn_authinfo_verifies [OF this, of "replicate 64 9" "replicate 12 5" "0x1234" "- 1" 7 3 True] show ?thesis
    by (simp add: mask_int_def min_def)
qed

end
