(* ===== verification/AccessProtocol.thy ===== *)
theory AccessProtocol
  imports GuteFrame ConnAuth Broker
begin

text \<open>
  The access-node codec of \<^verbatim>\<open>access_protocol.py\<close> with the records of \<^verbatim>\<open>contracts.py\<close> it
  uses: node discovery, certification, session maintenance and acknowledgement frames.
  Random draws (\<^verbatim>\<open>secrets.randbits\<close>), the millisecond clock and the C function
  \<^verbatim>\<open>inet_aton\<close> are arguments of the definitions that use them.
\<close>

record login_material =
  lm_access_id :: int
  lm_access_token :: bytes

record certified_node =
  cn_address :: "string \<times> int"
  cn_session_id :: int
  cn_session_key :: bytes
  cn_next_sequence :: int

record online_device =
  od_device_id :: nat
  od_status :: nat
  od_new_platform :: bool
  od_server_id :: nat
  od_terminal_id :: bytes

definition inet_ntoa :: "bytes \<Rightarrow> string" where
  "inet_ntoa a = show_nat (unat (a ! 0)) @ ''.'' @ show_nat (unat (a ! 1)) @ ''.'' @
                 show_nat (unat (a ! 2)) @ ''.'' @ show_nat (unat (a ! 3))"

section \<open>Node discovery\<close>

definition build_list_query :: "int \<Rightarrow> int \<Rightarrow> nat \<Rightarrow> exn + bytes" where
  "build_list_query access_id rand32 rand15 =
     bind_res (new_header 0x15 40 access_id rand32 (int (randomized_flags rand15 1 0 0))) (\<lambda>frame.
       bind_res (pack_fields [(4, 0x18, 1)] frame) finish_mode1)"

definition add_endpoint :: "bytes \<Rightarrow> (string \<times> nat) list \<Rightarrow> nat \<Rightarrow> (string \<times> nat) list" where
  "add_endpoint record endpoints offset =
     (let host = inet_ntoa (take 4 record);
          port = be_val (pyslice record offset (offset + 2));
          endpoint = (host, port)
      in if port \<noteq> 0 \<and> endpoint \<notin> set endpoints then endpoints @ [endpoint] else endpoints)"

definition list_record :: "bytes \<Rightarrow> nat \<Rightarrow> bytes" where
  "list_record frame index = pyslice frame (0x20 + index * 0x24) (0x20 + (index + 1) * 0x24)"

definition add_record :: "bytes \<Rightarrow> (string \<times> nat) list \<Rightarrow> nat \<Rightarrow> (string \<times> nat) list" where
  "add_record frame endpoints index =
     foldl (add_endpoint (list_record frame index)) endpoints [0x18, 0x1A, 0x1C, 0x1E]"

definition parse_list_reply :: "bytes \<Rightarrow> exn + (string \<times> nat) list" where
  "parse_list_reply wire =
     bind_res (gute_mode1_decrypt wire) (\<lambda>frame.
       if take 2 frame \<noteq> [0x7F, 0x16] \<or> length frame < 0x20 then Inl (ValueError ''not a modern list response'')
       else let n = unat (frame ! 0x1E)
       in if length frame \<noteq> 0x20 + n * 0x24 then Inl (ValueError ''invalid modern list record layout'')
       else Inr (foldl (add_record frame) [] [0..<n]))"

definition build_nat_probe :: "int \<Rightarrow> int \<Rightarrow> int \<Rightarrow> nat \<Rightarrow> exn + bytes" where
  "build_nat_probe access_id sequence now_ms rand15 =
     bind_res (new_header 0x01 68 access_id sequence (int (randomized_flags rand15 1 0 0))) (\<lambda>frame.
       bind_res (pack_fields [(4, 0x18, 2), (4, 0x1C, int (mask_int 32 now_ms))] frame) finish_mode1)"

section \<open>Certification\<close>

text \<open>The generator over \<^verbatim>\<open>range(0, len(session_key), 16)\<close>, joined.\<close>

fun wrap_blocks :: "64 word rc5 \<Rightarrow> bytes \<Rightarrow> nat list \<Rightarrow> exn + bytes" where
  "wrap_blocks c key [] = Inr []"
| "wrap_blocks c key (off # offs) =
     bind_res (rc5_encrypt_block c (pyslice key off (off + 16))) (\<lambda>b.
       bind_res (wrap_blocks c key offs) (\<lambda>r. Inr (b @ r)))"

definition wrap_certification_key :: "bytes \<Rightarrow> bytes \<Rightarrow> exn + bytes" where
  "wrap_certification_key session_key access_token =
     bind_res (rc5_init (pyslice access_token 48 64) 6) (\<lambda>c.
       wrap_blocks c session_key (map (\<lambda>i. 16 * i) [0..<(length session_key + 15) div 16]))"

definition build_certification_request ::
  "aes_cipher \<Rightarrow> digest \<Rightarrow> login_material \<Rightarrow> int \<Rightarrow> bytes \<Rightarrow> int \<Rightarrow> int \<Rightarrow> nat \<Rightarrow> bytes \<Rightarrow> exn + bytes"
where
  "build_certification_request aes hmac_md5 material sequence session_key mtu now_ms rand15 nonce =
     (if length session_key \<noteq> 32 then Inl (ValueError ''certification key must be 32 bytes'')
      else bind_res (new_header 0x0C 0xA4 (lm_access_id material) sequence
                       (int (randomized_flags rand15 1 3 (push_bit 22 1 OR push_bit 24 1)))) (\<lambda>frame.
        bind_res (pack_fields [(2, 0x18, 1), (4, 0x1C, uint (hash_string session_key))] frame) (\<lambda>frame.
        bind_res (wrap_certification_key session_key (lm_access_token material)) (\<lambda>wrapped.
        bind_res (pack_fields [(4, 0x40, mtu), (8, 0x44, now_ms)] (put frame 0x20 wrapped)) (\<lambda>frame.
        bind_res (gute_mode1_xor_checksum frame) (\<lambda>c.
          let frame = put frame 0x10 (le_bytes 4 c)
          in bind_res (build_conn_auth_blob aes hmac_md5 (lm_access_token material) (pyslice frame 0x0C 0x14) nonce)
               (\<lambda>blob. gute_mode1_encrypt (put frame 0x54 blob))))))))"

definition build_certification_ack :: "bytes \<Rightarrow> exn + bytes" where
  "build_certification_ack response =
     (if length response < 0x10 then Inl StructError
      else bind_res (new_header 0x0D 32 (int (u64_at response 4)) (int (u32_at response 0x0C))
                       (int (push_bit 20 1 OR push_bit 16 1 :: nat))) (\<lambda>frame.
        bind_res (pack_fields [(4, 0x18, 4)] frame) finish_mode1))"

section \<open>Session maintenance\<close>

definition build_init_info :: "certified_node \<Rightarrow> nat \<Rightarrow> exn + bytes" where
  "build_init_info node rand15 =
     bind_res (new_header 0xA6 62 (cn_session_id node) (cn_next_sequence node)
                 (int (randomized_flags rand15 2 3 0))) (\<lambda>frame.
       let frame = put frame 0 [0x7E]
       in bind_res (pack_fields [(2, 0x18, 0x3E), (1, 0x1B, 2), (4, 0x20, 0x28000000)] frame) (\<lambda>frame.
            finish_mode2 (put frame 0x38 [0, 0, 0, 0, 0, 0x11]) (cn_session_key node)))"

definition ascii_ok :: "string \<Rightarrow> bool" where
  "ascii_ok s \<longleftrightarrow> (\<forall>c \<in> set s. (of_char c :: nat) < 128)"

definition build_term_dns :: "certified_node \<Rightarrow> string \<Rightarrow> nat \<Rightarrow> exn + bytes" where
  "build_term_dns node term rand15 =
     (if \<not> ascii_ok term then Inl (ValueError ''ordinal not in range(128)'')
      else let encoded = ascii term
      in bind_res (new_header 0xDB (0x1C + length encoded + 1) (cn_session_id node) (cn_next_sequence node)
                     (int (randomized_flags rand15 2 1 0))) (\<lambda>frame.
           bind_res (pack_fields [(2, 0x18, int (length encoded))] (put frame 0 [0x7E])) (\<lambda>frame.
             finish_mode2 (put frame 0x1C encoded) (cn_session_key node))))"

definition rstrip_zeros :: "bytes \<Rightarrow> bytes" where
  "rstrip_zeros bs = rev (dropWhile (\<lambda>b. b = 0) (rev bs))"

definition decode_ascii :: "bytes \<Rightarrow> exn + string" where
  "decode_ascii bs =
     (if \<exists>b \<in> set bs. unat b \<ge> 128 then Inl (ValueError ''ordinal not in range(128)'')
      else Inr (map (\<lambda>b. char_of (unat b)) bs))"

definition parse_term_dns :: "bytes \<Rightarrow> certified_node \<Rightarrow> string \<Rightarrow> exn + bytes \<times> nat" where
  "parse_term_dns wire node expected_term =
     (if length wire \<le> 0x16 then Inl IndexError
      else let md = wire ! 0x16 AND 3
      in bind_res (if md = 2 then gute_mode2_decrypt wire (cn_session_key node)
                   else if md = 1 then gute_mode1_decrypt wire else Inr wire) (\<lambda>frame.
           if length frame < 0x24 \<or> frame ! 1 \<noteq> 0xDC then Inl (ValueError ''not a TermDNS response'')
           else let domain_len = u16_at frame 0x18
           in bind_res (decode_ascii (rstrip_zeros (pyslice frame 0x24 (0x24 + domain_len)))) (\<lambda>domain.
                if domain \<noteq> expected_term
                then Inl (ValueError ''TermDNS response does not match the requested term'')
                else Inr (pyslice frame 0x1C 0x20, u32_at frame 0x20))))"

definition build_mode2_response_ack :: "certified_node \<Rightarrow> bytes \<Rightarrow> exn + bytes" where
  "build_mode2_response_ack node response =
     (if length response < 2 then Inl IndexError
      else if length response < 0x10 then Inl StructError
      else bind_res (new_header (uint (response ! 1)) 32 (cn_session_id node) (int (u32_at response 0x0C))
                       (int (push_bit 20 1 OR push_bit 16 2 :: nat))) (\<lambda>frame.
        bind_res (pack_fields [(4, 0x18, 4)] (put frame 0 [0x7E])) (\<lambda>frame.
          finish_mode2 frame (cn_session_key node))))"

definition build_mode1_response_ack :: "certified_node \<Rightarrow> bytes \<Rightarrow> exn + bytes" where
  "build_mode1_response_ack node response =
     (if length response < 0x18 then Inl StructError
      else let response_flags = u32_at response 0x14
      in bind_res (new_header (uint (response ! 1)) 32 (cn_session_id node) (int (u32_at response 0x0C))
                     (int ((push_bit 20 1 OR push_bit 16 1) OR (response_flags AND push_bit 25 1)))) (\<lambda>frame.
           bind_res (pack_fields [(4, 0x18, 4)] (put frame 0 [0x7E])) finish_mode1))"

definition init_device :: "bytes \<Rightarrow> nat \<Rightarrow> online_device" where
  "init_device response index =
     (let record = pyslice response (0x20 + index * 0x1C) (0x20 + (index + 1) * 0x1C)
      in \<lparr>od_device_id = u64_at record 0, od_status = unat (record ! 8),
          od_new_platform = bit (record ! 9) 0, od_server_id = u16_at record 0x0A,
          od_terminal_id = pyslice record 0x0C 0x1C\<rparr>)"

definition parse_init_devices :: "bytes \<Rightarrow> exn + online_device list" where
  "parse_init_devices response =
     (if length response < 0x1A then Inl StructError
      else let options = u16_at response 0x18
      in if \<not> bit options 0 then Inr []
      else if length response < 0x20 then Inl StructError
      else let total = u16_at response 0x1C + u16_at response 0x1E
      in if 0x20 + total * 0x1C > length response then Inl (ValueError ''truncated init-info device table'')
      else Inr (map (init_device response) [0..<total]))"

definition build_heartbeat ::
  "(string \<Rightarrow> exn + bytes) \<Rightarrow> certified_node \<Rightarrow> string \<Rightarrow> int \<Rightarrow> nat \<Rightarrow> exn + bytes"
where
  "build_heartbeat inet_aton node local_ip local_port rand15 =
     bind_res (new_header 0xA0 48 (cn_session_id node) (cn_next_sequence node)
                 (int (randomized_flags rand15 2 2 0))) (\<lambda>frame.
       bind_res (pack_fields [(2, 0x18, 2), (2, 0x1A, local_port)] (put frame 0 [0x7E])) (\<lambda>frame.
         bind_res (inet_aton local_ip) (\<lambda>address.
           bind_res (pack_fields [(1, 0x21, 1), (4, 0x2C, 1)] (put frame 0x1C address)) (\<lambda>frame.
             finish_mode2 frame (cn_session_key node)))))"

section \<open>Headers and sealed frames\<close>

text \<open>What \<^const>\<open>new_header\<close> writes into a zeroed frame.\<close>

definition header_of :: "bytes \<Rightarrow> int \<Rightarrow> nat \<Rightarrow> int \<Rightarrow> int \<Rightarrow> int \<Rightarrow> bool" where
  "header_of f subtype len identity sequence flags \<longleftrightarrow>
     length f = len \<and> f ! 0 = 0x7F \<and> f ! 1 = of_int subtype \<and> u16_at f 2 = len \<and>
     u64_at f 4 = mask_int 64 identity \<and> u32_at f 0xC = mask_int 32 sequence \<and>
     pyslice f 0x14 0x18 = le_bytes 4 (mask_int 32 flags) \<and> drop 0x18 f = replicate (len - 0x18) 0"

lemma new_header_ok:
  assumes "0 \<le> subtype" "subtype \<le> 255" "0x18 \<le> len" "len \<le> 0xFFFF"
  shows "\<exists>f. new_header subtype len identity sequence flags = Inr f \<and> header_of f subtype len identity sequence flags"
proof -
  define f where "f = put (put (put (put (put (put (replicate len 0) 0 [0x7F]) 1 [of_int subtype])
     2 (le_bytes 2 len)) 4 (le_bytes 8 (mask_int 64 identity)))
     0x0C (le_bytes 4 (mask_int 32 sequence))) 0x14 (le_bytes 4 (mask_int 32 flags))"
  have "new_header subtype len identity sequence flags = Inr f" using assms by (simp add: new_header_def f_def)
  moreover have "length f = len" "f ! 0 = 0x7F" "f ! 1 = of_int subtype" "u16_at f 2 = len"
    "u64_at f 4 = mask_int 64 identity" "u32_at f 0xC = mask_int 32 sequence"
    "pyslice f 0x14 0x18 = le_bytes 4 (mask_int 32 flags)"
    using assms mask_int_256 by (simp_all add: f_def put_fields)
  moreover have "drop 0x18 f = replicate (len - 0x18) 0"
    using assms(3) by (intro nth_equalityI) (simp_all add: f_def nth_put)
  ultimately show ?thesis by (simp add: header_of_def)
qed

lemma byte_and_3: "(of_nat m :: byte) AND 3 = of_nat (m mod 4)"
proof -
  have "(of_nat m :: byte) AND mask 2 = of_nat (take_bit 2 m)"
    by (simp only: take_bit_eq_mask [symmetric] take_bit_of_nat)
  then show ?thesis by (simp add: mask_eq_exp_minus_1 take_bit_eq_mod)
qed

lemma mode_byte: "(le_bytes 4 n ! 2 :: byte) AND 3 = of_nat (drop_bit 16 n mod 4)"
proof -
  have "le_bytes 4 n ! 2 = (of_nat (drop_bit 16 n) :: byte)" by (simp add: le_bytes_nth drop_bit_eq_div)
  then show ?thesis by (simp only: byte_and_3)
qed

text \<open>Sealing with mode 2 succeeds on a consistent frame and opens to it with its checksum filled in.\<close>

lemma finish_mode2_opens:
  assumes "frame_length_ok f" "f ! 0x16 AND 3 = 2" "modern_encrypted_data_len f = Inr n" "length key = 32"
  obtains w p c where "finish_mode2 f key = Inr w" "gute_mode2_decrypt w key = Inr p" "length w = length f"
    "p = put f 0x10 (le_bytes 4 c)" "gute_mode1_xor_checksum p = Inr (u32_at p 0x10)"
proof -
  obtain c where c: "gute_mode1_xor_checksum f = Inr c"
    using assms(1,3) by (simp add: gute_mode1_xor_checksum_def Let_def)
  let ?p = "put f 0x10 (le_bytes 4 c)" and ?c = "\<lparr>rc5_r = 6, rc5_S = rc5_expand 6 key\<rparr> :: 32 word rc5"
  note s = sealed_frame [OF c]
  from s(3) obtain m where m: "modern_encrypted_data_len ?p = Inr m" by blast
  obtain w where w: "gute_mode2_encrypt ?p key = Inr w"
    using frame_roundtrip [OF m, of ?c] s(1,2) assms(2,4) by (auto simp: gute_mode2_encrypt_def rc5_init_def)
  have "24 \<le> length f" using assms(1) by (simp add: frame_length_ok_def)
  with mode2_decrypt_encrypt [OF w] c w s(4) show thesis
    by (intro that [of w ?p c]) (simp_all add: finish_mode2_def)
qed

lemma finish_mode1_opens:
  assumes "frame_length_ok f" "f ! 0x16 AND 3 = 1" "modern_encrypted_data_len f = Inr n"
  obtains w p c where "finish_mode1 f = Inr w" "gute_mode1_decrypt w = Inr p" "length w = length f"
    "p = put f 0x10 (le_bytes 4 c)" "gute_mode1_xor_checksum p = Inr (u32_at p 0x10)"
proof -
  obtain c where c: "gute_mode1_xor_checksum f = Inr c"
    using assms(1,3) by (simp add: gute_mode1_xor_checksum_def Let_def)
  let ?p = "put f 0x10 (le_bytes 4 c)"
  note s = sealed_frame [OF c]
  obtain w where w: "finish_mode1 f = Inr w" using finish_mode1_total [OF assms] by blast
  then have "gute_mode1_encrypt ?p = Inr w" using c by (simp add: finish_mode1_def)
  moreover have "24 \<le> length f" using assms(1) by (simp add: frame_length_ok_def)
  ultimately show thesis using mode1_decrypt_encrypt [of ?p w] w s(4)
    by (intro that [of w ?p c]) simp_all
qed

text \<open>
  A frame that keeps the length and flags words of its header, with no trailer bits,
  is consistent; \<open>md\<close> is its mode.
\<close>

lemma framed_ok:
  assumes "24 \<le> length f" "u16_at f 2 = length f" "pyslice f 0x14 0x18 = le_bytes 4 flags" "flags < 2 ^ 32"
    and "\<not> bit flags 22" "\<not> bit flags 24"
  shows "frame_length_ok f" "f ! 0x16 AND 3 = of_nat (drop_bit 16 flags mod 4)"
    "modern_encrypted_data_len f = Inr (length f - 24)"
proof -
  show "frame_length_ok f" using assms(1,2) by (simp add: frame_length_ok_def)
  have "f ! 0x16 = pyslice f 0x14 0x18 ! 2" using assms(1) by simp
  then show "f ! 0x16 AND 3 = of_nat (drop_bit 16 flags mod 4)"
    unfolding assms(3) by (simp only: mode_byte)
  have "u32_at f 0x14 = flags" using assms(3,4) by (simp add: le_val_le_bytes)
  then show "modern_encrypted_data_len f = Inr (length f - 24)"
    unfolding modern_encrypted_data_len_def Let_def using assms(1,2,5,6) by simp
qed

lemma sealed_mode2:
  assumes "24 \<le> length f" "u16_at f 2 = length f" "pyslice f 0x14 0x18 = le_bytes 4 flags" "flags < 2 ^ 32"
    and "\<not> bit flags 22" "\<not> bit flags 24" "drop_bit 16 flags mod 4 = 2" "length key = 32"
  shows "\<exists>w p c. finish_mode2 f key = Inr w \<and> gute_mode2_decrypt w key = Inr p \<and> length w = length f \<and>
    p = put f 0x10 (le_bytes 4 c) \<and> gute_mode1_xor_checksum p = Inr (u32_at p 0x10)"
proof -
  note fo = framed_ok [OF assms(1-6)]
  have "f ! 0x16 AND 3 = 2" using fo(2) assms(7) by simp
  from finish_mode2_opens [OF fo(1) this fo(3) assms(8)] show ?thesis by metis
qed

text \<open>Random header bits leave the mode, the delivery kind and the trailer bits alone.\<close>

lemma bit_randomized_flags:
  "bit (randomized_flags rand15 md proc extra) n \<longleftrightarrow> bit extra n \<or>
     (1 \<le> n \<and> n < 16 \<and> bit rand15 (n - 1)) \<or> (16 \<le> n \<and> n < 18 \<and> bit md (n - 16)) \<or>
     (18 \<le> n \<and> n < 20 \<and> bit proc (n - 18))"
proof -
  have m: "(0x7FFF :: nat) = mask 15" "(3 :: nat) = mask 2" by (simp_all add: mask_eq_exp_minus_1)
  show ?thesis unfolding randomized_flags_def m
    by (simp only: bit_or_iff bit_push_bit_iff bit_and_iff bit_mask_iff) auto
qed

lemma randomized_flags_fields:
  assumes "md < 4" "proc < 4"
  shows "randomized_flags rand15 md proc 0 < 2 ^ 20" "drop_bit 16 (randomized_flags rand15 md proc 0) mod 4 = md"
    "drop_bit 18 (randomized_flags rand15 md proc 0) = proc"
proof -
  let ?f = "randomized_flags rand15 md proc 0"
  have md: "take_bit 2 md = md" "take_bit 2 proc = proc" using assms by (simp_all add: take_bit_eq_mod)
  have b: "bit md n \<Longrightarrow> n < 2" "bit proc n \<Longrightarrow> n < 2" for n
    using md by (metis bit_take_bit_iff)+
  have "take_bit 20 ?f = ?f" by (rule bit_eqI) (auto simp: bit_take_bit_iff bit_randomized_flags)
  then show "?f < 2 ^ 20" by (metis take_bit_nat_less_exp)
  have "take_bit 2 (drop_bit 16 ?f) = md"
    by (rule bit_eqI) (auto simp: bit_take_bit_iff bit_drop_bit_eq bit_randomized_flags dest: b)
  then show "drop_bit 16 ?f mod 4 = md" by (simp add: take_bit_eq_mod)
  show "drop_bit 18 ?f = proc"
    by (rule bit_eqI) (auto simp: bit_drop_bit_eq bit_randomized_flags dest: b)
qed

lemma randomized_flags_no_trailer:
  assumes "md < 4" "proc < 4"
  shows "\<not> bit (randomized_flags rand15 md proc 0) 22" "\<not> bit (randomized_flags rand15 md proc 0) 24"
    "mask_int 32 (int (randomized_flags rand15 md proc 0)) = randomized_flags rand15 md proc 0"
    "randomized_flags rand15 md proc 0 < 2 ^ 32" "\<not> bit (randomized_flags rand15 md proc 0) 20"
  using randomized_flags_fields(1) [OF assms, of rand15]
  by (simp_all add: bit_randomized_flags mask_int_id)

section \<open>Acknowledgements\<close>

lemma response_ack_opens:
  assumes "length (cn_session_key node) = 32" "16 \<le> length response"
  shows "\<exists>w p. build_mode2_response_ack node response = Inr w \<and> gute_mode2_decrypt w (cn_session_key node) = Inr p \<and>
    length p = 32 \<and> p ! 0 = 0x7E \<and> p ! 1 = response ! 1 \<and> u16_at p 2 = 32 \<and>
    u64_at p 4 = mask_int 64 (cn_session_id node) \<and> u32_at p 0xC = u32_at response 0xC \<and> u32_at p 0x14 = 0x120000 \<and>
    u16_at p 26 = 0 \<and> gute_mode1_xor_checksum p = Inr (u32_at p 0x10)"
proof -
  let ?flags = "push_bit 20 1 OR push_bit 16 2 :: nat"
  have "?flags = 0x120000" unfolding push_bit_eq_mult by simp
  then have m: "mask_int 32 (int ?flags) = 0x120000" unfolding mask_int_def by simp
  have byte: "0 \<le> uint (response ! 1)" "uint (response ! 1) \<le> 255"
    using uint_bounded [of "response ! 1"] by simp_all
  have "\<exists>h. new_header (uint (response ! 1)) 32 (cn_session_id node) (int (u32_at response 0xC)) (int ?flags) = Inr h \<and>
    header_of h (uint (response ! 1)) 32 (cn_session_id node) (int (u32_at response 0xC)) (int ?flags)"
    by (rule new_header_ok [OF byte]) simp_all
  then obtain h where h: "new_header (uint (response ! 1)) 32 (cn_session_id node) (int (u32_at response 0xC)) (int ?flags) = Inr h"
    and ho: "header_of h (uint (response ! 1)) 32 (cn_session_id node) (int (u32_at response 0xC)) (int ?flags)" by blast
  note hd = ho [unfolded header_of_def m]
  define f where "f = put (put h 0 [0x7E]) 0x18 (le_bytes 4 4)"
  have f: "length f = 32" "f ! 0 = 0x7E" "f ! 1 = response ! 1" "u16_at f 2 = 32"
    "u64_at f 4 = mask_int 64 (cn_session_id node)" "pyslice f 0x14 0x18 = le_bytes 4 0x120000"
    "pyslice f 0x18 0x1C = le_bytes 4 4" "u32_at f 0xC = mask_int 32 (int (u32_at response 0xC))"
    using hd by (simp_all add: f_def put_fields)
  have seq: "u32_at f 0xC = u32_at response 0xC"
    using f(8) le_val_slice_bound [of "2 ^ 32" 16 12 response] by (simp add: mask_int_def)
  have bits: "\<not> bit (0x120000 :: nat) 22" "\<not> bit (0x120000 :: nat) 24" "drop_bit 16 (0x120000 :: nat) mod 4 = 2"
    by (simp_all add: bit_iff_odd drop_bit_eq_div)
  obtain w p c where w: "finish_mode2 f (cn_session_key node) = Inr w" "gute_mode2_decrypt w (cn_session_key node) = Inr p"
    "p = put f 0x10 (le_bytes 4 c)" "gute_mode1_xor_checksum p = Inr (u32_at p 0x10)"
    using sealed_mode2 [OF _ _ f(6) _ bits assms(1)] f(1,4) by fastforce
  have built: "build_mode2_response_ack node response = Inr w"
    using h ho assms(2) w(1) by (simp add: build_mode2_response_ack_def f_def header_of_def)
  have p: "length p = 32" "p ! 0 = 0x7E" "p ! 1 = response ! 1" "u16_at p 2 = 32"
    "u64_at p 4 = mask_int 64 (cn_session_id node)" "u32_at p 0xC = u32_at response 0xC"
    "pyslice p 0x14 0x18 = le_bytes 4 0x120000" "pyslice p 0x18 0x1C = le_bytes 4 4"
    using f(1-7) seq unfolding w(3) by (simp_all add: put_fields)
  have fl2: "u32_at p 0x14 = 0x120000" using p(7) by (simp add: le_val_le_bytes)
  have "pyslice p 26 28 = pyslice (pyslice p 0x18 0x1C) 2 4" by (simp add: slice_slice)
  then have res: "u16_at p 26 = 0" unfolding p(8) by (simp add: pyslice_def le_bytes_4)
  show ?thesis using built w(2,4) p(1-6) fl2 res by blast
qed

text \<open>
  The acknowledgement this code builds for a datagram is what its own transaction
  table accepts: under a 32-byte session key, acknowledging a response whose sequence and
  subtype are those of a pending ticket of the session gives a datagram which decrypts
  and is accepted, before the deadline, as the receipt of exactly that ticket with
  result 0; the ticket is then no longer pending.
\<close>
theorem response_ack_accepted:
  assumes "length (cn_session_key node) = 32" "0 \<le> cn_session_id node" "cn_session_id node < 2 ^ 64"
    and "transactions_active b" "bt_session b = cn_session_id node"
    and "map_of (bt_pending b) (int (u32_at response 0xC)) = Some (ticket, deadline)" "now < deadline"
    and "16 \<le> length response" "uint (response ! 1) = rt_kind ticket"
  shows "\<exists>w p. build_mode2_response_ack node response = Inr w \<and> gute_mode2_decrypt w (cn_session_key node) = Inr p \<and>
    transactions_accept p (bt_generation b) now b =
      (Inr (Some \<lparr>tr_ticket = ticket, tr_result = 0\<rparr>),
       b\<lparr>bt_pending := dict_pop (int (u32_at response 0xC)) (bt_pending b)\<rparr>)"
proof -
  obtain w p where w: "build_mode2_response_ack node response = Inr w" "gute_mode2_decrypt w (cn_session_key node) = Inr p"
    and p: "length p = 32" "p ! 0 = 0x7E" "p ! 1 = response ! 1" "u16_at p 2 = 32" "u64_at p 4 = mask_int 64 (cn_session_id node)"
    "u32_at p 0xC = u32_at response 0xC" "u32_at p 0x14 = 0x120000" "u16_at p 26 = 0"
    "gute_mode1_xor_checksum p = Inr (u32_at p 0x10)"
    using response_ack_opens [OF assms(1,8)] by blast
  have "receipt_header_ok p (bt_session b) = Inr True"
    using p(1-5,9) assms(2,3,5) by (simp add: receipt_header_ok_def mask_int_id)
  then have "transactions_accept p (bt_generation b) now b =
      (Inr (Some \<lparr>tr_ticket = ticket, tr_result = 0\<rparr>),
       b\<lparr>bt_pending := dict_pop (int (u32_at response 0xC)) (bt_pending b)\<rparr>)"
    using assms(4,6,7,9) p(3,6-8)
    by (simp add: transactions_accept_def Let_def bit_iff_odd drop_bit_eq_div)
  with w show ?thesis by blast
qed

theorem response_ack_accepted_witness:
  "\<exists>w p. build_mode2_response_ack \<lparr>cn_address = (''broker'', 1), cn_session_id = 7, cn_session_key = replicate 32 1,
       cn_next_sequence = 6\<rparr> (put (put (replicate 32 0) 1 [0xB9]) 12 [5]) = Inr w \<and>
    gute_mode2_decrypt w (replicate 32 1) = Inr p \<and>
    transactions_accept p 1 2 (demo_transactions\<lparr>bt_pending :=
      [(5, \<lparr>rt_generation = 1, rt_sequence = 5, rt_kind = 0xB9\<rparr>, 3)]\<rparr>) =
      (Inr (Some \<lparr>tr_ticket = \<lparr>rt_generation = 1, rt_sequence = 5, rt_kind = 0xB9\<rparr>, tr_result = 0\<rparr>), demo_transactions)"
proof -
  let ?node = "\<lparr>cn_address = (''broker'', 1), cn_session_id = 7, cn_session_key = replicate 32 1, cn_next_sequence = 6\<rparr>"
  let ?t = "\<lparr>rt_generation = 1, rt_sequence = 5, rt_kind = 0xB9\<rparr>"
  let ?b = "demo_transactions\<lparr>bt_pending := [(5, ?t, 3)]\<rparr>" and ?r = "put (put (replicate 32 0) 1 [0xB9]) 12 [5] :: bytes"
  have r: "u32_at ?r 0xC = 5" "?r ! 1 = 0xB9" "length ?r = 32" by (simp_all add: put_def pyslice_def)
  have b: "transactions_active ?b" "bt_session ?b = 7" "bt_generation ?b = 1" "bt_pending ?b = [(5, ?t, 3)]"
    "?b\<lparr>bt_pending := dict_pop 5 [(5, ?t, 3)]\<rparr> = demo_transactions"
    by (simp_all add: transactions_active_def sequences_match_def demo_transactions_def dict_pop_def)
  have "0 \<le> cn_session_id ?node" "cn_session_id ?node < 2 ^ 64" "length (cn_session_key ?node) = 32"
    "bt_session ?b = cn_session_id ?node" "map_of (bt_pending ?b) (int (u32_at ?r 0xC)) = Some (?t, 3)" "(2 :: time) < 3"
    "16 \<le> length ?r" "uint (?r ! 1) = rt_kind ?t" using r b(2,4) by simp_all
  from response_ack_accepted [OF this(3,1,2) b(1) this(4-8)] b(3-5) r show ?thesis by simp
qed

section \<open>The node list\<close>

text \<open>The endpoint of a port field of a record of the list.\<close>

definition listed_endpoint :: "bytes \<Rightarrow> nat \<Rightarrow> nat \<Rightarrow> string \<times> nat" where
  "listed_endpoint frame index offset =
     (inet_ntoa (take 4 (list_record frame index)), be_val (pyslice (list_record frame index) offset (offset + 2)))"

lemma add_endpoint_fold:
  assumes "distinct eps"
  shows "distinct (foldl (add_endpoint (list_record frame i)) eps offs) \<and>
    set (foldl (add_endpoint (list_record frame i)) eps offs) =
      set eps \<union> {listed_endpoint frame i off | off. off \<in> set offs \<and> snd (listed_endpoint frame i off) \<noteq> 0}"
  using assms
proof (induction offs arbitrary: eps)
  case (Cons off offs)
  let ?e = "add_endpoint (list_record frame i) eps off"
  have "distinct ?e" "set ?e = set eps \<union> (if snd (listed_endpoint frame i off) \<noteq> 0 then {listed_endpoint frame i off} else {})"
    using Cons.prems by (auto simp: add_endpoint_def listed_endpoint_def Let_def)
  with Cons.IH [of ?e] show ?case by (auto split: if_splits)
qed simp

lemma list_records_fold:
  assumes "distinct eps"
  shows "distinct (foldl (add_record frame) eps is) \<and> set (foldl (add_record frame) eps is) = set eps \<union>
    {listed_endpoint frame i off | i off. i \<in> set is \<and> off \<in> {0x18, 0x1A, 0x1C, 0x1E} \<and> snd (listed_endpoint frame i off) \<noteq> 0}"
  using assms
proof (induction "is" arbitrary: eps)
  case (Cons i "is")
  have s: "distinct (add_record frame eps i)" "set (add_record frame eps i) = set eps \<union>
      {listed_endpoint frame i off | off. off \<in> {0x18, 0x1A, 0x1C, 0x1E} \<and> snd (listed_endpoint frame i off) \<noteq> 0}"
    using add_endpoint_fold [OF Cons.prems, of frame i "[0x18, 0x1A, 0x1C, 0x1E]"] unfolding add_record_def by simp_all
  from Cons.IH [OF s(1)] show ?case unfolding foldl.simps s(2) by auto
qed simp

text \<open>
  The parsed node list is exactly the set of endpoints the reply lists with a
  non-zero port, each once: nothing of the reply is lost, invented or repeated, and
  there are at most four per record.
\<close>
theorem list_reply_endpoints:
  assumes "parse_list_reply wire = Inr eps"
  shows "\<exists>frame. gute_mode1_decrypt wire = Inr frame \<and> distinct eps \<and> length eps \<le> 4 * unat (frame ! 0x1E) \<and>
    set eps = {listed_endpoint frame i off | i off. i < unat (frame ! 0x1E) \<and> off \<in> {0x18, 0x1A, 0x1C, 0x1E} \<and>
      snd (listed_endpoint frame i off) \<noteq> 0}"
proof -
  obtain frame where f: "gute_mode1_decrypt wire = Inr frame" and eps: "eps = foldl (add_record frame) [] [0..<unat (frame ! 0x1E)]"
    using assms by (auto simp: parse_list_reply_def bind_res_Inr Let_def split: if_splits)
  let ?n = "unat (frame ! 0x1E)" and ?offs = "{0x18, 0x1A, 0x1C, 0x1E :: nat}"
  have d: "distinct eps" and s: "set eps = {listed_endpoint frame i off | i off. i < ?n \<and> off \<in> ?offs \<and>
      snd (listed_endpoint frame i off) \<noteq> 0}"
    using list_records_fold [of "[]" frame "[0..<?n]"] unfolding eps by simp_all
  have "set eps \<subseteq> (\<lambda>(i, off). listed_endpoint frame i off) ` ({0..<?n} \<times> ?offs)"
    unfolding s by force
  then have "card (set eps) \<le> card ({0..<?n} \<times> ?offs)" by (intro surj_card_le) auto
  then have "length eps \<le> 4 * ?n" using d by (simp add: distinct_card card_cartesian_product)
  with f d s show ?thesis by blast
qed

definition demo_list :: bytes where
  "demo_list = [0x7F, 0x16, 68, 0] @ replicate 18 0 @ [1] @ replicate 7 0 @ [1, 0] @
     [10, 0, 0, 1] @ replicate 20 0 @ [0x1F, 0x90, 0, 0, 0x1F, 0x90, 0x1F, 0x91] @ replicate 4 0"

theorem list_reply_endpoints_witness:
  "\<exists>wire frame. parse_list_reply wire = Inr [(''10.0.0.1'', 8080), (''10.0.0.1'', 8081)] \<and>
    gute_mode1_decrypt wire = Inr frame \<and>
    {(''10.0.0.1'', 8080), (''10.0.0.1'', 8081)} = {listed_endpoint frame i off | i off.
      i < unat (frame ! 0x1E) \<and> off \<in> {0x18, 0x1A, 0x1C, 0x1E} \<and> snd (listed_endpoint frame i off) \<noteq> 0}"
proof -
  have len: "length demo_list = 68" by (simp add: demo_list_def)
  have "frame_length_ok demo_list" "demo_list ! 0x16 AND 3 = 1" "modern_encrypted_data_len demo_list = Inr 44"
    by (simp_all add: frame_length_ok_def modern_encrypted_data_len_def demo_list_def pyslice_def bit_iff_odd
        nth_append Let_def le_val_append)
  then obtain w p c where w: "gute_mode1_decrypt w = Inr p" "p = put demo_list 0x10 (le_bytes 4 c)"
    by (rule finish_mode1_opens)
  have p: "length p = 68" "take 2 p = [0x7F, 0x16]" "p ! 0x1E = 1"
    "list_record p 0 = drop 0x20 demo_list"
    using len unfolding w(2) by (simp_all add: put_def list_record_def pyslice_def demo_list_def nth_append)
  have "inet_ntoa [10, 0, 0, 1] = ''10.0.0.1''" by (simp add: inet_ntoa_def show_nat.simps char_of_def bit_iff_odd)
  then have "parse_list_reply w = Inr [(''10.0.0.1'', 8080), (''10.0.0.1'', 8081)]"
    using w(1) p by (simp add: parse_list_reply_def add_record_def add_endpoint_def demo_list_def pyslice_def be_val_def Let_def)
  with list_reply_endpoints [OF this] show ?thesis by (metis (no_types, lifting) list.set(1,2))
qed

section \<open>Certification requests\<close>

text \<open>The checksum does not cover what is written behind the encrypted payload.\<close>

lemma xor_checksum_put_tail:
  assumes "modern_encrypted_data_len f = Inr n" "24 + n \<le> off" "off + length b \<le> length f"
  shows "gute_mode1_xor_checksum (put f off b) = gute_mode1_xor_checksum f"
    "modern_encrypted_data_len (put f off b) = Inr n"
proof -
  have s: "pyslice (put f off b) i j = pyslice f i j" if "j \<le> off" for i j
    using that assms(3) by (simp add: slice_put_disjoint)
  have fields: "24 \<le> off" "length (put f off b) = length f" using assms by simp_all
  then have "modern_encrypted_data_len (put f off b) = modern_encrypted_data_len f"
    unfolding modern_encrypted_data_len_def Let_def using s by simp
  with assms(1) show n: "modern_encrypted_data_len (put f off b) = Inr n" by simp
  have "foldl (\<lambda>out i. out XOR u32_at (put f off b) (0x18 + 4 * i)) x [0..<n div 4] =
      foldl (\<lambda>out i. out XOR u32_at f (0x18 + 4 * i)) x [0..<n div 4]" for x
  proof (rule foldl_cong)
    fix y i assume "i \<in> set [0..<n div 4]"
    then have "4 * i + 4 \<le> n" by auto
    then show "y XOR u32_at (put f off b) (0x18 + 4 * i) = y XOR u32_at f (0x18 + 4 * i)"
      using s [of "28 + 4 * i" "24 + 4 * i"] assms(2) by (simp add: ac_simps)
  qed auto
  then show "gute_mode1_xor_checksum (put f off b) = gute_mode1_xor_checksum f"
    using assms(1) n fields s [of 4 2] s [of 24 20] s [of 4 0] s [of 8 4] s [of 12 8] s [of 16 12]
    by (simp add: gute_mode1_xor_checksum_def frame_length_ok_def Let_def)
qed

lemma rc5_64_block:
  fixes c :: "64 word rc5"
  assumes "length b = 16"
  shows "\<exists>e. rc5_encrypt_block c b = Inr e \<and> length e = 16 \<and> rc5_decrypt_block c e = Inr b"
proof -
  have "bind_res (rc5_encrypt_block c b) (rc5_decrypt_block c) = Inr b"
    using assms by (intro rc5_decrypt_encrypt) (simp_all add: rc5_ww_def)
  then obtain e where e: "rc5_encrypt_block c b = Inr e" "rc5_decrypt_block c e = Inr b"
    by (auto simp: bind_res_Inr)
  moreover have "length e = 16"
    using e(2) by (auto simp: rc5_decrypt_block_def rc5_ww_def split: if_splits)
  ultimately show ?thesis by blast
qed

lemma wrap_certification_key_ok:
  assumes "length session_key = 32"
  shows "\<exists>c wrapped. rc5_init (pyslice token 48 64) 6 = Inr (c :: 64 word rc5) \<and>
    wrap_certification_key session_key token = Inr wrapped \<and> length wrapped = 32 \<and>
    rc5_decrypt_block c (pyslice wrapped 0 16) = Inr (pyslice session_key 0 16) \<and>
    rc5_decrypt_block c (pyslice wrapped 16 32) = Inr (pyslice session_key 16 32)"
proof -
  obtain c :: "64 word rc5" where c: "rc5_init (pyslice token 48 64) 6 = Inr c" by (simp add: rc5_init_def)
  obtain e1 e2 where e: "rc5_encrypt_block c (pyslice session_key 0 16) = Inr e1" "length e1 = 16"
    "rc5_decrypt_block c e1 = Inr (pyslice session_key 0 16)"
    "rc5_encrypt_block c (pyslice session_key 16 32) = Inr e2" "length e2 = 16"
    "rc5_decrypt_block c e2 = Inr (pyslice session_key 16 32)"
    using rc5_64_block [of "pyslice session_key 0 16" c] rc5_64_block [of "pyslice session_key 16 32" c] assms
    by (auto simp del: length_slice simp: length_slice [of session_key])
  have "map (\<lambda>i. 16 * i) [0..<(length session_key + 15) div 16] = [0, 16]" using assms by (simp add: upt_rec)
  then have "wrap_certification_key session_key token = Inr (e1 @ e2)"
    unfolding wrap_certification_key_def c using e(1,4) by simp
  moreover have "pyslice (e1 @ e2) 0 16 = e1" "pyslice (e1 @ e2) 16 32 = e2" using e(2,5) by (simp_all add: pyslice_def)
  ultimately show ?thesis using c e by (intro exI [of _ c] exI [of _ "e1 @ e2"]) simp
qed

lemma mode1_encrypt_total:
  assumes "frame_length_ok p" "p ! 0x16 AND 3 = 1" "modern_encrypted_data_len p = Inr n"
  shows "\<exists>w. gute_mode1_encrypt p = Inr w"
  using frame_roundtrip [OF assms(3), of "\<lparr>rc5_r = 6, rc5_S = rc5_expand 6 (mode1_key p)\<rparr>"] assms(1,2)
  by (auto simp: gute_mode1_encrypt_def rc5_init_def)

lemma certification_flags:
  fixes rand15 :: nat
  shows "bit (randomized_flags rand15 1 3 (push_bit 22 1 OR push_bit 24 1)) 22"
    "bit (randomized_flags rand15 1 3 (push_bit 22 1 OR push_bit 24 1)) 24"
    "randomized_flags rand15 1 3 (push_bit 22 1 OR push_bit 24 1) < 2 ^ 25"
    "drop_bit 16 (randomized_flags rand15 1 3 (push_bit 22 1 OR push_bit 24 1)) mod 4 = 1"
proof -
  let ?fl = "randomized_flags rand15 1 3 (push_bit 22 1 OR push_bit 24 1)"
  have "bit (push_bit 22 1 OR push_bit 24 1 :: nat) n \<longleftrightarrow> n = 22 \<or> n = 24" for n
    by (simp only: bit_or_iff bit_push_bit_iff bit_1_iff) auto
  note fb = bit_randomized_flags [of rand15 1 3 "push_bit 22 1 OR push_bit 24 1", unfolded this]
  show "bit ?fl 22" "bit ?fl 24" unfolding fb by simp_all
  have n20: "\<not> bit ?fl n" if "25 \<le> n" for n
    unfolding fb using that by auto
  have "take_bit 25 ?fl = ?fl" by (rule bit_eqI) (simp only: bit_take_bit_iff, use n20 not_le in blast)
  then show "?fl < 2 ^ 25" by (metis take_bit_nat_less_exp)
  have "take_bit 2 (drop_bit 16 ?fl) = (1 :: nat)"
    by (rule bit_eqI) (simp only: bit_take_bit_iff bit_drop_bit_eq comp_apply fb, auto simp: bit_Suc_0_iff)
  then show "drop_bit 16 ?fl mod 4 = 1" by (simp add: take_bit_eq_mod)
qed

text \<open>
  A certification request opens at the access node: for in-range fields, building
  succeeds, the datagram decrypts to a frame with the account's identity and the
  sequence whose checksum verifies, the node recovers the proposed session key by
  decrypting the two wrapped blocks with the token's secret and finds its hash, and the
  authentication trailer opens to a signature over this frame's sequence and checksum.
\<close>
theorem certification_request_opens:
  assumes "aes_ok aes" "digest_ok hmac_md5" "length token = 64" "length nonce = 12" "length session_key = 32"
    and "0 \<le> mtu" "mtu < 2 ^ 32" "0 \<le> now_ms" "now_ms < 2 ^ 64"
  shows "\<exists>w p c clear. build_certification_request aes hmac_md5 \<lparr>lm_access_id = access_id, lm_access_token = token\<rparr>
      sequence session_key mtu now_ms rand15 nonce = Inr w \<and> gute_mode1_decrypt w = Inr p \<and> length p = 0xA4 \<and>
    u64_at p 4 = mask_int 64 access_id \<and> u32_at p 0xC = mask_int 32 sequence \<and>
    gute_mode1_xor_checksum p = Inr (u32_at p 0x10) \<and> u32_at p 0x1C = unat (hash_string session_key) \<and>
    rc5_init (pyslice token 48 64) 6 = Inr (c :: 64 word rc5) \<and>
    rc5_decrypt_block c (pyslice p 0x20 0x30) = Inr (pyslice session_key 0 16) \<and>
    rc5_decrypt_block c (pyslice p 0x30 0x40) = Inr (pyslice session_key 16 32) \<and>
    bind_res (aes_cbc aes (pyslice p 0x64 0x94) (pyslice p 0x58 0x64) False) (\<lambda>d. Inr (put (pyslice p 0x54 0xA4) 16 d))
      = Inr clear \<and> trailer_ok hmac_md5 token (pyslice p 0xC 0x14) nonce clear"
proof -
  let ?fl = "randomized_flags rand15 1 3 (push_bit 22 1 OR push_bit 24 1)"
  note fl = certification_flags [of rand15]
  then have m: "mask_int 32 (int ?fl) = ?fl" by (simp add: mask_int_id)
  have "\<exists>h. new_header 0x0C 0xA4 access_id sequence (int ?fl) = Inr h \<and> header_of h 0x0C 0xA4 access_id sequence (int ?fl)"
    by (rule new_header_ok) simp_all
  then obtain h where h: "new_header 0x0C 0xA4 access_id sequence (int ?fl) = Inr h"
    and ho: "header_of h 0x0C 0xA4 access_id sequence (int ?fl)" by blast
  note hd = ho [unfolded header_of_def m]
  obtain c wr where wr: "rc5_init (pyslice token 48 64) 6 = Inr (c :: 64 word rc5)"
    "wrap_certification_key session_key token = Inr wr" "length wr = 32"
    "rc5_decrypt_block c (pyslice wr 0 16) = Inr (pyslice session_key 0 16)"
    "rc5_decrypt_block c (pyslice wr 16 32) = Inr (pyslice session_key 16 32)"
    using wrap_certification_key_ok [OF assms(5)] by blast
  let ?hash = "unat (hash_string session_key)"
  have hash: "nat (uint (hash_string session_key)) = ?hash" "?hash < 256 ^ 4" "uint (hash_string session_key) < 256 ^ 4"
    using uint_bounded [of "hash_string session_key"] unsigned_less [of "hash_string session_key", where 'a = nat] by simp_all
  define f1 where "f1 = put (put h 0x18 (le_bytes 2 1)) 0x1C (le_bytes 4 ?hash)"
  define f3 where "f3 = put (put (put f1 0x20 wr) 0x40 (le_bytes 4 (nat mtu))) 0x44 (le_bytes 8 (nat now_ms))"
  have f3: "length f3 = 0xA4" "u16_at f3 2 = 0xA4" "u64_at f3 4 = mask_int 64 access_id" "u32_at f3 0xC = mask_int 32 sequence"
    "pyslice f3 0x14 0x18 = le_bytes 4 ?fl" "u32_at f3 0x1C = ?hash" "pyslice f3 0x20 0x40 = wr"
    using hd wr(3) hash(2) by (simp_all add: f3_def f1_def put_fields)
  have n3: "frame_length_ok f3" "modern_encrypted_data_len f3 = Inr 44"
    using f3(1,2,5) fl(1-3) by (simp_all add: frame_length_ok_def modern_encrypted_data_len_def Let_def le_val_le_bytes)
  have "f3 ! 0x16 = pyslice f3 0x14 0x18 ! 2" using f3(1) by simp
  then have mode3: "f3 ! 0x16 AND 3 = 1" using fl(4) unfolding f3(5) by (simp only: mode_byte) simp
  obtain k where k: "gute_mode1_xor_checksum f3 = Inr k" using n3 by (simp add: gute_mode1_xor_checksum_def Let_def)
  define f4 where "f4 = put f3 0x10 (le_bytes 4 k)"
  note s4 = sealed_frame [OF k, folded f4_def]
  have l4: "length f4 = 0xA4" "length (pyslice f4 0xC 0x14) = 8" using f3(1) by (simp_all add: f4_def)
  obtain blob clear where b: "build_conn_auth_blob aes hmac_md5 token (pyslice f4 0xC 0x14) nonce = Inr blob"
    "length blob = 80" "pyslice blob 4 16 = nonce" "trailer_ok hmac_md5 token (pyslice f4 0xC 0x14) nonce clear"
    "bind_res (aes_cbc aes (pyslice blob 16 64) nonce False) (\<lambda>d. Inr (put blob 16 d)) = Inr clear"
    using conn_auth_blob_opens [OF assms(1-3) l4(2) assms(4)] by blast
  define f5 where "f5 = put f4 0x54 blob"
  have n4: "modern_encrypted_data_len f4 = Inr 44" using n3(2) f3(1) by (simp add: f4_def data_len_put_checksum)
  have tail: "gute_mode1_xor_checksum f5 = gute_mode1_xor_checksum f4" "modern_encrypted_data_len f5 = Inr 44"
    using xor_checksum_put_tail [OF n4, of 84 blob] l4(1) b(2) by (simp_all add: f5_def)
  have l5: "length f5 = 0xA4" "f5 ! 0x16 = f4 ! 0x16" using l4(1) b(2) by (simp_all add: f5_def nth_put)
  have low: "pyslice f5 i j = pyslice f4 i j" if "j \<le> 0x54" for i j
    using that l4(1) b(2) by (simp add: f5_def slice_put_disjoint)
  have low3: "pyslice f5 i j = pyslice f3 i j" if "j \<le> 0x54" "j \<le> 0x10 \<or> 0x14 \<le> i" for i j
    using that low [of j i] f3(1) by (simp add: f4_def slice_put_disjoint)
  have hi: "pyslice f5 0x54 0xA4 = blob" using l4(1) b(2) by (simp add: f5_def slice_put_same)
  have "frame_length_ok f5" using l5(1) low3 [of 4 2] f3(2) by (simp add: frame_length_ok_def)
  moreover have "f5 ! 0x16 AND 3 = 1" using mode3 s4(2) l5(2) by simp
  ultimately obtain w where w: "gute_mode1_encrypt f5 = Inr w" using mode1_encrypt_total tail(2) by blast
  have "build_certification_request aes hmac_md5 \<lparr>lm_access_id = access_id, lm_access_token = token\<rparr>
      sequence session_key mtu now_ms rand15 nonce = Inr w"
    using assms(5-9) h hd wr(2,3) hash k b(1) w
    by (simp add: build_certification_request_def Let_def f1_def f3_def f4_def f5_def)
  moreover have "gute_mode1_decrypt w = Inr f5" using mode1_decrypt_encrypt [OF w] by blast
  moreover have "pyslice f5 0x20 0x30 = pyslice (pyslice f5 0x20 0x40) 0 16" "pyslice f5 0x30 0x40 = pyslice (pyslice f5 0x20 0x40) 16 32"
    "pyslice f5 0x64 0x94 = pyslice (pyslice f5 0x54 0xA4) 16 64" "pyslice f5 0x58 0x64 = pyslice (pyslice f5 0x54 0xA4) 4 16"
    by (simp_all add: slice_slice)
  ultimately show ?thesis
    using wr(1,4,5) b(3-5) f3(3,4,6,7) l5(1) low3 low hi s4(4) tail(1) by (intro exI [of _ w] exI [of _ f5] exI [of _ c] exI [of _ clear]) simp
qed

theorem certification_request_opens_witness:
  "\<exists>w p c clear. build_certification_request demo_aes demo_digest \<lparr>lm_access_id = 5, lm_access_token = replicate 64 9\<rparr>
      6 (replicate 32 3) 556 1000 77 (replicate 12 5) = Inr w \<and> gute_mode1_decrypt w = Inr p \<and> u64_at p 4 = 5 \<and>
    rc5_init (replicate 16 9) 6 = Inr (c :: 64 word rc5) \<and>
    rc5_decrypt_block c (pyslice p 0x20 0x30) = Inr (replicate 16 3) \<and>
    trailer_ok demo_digest (replicate 64 9) (pyslice p 0xC 0x14) (replicate 12 5) clear"
proof -
  have "aes_ok demo_aes" "digest_ok demo_digest"
    by (simp_all add: aes_ok_def digest_ok_def demo_aes_def demo_digest_def comp_def)
  moreover have "mask_int 64 5 = 5" by (simp add: mask_int_def)
  ultimately show ?thesis
    using certification_request_opens [of demo_aes demo_digest "replicate 64 9" "replicate 12 5" "replicate 32 3" 556 1000 5 6 77]
    by (simp add: min_def) blast
qed

section \<open>Sizes of the frames\<close>

lemma new_header_length: "new_header subtype len identity sequence flags = Inr f \<Longrightarrow> length f = len"
  by (auto simp: new_header_def split: if_splits)

lemma finish_mode2_length: "finish_mode2 f key = Inr w \<Longrightarrow> length w = length f"
  using mode2_decrypt_encrypt xor_checksum_length by (fastforce simp: finish_mode2_def bind_res_Inr)

lemma build_ack_length: "build_mode2_response_ack node p = Inr w \<Longrightarrow> length w = 32"
  by (auto simp: build_mode2_response_ack_def bind_res_Inr split: if_splits
      dest!: new_header_length pack_fields_length finish_mode2_length)

text \<open>A broker and its sequence numbers, for the runs of the components above.\<close>

definition demo_node :: certified_node where
  "demo_node = \<lparr>cn_address = (''broker'', 1), cn_session_id = 7, cn_session_key = replicate 32 1, cn_next_sequence = 6\<rparr>"

definition demo_source :: broker_sequences where
  "demo_source = \<lparr>bs_session = 7, bs_generation = 1, bs_next = 5, bs_closed = False\<rparr>"

end
