(* ===== verification/PtzProtocol.thy ===== *)
theory PtzProtocol
  imports AccessProtocol
begin

text \<open>
  The PTZ codec and its correlation objects: \<^verbatim>\<open>ptz_protocol.py\<close> (START/RELEASE requests,
  receipts and replies), \<^verbatim>\<open>ptz_command_reservation.py\<close> (the prebuilt command pair),
  \<^verbatim>\<open>ptz_release_delivery.py\<close> (tracking of one RELEASE) and the grants of
  \<^verbatim>\<open>ptz_authority.py\<close>. \<open>json_loads\<close>, the decoder of the standard library, is an argument
  that gives None where \<^verbatim>\<open>json.loads\<close> raises; every theorem holds for any decoder.
\<close>

section \<open>Directions and requests\<close>

definition DIRECTIONS :: "(string, nat) dict" where
  "DIRECTIONS = [(''left'', 0), (''right'', 1), (''up'', 2), (''down'', 3)]"

definition direction_supported :: "json \<Rightarrow> string \<Rightarrow> bool" where
  "direction_supported observation direction =
     (if map_of DIRECTIONS direction = None \<or> \<not> is_obj observation then False
      else case (obj_get observation ''t'', obj_get observation ''stVal'') of
        (Some (JInt timestamp), Some value) \<Rightarrow>
          if \<not> (0 < timestamp \<and> timestamp \<le> 0x7FFFFFFF) \<or> \<not> is_obj value then False
          else (case (case obj_get value ''ptzInfo'' of Some info \<Rightarrow> obj_get info ''id0_status'' | None \<Rightarrow> None) of
            Some (JInt status) \<Rightarrow>
              if \<not> (0 \<le> status \<and> status \<le> 0x7FFFFFFF) then False
              else let axis = (if direction = ''left'' \<or> direction = ''right'' then 2 else 4)
                   in status AND 1 \<noteq> 0 \<and> status AND axis \<noteq> 0
          | _ \<Rightarrow> False)
      | _ \<Rightarrow> False)"

definition ptz_json :: "nat \<Rightarrow> bool \<Rightarrow> string" where
  "ptz_json dir pressed = ''{\"type\":2,\"data\":{\"dir\":'' @ show_nat dir @ '',\"touchType\":'' @
     (if pressed then ''0'' else ''1'') @ ''}}''"

definition build_ptz_request ::
  "certified_node \<Rightarrow> int \<Rightarrow> int \<Rightarrow> string \<Rightarrow> bool \<Rightarrow> int \<Rightarrow> int \<Rightarrow> int \<Rightarrow> nat \<Rightarrow> exn + bytes"
where
  "build_ptz_request node access_id device_id direction pressed sequence message_id request_id rand15 =
     (case map_of DIRECTIONS direction of
        None \<Rightarrow> Inl (ValueError ''PTZ requires a known direction and boolean pressed state'')
      | Some dir \<Rightarrow>
          if \<not> (0 \<le> request_id \<and> request_id < 2 ^ 32) then Inl StructError
          else let payload = [1, 0xFF, 0, 0] @ le_bytes 4 (nat request_id) @ ascii (ptz_json dir pressed)
          in bind_res (new_header 0xB9 (0x34 + length payload) (cn_session_id node) sequence
                         (int (randomized_flags rand15 2 1 0))) (\<lambda>frame.
               bind_res (pack_fields [(4, 0x18, 2), (8, 0x1C, device_id), (8, 0x24, access_id),
                                      (4, 0x2C, int (mask_int 31 message_id)), (2, 0x30, int (length payload))]
                           (put frame 0 [0x7E])) (\<lambda>frame.
                 finish_mode2 (put frame 0x34 payload) (cn_session_key node))))"

record ptz_reply =
  pr_transport_receipt :: bool
  pr_peer_receipt :: bool
  pr_error_code :: "int option"

definition build_ptz_receipt :: "bytes \<Rightarrow> certified_node \<Rightarrow> int \<Rightarrow> nat \<Rightarrow> exn + bytes" where
  "build_ptz_receipt frame node sequence rand15 =
     (if length frame < 0x3C \<or> frame ! 1 \<noteq> 0xB9 \<or> frame ! 0 \<noteq> 0x7E \<or> int (u64_at frame 4) \<noteq> cn_session_id node
      then Inl (ValueError ''PTZ receipt requires a full same-session B9 response'')
      else let flags = u32_at frame 0x14
      in if drop_bit 16 flags AND 3 \<noteq> 2 \<or> bit flags 20
      then Inl (ValueError ''PTZ receipt requires an encrypted application response'')
      else bind_res (new_header 0xBA 0x34 (cn_session_id node) sequence (int (randomized_flags rand15 2 1 0))) (\<lambda>receipt.
             let destination = u64_at frame 0x1C; source = u64_at frame 0x24; message = u32_at frame 0x2C
             in bind_res (pack_fields [(8, 0x1C, int source), (8, 0x24, int destination), (4, 0x2C, int message)]
                            (put receipt 0 [0x7E])) (\<lambda>receipt.
                  finish_mode2 receipt (cn_session_key node))))"

definition parse_ptz_reply ::
  "json_decoder \<Rightarrow> bytes \<Rightarrow> certified_node \<Rightarrow> int \<Rightarrow> int \<Rightarrow> int \<Rightarrow> int \<Rightarrow> int \<Rightarrow> ptz_reply option"
where
  "parse_ptz_reply json_loads frame node access_id device_id sequence message_id request_id =
     (if \<not> (0x18 \<le> length frame \<and> length frame \<le> 4096) \<or> frame ! 0 \<noteq> 0x7E then None
      else let flags = u32_at frame 0x14
      in if drop_bit 16 flags AND 3 \<noteq> 2 \<or> int (u64_at frame 4) \<noteq> cn_session_id node then None
      else if bit flags 20 then
        (if frame ! 1 \<noteq> 0xB9 \<or> u32_at frame 0x0C \<noteq> mask_int 32 sequence then None
         else Some \<lparr>pr_transport_receipt = True, pr_peer_receipt = False, pr_error_code = None\<rparr>)
      else if length frame < 0x34 \<or> (frame ! 1 \<noteq> 0xB9 \<and> frame ! 1 \<noteq> 0xBA) then None
      else if int (u64_at frame 0x1C) \<noteq> access_id \<or> int (u64_at frame 0x24) \<noteq> device_id then None
      else if frame ! 1 = 0xBA then
        (if u32_at frame 0x2C \<noteq> mask_int 31 message_id then None
         else Some \<lparr>pr_transport_receipt = False, pr_peer_receipt = True, pr_error_code = None\<rparr>)
      else let len = u16_at frame 0x30
      in if len < 8 \<or> 0x34 + len > length frame then None
      else let payload = pyslice frame 0x34 (0x34 + len)
      in if take 4 payload \<noteq> [1, 0xFF, 0, 0] \<and> take 4 payload \<noteq> [1, 0, 0, 0] then None
      else if int (u32_at payload 4) \<noteq> request_id then None
      else case json_loads (drop 8 payload) of
        None \<Rightarrow> None
      | Some value \<Rightarrow>
          (case (obj_get value ''type'', obj_get value ''err'') of
             (Some (JInt ty), Some (JInt err)) \<Rightarrow>
               if ty \<noteq> 2 then None
               else Some \<lparr>pr_transport_receipt = False, pr_peer_receipt = False, pr_error_code = Some err\<rparr>
           | _ \<Rightarrow> None))"

section \<open>The reserved command pair\<close>

record release_correlation =
  rc_sequence :: int
  rc_message_id :: int
  rc_request_id :: int

record reserved_ptz =
  rp_release_correlation :: release_correlation
  rp_receipt_sequence :: int
  rp_session :: int
  rp_generation :: int
  rp_start :: bytes
  rp_release :: bytes
  rp_started :: bool
  rp_cancelled :: bool
  rp_release_attempts :: nat

definition cancel_start :: "reserved_ptz \<Rightarrow> reserved_ptz" where
  "cancel_start c = c\<lparr>rp_cancelled := True\<rparr>"

text \<open>\<open>source\<close> is the sequence allocator the commands were reserved from, as it is now.\<close>

definition take_start :: "broker_sequences \<Rightarrow> reserved_ptz \<Rightarrow> (exn + bytes) \<times> reserved_ptz" where
  "take_start source c =
     (if rp_started c \<or> rp_cancelled c \<or> \<not> sequences_match (rp_session c) (rp_generation c) source
      then (Inl (ValueError ''PTZ START unavailable; do not replay''), c)
      else (Inr (rp_start c), c\<lparr>rp_started := True\<rparr>))"

definition take_release :: "reserved_ptz \<Rightarrow> (exn + bytes) \<times> reserved_ptz" where
  "take_release c =
     (if \<not> rp_started c \<or> rp_release_attempts c \<ge> 3
      then (Inl (ValueError ''PTZ RELEASE unavailable or attempts exhausted''), c)
      else (Inr (rp_release c), c\<lparr>rp_release_attempts := rp_release_attempts c + 1\<rparr>))"

text \<open>The random draws in the order the source makes them.\<close>

record ptz_draws =
  dr_release_message :: int
  dr_release_request :: int
  dr_start_message :: int
  dr_start_request :: int
  dr_start_flags :: nat
  dr_release_flags :: nat

definition reserve_ptz_commands ::
  "ptz_draws \<Rightarrow> certified_node \<Rightarrow> int \<Rightarrow> int \<Rightarrow> int \<Rightarrow> string \<Rightarrow> string set \<Rightarrow>
   broker_sequences \<Rightarrow> (exn + reserved_ptz) \<times> broker_sequences"
where
  "reserve_ptz_commands dr node generation access_id device_id direction reviewed_directions source =
     (if \<not> sequences_match (cn_session_id node) generation source \<or>
         \<not> (0 < access_id \<and> access_id < 2 ^ 64) \<or> \<not> (0 < device_id \<and> device_id < 2 ^ 64) \<or>
         reviewed_directions = {} \<or> \<not> reviewed_directions \<subseteq> fst ` set DIRECTIONS \<or>
         direction \<notin> reviewed_directions
      then (Inl (ValueError ''PTZ reservation requires exact reviewed account/axis identity''), source)
      else case sequences_reserve 3 source of
        (Inl e, source) \<Rightarrow> (Inl e, source)
      | (Inr ids, source) \<Rightarrow>
          let release = \<lparr>rc_sequence = ids ! 1, rc_message_id = dr_release_message dr, rc_request_id = dr_release_request dr\<rparr>
          in (bind_res (build_ptz_request node access_id device_id direction True (ids ! 0)
                          (dr_start_message dr) (dr_start_request dr) (dr_start_flags dr)) (\<lambda>start_wire.
              bind_res (build_ptz_request node access_id device_id direction False (rc_sequence release)
                          (rc_message_id release) (rc_request_id release) (dr_release_flags dr)) (\<lambda>release_wire.
              Inr \<lparr>rp_release_correlation = release, rp_receipt_sequence = ids ! 2, rp_session = cn_session_id node,
                   rp_generation = generation, rp_start = start_wire, rp_release = release_wire,
                   rp_started = False, rp_cancelled = False, rp_release_attempts = 0\<rparr>)), source))"

section \<open>Delivery of the release\<close>

record release_delivery =
  rd_node :: certified_node
  rd_generation :: int
  rd_access :: int
  rd_device :: int
  rd_correlation :: release_correlation
  rd_deadline :: time
  rd_frames :: nat
  rd_transport :: bool
  rd_peer :: bool
  rd_application :: bool
  rd_error :: bool

definition release_init ::
  "certified_node \<Rightarrow> int \<Rightarrow> int \<Rightarrow> int \<Rightarrow> release_correlation \<Rightarrow> time \<Rightarrow> time \<Rightarrow> exn + release_delivery"
where
  "release_init node generation access_id device_id correlation deadline now =
     (if generation \<le> 0 \<or> \<not> (0 < access_id \<and> access_id < 2 ^ 64) \<or> \<not> (0 < device_id \<and> device_id < 2 ^ 64) \<or>
         \<not> (0 \<le> rc_sequence correlation \<and> rc_sequence correlation < 2 ^ 32) \<or>
         \<not> (0 \<le> rc_message_id correlation \<and> rc_message_id correlation < 2 ^ 31) \<or>
         \<not> (0 \<le> rc_request_id correlation \<and> rc_request_id correlation < 2 ^ 32) \<or>
         \<not> (0 < deadline - now \<and> deadline - now \<le> 2)
      then Inl (ValueError ''invalid release observation lifetime'')
      else Inr \<lparr>rd_node = node, rd_generation = generation, rd_access = access_id, rd_device = device_id,
                rd_correlation = correlation, rd_deadline = deadline, rd_frames = 0, rd_transport = False,
                rd_peer = False, rd_application = False, rd_error = False\<rparr>)"

definition release_confirmed :: "release_delivery \<Rightarrow> bool" where
  "release_confirmed d \<longleftrightarrow> \<not> rd_error d \<and> (rd_application d \<or> (rd_transport d \<and> rd_peer d))"

definition release_observe ::
  "json_decoder \<Rightarrow> bytes \<Rightarrow> string \<times> int \<Rightarrow> int \<Rightarrow> time \<Rightarrow> release_delivery \<Rightarrow> ptz_reply option \<times> release_delivery"
where
  "release_observe json_loads plain peer generation now d =
     (if now \<ge> rd_deadline d then (None, d)
      else if rd_frames d \<ge> 64 then (None, d\<lparr>rd_error := True\<rparr>)
      else let d = d\<lparr>rd_frames := rd_frames d + 1\<rparr>
      in if peer \<noteq> cn_address (rd_node d) \<or> generation \<noteq> rd_generation d then (None, d)
      else let ids = rd_correlation d;
               reply = parse_ptz_reply json_loads plain (rd_node d) (rd_access d) (rd_device d)
                         (rc_sequence ids) (rc_message_id ids) (rc_request_id ids)
      in case reply of
        None \<Rightarrow> (None, d)
      | Some r \<Rightarrow>
          let d = d\<lparr>rd_transport := rd_transport d \<or> pr_transport_receipt r, rd_peer := rd_peer d \<or> pr_peer_receipt r\<rparr>
          in (Some r, case pr_error_code r of
                None \<Rightarrow> d
              | Some e \<Rightarrow> d\<lparr>rd_application := rd_application d \<or> e = 0, rd_error := rd_error d \<or> e \<noteq> 0\<rparr>))"

section \<open>Grants\<close>

record ptz_spec =
  sp_access_id :: int
  sp_device_id :: int
  sp_direction :: string
  sp_reviewed_directions :: "string set"
  sp_duration :: time

record ptz_grant =
  pg_access_id :: int
  pg_device_id :: int
  pg_directions :: "string set"

type_synonym ptz_authority = "(int, ptz_grant) dict"

text \<open>The loop of the constructor: \<open>access\<close> is the account of the grants read so far.\<close>

fun authority_loop :: "int option \<Rightarrow> ptz_grant list \<Rightarrow> ptz_authority \<Rightarrow> exn + ptz_authority" where
  "authority_loop access [] d = Inr d"
| "authority_loop access (g # gs) d =
     (if \<not> (0 < pg_access_id g \<and> pg_access_id g < 2 ^ 64) \<or> \<not> (0 < pg_device_id g \<and> pg_device_id g < 2 ^ 64) \<or>
         pg_directions g = {} \<or> \<not> pg_directions g \<subseteq> fst ` set DIRECTIONS \<or>
         pg_device_id g \<in> fst ` set d \<or> (access \<noteq> None \<and> access \<noteq> Some (pg_access_id g))
      then Inl (ValueError ''invalid or conflicting driver motion grant'')
      else authority_loop (Some (pg_access_id g)) gs (dict_set (pg_device_id g) g d))"

definition authority_init :: "ptz_grant list \<Rightarrow> exn + ptz_authority" where
  "authority_init grants = authority_loop None grants []"

definition authority_enabled :: "ptz_authority \<Rightarrow> bool" where
  "authority_enabled d \<longleftrightarrow> d \<noteq> []"

definition authorize :: "ptz_spec \<Rightarrow> ptz_authority \<Rightarrow> exn + unit" where
  "authorize spec d =
     (case map_of d (sp_device_id spec) of
        None \<Rightarrow> Inl (ValueError ''gesture outside driver-reviewed enrollment scope'')
      | Some grant \<Rightarrow>
          if sp_access_id spec \<noteq> pg_access_id grant \<or> \<not> sp_reviewed_directions spec \<subseteq> pg_directions grant \<or>
             sp_direction spec \<notin> pg_directions grant
          then Inl (ValueError ''gesture outside driver-reviewed enrollment scope'')
          else Inr ())"

end
