(* ===== verification/Reserve.thy ===== *)
theory Reserve
  imports Budget
begin

text \<open>
  The contract between the account's output budget and a job that holds one of its
  cleanup reserves: while the reserve is held, its remaining slots can be spent whatever
  the other users of the account do. It is stated once, for any kind of reserve, and
  interpreted for the PTZ and the siren reserve of \<^verbatim>\<open>account_output_budget.py\<close>.
\<close>

lemma traffic_available_last: "traffic_available p q now tb = (res, tb') \<Longrightarrow> tb_last tb' = tb_last tb \<or> tb_last tb' = now"
  by (auto simp: traffic_available_def Let_def split: if_splits)

lemma traffic_charge_last: "traffic_charge n r now tb = (res, tb') \<Longrightarrow> tb_last tb' = tb_last tb \<or> tb_last tb' = now"
  by (auto simp: traffic_charge_def split: if_splits prod.splits sum.splits dest!: traffic_available_last)

text \<open>What the other users of the budget may do while reserve \<open>i\<close> is held, up to time \<open>t\<close>.\<close>

inductive others_step :: "nat \<Rightarrow> time \<Rightarrow> account_output \<Rightarrow> account_output \<Rightarrow> bool" for i t where
  charge: "now \<le> t \<Longrightarrow> others_step i t a (snd (output_charge n now a))"
| open_ptz: "now \<le> t \<Longrightarrow> others_step i t a (snd (reserve_ptz now a))"
| open_siren: "now \<le> t \<Longrightarrow> others_step i t a (snd (reserve_siren now a))"
| open_media: "now \<le> t \<Longrightarrow> others_step i t a (snd (reserve_media now a))"
| ptz: "now \<le> t \<Longrightarrow> j \<noteq> i \<Longrightarrow> others_step i t a (snd (ptz_charge j kind n now a))"
| siren: "now \<le> t \<Longrightarrow> j \<noteq> i \<Longrightarrow> others_step i t a (snd (siren_charge j kind n now a))"
| media: "now \<le> t \<Longrightarrow> j \<noteq> i \<Longrightarrow> others_step i t a (snd (media_charge j kind n now a))"
| close_ptz: "j \<noteq> i \<Longrightarrow> others_step i t a (ptz_close j a)"
| close_siren: "j \<noteq> i \<Longrightarrow> others_step i t a (siren_close j a)"
| close_media: "j \<noteq> i \<Longrightarrow> others_step i t a (media_close j a)"

lemma others_step_inv: "others_step i t a b \<Longrightarrow> ao_inv a \<Longrightarrow> ao_inv b"
  by (induction rule: others_step.induct) (erule output_reach_inv [rotated], blast intro: output_reach.intros)+

lemma spend_effect:
  "i \<noteq> j \<Longrightarrow> tb_last (ao_traffic a) \<le> t \<Longrightarrow> now \<le> t \<Longrightarrow>
   tb_last (ao_traffic (snd (reserve_spend live msg j kind n now a))) \<le> t \<and>
   ao_ptz (snd (reserve_spend live msg j kind n now a)) = ao_ptz a \<and>
   ao_siren (snd (reserve_spend live msg j kind n now a)) = ao_siren a \<and>
   ao_fresh (snd (reserve_spend live msg j kind n now a)) = ao_fresh a \<and>
   slots_of i (snd (reserve_spend live msg j kind n now a)) = slots_of i a"
  by (auto simp: reserve_spend_def slots_of_def split: option.split prod.split sum.split dest!: traffic_charge_last)

lemma reserve_effect:
  assumes "i < ao_fresh a" "tb_last (ao_traffic a) \<le> t" "now \<le> t" "f \<in> {reserve_ptz, reserve_siren, reserve_media}"
  shows "tb_last (ao_traffic (snd (f now a))) \<le> t \<and> ao_fresh a \<le> ao_fresh (snd (f now a)) \<and>
    slots_of i (snd (f now a)) = slots_of i a \<and> (ao_ptz a = Some k \<longrightarrow> ao_ptz (snd (f now a)) = Some k) \<and>
    (ao_siren a = Some k \<longrightarrow> ao_siren (snd (f now a)) = Some k)"
  using assms
  by (auto simp: reserve_ptz_def reserve_siren_def reserve_media_def new_reserve_def slots_of_def Let_def
      split: prod.split sum.split dest!: traffic_available_last)

lemma close_effect:
  assumes "j \<noteq> i" "f \<in> {ptz_close, siren_close, media_close}"
  shows "ao_traffic (f j a) = ao_traffic a \<and> ao_fresh (f j a) = ao_fresh a \<and> slots_of i (f j a) = slots_of i a \<and>
    (ao_ptz a = Some i \<longrightarrow> ao_ptz (f j a) = Some i) \<and> (ao_siren a = Some i \<longrightarrow> ao_siren (f j a) = Some i)"
  using assms by (auto simp: ptz_close_def siren_close_def media_close_def zero_slots_def slots_of_def)

lemma others_step_effect:
  assumes "others_step i t a b" "tb_last (ao_traffic a) \<le> t" "i < ao_fresh a"
  shows "tb_last (ao_traffic b) \<le> t \<and> ao_fresh a \<le> ao_fresh b \<and> slots_of i b = slots_of i a \<and>
    (ao_ptz a = Some i \<longrightarrow> ao_ptz b = Some i) \<and> (ao_siren a = Some i \<longrightarrow> ao_siren b = Some i)"
  using assms(1)
proof (cases rule: others_step.cases)
  case (charge now n)
  with assms(2) show ?thesis by (auto simp: output_charge_def slots_of_def split: prod.split sum.split dest!: traffic_charge_last)
next
  case (open_ptz now)
  then show ?thesis using reserve_effect [of i a t now reserve_ptz i] assms by auto
next
  case (open_siren now)
  then show ?thesis using reserve_effect [of i a t now reserve_siren i] assms by auto
next
  case (open_media now)
  then show ?thesis using reserve_effect [of i a t now reserve_media i] assms by auto
next
  case (ptz now j kind n)
  then show ?thesis using spend_effect [of i j a t now] assms(2) by (simp add: ptz_charge_def)
next
  case (siren now j kind n)
  then show ?thesis using spend_effect [of i j a t now] assms(2) by (simp add: siren_charge_def)
next
  case (media now j kind n)
  then show ?thesis using spend_effect [of i j a t now] assms(2) by (simp add: media_charge_def)
next
  case (close_ptz j)
  then show ?thesis using close_effect [of j i ptz_close a] assms(2) by simp
next
  case (close_siren j)
  then show ?thesis using close_effect [of j i siren_close a] assms(2) by simp
next
  case (close_media j)
  then show ?thesis using close_effect [of j i media_close a] assms(2) by simp
qed

text \<open>Reserve \<open>i\<close>, which \<open>current\<close> reads from the budget, is held with the slots \<open>sl\<close> left.\<close>

definition holds_reserve ::
  "(account_output \<Rightarrow> nat option) \<Rightarrow> nat \<Rightarrow> time \<Rightarrow> slots \<Rightarrow> account_output \<Rightarrow> bool"
where
  "holds_reserve current i t sl a \<longleftrightarrow>
     ao_inv a \<and> tb_last (ao_traffic a) \<le> t \<and> current a = Some i \<and> i < ao_fresh a \<and> slots_of i a = sl"

lemma holds_reserve_later: "holds_reserve current i t sl a \<Longrightarrow> t \<le> t' \<Longrightarrow> holds_reserve current i t' sl a"
  by (auto simp: holds_reserve_def)

locale cleanup_reserve =
  fixes current :: "account_output \<Rightarrow> nat option"
    and charge :: "nat \<Rightarrow> string \<Rightarrow> int \<Rightarrow> time \<Rightarrow> account_output \<Rightarrow> (exn + unit) \<times> account_output"
    and reserve :: "time \<Rightarrow> account_output \<Rightarrow> (exn + nat) \<times> account_output"
    and initial :: slots
  assumes charge_spends: "\<exists>msg. charge i kind n now a = reserve_spend (current a = Some i) msg i kind n now a"
    and current_live: "current a = Some i \<Longrightarrow> i \<in> set (ao_live a)"
    and current_spend: "current (a\<lparr>ao_traffic := tb, ao_objects := ob\<rparr>) = current a"
    and current_others: "others_step i t a b \<Longrightarrow> tb_last (ao_traffic a) \<le> t \<Longrightarrow> i < ao_fresh a \<Longrightarrow>
      current a = Some i \<Longrightarrow> current b = Some i"
    and reserved: "ao_inv a \<Longrightarrow> tb_last (ao_traffic a) \<le> now \<Longrightarrow> reserve now a = (Inr i, b) \<Longrightarrow>
      holds_reserve current i now initial b"
    and reserve_taken: "current a \<noteq> None \<Longrightarrow> \<exists>e. fst (reserve now a) = Inl e"
begin

lemma holds_others: "others_step i t a b \<Longrightarrow> holds_reserve current i t sl a \<Longrightarrow> holds_reserve current i t sl b"
  using others_step_effect [of i t a b] others_step_inv [of i t a b] current_others [of i t a b]
  by (auto simp: holds_reserve_def)

text \<open>A slot that is left can be spent.\<close>

lemma holds_charge:
  assumes "holds_reserve current i t sl a" "map_of sl kind = Some (Suc k)" "0 < n" "n \<le> 4096" "t \<le> t'"
  shows "\<exists>a'. charge i kind n t' a = (Inr (), a') \<and> holds_reserve current i t' (dict_set kind k sl) a'"
proof -
  have h: "ao_inv a" "current a = Some i" "map_of (slots_of i a) kind = Some (Suc k)" "tb_last (ao_traffic a) \<le> t'"
    "i < ao_fresh a" "slots_of i a = sl"
    using assms(1,2,5) by (auto simp: holds_reserve_def)
  note live = current_live [OF h(2)]
  obtain msg where m: "charge i kind n t' a = reserve_spend True msg i kind n t' a" using charge_spends [of i kind n t' a] h(2) by auto
  obtain a' where c: "reserve_spend True msg i kind n t' a = (Inr (), a')"
    using reserve_spend_succeeds [OF h(1) live h(3) assms(3,4) h(4)] by (metis prod.collapse)
  have inv: "ao_inv a'" by (rule reserve_spend_inv [OF h(1) c]) (use live in blast)
  from c obtain tb where "traffic_charge n 0 t' (ao_traffic a) = (Inr (), tb)" and
    a': "a' = a\<lparr>ao_traffic := tb, ao_objects := dict_set i (dict_set kind k (slots_of i a)) (ao_objects a)\<rparr>"
    using h(3) by (auto simp: reserve_spend_def split: if_splits prod.splits sum.splits)
  then have "tb_last tb \<le> t'" using h(4) traffic_charge_last by fastforce
  with m c inv a' h(2,5,6) show ?thesis by (simp add: holds_reserve_def current_spend slots_of_def)
qed

lemma held_blocks: "holds_reserve current i t sl a \<Longrightarrow> \<exists>e. fst (reserve now a) = Inl e"
  by (rule reserve_taken) (simp add: holds_reserve_def)

end

interpretation ptz_reserve: cleanup_reserve ao_ptz ptz_charge reserve_ptz ptz_slots
proof unfold_locales
  show "holds_reserve ao_ptz i now ptz_slots b"
    if "ao_inv a" "tb_last (ao_traffic a) \<le> now" "reserve_ptz now a = (Inr i, b)" for a i b now
    using that reserve_ptz_inv [OF that(1), of now]
    by (auto simp: holds_reserve_def reserve_ptz_def new_reserve_def slots_of_def Let_def split: if_splits prod.splits sum.splits
        dest!: traffic_available_last)
qed (auto simp: ptz_charge_def ao_live_def reserve_ptz_def dest: others_step_effect)

interpretation siren_reserve: cleanup_reserve ao_siren siren_charge reserve_siren siren_slots
proof unfold_locales
  show "holds_reserve ao_siren i now siren_slots b"
    if "ao_inv a" "tb_last (ao_traffic a) \<le> now" "reserve_siren now a = (Inr i, b)" for a i b now
    using that reserve_siren_inv [OF that(1), of now]
    by (auto simp: holds_reserve_def reserve_siren_def new_reserve_def slots_of_def Let_def split: if_splits prod.splits sum.splits
        dest!: traffic_available_last)
qed (auto simp: siren_charge_def ao_live_def reserve_siren_def dest: others_step_effect)

end
