(* ===== verification/PtzScheduler.thy ===== *)
theory PtzScheduler
  imports PtzProtocol Reserve
begin

text \<open>
  The PTZ scheduler of \<^verbatim>\<open>ptz_scheduler.py\<close>: one gesture as a sequence of polls and
  observed frames, over the command pair, the release tracker and the PTZ cleanup
  reserve of the account's output budget. The shared output budget and the sequence
  allocator are passed in and out; each clock reading of a method is an argument, in
  the order in which the source reads the clock.
\<close>

record ptz_packet =
  pk_kind :: string
  pk_wire :: bytes

record scheduled_result =
  sr_reason :: string
  sr_start_attempted :: bool
  sr_release_attempts :: nat
  sr_release_delivery_confirmed :: bool
  sr_send_failed :: bool

record ptz_scheduler =
  ps_reserve :: nat
  ps_commands :: reserved_ptz
  ps_node :: certified_node
  ps_generation :: int
  ps_access :: int
  ps_device :: int
  ps_duration :: time
  ps_cancel :: bool
  ps_admit_until :: time
  ps_move_until :: time
  ps_release_until :: time
  ps_retry_at :: time
  ps_settle_until :: "time option"
  ps_started :: bool
  ps_failed :: bool
  ps_receipt_prepared :: bool
  ps_releases :: nat
  ps_delivery :: "release_delivery option"
  ps_result :: "scheduled_result option"

definition scheduler_init ::
  "ptz_draws \<Rightarrow> certified_node \<Rightarrow> int \<Rightarrow> ptz_spec \<Rightarrow> time \<Rightarrow> time \<Rightarrow> broker_sequences \<Rightarrow> account_output \<Rightarrow>
   (exn + ptz_scheduler) \<times> broker_sequences \<times> account_output"
where
  "scheduler_init dr node generation spec t_reserve now source a =
     (if \<not> (1 / 10 \<le> sp_duration spec \<and> sp_duration spec \<le> 1 / 2)
      then (Inl (ValueError ''PTZ duration must be 0.1..0.5 seconds''), source, a)
      else case reserve_ptz t_reserve a of
        (Inl e, a) \<Rightarrow> (Inl e, source, a)
      | (Inr r, a) \<Rightarrow>
          (case reserve_ptz_commands dr node generation (sp_access_id spec) (sp_device_id spec) (sp_direction spec)
                  (sp_reviewed_directions spec) source of
             (Inl e, source) \<Rightarrow> (Inl e, source, ptz_close r a)
           | (Inr commands, source) \<Rightarrow>
               (Inr \<lparr>ps_reserve = r, ps_commands = commands, ps_node = node, ps_generation = generation,
                     ps_access = sp_access_id spec, ps_device = sp_device_id spec, ps_duration = sp_duration spec,
                     ps_cancel = False, ps_admit_until = now + 1, ps_move_until = 0, ps_release_until = 0,
                     ps_retry_at = 0, ps_settle_until = None, ps_started = False, ps_failed = False,
                     ps_receipt_prepared = False, ps_releases = 0, ps_delivery = None, ps_result = None\<rparr>, source, a)))"

definition scheduler_cancel :: "ptz_scheduler \<Rightarrow> ptz_scheduler" where
  "scheduler_cancel s = s\<lparr>ps_cancel := True\<rparr>"

definition scheduler_send_failed :: "ptz_scheduler \<Rightarrow> ptz_scheduler" where
  "scheduler_send_failed s = scheduler_cancel (s\<lparr>ps_failed := True\<rparr>)"

definition scheduler_finish ::
  "string \<Rightarrow> bool \<Rightarrow> ptz_scheduler \<times> account_output \<Rightarrow> ptz_scheduler \<times> account_output"
where
  "scheduler_finish reason confirmed sa = (case sa of (s, a) \<Rightarrow>
     (s\<lparr>ps_result := Some \<lparr>sr_reason = reason, sr_start_attempted = ps_started s, sr_release_attempts = ps_releases s,
          sr_release_delivery_confirmed = confirmed, sr_send_failed = ps_failed s\<rparr>\<rparr>,
      if confirmed \<or> \<not> ps_started s then ptz_close (ps_reserve s) a else a))"

text \<open>The first half of \<open>next_packet\<close>: admission and START.\<close>

definition next_start ::
  "time \<Rightarrow> time \<Rightarrow> broker_sequences \<Rightarrow> ptz_scheduler \<times> account_output \<Rightarrow>
   (exn + ptz_packet option) \<times> ptz_scheduler \<times> account_output"
where
  "next_start now t_charge source sa = (case sa of (s, a) \<Rightarrow>
     if ps_cancel s \<or> now \<ge> ps_admit_until s
     then (Inr None, scheduler_finish ''cancelled'' False (s\<lparr>ps_commands := cancel_start (ps_commands s)\<rparr>, a))
     else case take_start source (ps_commands s) of
       (Inl e, c) \<Rightarrow> (Inr None, scheduler_finish ''retired'' False (s\<lparr>ps_commands := c\<rparr>, a))
     | (Inr wire, c) \<Rightarrow>
         let s = s\<lparr>ps_commands := c\<rparr>
         in case ptz_charge (ps_reserve s) ''start'' (int (length wire)) t_charge a of
           (Inl e, a) \<Rightarrow> (Inl e, s, a)
         | (Inr _, a) \<Rightarrow>
             (Inr (Some \<lparr>pk_kind = ''start'', pk_wire = wire\<rparr>),
              s\<lparr>ps_started := True, ps_move_until := now + ps_duration s\<rparr>, a))"

text \<open>The last part: settling, the deadline and the RELEASE attempts, with a tracker present.\<close>

definition next_release ::
  "time \<Rightarrow> time \<Rightarrow> release_delivery \<Rightarrow> ptz_scheduler \<times> account_output \<Rightarrow>
   (exn + ptz_packet option) \<times> ptz_scheduler \<times> account_output"
where
  "next_release now t_charge d sa = (case sa of (s, a) \<Rightarrow>
     if release_confirmed d \<and> (case ps_settle_until s of None \<Rightarrow> False | Some u \<Rightarrow> now \<ge> u)
     then (Inr None, scheduler_finish ''released'' True (s, a))
     else if now \<ge> ps_release_until s then (Inr None, scheduler_finish ''release_unconfirmed'' False (s, a))
     else if release_confirmed d \<or> ps_releases s \<ge> 3 \<or> now < ps_retry_at s then (Inr None, s, a)
     else case take_release (ps_commands s) of
       (Inl e, c) \<Rightarrow> (Inl e, s\<lparr>ps_commands := c\<rparr>, a)
     | (Inr wire, c) \<Rightarrow>
         let s = s\<lparr>ps_commands := c\<rparr>
         in case ptz_charge (ps_reserve s) ''release'' (int (length wire)) t_charge a of
           (Inl e, a) \<Rightarrow> (Inl e, s, a)
         | (Inr _, a) \<Rightarrow>
             (Inr (Some \<lparr>pk_kind = ''release'', pk_wire = wire\<rparr>),
              s\<lparr>ps_releases := ps_releases s + 1, ps_retry_at := now + 1 / 2\<rparr>, a))"

text \<open>\<open>now\<close>, then the tracker's reading \<open>t_track\<close>, then the budget's reading \<open>t_charge\<close>.\<close>

definition next_packet ::
  "time \<Rightarrow> time \<Rightarrow> time \<Rightarrow> broker_sequences \<Rightarrow> ptz_scheduler \<times> account_output \<Rightarrow>
   (exn + ptz_packet option) \<times> ptz_scheduler \<times> account_output"
where
  "next_packet now t_track t_charge source sa = (case sa of (s, a) \<Rightarrow>
     if ps_result s \<noteq> None then (Inr None, s, a)
     else if \<not> ps_started s then next_start now t_charge source (s, a)
     else case ps_delivery s of
       Some d \<Rightarrow> next_release now t_charge d (s, a)
     | None \<Rightarrow>
         if \<not> ps_cancel s \<and> now < ps_move_until s then (Inr None, s, a)
         else let s = s\<lparr>ps_release_until := now + 2\<rparr>
         in case release_init (ps_node s) (ps_generation s) (ps_access s) (ps_device s)
                   (rp_release_correlation (ps_commands s)) (ps_release_until s) t_track of
           Inl e \<Rightarrow> (Inl e, s, a)
         | Inr d \<Rightarrow> next_release now t_charge d (s\<lparr>ps_delivery := Some d\<rparr>, a))"

definition owns_release_reply :: "json_decoder \<Rightarrow> bytes \<Rightarrow> ptz_scheduler \<Rightarrow> bool" where
  "owns_release_reply json_loads plain s =
     (if ps_releases s = 0 then False
      else let ids = rp_release_correlation (ps_commands s)
           in parse_ptz_reply json_loads plain (ps_node s) (ps_access s) (ps_device s)
                (rc_sequence ids) (rc_message_id ids) (rc_request_id ids) \<noteq> None)"

text \<open>The loop that charges and collects the receipts; \<open>t n\<close> is the budget's clock at the \<open>n\<close>-th.\<close>

fun charge_receipts ::
  "nat \<Rightarrow> bytes list \<Rightarrow> (nat \<Rightarrow> time) \<Rightarrow> account_output \<Rightarrow> (exn + ptz_packet list) \<times> account_output"
where
  "charge_receipts r [] t a = (Inr [], a)"
| "charge_receipts r (wire # wires) t a =
     (case ptz_charge r ''receipt'' (int (length wire)) (t 0) a of
        (Inl e, a) \<Rightarrow> (Inl e, a)
      | (Inr _, a) \<Rightarrow>
          (case charge_receipts r wires (\<lambda>n. t (Suc n)) a of
             (Inl e, a) \<Rightarrow> (Inl e, a)
           | (Inr ps, a) \<Rightarrow> (Inr (\<lparr>pk_kind = ''receipt'', pk_wire = wire\<rparr> # ps), a)))"

definition receipt_wires :: "bytes \<Rightarrow> nat \<Rightarrow> ptz_scheduler \<Rightarrow> exn + bytes list" where
  "receipt_wires plain rand15 s =
     bind_res (if drop_bit 18 (u32_at plain 20) AND 3 \<noteq> 0
               then bind_res (build_mode2_response_ack (ps_node s) plain) (\<lambda>w. Inr [w]) else Inr []) (\<lambda>ws.
       bind_res (build_ptz_receipt plain (ps_node s) (rp_receipt_sequence (ps_commands s)) rand15) (\<lambda>w.
         Inr (ws @ [w])))"

text \<open>A confirmed release settles for 0.02 seconds, in which an explicit error still wins.\<close>

definition settle_until :: "release_delivery \<Rightarrow> time \<Rightarrow> time option \<Rightarrow> time option" where
  "settle_until d now u =
     (if release_confirmed d then (if u = None then Some (now + 1 / 50) else u) else None)"

definition scheduler_observe ::
  "json_decoder \<Rightarrow> bytes \<Rightarrow> string \<times> int \<Rightarrow> int \<Rightarrow> nat \<Rightarrow> time \<Rightarrow> time \<Rightarrow> (nat \<Rightarrow> time) \<Rightarrow>
   ptz_scheduler \<times> account_output \<Rightarrow> (exn + ptz_packet list) \<times> ptz_scheduler \<times> account_output"
where
  "scheduler_observe json_loads plain peer generation rand15 t_track now t_charge sa = (case sa of (s, a) \<Rightarrow>
     case ps_delivery s of
       None \<Rightarrow> (Inr [], s, a)
     | Some d \<Rightarrow>
         if ps_result s \<noteq> None \<or> ps_releases s = 0 then (Inr [], s, a)
         else case release_observe json_loads plain peer generation t_track d of
           (response, d) \<Rightarrow>
             let s = s\<lparr>ps_delivery := Some d\<rparr>;
                 s = s\<lparr>ps_settle_until := settle_until d now (ps_settle_until s)\<rparr>
             in if (case response of None \<Rightarrow> True | Some r \<Rightarrow> pr_error_code r = None) \<or> ps_receipt_prepared s
                then (Inr [], s, a)
                else let s = s\<lparr>ps_receipt_prepared := True\<rparr>
                     in case receipt_wires plain rand15 s of
                       Inl e \<Rightarrow> (Inl e, s, a)
                     | Inr wires \<Rightarrow>
                         (case charge_receipts (ps_reserve s) wires t_charge a of (res, a) \<Rightarrow> (res, s, a)))"

section \<open>Sizes of the datagrams\<close>

lemma ptz_json_length: "map_of DIRECTIONS direction = Some dir \<Longrightarrow> length (ptz_json dir pressed) = 41"
  by (auto simp: DIRECTIONS_def ptz_json_def show_nat.simps split: if_splits)

lemma build_ptz_request_length:
  "build_ptz_request node acc dev direction pressed sequence m r rand = Inr w \<Longrightarrow> length w = 101"
  by (auto simp: build_ptz_request_def bind_res_Inr Let_def ptz_json_length split: option.splits if_splits
      dest!: new_header_length pack_fields_length finish_mode2_length)

lemma build_ptz_request_key:
  "build_ptz_request node acc dev direction pressed sequence m r rand = Inr w \<Longrightarrow> length (cn_session_key node) = 32"
  by (auto simp: build_ptz_request_def bind_res_Inr Let_def finish_mode2_def gute_mode2_encrypt_def split: option.splits if_splits)

lemma build_receipt_length: "build_ptz_receipt frame node sequence rand = Inr w \<Longrightarrow> length w = 52"
  by (auto simp: build_ptz_receipt_def bind_res_Inr Let_def split: if_splits
      dest!: new_header_length pack_fields_length finish_mode2_length)

lemma reserve_ptz_commands_Inr:
  assumes "reserve_ptz_commands dr node generation acc dev direction reviewed src = (Inr c, src')"
    and "0 \<le> bs_next src"
  shows "length (rp_start c) = 101" "length (rp_release c) = 101" "\<not> rp_started c" "\<not> rp_cancelled c"
    "rp_release_attempts c = 0" "0 < acc" "acc < 2 ^ 64" "0 < dev" "dev < 2 ^ 64" "generation = bs_generation src"
    "0 \<le> rc_sequence (rp_release_correlation c)" "rc_sequence (rp_release_correlation c) < 2 ^ 32"
    "rc_message_id (rp_release_correlation c) = dr_release_message dr"
    "rc_request_id (rp_release_correlation c) = dr_release_request dr" "length (cn_session_key node) = 32"
proof -
  obtain ids where ids: "sequences_reserve 3 src = (Inr ids, src')"
    and g: "sequences_match (cn_session_id node) generation src" "0 < acc" "acc < 2 ^ 64" "0 < dev" "dev < 2 ^ 64"
    using assms(1) by (auto simp: reserve_ptz_commands_def Let_def split: if_splits prod.splits sum.splits)
  then have "ids = [bs_next src..bs_next src + 2]" "bs_next src + 3 \<le> 2 ^ 32" by (auto simp: sequences_reserve_Inr add.commute)
  then have i1: "ids ! 1 = bs_next src + 1" by (simp add: nth_upto)
  obtain sw rw where c: "c = \<lparr>rp_release_correlation = \<lparr>rc_sequence = ids ! 1, rc_message_id = dr_release_message dr,
      rc_request_id = dr_release_request dr\<rparr>, rp_receipt_sequence = ids ! 2, rp_session = cn_session_id node,
      rp_generation = generation, rp_start = sw, rp_release = rw, rp_started = False, rp_cancelled = False,
      rp_release_attempts = 0\<rparr>" "length sw = 101" "length rw = 101" "length (cn_session_key node) = 32"
    using assms(1) ids by (auto simp: reserve_ptz_commands_def Let_def bind_res_Inr split: if_splits
        dest: build_ptz_request_length build_ptz_request_key)
  from c g i1 assms(2) \<open>bs_next src + 3 \<le> 2 ^ 32\<close>
  show "length (rp_start c) = 101" "length (rp_release c) = 101" "\<not> rp_started c" "\<not> rp_cancelled c"
    "rp_release_attempts c = 0" "0 < acc" "acc < 2 ^ 64" "0 < dev" "dev < 2 ^ 64" "generation = bs_generation src"
    "0 \<le> rc_sequence (rp_release_correlation c)" "rc_sequence (rp_release_correlation c) < 2 ^ 32"
    "rc_message_id (rp_release_correlation c) = dr_release_message dr"
    "rc_request_id (rp_release_correlation c) = dr_release_request dr" "length (cn_session_key node) = 32"
    by (simp_all add: sequences_match_def)
qed

section \<open>Histories of one gesture\<close>

text \<open>
  One step of a running gesture at time \<open>t\<close>: the packets it hands out, the new time, the
  scheduler and the budget. Between two steps of the scheduler any other user of the account
  may spend; \<open>t_track < now + 2\<close> says that a poll does not stall for two seconds between two
  readings of the clock.
\<close>

inductive gesture_step ::
  "time \<Rightarrow> ptz_scheduler \<Rightarrow> account_output \<Rightarrow> ptz_packet list \<Rightarrow> time \<Rightarrow> ptz_scheduler \<Rightarrow> account_output \<Rightarrow> bool"
where
  poll: "t \<le> now \<Longrightarrow> now \<le> t_track \<Longrightarrow> t_track < now + 2 \<Longrightarrow> t_track \<le> t_charge \<Longrightarrow>
    next_packet now t_track t_charge source (s, a) = (Inr p, s', a') \<Longrightarrow>
    gesture_step t s a (case p of None \<Rightarrow> [] | Some x \<Rightarrow> [x]) t_charge s' a'"
| cancel: "gesture_step t s a [] t (scheduler_cancel s) a"
| failed: "gesture_step t s a [] t (scheduler_send_failed s) a"
| observe: "t \<le> tc 0 \<Longrightarrow> mono tc \<Longrightarrow> tc 1 \<le> t' \<Longrightarrow>
    scheduler_observe json_loads plain peer generation rand15 t_track now tc (s, a) = (Inr ps, s', a') \<Longrightarrow>
    gesture_step t s a ps t' s' a'"
| others: "t \<le> t' \<Longrightarrow> others_step (ps_reserve s) t' a b \<Longrightarrow> gesture_step t s a [] t' s b"

text \<open>Any number of steps, and a history from the construction on a reachable budget.\<close>

inductive gesture_run ::
  "time \<Rightarrow> ptz_scheduler \<Rightarrow> account_output \<Rightarrow> ptz_packet list \<Rightarrow> time \<Rightarrow> ptz_scheduler \<Rightarrow> account_output \<Rightarrow> bool"
where
  stop: "gesture_run t s a [] t s a"
| more: "gesture_run t s a ps t' s' a' \<Longrightarrow> gesture_step t' s' a' qs t'' s'' a'' \<Longrightarrow>
    gesture_run t s a (ps @ qs) t'' s'' a''"

inductive gesture :: "time \<Rightarrow> ptz_packet list \<Rightarrow> ptz_scheduler \<Rightarrow> account_output \<Rightarrow> bool" where
  start: "output_init packets octets policy capacity t_init = Inr b0 \<Longrightarrow> output_reach b0 b \<Longrightarrow>
    tb_last (ao_traffic b) \<le> t0 \<Longrightarrow> t0 \<le> now \<Longrightarrow> 0 \<le> bs_next source \<Longrightarrow> 0 < bs_generation source \<Longrightarrow>
    0 \<le> dr_release_message dr \<and> dr_release_message dr < 2 ^ 31 \<Longrightarrow>
    0 \<le> dr_release_request dr \<and> dr_release_request dr < 2 ^ 32 \<Longrightarrow>
    scheduler_init dr node generation spec t0 now source b = (Inr s, source', a) \<Longrightarrow> gesture now [] s a"
| step: "gesture t out s a \<Longrightarrow> gesture_step t s a ps t' s' a' \<Longrightarrow> gesture t' (out @ ps) s' a'"

lemmas gesture_poll = gesture.step [OF _ gesture_step.poll]

lemma gesture_run_gesture: "gesture_run t s a ps t' s' a' \<Longrightarrow> gesture t out s a \<Longrightarrow> gesture t' (out @ ps) s' a'"
  by (induction rule: gesture_run.induct) (auto simp flip: append_assoc intro: gesture.step)

definition commands_ok :: "ptz_scheduler \<Rightarrow> bool" where
  "commands_ok s \<longleftrightarrow> (let c = ps_commands s; ids = rp_release_correlation c in
     length (rp_start c) = 101 \<and> length (rp_release c) = 101 \<and> rp_started c = ps_started s \<and>
     rp_release_attempts c = ps_releases s \<and> ps_releases s \<le> 3 \<and>
     0 < ps_generation s \<and> 0 < ps_access s \<and> ps_access s < 2 ^ 64 \<and> 0 < ps_device s \<and> ps_device s < 2 ^ 64 \<and>
     0 \<le> rc_sequence ids \<and> rc_sequence ids < 2 ^ 32 \<and> 0 \<le> rc_message_id ids \<and> rc_message_id ids < 2 ^ 31 \<and>
     0 \<le> rc_request_id ids \<and> rc_request_id ids < 2 ^ 32 \<and> length (cn_session_key (ps_node s)) = 32 \<and>
     (\<not> ps_started s \<longrightarrow> ps_delivery s = None) \<and> (ps_delivery s = None \<longrightarrow> ps_releases s = 0 \<and> ps_retry_at s = 0) \<and>
     (\<forall>d. ps_delivery s = Some d \<longrightarrow> rd_node d = ps_node s))"

definition unsettled :: "ptz_scheduler \<Rightarrow> bool" where
  "unsettled s \<longleftrightarrow> (case ps_result s of None \<Rightarrow> True
     | Some r \<Rightarrow> sr_start_attempted r \<and> \<not> sr_release_delivery_confirmed r)"

definition ptz_left :: "ptz_scheduler \<Rightarrow> nat \<Rightarrow> slots" where
  "ptz_left s z = [(''start'', if ps_started s then 0 else 1), (''release'', 3 - ps_releases s), (''receipt'', z)]"

definition reserve_ok :: "time \<Rightarrow> ptz_scheduler \<Rightarrow> account_output \<Rightarrow> bool" where
  "reserve_ok t s a \<longleftrightarrow> (unsettled s \<longrightarrow> (\<exists>z. holds_reserve ao_ptz (ps_reserve s) t (ptz_left s z) a \<and> (ps_receipt_prepared s \<or> z = 2)))"

definition packets_ok :: "ptz_packet list \<Rightarrow> ptz_scheduler \<Rightarrow> bool" where
  "packets_ok out s \<longleftrightarrow> (\<exists>rest.
     out = (if ps_started s then \<lparr>pk_kind = ''start'', pk_wire = rp_start (ps_commands s)\<rparr> # rest else rest) \<and>
     (\<not> ps_started s \<longrightarrow> rest = []) \<and>
     (\<forall>p \<in> set rest. p = \<lparr>pk_kind = ''release'', pk_wire = rp_release (ps_commands s)\<rparr> \<or> pk_kind p = ''receipt'') \<and>
     length (filter (\<lambda>p. pk_kind p = ''release'') rest) = ps_releases s \<and>
     length (filter (\<lambda>p. pk_kind p = ''receipt'') rest) \<le> (if ps_receipt_prepared s then 2 else 0))"

lemmas gesture_defs = commands_ok_def reserve_ok_def packets_ok_def unsettled_def ptz_left_def

text \<open>A settled outcome only needs its own record: the scheduler never touches the budget again.\<close>

lemma reserve_ok_later: "reserve_ok t s a \<Longrightarrow> t \<le> t' \<Longrightarrow> reserve_ok t' s a"
  unfolding reserve_ok_def using holds_reserve_later by blast

lemma finish_unconfirmed:
  assumes "ps_started s" "reserve_ok t s a" "ps_result s = None" "scheduler_finish reason False (s, a) = (s', a')"
  shows "reserve_ok t s' a'" "packets_ok out s' = packets_ok out s" "commands_ok s' = commands_ok s"
  using assms by (auto simp: scheduler_finish_def gesture_defs)

lemma finish_settled:
  assumes "confirmed \<or> \<not> ps_started s" "scheduler_finish reason confirmed (s, a) = (s', a')"
  shows "reserve_ok t' s' a'" "packets_ok out s' = packets_ok out s" "commands_ok s' = commands_ok s"
  using assms by (auto simp: scheduler_finish_def gesture_defs)

definition gesture_inv :: "time \<Rightarrow> ptz_packet list \<Rightarrow> ptz_scheduler \<Rightarrow> account_output \<Rightarrow> bool" where
  "gesture_inv t out s a \<longleftrightarrow> commands_ok s \<and> reserve_ok t s a \<and> packets_ok out s"

lemma gesture_inv_later: "gesture_inv t out s a \<Longrightarrow> t \<le> t' \<Longrightarrow> gesture_inv t' out s a"
  by (auto simp: gesture_inv_def intro: reserve_ok_later)

lemma packets_ok_cong:
  assumes "ps_started s' = ps_started s" "ps_releases s' = ps_releases s" "ps_receipt_prepared s' = ps_receipt_prepared s"
    "rp_start (ps_commands s') = rp_start (ps_commands s)" "rp_release (ps_commands s') = rp_release (ps_commands s)"
  shows "packets_ok out s' = packets_ok out s"
  unfolding packets_ok_def assms ..

lemma packets_release:
  assumes "packets_ok out s" "ps_started s"
  shows "packets_ok (out @ [\<lparr>pk_kind = ''release'', pk_wire = rp_release (ps_commands s)\<rparr>])
    (s\<lparr>ps_commands := (ps_commands s)\<lparr>rp_release_attempts := n\<rparr>, ps_releases := ps_releases s + 1, ps_retry_at := r\<rparr>)"
proof -
  obtain rest where "out = \<lparr>pk_kind = ''start'', pk_wire = rp_start (ps_commands s)\<rparr> # rest"
    "\<forall>p \<in> set rest. p = \<lparr>pk_kind = ''release'', pk_wire = rp_release (ps_commands s)\<rparr> \<or> pk_kind p = ''receipt''"
    "length (filter (\<lambda>p. pk_kind p = ''release'') rest) = ps_releases s"
    "length (filter (\<lambda>p. pk_kind p = ''receipt'') rest) \<le> (if ps_receipt_prepared s then 2 else 0)"
    using assms by (auto simp: packets_ok_def)
  then show ?thesis unfolding packets_ok_def
    using assms(2) by (intro exI [of _ "rest @ [\<lparr>pk_kind = ''release'', pk_wire = rp_release (ps_commands s)\<rparr>]"]) auto
qed

text \<open>
  With a tracker present a poll never raises; it hands out a RELEASE exactly when the
  tracker is not confirmed, the deadline has not passed, an attempt is left and the
  retry time has come.
\<close>

lemma next_release_inv:
  assumes "gesture_inv t out s a" "ps_started s" "ps_result s = None" "ps_delivery s = Some d" "t \<le> t_charge"
  shows "\<exists>p s' a'. next_release now t_charge d (s, a) = (Inr p, s', a') \<and>
    gesture_inv t_charge (out @ (case p of None \<Rightarrow> [] | Some x \<Rightarrow> [x])) s' a' \<and>
    (\<not> release_confirmed d \<and> now < ps_release_until s \<and> ps_releases s < 3 \<and> ps_retry_at s \<le> now \<longrightarrow>
       p = Some \<lparr>pk_kind = ''release'', pk_wire = rp_release (ps_commands s)\<rparr>) \<and>
    (ps_release_until s \<le> now \<longrightarrow> ps_result s' \<noteq> None)"
proof -
  have inv: "commands_ok s" "reserve_ok t s a" "packets_ok out s" using assms(1) by (simp_all add: gesture_inv_def)
  let ?settled = "release_confirmed d \<and> (case ps_settle_until s of None \<Rightarrow> False | Some u \<Rightarrow> now \<ge> u)"
  consider (settled) ?settled | (late) "\<not> ?settled" "now \<ge> ps_release_until s"
    | (idle) "\<not> ?settled" "\<not> now \<ge> ps_release_until s" "release_confirmed d \<or> ps_releases s \<ge> 3 \<or> now < ps_retry_at s"
    | (send) "\<not> ?settled" "\<not> now \<ge> ps_release_until s" "\<not> (release_confirmed d \<or> ps_releases s \<ge> 3 \<or> now < ps_retry_at s)"
    by blast
  then show ?thesis
  proof cases
    case settled
    obtain s' a' where f: "scheduler_finish ''released'' True (s, a) = (s', a')" by fastforce
    have "ps_result s' \<noteq> None" using f by (auto simp: scheduler_finish_def)
    with settled f finish_settled [OF _ f] inv show ?thesis by (simp add: next_release_def gesture_inv_def)
  next
    case late
    obtain s' a' where f: "scheduler_finish ''release_unconfirmed'' False (s, a) = (s', a')" by fastforce
    have "ps_result s' \<noteq> None" using f by (auto simp: scheduler_finish_def)
    moreover have "reserve_ok t_charge s' a'"
      using finish_unconfirmed(1) [OF assms(2) inv(2) assms(3) f] assms(5) by (rule reserve_ok_later)
    moreover have "next_release now t_charge d (s, a) = (Inr None, s', a')"
      unfolding next_release_def prod.case if_not_P [OF late(1)] using late(2) f by simp
    ultimately show ?thesis using late(2) finish_unconfirmed(2,3) [OF assms(2) inv(2) assms(3) f] inv
      by (simp add: gesture_inv_def)
  next
    case idle
    with assms(1,5) gesture_inv_later show ?thesis by (auto simp: next_release_def)
  next
    case send
    let ?c = "(ps_commands s)\<lparr>rp_release_attempts := rp_release_attempts (ps_commands s) + 1\<rparr>"
    have tr: "take_release (ps_commands s) = (Inr (rp_release (ps_commands s)), ?c)"
      using inv(1) assms(2) send(3) by (simp add: commands_ok_def take_release_def Let_def)
    have len: "length (rp_release (ps_commands s)) = 101" using inv(1) by (simp add: commands_ok_def Let_def)
    obtain z where z: "holds_reserve ao_ptz (ps_reserve s) t (ptz_left s z) a" "ps_receipt_prepared s \<or> z = 2"
      using inv(2) assms(3) by (auto simp: reserve_ok_def unsettled_def)
    obtain k where k: "3 - ps_releases s = Suc k" using send(3) by (cases "3 - ps_releases s") auto
    then have "map_of (ptz_left s z) ''release'' = Some (Suc k)" by (simp add: ptz_left_def)
    from ptz_reserve.holds_charge [OF z(1) this, of 101] assms(5) obtain a' where
      a': "ptz_charge (ps_reserve s) ''release'' 101 t_charge a = (Inr (), a')"
      "holds_reserve ao_ptz (ps_reserve s) t_charge (dict_set ''release'' k (ptz_left s z)) a'" by auto
    let ?s = "s\<lparr>ps_commands := ?c, ps_releases := ps_releases s + 1, ps_retry_at := now + 1 / 2\<rparr>"
    have "dict_set ''release'' k (ptz_left s z) = ptz_left ?s z" using k by (simp add: ptz_left_def)
    then have "reserve_ok t_charge ?s a'" using a'(2) z(2) by (auto simp: reserve_ok_def)
    moreover have "commands_ok ?s" using inv(1) send(3) assms(2,4) by (simp add: commands_ok_def Let_def)
    moreover have "packets_ok (out @ [\<lparr>pk_kind = ''release'', pk_wire = rp_release (ps_commands s)\<rparr>]) ?s"
      by (rule packets_release [OF inv(3) assms(2)])
    moreover have "next_release now t_charge d (s, a) =
        (Inr (Some \<lparr>pk_kind = ''release'', pk_wire = rp_release (ps_commands s)\<rparr>), ?s, a')"
      using send tr len a'(1) by (simp add: next_release_def Let_def)
    ultimately show ?thesis using send(2) by (auto simp: gesture_inv_def)
  qed
qed

lemma next_start_inv:
  assumes "gesture_inv t out s a" "\<not> ps_started s" "ps_result s = None" "t \<le> t_charge"
  shows "\<exists>p s' a'. next_start now t_charge source (s, a) = (Inr p, s', a') \<and>
    gesture_inv t_charge (out @ (case p of None \<Rightarrow> [] | Some x \<Rightarrow> [x])) s' a' \<and>
    (\<not> ps_cancel s \<and> now < ps_admit_until s \<and> \<not> rp_cancelled (ps_commands s) \<and>
      sequences_match (rp_session (ps_commands s)) (rp_generation (ps_commands s)) source \<longrightarrow>
      p = Some \<lparr>pk_kind = ''start'', pk_wire = rp_start (ps_commands s)\<rparr> \<and> ps_started s' \<and> ps_result s' = None \<and>
      ps_delivery s' = None \<and> ps_move_until s' = now + ps_duration s)"
proof -
  have inv: "commands_ok s" "reserve_ok t s a" "packets_ok out s" using assms(1) by (simp_all add: gesture_inv_def)
  obtain r c where ts: "take_start source (ps_commands s) = (r, c)" by fastforce
  have stop: "\<exists>s' a'. scheduler_finish reason False (s\<lparr>ps_commands := c'\<rparr>, a) = (s', a') \<and> gesture_inv t_charge out s' a'"
    if "commands_ok (s\<lparr>ps_commands := c'\<rparr>)" "packets_ok out (s\<lparr>ps_commands := c'\<rparr>)" for reason c'
    using that assms(2) finish_settled [of False "s\<lparr>ps_commands := c'\<rparr>" reason a]
    by (cases "scheduler_finish reason False (s\<lparr>ps_commands := c'\<rparr>, a)") (simp add: gesture_inv_def)
  consider (cancelled) "ps_cancel s \<or> now \<ge> ps_admit_until s"
    | (retired) e where "\<not> (ps_cancel s \<or> now \<ge> ps_admit_until s)" "r = Inl e"
    | (go) "\<not> (ps_cancel s \<or> now \<ge> ps_admit_until s)" "r = Inr (rp_start (ps_commands s))"
    using ts by (auto simp: take_start_def split: if_splits)
  then show ?thesis
  proof cases
    case cancelled
    have "commands_ok (s\<lparr>ps_commands := cancel_start (ps_commands s)\<rparr>)"
      using inv(1) by (simp add: commands_ok_def cancel_start_def Let_def)
    moreover have "packets_ok out (s\<lparr>ps_commands := cancel_start (ps_commands s)\<rparr>)"
      using inv(3) packets_ok_cong [of "s\<lparr>ps_commands := cancel_start (ps_commands s)\<rparr>" s out] by (simp add: cancel_start_def)
    ultimately show ?thesis using stop [of "cancel_start (ps_commands s)" "''cancelled''"] cancelled
      by (auto simp: next_start_def)
  next
    case (retired e)
    have "c = ps_commands s" using ts retired(2) by (auto simp: take_start_def split: if_splits)
    moreover have "\<not> (\<not> rp_cancelled (ps_commands s) \<and> sequences_match (rp_session (ps_commands s)) (rp_generation (ps_commands s)) source)"
      using ts retired(2) inv(1) assms(2) by (auto simp: take_start_def commands_ok_def Let_def split: if_splits)
    ultimately show ?thesis using stop [of "ps_commands s" "''retired''"] inv(1,3) retired ts by (auto simp: next_start_def)
  next
    case go
    let ?c = "(ps_commands s)\<lparr>rp_started := True\<rparr>"
    have c: "c = ?c" using ts go(2) by (auto simp: take_start_def split: if_splits)
    have len: "length (rp_start (ps_commands s)) = 101" using inv(1) by (simp add: commands_ok_def Let_def)
    obtain z where z: "holds_reserve ao_ptz (ps_reserve s) t (ptz_left s z) a" "ps_receipt_prepared s \<or> z = 2"
      using inv(2) assms(3) by (auto simp: reserve_ok_def unsettled_def)
    have "map_of (ptz_left s z) ''start'' = Some (Suc 0)" using assms(2) by (simp add: ptz_left_def)
    from ptz_reserve.holds_charge [OF z(1) this, of 101] assms(4) obtain a' where
      a': "ptz_charge (ps_reserve s) ''start'' 101 t_charge a = (Inr (), a')"
      "holds_reserve ao_ptz (ps_reserve s) t_charge (dict_set ''start'' 0 (ptz_left s z)) a'" by auto
    let ?s = "s\<lparr>ps_commands := ?c, ps_started := True, ps_move_until := now + ps_duration s\<rparr>"
    have "dict_set ''start'' 0 (ptz_left s z) = ptz_left ?s z" by (simp add: ptz_left_def)
    then have "reserve_ok t_charge ?s a'" using a'(2) z(2) by (auto simp: reserve_ok_def)
    moreover have "commands_ok ?s" using inv(1) assms(2) by (simp add: commands_ok_def Let_def)
    moreover have "packets_ok (out @ [\<lparr>pk_kind = ''start'', pk_wire = rp_start (ps_commands s)\<rparr>]) ?s"
      using inv(3) assms(2) by (auto simp: packets_ok_def)
    moreover have "next_start now t_charge source (s, a) =
        (Inr (Some \<lparr>pk_kind = ''start'', pk_wire = rp_start (ps_commands s)\<rparr>), ?s, a')"
      using go ts c len a'(1) by (simp add: next_start_def Let_def)
    ultimately show ?thesis using assms(3) inv(1) assms(2) by (auto simp: gesture_inv_def commands_ok_def Let_def)
  qed
qed

lemma next_packet_inv:
  assumes "gesture_inv t out s a" "t \<le> now" "now \<le> t_track" "t_track < now + 2" "t_track \<le> t_charge"
  shows "\<exists>p s' a'. next_packet now t_track t_charge source (s, a) = (Inr p, s', a') \<and>
    gesture_inv t_charge (out @ (case p of None \<Rightarrow> [] | Some x \<Rightarrow> [x])) s' a' \<and>
    (ps_started s \<and> ps_result s = None \<and> ps_delivery s = None \<and> (ps_cancel s \<or> ps_move_until s \<le> now) \<and> 0 \<le> now \<longrightarrow>
       p = Some \<lparr>pk_kind = ''release'', pk_wire = rp_release (ps_commands s)\<rparr>) \<and>
    (ps_delivery s \<noteq> None \<and> ps_release_until s \<le> now \<longrightarrow> ps_result s' \<noteq> None)"
proof -
  have inv: "commands_ok s" "reserve_ok t s a" "packets_ok out s" using assms(1) by (simp_all add: gesture_inv_def)
  have t: "t \<le> t_charge" using assms(2-5) by linarith
  have deliv: "ps_delivery s \<noteq> None \<Longrightarrow> ps_started s" using inv(1) by (auto simp: commands_ok_def Let_def)
  consider (over) "ps_result s \<noteq> None" | (start) "ps_result s = None" "\<not> ps_started s"
    | (wait) "ps_result s = None" "ps_started s" "ps_delivery s = None" "\<not> ps_cancel s \<and> now < ps_move_until s"
    | (first) "ps_result s = None" "ps_started s" "ps_delivery s = None" "\<not> (\<not> ps_cancel s \<and> now < ps_move_until s)"
    | (track) d where "ps_result s = None" "ps_started s" "ps_delivery s = Some d" by blast
  then show ?thesis
  proof cases
    case over
    with gesture_inv_later [OF assms(1) t] show ?thesis by (simp add: next_packet_def)
  next
    case start
    with next_start_inv [OF assms(1) start(2,1) t, of now source] deliv show ?thesis by (auto simp: next_packet_def)
  next
    case wait
    with gesture_inv_later [OF assms(1) t] show ?thesis by (auto simp: next_packet_def)
  next
    case first
    let ?s = "s\<lparr>ps_release_until := now + 2\<rparr>"
    obtain d where d: "release_init (ps_node s) (ps_generation s) (ps_access s) (ps_device s)
        (rp_release_correlation (ps_commands s)) (now + 2) t_track = Inr d"
      using inv(1) assms(3,4) by (simp add: release_init_def commands_ok_def Let_def)
    then have nd: "rd_node d = ps_node s" "\<not> release_confirmed d"
      by (auto simp: release_init_def release_confirmed_def split: if_splits)
    let ?s2 = "?s\<lparr>ps_delivery := Some d\<rparr>"
    have r0: "ps_releases s = 0" "ps_retry_at s = 0" using inv(1) first(3) by (simp_all add: commands_ok_def Let_def)
    have "packets_ok out ?s2" using inv(3) packets_ok_cong [of ?s2 s out] by simp
    moreover have "commands_ok ?s2" using inv(1) nd(1) first(2,3) by (simp add: commands_ok_def Let_def)
    moreover have "reserve_ok t ?s2 a" using inv(2) by (simp add: reserve_ok_def unsettled_def ptz_left_def)
    ultimately have "gesture_inv t out ?s2 a" by (simp add: gesture_inv_def)
    from next_release_inv [OF this, of d t_charge now] first t nd(2) r0 d show ?thesis
      by (auto simp: next_packet_def Let_def)
  next
    case (track d)
    with next_release_inv [OF assms(1) track(2,1,3) t, of now] show ?thesis by (auto simp: next_packet_def)
  qed
qed

section \<open>Observed frames\<close>

lemma reply_error_frame:
  assumes "parse_ptz_reply json_loads frame node acc dev sequence m r = Some reply" "pr_error_code reply = Some e"
  shows "60 \<le> length frame" "frame ! 1 = 0xB9" "frame ! 0 = 0x7E" "int (u64_at frame 4) = cn_session_id node"
    "drop_bit 16 (u32_at frame 0x14) AND 3 = 2" "\<not> bit (u32_at frame 0x14) 20"
  using assms by (auto simp: parse_ptz_reply_def Let_def split: if_splits option.splits json.splits)

lemma int_field: "int (le_val (pyslice bs i j)) < 256 ^ (j - i)"
  using le_val_slice_bound [of "256 ^ (j - i)" j i bs] by (metis of_nat_less_iff of_nat_numeral of_nat_power)

lemma build_ptz_receipt_total:
  assumes "60 \<le> length frame" "frame ! 1 = 0xB9" "frame ! 0 = 0x7E" "int (u64_at frame 4) = cn_session_id node"
    "drop_bit 16 (u32_at frame 0x14) AND 3 = 2" "\<not> bit (u32_at frame 0x14) 20" "length (cn_session_key node) = 32"
  shows "\<exists>w. build_ptz_receipt frame node sequence rand15 = Inr w"
proof -
  let ?fl = "randomized_flags rand15 2 1 0"
  note fl = randomized_flags_no_trailer [of 2 1 rand15] randomized_flags_fields [of 2 1 rand15]
  have "\<exists>h. new_header 0xBA 0x34 (cn_session_id node) sequence (int ?fl) = Inr h \<and>
      header_of h 0xBA 0x34 (cn_session_id node) sequence (int ?fl)"
    by (rule new_header_ok) simp_all
  then obtain h where h: "new_header 0xBA 0x34 (cn_session_id node) sequence (int ?fl) = Inr h"
    and ho: "header_of h 0xBA 0x34 (cn_session_id node) sequence (int ?fl)" by blast
  define f where "f = put (put (put (put h 0 [0x7E]) 0x1C (le_bytes 8 (u64_at frame 0x24)))
    0x24 (le_bytes 8 (u64_at frame 0x1C))) 0x2C (le_bytes 4 (u32_at frame 0x2C))"
  have f: "length f = 52" "u16_at f 2 = 52" "pyslice f 0x14 0x18 = le_bytes 4 ?fl"
    using ho fl(3) by (simp_all add: f_def put_fields header_of_def)
  have "\<exists>w p c. finish_mode2 f (cn_session_key node) = Inr w \<and> gute_mode2_decrypt w (cn_session_key node) = Inr p \<and>
      length w = length f \<and> p = put f 0x10 (le_bytes 4 c) \<and> gute_mode1_xor_checksum p = Inr (u32_at p 0x10)"
    by (rule sealed_mode2 [OF _ _ f(3)]) (use f fl assms(7) in simp_all)
  then obtain w where w: "finish_mode2 f (cn_session_key node) = Inr w" by blast
  have "pack_fields [(8, 0x1C, int (u64_at frame 0x24)), (8, 0x24, int (u64_at frame 0x1C)), (4, 0x2C, int (u32_at frame 0x2C))]
      (put h 0 [0x7E]) = Inr f"
    using ho int_field [of frame 36 44] int_field [of frame 28 36] int_field [of frame 44 48]
    by (simp add: f_def header_of_def)
  with h w assms(1-6) show ?thesis unfolding build_ptz_receipt_def Let_def by simp
qed

lemma receipt_wires_total:
  assumes "parse_ptz_reply json_loads plain (ps_node s) acc dev sequence m r = Some reply" "pr_error_code reply = Some e"
    "length (cn_session_key (ps_node s)) = 32"
  shows "\<exists>ws. receipt_wires plain rand15 s = Inr ws \<and> length ws \<le> 2 \<and> (\<forall>w \<in> set ws. 0 < length w \<and> length w \<le> 4096)"
proof -
  note fr = reply_error_frame [OF assms(1,2)]
  have "16 \<le> length plain" using fr(1) by simp
  then obtain w1 where w1: "build_mode2_response_ack (ps_node s) plain = Inr w1" using response_ack_opens [OF assms(3)] by blast
  obtain w2 where w2: "build_ptz_receipt plain (ps_node s) (rp_receipt_sequence (ps_commands s)) rand15 = Inr w2"
    using build_ptz_receipt_total [OF fr assms(3)] by blast
  show ?thesis using w1 w2 build_ack_length [OF w1] build_receipt_length [OF w2] by (auto simp: receipt_wires_def)
qed

lemma charge_receipts_ok:
  assumes "holds_reserve ao_ptz i t (ptz_left s z) a" "length ws \<le> z" "\<forall>w \<in> set ws. 0 < length w \<and> length w \<le> 4096"
    "t \<le> tc 0" "mono tc"
  shows "\<exists>ps a'. charge_receipts i ws tc a = (Inr ps, a') \<and> map pk_wire ps = ws \<and> (\<forall>p \<in> set ps. pk_kind p = ''receipt'') \<and>
    holds_reserve ao_ptz i (max t (tc (length ws - 1))) (ptz_left s (z - length ws)) a'"
  using assms
proof (induction ws arbitrary: t z a tc)
  case Nil
  then show ?case by (auto intro: holds_reserve_later)
next
  case (Cons w ws)
  obtain k where k: "z = Suc k" using Cons.prems(2) by (cases z) auto
  have "map_of (ptz_left s z) ''receipt'' = Some (Suc k)" by (simp add: ptz_left_def k)
  from ptz_reserve.holds_charge [OF Cons.prems(1) this, of "int (length w)" "tc 0"] Cons.prems(3,4) obtain a1 where
    a1: "ptz_charge i ''receipt'' (int (length w)) (tc 0) a = (Inr (), a1)"
    "holds_reserve ao_ptz i (tc 0) (dict_set ''receipt'' k (ptz_left s z)) a1" by auto
  have "dict_set ''receipt'' k (ptz_left s z) = ptz_left s k" by (simp add: ptz_left_def)
  with a1(2) have h: "holds_reserve ao_ptz i (tc 0) (ptz_left s k) a1" by simp
  have m: "mono (\<lambda>n. tc (Suc n))" "tc 0 \<le> tc (Suc 0)" using Cons.prems(5) by (auto simp: mono_def)
  obtain ps a' where r: "charge_receipts i ws (\<lambda>n. tc (Suc n)) a1 = (Inr ps, a')" "map pk_wire ps = ws"
    "\<forall>p \<in> set ps. pk_kind p = ''receipt''"
    "holds_reserve ao_ptz i (max (tc 0) (tc (Suc (length ws - 1)))) (ptz_left s (k - length ws)) a'"
    using Cons.IH [OF h _ _ m(2,1)] Cons.prems(2,3) k by auto
  have "max (tc 0) (tc (Suc (length ws - 1))) \<le> max t (tc (length (w # ws) - 1)) \<or> ws = []"
    using Cons.prems(5) by (cases ws) (auto simp: mono_def)
  then have "holds_reserve ao_ptz i (max t (tc (length (w # ws) - 1))) (ptz_left s (z - length (w # ws))) a'"
  proof
    assume "ws = []"
    with r h k show ?thesis by (auto intro: holds_reserve_later)
  qed (use r(4) k in \<open>auto intro: holds_reserve_later\<close>)
  with a1(1) r(1-3) show ?case by simp
qed

lemma release_observe_node: "release_observe json_loads plain peer g t d = (r, d') \<Longrightarrow> rd_node d' = rd_node d"
  by (auto simp: release_observe_def Let_def split: if_splits option.splits)

lemma release_observe_reply:
  "release_observe json_loads plain peer g t d = (Some r, d') \<Longrightarrow>
     parse_ptz_reply json_loads plain (rd_node d) (rd_access d) (rd_device d) (rc_sequence (rd_correlation d))
       (rc_message_id (rd_correlation d)) (rc_request_id (rd_correlation d)) = Some r"
  by (auto simp: release_observe_def Let_def split: if_splits option.splits)

lemma packets_receipts:
  assumes "packets_ok out s" "ps_started s" "\<not> ps_receipt_prepared s" "\<forall>p \<in> set ps. pk_kind p = ''receipt''" "length ps \<le> 2"
  shows "packets_ok (out @ ps) (s\<lparr>ps_receipt_prepared := True\<rparr>)"
proof -
  obtain rest where r: "out = \<lparr>pk_kind = ''start'', pk_wire = rp_start (ps_commands s)\<rparr> # rest"
    "\<forall>p \<in> set rest. p = \<lparr>pk_kind = ''release'', pk_wire = rp_release (ps_commands s)\<rparr> \<or> pk_kind p = ''receipt''"
    "length (filter (\<lambda>p. pk_kind p = ''release'') rest) = ps_releases s"
    "filter (\<lambda>p. pk_kind p = ''receipt'') rest = []"
    using assms(1-3) by (auto simp: packets_ok_def)
  have "filter (\<lambda>p. pk_kind p = ''release'') ps = []" using assms(4) by (auto simp: filter_empty_conv)
  moreover have "filter (\<lambda>p. pk_kind p = ''receipt'') ps = ps" using assms(4) by (auto simp: filter_id_conv)
  ultimately show ?thesis unfolding packets_ok_def using assms r by (intro exI [of _ "rest @ ps"]) auto
qed

lemma scheduler_observe_inv:
  assumes "gesture_inv t out s a" "t \<le> tc 0" "mono tc" "tc 1 \<le> t'"
  shows "\<exists>ps s' a'. scheduler_observe json_loads plain peer generation rand15 t_track now tc (s, a) = (Inr ps, s', a') \<and>
    gesture_inv t' (out @ ps) s' a'"
proof -
  have inv: "commands_ok s" "reserve_ok t s a" "packets_ok out s" using assms(1) by (simp_all add: gesture_inv_def)
  have tc: "tc 0 \<le> tc 1" using assms(3) by (simp add: mono_def)
  with assms(2,4) have t: "t \<le> t'" by linarith
  consider (skip) "ps_delivery s = None \<or> ps_result s \<noteq> None \<or> ps_releases s = 0"
    | (run) d where "ps_delivery s = Some d" "ps_result s = None" "ps_releases s \<noteq> 0" by (cases "ps_delivery s") blast+
  then show ?thesis
  proof cases
    case skip
    then show ?thesis using gesture_inv_later [OF assms(1) t] by (auto simp: scheduler_observe_def split: option.split)
  next
    case (run d)
    obtain resp d' where o: "release_observe json_loads plain peer generation t_track d = (resp, d')" by fastforce
    let ?s = "s\<lparr>ps_delivery := Some d', ps_settle_until := settle_until d' now (ps_settle_until s)\<rparr>"
    have st: "ps_started s" using inv(1) run(1) by (auto simp: commands_ok_def Let_def)
    have nd: "rd_node d = ps_node s" using inv(1) run(1) by (simp add: commands_ok_def Let_def)
    have c: "commands_ok ?s" using inv(1) run(1) release_observe_node [OF o] by (simp add: commands_ok_def Let_def)
    have r: "reserve_ok t ?s a" using inv(2) by (simp add: reserve_ok_def unsettled_def ptz_left_def)
    have p: "packets_ok out ?s" using inv(3) packets_ok_cong [of ?s s out] by simp
    show ?thesis
    proof (cases "(case resp of None \<Rightarrow> True | Some r \<Rightarrow> pr_error_code r = None) \<or> ps_receipt_prepared s")
      case True
      have "gesture_inv t' out ?s a" using c p reserve_ok_later [OF r t] by (simp add: gesture_inv_def)
      moreover have "scheduler_observe json_loads plain peer generation rand15 t_track now tc (s, a) = (Inr [], ?s, a)"
        using True run o by (simp add: scheduler_observe_def Let_def)
      ultimately show ?thesis by auto
    next
      case False
      then obtain reply e where rep: "resp = Some reply" "pr_error_code reply = Some e" "\<not> ps_receipt_prepared s"
        by (auto split: option.splits)
      let ?s2 = "?s\<lparr>ps_receipt_prepared := True\<rparr>"
      have pr: "parse_ptz_reply json_loads plain (ps_node ?s2) (rd_access d) (rd_device d) (rc_sequence (rd_correlation d))
          (rc_message_id (rd_correlation d)) (rc_request_id (rd_correlation d)) = Some reply"
        using release_observe_reply [OF o [unfolded rep(1)]] nd by simp
      have "length (cn_session_key (ps_node ?s2)) = 32" using inv(1) by (simp add: commands_ok_def Let_def)
      from receipt_wires_total [OF pr rep(2) this] obtain ws where
        ws: "receipt_wires plain rand15 ?s2 = Inr ws" "length ws \<le> 2" "\<forall>w \<in> set ws. 0 < length w \<and> length w \<le> 4096" by blast
      have "holds_reserve ao_ptz (ps_reserve s) t (ptz_left s 2) a"
        using inv(2) run(2) rep(3) by (auto simp: reserve_ok_def unsettled_def)
      from charge_receipts_ok [OF this ws(2,3) assms(2,3)] obtain ps a' where
        cr: "charge_receipts (ps_reserve s) ws tc a = (Inr ps, a')" "map pk_wire ps = ws" "\<forall>p \<in> set ps. pk_kind p = ''receipt''"
        "holds_reserve ao_ptz (ps_reserve s) (max t (tc (length ws - 1))) (ptz_left s (2 - length ws)) a'" by blast
      have "tc (length ws - 1) \<le> tc 1" using ws(2) assms(3) by (auto simp: mono_def)
      then have "max t (tc (length ws - 1)) \<le> t'" using assms(4) t by linarith
      from holds_reserve_later [OF cr(4) this] have "reserve_ok t' ?s2 a'" by (auto simp: reserve_ok_def ptz_left_def)
      moreover have "length ps \<le> 2" using cr(2) ws(2) by auto
      with packets_receipts [OF p _ _ cr(3)] st rep(3) have "packets_ok (out @ ps) ?s2" by simp
      moreover have "commands_ok ?s2" using c by (simp add: commands_ok_def Let_def)
      moreover have "scheduler_observe json_loads plain peer generation rand15 t_track now tc (s, a) = (Inr ps, ?s2, a')"
        using False run o ws(1) cr(1) rep
        by (simp add: scheduler_observe_def Let_def)
      ultimately show ?thesis by (auto simp: gesture_inv_def)
    qed
  qed
qed

lemma scheduler_init_inv:
  assumes "ao_inv b" "tb_last (ao_traffic b) \<le> t0" "t0 \<le> now" "0 \<le> bs_next source" "0 < bs_generation source"
    "0 \<le> dr_release_message dr \<and> dr_release_message dr < 2 ^ 31" "0 \<le> dr_release_request dr \<and> dr_release_request dr < 2 ^ 32"
    "scheduler_init dr node generation spec t0 now source b = (Inr s, source', a)"
  shows "gesture_inv now [] s a"
proof -
  let ?cmd = "reserve_ptz_commands dr node generation (sp_access_id spec) (sp_device_id spec) (sp_direction spec)
    (sp_reviewed_directions spec) source"
  obtain r1 a1 where rc1: "reserve_ptz t0 b = (r1, a1)" by fastforce
  obtain c1 s1 where rc2: "?cmd = (c1, s1)" by fastforce
  note rc = rc1 rc2
  have dur: "\<not> \<not> (1 / 10 \<le> sp_duration spec \<and> sp_duration spec \<le> 1 / 2)"
  proof
    assume n: "\<not> (1 / 10 \<le> sp_duration spec \<and> sp_duration spec \<le> 1 / 2)"
    show False using assms(8) unfolding scheduler_init_def if_P [OF n] by simp
  qed
  note ini = assms(8) [unfolded scheduler_init_def if_not_P [OF dur] rc prod.case]
  obtain r where r1: "r1 = Inr r" using ini by (cases r1) auto
  obtain c where c1: "c1 = Inr c" using ini r1 by (cases c1) auto
  from ini r1 c1 rc have r: "reserve_ptz t0 b = (Inr r, a)" and c: "?cmd = (Inr c, source')"
    and s: "ps_reserve s = r" "ps_commands s = c" "ps_node s = node" "ps_generation s = generation"
      "ps_access s = sp_access_id spec" "ps_device s = sp_device_id spec" "ps_started s = False" "ps_receipt_prepared s = False"
      "ps_releases s = 0" "ps_delivery s = None" "ps_result s = None" "ps_retry_at s = 0" by auto
  note cf = reserve_ptz_commands_Inr [OF c assms(4)]
  have cmd: "commands_ok s" using cf s assms(5-7) by (simp add: commands_ok_def Let_def)
  have "holds_reserve ao_ptz r now ptz_slots a"
    by (rule holds_reserve_later [OF ptz_reserve.reserved [OF assms(1,2) r] assms(3)])
  then have "reserve_ok now s a" using s by (auto simp: reserve_ok_def ptz_left_def ptz_slots_def)
  with cmd s show ?thesis by (simp add: gesture_inv_def packets_ok_def)
qed

lemma gesture_step_inv:
  assumes "gesture_step t s a ps t' s' a'" "gesture_inv t out s a"
  shows "gesture_inv t' (out @ ps) s' a'"
  using assms(1)
proof cases
  case (poll now t_track source p)
  then show ?thesis using next_packet_inv [OF assms(2) poll(2-5), of source] by auto
next
  case cancel
  then show ?thesis using assms(2) packets_ok_cong [of "scheduler_cancel s" s out]
    by (simp add: gesture_inv_def scheduler_cancel_def commands_ok_def reserve_ok_def unsettled_def ptz_left_def Let_def)
next
  case failed
  then show ?thesis using assms(2) packets_ok_cong [of "scheduler_send_failed s" s out]
    by (simp add: gesture_inv_def scheduler_send_failed_def scheduler_cancel_def commands_ok_def reserve_ok_def unsettled_def
        ptz_left_def Let_def)
next
  case (observe tc json_loads plain peer generation rand15 t_track now)
  then show ?thesis using scheduler_observe_inv [OF assms(2) observe(1-3), of json_loads plain peer generation rand15 t_track now]
    by auto
next
  case others
  then have "gesture_inv t' out s a" using assms(2) by (blast intro: gesture_inv_later)
  then show ?thesis using others ptz_reserve.holds_others [OF others(4)] by (auto simp: gesture_inv_def reserve_ok_def)
qed

lemma gesture_reachable_inv: "gesture t out s a \<Longrightarrow> gesture_inv t out s a"
proof (induction rule: gesture.induct)
  case (start packets octets policy capacity t_init b0 b t0 now source dr node generation spec s source' a)
  then show ?case using output_reach_inv [OF start(2) output_init_inv [OF start(1)]] by (intro scheduler_init_inv) auto
next
  case (step t out s a ps t' s' a')
  then show ?case by (blast intro: gesture_step_inv)
qed

section \<open>What a gesture does to the camera\<close>

text \<open>
  C2. One gesture never sends more than it reserved, whatever the polls, cancellations,
  replies, lost packets and other users of the account: at most one START, which is the
  first packet; at most three RELEASEs, all of them the one datagram built before START;
  at most two receipts; nothing before START.
\<close>
theorem ptz_commands_safe:
  assumes "gesture t out s a"
  shows "(out \<noteq> [] \<longrightarrow> hd out = \<lparr>pk_kind = ''start'', pk_wire = rp_start (ps_commands s)\<rparr>) \<and>
    length (filter (\<lambda>p. pk_kind p = ''start'') out) \<le> 1 \<and>
    length (filter (\<lambda>p. pk_kind p = ''release'') out) \<le> 3 \<and>
    length (filter (\<lambda>p. pk_kind p = ''receipt'') out) \<le> 2 \<and>
    (\<forall>p \<in> set (tl out). p = \<lparr>pk_kind = ''release'', pk_wire = rp_release (ps_commands s)\<rparr> \<or> pk_kind p = ''receipt'')"
proof -
  have inv: "commands_ok s" "packets_ok out s" using gesture_reachable_inv [OF assms] by (simp_all add: gesture_inv_def)
  obtain rest where r: "out = (if ps_started s then \<lparr>pk_kind = ''start'', pk_wire = rp_start (ps_commands s)\<rparr> # rest else rest)"
    "\<not> ps_started s \<longrightarrow> rest = []"
    "\<forall>p \<in> set rest. p = \<lparr>pk_kind = ''release'', pk_wire = rp_release (ps_commands s)\<rparr> \<or> pk_kind p = ''receipt''"
    "length (filter (\<lambda>p. pk_kind p = ''release'') rest) = ps_releases s"
    "length (filter (\<lambda>p. pk_kind p = ''receipt'') rest) \<le> (if ps_receipt_prepared s then 2 else 0)"
    using inv(2) by (auto simp: packets_ok_def)
  have "filter (\<lambda>p. pk_kind p = ''start'') rest = []" using r(3) by (auto simp: filter_empty_conv)
  moreover have "ps_releases s \<le> 3" using inv(1) by (simp add: commands_ok_def Let_def)
  ultimately show ?thesis using r by (auto split: if_splits)
qed

text \<open>
  C14. STOP is always sendable. Once START has been handed out and the motion time is over
  or the gesture is cancelled, the next poll hands out the RELEASE without an error:
  neither the output budget, however other users spent it, nor the command pair, nor the
  start of the release tracking can prevent it.
\<close>
theorem ptz_release_guaranteed:
  assumes "gesture t out s a" "ps_started s" "ps_result s = None" "ps_delivery s = None"
    "ps_cancel s \<or> ps_move_until s \<le> now" "0 \<le> now" "t \<le> now" "now \<le> t_track" "t_track < now + 2" "t_track \<le> t_charge"
  shows "\<exists>s' a'. next_packet now t_track t_charge source (s, a) =
    (Inr (Some \<lparr>pk_kind = ''release'', pk_wire = rp_release (ps_commands s)\<rparr>), s', a')"
  using next_packet_inv [OF gesture_reachable_inv [OF assms(1)] assms(7-10), of source] assms(2-6) by auto

lemma next_release_deadline:
  "next_release now t_charge d (s, a) = (res, s', a') \<Longrightarrow>
   ps_release_until s' = ps_release_until s \<and> ps_delivery s' = ps_delivery s"
  by (auto simp: next_release_def scheduler_finish_def Let_def split: if_splits option.splits prod.splits sum.splits)

lemma next_start_deadline:
  "next_start now t_charge source (s, a) = (res, s', a') \<Longrightarrow>
   ps_release_until s' = ps_release_until s \<and> ps_delivery s' = ps_delivery s"
  by (auto simp: next_start_def scheduler_finish_def Let_def split: if_splits prod.splits sum.splits)

lemma next_packet_deadline:
  assumes "next_packet now t_track t_charge source (s, a) = (res, s', a')" "t_track < now + 2" "ps_delivery s \<noteq> None \<longrightarrow> ps_release_until s \<le> u"
    "now + 2 \<le> u"
  shows "ps_delivery s' \<noteq> None \<longrightarrow> ps_release_until s' \<le> u"
  using assms
  by (auto simp: next_packet_def Let_def split: if_splits option.splits sum.splits dest!: next_release_deadline next_start_deadline)

lemma next_packet_keeps_deadline:
  assumes "next_packet now t_track t_charge source (s, a) = (res, s', a')"
  shows "(ps_delivery s \<noteq> None \<longrightarrow> ps_delivery s' \<noteq> None \<and> ps_release_until s' = ps_release_until s) \<and>
    (ps_result s \<noteq> None \<longrightarrow> ps_result s' \<noteq> None)"
  using assms
  by (auto simp: next_packet_def Let_def split: if_splits option.splits sum.splits dest!: next_release_deadline next_start_deadline)

lemma observe_keeps_deadline:
  assumes "scheduler_observe json_loads plain peer generation rand15 t_track now tc (s, a) = (res, s', a')"
  shows "ps_release_until s' = ps_release_until s \<and> (ps_delivery s' = None \<longleftrightarrow> ps_delivery s = None) \<and> ps_result s' = ps_result s"
  using assms by (auto simp: scheduler_observe_def Let_def split: if_splits option.splits prod.splits sum.splits)

lemma gesture_step_deadline:
  assumes "gesture_step t s a ps t' s' a'"
  shows "(ps_delivery s \<noteq> None \<longrightarrow> ps_delivery s' \<noteq> None \<and> ps_release_until s' = ps_release_until s) \<and>
    (ps_result s \<noteq> None \<longrightarrow> ps_result s' \<noteq> None)"
  using assms
proof cases
  case (poll now t_track source p)
  from next_packet_keeps_deadline [OF poll(6)] show ?thesis .
next
  case (observe tc json_loads plain peer generation rand15 t_track now)
  from observe_keeps_deadline [OF observe(4)] show ?thesis by simp
qed (simp_all add: scheduler_cancel_def scheduler_send_failed_def)

lemma gesture_run_deadline:
  assumes "gesture_run t s a ps t' s' a'"
  shows "(ps_delivery s \<noteq> None \<longrightarrow> ps_delivery s' \<noteq> None \<and> ps_release_until s' = ps_release_until s) \<and>
    (ps_result s \<noteq> None \<longrightarrow> ps_result s' \<noteq> None)"
  using assms
proof (induction rule: gesture_run.induct)
  case (more t s a ps t' s' a' qs t'' s'' a'')
  from gesture_step_deadline [OF more(2)] more.IH show ?case by simp
qed simp

lemma gesture_step_until:
  assumes "gesture_step t s a ps t' s' a'" "ps_delivery s \<noteq> None \<longrightarrow> ps_release_until s \<le> t + 2"
  shows "ps_delivery s' \<noteq> None \<longrightarrow> ps_release_until s' \<le> t' + 2"
  using assms(1)
proof cases
  case (poll now t_track source p)
  then show ?thesis using assms(2) by (intro next_packet_deadline [OF poll(6)]) auto
next
  case (observe tc json_loads plain peer generation rand15 t_track now)
  have "tc 0 \<le> tc 1" using observe(2) by (simp add: mono_def)
  with observe(1,3) have "t \<le> t'" by linarith
  then show ?thesis using assms(2) observe_keeps_deadline [OF observe(4)] by auto
qed (use assms(2) in \<open>auto simp: scheduler_cancel_def scheduler_send_failed_def\<close>)

lemma release_deadline: "gesture t out s a \<Longrightarrow> ps_delivery s \<noteq> None \<longrightarrow> ps_release_until s \<le> t + 2"
proof (induction rule: gesture.induct)
  case (start packets octets policy capacity t_init b0 b t0 now source dr node generation spec s source' a)
  then show ?case by (auto simp: scheduler_init_def split: if_splits prod.splits sum.splits)
next
  case (step t out s a ps t' s' a')
  from gesture_step_until [OF step(2) step.IH] show ?case .
qed

text \<open>
  C13. A started gesture ends. From any state of a started gesture, the first poll after
  the motion time (or a cancellation) returns without an error; then, whatever happens
  next (more polls, frames of any kind and in any number, cancellations, failed sends,
  other users of the account), the first poll two seconds after that one returns without an
  error and the outcome is recorded: no frame and no operation extends the deadline. Both
  polls are assumed not to stall for two seconds between two readings of the clock.
\<close>
theorem ptz_gesture_ends:
  assumes "gesture t out s a" "ps_started s" "ps_cancel s \<or> ps_move_until s \<le> n1"
    "t \<le> n1" "n1 \<le> t1" "t1 < n1 + 2" "t1 \<le> c1"
  shows "\<exists>p1 s1 a1. next_packet n1 t1 c1 source1 (s, a) = (Inr p1, s1, a1) \<and>
    (\<forall>ps t' s' a' n2 t2 c2 source2. gesture_run c1 s1 a1 ps t' s' a' \<and> t' \<le> n2 \<and> n1 + 2 \<le> n2 \<and> n2 \<le> t2 \<and> t2 < n2 + 2 \<and> t2 \<le> c2 \<longrightarrow>
       (\<exists>p2 s2 a2. next_packet n2 t2 c2 source2 (s', a') = (Inr p2, s2, a2) \<and> ps_result s2 \<noteq> None))"
proof -
  obtain p1 s1 a1 where 1: "next_packet n1 t1 c1 source1 (s, a) = (Inr p1, s1, a1)"
    using next_packet_inv [OF gesture_reachable_inv [OF assms(1)] assms(4-7), of source1] by blast
  have g: "gesture c1 (out @ (case p1 of None \<Rightarrow> [] | Some x \<Rightarrow> [x])) s1 a1" by (rule gesture_poll [OF assms(1,4-7) 1])
  have "ps_release_until s \<le> n1 + 2" if "ps_delivery s \<noteq> None" using that release_deadline [OF assms(1)] assms(4) by auto
  then have dl: "ps_delivery s1 \<noteq> None \<longrightarrow> ps_release_until s1 \<le> n1 + 2"
    by (intro next_packet_deadline [OF 1 assms(6)]) auto
  have e: "ps_result s1 \<noteq> None \<or> ps_delivery s1 \<noteq> None"
    using 1 assms(2,3)
    by (auto simp: next_packet_def Let_def split: if_splits option.splits sum.splits dest!: next_release_deadline)
  have "\<exists>p2 s2 a2. next_packet n2 t2 c2 source2 (s', a') = (Inr p2, s2, a2) \<and> ps_result s2 \<noteq> None"
    if r: "gesture_run c1 s1 a1 ps t' s' a'" and n: "t' \<le> n2" "n2 \<le> t2" "t2 < n2 + 2" "t2 \<le> c2" and n1: "n1 + 2 \<le> n2"
    for ps t' s' a' n2 t2 c2 source2
  proof -
    obtain p2 s2 a2 where 2: "next_packet n2 t2 c2 source2 (s', a') = (Inr p2, s2, a2)"
      "ps_delivery s' \<noteq> None \<and> ps_release_until s' \<le> n2 \<longrightarrow> ps_result s2 \<noteq> None"
      using next_packet_inv [OF gesture_reachable_inv [OF gesture_run_gesture [OF r g]] n, of source2] by blast
    have "ps_result s2 \<noteq> None" if "ps_result s' \<noteq> None" using 2(1) that by (auto simp: next_packet_def)
    with 2(2) gesture_run_deadline [OF r] dl e n1 have "ps_result s2 \<noteq> None" by fastforce
    with 2(1) show ?thesis by blast
  qed
  with 1 show ?thesis by blast
qed

text \<open>
  C15. An account whose camera may still be moving accepts no other gesture: while a
  gesture has no outcome, or ended with START sent and RELEASE unconfirmed, constructing
  another scheduler on the same budget fails, for any camera, direction and time.
\<close>
theorem unconfirmed_stop_blocks_motion:
  assumes "gesture t out s a"
    "ps_result s = None \<or> (\<exists>r. ps_result s = Some r \<and> sr_start_attempted r \<and> \<not> sr_release_delivery_confirmed r)"
  shows "\<exists>e. fst (scheduler_init dr node generation spec t0 now source a) = Inl e"
proof -
  have "unsettled s" using assms(2) by (auto simp: unsettled_def)
  then obtain i where "ao_ptz a = Some i"
    using gesture_reachable_inv [OF assms(1)] by (auto simp: gesture_inv_def reserve_ok_def holds_reserve_def)
  then show ?thesis by (simp add: scheduler_init_def reserve_ptz_def)
qed

section \<open>A gesture that can be run\<close>

lemma build_ptz_request_total:
  assumes "map_of DIRECTIONS direction = Some dir" "0 \<le> r" "r < 2 ^ 32" "0 \<le> acc" "acc < 2 ^ 64" "0 \<le> dev" "dev < 2 ^ 64"
    "length (cn_session_key node) = 32"
  shows "\<exists>w. build_ptz_request node acc dev direction pressed sequence m r rand15 = Inr w"
proof -
  let ?fl = "randomized_flags rand15 2 1 0" and ?s = "cn_session_id node"
  let ?pl = "[1, 0xFF, 0, 0] @ le_bytes 4 (nat r) @ ascii (ptz_json dir pressed)"
  note fl = randomized_flags_no_trailer [of 2 1 rand15] randomized_flags_fields [of 2 1 rand15]
  have pl: "length ?pl = 49" using ptz_json_length [OF assms(1)] by simp
  have "\<exists>h. new_header 0xB9 101 ?s sequence (int ?fl) = Inr h \<and> header_of h 0xB9 101 ?s sequence (int ?fl)"
    by (rule new_header_ok) simp_all
  then obtain h where h: "new_header 0xB9 101 ?s sequence (int ?fl) = Inr h"
    and ho: "header_of h 0xB9 101 ?s sequence (int ?fl)" by blast
  let ?fs = "[(4, 0x18, 2), (8, 0x1C, dev), (8, 0x24, acc), (4, 0x2C, int (mask_int 31 m)), (2, 0x30, 49)] :: (nat \<times> nat \<times> int) list"
  define f where "f = foldl (\<lambda>f (n, off, x). put f off (le_bytes n (nat x))) (put h 0 [0x7E]) ?fs"
  have len: "length h = 101" using ho by (simp add: header_of_def)
  have "int (mask_int 31 m) < 256 ^ 4" using mask_int_bound [of 31 m] by simp
  then have pf: "pack_fields ?fs (put h 0 [0x7E]) = Inr f"
    unfolding f_def using len assms(4-7) by (intro pack_fields_ok) auto
  define g where "g = put f 0x34 ?pl"
  have g: "length g = 101" "u16_at g 2 = 101" "pyslice g 0x14 0x18 = le_bytes 4 ?fl"
    using ho fl(3) pl len by (simp_all add: g_def f_def put_fields header_of_def)
  have "\<exists>w p c. finish_mode2 g (cn_session_key node) = Inr w \<and> gute_mode2_decrypt w (cn_session_key node) = Inr p \<and>
      length w = length g \<and> p = put g 0x10 (le_bytes 4 c) \<and> gute_mode1_xor_checksum p = Inr (u32_at p 0x10)"
    by (rule sealed_mode2 [OF _ _ g(3)]) (use g fl assms(8) in simp_all)
  then obtain w where w: "finish_mode2 g (cn_session_key node) = Inr w" by blast
  have "build_ptz_request node acc dev direction pressed sequence m r rand15 = Inr w"
    unfolding build_ptz_request_def assms(1) option.case Let_def pl using assms(2,3) h pf w by (simp add: g_def)
  then show ?thesis by blast
qed

definition demo_spec :: ptz_spec where
  "demo_spec = \<lparr>sp_access_id = 3, sp_device_id = 4, sp_direction = ''left'', sp_reviewed_directions = {''left'', ''up''},
     sp_duration = 1 / 5\<rparr>"

definition demo_draws :: ptz_draws where
  "demo_draws = \<lparr>dr_release_message = 1, dr_release_request = 2, dr_start_message = 3, dr_start_request = 4,
     dr_start_flags = 5, dr_release_flags = 6\<rparr>"

lemma demo_gesture:
  "\<exists>s a. gesture 0 [] s a \<and> \<not> ps_started s \<and> ps_result s = None \<and> \<not> ps_cancel s \<and> ps_admit_until s = 1 \<and>
     ps_duration s = 1 / 5 \<and> \<not> rp_cancelled (ps_commands s) \<and>
     sequences_match (rp_session (ps_commands s)) (rp_generation (ps_commands s)) demo_source"
proof -
  have init: "output_init None None FINITE 1 0 = Inr demo_output"
    by (simp add: output_init_def traffic_init_def validate_media_capacity_def demo_output_def)
  obtain a where a: "reserve_ptz 0 demo_output = (Inr 0, a)"
    by (simp add: reserve_ptz_def demo_output_def output_reserved_def traffic_available_def new_reserve_def Let_def)
  have key: "length (cn_session_key demo_node) = 32" by (simp add: demo_node_def)
  obtain w1 w2 where w: "build_ptz_request demo_node 3 4 ''left'' True 5 3 4 5 = Inr w1"
    "build_ptz_request demo_node 3 4 ''left'' False 6 1 2 6 = Inr w2"
    using build_ptz_request_total [of "''left''" 0 _ 3 4 demo_node, OF _ _ _ _ _ _ _ key] by (fastforce simp: DIRECTIONS_def)
  have ids: "sequences_reserve 3 demo_source = (Inr [5, 6, 7], demo_source\<lparr>bs_next := 8\<rparr>)"
    by (simp add: sequences_reserve_def demo_source_def upto.simps)
  obtain c where c: "reserve_ptz_commands demo_draws demo_node 1 3 4 ''left'' {''left'', ''up''} demo_source = (Inr c, demo_source\<lparr>bs_next := 8\<rparr>)"
    "\<not> rp_cancelled c" "rp_session c = 7" "rp_generation c = 1"
    using w ids by (simp add: reserve_ptz_commands_def sequences_match_def demo_draws_def DIRECTIONS_def Let_def)
      (simp add: demo_node_def demo_source_def)
  obtain s where s: "scheduler_init demo_draws demo_node 1 demo_spec 0 0 demo_source demo_output = (Inr s, demo_source\<lparr>bs_next := 8\<rparr>, a)"
    "\<not> ps_started s" "ps_result s = None" "\<not> ps_cancel s" "ps_admit_until s = 1" "ps_duration s = 1 / 5" "ps_commands s = c"
    using a c(1) by (simp add: scheduler_init_def demo_spec_def)
  have "gesture 0 [] s a"
    by (rule gesture.start [OF init output_reach.start _ _ _ _ _ _ s(1)]) (simp_all add: demo_output_def demo_source_def demo_draws_def)
  moreover have "sequences_match 7 1 demo_source" by (simp add: sequences_match_def demo_source_def)
  ultimately show ?thesis using s(2-7) c(2-4) by (intro exI [of _ s] exI [of _ a]) simp
qed

lemma demo_started:
  "\<exists>out s a. gesture 0 out s a \<and> length out = 1 \<and> ps_started s \<and> ps_result s = None \<and> ps_delivery s = None \<and> ps_move_until s = 1 / 5"
proof -
  obtain s a where g: "gesture 0 [] s a" "\<not> ps_started s" "ps_result s = None" "\<not> ps_cancel s" "ps_admit_until s = 1"
     "ps_duration s = 1 / 5" "\<not> rp_cancelled (ps_commands s)"
     "sequences_match (rp_session (ps_commands s)) (rp_generation (ps_commands s)) demo_source"
    using demo_gesture by blast
  obtain p s' a' where n: "next_start 0 0 demo_source (s, a) = (Inr p, s', a')"
    "p = Some \<lparr>pk_kind = ''start'', pk_wire = rp_start (ps_commands s)\<rparr>" "ps_started s'" "ps_result s' = None"
    "ps_delivery s' = None" "ps_move_until s' = 1 / 5"
    using next_start_inv [OF gesture_reachable_inv [OF g(1)] g(2,3) order_refl, of 0 demo_source] g(4-8) by auto
  have "next_packet 0 0 0 demo_source (s, a) = (Inr p, s', a')" using n(1) g(2,3) by (simp add: next_packet_def)
  from gesture_poll [OF g(1) _ _ _ _ this] n(2-6) show ?thesis
    by (intro exI [of _ "[\<lparr>pk_kind = ''start'', pk_wire = rp_start (ps_commands s)\<rparr>]"] exI [of _ s'] exI [of _ a']) simp
qed

theorem ptz_commands_safe_witness:
  "\<exists>out s a. gesture 0 out s a \<and> length out = 1 \<and> hd out = \<lparr>pk_kind = ''start'', pk_wire = rp_start (ps_commands s)\<rparr>"
proof -
  obtain out s a where g: "gesture 0 out s a" "length out = 1" using demo_started by blast
  then have "out \<noteq> []" by auto
  with g ptz_commands_safe [OF g(1)] show ?thesis by blast
qed

theorem ptz_release_guaranteed_witness:
  "\<exists>out s a s' a'. gesture 0 out s a \<and> next_packet (1 / 4) (1 / 4) (1 / 4) demo_source (s, a) =
    (Inr (Some \<lparr>pk_kind = ''release'', pk_wire = rp_release (ps_commands s)\<rparr>), s', a')"
proof -
  obtain out s a where g: "gesture 0 out s a" "ps_started s" "ps_result s = None" "ps_delivery s = None" "ps_move_until s = 1 / 5"
    using demo_started by blast
  have "\<exists>s' a'. next_packet (1 / 4) (1 / 4) (1 / 4) demo_source (s, a) =
      (Inr (Some \<lparr>pk_kind = ''release'', pk_wire = rp_release (ps_commands s)\<rparr>), s', a')"
    by (rule ptz_release_guaranteed [OF g(1-4)]) (use g(5) in simp_all)
  with g(1) show ?thesis by blast
qed

theorem ptz_gesture_ends_witness:
  "\<exists>out s a p1 s1 a1 p2 s2 a2. gesture 0 out s a \<and> next_packet (1 / 4) (1 / 4) (1 / 4) demo_source (s, a) = (Inr p1, s1, a1) \<and>
    next_packet 3 3 3 demo_source (scheduler_cancel s1, a1) = (Inr p2, s2, a2) \<and> ps_result s2 \<noteq> None"
proof -
  obtain out s a where g: "gesture 0 out s a" "ps_started s" "ps_move_until s = 1 / 5" using demo_started by blast
  obtain p1 s1 a1 where 1: "next_packet (1 / 4) (1 / 4) (1 / 4) demo_source (s, a) = (Inr p1, s1, a1)"
    and e: "\<forall>ps t' s' a' n2 t2 c2 source2. gesture_run (1 / 4) s1 a1 ps t' s' a' \<and> t' \<le> n2 \<and> 1 / 4 + 2 \<le> n2 \<and> n2 \<le> t2 \<and>
      t2 < n2 + 2 \<and> t2 \<le> c2 \<longrightarrow> (\<exists>p2 s2 a2. next_packet n2 t2 c2 source2 (s', a') = (Inr p2, s2, a2) \<and> ps_result s2 \<noteq> None)"
    using ptz_gesture_ends [OF g(1,2), of "1 / 4" "1 / 4" "1 / 4" demo_source] g(3) by auto
  have "gesture_run (1 / 4) s1 a1 [] (1 / 4) (scheduler_cancel s1) a1"
    using gesture_run.more [OF gesture_run.stop gesture_step.cancel] by simp
  with e [rule_format, of "[]" "1 / 4" "scheduler_cancel s1" a1 3 3 3 demo_source] g(1) 1 show ?thesis by fastforce
qed

theorem unconfirmed_stop_blocks_motion_witness:
  "\<exists>out s a e. gesture 0 out s a \<and> ps_started s \<and>
    fst (scheduler_init demo_draws demo_node 1 demo_spec 1 1 demo_source a) = Inl e"
proof -
  obtain out s a where g: "gesture 0 out s a" "ps_started s" "ps_result s = None" using demo_started by blast
  from unconfirmed_stop_blocks_motion [OF g(1), of demo_draws demo_node 1 demo_spec 1 1 demo_source] g show ?thesis by auto
qed

end
