(* ===== verification/PtzInbox.thy ===== *)
theory PtzInbox
  imports PtzScheduler
begin

text \<open>
  Admission of gestures: the one-slot inbox of \<^verbatim>\<open>ptz_inbox.py\<close> between driver callers and
  the socket worker, and the owner table and blocking gesture of \<^verbatim>\<open>ptz_motion.py\<close>. Every
  inbox method runs under one lock, so an interleaving of callers and worker is a
  sequence of operations.
\<close>

section \<open>The inbox\<close>

record motion_ticket =
  mt_generation :: int
  mt_serial :: int

record motion_slot =
  ms_ticket :: motion_ticket
  ms_spec :: ptz_spec
  ms_deadline :: time
  ms_claimed :: bool
  ms_cancelled :: bool
  ms_abandoned :: bool
  ms_result :: "scheduled_result option"

record ptz_inbox =
  ib_generation :: int
  ib_serial :: int
  ib_closed :: bool
  ib_slot :: "motion_slot option"

definition inbox_init :: "int \<Rightarrow> exn + ptz_inbox" where
  "inbox_init generation =
     (if \<not> (0 < generation \<and> generation < 2 ^ 64) then Inl (ValueError ''invalid motion generation'')
      else Inr \<lparr>ib_generation = generation, ib_serial = 0, ib_closed = False, ib_slot = None\<rparr>)"

definition gesture_spec_ok :: "ptz_spec \<Rightarrow> bool" where
  "gesture_spec_ok spec \<longleftrightarrow>
     0 < sp_access_id spec \<and> sp_access_id spec < 2 ^ 64 \<and> 0 < sp_device_id spec \<and> sp_device_id spec < 2 ^ 64 \<and>
     sp_direction spec \<in> fst ` set DIRECTIONS \<and> sp_reviewed_directions spec \<subseteq> fst ` set DIRECTIONS \<and>
     sp_direction spec \<in> sp_reviewed_directions spec \<and> 1 / 10 \<le> sp_duration spec \<and> sp_duration spec \<le> 1 / 2"

definition inbox_submit :: "ptz_spec \<Rightarrow> time \<Rightarrow> ptz_inbox \<Rightarrow> (exn + motion_ticket) \<times> ptz_inbox" where
  "inbox_submit spec now ib =
     (if \<not> gesture_spec_ok spec then (Inl (ValueError ''invalid reviewed gesture''), ib)
      else if ib_closed ib \<or> ib_slot ib \<noteq> None \<or> ib_serial ib \<ge> 2 ^ 64
      then (Inl (ValueError ''motion admission unavailable''), ib)
      else let ticket = \<lparr>mt_generation = ib_generation ib, mt_serial = ib_serial ib\<rparr>
           in (Inr ticket, ib\<lparr>ib_serial := ib_serial ib + 1,
                 ib_slot := Some \<lparr>ms_ticket = ticket, ms_spec = spec, ms_deadline = now + 1, ms_claimed = False,
                                  ms_cancelled = False, ms_abandoned = False, ms_result = None\<rparr>\<rparr>))"

definition cancelled_result :: scheduled_result where
  "cancelled_result = \<lparr>sr_reason = ''cancelled'', sr_start_attempted = False, sr_release_attempts = 0,
     sr_release_delivery_confirmed = False, sr_send_failed = False\<rparr>"

definition slot_cancel :: "motion_slot \<Rightarrow> motion_slot" where
  "slot_cancel sl = (let sl = sl\<lparr>ms_cancelled := True\<rparr>
     in if \<not> ms_claimed sl \<and> ms_result sl = None then sl\<lparr>ms_result := Some cancelled_result\<rparr> else sl)"

definition inbox_claim :: "time \<Rightarrow> ptz_inbox \<Rightarrow> (motion_ticket \<times> ptz_spec) option \<times> ptz_inbox" where
  "inbox_claim now ib =
     (case ib_slot ib of
        None \<Rightarrow> (None, ib)
      | Some sl \<Rightarrow>
          if ms_claimed sl \<or> ms_result sl \<noteq> None then (None, ib)
          else if ib_closed ib \<or> now \<ge> ms_deadline sl then (None, ib\<lparr>ib_slot := Some (slot_cancel sl)\<rparr>)
          else (Some (ms_ticket sl, ms_spec sl), ib\<lparr>ib_slot := Some (sl\<lparr>ms_claimed := True\<rparr>)\<rparr>))"

definition inbox_cancel :: "motion_ticket \<Rightarrow> ptz_inbox \<Rightarrow> bool \<times> ptz_inbox" where
  "inbox_cancel ticket ib =
     (case ib_slot ib of
        None \<Rightarrow> (False, ib)
      | Some sl \<Rightarrow>
          if ms_ticket sl \<noteq> ticket \<or> ms_result sl \<noteq> None then (False, ib)
          else (True, ib\<lparr>ib_slot := Some (slot_cancel sl)\<rparr>))"

definition inbox_should_cancel :: "motion_ticket \<Rightarrow> ptz_inbox \<Rightarrow> bool" where
  "inbox_should_cancel ticket ib \<longleftrightarrow> ib_closed ib \<or>
     (case ib_slot ib of None \<Rightarrow> True | Some sl \<Rightarrow> ms_ticket sl \<noteq> ticket \<or> ms_cancelled sl)"

definition inbox_abandon :: "motion_ticket \<Rightarrow> ptz_inbox \<Rightarrow> ptz_inbox" where
  "inbox_abandon ticket ib =
     (case ib_slot ib of
        None \<Rightarrow> ib
      | Some sl \<Rightarrow>
          if ms_ticket sl \<noteq> ticket then ib
          else let sl = slot_cancel (sl\<lparr>ms_abandoned := True\<rparr>)
               in if (case ms_result sl of None \<Rightarrow> False
                        | Some r \<Rightarrow> \<not> sr_start_attempted r \<or> sr_release_delivery_confirmed r)
                  then ib\<lparr>ib_slot := None\<rparr> else ib\<lparr>ib_slot := Some sl\<rparr>)"

definition inbox_finish :: "motion_ticket \<Rightarrow> scheduled_result \<Rightarrow> ptz_inbox \<Rightarrow> bool \<times> ptz_inbox" where
  "inbox_finish ticket result ib =
     (case ib_slot ib of
        None \<Rightarrow> (False, ib)
      | Some sl \<Rightarrow>
          if ms_ticket sl \<noteq> ticket \<or> \<not> ms_claimed sl \<or> ms_result sl \<noteq> None then (False, ib)
          else let ib = ib\<lparr>ib_slot := Some (sl\<lparr>ms_result := Some result\<rparr>)\<rparr>
               in if sr_start_attempted result \<and> \<not> sr_release_delivery_confirmed result
                  then (True, ib\<lparr>ib_closed := True\<rparr>)
                  else if ms_abandoned sl then (True, ib\<lparr>ib_slot := None\<rparr>)
                  else (True, ib))"

definition inbox_take :: "motion_ticket \<Rightarrow> ptz_inbox \<Rightarrow> scheduled_result option \<times> ptz_inbox" where
  "inbox_take ticket ib =
     (case ib_slot ib of
        None \<Rightarrow> (None, ib)
      | Some sl \<Rightarrow>
          if ms_ticket sl \<noteq> ticket then (None, ib)
          else case ms_result sl of
            None \<Rightarrow> (None, ib)
          | Some r \<Rightarrow> (Some r, ib\<lparr>ib_slot := None\<rparr>))"

definition inbox_close :: "ptz_inbox \<Rightarrow> ptz_inbox" where
  "inbox_close ib = ib\<lparr>ib_closed := True, ib_slot := map_option slot_cancel (ib_slot ib)\<rparr>"

section \<open>Histories of the inbox\<close>

datatype inbox_op =
    Submit ptz_spec time
  | Claim time
  | Cancel motion_ticket
  | Abandon motion_ticket
  | Finish motion_ticket scheduled_result
  | Take motion_ticket
  | Shut

text \<open>What became visible: a ticket was claimed by the worker, finished by it, or its result was read.\<close>

datatype inbox_event =
    Claimed motion_ticket
  | Finished motion_ticket scheduled_result
  | Taken motion_ticket scheduled_result

fun inbox_exec :: "inbox_op \<Rightarrow> ptz_inbox \<Rightarrow> inbox_event list \<times> ptz_inbox" where
  "inbox_exec (Submit spec now) ib = ([], snd (inbox_submit spec now ib))"
| "inbox_exec (Claim now) ib = (case inbox_claim now ib of
     (None, ib') \<Rightarrow> ([], ib') | (Some (ticket, spec), ib') \<Rightarrow> ([Claimed ticket], ib'))"
| "inbox_exec (Cancel ticket) ib = ([], snd (inbox_cancel ticket ib))"
| "inbox_exec (Abandon ticket) ib = ([], inbox_abandon ticket ib)"
| "inbox_exec (Finish ticket result) ib = (case inbox_finish ticket result ib of
     (done, ib') \<Rightarrow> (if done then [Finished ticket result] else [], ib'))"
| "inbox_exec (Take ticket) ib = (case inbox_take ticket ib of
     (None, ib') \<Rightarrow> ([], ib') | (Some r, ib') \<Rightarrow> ([Taken ticket r], ib'))"
| "inbox_exec Shut ib = ([], inbox_close ib)"

inductive inbox_history :: "inbox_event list \<Rightarrow> ptz_inbox \<Rightarrow> bool" where
  fresh: "inbox_init generation = Inr ib \<Longrightarrow> inbox_history [] ib"
| step: "inbox_history h ib \<Longrightarrow> inbox_exec op ib = (es, ib') \<Longrightarrow> inbox_history (h @ es) ib'"

definition stop_known :: "scheduled_result \<Rightarrow> bool" where
  "stop_known r \<longleftrightarrow> (sr_start_attempted r \<longrightarrow> sr_release_delivery_confirmed r)"

text \<open>
  The invariant: tickets of the history are older than the next serial; the ticket of
  the slot has the events its fields say; every other claimed ticket was finished; an
  unknown stop has closed the inbox.
\<close>

definition event_ticket :: "inbox_event \<Rightarrow> motion_ticket" where
  "event_ticket e = (case e of Claimed t \<Rightarrow> t | Finished t r \<Rightarrow> t | Taken t r \<Rightarrow> t)"

definition slot_ok :: "inbox_event list \<Rightarrow> motion_slot \<Rightarrow> bool" where
  "slot_ok h sl \<longleftrightarrow> (let t = ms_ticket sl in
     (ms_claimed sl \<longleftrightarrow> Claimed t \<in> set h) \<and> (\<forall>r. Taken t r \<notin> set h) \<and>
     (\<forall>r. Finished t r \<in> set h \<longleftrightarrow> ms_claimed sl \<and> ms_result sl = Some r) \<and>
     (\<not> ms_claimed sl \<longrightarrow> ms_result sl = None \<or> ms_result sl = Some cancelled_result))"

definition inbox_inv :: "inbox_event list \<Rightarrow> ptz_inbox \<Rightarrow> bool" where
  "inbox_inv h ib \<longleftrightarrow>
     (\<forall>e \<in> set h. mt_serial (event_ticket e) < ib_serial ib) \<and>
     (\<forall>sl. ib_slot ib = Some sl \<longrightarrow> mt_serial (ms_ticket sl) < ib_serial ib \<and> slot_ok h sl) \<and>
     (\<forall>t. Claimed t \<in> set h \<and> (\<forall>sl. ib_slot ib = Some sl \<longrightarrow> ms_ticket sl \<noteq> t) \<longrightarrow> (\<exists>r. Finished t r \<in> set h)) \<and>
     (\<forall>t r. Finished t r \<in> set h \<and> \<not> stop_known r \<longrightarrow> ib_closed ib) \<and>
     (\<forall>t r. Taken t r \<in> set h \<longrightarrow> Finished t r \<in> set h \<or> (r = cancelled_result \<and> Claimed t \<notin> set h))"

lemma slot_cancel_simps [simp]:
  "ms_ticket (slot_cancel sl) = ms_ticket sl" "ms_claimed (slot_cancel sl) = ms_claimed sl"
  "ms_result (slot_cancel sl) = (if \<not> ms_claimed sl \<and> ms_result sl = None then Some cancelled_result else ms_result sl)"
  by (simp_all add: slot_cancel_def Let_def)

lemma slot_ok_cancel: "slot_ok h sl \<Longrightarrow> slot_ok h (slot_cancel sl)"
  by (auto simp: slot_ok_def Let_def)

lemma stop_known_cancelled [simp]: "stop_known cancelled_result"
  by (simp add: stop_known_def cancelled_result_def)

text \<open>Changing the slot without an event, or freeing a finished one.\<close>

lemma inbox_inv_slot:
  assumes "inbox_inv h ib" "ib_slot ib = Some sl" "ms_ticket sl' = ms_ticket sl" "slot_ok h sl'"
    "ib' = ib\<lparr>ib_slot := Some sl'\<rparr> \<or> ib' = ib\<lparr>ib_closed := True, ib_slot := Some sl'\<rparr>"
  shows "inbox_inv h ib'"
  using assms(5) assms(1-4) unfolding inbox_inv_def by auto

lemma inbox_inv_free:
  assumes "inbox_inv h ib" "ib_slot ib = Some sl" "Claimed (ms_ticket sl) \<in> set h \<Longrightarrow> \<exists>r. Finished (ms_ticket sl) r \<in> set h"
  shows "inbox_inv h (ib\<lparr>ib_slot := None\<rparr>)"
  using assms unfolding inbox_inv_def by auto

lemma inbox_submit_inv: "inbox_inv h ib \<Longrightarrow> inbox_inv h (snd (inbox_submit spec now ib))"
  unfolding inbox_submit_def Let_def
  by (fastforce simp: inbox_inv_def slot_ok_def event_ticket_def Let_def)

lemma inbox_claim_inv:
  assumes "inbox_inv h ib" "inbox_exec (Claim now) ib = (es, ib')"
  shows "inbox_inv (h @ es) ib'"
proof (cases "ib_slot ib")
  case None
  with assms show ?thesis by (simp add: inbox_claim_def)
next
  case (Some sl)
  have sl: "slot_ok h sl" "mt_serial (ms_ticket sl) < ib_serial ib" using assms(1) Some by (simp_all add: inbox_inv_def)
  consider (no) "ms_claimed sl \<or> ms_result sl \<noteq> None" | (late) "\<not> (ms_claimed sl \<or> ms_result sl \<noteq> None)" "ib_closed ib \<or> now \<ge> ms_deadline sl"
    | (go) "\<not> (ms_claimed sl \<or> ms_result sl \<noteq> None)" "\<not> (ib_closed ib \<or> now \<ge> ms_deadline sl)" by blast
  then show ?thesis
  proof cases
    case no
    with assms Some show ?thesis by (auto simp: inbox_claim_def)
  next
    case late
    then have "es = []" "ib' = ib\<lparr>ib_slot := Some (slot_cancel sl)\<rparr>" using assms(2) Some by (auto simp: inbox_claim_def)
    then show ?thesis using inbox_inv_slot [OF assms(1) Some _ slot_ok_cancel [OF sl(1)]] by simp
  next
    case go
    then have e: "es = [Claimed (ms_ticket sl)]" "ib' = ib\<lparr>ib_slot := Some (sl\<lparr>ms_claimed := True\<rparr>)\<rparr>"
      using assms(2) Some by (auto simp: inbox_claim_def)
    have no: "Taken (ms_ticket sl) r \<notin> set h" "Finished (ms_ticket sl) r \<notin> set h" for r
      using sl(1) go(1) by (auto simp: slot_ok_def Let_def)
    have "slot_ok (h @ es) (sl\<lparr>ms_claimed := True\<rparr>)" using sl(1) go(1) no e(1) by (auto simp: slot_ok_def Let_def)
    moreover have "\<forall>e \<in> set (h @ es). mt_serial (event_ticket e) < ib_serial ib'"
      using assms(1) sl(2) e by (auto simp: inbox_inv_def event_ticket_def)
    ultimately show ?thesis using assms(1) Some sl(2) no unfolding inbox_inv_def e by auto
  qed
qed

lemma inbox_finish_inv:
  assumes "inbox_inv h ib" "inbox_exec (Finish ticket result) ib = (es, ib')"
  shows "inbox_inv (h @ es) ib'"
proof (cases "\<exists>sl. ib_slot ib = Some sl \<and> ms_ticket sl = ticket \<and> ms_claimed sl \<and> ms_result sl = None")
  case False
  then have "es = []" "ib' = ib" using assms(2) by (auto simp: inbox_finish_def split: option.splits)
  with assms(1) show ?thesis by simp
next
  case True
  then obtain sl where s: "ib_slot ib = Some sl" "ms_ticket sl = ticket" "ms_claimed sl" "ms_result sl = None" by blast
  have sl: "slot_ok h sl" "mt_serial ticket < ib_serial ib" using assms(1) s by (auto simp: inbox_inv_def)
  have es: "es = [Finished ticket result]" using assms(2) s by (auto simp: inbox_finish_def Let_def split: if_splits)
  have ib': "ib_serial ib' = ib_serial ib" "ib_slot ib' = Some (sl\<lparr>ms_result := Some result\<rparr>) \<or> ib_slot ib' = None"
    "ib_closed ib \<longrightarrow> ib_closed ib'" "\<not> stop_known result \<longrightarrow> ib_closed ib'"
    using assms(2) s by (auto simp: inbox_finish_def stop_known_def Let_def split: if_splits)
  have ok: "slot_ok (h @ es) (sl\<lparr>ms_result := Some result\<rparr>)" using sl(1) s es by (auto simp: slot_ok_def Let_def)
  have "\<forall>e \<in> set (h @ es). mt_serial (event_ticket e) < ib_serial ib'"
    using assms(1) sl(2) es ib'(1) by (auto simp: inbox_inv_def event_ticket_def)
  moreover have "\<forall>t. Claimed t \<in> set (h @ es) \<and> (\<forall>sl. ib_slot ib' = Some sl \<longrightarrow> ms_ticket sl \<noteq> t) \<longrightarrow> (\<exists>r. Finished t r \<in> set (h @ es))"
    using assms(1) s es unfolding inbox_inv_def by (metis Un_iff inbox_event.distinct(1) list.set_intros(1) option.inject set_ConsD set_append empty_iff list.set(1))
  moreover have "\<forall>t r. Finished t r \<in> set (h @ es) \<and> \<not> stop_known r \<longrightarrow> ib_closed ib'"
    using assms(1) es ib'(3,4) by (auto simp: inbox_inv_def)
  moreover have "\<forall>sl'. ib_slot ib' = Some sl' \<longrightarrow> mt_serial (ms_ticket sl') < ib_serial ib' \<and> slot_ok (h @ es) sl'"
    using ib'(1,2) ok sl(2) s(2) by auto
  moreover have "\<forall>t r. Taken t r \<in> set (h @ es) \<longrightarrow> Finished t r \<in> set (h @ es) \<or> (r = cancelled_result \<and> Claimed t \<notin> set (h @ es))"
    using assms(1) es by (auto simp: inbox_inv_def)
  ultimately show ?thesis unfolding inbox_inv_def by blast
qed

lemma inbox_take_inv:
  assumes "inbox_inv h ib" "inbox_exec (Take ticket) ib = (es, ib')"
  shows "inbox_inv (h @ es) ib'"
proof (cases "\<exists>sl r. ib_slot ib = Some sl \<and> ms_ticket sl = ticket \<and> ms_result sl = Some r")
  case False
  then have "es = []" "ib' = ib" using assms(2) by (auto simp: inbox_take_def split: option.splits if_splits)
  with assms(1) show ?thesis by simp
next
  case True
  then obtain sl r where s: "ib_slot ib = Some sl" "ms_ticket sl = ticket" "ms_result sl = Some r" by blast
  have sl: "slot_ok h sl" "mt_serial ticket < ib_serial ib" using assms(1) s by (auto simp: inbox_inv_def)
  have e: "es = [Taken ticket r]" "ib' = ib\<lparr>ib_slot := None\<rparr>" using assms(2) s by (auto simp: inbox_take_def)
  have r: "Finished ticket r \<in> set h \<or> (r = cancelled_result \<and> Claimed ticket \<notin> set h)"
    using sl(1) s by (auto simp: slot_ok_def Let_def)
  have "inbox_inv h ib'" unfolding e using r s(2) sl(1)
    by (intro inbox_inv_free [OF assms(1) s(1)]) (auto simp: slot_ok_def Let_def)
  with r sl(2) show ?thesis unfolding inbox_inv_def e by (auto simp: event_ticket_def)
qed

lemma inbox_abandon_inv: "inbox_inv h ib \<Longrightarrow> inbox_inv h (inbox_abandon ticket ib)"
proof (cases "ib_slot ib")
  case (Some sl)
  assume inv: "inbox_inv h ib"
  let ?sl = "slot_cancel (sl\<lparr>ms_abandoned := True\<rparr>)"
  have ok: "slot_ok h sl" using inv Some by (simp add: inbox_inv_def)
  then have ok': "slot_ok h ?sl" by (auto simp: slot_ok_def Let_def)
  have "inbox_inv h (ib\<lparr>ib_slot := Some ?sl\<rparr>)" by (rule inbox_inv_slot [OF inv Some _ ok']) auto
  moreover have "inbox_inv h (ib\<lparr>ib_slot := None\<rparr>)" if "ms_result ?sl = Some r" for r
    using that ok by (intro inbox_inv_free [OF inv Some]) (auto simp: slot_ok_def Let_def split: if_splits)
  ultimately show ?thesis using inv Some by (auto simp: inbox_abandon_def Let_def split: option.splits)
qed (simp add: inbox_abandon_def)

lemma inbox_exec_inv:
  assumes "inbox_inv h ib" "inbox_exec op ib = (es, ib')"
  shows "inbox_inv (h @ es) ib'"
proof (cases op)
  case (Submit spec now)
  with assms show ?thesis using inbox_submit_inv [OF assms(1), of spec now] by auto
next
  case (Claim now)
  with assms inbox_claim_inv show ?thesis by blast
next
  case (Cancel ticket)
  then have es: "es = []" "ib' = snd (inbox_cancel ticket ib)" using assms(2) by auto
  show ?thesis
  proof (cases "ib_slot ib")
    case (Some sl)
    have "slot_ok h sl" using assms(1) Some by (simp add: inbox_inv_def)
    from inbox_inv_slot [OF assms(1) Some _ slot_ok_cancel [OF this]] assms(1) es Some show ?thesis by (simp add: inbox_cancel_def)
  qed (use assms(1) es in \<open>simp add: inbox_cancel_def\<close>)
next
  case (Abandon ticket)
  with assms show ?thesis using inbox_abandon_inv [OF assms(1), of ticket] by auto
next
  case (Finish ticket result)
  with assms inbox_finish_inv show ?thesis by blast
next
  case (Take ticket)
  with assms inbox_take_inv show ?thesis by blast
next
  case Shut
  then have es: "es = []" "ib' = inbox_close ib" using assms(2) by auto
  show ?thesis
  proof (cases "ib_slot ib")
    case (Some sl)
    have "slot_ok h sl" using assms(1) Some by (simp add: inbox_inv_def)
    from inbox_inv_slot [OF assms(1) Some _ slot_ok_cancel [OF this]] es Some show ?thesis by (simp add: inbox_close_def)
  qed (use assms(1) es in \<open>auto simp: inbox_close_def inbox_inv_def\<close>)
qed

lemma inbox_history_inv: "inbox_history h ib \<Longrightarrow> inbox_inv h ib"
proof (induction rule: inbox_history.induct)
  case (fresh generation ib)
  then show ?case by (auto simp: inbox_init_def inbox_inv_def split: if_splits)
next
  case (step h ib op es ib')
  then show ?case by (blast intro: inbox_exec_inv)
qed

text \<open>
  C10. One gesture at a time. Whatever callers and worker do, when the worker is handed a
  ticket it was never handed before, and every gesture handed out earlier has been
  finished by the worker with its stop known: either START was not attempted or the
  RELEASE was confirmed. Cancelling, abandoning, closing or reading a result never frees
  the slot of a gesture that may still be moving.
\<close>
theorem motion_one_at_a_time:
  assumes "inbox_history (h1 @ Claimed t # h2) ib"
  shows "Claimed t \<notin> set h1 \<and> (\<forall>t'. Claimed t' \<in> set h1 \<longrightarrow>
    (\<exists>r. Finished t' r \<in> set h1 \<and> (sr_start_attempted r \<longrightarrow> sr_release_delivery_confirmed r)))"
  using assms
proof (induction "h1 @ Claimed t # h2" ib arbitrary: h2 rule: inbox_history.induct)
  case (step h ib op es ib')
  note inv = inbox_history_inv [OF step.hyps(1)]
  consider (old) h2' where "h = h1 @ Claimed t # h2'" | (new) now where "h = h1" "op = Claim now" "es = [Claimed t]"
  proof -
    obtain us where "h @ us = h1 \<and> es = us @ Claimed t # h2 \<or> h = h1 @ us \<and> us @ es = Claimed t # h2"
      using step.hyps(4) by (auto simp: append_eq_append_conv2)
    moreover have "length es \<le> 1" "Claimed t \<in> set es \<longrightarrow> (\<exists>now. op = Claim now)"
      using step.hyps(3) by (cases op; auto split: prod.splits option.splits if_splits)+
    ultimately show ?thesis using that by (cases us) (auto simp: Cons_eq_append_conv)
  qed
  then show ?case
  proof cases
    case old
    then show ?thesis by (rule step.hyps(2))
  next
    case (new now)
    then obtain sl where sl: "ib_slot ib = Some sl" "ms_ticket sl = t" "\<not> ms_claimed sl" "\<not> ib_closed ib"
      using step.hyps(3) by (auto simp: inbox_claim_def split: option.splits if_splits)
    have "Claimed t \<notin> set h" using inv sl by (auto simp: inbox_inv_def slot_ok_def Let_def)
    moreover have "\<exists>r. Finished t' r \<in> set h \<and> stop_known r" if "Claimed t' \<in> set h" for t'
      using inv that calculation sl unfolding inbox_inv_def by (metis option.inject)
    ultimately show ?thesis using new(1) by (auto simp: stop_known_def)
  qed
qed simp

text \<open>
  A caller reads no outcome but the worker's: a result read for a ticket is the one
  the worker finished it with, or the cancellation of a gesture that the worker never got.
\<close>
theorem motion_result_honest:
  assumes "inbox_history h ib" "Taken t r \<in> set h"
  shows "Finished t r \<in> set h \<or> (Claimed t \<notin> set h \<and> \<not> sr_start_attempted r \<and> sr_release_attempts r = 0)"
proof -
  have "Finished t r \<in> set h \<or> (r = cancelled_result \<and> Claimed t \<notin> set h)"
    using inbox_history_inv [OF assms(1)] assms(2) unfolding inbox_inv_def by blast
  then show ?thesis by (auto simp: cancelled_result_def)
qed

definition demo_inbox :: ptz_inbox where
  "demo_inbox = \<lparr>ib_generation = 1, ib_serial = 0, ib_closed = False, ib_slot = None\<rparr>"

definition demo_done :: scheduled_result where
  "demo_done = \<lparr>sr_reason = ''released'', sr_start_attempted = True, sr_release_attempts = 1,
     sr_release_delivery_confirmed = True, sr_send_failed = False\<rparr>"

lemma demo_history:
  "\<exists>ib. inbox_history [Claimed \<lparr>mt_generation = 1, mt_serial = 0\<rparr>, Finished \<lparr>mt_generation = 1, mt_serial = 0\<rparr> demo_done,
     Taken \<lparr>mt_generation = 1, mt_serial = 0\<rparr> demo_done, Claimed \<lparr>mt_generation = 1, mt_serial = 1\<rparr>] ib"
proof -
  let ?t = "\<lparr>mt_generation = 1, mt_serial = 0\<rparr>"
  have ok: "gesture_spec_ok demo_spec" by (simp add: gesture_spec_ok_def demo_spec_def DIRECTIONS_def)
  note h0 = inbox_history.fresh [of 1 demo_inbox]
  note h1 = inbox_history.step [of "[]" demo_inbox "Submit demo_spec 0"]
  obtain i1 where 1: "inbox_history [] i1" "i1 = snd (inbox_submit demo_spec 0 demo_inbox)"
    using h0 h1 by (auto simp: inbox_init_def demo_inbox_def)
  obtain i2 where 2: "inbox_history [Claimed ?t] i2" "i2 = snd (inbox_claim 0 i1)"
    using inbox_history.step [OF 1(1), of "Claim 0"] 1(2) ok
    by (auto simp: inbox_submit_def inbox_claim_def demo_inbox_def Let_def)
  obtain i3 where 3: "inbox_history [Claimed ?t, Finished ?t demo_done] i3" "i3 = snd (inbox_finish ?t demo_done i2)"
    using inbox_history.step [OF 2(1), of "Finish ?t demo_done"] 1(2) 2(2) ok
    by (auto simp: inbox_submit_def inbox_claim_def inbox_finish_def demo_inbox_def demo_done_def Let_def)
  obtain i4 where 4: "inbox_history [Claimed ?t, Finished ?t demo_done, Taken ?t demo_done] i4" "i4 = snd (inbox_take ?t i3)"
    using inbox_history.step [OF 3(1), of "Take ?t"] 1(2) 2(2) 3(2) ok
    by (auto simp: inbox_submit_def inbox_claim_def inbox_finish_def inbox_take_def demo_inbox_def demo_done_def Let_def)
  have i4: "i4 = demo_inbox\<lparr>ib_serial := 1\<rparr>"
    unfolding 1(2) 2(2) 3(2) 4(2) using ok
    by (simp add: inbox_submit_def inbox_claim_def inbox_finish_def inbox_take_def demo_inbox_def demo_done_def Let_def)
  obtain i5 where 5: "inbox_history [Claimed ?t, Finished ?t demo_done, Taken ?t demo_done] i5" "i5 = snd (inbox_submit demo_spec 0 i4)"
    using inbox_history.step [OF 4(1), of "Submit demo_spec 0"] by auto
  from inbox_history.step [OF 5(1), of "Claim 0"] 5(2) i4 ok show ?thesis
    by (auto simp: inbox_submit_def inbox_claim_def demo_inbox_def Let_def)
qed

theorem motion_one_at_a_time_witness:
  "\<exists>h1 ib. inbox_history (h1 @ Claimed \<lparr>mt_generation = 1, mt_serial = 1\<rparr> # []) ib \<and>
     Claimed \<lparr>mt_generation = 1, mt_serial = 0\<rparr> \<in> set h1 \<and>
     (\<exists>r. Finished \<lparr>mt_generation = 1, mt_serial = 0\<rparr> r \<in> set h1)"
proof -
  let ?t = "\<lparr>mt_generation = 1, mt_serial = 0\<rparr>"
  let ?h = "[Claimed ?t, Finished ?t demo_done, Taken ?t demo_done]"
  obtain ib where "inbox_history (?h @ Claimed \<lparr>mt_generation = 1, mt_serial = 1\<rparr> # []) ib" using demo_history by auto
  with motion_one_at_a_time [OF this] show ?thesis by (intro exI [of _ ?h] exI [of _ ib]) auto
qed

theorem motion_result_honest_witness:
  "\<exists>h ib. inbox_history h ib \<and> Taken \<lparr>mt_generation = 1, mt_serial = 0\<rparr> demo_done \<in> set h \<and>
     Finished \<lparr>mt_generation = 1, mt_serial = 0\<rparr> demo_done \<in> set h"
proof -
  let ?t = "\<lparr>mt_generation = 1, mt_serial = 0\<rparr>"
  obtain h ib where h: "inbox_history h ib" "Taken ?t demo_done \<in> set h" using demo_history by (metis list.set_intros)
  from motion_result_honest [OF this] h show ?thesis by (auto simp: demo_done_def)
qed

section \<open>Owners and the blocking gesture\<close>

record ptz_owners =
  ow_limit :: nat
  ow_active :: "string list"

definition owners_init :: "int \<Rightarrow> exn + ptz_owners" where
  "owners_init limit =
     (if \<not> (1 \<le> limit \<and> limit \<le> 8) then Inl (ValueError ''PTZ owner limit must be 1..8'')
      else Inr \<lparr>ow_limit = nat limit, ow_active = []\<rparr>)"

definition owners_enter :: "string \<Rightarrow> ptz_owners \<Rightarrow> (exn + unit) \<times> ptz_owners" where
  "owners_enter camera_id ow =
     (if camera_id = [] then (Inl (ValueError ''camera identity is required''), ow)
      else if camera_id \<in> set (ow_active ow) \<or> length (ow_active ow) \<ge> ow_limit ow
      then (Inl (PtzBusy ''native PTZ camera/session capacity is busy''), ow)
      else (Inr (), ow\<lparr>ow_active := ow_active ow @ [camera_id]\<rparr>))"

definition owners_exit :: "string \<Rightarrow> ptz_owners \<Rightarrow> ptz_owners" where
  "owners_exit camera_id ow = ow\<lparr>ow_active := remove1 camera_id (ow_active ow)\<rparr>"

definition owners_ok :: "ptz_owners \<Rightarrow> bool" where
  "owners_ok ow \<longleftrightarrow> distinct (ow_active ow) \<and> length (ow_active ow) \<le> ow_limit ow \<and> ow_limit ow \<le> 8"

lemma owners_ok_init: "owners_init limit = Inr ow \<Longrightarrow> owners_ok ow"
  by (auto simp: owners_init_def owners_ok_def split: if_splits)

lemma owners_ok_enter: "owners_ok ow \<Longrightarrow> owners_ok (snd (owners_enter camera_id ow))"
  by (auto simp: owners_enter_def owners_ok_def)

lemma owners_ok_exit: "owners_ok ow \<Longrightarrow> owners_ok (owners_exit camera_id ow)"
  by (auto simp: owners_exit_def owners_ok_def length_remove1 intro: le_trans)

lemma owners_exclusive: "camera_id \<in> set (ow_active ow) \<Longrightarrow> \<exists>e. fst (owners_enter camera_id ow) = Inl e"
  by (simp add: owners_enter_def)

text \<open>
  \<^verbatim>\<open>PtzMotion.run\<close>: the outcomes of the route's calls are inputs. A try has the name of the
  exception \<open>send_release\<close> raised, if any, what \<open>confirm_release\<close> did, and the clock after it.
\<close>

record route_try =
  ry_send :: "string option"
  ry_confirm :: "string + bool"
  ry_clock :: time

record motion_result =
  mr_start_attempted :: bool
  mr_cancelled :: bool
  mr_release_attempts :: nat
  mr_release_delivery_confirmed :: bool
  mr_error_types :: "string list"

definition fallback_allowed :: "motion_result \<Rightarrow> bool" where
  "fallback_allowed r \<longleftrightarrow> \<not> mr_start_attempted r \<and> \<not> mr_cancelled r"

record ptz_motion =
  mo_duration :: time
  mo_used :: bool

definition motion_init :: "time \<Rightarrow> exn + ptz_motion" where
  "motion_init duration =
     (if \<not> (1 / 10 \<le> duration \<and> duration \<le> 1 / 2)
      then Inl (ValueError ''native PTZ gesture must be 0.10..0.50 seconds'')
      else Inr \<lparr>mo_duration = duration, mo_used = False\<rparr>)"

fun release_tries :: "time \<Rightarrow> route_try list \<Rightarrow> nat \<times> bool \<times> string list" where
  "release_tries deadline [] = (0, False, [])"
| "release_tries deadline (y # ys) =
     (let (confirmed, errors) = (case ry_send y of Some e \<Rightarrow> (False, [e])
            | None \<Rightarrow> (case ry_confirm y of Inl e \<Rightarrow> (False, [e]) | Inr b \<Rightarrow> (b, [])))
      in if confirmed \<or> ry_clock y \<ge> deadline then (1, confirmed, errors)
         else case release_tries deadline ys of (n, c, es) \<Rightarrow> (n + 1, c, errors @ es))"

definition motion_run ::
  "bool \<Rightarrow> string option \<Rightarrow> time \<Rightarrow> route_try \<times> route_try \<times> route_try \<Rightarrow> string option \<Rightarrow> bool \<Rightarrow>
   ptz_motion \<Rightarrow> (exn + motion_result) \<times> ptz_motion"
where
  "motion_run stopped start_raises now tries close_raises stopped_after m =
     (if mo_used m then (Inl (PtzBusy ''gesture has already been claimed''), m)
      else let m = m\<lparr>mo_used := True\<rparr>;
               opt = (\<lambda>e. case e of None \<Rightarrow> [] | Some x \<Rightarrow> [x]);
               (started, attempts, confirmed, errors) =
                 (if stopped then (False, 0, False, [])
                  else case tries of (y1, y2, y3) \<Rightarrow>
                    (case release_tries (now + 2) [y1, y2, y3] of (n, c, es) \<Rightarrow> (True, n, c, opt start_raises @ es)))
           in (Inr \<lparr>mr_start_attempted = started, mr_cancelled = stopped \<or> stopped_after,
                    mr_release_attempts = attempts, mr_release_delivery_confirmed = confirmed,
                    mr_error_types = errors @ opt close_raises\<rparr>, m))"

lemma release_tries_bounds:
  "ys \<noteq> [] \<Longrightarrow> release_tries deadline ys = (n, c, es) \<Longrightarrow> 1 \<le> n \<and> n \<le> length ys \<and>
     (c \<longrightarrow> ry_send (ys ! (n - 1)) = None \<and> ry_confirm (ys ! (n - 1)) = Inr True)"
proof (induction deadline ys arbitrary: n c es rule: release_tries.induct)
  case (2 deadline y ys)
  let ?o = "(case ry_send y of Some e \<Rightarrow> (False, [e]) | None \<Rightarrow> (case ry_confirm y of Inl e \<Rightarrow> (False, [e]) | Inr b \<Rightarrow> (b, [])))"
  obtain d er where o: "?o = (d, er)" by fastforce
  then have d: "d \<longrightarrow> ry_send y = None \<and> ry_confirm y = Inr True" by (auto split: option.splits sum.splits)
  show ?case
  proof (cases "d \<or> ry_clock y \<ge> deadline")
    case True
    with "2.prems"(2) o d show ?thesis by simp
  next
    case False
    obtain n' c' es' where r: "release_tries deadline ys = (n', c', es')" using prod_cases3 by blast
    with "2.prems"(2) o False have n: "n = n' + 1" "c = c'" by simp_all
    show ?thesis
    proof (cases "ys = []")
      case True
      with r n show ?thesis by simp
    next
      case ys: False
      with "2.IH" [OF o [symmetric] refl False ys r] n show ?thesis by (auto simp: nth_Cons')
    qed
  qed
qed simp

text \<open>
  Once START was attempted, even when sending it raised, RELEASE is attempted one to three
  times; a gesture is used once; another transport may be tried only when nothing was sent
  and nobody asked to stop.
\<close>

lemma motion_run_releases:
  assumes "motion_run stopped start_raises now (y1, y2, y3) close_raises stopped_after m = (Inr r, m')"
  shows "mo_used m' \<and> (mr_start_attempted r \<longleftrightarrow> \<not> stopped) \<and>
    (mr_start_attempted r \<longrightarrow> 1 \<le> mr_release_attempts r \<and> mr_release_attempts r \<le> 3) \<and>
    (mr_release_delivery_confirmed r \<longrightarrow> mr_start_attempted r) \<and> \<not> fallback_allowed r"
proof -
  obtain n c es where r: "release_tries (now + 2) [y1, y2, y3] = (n, c, es)" using prod_cases3 by blast
  from release_tries_bounds [OF _ r] have "1 \<le> n" "n \<le> 3" by simp_all
  with assms r show ?thesis by (auto simp: motion_run_def fallback_allowed_def Let_def split: if_splits)
qed

end
