(* ===== verification/ModelProtocol.thy ===== *)
theory ModelProtocol
  imports AccessProtocol
begin

text \<open>
  The property ("thing model") codec: reads, replies and reports of \<^verbatim>\<open>model_protocol.py\<close>,
  scalar writes of \<^verbatim>\<open>model_write_protocol.py\<close>, correlation of replies of
  \<^verbatim>\<open>broker_model_reply.py\<close> and the siren action of \<^verbatim>\<open>siren.py\<close> with its evidence
  (\<^verbatim>\<open>siren_evidence.py\<close>). \<open>json_loads\<close> is the decoder of the standard library; it gives
  None where decoding raises. Random draws are arguments.
\<close>

section \<open>Reads\<close>

definition MODEL_READ_PATHS :: "string list" where
  "MODEL_READ_PATHS = [''ProConst._productInfo'', ''ProConst._versionInfo'', ''ProConst.devFuncCfg'', ''ProConst.devFunCode'',
     ''ProReadonly._online'', ''ProReadonly.sysVer'', ''ProReadonly.connectInfo'', ''ProReadonly.power'',
     ''ProReadonly.simCard'', ''ProReadonly.devInfo'', ''ProReadonly.tfInfo'', ''ProReadonly.aiModeDownL'',
     ''ProWritable._almEvtSetting'', ''ProWritable._otaMode'', ''ProWritable.timeZone'', ''ProWritable.onvifEn'',
     ''ProWritable.recordParm'', ''ProWritable.guardParm'', ''ProWritable.videoParm'', ''ProWritable.csVideoRes'',
     ''ProWritable.nightViewModeV2'', ''ProWritable.motionZone'', ''ProWritable.workMode'', ''ProWritable.pressKeyCall'',
     ''ProWritable.screenSwitch'', ''ProWritable.antiFlickerSwitch'', ''ProWritable.volume'', ''ProWritable.indicatorLight'',
     ''ProWritable.audioMode'', ''ProWritable.whiteLightPlan'', ''ProWritable.autoWhiteLight'', ''ProWritable.autoWorkMode'',
     ''ProWritable.resFile'', ''ProWritable.whiteLightCtrl'', ''ProWritable.zoomFocusW'', ''Action.whiteLightCtrl'',
     ''Action.expelCtrl'', ''Action.laserCtrl'', ''Action.ptzCheck'', ''Action.zoomFocusA'']"

definition build_model_read :: "certified_node \<Rightarrow> int \<Rightarrow> string \<Rightarrow> int \<Rightarrow> int \<Rightarrow> nat \<Rightarrow> exn + bytes" where
  "build_model_read node device_id path sequence message_id rand15 =
     (if path \<notin> set MODEL_READ_PATHS then Inl (ValueError ''thing-model path is not in the read-only allowlist'')
      else bind_res (new_header 0xB7 (0x26 + length path + 1) (cn_session_id node) sequence
                       (int (randomized_flags rand15 2 3 0))) (\<lambda>frame.
             bind_res (pack_fields [(8, 0x18, device_id), (4, 0x20, int (mask_int 31 message_id)), (2, 0x24, int (length path))]
                         (put frame 0 [0x7E])) (\<lambda>frame.
               finish_mode2 (put frame 0x26 (ascii path)) (cn_session_key node))))"

definition reply_correlated :: "bytes \<Rightarrow> int \<Rightarrow> bool" where
  "reply_correlated frame request_sequence \<longleftrightarrow>
     (frame ! 0 = 0x7E \<or> frame ! 0 = 0x7F) \<and> u16_at frame 2 = length frame \<and> bit (u32_at frame 0x14) 21 \<and>
     \<not> bit (u32_at frame 0x14) 20 \<and> u32_at frame 0x10 = mask_int 32 request_sequence"

definition parse_model_read_response ::
  "json_decoder \<Rightarrow> bytes \<Rightarrow> int \<Rightarrow> int option \<Rightarrow> (nat \<times> json) option"
where
  "parse_model_read_response json_loads frame device_id request_sequence =
     (if length frame < 0x26 \<or> frame ! 1 \<noteq> 0xB8 then None
      else if (case request_sequence of None \<Rightarrow> False | Some sequence \<Rightarrow> \<not> reply_correlated frame sequence) then None
      else if int (u64_at frame 0x18) \<noteq> device_id then None
      else let error_code = u16_at frame 0x24
      in if frame ! 0x20 AND 1 = 0 then Some (error_code, JNull)
      else if length frame < 0x28 then None
      else let json_length = u16_at frame 0x26
      in if 0x28 + json_length > length frame then None
      else case json_loads (pyslice frame 0x28 (0x28 + json_length)) of
        None \<Rightarrow> None
      | Some value \<Rightarrow> Some (error_code, value))"

definition rstrip_nul :: "bytes \<Rightarrow> bytes" where
  "rstrip_nul bs = rev (dropWhile (\<lambda>b. b = 0) (rev bs))"

text \<open>\<open>decode\<close> is the UTF-8 decoder.\<close>

definition parse_model_report ::
  "(bytes \<Rightarrow> string option) \<Rightarrow> json_decoder \<Rightarrow> bytes \<Rightarrow> (nat option \<times> string \<times> json) option"
where
  "parse_model_report decode json_loads frame =
     (if length frame < 0x22 \<or> frame ! 1 \<noteq> 0xAA then None
      else let options = u16_at frame 0x1C; path_length = unat (frame ! 0x1F) + 1; json_length = u16_at frame 0x20 + 1
      in if bit options 0 \<and> 0x22 + 8 > length frame then None
      else let destination = (if bit options 0 then Some (u64_at frame 0x22) else None);
               cursor = (if bit options 0 then 0x22 + 8 else 0x22)
      in if cursor + path_length + json_length > length frame then None
      else let encoded_path = rstrip_nul (pyslice frame cursor (cursor + path_length));
               encoded_json = rstrip_nul (pyslice frame (cursor + path_length) (cursor + path_length + json_length))
      in case (decode encoded_path, json_loads encoded_json) of
        (Some path, Some value) \<Rightarrow> if path \<noteq> [] then Some (destination, path, value) else None
      | _ \<Rightarrow> None)"

section \<open>Bounded values\<close>

fun json_children :: "json \<Rightarrow> json list" where
  "json_children (JObj ps) = map snd ps"
| "json_children (JList xs) = xs"
| "json_children v = []"

fun nodes :: "json \<Rightarrow> nat" where
  "nodes (JList xs) = Suc (\<Sum>x\<leftarrow>xs. nodes x)"
| "nodes (JObj ps) = Suc (\<Sum>p\<leftarrow>ps. nodes (snd p))"
| "nodes v = 1"

lemma nodes_children: "nodes v = Suc (\<Sum>x\<leftarrow>json_children v. nodes x)"
  by (cases v) (simp_all add: comp_def)

text \<open>The work list of \<^verbatim>\<open>_bounded_value\<close>, its top first.\<close>

function bounded_loop :: "nat \<Rightarrow> (json \<times> nat) list \<Rightarrow> bool" where
  "bounded_loop visited [] = True"
| "bounded_loop visited ((item, depth) # pending) =
     (let visited = visited + 1; children = json_children item
      in if depth > 16 \<or> visited > 256 then False
      else if length pending + length children > 256 then False
      else bounded_loop visited (rev (map (\<lambda>child. (child, depth + 1)) children) @ pending))"
  by pat_completeness auto
termination
proof (relation "measure (\<lambda>(visited, pending). \<Sum>(v, d)\<leftarrow>pending. nodes v)", goal_cases)
  case (2 visited item depth pending x xa)
  have "(\<Sum>(v, d)\<leftarrow>rev (map (\<lambda>child. (child, depth + 1)) (json_children item)). nodes v) = (\<Sum>x\<leftarrow>json_children item. nodes x)"
    by (simp add: rev_map [symmetric] sum_list_rev comp_def split_def)
  then show ?case using 2 nodes_children [of item] by simp
qed simp

definition bounded_value :: "json \<Rightarrow> bool" where
  "bounded_value value = bounded_loop 0 [(value, 0)]"

text \<open>What it decides: at most 256 values, nested at most 16 deep.\<close>

fun json_depth :: "json \<Rightarrow> nat" where
  "json_depth (JList xs) = foldr (\<lambda>x. max (Suc (json_depth x))) xs 0"
| "json_depth (JObj ps) = foldr (\<lambda>p. max (Suc (json_depth (snd p)))) ps 0"
| "json_depth v = 0"

lemma foldr_max_le: "foldr (\<lambda>x. max (Suc (f x))) xs 0 \<le> n \<longleftrightarrow> (\<forall>x \<in> set xs. Suc (f x) \<le> n)"
  by (induction xs) auto

lemma json_depth_children: "json_depth v \<le> n \<longleftrightarrow> (\<forall>x \<in> set (json_children v). Suc (json_depth x) \<le> n)"
  by (cases v) (simp_all add: foldr_max_le)

definition pending_nodes :: "(json \<times> nat) list \<Rightarrow> nat" where
  "pending_nodes pending = (\<Sum>(v, d)\<leftarrow>pending. nodes v)"

lemma pending_nodes_simps [simp]:
  "pending_nodes [] = 0" "pending_nodes ((v, d) # pending) = nodes v + pending_nodes pending"
  "pending_nodes (xs @ ys) = pending_nodes xs + pending_nodes ys"
  "pending_nodes (rev (map (\<lambda>child. (child, n)) cs)) = (\<Sum>x\<leftarrow>cs. nodes x)"
  by (simp_all add: pending_nodes_def rev_map [symmetric] sum_list_rev comp_def split_def)

lemma nodes_pos: "0 < nodes v"
  by (cases v) simp_all

lemma length_le_nodes: "length xs \<le> (\<Sum>x\<leftarrow>xs. nodes x)"
proof (induction xs)
  case (Cons x xs)
  then show ?case using nodes_pos [of x] by simp
qed simp

lemma length_le_pending: "length xs \<le> pending_nodes xs"
  unfolding pending_nodes_def using length_le_nodes [of "map fst xs"] by (simp add: comp_def split_def)

definition pending_shallow :: "(json \<times> nat) list \<Rightarrow> bool" where
  "pending_shallow pending \<longleftrightarrow> (\<forall>(v, d) \<in> set pending. d + json_depth v \<le> 16)"

lemma pending_shallow_Cons:
  "pending_shallow ((v, d) # pending) \<longleftrightarrow>
     d \<le> 16 \<and> pending_shallow (rev (map (\<lambda>child. (child, d + 1)) (json_children v)) @ pending)"
proof -
  have "d + json_depth v \<le> 16 \<longleftrightarrow> d \<le> 16 \<and> (\<forall>x \<in> set (json_children v). Suc d + json_depth x \<le> 16)"
    using json_depth_children [of v "16 - d"] by (cases "d \<le> 16") auto
  then show ?thesis by (simp add: pending_shallow_def ball_Un)
qed

lemma bounded_loop_spec:
  "bounded_loop visited pending \<longleftrightarrow> (pending = [] \<or> visited + pending_nodes pending \<le> 256) \<and> pending_shallow pending"
proof (induction visited pending rule: bounded_loop.induct)
  case (1 visited)
  show ?case by (simp add: pending_shallow_def)
next
  case (2 visited item depth pending)
  let ?cs = "json_children item" let ?p = "rev (map (\<lambda>child. (child, depth + 1)) ?cs) @ pending"
  define c where "c = (\<Sum>x\<leftarrow>?cs. nodes x)"
  have n: "nodes item = Suc c" "pending_nodes ?p = c + pending_nodes pending" by (simp_all add: c_def nodes_children [of item])
  have len: "length ?cs \<le> c" "length pending \<le> pending_nodes pending"
    using length_le_nodes [of ?cs] length_le_pending [of pending] by (simp_all add: c_def)
  consider (deep) "depth > 16" | (many) "depth \<le> 16" "Suc visited > 256 \<or> length pending + length ?cs > 256"
    | (go) "depth \<le> 16" "Suc visited \<le> 256" "length pending + length ?cs \<le> 256" by linarith
  then show ?case
  proof cases
    case deep
    then show ?thesis by (simp add: pending_shallow_Cons)
  next
    case many
    then have "\<not> visited + pending_nodes ((item, depth) # pending) \<le> 256" using len n(1) by simp linarith
    moreover have "\<not> bounded_loop visited ((item, depth) # pending)" using many by (auto simp: Let_def)
    ultimately show ?thesis by simp
  next
    case go
    then have "bounded_loop visited ((item, depth) # pending) = bounded_loop (visited + 1) ?p" by (simp add: Let_def)
    also have "\<dots> \<longleftrightarrow> (?p = [] \<or> visited + 1 + pending_nodes ?p \<le> 256) \<and> pending_shallow ?p"
      by (rule "2.IH" [OF refl refl]) (use go in simp_all)
    also have "\<dots> \<longleftrightarrow> visited + 1 + pending_nodes ?p \<le> 256 \<and> pending_shallow ?p"
      using go(2) by (cases "?p = []") auto
    finally show ?thesis unfolding pending_shallow_Cons using go(1) n by simp
  qed
qed

lemma bounded_value_iff: "bounded_value v \<longleftrightarrow> nodes v \<le> 256 \<and> json_depth v \<le> 16"
  by (simp add: bounded_value_def bounded_loop_spec pending_shallow_def)

section \<open>Correlated replies\<close>

definition MAX_REPLY_BYTES :: nat where "MAX_REPLY_BYTES = 4096"

record correlated_model_reply =
  cm_ticket :: receipt_ticket
  cm_error_code :: nat
  cm_value :: json

definition match_model_reply ::
  "json_decoder \<Rightarrow> bytes \<Rightarrow> receipt_ticket \<Rightarrow> int \<Rightarrow> int \<Rightarrow> int \<Rightarrow> correlated_model_reply option"
where
  "match_model_reply json_loads plain ticket generation session_id device_id =
     (if generation \<noteq> rt_generation ticket \<or> rt_kind ticket \<noteq> 0xB7 \<or>
         \<not> (0x26 \<le> length plain \<and> length plain \<le> MAX_REPLY_BYTES) \<or>
         int (u64_at plain 4) \<noteq> session_id \<or> drop_bit 16 (u32_at plain 20) AND 3 \<noteq> 2 then None
      else case parse_model_read_response json_loads plain device_id (Some (rt_sequence ticket)) of
        None \<Rightarrow> None
      | Some (error, value) \<Rightarrow>
          if \<not> bounded_value value then None
          else Some \<lparr>cm_ticket = ticket, cm_error_code = error, cm_value = value\<rparr>)"

section \<open>Writes\<close>

datatype scalar = SInt int | SStr string

definition hex_char :: "nat \<Rightarrow> char" where
  "hex_char n = (if n < 10 then char_of (48 + n) else char_of (87 + n))"

text \<open>\<^verbatim>\<open>json.dumps\<close> of a scalar with \<^verbatim>\<open>ensure_ascii\<close>; characters are code points below 256.\<close>

definition json_escape :: "char \<Rightarrow> string" where
  "json_escape c =
     (let n = of_char c :: nat
      in if n = 34 then [CHR 0x5C, CHR 0x22] else if n = 92 then [CHR 0x5C, CHR 0x5C]
         else if n = 10 then [CHR 0x5C] @ ''n'' else if n = 13 then [CHR 0x5C] @ ''r'' else if n = 9 then [CHR 0x5C] @ ''t''
         else if n = 8 then [CHR 0x5C] @ ''b'' else if n = 12 then [CHR 0x5C] @ ''f''
         else if 32 \<le> n \<and> n \<le> 126 then [c]
         else [CHR 0x5C] @ ''u00'' @ [hex_char (n div 16), hex_char (n mod 16)])"

fun json_dumps :: "scalar \<Rightarrow> string" where
  "json_dumps (SInt i) = show_int i"
| "json_dumps (SStr s) = [CHR 0x22] @ concat (map json_escape s) @ [CHR 0x22]"

definition has_infix :: "'a list \<Rightarrow> 'a list \<Rightarrow> bool" where
  "has_infix pat s \<longleftrightarrow> (\<exists>i \<in> {0..length s}. take (length pat) (drop i s) = pat)"

definition action_body :: "int \<Rightarrow> int \<Rightarrow> string \<Rightarrow> string \<Rightarrow> nat \<Rightarrow> bytes \<Rightarrow> exn + bytes" where
  "action_body message_id device_id path value kind frame =
     bind_res (pack_fields [(4, 0x20, int (mask_int 31 message_id)), (2, 0x24, 1), (1, 0x26, int kind),
                            (1, 0x27, int (length path)), (2, 0x28, int (length value)), (8, 0x2A, device_id)] frame) (\<lambda>frame.
       Inr (put (put frame 0x32 (ascii path)) (0x32 + length path + 1) (ascii value)))"

definition write_frame :: "certified_node \<Rightarrow> int \<Rightarrow> string \<Rightarrow> string \<Rightarrow> int \<Rightarrow> int \<Rightarrow> nat \<Rightarrow> exn + bytes" where
  "write_frame node device_id path encoded_json sequence message_id rand15 =
     bind_res (new_header 0xD2 (0x2A + 8 + length path + 1 + length encoded_json + 1) (cn_session_id node) sequence
                 (int (randomized_flags rand15 2 3 0))) (\<lambda>frame.
       bind_res (action_body message_id device_id path encoded_json 7 (put (put frame 0 [0x7E]) 0x18 [2])) (\<lambda>frame.
         finish_mode2 frame (cn_session_key node)))"

definition build_model_write :: "certified_node \<Rightarrow> int \<Rightarrow> string \<Rightarrow> scalar \<Rightarrow> int \<Rightarrow> int \<Rightarrow> nat \<Rightarrow> exn + bytes" where
  "build_model_write node device_id path value sequence message_id rand15 =
     (if take 12 path \<noteq> ''ProWritable.'' \<or> \<not> has_infix ''.setVal'' path
      then Inl (ValueError ''model write path must be a writable setVal leaf'')
      else let encoded_json = json_dumps value
      in if length path > 0xFF \<or> length encoded_json > 0xFFFF
      then Inl (ValueError ''model write path or value exceeds the wire format'')
      else write_frame node device_id path encoded_json sequence message_id rand15)"

definition parse_action_code :: "byte \<Rightarrow> bytes \<Rightarrow> int \<Rightarrow> nat option" where
  "parse_action_code kind frame message_id =
     (if length frame < 0x36 \<or> frame ! 1 \<noteq> kind then None
      else if int (u32_at frame 0x30) \<noteq> message_id then None
      else Some (u16_at frame 0x34))"

definition parse_model_write_response :: "bytes \<Rightarrow> int \<Rightarrow> nat option" where
  "parse_model_write_response = parse_action_code 0xD3"

section \<open>The siren action\<close>

definition SIREN_READ_PATH :: string where "SIREN_READ_PATH = ''Action.expelCtrl''"
definition SIREN_ACTION_PATH :: string where "SIREN_ACTION_PATH = ''Action.expelCtrl.stVal''"
definition SIREN_OFF :: int where "SIREN_OFF = 1"
definition SIREN_ON :: int where "SIREN_ON = 2"

definition build_siren_action :: "certified_node \<Rightarrow> int \<Rightarrow> int \<Rightarrow> bool \<Rightarrow> int \<Rightarrow> int \<Rightarrow> nat \<Rightarrow> exn + bytes" where
  "build_siren_action node access_id device_id enabled sequence message_id rand15 =
     (let encoded_json = show_int (if enabled then SIREN_ON else SIREN_OFF)
      in bind_res (new_header 0xAC (0x2A + 8 + length SIREN_ACTION_PATH + 1 + length encoded_json + 1) (cn_session_id node) sequence
                     (int (randomized_flags rand15 2 3 0))) (\<lambda>frame.
           bind_res (pack_fields [(8, 0x18, access_id)] (put frame 0 [0x7E])) (\<lambda>frame.
             bind_res (action_body message_id device_id SIREN_ACTION_PATH encoded_json 3 frame) (\<lambda>frame.
               finish_mode2 frame (cn_session_key node)))))"

definition parse_siren_action_response :: "bytes \<Rightarrow> int \<Rightarrow> nat option" where
  "parse_siren_action_response = parse_action_code 0xAD"

definition siren_state :: "json \<Rightarrow> int option" where
  "siren_state value =
     (case (obj_get value ''t'', obj_get value ''stVal'') of
        (Some (JInt timestamp), Some (JInt state)) \<Rightarrow>
          if \<not> (0 < timestamp \<and> timestamp \<le> 0x7FFFFFFF) \<or> state \<notin> {1, 2} then None else Some state
      | _ \<Rightarrow> None)"

section \<open>Built requests\<close>

text \<open>A frame that keeps what \<^const>\<open>new_header\<close> wrote behind its first byte can be sealed.\<close>

lemma pack_fields_head:
  "pack_fields fs frame = Inr f \<Longrightarrow> \<forall>(n, off, x) \<in> set fs. k \<le> off \<Longrightarrow> i < k \<Longrightarrow> f ! i = frame ! i"
proof (induction fs frame rule: pack_fields.induct)
  case (2 n off x fs frame)
  then have "f ! i = put frame off (le_bytes n (nat x)) ! i" by (auto split: if_splits)
  also have "\<dots> = frame ! i" using 2 by (auto simp: nth_put split: if_splits)
  finally show ?case .
qed simp

lemma sealed_request:
  assumes "header_of h subtype len identity sequence (int (randomized_flags rand15 2 proc 0))" "24 \<le> len" "proc < 4"
    "length g = len" "\<And>i. 1 \<le> i \<Longrightarrow> i < 24 \<Longrightarrow> g ! i = h ! i" "length key = 32"
  shows "\<exists>w p c. finish_mode2 g key = Inr w \<and> gute_mode2_decrypt w key = Inr p \<and> length w = len \<and> p = put g 0x10 (le_bytes 4 c)"
proof -
  let ?fl = "randomized_flags rand15 2 proc 0"
  note fl = randomized_flags_no_trailer [of 2 proc rand15] randomized_flags_fields [of 2 proc rand15]
  have h: "length h = len" "u16_at h 2 = len" "pyslice h 0x14 0x18 = le_bytes 4 (mask_int 32 (int ?fl))"
    using assms(1) by (simp_all add: header_of_def)
  have fl32: "?fl < 2 ^ 32" using fl(4) assms(3) by simp
  have sl: "pyslice g i j = pyslice h i j" if "1 \<le> i" "j \<le> 24" for i j
    using that assms(2,4,5) h(1) by (intro nth_equalityI) (auto simp: pyslice_def)
  have g: "u16_at g 2 = length g" "pyslice g 0x14 0x18 = le_bytes 4 ?fl"
    using sl [of 2 4] sl [of 20 24] h fl32 assms(4) by (simp_all add: mask_int_def)
  have "\<exists>w p c. finish_mode2 g key = Inr w \<and> gute_mode2_decrypt w key = Inr p \<and> length w = length g \<and>
      p = put g 0x10 (le_bytes 4 c) \<and> gute_mode1_xor_checksum p = Inr (u32_at p 0x10)"
    by (rule sealed_mode2 [OF _ _ g(2) fl32]) (use assms(2,3,4,6) g(1) fl in auto)
  then show ?thesis using assms(4) by auto
qed

lemma mask_31_bound: "int (mask_int 31 m) < 256 ^ 4"
  using mask_int_bound [of 31 m] by simp

lemma siren_values: "length (show_int (if on then SIREN_ON else SIREN_OFF)) = 1"
  by (simp add: show_int_def SIREN_ON_def SIREN_OFF_def show_nat.simps)

lemma siren_path: "length SIREN_ACTION_PATH = 22" "SIREN_READ_PATH \<in> set MODEL_READ_PATHS" "length SIREN_READ_PATH = 16"
  by (simp_all add: SIREN_ACTION_PATH_def SIREN_READ_PATH_def MODEL_READ_PATHS_def)

lemma action_body_ok:
  assumes "length frame = 0x34 + length path + length value" "0 \<le> dev" "dev < 2 ^ 64" "length path < 256" "length value < 65536" "kind < 256"
  shows "\<exists>g. action_body m dev path value kind frame = Inr g \<and> length g = length frame \<and> (\<forall>i < 0x20. g ! i = frame ! i) \<and>
    u32_at g 0x20 = mask_int 31 m \<and> u64_at g 0x2A = nat dev \<and> pyslice g 0x32 (0x32 + length path) = ascii path \<and>
    pyslice g (0x33 + length path) (0x33 + length path + length value) = ascii value"
proof -
  let ?fs = "[(4, 0x20, int (mask_int 31 m)), (2, 0x24, 1), (1, 0x26, int kind), (1, 0x27, int (length path)),
    (2, 0x28, int (length value)), (8, 0x2A, dev)] :: (nat \<times> nat \<times> int) list"
  define f where "f = foldl (\<lambda>f (n, off, x). put f off (le_bytes n (nat x))) frame ?fs"
  have pf: "pack_fields ?fs frame = Inr f"
    unfolding f_def using assms mask_31_bound [of m] by (intro pack_fields_ok) auto
  define g where "g = put (put f 0x32 (ascii path)) (0x32 + length path + 1) (ascii value)"
  have len: "length f = length frame" using pack_fields_length [OF pf] .
  have "g ! i = frame ! i" if "i < 0x20" for i
  proof -
    have "f ! i = frame ! i" by (rule pack_fields_head [OF pf, where k = 32]) (use that in auto)
    then show ?thesis using that len assms(1) by (simp add: g_def nth_put)
  qed
  moreover have "u32_at g 0x20 = mask_int 31 m" "u64_at g 0x2A = nat dev"
    using assms mask_int_bound [of 31 m] len by (simp_all add: g_def f_def put_fields le_val_le_bytes nat_less_iff)
  moreover have "pyslice g 0x32 (0x32 + length path) = ascii path"
    "pyslice g (0x33 + length path) (0x33 + length path + length value) = ascii value"
    using assms len by (simp_all add: g_def slice_put_same slice_put_disjoint)
  moreover have "length g = length frame" using len assms(1) by (simp add: g_def)
  ultimately show ?thesis using pf by (auto simp: action_body_def g_def)
qed

lemma put_checksum_beyond: "length f \<ge> 0x18 \<Longrightarrow> 0x14 \<le> i \<Longrightarrow> pyslice (put f 0x10 (le_bytes 4 c)) i j = pyslice f i j"
  by (rule slice_put_disjoint) simp_all

text \<open>
  What the camera reads from an opened siren action: the account and device, the message
  number its answer will carry, the one allowed path and ON or OFF.
\<close>

lemma build_siren_action_opens:
  assumes "0 \<le> acc" "acc < 2 ^ 64" "0 \<le> dev" "dev < 2 ^ 64" "length (cn_session_key node) = 32"
  shows "\<exists>w p. build_siren_action node acc dev on sequence m rand15 = Inr w \<and> gute_mode2_decrypt w (cn_session_key node) = Inr p \<and>
    length w = 75 \<and> p ! 1 = 0xAC \<and> u64_at p 0x18 = nat acc \<and> u32_at p 0x20 = mask_int 31 m \<and> u64_at p 0x2A = nat dev \<and>
    pyslice p 0x32 72 = ascii SIREN_ACTION_PATH \<and> pyslice p 73 74 = ascii (if on then ''2'' else ''1'')"
proof -
  let ?v = "show_int (if on then SIREN_ON else SIREN_OFF)" let ?fl = "randomized_flags rand15 2 3 0"
  have v: "?v = (if on then ''2'' else ''1'')" by (simp add: show_int_def SIREN_ON_def SIREN_OFF_def show_nat.simps char_of_def bit_iff_odd)
  have len: "0x2A + 8 + length SIREN_ACTION_PATH + 1 + length ?v + 1 = 75" using v siren_path(1) by simp
  obtain h where h: "new_header 0xAC 75 (cn_session_id node) sequence (int ?fl) = Inr h"
    and ho: "header_of h 0xAC 75 (cn_session_id node) sequence (int ?fl)"
    using new_header_ok [of 172 75 "cn_session_id node" sequence "int ?fl"] by auto
  have hl: "length h = 75" "h ! 1 = 0xAC" using ho by (simp_all add: header_of_def)
  define f where "f = put (put h 0 [0x7E]) 0x18 (le_bytes 8 (nat acc))"
  have f: "pack_fields [(8, 0x18, acc)] (put h 0 [0x7E]) = Inr f" using assms(1,2) hl by (simp add: f_def)
  have "length f = 0x34 + length SIREN_ACTION_PATH + length ?v" using hl v siren_path(1) by (simp add: f_def)
  from action_body_ok [OF this assms(3,4), of 3 m] siren_path(1) siren_values [of on] obtain g where
    g: "action_body m dev SIREN_ACTION_PATH ?v 3 f = Inr g" "length g = length f" "\<And>i. i < 0x20 \<Longrightarrow> g ! i = f ! i"
      "u32_at g 0x20 = mask_int 31 m" "u64_at g 0x2A = nat dev" "pyslice g 0x32 72 = ascii SIREN_ACTION_PATH"
      "pyslice g 73 74 = ascii ?v" by auto
  have fl: "length f = 75" using hl by (simp add: f_def)
  have "g ! i = h ! i" if "1 \<le> i" "i < 24" for i using that g(3) [of i] hl by (simp add: f_def nth_put)
  then obtain w p c where w: "finish_mode2 g (cn_session_key node) = Inr w" "gute_mode2_decrypt w (cn_session_key node) = Inr p"
    "length w = 75" "p = put g 0x10 (le_bytes 4 c)"
    using sealed_request [OF ho, of g "cn_session_key node"] assms(5) g(2) fl by auto
  have "pyslice g 0x18 0x20 = pyslice f 0x18 0x20" using g(2,3) fl by (intro nth_equalityI) (auto simp: pyslice_def)
  then have "u64_at g 0x18 = nat acc" using hl assms(1,2) by (simp add: f_def put_fields nat_less_iff)
  moreover have "p ! 1 = 0xAC" using w(4) g(2) g(3) [of 1] fl hl by (simp add: f_def nth_put)
  moreover have "pyslice p i j = pyslice g i j" if "0x14 \<le> i" for i j using that w(4) put_checksum_beyond [of g i] g(2) fl by simp
  moreover have "build_siren_action node acc dev on sequence m rand15 = Inr w"
    unfolding build_siren_action_def Let_def len using h f g(1) w(1) by simp
  ultimately show ?thesis using w(2,3) g(4-7) v by auto
qed

lemma build_model_read_opens:
  assumes "path \<in> set MODEL_READ_PATHS" "0 \<le> dev" "dev < 2 ^ 64" "length (cn_session_key node) = 32"
  shows "\<exists>w p. build_model_read node dev path sequence m rand15 = Inr w \<and> gute_mode2_decrypt w (cn_session_key node) = Inr p \<and>
    length w = 0x27 + length path \<and> p ! 1 = 0xB7 \<and> u64_at p 0x18 = nat dev \<and> u32_at p 0x20 = mask_int 31 m \<and>
    u16_at p 0x24 = length path \<and> pyslice p 0x26 (0x26 + length path) = ascii path"
proof -
  let ?fl = "randomized_flags rand15 2 3 0" let ?n = "0x26 + length path + 1"
  have pl: "length path \<le> 30" using assms(1) by (auto simp: MODEL_READ_PATHS_def)
  obtain h where h: "new_header 0xB7 ?n (cn_session_id node) sequence (int ?fl) = Inr h"
    and ho: "header_of h 0xB7 ?n (cn_session_id node) sequence (int ?fl)"
    using new_header_ok [of 183 ?n "cn_session_id node" sequence "int ?fl"] pl by auto
  have hl: "length h = ?n" "h ! 1 = 0xB7" using ho by (simp_all add: header_of_def)
  let ?fs = "[(8, 0x18, dev), (4, 0x20, int (mask_int 31 m)), (2, 0x24, int (length path))] :: (nat \<times> nat \<times> int) list"
  define f where "f = foldl (\<lambda>f (n, off, x). put f off (le_bytes n (nat x))) (put h 0 [0x7E]) ?fs"
  have pf: "pack_fields ?fs (put h 0 [0x7E]) = Inr f"
    unfolding f_def using assms(2,3) mask_31_bound [of m] hl pl by (intro pack_fields_ok) auto
  define g where "g = put f 0x26 (ascii path)"
  have len: "length f = ?n" "length g = ?n" using pack_fields_length [OF pf] hl by (simp_all add: g_def)
  have "g ! i = h ! i" if "1 \<le> i" "i < 24" for i
    using that hl len pack_fields_head [OF pf, where k = 24 and i = i] by (simp add: g_def nth_put)
  then obtain w p c where w: "finish_mode2 g (cn_session_key node) = Inr w" "gute_mode2_decrypt w (cn_session_key node) = Inr p"
    "length w = ?n" "p = put g 0x10 (le_bytes 4 c)" and g1: "g ! 1 = h ! 1"
    using sealed_request [OF ho, of g "cn_session_key node"] assms(4) len by auto
  have "u64_at g 0x18 = nat dev" "u32_at g 0x20 = mask_int 31 m" "u16_at g 0x24 = length path"
    using assms(2,3) mask_int_bound [of 31 m] hl pl by (simp_all add: g_def f_def put_fields nat_less_iff)
  moreover have "pyslice g 0x26 (0x26 + length path) = ascii path" using len by (simp add: g_def slice_put_same)
  moreover have "p ! 1 = 0xB7" using w(4) len g1 hl by (simp add: nth_put)
  moreover have "pyslice p i j = pyslice g i j" if "0x14 \<le> i" for i j using that w(4) put_checksum_beyond [of g i] len by simp
  moreover have "build_model_read node dev path sequence m rand15 = Inr w"
    using h pf w(1) assms(1) by (simp add: build_model_read_def g_def)
  ultimately show ?thesis using w(2,3) by auto
qed

text \<open>What the camera reads from an opened write: the device, the message number, the path and the value.\<close>

lemma write_frame_opens:
  assumes "0 \<le> dev" "dev < 2 ^ 64" "length (cn_session_key node) = 32" "length path \<le> 0xFF" "0x34 + length path + length v \<le> 0xFFFF"
  shows "\<exists>w p. write_frame node dev path v sequence m rand15 = Inr w \<and> gute_mode2_decrypt w (cn_session_key node) = Inr p \<and>
    length w = 0x34 + length path + length v \<and> p ! 1 = 0xD2 \<and> u32_at p 0x20 = mask_int 31 m \<and> u64_at p 0x2A = nat dev \<and>
    pyslice p 0x32 (0x32 + length path) = ascii path \<and> pyslice p (0x33 + length path) (0x33 + length path + length v) = ascii v"
proof -
  let ?fl = "randomized_flags rand15 2 3 0" let ?n = "0x34 + length path + length v"
  have len: "0x2A + 8 + length path + 1 + length v + 1 = ?n" by simp
  obtain h where h: "new_header 0xD2 ?n (cn_session_id node) sequence (int ?fl) = Inr h"
    and ho: "header_of h 0xD2 ?n (cn_session_id node) sequence (int ?fl)"
    using new_header_ok [of 210 ?n "cn_session_id node" sequence "int ?fl"] assms(5) by auto
  have hl: "length h = ?n" "h ! 1 = 0xD2" using ho by (simp_all add: header_of_def)
  define f where "f = put (put h 0 [0x7E]) 0x18 [2]"
  have fl: "length f = ?n" using hl by (simp add: f_def)
  from action_body_ok [OF fl assms(1,2), of 7 m] assms(4,5) obtain g where
    g: "action_body m dev path v 7 f = Inr g" "length g = ?n" "\<And>i. i < 0x20 \<Longrightarrow> g ! i = f ! i"
      "u32_at g 0x20 = mask_int 31 m" "u64_at g 0x2A = nat dev" "pyslice g 0x32 (0x32 + length path) = ascii path"
      "pyslice g (0x33 + length path) (0x33 + length path + length v) = ascii v" using fl by auto
  have "g ! i = h ! i" if "1 \<le> i" "i < 24" for i using that g(3) [of i] hl by (simp add: f_def nth_put)
  then obtain w p c where w: "finish_mode2 g (cn_session_key node) = Inr w" "gute_mode2_decrypt w (cn_session_key node) = Inr p"
    "length w = ?n" "p = put g 0x10 (le_bytes 4 c)" and g1: "g ! 1 = h ! 1"
    using sealed_request [OF ho, of g "cn_session_key node"] assms(3) g(2) by auto
  have "p ! 1 = 0xD2" using w(4) g(2) g1 hl by (simp add: nth_put)
  moreover have "pyslice p i j = pyslice g i j" if "0x14 \<le> i" for i j using that w(4) put_checksum_beyond [of g i] g(2) by simp
  moreover have "write_frame node dev path v sequence m rand15 = Inr w"
    unfolding write_frame_def len using h g(1) w(1) by (simp add: f_def)
  ultimately show ?thesis using w(2,3) g(4-7) by auto
qed

end
