(* ===== verification/Reads.thy ===== *)
theory Reads
  imports ModelProtocol Machine
begin

text \<open>
  The account's property reads in flight (\<^verbatim>\<open>broker_reads.py\<close>) and its heartbeat
  (\<^verbatim>\<open>broker_heartbeat.py\<close>, \<^verbatim>\<open>broker_heartbeat_reply.py\<close>). A read waits for two things on the
  wire, the transport receipt and the camera's answer, which may come in either order; its
  sequence number comes from the namespace it shares with everything else the account sends.
  The lemmas show that every read registered ends exactly once and why it ended.

  A call that reads the clock several times gets its readings as arguments; \<open>clock i\<close> is
  the \<open>i\<close>th reading of the call.
\<close>

section \<open>Reads\<close>

record read_request =
  rq_ticket :: receipt_ticket
  rq_device_id :: int
  rq_path :: string

record read_completion =
  rc_request :: read_request
  rc_status :: string
  rc_transport_result :: "nat option"
  rc_error_code :: "nat option"
  rc_value :: json

record pending_read =
  pr_request :: read_request
  pr_deadline :: time
  pr_transport_result :: "nat option"

record broker_reads =
  br_receipts :: broker_transactions
  br_session :: int
  br_pending :: "(int, pending_read) dict"
  br_closed :: bool

definition reads_init :: "int \<Rightarrow> int \<Rightarrow> int \<Rightarrow> broker_sequences option \<Rightarrow> exn + broker_reads" where
  "reads_init session_id generation next_sequence sequences =
     bind_res (transactions_init session_id generation next_sequence sequences) (\<lambda>receipts.
       Inr \<lparr>br_receipts = receipts, br_session = session_id, br_pending = [], br_closed = False\<rparr>)"

definition reads_register ::
  "int \<Rightarrow> string \<Rightarrow> time \<Rightarrow> (nat \<Rightarrow> time) \<Rightarrow> broker_reads \<Rightarrow> (exn + read_request) \<times> broker_reads"
where
  "reads_register device_id path timeout clock b =
     (if br_closed b \<or> \<not> transactions_active (br_receipts b) then (Inl (ValueError ''broker reads closed''), b)
      else if \<not> (0 < device_id \<and> device_id < 2 ^ 64) \<or> path \<notin> set MODEL_READ_PATHS
      then (Inl (ValueError ''invalid allowlisted broker read''), b)
      else if length (br_pending b) \<ge> MAX_PENDING then (Inl (ValueError ''broker read capacity exhausted''), b)
      else case transactions_register 0xB7 timeout (clock 1) (br_receipts b) of
        (Inl e, receipts) \<Rightarrow> (Inl e, b\<lparr>br_receipts := receipts\<rparr>)
      | (Inr ticket, receipts) \<Rightarrow>
          let request = \<lparr>rq_ticket = ticket, rq_device_id = device_id, rq_path = path\<rparr>
          in (Inr request, b\<lparr>br_receipts := receipts,
                br_pending := dict_set (rt_sequence ticket)
                  \<lparr>pr_request = request, pr_deadline = clock 0 + timeout, pr_transport_result = None\<rparr> (br_pending b)\<rparr>))"

definition reads_finish ::
  "pending_read \<Rightarrow> string \<Rightarrow> nat option \<Rightarrow> json \<Rightarrow> broker_reads \<Rightarrow> read_completion \<times> broker_reads"
where
  "reads_finish pending status error_code v b =
     (let ticket = rq_ticket (pr_request pending)
      in (\<lparr>rc_request = pr_request pending, rc_status = status, rc_transport_result = pr_transport_result pending,
           rc_error_code = error_code, rc_value = v\<rparr>,
          b\<lparr>br_pending := dict_pop (rt_sequence ticket) (br_pending b),
            br_receipts := snd (transactions_cancel ticket (br_receipts b))\<rparr>))"

text \<open>The loop of \<^verbatim>\<open>accept\<close> over the waiting reads; \<open>i\<close> counts the clock readings.\<close>

fun reads_scan ::
  "json_decoder \<Rightarrow> bytes \<Rightarrow> int \<Rightarrow> (nat \<Rightarrow> time) \<Rightarrow> nat \<Rightarrow> pending_read list \<Rightarrow> broker_reads \<Rightarrow> read_completion option \<times> broker_reads"
where
  "reads_scan json_loads plain generation clock i [] b = (None, b)"
| "reads_scan json_loads plain generation clock i (pending # rest) b =
     (if clock i \<ge> pr_deadline pending then reads_scan json_loads plain generation clock (Suc i) rest b
      else case match_model_reply json_loads plain (rq_ticket (pr_request pending)) generation (br_session b)
                  (rq_device_id (pr_request pending)) of
        None \<Rightarrow> reads_scan json_loads plain generation clock (Suc i) rest b
      | Some response \<Rightarrow>
          let (c, b) = reads_finish pending ''response'' (Some (cm_error_code response)) (cm_value response) b
          in (Some c, b))"

definition reads_accept ::
  "json_decoder \<Rightarrow> bytes \<Rightarrow> int \<Rightarrow> (nat \<Rightarrow> time) \<Rightarrow> broker_reads \<Rightarrow> (exn + read_completion option) \<times> broker_reads"
where
  "reads_accept json_loads plain generation clock b =
     (if br_closed b \<or> \<not> transactions_active (br_receipts b) then (Inr None, b)
      else case transactions_accept plain generation (clock 0) (br_receipts b) of
        (Inl e, receipts) \<Rightarrow> (Inl e, b\<lparr>br_receipts := receipts\<rparr>)
      | (Inr (Some receipt), receipts) \<Rightarrow>
          let b = b\<lparr>br_receipts := receipts\<rparr>; sequence = rt_sequence (tr_ticket receipt)
          in (case map_of (br_pending b) sequence of
                None \<Rightarrow> (Inr None, b)
              | Some pending \<Rightarrow>
                  if clock 1 < pr_deadline pending
                  then let pending = pending\<lparr>pr_transport_result := Some (tr_result receipt)\<rparr>;
                           b = b\<lparr>br_pending := dict_set sequence pending (br_pending b)\<rparr>
                       in if \<not> receipt_accepted receipt
                          then let (c, b) = reads_finish pending ''transport_rejected'' None JNull b in (Inr (Some c), b)
                          else (Inr None, b)
                  else (Inr None, b))
      | (Inr None, receipts) \<Rightarrow>
          let (c, b) = reads_scan json_loads plain generation clock 1 (map snd (br_pending b)) (b\<lparr>br_receipts := receipts\<rparr>)
          in (Inr c, b))"

fun reads_finish_all :: "string \<Rightarrow> pending_read list \<Rightarrow> broker_reads \<Rightarrow> read_completion list \<times> broker_reads" where
  "reads_finish_all status [] b = ([], b)"
| "reads_finish_all status (p # ps) b =
     (let (c, b) = reads_finish p status None JNull b; (cs, b) = reads_finish_all status ps b in (c # cs, b))"

definition reads_poll :: "(nat \<Rightarrow> time) \<Rightarrow> broker_reads \<Rightarrow> read_completion list \<times> broker_reads" where
  "reads_poll clock b =
     (let expired = filter (\<lambda>p. clock 0 \<ge> pr_deadline p) (map snd (br_pending b));
          (results, b) = reads_finish_all ''timeout'' expired b
      in (results, b\<lparr>br_receipts := snd (transactions_poll (clock 1) (br_receipts b))\<rparr>))"

definition reads_cancel :: "receipt_ticket \<Rightarrow> broker_reads \<Rightarrow> read_completion option \<times> broker_reads" where
  "reads_cancel ticket b =
     (case map_of (br_pending b) (rt_sequence ticket) of
        None \<Rightarrow> (None, b)
      | Some pending \<Rightarrow>
          if rq_ticket (pr_request pending) \<noteq> ticket then (None, b)
          else let (c, b) = reads_finish pending ''cancelled'' None JNull b in (Some c, b))"

definition reads_close :: "broker_reads \<Rightarrow> read_completion list \<times> broker_reads" where
  "reads_close b =
     (let (results, b) = reads_finish_all ''cancelled'' (map snd (br_pending b)) b
      in (results, b\<lparr>br_receipts := snd (transactions_close (br_receipts b)), br_session := 0, br_closed := True\<rparr>))"

section \<open>Heartbeat\<close>

record heartbeat_reply =
  hr_ticket :: receipt_ticket
  hr_interval_hint :: "nat option"

definition match_heartbeat_reply :: "bytes \<Rightarrow> receipt_ticket \<Rightarrow> int \<Rightarrow> int \<Rightarrow> heartbeat_reply option" where
  "match_heartbeat_reply plain ticket generation session_id =
     (if generation \<noteq> rt_generation ticket \<or> rt_kind ticket \<noteq> 0xA0 \<or> \<not> (40 \<le> length plain \<and> length plain \<le> 4096) \<or>
         (plain ! 0 \<noteq> 0x7E \<and> plain ! 0 \<noteq> 0x7F) \<or> plain ! 1 \<noteq> 0xA1 \<or> u16_at plain 2 \<noteq> length plain \<or>
         int (u64_at plain 4) \<noteq> session_id \<or> int (u32_at plain 16) \<noteq> rt_sequence ticket then None
      else let flags = u32_at plain 20
      in if drop_bit 16 flags AND 3 \<noteq> 2 \<or> \<not> bit flags 21 \<or> bit flags 20 then None
      else let hint = unat (plain ! 0x21)
      in Some \<lparr>hr_ticket = ticket, hr_interval_hint = (if 10 \<le> hint \<and> hint \<le> 60 then Some hint else None)\<rparr>)"

record heartbeat_completion =
  hc_ticket :: receipt_ticket
  hc_status :: string
  hc_interval_hint :: "nat option"

record broker_heartbeat =
  bh_session :: int
  bh_generation :: int
  bh_pending :: "(receipt_ticket \<times> time) option"
  bh_interval_hint :: nat
  bh_closed :: bool

text \<open>The sequence source is an object the heartbeat shares with its account: it is passed in.\<close>

definition heartbeat_init :: "int \<Rightarrow> int \<Rightarrow> broker_sequences \<Rightarrow> exn + broker_heartbeat" where
  "heartbeat_init session_id generation source =
     (if \<not> sequences_match session_id generation source then Inl (ValueError ''heartbeat sequence identity mismatch'')
      else Inr \<lparr>bh_session = session_id, bh_generation = generation, bh_pending = None, bh_interval_hint = 50, bh_closed = False\<rparr>)"

definition cadence_seconds :: "broker_heartbeat \<Rightarrow> nat" where
  "cadence_seconds h = (if bh_interval_hint h \<in> {35, 40} then bh_interval_hint h else 50)"

definition heartbeat_prepare ::
  "(string \<Rightarrow> exn + bytes) \<Rightarrow> certified_node \<Rightarrow> string \<Rightarrow> int \<Rightarrow> time \<Rightarrow> nat \<Rightarrow> time \<Rightarrow> broker_sequences \<Rightarrow> broker_heartbeat \<Rightarrow>
   (exn + receipt_ticket \<times> bytes) \<times> broker_sequences \<times> broker_heartbeat"
where
  "heartbeat_prepare inet_aton node local_ip local_port timeout rand15 now source h =
     (if bh_closed h \<or> \<not> sequences_match (bh_session h) (bh_generation h) source then (Inl (ValueError ''heartbeat owner closed''), source, h)
      else if cn_session_id node \<noteq> bh_session h then (Inl (ValueError ''heartbeat node identity mismatch''), source, h)
      else if bh_pending h \<noteq> None then (Inl (ValueError ''heartbeat already pending; poll or cancel explicitly''), source, h)
      else if \<not> (0 < timeout \<and> timeout \<le> MAX_TIMEOUT) then (Inl (ValueError ''invalid heartbeat deadline''), source, h)
      else case sequences_allocate source of
        (Inl e, source) \<Rightarrow> (Inl e, source, h)
      | (Inr sequence, source) \<Rightarrow>
          let ticket = \<lparr>rt_generation = bh_generation h, rt_sequence = sequence, rt_kind = 0xA0\<rparr>
          in case build_heartbeat inet_aton (node\<lparr>cn_next_sequence := sequence\<rparr>) local_ip local_port rand15 of
               Inl e \<Rightarrow> (Inl e, source, h)
             | Inr wire \<Rightarrow> (Inr (ticket, wire), source, h\<lparr>bh_pending := Some (ticket, now + timeout)\<rparr>))"

definition heartbeat_accept ::
  "bytes \<Rightarrow> int \<Rightarrow> time \<Rightarrow> broker_sequences \<Rightarrow> broker_heartbeat \<Rightarrow> heartbeat_completion option \<times> broker_heartbeat"
where
  "heartbeat_accept plain generation now source h =
     (case bh_pending h of
        None \<Rightarrow> (None, h)
      | Some (ticket, deadline) \<Rightarrow>
          if bh_closed h \<or> \<not> sequences_match (bh_session h) (bh_generation h) source \<or> now \<ge> deadline then (None, h)
          else case match_heartbeat_reply plain ticket generation (bh_session h) of
            None \<Rightarrow> (None, h)
          | Some reply \<Rightarrow>
              let h = h\<lparr>bh_pending := None\<rparr>;
                  h = (case hr_interval_hint reply of None \<Rightarrow> h | Some hint \<Rightarrow> h\<lparr>bh_interval_hint := hint\<rparr>)
              in (Some \<lparr>hc_ticket = ticket, hc_status = ''response'', hc_interval_hint = hr_interval_hint reply\<rparr>, h))"

definition heartbeat_poll :: "time \<Rightarrow> broker_heartbeat \<Rightarrow> heartbeat_completion option \<times> broker_heartbeat" where
  "heartbeat_poll now h =
     (case bh_pending h of
        None \<Rightarrow> (None, h)
      | Some (ticket, deadline) \<Rightarrow>
          if now < deadline then (None, h)
          else (Some \<lparr>hc_ticket = ticket, hc_status = ''timeout'', hc_interval_hint = None\<rparr>, h\<lparr>bh_pending := None\<rparr>))"

definition heartbeat_cancel :: "receipt_ticket \<Rightarrow> broker_heartbeat \<Rightarrow> heartbeat_completion option \<times> broker_heartbeat" where
  "heartbeat_cancel ticket h =
     (case bh_pending h of
        None \<Rightarrow> (None, h)
      | Some (pending, deadline) \<Rightarrow>
          if pending \<noteq> ticket then (None, h)
          else (Some \<lparr>hc_ticket = ticket, hc_status = ''cancelled'', hc_interval_hint = None\<rparr>, h\<lparr>bh_pending := None\<rparr>))"

definition heartbeat_close :: "broker_heartbeat \<Rightarrow> heartbeat_completion option \<times> broker_heartbeat" where
  "heartbeat_close h =
     (let h = h\<lparr>bh_closed := True\<rparr>
      in case bh_pending h of None \<Rightarrow> (None, h) | Some (ticket, deadline) \<Rightarrow> heartbeat_cancel ticket h)"

section \<open>Runs of the reads\<close>

text \<open>
  What can happen to the reads of an account: its owner's calls, and, since the sequence
  source is shared, other users' reservations and the account closing the source.
\<close>

datatype read_op =
    RRegister int string time "nat \<Rightarrow> time"
  | RAccept bytes int "nat \<Rightarrow> time"
  | RPoll "nat \<Rightarrow> time"
  | RCancel receipt_ticket
  | RClose
  | ROthers int
  | RSourceClosed

text \<open>A read that was registered, with its deadline; a read that ended, with the call that ended it.\<close>

datatype read_event = Registered read_request time | Completed read_op read_completion

fun reads_exec :: "json_decoder \<Rightarrow> read_op \<Rightarrow> broker_reads \<Rightarrow> read_event list \<times> broker_reads" where
  "reads_exec json_loads (RRegister device path timeout clock) b =
     (case reads_register device path timeout clock b of
        (Inl e, b) \<Rightarrow> ([], b) | (Inr r, b) \<Rightarrow> ([Registered r (clock 0 + timeout)], b))"
| "reads_exec json_loads (RAccept plain generation clock) b =
     (case reads_accept json_loads plain generation clock b of
        (Inr (Some c), b) \<Rightarrow> ([Completed (RAccept plain generation clock) c], b) | (_, b) \<Rightarrow> ([], b))"
| "reads_exec json_loads (RPoll clock) b = (case reads_poll clock b of (cs, b) \<Rightarrow> (map (Completed (RPoll clock)) cs, b))"
| "reads_exec json_loads (RCancel t) b =
     (case reads_cancel t b of (None, b) \<Rightarrow> ([], b) | (Some c, b) \<Rightarrow> ([Completed (RCancel t) c], b))"
| "reads_exec json_loads RClose b = (case reads_close b of (cs, b) \<Rightarrow> (map (Completed RClose) cs, b))"
| "reads_exec json_loads (ROthers n) b =
     ([], b\<lparr>br_receipts := (br_receipts b)\<lparr>bt_sequences := snd (sequences_reserve n (bt_sequences (br_receipts b)))\<rparr>\<rparr>)"
| "reads_exec json_loads RSourceClosed b =
     ([], b\<lparr>br_receipts := (br_receipts b)\<lparr>bt_sequences := sequences_close (bt_sequences (br_receipts b))\<rparr>\<rparr>)"

abbreviation next_of :: "broker_reads \<Rightarrow> int" where
  "next_of b \<equiv> bs_next (bt_sequences (br_receipts b))"

abbreviation sequence_of :: "read_request \<Rightarrow> int" where
  "sequence_of r \<equiv> rt_sequence (rq_ticket r)"

text \<open>Every transport receipt still awaited belongs to a read that still waits.\<close>

definition reads_ok :: "broker_reads \<Rightarrow> bool" where
  "reads_ok b \<longleftrightarrow> bt_inv (br_receipts b) \<and> length (br_pending b) \<le> MAX_PENDING \<and> distinct (map fst (br_pending b)) \<and>
     (\<forall>(k, p) \<in> set (br_pending b). sequence_of (pr_request p) = k \<and> k < next_of b \<and>
        rt_generation (rq_ticket (pr_request p)) = bt_generation (br_receipts b) \<and> rt_kind (rq_ticket (pr_request p)) = 0xB7) \<and>
     (\<forall>(k, t, d) \<in> set (bt_pending (br_receipts b)). \<exists>p. (k, p) \<in> set (br_pending b) \<and> rq_ticket (pr_request p) = t)"

text \<open>Why a read ended, by the call that ended it.\<close>

fun ended_by :: "json_decoder \<Rightarrow> int \<Rightarrow> time \<Rightarrow> read_op \<Rightarrow> read_completion \<Rightarrow> bool" where
  "ended_by json_loads session deadline (RAccept plain generation clock) c \<longleftrightarrow>
     rc_status c = ''response'' \<and> (\<exists>i. clock i < deadline) \<and>
       (\<exists>reply. match_model_reply json_loads plain (rq_ticket (rc_request c)) generation session (rq_device_id (rc_request c)) = Some reply \<and>
          rc_error_code c = Some (cm_error_code reply) \<and> rc_value c = cm_value reply) \<or>
     rc_status c = ''transport_rejected'' \<and> (\<exists>i. clock i < deadline) \<and> int (u32_at plain 12) = sequence_of (rc_request c) \<and>
       uint (plain ! 1) = 0xB7 \<and> int (u64_at plain 4) = session \<and> u16_at plain 26 \<noteq> 0 \<and> rc_transport_result c = Some (u16_at plain 26)"
| "ended_by json_loads session deadline (RPoll clock) c \<longleftrightarrow> rc_status c = ''timeout'' \<and> clock 0 \<ge> deadline"
| "ended_by json_loads session deadline (RCancel t) c \<longleftrightarrow> rc_status c = ''cancelled'' \<and> rq_ticket (rc_request c) = t"
| "ended_by json_loads session deadline RClose c \<longleftrightarrow> rc_status c = ''cancelled''"
| "ended_by json_loads session deadline _ c \<longleftrightarrow> False"

definition ended :: "read_event list \<Rightarrow> read_request \<Rightarrow> bool" where
  "ended h r \<longleftrightarrow> (\<exists>op c. Completed op c \<in> set h \<and> rc_request c = r)"

fun read_justified :: "json_decoder \<Rightarrow> int \<Rightarrow> read_event list \<Rightarrow> read_event \<Rightarrow> bool" where
  "read_justified json_loads session h (Registered r d) \<longleftrightarrow> (\<forall>r' d'. Registered r' d' \<in> set h \<longrightarrow> sequence_of r' < sequence_of r)"
| "read_justified json_loads session h (Completed op c) \<longleftrightarrow>
     \<not> ended h (rc_request c) \<and> (\<exists>d. Registered (rc_request c) d \<in> set h \<and> ended_by json_loads session d op c)"

definition waiting :: "read_event list \<Rightarrow> broker_reads \<Rightarrow> bool" where
  "waiting h b \<longleftrightarrow>
     (\<forall>(k, p) \<in> set (br_pending b). Registered (pr_request p) (pr_deadline p) \<in> set h \<and> \<not> ended h (pr_request p)) \<and>
     (\<forall>r d. Registered r d \<in> set h \<longrightarrow> sequence_of r < next_of b \<and> (ended h r \<or> (\<exists>k p. (k, p) \<in> set (br_pending b) \<and> pr_request p = r)))"

definition reads_inv :: "json_decoder \<Rightarrow> int \<Rightarrow> read_event list \<Rightarrow> broker_reads \<Rightarrow> bool" where
  "reads_inv json_loads session h b \<longleftrightarrow> reads_ok b \<and> waiting h b \<and> each_event (read_justified json_loads session) h \<and>
     (br_closed b \<or> br_session b = session \<and> bt_session (br_receipts b) = session)"

section \<open>Ending reads\<close>

lemma reads_ok_pending:
  assumes "reads_ok b" "(k, p) \<in> set (br_pending b)"
  shows "sequence_of (pr_request p) = k" "map_of (br_pending b) k = Some p" "rt_kind (rq_ticket (pr_request p)) = 0xB7"
  using assms by (auto simp: reads_ok_def)

text \<open>Ending one waiting read gives it up on both lists and leaves the others.\<close>

lemma cancel_pops:
  assumes "bt_inv r" "\<And>t' d. map_of (bt_pending r) (rt_sequence t) = Some (t', d) \<Longrightarrow> t' = t"
  shows "snd (transactions_cancel t r) = r\<lparr>bt_pending := dict_pop (rt_sequence t) (bt_pending r)\<rparr>"
proof (cases "map_of (bt_pending r) (rt_sequence t)")
  case None
  then have "dict_pop (rt_sequence t) (bt_pending r) = bt_pending r" by (simp add: map_of_None_keys dict_pop_absent)
  with None show ?thesis by (simp add: transactions_cancel_def)
next
  case (Some x)
  obtain t' d where "x = (t', d)" by fastforce
  with Some assms(2) show ?thesis by (auto simp: transactions_cancel_def)
qed

lemma reads_finish_eq:
  assumes ok: "reads_ok b" and p: "(k, p) \<in> set (br_pending b)" and q: "pr_request q = pr_request p"
  shows "reads_finish q status code v b =
     (\<lparr>rc_request = pr_request p, rc_status = status, rc_transport_result = pr_transport_result q, rc_error_code = code, rc_value = v\<rparr>,
      b\<lparr>br_pending := dict_pop k (br_pending b),
        br_receipts := (br_receipts b)\<lparr>bt_pending := dict_pop k (bt_pending (br_receipts b))\<rparr>\<rparr>)"
proof -
  have k: "sequence_of (pr_request p) = k" "map_of (br_pending b) k = Some p" using reads_ok_pending [OF ok p] by simp_all
  have "t' = rq_ticket (pr_request p)" if m: "map_of (bt_pending (br_receipts b)) k = Some (t', d)" for t' d
  proof -
    from map_of_SomeD [OF m] ok obtain p' where "(k, p') \<in> set (br_pending b)" "rq_ticket (pr_request p') = t'"
      by (fastforce simp: reads_ok_def)
    with k(2) reads_ok_pending [OF ok] show ?thesis by fastforce
  qed
  then have "snd (transactions_cancel (rq_ticket (pr_request p)) (br_receipts b)) =
      (br_receipts b)\<lparr>bt_pending := dict_pop k (bt_pending (br_receipts b))\<rparr>"
    using cancel_pops [of "br_receipts b" "rq_ticket (pr_request p)"] ok k(1) by (simp add: reads_ok_def)
  with k(1) q show ?thesis by (simp add: reads_finish_def Let_def)
qed

lemma reads_ok_pop:
  assumes "reads_ok b"
  shows "reads_ok (b\<lparr>br_pending := dict_pop k (br_pending b),
        br_receipts := (br_receipts b)\<lparr>bt_pending := dict_pop k (bt_pending (br_receipts b))\<rparr>\<rparr>)"
  using assms bt_inv_pop [of "br_receipts b" k] length_dict_pop_le [of k "br_pending b"]
  by (fastforce simp: reads_ok_def distinct_dict_pop set_dict_pop)

lemma read_pop_inv:
  assumes inv: "reads_inv jl session h b" and p: "(k, p) \<in> set (br_pending b)"
    and c: "rc_request c = pr_request p" "ended_by jl session (pr_deadline p) op c"
  shows "reads_inv jl session (h @ [Completed op c]) (b\<lparr>br_pending := dict_pop k (br_pending b),
        br_receipts := (br_receipts b)\<lparr>bt_pending := dict_pop k (bt_pending (br_receipts b))\<rparr>\<rparr>)"
    (is "reads_inv _ _ ?h ?b")
proof -
  have ok: "reads_ok b" and w: "waiting h b" using inv by (simp_all add: reads_inv_def)
  have 1: "Registered (pr_request p) (pr_deadline p) \<in> set h" "\<not> ended h (pr_request p)" using w p by (auto simp: waiting_def)
  then have j: "read_justified jl session h (Completed op c)" using c by auto
  have e: "ended ?h r \<longleftrightarrow> ended h r \<or> r = pr_request p" for r using c(1) by (auto simp: ended_def)
  have "waiting ?h ?b" unfolding waiting_def
  proof (intro conjI ballI, clarsimp simp: set_dict_pop)
    fix k' p' assume kp: "(k', p') \<in> set (br_pending b)" "k' \<noteq> k"
    then have "pr_request p' \<noteq> pr_request p" using reads_ok_pending(1) [OF ok] p by metis
    then show "Registered (pr_request p') (pr_deadline p') \<in> set h \<and> \<not> ended ?h (pr_request p')"
      using w kp(1) e by (auto simp: waiting_def)
  next
    show "\<forall>r d. Registered r d \<in> set ?h \<longrightarrow> sequence_of r < next_of ?b \<and>
        (ended ?h r \<or> (\<exists>k p. (k, p) \<in> set (br_pending ?b) \<and> pr_request p = r))"
    proof (intro allI impI)
      fix r d assume "Registered r d \<in> set ?h"
      then have r: "Registered r d \<in> set h" by simp
      show "sequence_of r < next_of ?b \<and> (ended ?h r \<or> (\<exists>k p. (k, p) \<in> set (br_pending ?b) \<and> pr_request p = r))"
      proof (cases "r = pr_request p")
        case False
        have "ended h r \<or> (\<exists>k' p'. (k', p') \<in> set (br_pending b) \<and> pr_request p' = r)" using w r by (auto simp: waiting_def)
        moreover have "k' \<noteq> k" if "(k', p') \<in> set (br_pending b)" "pr_request p' = r" for k' p'
          using that False p reads_ok_pending(2) [OF ok] by (metis option.inject)
        ultimately show ?thesis using w r e by (fastforce simp: waiting_def set_dict_pop)
      qed (use w r e in \<open>auto simp: waiting_def\<close>)
    qed
  qed
  moreover have "reads_ok ?b" by (rule reads_ok_pop [OF ok])
  ultimately show ?thesis using inv j by (simp add: reads_inv_def)
qed

lemma finish_inv:
  assumes inv: "reads_inv jl session h b" and p: "(k, p) \<in> set (br_pending b)" and q: "pr_request q = pr_request p"
    and f: "reads_finish q status code v b = (c, b')" and e: "ended_by jl session (pr_deadline p) op c"
  shows "reads_inv jl session (h @ [Completed op c]) b'"
proof -
  have ok: "reads_ok b" using inv by (simp add: reads_inv_def)
  note f' = f [unfolded reads_finish_eq [OF ok p q]]
  have "rc_request c = pr_request p" using f' by auto
  from read_pop_inv [OF inv p this e] f' show ?thesis by auto
qed

lemma finish_all_inv:
  assumes "reads_inv jl session h b" "set ps \<subseteq> snd ` set (br_pending b)" "distinct (map pr_request ps)"
    "reads_finish_all status ps b = (cs, b')"
    "\<And>p c. p \<in> set ps \<Longrightarrow> rc_status c = status \<Longrightarrow> rc_request c = pr_request p \<Longrightarrow> ended_by jl session (pr_deadline p) op c"
  shows "reads_inv jl session (h @ map (Completed op) cs) b' \<and> map rc_request cs = map pr_request ps \<and>
    set (br_pending b') = {(k, p) \<in> set (br_pending b). pr_request p \<notin> pr_request ` set ps}"
  using assms
proof (induction ps arbitrary: h b cs)
  case Nil
  then show ?case by auto
next
  case (Cons q ps)
  obtain k where p: "(k, q) \<in> set (br_pending b)" using Cons.prems(2) by auto
  obtain c b1 where f: "reads_finish q status None JNull b = (c, b1)" by fastforce
  obtain cs1 where rest: "reads_finish_all status ps b1 = (cs1, b')" "cs = c # cs1"
    using Cons.prems(4) f by (auto split: prod.splits)
  have ok: "reads_ok b" using Cons.prems(1) by (simp add: reads_inv_def)
  note eq = reads_finish_eq [OF ok p refl, of status None JNull]
  have c: "rc_request c = pr_request q" "rc_status c = status" and b1: "br_pending b1 = dict_pop k (br_pending b)"
    using f eq by auto
  have inv1: "reads_inv jl session (h @ [Completed op c]) b1"
    by (rule finish_inv [OF Cons.prems(1) p refl f]) (use Cons.prems(5) c in auto)
  have same: "k' = k \<longleftrightarrow> pr_request p' = pr_request q" if "(k', p') \<in> set (br_pending b)" for k' p'
    using that p reads_ok_pending [OF ok] by (metis option.inject)
  have sub: "set ps \<subseteq> snd ` set (br_pending b1)"
  proof
    fix p' assume p': "p' \<in> set ps"
    then obtain k' where "(k', p') \<in> set (br_pending b)" using Cons.prems(2) by auto
    moreover have "pr_request p' \<noteq> pr_request q" using Cons.prems(3) imageI [OF p', of pr_request] by auto
    ultimately show "p' \<in> snd ` set (br_pending b1)" using same by (force simp: b1 set_dict_pop)
  qed
  have IH: "reads_inv jl session ((h @ [Completed op c]) @ map (Completed op) cs1) b' \<and> map rc_request cs1 = map pr_request ps \<and>
    set (br_pending b') = {(k, p) \<in> set (br_pending b1). pr_request p \<notin> pr_request ` set ps}"
    by (rule Cons.IH [OF inv1 sub _ rest(1)]) (use Cons.prems in auto)
  then show ?case using rest(2) c same by (auto simp: b1 set_dict_pop)
qed

lemma pending_distinct:
  assumes "reads_ok b"
  shows "distinct (map pr_request (map snd (br_pending b)))"
proof -
  have "map (\<lambda>x. sequence_of (pr_request (snd x))) (br_pending b) = map fst (br_pending b)"
    using reads_ok_pending(1) [OF assms] by (intro map_cong) auto
  moreover have "distinct (map fst (br_pending b))" using assms by (simp add: reads_ok_def)
  ultimately have "distinct (map (\<lambda>x. sequence_of (pr_request (snd x))) (br_pending b))" by (simp only:)
  then have "distinct (map sequence_of (map pr_request (map snd (br_pending b))))" by (simp add: comp_def)
  then show ?thesis by (simp only: distinct_map)
qed

lemma scan_inv:
  assumes "reads_inv jl session h b" "set ps \<subseteq> snd ` set (br_pending b)" "br_session b = session"
    "reads_scan jl plain g clock i ps b = (res, b')"
  shows "case res of None \<Rightarrow> b' = b | Some c \<Rightarrow> reads_inv jl session (h @ [Completed (RAccept plain g clock) c]) b'"
  using assms
proof (induction jl plain g clock i ps b rule: reads_scan.induct)
  case (2 jl plain g clock i p rest b)
  show ?case
  proof (cases "clock i \<ge> pr_deadline p \<or> match_model_reply jl plain (rq_ticket (pr_request p)) g (br_session b) (rq_device_id (pr_request p)) = None")
    case True
    then show ?thesis using "2" by (auto split: if_splits option.splits)
  next
    case False
    then obtain reply where m: "clock i < pr_deadline p"
      "match_model_reply jl plain (rq_ticket (pr_request p)) g session (rq_device_id (pr_request p)) = Some reply"
      using "2.prems"(3) by auto
    obtain k where p: "(k, p) \<in> set (br_pending b)" using "2.prems"(2) by auto
    obtain c b1 where f: "reads_finish p ''response'' (Some (cm_error_code reply)) (cm_value reply) b = (c, b1)" by fastforce
    have ok: "reads_ok b" using "2.prems"(1) by (simp add: reads_inv_def)
    have c: "rc_request c = pr_request p" "rc_status c = ''response''" "rc_error_code c = Some (cm_error_code reply)" "rc_value c = cm_value reply"
      using f reads_finish_eq [OF ok p refl] by auto
    have "res = Some c" "b' = b1" using "2.prems"(3,4) m f by auto
    then show ?thesis using finish_inv [OF "2.prems"(1) p refl f, of "RAccept plain g clock"] m c by auto
  qed
qed simp

section \<open>Each call keeps the account of the reads\<close>

text \<open>Steps that end no read: the receipts lose tickets, the namespace moves on.\<close>

lemma receipts_inv:
  assumes inv: "reads_inv jl session h b" and r: "bt_inv r" "set (bt_pending r) \<subseteq> set (bt_pending (br_receipts b))"
    "bt_generation r = bt_generation (br_receipts b)" "bt_session r = bt_session (br_receipts b)" "next_of b \<le> bs_next (bt_sequences r)"
  shows "reads_inv jl session h (b\<lparr>br_receipts := r\<rparr>)"
proof -
  have "\<forall>(k, p) \<in> set (br_pending b). k < bs_next (bt_sequences r)" using inv r(5) by (auto simp: reads_inv_def reads_ok_def)
  moreover have "\<forall>(k, t, d) \<in> set (bt_pending r). \<exists>p. (k, p) \<in> set (br_pending b) \<and> rq_ticket (pr_request p) = t"
    using inv r(2) by (auto simp: reads_inv_def reads_ok_def)
  ultimately have "reads_ok (b\<lparr>br_receipts := r\<rparr>)" using inv r(1,3) by (auto simp: reads_inv_def reads_ok_def)
  moreover have "\<forall>q d. Registered q d \<in> set h \<longrightarrow> sequence_of q < bs_next (bt_sequences r)"
    using inv r(5) by (auto simp: reads_inv_def waiting_def intro: less_le_trans)
  then have "waiting h (b\<lparr>br_receipts := r\<rparr>)" using inv by (auto simp: reads_inv_def waiting_def)
  ultimately show ?thesis using inv r by (simp add: reads_inv_def)
qed

lemma poll_inv:
  assumes inv: "reads_inv jl session h b" and p: "reads_poll clock b = (cs, b')"
  shows "reads_inv jl session (h @ map (Completed (RPoll clock)) cs) b' \<and> (\<forall>(k, p) \<in> set (br_pending b'). clock 0 < pr_deadline p)"
proof -
  let ?ps = "filter (\<lambda>p. clock 0 \<ge> pr_deadline p) (map snd (br_pending b))"
  obtain b1 where f: "reads_finish_all ''timeout'' ?ps b = (cs, b1)"
    and b': "b' = b1\<lparr>br_receipts := snd (transactions_poll (clock 1) (br_receipts b1))\<rparr>"
    using p by (auto simp: reads_poll_def Let_def split: prod.splits)
  have ok: "reads_ok b" using inv by (simp add: reads_inv_def)
  have 1: "reads_inv jl session (h @ map (Completed (RPoll clock)) cs) b1" 
    "set (br_pending b1) = {(k, p) \<in> set (br_pending b). pr_request p \<notin> pr_request ` set ?ps}"
    using finish_all_inv [OF inv _ _ f, of "RPoll clock"] pending_distinct [OF ok] by (auto simp: distinct_map_filter)
  have "bt_inv (br_receipts b1)" using 1(1) by (simp add: reads_inv_def reads_ok_def)
  from bt_exec_keeps [OF this, of "Poll (clock 1)"] transactions_poll_eq [OF this]
  have "reads_inv jl session (h @ map (Completed (RPoll clock)) cs) b'" unfolding b' by (intro receipts_inv [OF 1(1)]) auto
  moreover have "clock 0 < pr_deadline p" if "(k, p) \<in> set (br_pending b')" for k p
    using that 1(2) by (force simp: b')
  ultimately show ?thesis by auto
qed

lemma close_inv:
  assumes inv: "reads_inv jl session h b" and p: "reads_close b = (cs, b')"
  shows "reads_inv jl session (h @ map (Completed RClose) cs) b' \<and> br_pending b' = [] \<and> br_closed b'"
proof -
  let ?ps = "map snd (br_pending b)"
  obtain b1 where f: "reads_finish_all ''cancelled'' ?ps b = (cs, b1)"
    and b': "b' = b1\<lparr>br_receipts := snd (transactions_close (br_receipts b1)), br_session := 0, br_closed := True\<rparr>"
    using p by (auto simp: reads_close_def Let_def split: prod.splits)
  have ok: "reads_ok b" using inv by (simp add: reads_inv_def)
  have 1: "reads_inv jl session (h @ map (Completed RClose) cs) b1" "set (br_pending b1) = {}"
    using finish_all_inv [OF inv _ _ f, of RClose] pending_distinct [OF ok] by (auto intro!: image_eqI [of _ pr_request] image_eqI [of _ snd])
  have ok1: "bt_inv (br_receipts b1)" using 1(1) by (simp add: reads_inv_def reads_ok_def)
  from bt_exec_keeps [OF this, of Broker.Close] have "bt_inv (snd (transactions_close (br_receipts b1)))"
    by (cases "transactions_close (br_receipts b1)") auto
  moreover have "bt_pending (snd (transactions_close (br_receipts b1))) = []" "bs_next (bt_sequences (snd (transactions_close (br_receipts b1)))) = next_of b1"
    by (auto simp: transactions_close_def sequences_close_def Let_def)
  ultimately have "reads_inv jl session (h @ map (Completed RClose) cs) b'"
    using 1 by (auto simp: reads_inv_def b' reads_ok_def waiting_def)
  with 1(2) show ?thesis by (simp add: b')
qed

lemma cancel_inv:
  assumes inv: "reads_inv jl session h b" and p: "reads_cancel t b = (res, b')"
  shows "reads_inv jl session (h @ (case res of None \<Rightarrow> [] | Some c \<Rightarrow> [Completed (RCancel t) c])) b'"
proof (cases "\<exists>q. map_of (br_pending b) (rt_sequence t) = Some q \<and> rq_ticket (pr_request q) = t")
  case True
  then obtain q where q: "map_of (br_pending b) (rt_sequence t) = Some q" "rq_ticket (pr_request q) = t" by blast
  obtain c b1 where f: "reads_finish q ''cancelled'' None JNull b = (c, b1)" by fastforce
  have ok: "reads_ok b" using inv by (simp add: reads_inv_def)
  note m = map_of_SomeD [OF q(1)]
  have "ended_by jl session (pr_deadline q) (RCancel t) c" using f reads_finish_eq [OF ok m refl] q(2) by auto
  from finish_inv [OF inv m refl f this] p q f show ?thesis by (auto simp: reads_cancel_def)
next
  case False
  then show ?thesis using p inv by (auto simp: reads_cancel_def split: option.splits)
qed

lemma register_inv:
  assumes inv: "reads_inv jl session h b" and p: "reads_register device path timeout clock b = (res, b')"
  shows "reads_inv jl session (h @ (case res of Inl e \<Rightarrow> [] | Inr r \<Rightarrow> [Registered r (clock 0 + timeout)])) b'"
proof (cases res)
  case (Inl e)
  have "r = br_receipts b" if "transactions_register 183 timeout (clock 1) (br_receipts b) = (Inl e', r)" for e' r
    by (rule transactions_register_Inl [OF that])
  with Inl p inv show ?thesis by (auto simp: reads_register_def Let_def split: if_splits prod.splits sum.splits)
next
  case (Inr r)
  obtain t rec where t: "transactions_register 183 timeout (clock 1) (br_receipts b) = (Inr t, rec)" "length (br_pending b) < 8"
    "r = \<lparr>rq_ticket = t, rq_device_id = device, rq_path = path\<rparr>"
    "b' = b\<lparr>br_receipts := rec, br_pending := dict_set (rt_sequence t)
       \<lparr>pr_request = r, pr_deadline = clock 0 + timeout, pr_transport_result = None\<rparr> (br_pending b)\<rparr>"
    using p Inr by (auto simp: reads_register_def Let_def not_le split: if_splits prod.splits sum.splits)
  have ok: "reads_ok b" and w: "waiting h b" using inv by (simp_all add: reads_inv_def)
  have bt: "bt_inv (br_receipts b)" using ok by (simp add: reads_ok_def)
  note reg = transactions_register_Inr [OF t(1) bt]
  have kind: "rt_kind t = 183" using t(1) by (auto simp: transactions_register_def Let_def split: if_splits prod.splits sum.splits)
  have rec_inv: "bt_inv rec" using bt_exec_keeps [OF bt, of "Register 183 timeout (clock 1)"] t(1) by auto
  have new: "rt_sequence t \<notin> fst ` set (br_pending b)" using ok reg(1) by (fastforce simp: reads_ok_def)
  have b': "b' = b\<lparr>br_receipts := rec, br_pending := br_pending b @ [(rt_sequence t,
       \<lparr>pr_request = r, pr_deadline = clock 0 + timeout, pr_transport_result = None\<rparr>)]\<rparr>"
    using t(4) new by (simp add: dict_set_new)
  have old: "sequence_of r' < rt_sequence t" if "Registered r' d \<in> set h" for r' d using that w reg(1) by (auto simp: waiting_def)
  have fresh: "\<not> ended h r" "Registered r d \<notin> set h" for d
  proof -
    show "Registered r d \<notin> set h" for d using old [of r d] t(3) by auto
    show "\<not> ended h r"
    proof
      assume "ended h r"
      then obtain op c where oc: "Completed op c \<in> set h" "rc_request c = r" by (auto simp: ended_def)
      then obtain h1 h2 where "h = h1 @ Completed op c # h2" by (meson split_list)
      then have "read_justified jl session h1 (Completed op c)" using inv by (auto simp: reads_inv_def dest: each_eventD)
      then obtain d where "Registered r d \<in> set h1" using oc(2) by auto
      then show False using \<open>h = _\<close> old [of r d] t(3) by auto
    qed
  qed
  have e: "ended (h @ [Registered r d]) x \<longleftrightarrow> ended h x" for d x by (auto simp: ended_def)
  have "reads_ok b'" using ok rec_inv new reg kind t(2,3) unfolding b' by (fastforce simp: reads_ok_def)
  moreover have "waiting (h @ [Registered r (clock 0 + timeout)]) b'"
    using w fresh reg t(3) unfolding b' waiting_def e by fastforce
  ultimately show ?thesis using inv old reg t(3) Inr unfolding b' by (auto simp: reads_inv_def)
qed

text \<open>What an accepted receipt says about the frame it came in.\<close>

lemma transactions_accept_Some:
  assumes "transactions_accept plain g now r = (Inr (Some x), r')"
  shows "g = bt_generation r" "int (u64_at plain 4) = bt_session r" "int (u32_at plain 12) = q \<longrightarrow> map_of (bt_pending r) q \<noteq> None"
    "r' = r\<lparr>bt_pending := dict_pop (int (u32_at plain 12)) (bt_pending r)\<rparr>"
    "\<exists>d. map_of (bt_pending r) (int (u32_at plain 12)) = Some (tr_ticket x, d)"
    "uint (plain ! 1) = rt_kind (tr_ticket x)" "tr_result x = u16_at plain 26"
  using assms by (auto simp: transactions_accept_def receipt_header_ok_def bind_res_Inr Let_def split: if_splits sum.splits option.splits prod.splits)

lemma transactions_accept_other:
  assumes "transactions_accept plain g now r = (res, r')" "\<And>x. res \<noteq> Inr (Some x)"
  shows "r' = r"
  using assms by (auto simp: transactions_accept_def Let_def split: if_splits sum.splits option.splits prod.splits)

text \<open>A transport receipt is noted on the read it belongs to.\<close>

lemma note_inv:
  assumes inv: "reads_inv jl session h b" and p: "(k, p) \<in> set (br_pending b)" and q: "pr_request q = pr_request p" "pr_deadline q = pr_deadline p"
  shows "reads_inv jl session h (b\<lparr>br_pending := dict_set k q (br_pending b)\<rparr>)" (is "reads_inv _ _ _ ?b")
    "(k, q) \<in> set (dict_set k q (br_pending b))"
proof -
  have ok: "reads_ok b" and w: "waiting h b" using inv by (simp_all add: reads_inv_def)
  have d: "distinct (map fst (dict_set k q (br_pending b)))" using ok by (simp add: reads_ok_def)
  have set: "(k', x) \<in> set (dict_set k q (br_pending b)) \<longleftrightarrow> (if k' = k then x = q else (k', x) \<in> set (br_pending b))" for k' x
    using d by (simp add: set_dict_set)
  then show "(k, q) \<in> set (dict_set k q (br_pending b))" by simp
  have "fst (k, p) \<in> fst ` set (br_pending b)" using p by (rule imageI)
  then have len: "length (dict_set k q (br_pending b)) = length (br_pending b)" by (simp add: length_dict_set)
  have req: "\<exists>x'. (k', x') \<in> set (dict_set k q (br_pending b)) \<and> pr_request x' = pr_request x"
    if "(k', x) \<in> set (br_pending b)" for k' x
  proof (cases "k' = k")
    case True
    then have "x = p" using that p reads_ok_pending(2) [OF ok] by (metis option.inject)
    with True q set show ?thesis by auto
  qed (use that set in auto)
  have "reads_ok ?b" unfolding reads_ok_def
  proof (intro conjI)
    show "\<forall>(k, t, d) \<in> set (bt_pending (br_receipts ?b)). \<exists>p. (k, p) \<in> set (br_pending ?b) \<and> rq_ticket (pr_request p) = t"
    proof clarsimp
      fix k' t d assume "(k', t, d) \<in> set (bt_pending (br_receipts b))"
      then obtain x where "(k', x) \<in> set (br_pending b)" "rq_ticket (pr_request x) = t" using ok by (fastforce simp: reads_ok_def)
      with req [of k' x] show "\<exists>p. (k', p) \<in> set (dict_set k q (br_pending b)) \<and> rq_ticket (pr_request p) = t" by metis
    qed
  qed (use ok len d set p q in \<open>auto simp: reads_ok_def split: if_splits\<close>)
  moreover have "waiting h ?b" unfolding waiting_def
  proof (intro conjI allI impI)
    show "\<forall>(k, p) \<in> set (br_pending ?b). Registered (pr_request p) (pr_deadline p) \<in> set h \<and> \<not> ended h (pr_request p)"
      using w p q set by (auto simp: waiting_def split: if_splits)
    fix r dl assume r: "Registered r dl \<in> set h"
    then show "sequence_of r < next_of ?b" using w by (auto simp: waiting_def)
    have "ended h r \<or> (\<exists>k x. (k, x) \<in> set (br_pending b) \<and> pr_request x = r)" using w r by (auto simp: waiting_def)
    then show "ended h r \<or> (\<exists>k x. (k, x) \<in> set (br_pending ?b) \<and> pr_request x = r)" using req by fastforce
  qed
  ultimately show "reads_inv jl session h ?b" using inv by (simp add: reads_inv_def)
qed

lemma accept_inv:
  assumes inv: "reads_inv jl session h b" and p: "reads_accept jl plain g clock b = (res, b')"
  shows "reads_inv jl session (h @ (case res of Inr (Some c) \<Rightarrow> [Completed (RAccept plain g clock) c] | _ \<Rightarrow> [])) b'"
proof (cases "br_closed b \<or> \<not> transactions_active (br_receipts b)")
  case True
  then show ?thesis using p inv by (auto simp: reads_accept_def)
next
  case False
  then have se: "br_session b = session" "bt_session (br_receipts b) = session" using inv by (auto simp: reads_inv_def)
  have ok: "reads_ok b" using inv by (simp add: reads_inv_def)
  obtain tres rec where t: "transactions_accept plain g (clock 0) (br_receipts b) = (tres, rec)" by fastforce
  show ?thesis
  proof (cases "\<exists>x. tres = Inr (Some x)")
    case False': False
    then have rec: "rec = br_receipts b" using transactions_accept_other [OF t] by blast
    show ?thesis
    proof (cases tres)
      case (Inl e)
      then show ?thesis using p False t rec inv by (auto simp: reads_accept_def)
    next
      case (Inr x)
      with False' have "tres = Inr None" by (cases x) auto
      then obtain c where sc: "reads_scan jl plain g clock 1 (map snd (br_pending b)) b = (c, b')" "res = Inr c"
        using p False t rec by (auto simp: reads_accept_def split: prod.splits)
      from scan_inv [OF inv _ se(1) sc(1)] sc(2) inv show ?thesis by (auto split: option.splits)
    qed
  next
    case True
    then obtain x where x: "tres = Inr (Some x)" by blast
    note a = transactions_accept_Some [OF t [unfolded x]]
    obtain d where d: "map_of (bt_pending (br_receipts b)) (int (u32_at plain 12)) = Some (tr_ticket x, d)" using a(5) by blast
    obtain k pn where k: "k = int (u32_at plain 12)" "(k, pn) \<in> set (br_pending b)" "rq_ticket (pr_request pn) = tr_ticket x"
      using ok map_of_SomeD [OF d] by (fastforce simp: reads_ok_def)
    note pn = reads_ok_pending [OF ok k(2)]
    have bt: "bt_inv rec" unfolding a(4) using bt_inv_pop ok by (auto simp: reads_ok_def)
    have sub: "set (bt_pending rec) \<subseteq> set (bt_pending (br_receipts b))" unfolding a(4) by (auto simp: set_dict_pop)
    have inv1: "reads_inv jl session h (b\<lparr>br_receipts := rec\<rparr>)"
      by (rule receipts_inv [OF inv bt sub]) (simp_all add: a(4))
    let ?q = "pn\<lparr>pr_transport_result := Some (tr_result x)\<rparr>"
    let ?b2 = "b\<lparr>br_receipts := rec, br_pending := dict_set k ?q (br_pending b)\<rparr>"
    have inv2: "reads_inv jl session h ?b2" and kq: "(k, ?q) \<in> set (br_pending ?b2)"
      using note_inv [OF inv1, of k pn ?q] k(2) by simp_all
    have seq: "rt_sequence (tr_ticket x) = k" using pn(1) k(3) by simp
    have p': "(if clock 1 < pr_deadline pn then if tr_result x \<noteq> 0 then
        let (c, b) = reads_finish ?q ''transport_rejected'' None JNull ?b2 in (Inr (Some c), b) else (Inr None, ?b2)
        else (Inr None, b\<lparr>br_receipts := rec\<rparr>)) = (res, b')"
      using p False t x pn(2) seq by (simp add: reads_accept_def Let_def receipt_accepted_def cong: if_cong)
    show ?thesis
    proof (cases "clock 1 < pr_deadline pn \<and> tr_result x \<noteq> 0")
      case True
      obtain c b3 where f: "reads_finish ?q ''transport_rejected'' None JNull ?b2 = (c, b3)" by fastforce
      have ok2: "reads_ok ?b2" using inv2 by (simp add: reads_inv_def)
      have c: "rc_request c = pr_request pn" "rc_status c = ''transport_rejected''" "rc_transport_result c = Some (tr_result x)"
        using f reads_finish_eq [OF ok2 kq refl] by auto
      have "ended_by jl session (pr_deadline ?q) (RAccept plain g clock) c"
        using c True a k pn(3) seq se by auto
      from finish_inv [OF inv2 kq refl f this] True p' f show ?thesis by auto
    qed (use p' inv1 inv2 in \<open>auto split: if_splits\<close>)
  qed
qed

interpretation reads: machine "reads_exec jl" "\<lambda>b. \<exists>generation start sequences. reads_init session generation start sequences = Inr b"
  "reads_inv jl session" for jl session
proof
  fix b
  assume "\<exists>generation start sequences. reads_init session generation start sequences = Inr b"
  then show "reads_inv jl session [] b"
    by (auto simp: reads_init_def transactions_init_def bind_res_Inr reads_inv_def reads_ok_def bt_inv_def waiting_def split: if_splits)
next
  fix h b op es b'
  assume inv: "reads_inv jl session h b" and e: "reads_exec jl op b = (es, b')"
  show "reads_inv jl session (h @ es) b'"
  proof (cases op)
    case (RRegister device path timeout clock)
    obtain res b1 where r: "reads_register device path timeout clock b = (res, b1)" by fastforce
    from register_inv [OF inv r] RRegister e r show ?thesis by (cases res) auto
  next
    case (RAccept plain g clock)
    obtain res b1 where r: "reads_accept jl plain g clock b = (res, b1)" by fastforce
    from accept_inv [OF inv r] RAccept e r show ?thesis by (auto split: sum.splits option.splits)
  next
    case (RPoll clock)
    then show ?thesis using e poll_inv [OF inv] by (auto split: prod.splits)
  next
    case (RCancel t)
    obtain res b1 where r: "reads_cancel t b = (res, b1)" by fastforce
    from cancel_inv [OF inv r] RCancel e r show ?thesis by (cases res) auto
  next
    case RClose
    then show ?thesis using e close_inv [OF inv] by (auto split: prod.splits)
  next
    case (ROthers n)
    have "bt_inv (br_receipts b)" using inv by (simp add: reads_inv_def reads_ok_def)
    from bt_exec_keeps [OF this, of "Others n"] ROthers e show ?thesis
      by (auto intro!: receipts_inv [OF inv])
  next
    case RSourceClosed
    have "bt_inv (br_receipts b)" using inv by (simp add: reads_inv_def reads_ok_def)
    then have "bt_inv ((br_receipts b)\<lparr>bt_sequences := sequences_close (bt_sequences (br_receipts b))\<rparr>)"
      by (simp add: bt_inv_def sequences_close_def)
    from receipts_inv [OF inv this] RSourceClosed e show ?thesis by (auto simp: sequences_close_def)
  qed
qed

section \<open>What the account may rely on\<close>

text \<open>
  C36. A property read ends at most once, and only a read that was registered ends. It ends with a
  response only on a frame, heard before its deadline, that correlates with its own ticket,
  generation, session and device, and the response is that frame's; as rejected only on a
  transport receipt for its own sequence number with a nonzero result; with a timeout only
  when a poll found its deadline passed; as cancelled only by a cancel of its ticket or the close.
  This holds for receipts and answers in either order and for every interleaving with other
  users of the sequence numbers.
\<close>
theorem read_ends_once:
  assumes "reads_init session generation start sequences = Inr b0"
    "run_ops (reads_exec json_loads) ops b0 = (h1 @ Completed op c # h2, b)"
  shows "(\<forall>op' c'. Completed op' c' \<in> set h1 \<longrightarrow> rc_request c' \<noteq> rc_request c) \<and>
    (\<exists>deadline. Registered (rc_request c) deadline \<in> set h1 \<and> ended_by json_loads session deadline op c)"
proof -
  have "reads_inv json_loads session (h1 @ Completed op c # h2) b" using reads.reachable_inv [OF _ assms(2)] assms(1) by blast
  then have "read_justified json_loads session h1 (Completed op c)" by (auto simp: reads_inv_def dest: each_eventD)
  then show ?thesis by (auto simp: ended_def)
qed

lemma registered_unique:
  "each_event (read_justified jl session) h \<Longrightarrow> Registered r d \<in> set h \<Longrightarrow> Registered r d' \<in> set h \<Longrightarrow> d = d'"
proof (induction h rule: rev_induct)
  case (snoc e h)
  then show ?case by (cases e) (force, simp)
qed simp

text \<open>
  C37. No read is forgotten. At most eight wait; after a poll every registered read whose
  deadline the poll's clock reached has ended, and after the close every registered read has.
\<close>
theorem reads_all_end:
  assumes "reads_init session generation start sequences = Inr b0" "final \<in> {RPoll clock, RClose}"
    "run_ops (reads_exec json_loads) (ops @ [final]) b0 = (h, b)" "Registered r deadline \<in> set h"
    "final = RPoll clock \<Longrightarrow> deadline \<le> clock 0"
  shows "length (br_pending b) \<le> 8 \<and> (\<exists>op c. Completed op c \<in> set h \<and> rc_request c = r)"
proof -
  obtain g b1 where g: "run_ops (reads_exec json_loads) ops b0 = (g, b1)" by fastforce
  then obtain es where es: "reads_exec json_loads final b1 = (es, b)" "h = g @ es"
    using assms(3) by (auto simp: run_ops_append split: prod.splits)
  have inv: "reads_inv json_loads session g b1" "reads_inv json_loads session h b"
    using reads.reachable_inv [OF _ g] reads.reachable_inv [OF _ assms(3)] assms(1) by blast+
  have gone: "deadline > clock 0 \<and> final = RPoll clock" if "(k, p) \<in> set (br_pending b)" "pr_request p = r" for k p
  proof (cases "final = RClose")
    case True
    then show ?thesis using es close_inv [OF inv(1)] that by (auto split: prod.splits)
  next
    case False
    then have l: "final = RPoll clock" using assms(2) by simp
    then have "clock 0 < pr_deadline p" using es poll_inv [OF inv(1), of clock] that(1) by (cases "reads_poll clock b1") auto
    moreover have "pr_deadline p = deadline"
    proof -
      have "Registered r (pr_deadline p) \<in> set h" using inv(2) that by (auto simp: reads_inv_def waiting_def)
      with assms(4) registered_unique [of json_loads session h] inv(2) show ?thesis by (auto simp: reads_inv_def)
    qed
    ultimately show ?thesis using l by simp
  qed
  have "ended h r \<or> (\<exists>k p. (k, p) \<in> set (br_pending b) \<and> pr_request p = r)" using inv(2) assms(4) by (auto simp: reads_inv_def waiting_def)
  with gone assms(5) have "ended h r" by fastforce
  then show ?thesis using inv(2) by (auto simp: ended_def reads_inv_def reads_ok_def)
qed

definition demo_reply :: bytes where
  "demo_reply = [0x7E, 0xB8, 38, 0, 7, 0, 0, 0, 0, 0, 0, 0, 0, 0, 0, 0, 5, 0, 0, 0, 0, 0, 0x22, 0, 9, 0, 0, 0, 0, 0, 0, 0, 0, 0, 0, 0, 3, 0]"

definition demo_request :: read_request where
  "demo_request = \<lparr>rq_ticket = \<lparr>rt_generation = 1, rt_sequence = 5, rt_kind = 0xB7\<rparr>, rq_device_id = 9, rq_path = ''ProReadonly.devInfo''\<rparr>"

lemma demo_reply_matches:
  "match_model_reply jl demo_reply (rq_ticket demo_request) 1 7 9 =
     Some \<lparr>cm_ticket = rq_ticket demo_request, cm_error_code = 3, cm_value = JNull\<rparr>"
proof -
  have b: "bit (2228224 :: nat) 21" "\<not> bit (2228224 :: nat) 20" "drop_bit 16 (2228224 :: nat) AND 3 = 2" by (simp_all add: bit_iff_odd drop_bit_eq_div)
  have "u16_at demo_reply 2 = 38" "u64_at demo_reply 4 = 7" "u32_at demo_reply 16 = 5" "u32_at demo_reply 20 = 2228224" "u64_at demo_reply 24 = 9"
    "u16_at demo_reply 36 = 3" "length demo_reply = 38" "demo_reply ! 0 = 0x7E" "demo_reply ! 1 = 0xB8" "demo_reply ! 32 = 0"
    by (simp_all add: demo_reply_def pyslice_def)
  then show ?thesis using b by (simp add: match_model_reply_def parse_model_read_response_def reply_correlated_def
        MAX_REPLY_BYTES_def demo_request_def mask_int_def bounded_value_iff)
qed

theorem read_ends_once_witness:
  "\<exists>b0 b c. reads_init 7 1 5 None = Inr b0 \<and>
     run_ops (reads_exec (\<lambda>_. None)) [RRegister 9 ''ProReadonly.devInfo'' 2 (\<lambda>_. 0), RAccept demo_reply 1 (\<lambda>_. 1)] b0 =
       ([Registered demo_request 2, Completed (RAccept demo_reply 1 (\<lambda>_. 1)) c], b) \<and>
     rc_error_code c = Some 3 \<and> ended_by (\<lambda>_. None) 7 2 (RAccept demo_reply 1 (\<lambda>_. 1)) c"
proof -
  let ?ops = "[RRegister 9 ''ProReadonly.devInfo'' 2 (\<lambda>_. 0), RAccept demo_reply 1 (\<lambda>_. 1)]"
  obtain b0 where b0: "reads_init 7 1 5 None = Inr b0" "br_receipts b0 = demo_transactions" "br_session b0 = 7" "br_pending b0 = []" "\<not> br_closed b0"
    by (auto simp: reads_init_def transactions_init_def sequences_init_def demo_transactions_def intro: that)
  have len: "length demo_reply \<noteq> 32" by (simp add: demo_reply_def)
  obtain c b where r: "run_ops (reads_exec (\<lambda>_. None)) ?ops b0 = ([Registered demo_request 2] @ Completed (RAccept demo_reply 1 (\<lambda>_. 1)) c # [], b)"
    and c: "rc_error_code c = Some 3"
    using b0(2-5) len demo_reply_matches
    by (auto simp: reads_register_def reads_accept_def transactions_register_def transactions_active_def sequences_match_def sequences_allocate_def
        sequences_reserve_def demo_transactions_def MODEL_READ_PATHS_def transactions_accept_def receipt_header_ok_def reads_finish_def
        demo_request_def Let_def split: prod.splits)
  from read_ends_once [OF b0(1) r] have "ended_by (\<lambda>_. None) 7 2 (RAccept demo_reply 1 (\<lambda>_. 1)) c" by auto
  with b0(1) r c show ?thesis by auto
qed

theorem reads_all_end_witness:
  "\<exists>b0 h b op c. reads_init 7 1 5 None = Inr b0 \<and>
     run_ops (reads_exec (\<lambda>_. None)) ([RRegister 9 ''ProReadonly.devInfo'' 2 (\<lambda>_. 0)] @ [RPoll (\<lambda>_. 2)]) b0 = (h, b) \<and>
     Completed op c \<in> set h \<and> rc_request c = demo_request"
proof -
  obtain b0 where b0: "reads_init 7 1 5 None = Inr b0" "br_receipts b0 = demo_transactions" "br_session b0 = 7" "br_pending b0 = []" "\<not> br_closed b0"
    by (auto simp: reads_init_def transactions_init_def sequences_init_def demo_transactions_def intro: that)
  obtain h b where r: "run_ops (reads_exec (\<lambda>_. None)) ([RRegister 9 ''ProReadonly.devInfo'' 2 (\<lambda>_. 0)] @ [RPoll (\<lambda>_. 2)]) b0 = (h, b)" by fastforce
  then have h: "Registered demo_request 2 \<in> set h" using b0(2-5)
    by (auto simp: reads_register_def transactions_register_def transactions_active_def sequences_match_def sequences_allocate_def
        sequences_reserve_def demo_transactions_def MODEL_READ_PATHS_def demo_request_def Let_def split: prod.splits)
  from reads_all_end [OF b0(1) _ r h] b0(1) r show ?thesis by auto
qed

end
