(* ===== verification/Mailbox.thy ===== *)
theory Mailbox
  imports Reads
begin

text \<open>
  The bounded admission of property reads (\<^verbatim>\<open>broker_mailbox.py\<close>): any number of callers submit,
  cancel and take, one worker polls, binds and finishes, all under one lock, so an execution
  is a sequence of calls. A slot lives from its submission until its outcome was taken and,
  when the worker had claimed it and it was stopped, until the worker acknowledged the
  cancellation. Each call reads the clock once; the reading is an argument.
\<close>

section \<open>State\<close>

definition ACCOUNT_IDENTITY_READ_PATHS :: "string list" where
  "ACCOUNT_IDENTITY_READ_PATHS = [''ProConst._productInfo'', ''ProConst._versionInfo'', ''ProReadonly.devInfo'']"

definition ACCOUNT_STATE_READ_PATHS :: "string list" where
  "ACCOUNT_STATE_READ_PATHS = [''ProWritable.volume'', ''ProWritable.guardParm'', ''ProWritable.videoParm'', ''ProWritable.resFile'', ''Action.expelCtrl'']"

record mailbox_ticket =
  mt_generation :: int
  mt_sequence :: int

record read_submission =
  su_ticket :: mailbox_ticket
  su_device_id :: int
  su_path :: string
  su_deadline :: time

record read_outcome =
  ro_status :: string
  ro_completion :: "read_completion option"

type_synonym bound_outcome = "read_request option \<times> read_outcome"

record slot =
  sl_submission :: read_submission
  sl_claimed :: bool
  sl_outcome :: "read_outcome option"
  sl_consumed :: bool
  sl_cancel_pending :: bool
  sl_request :: "read_request option"

record broker_mailbox =
  bm_read_paths :: "string list"
  bm_generation :: int
  bm_slots :: "(mailbox_ticket, slot) dict"
  bm_next :: int
  bm_closed :: bool

section \<open>Operations\<close>

definition mailbox_init :: "int \<Rightarrow> bool \<Rightarrow> exn + broker_mailbox" where
  "mailbox_init generation state_reads =
     (if generation \<le> 0 then Inl (ValueError ''invalid mailbox generation'')
      else Inr \<lparr>bm_read_paths = ACCOUNT_IDENTITY_READ_PATHS @ (if state_reads then ACCOUNT_STATE_READ_PATHS else []),
                bm_generation = generation, bm_slots = [], bm_next = 0, bm_closed = False\<rparr>)"

definition mailbox_submit :: "int \<Rightarrow> string \<Rightarrow> time \<Rightarrow> time \<Rightarrow> broker_mailbox \<Rightarrow> (exn + mailbox_ticket) \<times> broker_mailbox" where
  "mailbox_submit device_id path timeout now b =
     (if \<not> (0 < device_id \<and> device_id < 2 ^ 64) \<or> path \<notin> set (bm_read_paths b) \<or> \<not> (0 < timeout \<and> timeout \<le> MAX_TIMEOUT)
      then (Inl (ValueError ''invalid bounded read submission''), b)
      else if bm_closed b \<or> bm_next b \<ge> 2 ^ 64 then (Inl (ValueError ''mailbox closed or sequence exhausted''), b)
      else if length (bm_slots b) \<ge> MAX_PENDING then (Inl (ValueError ''mailbox capacity exhausted''), b)
      else let ticket = \<lparr>mt_generation = bm_generation b, mt_sequence = bm_next b\<rparr>;
               submission = \<lparr>su_ticket = ticket, su_device_id = device_id, su_path = path, su_deadline = now + timeout\<rparr>
      in (Inr ticket, b\<lparr>bm_next := bm_next b + 1,
            bm_slots := dict_set ticket \<lparr>sl_submission = submission, sl_claimed = False, sl_outcome = None, sl_consumed = False,
                          sl_cancel_pending = False, sl_request = None\<rparr> (bm_slots b)\<rparr>))"

definition slot_stop :: "string \<Rightarrow> slot \<Rightarrow> slot" where
  "slot_stop status s =
     (if sl_outcome s = None \<and> \<not> sl_consumed s
      then s\<lparr>sl_outcome := Some \<lparr>ro_status = status, ro_completion = None\<rparr>, sl_cancel_pending := sl_claimed s\<rparr> else s)"

definition slot_expire :: "time \<Rightarrow> slot \<Rightarrow> slot" where
  "slot_expire now s = (if now \<ge> su_deadline (sl_submission s) then slot_stop ''timeout'' s else s)"

fun poll_slots :: "time \<Rightarrow> bool \<Rightarrow> (mailbox_ticket, slot) dict \<Rightarrow> read_submission list \<times> mailbox_ticket list \<times> (mailbox_ticket, slot) dict" where
  "poll_slots now shut [] = ([], [], [])"
| "poll_slots now shut ((ticket, s) # rest) =
     (let s = slot_expire now s; claims = \<not> sl_claimed s \<and> sl_outcome s = None \<and> \<not> shut;
          (submissions, cancellations, rest) = poll_slots now shut rest
      in ((if claims then [sl_submission s] else []) @ submissions,
          (if sl_cancel_pending s then [ticket] else []) @ cancellations,
          (ticket, if claims then s\<lparr>sl_claimed := True\<rparr> else s) # rest))"

definition mailbox_poll :: "time \<Rightarrow> broker_mailbox \<Rightarrow> read_submission list \<times> mailbox_ticket list \<times> broker_mailbox" where
  "mailbox_poll now b =
     (let (submissions, cancellations, slots) = poll_slots now (bm_closed b) (bm_slots b)
      in (submissions, cancellations, b\<lparr>bm_slots := slots\<rparr>))"

definition mailbox_acknowledge_cancel :: "mailbox_ticket \<Rightarrow> broker_mailbox \<Rightarrow> bool \<times> broker_mailbox" where
  "mailbox_acknowledge_cancel ticket b =
     (case map_of (bm_slots b) ticket of
        None \<Rightarrow> (False, b)
      | Some s \<Rightarrow>
          if \<not> sl_cancel_pending s then (False, b)
          else (True, b\<lparr>bm_slots := if sl_consumed s then dict_pop ticket (bm_slots b)
                                    else dict_set ticket (s\<lparr>sl_cancel_pending := False\<rparr>) (bm_slots b)\<rparr>))"

definition mailbox_bind :: "mailbox_ticket \<Rightarrow> read_request \<Rightarrow> time \<Rightarrow> broker_mailbox \<Rightarrow> bool \<times> broker_mailbox" where
  "mailbox_bind ticket request now b =
     (case map_of (bm_slots b) ticket of
        None \<Rightarrow> (False, b)
      | Some s \<Rightarrow>
          if \<not> sl_claimed s \<or> sl_request s \<noteq> None \<or> sl_outcome s \<noteq> None \<or> sl_consumed s \<or>
             now \<ge> su_deadline (sl_submission s) \<or> rt_generation (rq_ticket request) \<noteq> bm_generation b \<or>
             rt_kind (rq_ticket request) \<noteq> 0xB7 \<or> rq_device_id request \<noteq> su_device_id (sl_submission s) \<or>
             rq_path request \<noteq> su_path (sl_submission s) \<or>
             (\<exists>(k, x) \<in> set (bm_slots b). case sl_request x of None \<Rightarrow> False | Some r \<Rightarrow> rq_ticket r = rq_ticket request)
          then (False, b)
          else (True, b\<lparr>bm_slots := dict_set ticket (s\<lparr>sl_request := Some request\<rparr>) (bm_slots b)\<rparr>))"

definition mailbox_finish :: "mailbox_ticket \<Rightarrow> read_completion \<Rightarrow> time \<Rightarrow> broker_mailbox \<Rightarrow> bool \<times> broker_mailbox" where
  "mailbox_finish ticket completion now b =
     (case map_of (bm_slots b) ticket of
        None \<Rightarrow> (False, b)
      | Some s \<Rightarrow>
          if \<not> sl_claimed s \<or> sl_outcome s \<noteq> None \<or> sl_consumed s \<or> sl_request s \<noteq> Some (rc_request completion) then (False, b)
          else let outcome = (if now \<ge> su_deadline (sl_submission s) then \<lparr>ro_status = ''timeout'', ro_completion = None\<rparr>
                              else \<lparr>ro_status = rc_status completion, ro_completion = Some completion\<rparr>)
          in (True, b\<lparr>bm_slots := dict_set ticket (s\<lparr>sl_outcome := Some outcome\<rparr>) (bm_slots b)\<rparr>))"

definition mailbox_cancel :: "mailbox_ticket \<Rightarrow> broker_mailbox \<Rightarrow> bool \<times> broker_mailbox" where
  "mailbox_cancel ticket b =
     (case map_of (bm_slots b) ticket of
        None \<Rightarrow> (False, b)
      | Some s \<Rightarrow>
          if sl_outcome s \<noteq> None \<or> sl_consumed s then (False, b)
          else (True, b\<lparr>bm_slots := dict_set ticket (slot_stop ''cancelled'' s) (bm_slots b)\<rparr>))"

definition mailbox_ready :: "mailbox_ticket \<Rightarrow> time \<Rightarrow> broker_mailbox \<Rightarrow> bool \<times> broker_mailbox" where
  "mailbox_ready ticket now b =
     (case map_of (bm_slots b) ticket of
        None \<Rightarrow> (False, b)
      | Some s \<Rightarrow>
          let s = slot_expire now s
          in (sl_request s \<noteq> None \<and> sl_outcome s = None \<and> \<not> sl_consumed s, b\<lparr>bm_slots := dict_set ticket s (bm_slots b)\<rparr>))"

definition mailbox_take_bound :: "mailbox_ticket \<Rightarrow> time \<Rightarrow> broker_mailbox \<Rightarrow> bound_outcome option \<times> broker_mailbox" where
  "mailbox_take_bound ticket now b =
     (case map_of (bm_slots b) ticket of
        None \<Rightarrow> (None, b)
      | Some s \<Rightarrow>
          if sl_consumed s then (None, b)
          else let s = slot_expire now s
          in case sl_outcome s of
               None \<Rightarrow> (None, b\<lparr>bm_slots := dict_set ticket s (bm_slots b)\<rparr>)
             | Some outcome \<Rightarrow>
                 (Some (sl_request s, outcome),
                  b\<lparr>bm_slots := if sl_cancel_pending s then dict_set ticket (s\<lparr>sl_outcome := None, sl_consumed := True\<rparr>) (bm_slots b)
                                else dict_pop ticket (bm_slots b)\<rparr>))"

definition mailbox_take :: "mailbox_ticket \<Rightarrow> time \<Rightarrow> broker_mailbox \<Rightarrow> read_outcome option \<times> broker_mailbox" where
  "mailbox_take ticket now b = (case mailbox_take_bound ticket now b of (bound, b) \<Rightarrow> (map_option snd bound, b))"

definition mailbox_close :: "broker_mailbox \<Rightarrow> broker_mailbox" where
  "mailbox_close b = b\<lparr>bm_closed := True, bm_slots := map (\<lambda>(t, s). (t, slot_stop ''cancelled'' s)) (bm_slots b)\<rparr>"

definition mailbox_drain :: "broker_mailbox \<Rightarrow> broker_mailbox" where
  "mailbox_drain b = b\<lparr>bm_closed := True,
     bm_slots := map (\<lambda>(t, s). (t, if \<not> sl_claimed s then slot_stop ''cancelled'' s else s)) (bm_slots b)\<rparr>"

section \<open>Well-formed mailboxes\<close>

text \<open>
  What the fields of a slot may say together, when the mailbox is of generation \<open>g\<close>. A
  stopped slot that the worker holds waits for its acknowledgement; a consumed slot waits
  for nothing else; a completion is the one of the request bound to the slot.
\<close>

definition outcome_ok :: "read_request option \<Rightarrow> read_outcome \<Rightarrow> bool" where
  "outcome_ok rq q \<longleftrightarrow> (case ro_completion q of
       None \<Rightarrow> ro_status q \<in> {''timeout'', ''cancelled''}
     | Some c \<Rightarrow> ro_status q = rc_status c \<and> rq = Some (rc_request c))"

definition slot_wf :: "int \<Rightarrow> slot \<Rightarrow> bool" where
  "slot_wf g s \<longleftrightarrow> (sl_consumed s \<longrightarrow> sl_outcome s = None \<and> sl_cancel_pending s) \<and>
     (sl_cancel_pending s \<longrightarrow> sl_claimed s) \<and>
     (\<forall>r. sl_request s = Some r \<longrightarrow> sl_claimed s \<and> rq_device_id r = su_device_id (sl_submission s) \<and> rq_path r = su_path (sl_submission s) \<and>
        rt_generation (rq_ticket r) = g \<and> rt_kind (rq_ticket r) = 0xB7) \<and>
     (\<forall>q. sl_outcome s = Some q \<longrightarrow> outcome_ok (sl_request s) q \<and> (ro_completion q \<noteq> None \<longrightarrow> \<not> sl_cancel_pending s)) \<and>
     (sl_cancel_pending s \<longrightarrow> sl_consumed s \<or> sl_outcome s \<noteq> None)"

definition slot_in :: "broker_mailbox \<Rightarrow> mailbox_ticket \<Rightarrow> slot \<Rightarrow> bool" where
  "slot_in b t s \<longleftrightarrow> su_ticket (sl_submission s) = t \<and> mt_generation t = bm_generation b \<and> mt_sequence t < bm_next b \<and> slot_wf (bm_generation b) s"

definition requests_unique :: "(mailbox_ticket, slot) dict \<Rightarrow> bool" where
  "requests_unique slots \<longleftrightarrow> (\<forall>(t, s) \<in> set slots. \<forall>(t', s') \<in> set slots. \<forall>r r'.
     sl_request s = Some r \<and> sl_request s' = Some r' \<and> rq_ticket r = rq_ticket r' \<longrightarrow> t = t')"

definition mailbox_wf :: "broker_mailbox \<Rightarrow> bool" where
  "mailbox_wf b \<longleftrightarrow> length (bm_slots b) \<le> MAX_PENDING \<and> distinct (map fst (bm_slots b)) \<and>
     (\<forall>(t, s) \<in> set (bm_slots b). slot_in b t s) \<and> requests_unique (bm_slots b)"

section \<open>Runs\<close>

datatype mailbox_op =
    MSubmit int string time time
  | MPoll time
  | MAck mailbox_ticket
  | MBind mailbox_ticket read_request time
  | MFinish mailbox_ticket read_completion time
  | MCancel mailbox_ticket
  | MReady mailbox_ticket time
  | MTake mailbox_ticket time
  | MClose
  | MDrain

datatype mailbox_event =
    Admitted mailbox_ticket int string
  | Handed mailbox_ticket
  | CancelAsked mailbox_ticket
  | Acked mailbox_ticket
  | Bound mailbox_ticket read_request
  | Finished mailbox_ticket read_completion
  | Withdrawn mailbox_ticket
  | Ready mailbox_ticket
  | Taken mailbox_ticket bound_outcome
  | Shut

fun mailbox_exec :: "mailbox_op \<Rightarrow> broker_mailbox \<Rightarrow> mailbox_event list \<times> broker_mailbox" where
  "mailbox_exec (MSubmit device path timeout now) b =
     (case mailbox_submit device path timeout now b of (Inl e, b) \<Rightarrow> ([], b) | (Inr t, b) \<Rightarrow> ([Admitted t device path], b))"
| "mailbox_exec (MPoll now) b =
     (case mailbox_poll now b of (ss, cs, b) \<Rightarrow> (map CancelAsked cs @ map (\<lambda>s. Handed (su_ticket s)) ss, b))"
| "mailbox_exec (MAck t) b = (case mailbox_acknowledge_cancel t b of (ok, b) \<Rightarrow> (if ok then [Acked t] else [], b))"
| "mailbox_exec (MBind t r now) b = (case mailbox_bind t r now b of (ok, b) \<Rightarrow> (if ok then [Bound t r] else [], b))"
| "mailbox_exec (MFinish t c now) b = (case mailbox_finish t c now b of (ok, b) \<Rightarrow> (if ok then [Finished t c] else [], b))"
| "mailbox_exec (MCancel t) b = (case mailbox_cancel t b of (ok, b) \<Rightarrow> (if ok then [Withdrawn t] else [], b))"
| "mailbox_exec (MReady t now) b = (case mailbox_ready t now b of (ok, b) \<Rightarrow> (if ok then [Ready t] else [], b))"
| "mailbox_exec (MTake t now) b = (case mailbox_take_bound t now b of (None, b) \<Rightarrow> ([], b) | (Some x, b) \<Rightarrow> ([Taken t x], b))"
| "mailbox_exec MClose b = ([Shut], mailbox_close b)"
| "mailbox_exec MDrain b = ([Shut], mailbox_drain b)"

text \<open>The ticket an event is about.\<close>

fun about :: "mailbox_event \<Rightarrow> mailbox_ticket option" where
  "about (Admitted t d p) = Some t"
| "about (Handed t) = Some t"
| "about (CancelAsked t) = Some t"
| "about (Acked t) = Some t"
| "about (Bound t r) = Some t"
| "about (Finished t c) = Some t"
| "about (Withdrawn t) = Some t"
| "about (Ready t) = Some t"
| "about (Taken t x) = Some t"
| "about Shut = None"

text \<open>The request is still of interest to its caller: not taken and not withdrawn.\<close>

definition wanted :: "mailbox_event list \<Rightarrow> mailbox_ticket \<Rightarrow> bool" where
  "wanted h t \<longleftrightarrow> (\<forall>x. Taken t x \<notin> set h) \<and> Withdrawn t \<notin> set h"

fun mail_justified :: "mailbox_event list \<Rightarrow> mailbox_event \<Rightarrow> bool" where
  "mail_justified h (Admitted t d p) \<longleftrightarrow> (\<forall>e \<in> set h. about e \<noteq> Some t) \<and> Shut \<notin> set h"
| "mail_justified h (Handed t) \<longleftrightarrow> Handed t \<notin> set h \<and> Shut \<notin> set h \<and> wanted h t \<and> (\<exists>d p. Admitted t d p \<in> set h)"
| "mail_justified h (CancelAsked t) \<longleftrightarrow> Handed t \<in> set h"
| "mail_justified h (Acked t) \<longleftrightarrow> Handed t \<in> set h"
| "mail_justified h (Bound t r) \<longleftrightarrow> Handed t \<in> set h \<and> (\<forall>r'. Bound t r' \<notin> set h) \<and> wanted h t \<and>
     Admitted t (rq_device_id r) (rq_path r) \<in> set h"
| "mail_justified h (Finished t c) \<longleftrightarrow> Bound t (rc_request c) \<in> set h \<and> (\<forall>c'. Finished t c' \<notin> set h) \<and> wanted h t"
| "mail_justified h (Withdrawn t) \<longleftrightarrow> wanted h t \<and> (\<forall>c'. Finished t c' \<notin> set h)"
| "mail_justified h (Ready t) \<longleftrightarrow> (\<exists>r. Bound t r \<in> set h) \<and> (\<forall>c'. Finished t c' \<notin> set h) \<and> wanted h t"
| "mail_justified h (Taken t (rq, q)) \<longleftrightarrow> (\<forall>x. Taken t x \<notin> set h) \<and> (\<exists>d p. Admitted t d p \<in> set h) \<and>
     (\<forall>r. rq = Some r \<longleftrightarrow> Bound t r \<in> set h) \<and> (case ro_completion q of
          None \<Rightarrow> ro_status q \<in> {''timeout'', ''cancelled''}
        | Some c \<Rightarrow> Finished t c \<in> set h \<and> ro_status q = rc_status c \<and> rq = Some (rc_request c))"
| "mail_justified h Shut \<longleftrightarrow> True"

definition slot_hist :: "mailbox_event list \<Rightarrow> mailbox_ticket \<Rightarrow> slot \<Rightarrow> bool" where
  "slot_hist h t s \<longleftrightarrow> Admitted t (su_device_id (sl_submission s)) (su_path (sl_submission s)) \<in> set h \<and>
     (sl_claimed s \<longleftrightarrow> Handed t \<in> set h) \<and> (\<forall>r. sl_request s = Some r \<longleftrightarrow> Bound t r \<in> set h) \<and>
     (sl_consumed s \<longleftrightarrow> (\<exists>x. Taken t x \<in> set h)) \<and>
     (\<forall>c. Finished t c \<in> set h \<longrightarrow> sl_outcome s \<noteq> None \<and> \<not> sl_consumed s \<and> \<not> sl_cancel_pending s) \<and>
     (\<forall>q c. sl_outcome s = Some q \<and> ro_completion q = Some c \<longrightarrow> Finished t c \<in> set h) \<and>
     (Withdrawn t \<in> set h \<longrightarrow> sl_outcome s \<noteq> None \<or> sl_consumed s)"

definition mailbox_inv :: "mailbox_event list \<Rightarrow> broker_mailbox \<Rightarrow> bool" where
  "mailbox_inv h b \<longleftrightarrow> mailbox_wf b \<and> (\<forall>(t, s) \<in> set (bm_slots b). slot_hist h t s) \<and> each_event mail_justified h \<and>
     (Shut \<in> set h \<longrightarrow> bm_closed b) \<and> (\<forall>e \<in> set h. \<forall>t. about e = Some t \<longrightarrow> mt_sequence t < bm_next b)"

section \<open>One slot changes\<close>

lemma slot_hist_other:
  assumes "\<forall>e \<in> set es. about e = Some t" "t' \<noteq> t"
  shows "slot_hist (h @ es) t' s \<longleftrightarrow> slot_hist h t' s"
proof -
  have "e \<notin> set es" if "about e = Some t'" for e using assms that by auto
  then have "Handed t' \<notin> set es" "Withdrawn t' \<notin> set es" "Bound t' r \<notin> set es" "Taken t' x \<notin> set es" "Finished t' c \<notin> set es" "Admitted t' d p \<notin> set es"
    for r x c d p by simp_all
  then show ?thesis by (simp add: slot_hist_def)
qed

lemma map_of_set:
  "mailbox_wf b \<Longrightarrow> map_of (bm_slots b) t = Some s \<longleftrightarrow> (t, s) \<in> set (bm_slots b)"
  by (simp add: mailbox_wf_def)

text \<open>The slot of \<open>t\<close> is replaced, in a call that makes the events \<open>es\<close> about it visible.\<close>

lemma uniqueD:
  "requests_unique d \<Longrightarrow> (t, s) \<in> set d \<Longrightarrow> (t', s') \<in> set d \<Longrightarrow> sl_request s = Some r \<Longrightarrow> sl_request s' = Some r' \<Longrightarrow>
     rq_ticket r = rq_ticket r' \<Longrightarrow> t = t'"
  unfolding requests_unique_def by fast

lemma unique_set:
  assumes d: "distinct (map fst d)" and u: "requests_unique d"
    and req: "\<And>t' x r r'. (t', x) \<in> set d \<Longrightarrow> sl_request x = Some r \<Longrightarrow> sl_request s' = Some r' \<Longrightarrow> rq_ticket r = rq_ticket r' \<Longrightarrow> t' = t"
  shows "requests_unique (dict_set t s' d)"
  unfolding requests_unique_def
proof (clarsimp simp: set_dict_set [OF d])
  fix t1 x t2 y r r'
  assume a: "if t1 = t then x = s' else (t1, x) \<in> set d" "if t2 = t then y = s' else (t2, y) \<in> set d"
    "sl_request x = Some r" "sl_request y = Some r'" "rq_ticket r = rq_ticket r'"
  show "t1 = t2"
  proof (cases "t1 = t")
    case True
    then have "x = s'" using a(1) by simp
    have "t2 = t" if "t2 \<noteq> t" by (rule req [of t2 y r' r]) (use a that \<open>x = s'\<close> in auto)
    with True show ?thesis by blast
  next
    case False
    then have x: "(t1, x) \<in> set d" using a(1) by simp
    show ?thesis
    proof (cases "t2 = t")
      case True
      then have "y = s'" using a(2) by simp
      have "t1 = t" by (rule req [of t1 x r r']) (use a x \<open>y = s'\<close> in auto)
      with True show ?thesis by simp
    next
      case False
      then show ?thesis using uniqueD [OF u x, of t2 y r r'] a by simp
    qed
  qed
qed

lemma set_inv:
  assumes inv: "mailbox_inv h b" and t: "map_of (bm_slots b) t = Some s"
    and wf: "slot_wf (bm_generation b) s'" "sl_submission s' = sl_submission s"
    and req: "\<And>t' x r r'. (t', x) \<in> set (bm_slots b) \<Longrightarrow> sl_request x = Some r \<Longrightarrow> sl_request s' = Some r' \<Longrightarrow> rq_ticket r = rq_ticket r' \<Longrightarrow> t' = t"
    and hist: "slot_hist (h @ es) t s'" and es: "\<forall>e \<in> set es. about e = Some t" and ev: "each_event mail_justified (h @ es)"
  shows "mailbox_inv (h @ es) (b\<lparr>bm_slots := dict_set t s' (bm_slots b)\<rparr>)" (is "mailbox_inv _ ?b")
proof -
  have w: "mailbox_wf b" using inv by (simp add: mailbox_inv_def)
  have ts: "(t, s) \<in> set (bm_slots b)" using t w by (simp add: map_of_set)
  have d: "distinct (map fst (bm_slots b))" and u: "requests_unique (bm_slots b)" using w by (simp_all add: mailbox_wf_def)
  note set = set_dict_set [OF d]
  have len: "length (bm_slots ?b) = length (bm_slots b)" using imageI [OF ts, of fst] by (simp add: length_dict_set)
  have own: "slot_in b t s" using w ts by (auto simp: mailbox_wf_def)
  have "slot_in ?b t' x" if "(t', x) \<in> set (bm_slots ?b)" for t' x
    using that own wf w by (cases "t' = t") (auto simp: set slot_in_def mailbox_wf_def)
  moreover have "requests_unique (bm_slots ?b)" using unique_set [OF d u req] by simp
  ultimately have "mailbox_wf ?b" using w len d unfolding mailbox_wf_def by auto
  moreover have "slot_hist (h @ es) t' x" if "(t', x) \<in> set (bm_slots ?b)" for t' x
    using that inv hist slot_hist_other [OF es] by (cases "t' = t") (auto simp: set mailbox_inv_def)
  moreover have "Shut \<notin> set es" using es by auto
  ultimately show ?thesis using inv ev es own by (auto simp: mailbox_inv_def slot_in_def)
qed

lemma slot_pop_inv:
  assumes inv: "mailbox_inv h b" and t: "map_of (bm_slots b) t = Some s"
    and es: "\<forall>e \<in> set es. about e = Some t" and ev: "each_event mail_justified (h @ es)"
  shows "mailbox_inv (h @ es) (b\<lparr>bm_slots := dict_pop t (bm_slots b)\<rparr>)" (is "mailbox_inv _ ?b")
proof -
  have w: "mailbox_wf b" using inv by (simp add: mailbox_inv_def)
  then have own: "mt_sequence t < bm_next b" using t by (auto simp: map_of_set mailbox_wf_def slot_in_def)
  have "requests_unique (bm_slots ?b)" using w by (fastforce simp: requests_unique_def mailbox_wf_def set_dict_pop)
  moreover have "slot_in ?b t' x" if "(t', x) \<in> set (bm_slots ?b)" for t' x
    using that w by (auto simp: set_dict_pop mailbox_wf_def slot_in_def)
  ultimately have "mailbox_wf ?b"
    using w length_dict_pop_le [of t "bm_slots b"] by (auto simp: mailbox_wf_def distinct_dict_pop)
  moreover have "slot_hist (h @ es) t' x" if "(t', x) \<in> set (bm_slots ?b)" for t' x
    using that inv slot_hist_other [OF es] by (auto simp: mailbox_inv_def set_dict_pop)
  moreover have "Shut \<notin> set es" using es by auto
  ultimately show ?thesis using inv ev es own by (auto simp: mailbox_inv_def)
qed

lemma slot_facts:
  assumes "mailbox_inv h b" "map_of (bm_slots b) t = Some s"
  shows "slot_wf (bm_generation b) s" "slot_hist h t s" "each_event mail_justified h" "slot_in b t s"
    "\<And>t' x r r'. (t', x) \<in> set (bm_slots b) \<Longrightarrow> sl_request x = Some r \<Longrightarrow> sl_request s = Some r' \<Longrightarrow> rq_ticket r = rq_ticket r' \<Longrightarrow> t' = t"
proof -
  have w: "mailbox_wf b" and ts: "(t, s) \<in> set (bm_slots b)" using assms by (simp_all add: mailbox_inv_def map_of_set)
  show "slot_in b t s" using w ts by (auto simp: mailbox_wf_def)
  then show "slot_wf (bm_generation b) s" by (simp add: slot_in_def)
  show "slot_hist h t s" "each_event mail_justified h" using assms(1) ts by (auto simp: mailbox_inv_def)
  show "t' = t" if "(t', x) \<in> set (bm_slots b)" "sl_request x = Some r" "sl_request s = Some r'" "rq_ticket r = rq_ticket r'" for t' x r r'
    using uniqueD [of "bm_slots b" t' x t s r r'] that w ts by (simp add: mailbox_wf_def)
qed

text \<open>The same when the slot keeps its request.\<close>

lemma keep_inv:
  assumes inv: "mailbox_inv h b" and t: "map_of (bm_slots b) t = Some s"
    and wf: "slot_wf (bm_generation b) s'" and keep: "sl_submission s' = sl_submission s" "sl_request s' = sl_request s"
    and hist: "slot_hist (h @ es) t s'" and es: "\<forall>e \<in> set es. about e = Some t" and ev: "each_event mail_justified (h @ es)"
  shows "mailbox_inv (h @ es) (b\<lparr>bm_slots := dict_set t s' (bm_slots b)\<rparr>)"
proof (rule set_inv [OF inv t wf keep(1) _ hist es ev])
  fix t' x r r' assume "(t', x) \<in> set (bm_slots b)" "sl_request x = Some r" "sl_request s' = Some r'" "rq_ticket r = rq_ticket r'"
  then show "t' = t" using slot_facts(5) [OF inv t, of t' x r r'] keep(2) by simp
qed

text \<open>Stopping and expiring a slot is no event of its own.\<close>

lemma stop_keeps:
  assumes "slot_wf g s" "status \<in> {''timeout'', ''cancelled''}"
  shows "slot_wf g (slot_stop status s)" "slot_hist h t s \<Longrightarrow> slot_hist h t (slot_stop status s)"
  using assms by (auto simp: slot_stop_def slot_wf_def slot_hist_def outcome_ok_def)

lemma slot_stop_fields [simp]:
  "sl_submission (slot_stop status s) = sl_submission s" "sl_claimed (slot_stop status s) = sl_claimed s"
  "sl_request (slot_stop status s) = sl_request s" "sl_consumed (slot_stop status s) = sl_consumed s"
  by (simp_all add: slot_stop_def)

lemma slot_expire_fields [simp]:
  "sl_submission (slot_expire now s) = sl_submission s" "sl_claimed (slot_expire now s) = sl_claimed s"
  "sl_request (slot_expire now s) = sl_request s" "sl_consumed (slot_expire now s) = sl_consumed s"
  by (simp_all add: slot_expire_def)

lemma expire_keeps:
  "slot_wf g s \<Longrightarrow> slot_wf g (slot_expire now s)" "slot_wf g s \<Longrightarrow> slot_hist h t s \<Longrightarrow> slot_hist h t (slot_expire now s)"
  using stop_keeps by (auto simp: slot_expire_def)

lemma expire_inv:
  assumes inv: "mailbox_inv h b" and t: "map_of (bm_slots b) t = Some s"
  shows "mailbox_inv h (b\<lparr>bm_slots := dict_set t (slot_expire now s) (bm_slots b)\<rparr>)"
  using keep_inv [OF inv t, of "slot_expire now s" "[]"] slot_facts(1-3) [OF inv t] expire_keeps by simp

section \<open>All slots change\<close>

lemma map_inv:
  assumes inv: "mailbox_inv h b"
    and f: "\<And>t s. (t, s) \<in> set (bm_slots b) \<Longrightarrow> slot_wf (bm_generation b) (f s) \<and> sl_submission (f s) = sl_submission s \<and>
        sl_request (f s) = sl_request s \<and> slot_hist (h @ es) t (f s)"
    and es: "\<And>e t. e \<in> set es \<Longrightarrow> about e = Some t \<Longrightarrow> t \<in> fst ` set (bm_slots b)" and ev: "each_event mail_justified (h @ es)"
    and c: "bm_closed b \<Longrightarrow> c" "Shut \<in> set es \<Longrightarrow> c"
  shows "mailbox_inv (h @ es) (b\<lparr>bm_closed := c, bm_slots := map (\<lambda>(t, s). (t, f s)) (bm_slots b)\<rparr>)" (is "mailbox_inv _ ?b")
proof -
  have w: "mailbox_wf b" using inv by (simp add: mailbox_inv_def)
  have keys: "map fst (bm_slots ?b) = map fst (bm_slots b)" by (simp add: comp_def split_beta)
  have own: "slot_in b t s" if "(t, s) \<in> set (bm_slots b)" for t s using w that by (auto simp: mailbox_wf_def)
  have "slot_in ?b t s" if "(t, s) \<in> set (bm_slots ?b)" for t s
    using that own f by (fastforce simp: slot_in_def)
  moreover have "requests_unique (bm_slots ?b)" unfolding requests_unique_def
  proof (clarsimp)
    fix t x t' y r r' assume a: "(t, x) \<in> set (bm_slots b)" "(t', y) \<in> set (bm_slots b)" "sl_request (f x) = Some r" "sl_request (f y) = Some r'" "rq_ticket r = rq_ticket r'"
    show "t = t'" by (rule uniqueD [of "bm_slots b" t x t' y r r']) (use w a f in \<open>simp_all add: mailbox_wf_def\<close>)
  qed
  moreover have "distinct (map fst (bm_slots ?b))" using w unfolding keys mailbox_wf_def by blast
  moreover have "length (bm_slots ?b) \<le> 8" using w by (simp add: mailbox_wf_def)
  ultimately have "mailbox_wf ?b" unfolding mailbox_wf_def by blast
  moreover have "\<forall>(t, s) \<in> set (bm_slots ?b). slot_hist (h @ es) t s" using f by auto
  moreover have "mt_sequence t < bm_next b" if "e \<in> set es" "about e = Some t" for e t
    using es [OF that] own by (auto simp: slot_in_def)
  ultimately show ?thesis using inv ev c by (auto simp: mailbox_inv_def)
qed

definition polled_claims :: "time \<Rightarrow> bool \<Rightarrow> slot \<Rightarrow> bool" where
  "polled_claims now shut s \<longleftrightarrow> \<not> sl_claimed s \<and> sl_outcome (slot_expire now s) = None \<and> \<not> shut"

definition polled :: "time \<Rightarrow> bool \<Rightarrow> slot \<Rightarrow> slot" where
  "polled now shut s = (if polled_claims now shut s then (slot_expire now s)\<lparr>sl_claimed := True\<rparr> else slot_expire now s)"

lemma polled_wf:
  assumes "slot_wf g (slot_expire now s)"
  shows "slot_wf g (polled now shut s)"
  using assms by (auto simp: polled_def polled_claims_def slot_wf_def)

lemma poll_slots_eq:
  "poll_slots now shut d = (map (\<lambda>x. sl_submission (snd x)) (filter (\<lambda>x. polled_claims now shut (snd x)) d),
     map fst (filter (\<lambda>x. sl_cancel_pending (slot_expire now (snd x))) d), map (\<lambda>(t, s). (t, polled now shut s)) d)"
  by (induction now shut d rule: poll_slots.induct) (simp_all add: polled_claims_def polled_def Let_def)

lemma poll_step:
  assumes inv: "mailbox_inv h b" and e: "mailbox_exec (MPoll now) b = (es, b')"
  shows "mailbox_inv (h @ es) b'"
proof -
  have w: "mailbox_wf b" using inv by (simp add: mailbox_inv_def)
  let ?claims = "filter (\<lambda>x. polled_claims now (bm_closed b) (snd x)) (bm_slots b)"
  let ?stops = "filter (\<lambda>x. sl_cancel_pending (slot_expire now (snd x))) (bm_slots b)"
  have own: "slot_in b t s" "slot_hist h t s" "slot_wf (bm_generation b) s" if "(t, s) \<in> set (bm_slots b)" for t s
    using w inv that by (auto simp: mailbox_wf_def mailbox_inv_def slot_in_def)
  have tk: "map (\<lambda>x. Handed (su_ticket (sl_submission (snd x)))) ?claims = map (\<lambda>x. Handed (fst x)) ?claims"
    using own(1) by (intro map_cong) (auto simp: slot_in_def)
  have es: "es = map CancelAsked (map fst ?stops) @ map Handed (map fst ?claims)"
    and b': "b' = b\<lparr>bm_closed := bm_closed b, bm_slots := map (\<lambda>(t, s). (t, polled now (bm_closed b) s)) (bm_slots b)\<rparr>"
    using e tk by (auto simp: mailbox_poll_def poll_slots_eq comp_def)
  have d: "distinct (map fst (bm_slots b))" using w by (simp add: mailbox_wf_def)
  have once: "s = s'" if "(t, s) \<in> set (bm_slots b)" "(t, s') \<in> set (bm_slots b)" for t s s'
    using that d by (simp add: eq_key_imp_eq_value)
  have handed: "Handed t \<in> set es \<longleftrightarrow> polled_claims now (bm_closed b) s" if "(t, s) \<in> set (bm_slots b)" for t s
  proof -
    have "Handed t \<in> set es \<longleftrightarrow> (\<exists>x. (t, x) \<in> set (bm_slots b) \<and> polled_claims now (bm_closed b) x)"
      by (fastforce simp: es image_iff)
    with that once [OF that] show ?thesis by blast
  qed
  have others: "Withdrawn t \<notin> set es" "Bound t r \<notin> set es" "Taken t x \<notin> set es" "Finished t c \<notin> set es" "Admitted t dv p \<notin> set es" for t r x c dv p
    unfolding es by auto
  have hist: "slot_hist (h @ es) t (polled now (bm_closed b) s)" if ts: "(t, s) \<in> set (bm_slots b)" for t s
    using expire_keeps(2) [OF own(3) [OF ts] own(2) [OF ts], of now] handed [OF ts] others
    by (auto simp: slot_hist_def polled_def polled_claims_def)
  have ev: "mail_justified (h @ e1) x" if "es = e1 @ x # e2" for e1 x e2
  proof -
    have xin: "x \<in> set es" using that by simp
    show ?thesis
  proof (cases x)
    case (CancelAsked t)
    then obtain s where s: "(t, s) \<in> set (bm_slots b)" "sl_cancel_pending (slot_expire now s)" using xin by (auto simp: es)
    have "sl_claimed s" using s(2) expire_keeps(1) [OF own(3) [OF s(1)], of now] by (auto simp: slot_wf_def)
    then show ?thesis using CancelAsked own(2) [OF s(1)] by (simp add: slot_hist_def)
  next
    case (Handed t)
    then obtain s where s: "(t, s) \<in> set (bm_slots b)" "polled_claims now (bm_closed b) s" using xin by (auto simp: es)
    have "distinct (map fst ?claims)" "distinct (map fst ?stops)" using d by (simp_all add: distinct_map_filter)
    then have "distinct (map Handed (map fst ?claims))" "distinct (map CancelAsked (map fst ?stops))"
      by (simp_all only: distinct_map [of Handed] distinct_map [of CancelAsked] inj_on_def mailbox_event.inject) blast+
    then have "distinct es" unfolding es distinct_append by auto
    then have "Handed t \<notin> set e1" using that Handed by auto
    moreover have "set e1 \<subseteq> set es" using that by auto
    moreover have "Shut \<notin> set es" by (auto simp: es)
    moreover have "\<not> sl_claimed s" "sl_outcome s = None" "\<not> bm_closed b"
      using s(2) by (auto simp: polled_claims_def slot_expire_def slot_stop_def split: if_splits)
    moreover from this have "\<not> sl_consumed s" using own(3) [OF s(1)] by (auto simp: slot_wf_def)
    ultimately have "Handed t \<notin> set (h @ e1)" "Shut \<notin> set (h @ e1)" "wanted (h @ e1) t"
      "Admitted t (su_device_id (sl_submission s)) (su_path (sl_submission s)) \<in> set (h @ e1)"
      using own(2) [OF s(1)] inv others by (auto simp: slot_hist_def mailbox_inv_def wanted_def)
    then show ?thesis using Handed by auto
  qed (use xin in \<open>auto simp: es\<close>)
  qed
  show ?thesis unfolding b'
  proof (rule map_inv [OF inv])
    show "each_event mail_justified (h @ es)" using inv ev by (auto simp: each_event_append mailbox_inv_def)
    show "t \<in> fst ` set (bm_slots b)" if "x \<in> set es" "about x = Some t" for x t using that by (force simp: es)
    show "Shut \<in> set es \<Longrightarrow> bm_closed b" by (auto simp: es)
    show "slot_wf (bm_generation b) (polled now (bm_closed b) s) \<and> sl_submission (polled now (bm_closed b) s) = sl_submission s \<and>
        sl_request (polled now (bm_closed b) s) = sl_request s \<and> slot_hist (h @ es) t (polled now (bm_closed b) s)"
      if "(t, s) \<in> set (bm_slots b)" for t s
      using hist [OF that] expire_keeps(1) [OF own(3) [OF that], of now] by (simp add: polled_wf) (simp add: polled_def)
  qed simp
qed

section \<open>Each call keeps the invariant\<close>

lemma close_step:
  assumes inv: "mailbox_inv h b" and e: "mailbox_exec op b = (es, b')" "op = MClose \<or> op = MDrain"
  shows "mailbox_inv (h @ es) b'"
proof -
  have w: "mailbox_wf b" using inv by (simp add: mailbox_inv_def)
  have own: "slot_hist h t s" "slot_wf (bm_generation b) s" if "(t, s) \<in> set (bm_slots b)" for t s
    using w inv that by (auto simp: mailbox_wf_def mailbox_inv_def slot_in_def)
  define f where "f s = (if op = MClose \<or> \<not> sl_claimed s then slot_stop ''cancelled'' s else s)" for s
  have es: "es = [Shut]" and b': "b' = b\<lparr>bm_closed := True, bm_slots := map (\<lambda>(t, s). (t, f s)) (bm_slots b)\<rparr>"
    using e by (auto simp: mailbox_close_def mailbox_drain_def f_def intro!: map_cong)
  have hist: "slot_hist (h @ es) t s \<longleftrightarrow> slot_hist h t s" for t s by (simp add: es slot_hist_def)
  show ?thesis unfolding b'
  proof (rule map_inv [OF inv])
    fix t s assume ts: "(t, s) \<in> set (bm_slots b)"
    show "slot_wf (bm_generation b) (f s) \<and> sl_submission (f s) = sl_submission s \<and> sl_request (f s) = sl_request s \<and> slot_hist (h @ es) t (f s)"
      using stop_keeps [OF own(2) [OF ts], of "''cancelled''"] own [OF ts] by (simp add: f_def hist)
  qed (use inv in \<open>auto simp: es mailbox_inv_def\<close>)
qed

lemma submit_step:
  assumes inv: "mailbox_inv h b" and e: "mailbox_exec (MSubmit device path timeout now) b = (es, b')"
  shows "mailbox_inv (h @ es) b'"
proof (cases "\<exists>err. fst (mailbox_submit device path timeout now b) = Inl err")
  case True
  then have "es = []" "b' = b" using e by (auto simp: mailbox_submit_def Let_def split: if_splits)
  with inv show ?thesis by simp
next
  case False
  let ?t = "\<lparr>mt_generation = bm_generation b, mt_sequence = bm_next b\<rparr>"
  let ?s = "\<lparr>sl_submission = \<lparr>su_ticket = ?t, su_device_id = device, su_path = path, su_deadline = now + timeout\<rparr>, sl_claimed = False,
    sl_outcome = None, sl_consumed = False, sl_cancel_pending = False, sl_request = None\<rparr>"
  let ?b = "b\<lparr>bm_next := bm_next b + 1, bm_slots := bm_slots b @ [(?t, ?s)]\<rparr>"
  have w: "mailbox_wf b" using inv by (simp add: mailbox_inv_def)
  have own: "slot_in b t s" "slot_hist h t s" if "(t, s) \<in> set (bm_slots b)" for t s
    using w inv that by (auto simp: mailbox_wf_def mailbox_inv_def)
  have new: "?t \<notin> fst ` set (bm_slots b)" using own(1) by (fastforce simp: slot_in_def)
  have unseen: "about x \<noteq> Some ?t" if "x \<in> set h" for x using inv that by (fastforce simp: mailbox_inv_def)
  have sub: "es = [Admitted ?t device path]" "b' = ?b" "length (bm_slots b) < 8" "\<not> bm_closed b"
    using False e new by (auto simp: mailbox_submit_def dict_set_new Let_def not_le split: if_splits)
  have "slot_in ?b t s" if "(t, s) \<in> set (bm_slots ?b)" for t s
    using that own(1) [of t s] by (auto simp: slot_in_def slot_wf_def)
  moreover have "requests_unique (bm_slots ?b)" using w by (fastforce simp: mailbox_wf_def requests_unique_def)
  ultimately have "mailbox_wf ?b" using w new sub(3) by (auto simp: mailbox_wf_def)
  moreover have "slot_hist (h @ es) t s" if ts: "(t, s) \<in> set (bm_slots ?b)" for t s
  proof (cases "t = ?t")
    case True
    then have "s = ?s" using ts imageI [of "(t, s)" "set (bm_slots b)" fst] new by auto
    moreover have "Handed t \<notin> set h" "Withdrawn t \<notin> set h" "Bound t r \<notin> set h" "Taken t x \<notin> set h" "Finished t c \<notin> set h" for r x c
      using unseen True by fastforce+
    ultimately show ?thesis by (simp add: slot_hist_def sub(1) True)
  next
    case False
    then show ?thesis using ts own(2) [of t s] by (auto simp: slot_hist_def sub(1))
  qed
  moreover have "each_event mail_justified (h @ es)" using inv unseen sub(1,4) by (auto simp: mailbox_inv_def)
  ultimately show ?thesis using inv sub by (auto simp: mailbox_inv_def)
qed

lemma ack_step:
  assumes inv: "mailbox_inv h b" and e: "mailbox_exec (MAck t) b = (es, b')"
  shows "mailbox_inv (h @ es) b'"
proof (cases "\<exists>s. map_of (bm_slots b) t = Some s \<and> sl_cancel_pending s")
  case True
  then obtain s where s: "map_of (bm_slots b) t = Some s" "sl_cancel_pending s" by blast
  note f = slot_facts [OF inv s(1)]
  have es: "es = [Acked t]" using e s by (simp add: mailbox_acknowledge_cancel_def)
  have ev: "each_event mail_justified (h @ es)" using f(1,2,3) s(2) by (simp add: es slot_wf_def slot_hist_def)
  show ?thesis
  proof (cases "sl_consumed s")
    case True
    then show ?thesis using slot_pop_inv [OF inv s(1) _ ev] e s by (simp add: es mailbox_acknowledge_cancel_def)
  next
    case False
    let ?s = "s\<lparr>sl_cancel_pending := False\<rparr>"
    have "slot_wf (bm_generation b) ?s" using f(1) False by (simp add: slot_wf_def)
    moreover have "slot_hist (h @ es) t ?s" using f(2) by (auto simp: es slot_hist_def)
    ultimately have "mailbox_inv (h @ es) (b\<lparr>bm_slots := dict_set t ?s (bm_slots b)\<rparr>)"
      using keep_inv [OF inv s(1)] ev by (simp add: es)
    then show ?thesis using e s False by (simp add: mailbox_acknowledge_cancel_def)
  qed
next
  case False
  then show ?thesis using e inv by (auto simp: mailbox_acknowledge_cancel_def split: option.splits if_splits)
qed

text \<open>A live slot: no outcome yet and not consumed; nothing but its admission, handover and binding happened.\<close>

lemma live_slot:
  assumes "slot_hist h t s" "sl_outcome s = None" "\<not> sl_consumed s"
  shows "wanted h t" "Finished t c \<notin> set h"
  using assms by (auto simp: slot_hist_def wanted_def)

lemma bind_step:
  assumes inv: "mailbox_inv h b" and e: "mailbox_exec (MBind t r now) b = (es, b')"
  shows "mailbox_inv (h @ es) b'"
proof (cases "fst (mailbox_bind t r now b)")
  case False
  then have "es = []" "b' = b" using e by (auto simp: mailbox_bind_def split: option.splits if_splits)
  with inv show ?thesis by simp
next
  case True
  then obtain s where s: "map_of (bm_slots b) t = Some s" by (auto simp: mailbox_bind_def split: option.splits)
  have c: "sl_claimed s" "sl_request s = None" "sl_outcome s = None" "\<not> sl_consumed s" "rt_generation (rq_ticket r) = bm_generation b" "rt_kind (rq_ticket r) = 0xB7"
    "rq_device_id r = su_device_id (sl_submission s)" "rq_path r = su_path (sl_submission s)"
    and u: "\<not> (\<exists>(k, x) \<in> set (bm_slots b). case sl_request x of None \<Rightarrow> False | Some r' \<Rightarrow> rq_ticket r' = rq_ticket r)"
    using True s by (simp_all add: mailbox_bind_def split: if_splits)
  let ?s = "s\<lparr>sl_request := Some r\<rparr>"
  have es: "es = [Bound t r]" and b': "b' = b\<lparr>bm_slots := dict_set t ?s (bm_slots b)\<rparr>"
    using e True s by (auto simp: mailbox_bind_def split: if_splits)
  note f = slot_facts(1-3) [OF inv s]
  note l = live_slot [OF f(2) c(3,4)]
  have wf: "slot_wf (bm_generation b) ?s" using f(1) c by (auto simp: slot_wf_def)
  have "Bound t r' \<notin> set h" for r' using f(2) c(2) by (auto simp: slot_hist_def)
  then have ev: "each_event mail_justified (h @ es)" and hist: "slot_hist (h @ es) t ?s"
    using f(2,3) l c by (auto simp: es slot_hist_def)
  show ?thesis unfolding b'
  proof (rule set_inv [OF inv s wf _ _ hist _ ev])
    fix t' x r1 r' assume "(t', x) \<in> set (bm_slots b)" "sl_request x = Some r1" "sl_request ?s = Some r'" "rq_ticket r1 = rq_ticket r'"
    then show "t' = t" using u by fastforce
  qed (simp_all add: es)
qed

lemma finish_step:
  assumes inv: "mailbox_inv h b" and e: "mailbox_exec (MFinish t c now) b = (es, b')"
  shows "mailbox_inv (h @ es) b'"
proof (cases "fst (mailbox_finish t c now b)")
  case False
  then have "es = []" "b' = b" using e by (auto simp: mailbox_finish_def Let_def split: option.splits if_splits)
  with inv show ?thesis by simp
next
  case True
  then obtain s where s: "map_of (bm_slots b) t = Some s" by (auto simp: mailbox_finish_def split: option.splits)
  define q where "q = (if now \<ge> su_deadline (sl_submission s) then \<lparr>ro_status = ''timeout'', ro_completion = None\<rparr>
    else \<lparr>ro_status = rc_status c, ro_completion = Some c\<rparr>)"
  let ?s = "s\<lparr>sl_outcome := Some q\<rparr>"
  have g: "sl_claimed s" "sl_outcome s = None" "\<not> sl_consumed s" "sl_request s = Some (rc_request c)"
    using True s by (simp_all add: mailbox_finish_def split: if_splits)
  have es: "es = [Finished t c]" and b': "b' = b\<lparr>bm_slots := dict_set t ?s (bm_slots b)\<rparr>"
    using e s g by (simp_all add: mailbox_finish_def q_def)
  note f = slot_facts(1-3) [OF inv s]
  note l = live_slot [OF f(2) g(2,3)]
  have np: "\<not> sl_cancel_pending s" using f(1) g by (simp add: slot_wf_def)
  have q: "outcome_ok (sl_request s) q" "ro_completion q = None \<or> ro_completion q = Some c" using g by (auto simp: q_def outcome_ok_def)
  have "slot_wf (bm_generation b) ?s" using f(1) g np q by (auto simp: slot_wf_def)
  moreover have "slot_hist (h @ es) t ?s" using f(2) g np q(2) by (auto simp: es slot_hist_def)
  moreover have "each_event mail_justified (h @ es)" using f(2,3) l g by (auto simp: es slot_hist_def)
  ultimately show ?thesis unfolding b' using keep_inv [OF inv s] by (simp add: es)
qed

lemma cancel_step:
  assumes inv: "mailbox_inv h b" and e: "mailbox_exec (MCancel t) b = (es, b')"
  shows "mailbox_inv (h @ es) b'"
proof (cases "fst (mailbox_cancel t b)")
  case False
  then have "es = []" "b' = b" using e by (auto simp: mailbox_cancel_def split: option.splits if_splits)
  with inv show ?thesis by simp
next
  case True
  then obtain s where s: "map_of (bm_slots b) t = Some s" by (auto simp: mailbox_cancel_def split: option.splits)
  have g: "sl_outcome s = None" "\<not> sl_consumed s" using True s by (simp_all add: mailbox_cancel_def split: if_splits)
  have es: "es = [Withdrawn t]" and b': "b' = b\<lparr>bm_slots := dict_set t (slot_stop ''cancelled'' s) (bm_slots b)\<rparr>"
    using e s g by (simp_all add: mailbox_cancel_def)
  note f = slot_facts(1-3) [OF inv s]
  note l = live_slot [OF f(2) g]
  have "slot_hist (h @ es) t (slot_stop ''cancelled'' s)"
    using stop_keeps(2) [OF f(1) _ f(2), of "''cancelled''"] g by (auto simp: es slot_hist_def slot_stop_def)
  moreover have "each_event mail_justified (h @ es)" using f(3) l by (simp add: es)
  ultimately show ?thesis unfolding b' using keep_inv [OF inv s] stop_keeps(1) [OF f(1)] by (simp add: es)
qed

lemma ready_step:
  assumes inv: "mailbox_inv h b" and e: "mailbox_exec (MReady t now) b = (es, b')"
  shows "mailbox_inv (h @ es) b'"
proof (cases "map_of (bm_slots b) t")
  case None
  then show ?thesis using e inv by (simp add: mailbox_ready_def)
next
  case (Some s)
  let ?s = "slot_expire now s"
  have b': "b' = b\<lparr>bm_slots := dict_set t ?s (bm_slots b)\<rparr>" and es: "es = (if sl_request ?s \<noteq> None \<and> sl_outcome ?s = None \<and> \<not> sl_consumed ?s then [Ready t] else [])"
    using e Some by (simp_all add: mailbox_ready_def Let_def)
  note f = slot_facts(1-3) [OF inv Some]
  have h0: "slot_hist h t ?s" by (rule expire_keeps(2) [OF f(1,2)])
  then have "each_event mail_justified (h @ es)" using f(3) live_slot [OF h0] by (auto simp: es slot_hist_def)
  moreover have "slot_hist (h @ es) t ?s" using h0 by (auto simp: es slot_hist_def)
  ultimately show ?thesis unfolding b' using keep_inv [OF inv Some] expire_keeps(1) [OF f(1)] by (simp add: es)
qed

lemma take_step:
  assumes inv: "mailbox_inv h b" and e: "mailbox_exec (MTake t now) b = (es, b')"
  shows "mailbox_inv (h @ es) b'"
proof (cases "\<exists>s. map_of (bm_slots b) t = Some s \<and> \<not> sl_consumed s")
  case False
  then show ?thesis using e inv by (auto simp: mailbox_take_bound_def split: option.splits)
next
  case True
  then obtain s where s: "map_of (bm_slots b) t = Some s" "\<not> sl_consumed s" by blast
  let ?s = "slot_expire now s"
  note f = slot_facts(1-3) [OF inv s(1)]
  have h0: "slot_hist h t ?s" by (rule expire_keeps(2) [OF f(1,2)])
  have w0: "slot_wf (bm_generation b) ?s" by (rule expire_keeps(1) [OF f(1)])
  show ?thesis
  proof (cases "sl_outcome ?s")
    case None
    then show ?thesis using e s expire_inv [OF inv s(1)] by (auto simp: mailbox_take_bound_def Let_def)
  next
    case (Some q)
    have es: "es = [Taken t (sl_request s, q)]" using e s Some by (simp add: mailbox_take_bound_def Let_def)
    have fresh: "Taken t x \<notin> set h" for x using h0 s(2) by (cases x) (simp add: slot_hist_def)
    have ok: "outcome_ok (sl_request s) q" using w0 Some by (auto simp: slot_wf_def)
    have fin: "Finished t c \<in> set h" if "ro_completion q = Some c" for c using h0 Some that by (auto simp: slot_hist_def)
    have ev: "each_event mail_justified (h @ es)"
      using f(3) fresh h0 ok fin by (auto simp: es slot_hist_def outcome_ok_def split: option.splits)
    show ?thesis
    proof (cases "sl_cancel_pending ?s")
      case True
      let ?s' = "?s\<lparr>sl_outcome := None, sl_consumed := True\<rparr>"
      have "slot_wf (bm_generation b) ?s'" using w0 True by (simp add: slot_wf_def)
      moreover have "Finished t c \<notin> set h" for c using h0 True by (auto simp: slot_hist_def)
      then have "slot_hist (h @ es) t ?s'" using h0 by (auto simp: es slot_hist_def)
      ultimately have "mailbox_inv (h @ es) (b\<lparr>bm_slots := dict_set t ?s' (bm_slots b)\<rparr>)"
        using keep_inv [OF inv s(1)] ev by (simp add: es)
      then show ?thesis using e s Some True by (simp add: mailbox_take_bound_def Let_def)
    next
      case False
      then show ?thesis using e s Some slot_pop_inv [OF inv s(1) _ ev] by (simp add: es mailbox_take_bound_def Let_def)
    qed
  qed
qed

interpretation mail: machine mailbox_exec "\<lambda>b. \<exists>generation state_reads. mailbox_init generation state_reads = Inr b" mailbox_inv
proof
  fix b assume "\<exists>generation state_reads. mailbox_init generation state_reads = Inr b"
  then show "mailbox_inv [] b"
    by (auto simp: mailbox_init_def mailbox_inv_def mailbox_wf_def requests_unique_def split: if_splits)
next
  fix h b op es b'
  assume inv: "mailbox_inv h b" and e: "mailbox_exec op b = (es, b')"
  show "mailbox_inv (h @ es) b'"
  proof (cases op)
    case MSubmit
    show ?thesis by (rule submit_step [OF inv e [unfolded MSubmit]])
  next
    case MPoll
    show ?thesis by (rule poll_step [OF inv e [unfolded MPoll]])
  next
    case MAck
    show ?thesis by (rule ack_step [OF inv e [unfolded MAck]])
  next
    case MBind
    show ?thesis by (rule bind_step [OF inv e [unfolded MBind]])
  next
    case MFinish
    show ?thesis by (rule finish_step [OF inv e [unfolded MFinish]])
  next
    case MCancel
    show ?thesis by (rule cancel_step [OF inv e [unfolded MCancel]])
  next
    case MReady
    show ?thesis by (rule ready_step [OF inv e [unfolded MReady]])
  next
    case MTake
    show ?thesis by (rule take_step [OF inv e [unfolded MTake]])
  qed (rule close_step [OF inv e], simp)+
qed

section \<open>What callers and worker may rely on\<close>

text \<open>
  C34. The mailbox stays well formed whatever its callers and its worker do: at most eight slots,
  each under its own ticket of this generation; a consumed slot has given its outcome away and
  waits only for the worker's acknowledgement; only a claimed slot can be bound or wait for
  one; a bound request names the slot's device and path, this generation and the read
  command; an outcome with a completion is the one of the bound request; and no two slots
  are bound to the same wire ticket.
\<close>
theorem mailbox_well_formed:
  assumes "mailbox_init generation state_reads = Inr b0" "run_ops mailbox_exec ops b0 = (h, b)"
  shows "mailbox_wf b"
  using mail.reachable_inv [OF _ assms(2)] assms(1) by (auto simp: mailbox_inv_def)

text \<open>
  C33. Every event of the mailbox's history is justified by what happened before. A read is
  handed to the worker once, not after a close, and only while its caller still wants it; it is
  bound to one request, for the device and path that were submitted; the worker's completion
  is accepted once, for the bound request; the last check before the send fails once the
  caller withdrew or took the read. A caller takes one outcome at most, together with the
  request that was bound before the send: the worker's completion of exactly that request,
  or a timeout or cancellation.
\<close>
theorem mailbox_history_justified:
  assumes "mailbox_init generation state_reads = Inr b0" "run_ops mailbox_exec ops b0 = (h1 @ e # h2, b)"
  shows "mail_justified h1 e"
  using mail.reachable_inv [OF _ assms(2)] assms(1) by (auto simp: mailbox_inv_def dest: each_eventD)

lemma taken_slot:
  assumes "map_of (bm_slots (snd (run_ops mailbox_exec [MCancel t, MTake t now] b))) t = Some s"
  shows "sl_consumed s"
proof (cases "map_of (bm_slots b) t")
  case None
  then show ?thesis using assms by (simp add: mailbox_cancel_def mailbox_take_bound_def)
next
  case (Some x)
  show ?thesis
  proof (cases "sl_outcome x = None \<and> \<not> sl_consumed x")
    case True
    then have "mailbox_cancel t b = (True, b\<lparr>bm_slots := dict_set t (slot_stop ''cancelled'' x) (bm_slots b)\<rparr>)"
      using Some by (simp add: mailbox_cancel_def)
    then show ?thesis using assms True
      by (auto simp: mailbox_take_bound_def slot_expire_def slot_stop_def Let_def split: if_splits)
  next
    case False
    then have "mailbox_cancel t b = (False, b)" using Some by (simp add: mailbox_cancel_def)
    then show ?thesis using assms False Some
      by (auto simp: mailbox_take_bound_def slot_expire_def slot_stop_def Let_def split: if_splits option.splits)
  qed
qed

text \<open>
  C35. No slot is lost. From every state the mailbox can reach, a caller that cancels and takes its
  ticket gets the slot freed: at once, or when the worker acknowledges the cancellation that
  its next poll reports.
\<close>
theorem mailbox_slot_recoverable:
  assumes "mailbox_init generation state_reads = Inr b0" "run_ops mailbox_exec ops b0 = (h, b)"
    "run_ops mailbox_exec [MCancel t, MTake t now, MPoll now', MAck t] b = (es, b')"
  shows "map_of (bm_slots b') t = None \<and>
    (map_of (bm_slots (snd (run_ops mailbox_exec [MCancel t, MTake t now] b))) t \<noteq> None \<longrightarrow> CancelAsked t \<in> set es)"
proof -
  obtain h2 b2 where 2: "run_ops mailbox_exec [MCancel t, MTake t now] b = (h2, b2)" by fastforce
  obtain e3 b3 where 3: "mailbox_exec (MPoll now') b2 = (e3, b3)" by fastforce
  have 4: "b' = snd (mailbox_exec (MAck t) b3)" "set e3 \<subseteq> set es"
    using assms(3) 2 3 run_ops_append [of mailbox_exec "[MCancel t, MTake t now]" "[MPoll now', MAck t]" b]
    by (auto simp: Let_def split: prod.splits)
  have inv: "mailbox_inv (h @ h2) b2" "mailbox_inv ((h @ h2) @ e3) b3"
    using mail.reachable_inv [OF _ assms(2)] mail.inv_run [OF _ 2] mail.inv_exec [OF _ 3] assms(1) by blast+
  have w: "mailbox_wf b2" "mailbox_wf b3" using inv by (simp_all add: mailbox_inv_def)
  have b3: "bm_slots b3 = map (\<lambda>(t, s). (t, polled now' (bm_closed b2) s)) (bm_slots b2)"
    and e3: "set (map CancelAsked (map fst (filter (\<lambda>x. sl_cancel_pending (slot_expire now' (snd x))) (bm_slots b2)))) \<subseteq> set e3"
    using 3 by (auto simp: mailbox_poll_def poll_slots_eq simp del: map_map set_map set_filter)
  show ?thesis
  proof (cases "map_of (bm_slots b2) t")
    case None
    then have "map_of (bm_slots b3) t = None" by (simp add: b3 map_of_map)
    then show ?thesis using None 2 4(1) by (simp add: mailbox_acknowledge_cancel_def)
  next
    case (Some s)
    then have c: "sl_consumed s" using taken_slot [of t now b] 2 by simp
    have "slot_wf (bm_generation b2) s" by (rule slot_facts(1) [OF inv(1) Some])
    then have s: "sl_cancel_pending s" "sl_claimed s" "slot_expire now' s = s" using c
      by (auto simp: slot_wf_def slot_expire_def slot_stop_def)
    then have "polled now' (bm_closed b2) s = s" by (simp add: polled_def polled_claims_def)
    then have "map_of (bm_slots b3) t = Some s" using Some by (simp add: b3 map_of_map)
    then have "map_of (bm_slots b') t = None" using 4(1) s c by (simp add: mailbox_acknowledge_cancel_def)
    moreover have "CancelAsked t \<in> set e3" using e3 s map_of_SomeD [OF Some] by force
    ultimately show ?thesis using 4(2) by auto
  qed
qed

definition demo_ticket :: mailbox_ticket where
  "demo_ticket = \<lparr>mt_generation = 1, mt_sequence = 0\<rparr>"

definition demo_completion :: read_completion where
  "demo_completion = \<lparr>rc_request = demo_request, rc_status = ''response'', rc_transport_result = Some 0, rc_error_code = Some 3, rc_value = JNull\<rparr>"

definition demo_mail_ops :: "mailbox_op list" where
  "demo_mail_ops = [MSubmit 9 ''ProReadonly.devInfo'' 2 0, MPoll 0, MBind demo_ticket demo_request 0, MReady demo_ticket 0,
     MFinish demo_ticket demo_completion 1, MTake demo_ticket 1]"

abbreviation demo_mail :: broker_mailbox where
  "demo_mail \<equiv> \<lparr>bm_read_paths = ACCOUNT_IDENTITY_READ_PATHS, bm_generation = 1, bm_slots = [], bm_next = 0, bm_closed = False\<rparr>"

lemma demo_mail_run:
  "run_ops mailbox_exec demo_mail_ops demo_mail =
     ([Admitted demo_ticket 9 ''ProReadonly.devInfo'', Handed demo_ticket, Bound demo_ticket demo_request, Ready demo_ticket,
       Finished demo_ticket demo_completion, Taken demo_ticket (Some demo_request, \<lparr>ro_status = ''response'', ro_completion = Some demo_completion\<rparr>)],
      demo_mail\<lparr>bm_next := 1\<rparr>)"
  by (simp add: demo_mail_ops_def mailbox_submit_def mailbox_poll_def mailbox_bind_def mailbox_ready_def mailbox_finish_def mailbox_take_bound_def
      slot_expire_def demo_ticket_def demo_completion_def demo_request_def ACCOUNT_IDENTITY_READ_PATHS_def dict_pop_def Let_def)

theorem mailbox_well_formed_witness:
  "mailbox_init 1 False = Inr demo_mail \<and> mailbox_wf (snd (run_ops mailbox_exec demo_mail_ops demo_mail))"
  using mailbox_well_formed [of 1 False demo_mail demo_mail_ops] demo_mail_run by (simp add: mailbox_init_def)

theorem mailbox_history_justified_witness:
  "mailbox_init 1 False = Inr demo_mail \<and>
   mail_justified [Admitted demo_ticket 9 ''ProReadonly.devInfo'', Handed demo_ticket, Bound demo_ticket demo_request, Ready demo_ticket,
       Finished demo_ticket demo_completion] (Taken demo_ticket (Some demo_request, \<lparr>ro_status = ''response'', ro_completion = Some demo_completion\<rparr>))"
proof -
  have i: "mailbox_init 1 False = Inr demo_mail" by (simp add: mailbox_init_def)
  have "run_ops mailbox_exec demo_mail_ops demo_mail = ([Admitted demo_ticket 9 ''ProReadonly.devInfo'', Handed demo_ticket, Bound demo_ticket demo_request,
      Ready demo_ticket, Finished demo_ticket demo_completion] @
      Taken demo_ticket (Some demo_request, \<lparr>ro_status = ''response'', ro_completion = Some demo_completion\<rparr>) # [], demo_mail\<lparr>bm_next := 1\<rparr>)"
    unfolding demo_mail_run by simp
  from mailbox_history_justified [OF i this] i show ?thesis by blast
qed

theorem mailbox_slot_recoverable_witness:
  "\<exists>h b es b'. mailbox_init 1 False = Inr demo_mail \<and>
     run_ops mailbox_exec [MSubmit 9 ''ProReadonly.devInfo'' 2 0, MPoll 0] demo_mail = (h, b) \<and> map_of (bm_slots b) demo_ticket \<noteq> None \<and>
     run_ops mailbox_exec [MCancel demo_ticket, MTake demo_ticket 1, MPoll 1, MAck demo_ticket] b = (es, b') \<and> CancelAsked demo_ticket \<in> set es \<and>
     map_of (bm_slots b') demo_ticket = None"
proof -
  have i: "mailbox_init 1 False = Inr demo_mail" by (simp add: mailbox_init_def)
  obtain h b where r: "run_ops mailbox_exec [MSubmit 9 ''ProReadonly.devInfo'' 2 0, MPoll 0] demo_mail = (h, b)" by fastforce
  then have b: "bm_slots b = [(demo_ticket, \<lparr>sl_submission = \<lparr>su_ticket = demo_ticket, su_device_id = 9, su_path = ''ProReadonly.devInfo'', su_deadline = 2\<rparr>,
      sl_claimed = True, sl_outcome = None, sl_consumed = False, sl_cancel_pending = False, sl_request = None\<rparr>)]"
    by (auto simp: mailbox_submit_def mailbox_poll_def slot_expire_def demo_ticket_def ACCOUNT_IDENTITY_READ_PATHS_def Let_def)
  obtain es b' where e: "run_ops mailbox_exec [MCancel demo_ticket, MTake demo_ticket 1, MPoll 1, MAck demo_ticket] b = (es, b')" by fastforce
  have "map_of (bm_slots (snd (run_ops mailbox_exec [MCancel demo_ticket, MTake demo_ticket 1] b))) demo_ticket \<noteq> None"
    by (simp add: mailbox_cancel_def mailbox_take_bound_def slot_expire_def slot_stop_def b Let_def)
  with mailbox_slot_recoverable [OF i r e] i r e b show ?thesis by auto
qed

end
