(* ===== verification/Siren.thy ===== *)
theory Siren
  imports ModelProtocol Reserve
begin

text \<open>
  One siren pulse: the clock and the reserved OFF of \<^verbatim>\<open>siren_pulse_job.py\<close> and the three
  state reads of \<^verbatim>\<open>siren_off_probe.py\<close>, over the siren reserve of the account's output
  budget. Clock readings are arguments, in the order in which the source takes them; the
  random draws of the constructor are a record.
\<close>

section \<open>The state probe\<close>

record siren_probe =
  sq_session :: int
  sq_device :: int
  sq_tickets :: "receipt_ticket list"
  sq_wires :: "bytes list"
  sq_index :: nat
  sq_next_at :: time
  sq_state :: "int option"
  sq_invalid :: bool

fun probe_wires :: "certified_node \<Rightarrow> int \<Rightarrow> (int \<times> int \<times> nat) list \<Rightarrow> exn + bytes list" where
  "probe_wires node device_id [] = Inr []"
| "probe_wires node device_id ((sequence, message_id, rand15) # rest) =
     bind_res (build_model_read node device_id SIREN_READ_PATH sequence message_id rand15) (\<lambda>w.
       bind_res (probe_wires node device_id rest) (\<lambda>ws. Inr (w # ws)))"

text \<open>\<open>draws\<close>: a message number and the header bits for each read.\<close>

definition probe_init :: "certified_node \<Rightarrow> int \<Rightarrow> int \<Rightarrow> int list \<Rightarrow> (int \<times> nat) list \<Rightarrow> exn + siren_probe" where
  "probe_init node device_id generation sequences draws =
     (if length sequences \<noteq> 3 then Inl (ValueError ''three reserved siren-state requests required'')
      else bind_res (probe_wires node device_id (zip sequences draws)) (\<lambda>wires.
        Inr \<lparr>sq_session = cn_session_id node, sq_device = device_id,
             sq_tickets = map (\<lambda>s. \<lparr>rt_generation = generation, rt_sequence = s, rt_kind = 0xB7\<rparr>) sequences,
             sq_wires = wires, sq_index = 0, sq_next_at = 0, sq_state = None, sq_invalid = False\<rparr>))"

definition probe_next :: "time \<Rightarrow> siren_probe \<Rightarrow> bytes option \<times> siren_probe" where
  "probe_next now q =
     (if sq_state q = Some 1 \<or> sq_invalid q \<or> sq_index q \<ge> 3 \<or> now < sq_next_at q then (None, q)
      else (Some (sq_wires q ! sq_index q), q\<lparr>sq_index := sq_index q + 1, sq_next_at := now + 2 / 5\<rparr>))"

definition probe_observe :: "json_decoder \<Rightarrow> bytes \<Rightarrow> int \<Rightarrow> siren_probe \<Rightarrow> bool \<times> siren_probe" where
  "probe_observe json_loads plain generation q =
     (if sq_index q = 0 then (False, q)
      else case match_model_reply json_loads plain (sq_tickets q ! (sq_index q - 1)) generation (sq_session q) (sq_device q) of
        None \<Rightarrow> (False, q)
      | Some reply \<Rightarrow>
          (True, case (if cm_error_code reply = 0 then siren_state (cm_value reply) else None) of
             None \<Rightarrow> q\<lparr>sq_invalid := True\<rparr>
           | Some state \<Rightarrow> if \<not> sq_invalid q then q\<lparr>sq_state := Some state\<rparr> else q))"

section \<open>The job\<close>

record siren_spec =
  ss_access_id :: int
  ss_device_id :: int
  ss_seconds :: int

definition siren_spec_init :: "int \<Rightarrow> int \<Rightarrow> int \<Rightarrow> exn + siren_spec" where
  "siren_spec_init access_id device_id seconds =
     (if \<not> (0 < access_id \<and> access_id < 2 ^ 64) \<or> \<not> (0 < device_id \<and> device_id < 2 ^ 64) \<or> seconds \<notin> {2, 5, 10}
      then Inl (ValueError ''typed bounded siren pulse required'')
      else Inr \<lparr>ss_access_id = access_id, ss_device_id = device_id, ss_seconds = seconds\<rparr>)"

record siren_packet =
  sk_kind :: string
  sk_wire :: bytes

record siren_result =
  sx_status :: string
  sx_start_attempted :: bool
  sx_off_attempts :: nat
  sx_off_confirmed :: bool
  sx_on_error :: "nat option"
  sx_off_error :: "nat option"
  sx_transport_acknowledged :: bool
  sx_send_failed :: bool

record siren_job =
  sj_reserve :: nat
  sj_on_seq :: int
  sj_off_seq :: int
  sj_probe :: siren_probe
  sj_on_id :: int
  sj_off_id :: int
  sj_on :: bytes
  sj_off :: bytes
  sj_node :: certified_node
  sj_generation :: int
  sj_seconds :: int
  sj_admit_until :: time
  sj_hold_until :: time
  sj_on_until :: time
  sj_off_until :: time
  sj_retry_at :: time
  sj_started :: bool
  sj_failed :: bool
  sj_on_ack :: bool
  sj_off_ack :: bool
  sj_on_error :: "nat option"
  sj_off_error :: "nat option"
  sj_offs :: nat
  sj_receipts :: nat
  sj_cancel :: bool
  sj_result :: "siren_result option"

record siren_draws =
  sw_reads :: "(int \<times> nat) list"
  sw_on_id :: int
  sw_on_flags :: nat
  sw_off_flags :: nat

definition siren_build ::
  "siren_draws \<Rightarrow> certified_node \<Rightarrow> int \<Rightarrow> siren_spec \<Rightarrow> int list \<Rightarrow> exn + siren_probe \<times> bytes \<times> bytes"
where
  "siren_build dr node generation spec ids =
     bind_res (probe_init node (ss_device_id spec) generation (drop 2 ids) (sw_reads dr)) (\<lambda>probe.
     bind_res (build_siren_action node (ss_access_id spec) (ss_device_id spec) True (ids ! 0) (sw_on_id dr) (sw_on_flags dr)) (\<lambda>on.
     bind_res (build_siren_action node (ss_access_id spec) (ss_device_id spec) False (ids ! 1) (sw_on_id dr XOR 1) (sw_off_flags dr)) (\<lambda>off.
       Inr (probe, on, off))))"

definition siren_init ::
  "siren_draws \<Rightarrow> certified_node \<Rightarrow> int \<Rightarrow> siren_spec \<Rightarrow> time option \<Rightarrow> time \<Rightarrow> time \<Rightarrow> broker_sequences \<Rightarrow> account_output \<Rightarrow>
   (exn + siren_job) \<times> broker_sequences \<times> account_output"
where
  "siren_init dr node generation spec admit_until now t_reserve source a =
     (let admission = (case admit_until of None \<Rightarrow> now + 1 | Some t \<Rightarrow> t)
      in if \<not> sequences_match (cn_session_id node) generation source \<or> \<not> (0 < admission - now \<and> admission - now \<le> 1)
      then (Inl (ValueError ''exact native siren account required''), source, a)
      else case reserve_siren t_reserve a of
        (Inl e, a) \<Rightarrow> (Inl e, source, a)
      | (Inr r, a) \<Rightarrow>
          (case sequences_reserve 5 source of
             (Inl e, source) \<Rightarrow> (Inl e, source, siren_close r a)
           | (Inr ids, source) \<Rightarrow>
               (case siren_build dr node generation spec ids of
                  Inl e \<Rightarrow> (Inl e, source, siren_close r a)
                | Inr (probe, on, off) \<Rightarrow>
                    (Inr \<lparr>sj_reserve = r, sj_on_seq = ids ! 0, sj_off_seq = ids ! 1, sj_probe = probe,
                          sj_on_id = sw_on_id dr, sj_off_id = sw_on_id dr XOR 1, sj_on = on, sj_off = off,
                          sj_node = node, sj_generation = generation, sj_seconds = ss_seconds spec, sj_admit_until = admission,
                          sj_hold_until = 0, sj_on_until = 0, sj_off_until = 0, sj_retry_at = 0, sj_started = False,
                          sj_failed = False, sj_on_ack = False, sj_off_ack = False, sj_on_error = None, sj_off_error = None,
                          sj_offs = 0, sj_receipts = 0, sj_cancel = False, sj_result = None\<rparr>, source, a))))"

definition siren_cancel :: "siren_job \<Rightarrow> siren_job" where
  "siren_cancel j = j\<lparr>sj_cancel := True\<rparr>"

definition siren_send_failed :: "siren_job \<Rightarrow> siren_job" where
  "siren_send_failed j = siren_cancel (j\<lparr>sj_failed := True\<rparr>)"

definition siren_finish :: "string \<Rightarrow> bool \<Rightarrow> siren_job \<times> account_output \<Rightarrow> siren_job \<times> account_output" where
  "siren_finish status confirmed ja = (case ja of (j, a) \<Rightarrow>
     (j\<lparr>sj_result := Some \<lparr>sx_status = status, sx_start_attempted = sj_started j, sx_off_attempts = sj_offs j,
          sx_off_confirmed = confirmed, sx_on_error = sj_on_error j, sx_off_error = sj_off_error j,
          sx_transport_acknowledged = sj_on_ack j \<and> sj_off_ack j, sx_send_failed = sj_failed j\<rparr>, sj_on := [], sj_off := []\<rparr>,
      if \<not> sj_started j \<or> confirmed then siren_close (sj_reserve j) a else a))"

text \<open>Charge the reserve, then hand the packet out in the changed job.\<close>

definition siren_pay ::
  "string \<Rightarrow> bytes \<Rightarrow> time \<Rightarrow> siren_job \<Rightarrow> siren_job \<Rightarrow> account_output \<Rightarrow>
   (exn + siren_packet option) \<times> siren_job \<times> account_output"
where
  "siren_pay kind wire t_charge failed paid a =
     (case siren_charge (sj_reserve paid) kind (int (length wire)) t_charge a of
        (Inl e, a) \<Rightarrow> (Inl e, failed, a)
      | (Inr _, a) \<Rightarrow> (Inr (Some \<lparr>sk_kind = kind, sk_wire = wire\<rparr>), paid, a))"

definition siren_start ::
  "time \<Rightarrow> time \<Rightarrow> broker_sequences \<Rightarrow> siren_job \<times> account_output \<Rightarrow>
   (exn + siren_packet option) \<times> siren_job \<times> account_output"
where
  "siren_start now t_charge source ja = (case ja of (j, a) \<Rightarrow>
     if sj_cancel j \<or> now \<ge> sj_admit_until j \<or> \<not> sequences_match (cn_session_id (sj_node j)) (sj_generation j) source
     then (Inr None, siren_finish ''cancelled'' False (j, a))
     else siren_pay ''on'' (sj_on j) t_charge j
            (j\<lparr>sj_started := True, sj_hold_until := now + of_int (sj_seconds j), sj_on_until := now + 3 / 2\<rparr>) a)"

definition send_off ::
  "time \<Rightarrow> time \<Rightarrow> siren_job \<times> account_output \<Rightarrow> (exn + siren_packet option) \<times> siren_job \<times> account_output"
where
  "send_off now t_charge ja = (case ja of (j, a) \<Rightarrow>
     siren_pay ''off'' (sj_off j) t_charge j (j\<lparr>sj_offs := sj_offs j + 1, sj_retry_at := now + 1 / 2\<rparr>) a)"

text \<open>The end of \<^verbatim>\<open>next_packet\<close>: the OFF attempts and, once OFF was accepted, the state reads.\<close>

definition siren_cleanup ::
  "time \<Rightarrow> time \<Rightarrow> siren_job \<times> account_output \<Rightarrow> (exn + siren_packet option) \<times> siren_job \<times> account_output"
where
  "siren_cleanup now t_charge ja = (case ja of (j, a) \<Rightarrow>
     if sj_off_error j = Some 0 then
       if sq_state (sj_probe j) = Some 2 \<and> sj_offs j < 2 \<and> now \<ge> sj_retry_at j then send_off now t_charge (j, a)
       else case probe_next now (sj_probe j) of
         (None, q) \<Rightarrow> (Inr None, j\<lparr>sj_probe := q\<rparr>, a)
       | (Some wire, q) \<Rightarrow> siren_pay ''read'' wire t_charge (j\<lparr>sj_probe := q\<rparr>) (j\<lparr>sj_probe := q\<rparr>) a
     else if sj_offs j < 2 \<and> now \<ge> sj_retry_at j then send_off now t_charge (j, a)
     else (Inr None, j, a))"

definition must_stop :: "time \<Rightarrow> siren_job \<Rightarrow> bool" where
  "must_stop now j \<longleftrightarrow> sj_cancel j \<or> (sj_on_error j \<noteq> None \<and> sj_on_error j \<noteq> Some 0) \<or> now \<ge> sj_hold_until j \<or>
     (sj_on_error j = None \<and> now \<ge> sj_on_until j)"

definition off_settled :: "siren_job \<Rightarrow> bool" where
  "off_settled j \<longleftrightarrow> (sj_off_error j \<noteq> None \<and> sj_off_error j \<noteq> Some 0) \<or> sq_invalid (sj_probe j) \<or> sq_state (sj_probe j) = Some 1"

definition siren_next ::
  "time \<Rightarrow> time \<Rightarrow> broker_sequences \<Rightarrow> siren_job \<times> account_output \<Rightarrow>
   (exn + siren_packet option) \<times> siren_job \<times> account_output"
where
  "siren_next now t_charge source ja = (case ja of (j, a) \<Rightarrow>
     if sj_result j \<noteq> None then (Inr None, j, a)
     else if \<not> sj_started j then siren_start now t_charge source (j, a)
     else if sj_offs j = 0 then
       if \<not> must_stop now j then (Inr None, j, a)
       else siren_cleanup now t_charge (j\<lparr>sj_off_until := now + 2\<rparr>, a)
     else if off_settled j then
       let confirmed = (sj_off_error j = Some 0 \<and> sq_state (sj_probe j) = Some 1 \<and> \<not> sq_invalid (sj_probe j))
       in (Inr None, siren_finish (if confirmed \<and> sj_on_error j = Some 0 \<and> \<not> sj_cancel j then ''completed''
                                   else if confirmed then ''cancelled'' else ''off_rejected'') confirmed (j, a))
     else if now \<ge> sj_off_until j then (Inr None, siren_finish ''off_unconfirmed'' False (j, a))
     else siren_cleanup now t_charge (j, a))"

definition siren_receipt ::
  "bytes \<Rightarrow> nat \<Rightarrow> time \<Rightarrow> siren_job \<times> account_output \<Rightarrow> (exn + siren_packet list) \<times> siren_job \<times> account_output"
where
  "siren_receipt plain flags t_charge ja = (case ja of (j, a) \<Rightarrow>
     if drop_bit 18 flags AND 3 \<noteq> 0 \<and> sj_receipts j < 6 then
       (case build_mode2_response_ack (sj_node j) plain of
          Inl e \<Rightarrow> (Inl e, j, a)
        | Inr reply \<Rightarrow>
            (case siren_charge (sj_reserve j) ''receipt'' (int (length reply)) t_charge a of
               (Inl e, a) \<Rightarrow> (Inl e, j, a)
             | (Inr _, a) \<Rightarrow>
                 (Inr [\<lparr>sk_kind = ''receipt'', sk_wire = reply\<rparr>], j\<lparr>sj_receipts := sj_receipts j + 1\<rparr>, a)))
     else (Inr [], j, a))"

text \<open>A transport receipt, recognised by its flag: \<open>checksum\<close> is the one the frame should have.\<close>

definition note_receipt :: "bytes \<Rightarrow> nat \<Rightarrow> siren_job \<Rightarrow> siren_job" where
  "note_receipt plain checksum j =
     (if u32_at plain 16 \<noteq> checksum then j
      else let sequence = int (u32_at plain 12); accepted = (u16_at plain 26 = 0)
      in if sequence = sj_on_seq j \<and> sj_offs j = 0
         then let j = j\<lparr>sj_on_ack := sj_on_ack j \<or> accepted\<rparr> in if accepted then j else siren_cancel j
         else if sequence = sj_off_seq j \<and> sj_offs j \<noteq> 0 then j\<lparr>sj_off_ack := sj_off_ack j \<or> accepted\<rparr>
         else j)"

definition note_code :: "nat \<Rightarrow> siren_job \<Rightarrow> siren_job" where
  "note_code code j =
     (if sj_offs j \<noteq> 0 then (if sj_off_error j = None \<or> sj_off_error j = Some 0 then j\<lparr>sj_off_error := Some code\<rparr> else j)
      else (if sj_on_error j = None \<or> sj_on_error j = Some 0 then j\<lparr>sj_on_error := Some code\<rparr> else j))"

definition relevant :: "bytes \<Rightarrow> string \<times> int \<Rightarrow> int \<Rightarrow> time \<Rightarrow> siren_job \<Rightarrow> bool" where
  "relevant plain peer generation now j \<longleftrightarrow>
     sj_result j = None \<and> sj_started j \<and> peer = cn_address (sj_node j) \<and> generation = sj_generation j \<and>
     24 \<le> length plain \<and> length plain \<le> 4096 \<and> (plain ! 0 = 0x7E \<or> plain ! 0 = 0x7F) \<and> u16_at plain 2 = length plain \<and>
     int (u64_at plain 4) = cn_session_id (sj_node j) \<and> drop_bit 16 (u32_at plain 20) AND 3 = 2 \<and>
     (if sj_offs j \<noteq> 0 then now < sj_off_until j else now < sj_on_until j)"

definition siren_observe ::
  "json_decoder \<Rightarrow> bytes \<Rightarrow> string \<times> int \<Rightarrow> int \<Rightarrow> time \<Rightarrow> time \<Rightarrow> siren_job \<times> account_output \<Rightarrow>
   (exn + siren_packet list) \<times> siren_job \<times> account_output"
where
  "siren_observe json_loads plain peer generation now t_charge ja = (case ja of (j, a) \<Rightarrow>
     if \<not> relevant plain peer generation now j then (Inr [], j, a)
     else let flags = u32_at plain 20;
              (mine, q) = (if sj_offs j \<noteq> 0 \<and> sj_off_error j = Some 0 then probe_observe json_loads plain generation (sj_probe j)
                           else (False, sj_probe j))
     in if mine then siren_receipt plain flags t_charge (j\<lparr>sj_probe := q\<rparr>, a)
     else if bit flags 20 then
       if length plain \<noteq> 32 \<or> plain ! 1 \<noteq> 0xAC \<or> bit flags 21 then (Inr [], j, a)
       else (case gute_mode1_xor_checksum plain of
          Inl e \<Rightarrow> (Inl e, j, a)
        | Inr checksum \<Rightarrow> (Inr [], note_receipt plain checksum j, a))
     else case parse_siren_action_response plain (if sj_offs j \<noteq> 0 then sj_off_id j else sj_on_id j) of
       None \<Rightarrow> (Inr [], j, a)
     | Some code \<Rightarrow> siren_receipt plain flags t_charge (note_code code j, a))"

section \<open>Histories of one pulse\<close>

datatype siren_event = Sent siren_packet | Got bytes

definition on_packet :: "bytes \<Rightarrow> siren_event" where "on_packet w = Sent \<lparr>sk_kind = ''on'', sk_wire = w\<rparr>"
definition off_packet :: "bytes \<Rightarrow> siren_event" where "off_packet w = Sent \<lparr>sk_kind = ''off'', sk_wire = w\<rparr>"

text \<open>
  A history from the construction on a reachable budget, with the two actions it prepared.
  Between two steps any other user of the account may spend.
\<close>

inductive pulse :: "json_decoder \<Rightarrow> bytes \<Rightarrow> bytes \<Rightarrow> time \<Rightarrow> siren_event list \<Rightarrow> siren_job \<Rightarrow> account_output \<Rightarrow> bool"
  for json_loads w_on w_off where
  start: "output_init packets octets policy capacity t_init = Inr b0 \<Longrightarrow> output_reach b0 b \<Longrightarrow>
    tb_last (ao_traffic b) \<le> t_reserve \<Longrightarrow> siren_spec_init access_id device_id seconds = Inr spec \<Longrightarrow> length (sw_reads dr) = 3 \<Longrightarrow>
    siren_init dr node generation spec admit_until now t_reserve source b = (Inr j, source', a) \<Longrightarrow>
    w_on = sj_on j \<Longrightarrow> w_off = sj_off j \<Longrightarrow> pulse json_loads w_on w_off t_reserve [] j a"
| poll: "pulse json_loads w_on w_off t h j a \<Longrightarrow> t \<le> now \<Longrightarrow> now \<le> t_charge \<Longrightarrow>
    siren_next now t_charge source (j, a) = (Inr p, j', a') \<Longrightarrow>
    pulse json_loads w_on w_off t_charge (h @ (case p of None \<Rightarrow> [] | Some x \<Rightarrow> [Sent x])) j' a'"
| cancel: "pulse json_loads w_on w_off t h j a \<Longrightarrow> pulse json_loads w_on w_off t h (siren_cancel j) a"
| failed: "pulse json_loads w_on w_off t h j a \<Longrightarrow> pulse json_loads w_on w_off t h (siren_send_failed j) a"
| observe: "pulse json_loads w_on w_off t h j a \<Longrightarrow> t \<le> t_charge \<Longrightarrow>
    siren_observe json_loads plain peer generation now t_charge (j, a) = (x, j', a') \<Longrightarrow>
    pulse json_loads w_on w_off t_charge (h @ Got plain # (case x of Inl e \<Rightarrow> [] | Inr ps \<Rightarrow> map Sent ps)) j' a'"
| others: "pulse json_loads w_on w_off t h j a \<Longrightarrow> t \<le> t' \<Longrightarrow> others_step (sj_reserve j) t' a b \<Longrightarrow>
    pulse json_loads w_on w_off t' h j b"

definition siren_left :: "siren_job \<Rightarrow> slots" where
  "siren_left j = [(''on'', if sj_started j then 0 else 1), (''off'', 2 - sj_offs j), (''read'', 3 - sq_index (sj_probe j)),
     (''receipt'', 6 - sj_receipts j)]"

definition siren_open :: "siren_job \<Rightarrow> bool" where
  "siren_open j \<longleftrightarrow> (case sj_result j of None \<Rightarrow> True | Some r \<Rightarrow> sx_start_attempted r \<and> \<not> sx_off_confirmed r)"

definition siren_budget :: "time \<Rightarrow> siren_job \<Rightarrow> account_output \<Rightarrow> bool" where
  "siren_budget t j a \<longleftrightarrow> (siren_open j \<longrightarrow> holds_reserve ao_siren (sj_reserve j) t (siren_left j) a)"

definition siren_job_ok :: "bytes \<Rightarrow> bytes \<Rightarrow> siren_job \<Rightarrow> bool" where
  "siren_job_ok w_on w_off j \<longleftrightarrow>
     length w_on = 75 \<and> length w_off = 75 \<and> (sj_result j = None \<longrightarrow> sj_on j = w_on \<and> sj_off j = w_off) \<and>
     sj_offs j \<le> 2 \<and> sj_receipts j \<le> 6 \<and> sq_index (sj_probe j) \<le> 3 \<and> length (sq_wires (sj_probe j)) = 3 \<and>
     (\<forall>w \<in> set (sq_wires (sj_probe j)). length w = 55) \<and> length (cn_session_key (sj_node j)) = 32 \<and>
     (\<not> sj_started j \<longrightarrow> sj_offs j = 0) \<and>
     (sj_offs j = 0 \<longrightarrow> sj_off_error j = None \<and> sj_retry_at j = 0 \<and> sq_index (sj_probe j) = 0 \<and> sq_state (sj_probe j) = None)"

definition sent :: "siren_event list \<Rightarrow> siren_packet list" where
  "sent h = concat (map (\<lambda>e. case e of Sent p \<Rightarrow> [p] | Got b \<Rightarrow> []) h)"

abbreviation count_kind :: "string \<Rightarrow> siren_event list \<Rightarrow> nat" where
  "count_kind kind h \<equiv> length (filter (\<lambda>p. sk_kind p = kind) (sent h))"

lemma sent_simps [simp]: "sent [] = []" "sent (h @ g) = sent h @ sent g" "sent (Sent p # h) = p # sent h" "sent (Got b # h) = sent h"
  "sent (map Sent ps) = ps"
  by (simp_all add: sent_def comp_def)

definition siren_sent_ok :: "bytes \<Rightarrow> bytes \<Rightarrow> siren_event list \<Rightarrow> siren_job \<Rightarrow> bool" where
  "siren_sent_ok w_on w_off h j \<longleftrightarrow>
     (sent h \<noteq> [] \<longrightarrow> hd (sent h) = \<lparr>sk_kind = ''on'', sk_wire = w_on\<rparr>) \<and> (sj_started j \<longleftrightarrow> sent h \<noteq> []) \<and>
     count_kind ''on'' h = (if sj_started j then 1 else 0) \<and> count_kind ''off'' h = sj_offs j \<and>
     count_kind ''read'' h = sq_index (sj_probe j) \<and> count_kind ''receipt'' h = sj_receipts j \<and>
     (\<forall>p \<in> set (sent h). sk_kind p \<in> {''on'', ''off'', ''read'', ''receipt''} \<and> (sk_kind p = ''off'' \<longrightarrow> sk_wire p = w_off))"

text \<open>What the camera said: it accepted an OFF that had been sent, and later reported a state.\<close>

definition off_accepted :: "bytes \<Rightarrow> siren_job \<Rightarrow> siren_event list \<Rightarrow> bool" where
  "off_accepted w_off j h \<longleftrightarrow> (\<exists>h1 p h2. h = h1 @ Got p # h2 \<and> off_packet w_off \<in> set h1 \<and>
     parse_siren_action_response p (sj_off_id j) = Some 0)"

definition state_reported :: "json_decoder \<Rightarrow> bytes \<Rightarrow> siren_job \<Rightarrow> int \<Rightarrow> siren_event list \<Rightarrow> bool" where
  "state_reported json_loads w_off j s h \<longleftrightarrow> (\<exists>h1 p h2 ticket reply. h = h1 @ Got p # h2 \<and> off_accepted w_off j h1 \<and>
     match_model_reply json_loads p ticket (sj_generation j) (sq_session (sj_probe j)) (sq_device (sj_probe j)) = Some reply \<and>
     cm_error_code reply = 0 \<and> siren_state (cm_value reply) = Some s)"

definition siren_evidence :: "json_decoder \<Rightarrow> bytes \<Rightarrow> siren_event list \<Rightarrow> siren_job \<Rightarrow> bool" where
  "siren_evidence json_loads w_off h j \<longleftrightarrow> (0 < sj_offs j \<longrightarrow> off_packet w_off \<in> set h) \<and>
     (sj_off_error j = Some 0 \<longrightarrow> off_accepted w_off j h) \<and>
     (\<forall>s. sq_state (sj_probe j) = Some s \<longrightarrow> state_reported json_loads w_off j s h) \<and>
     (\<forall>r. sj_result j = Some r \<and> sx_off_confirmed r \<longrightarrow> off_accepted w_off j h \<and> state_reported json_loads w_off j 1 h)"

lemma off_accepted_mono: "off_accepted w j h \<Longrightarrow> off_accepted w j (h @ g)"
  unfolding off_accepted_def by (metis append.assoc append_Cons)

lemma state_reported_mono: "state_reported json w j s h \<Longrightarrow> state_reported json w j s (h @ g)"
  unfolding state_reported_def by (metis append.assoc append_Cons)

lemma siren_evidence_mono: "siren_evidence json w h j \<Longrightarrow> siren_evidence json w (h @ g) j"
  unfolding siren_evidence_def using off_accepted_mono state_reported_mono by fastforce

definition pulse_inv :: "json_decoder \<Rightarrow> bytes \<Rightarrow> bytes \<Rightarrow> time \<Rightarrow> siren_event list \<Rightarrow> siren_job \<Rightarrow> account_output \<Rightarrow> bool" where
  "pulse_inv json_loads w_on w_off t h j a \<longleftrightarrow> siren_job_ok w_on w_off j \<and> siren_budget t j a \<and> siren_sent_ok w_on w_off h j \<and>
     siren_evidence json_loads w_off h j"

lemma pulse_invD:
  assumes "pulse_inv json_loads w_on w_off t h j a"
  shows "siren_job_ok w_on w_off j" "siren_budget t j a" "siren_sent_ok w_on w_off h j" "siren_evidence json_loads w_off h j"
  using assms by (simp_all add: pulse_inv_def)

lemma pulse_inv_later: "pulse_inv json_loads w_on w_off t h j a \<Longrightarrow> t \<le> t' \<Longrightarrow> pulse_inv json_loads w_on w_off t' h j a"
  by (auto simp: pulse_inv_def siren_budget_def intro: holds_reserve_later)

text \<open>Facts that hold of any two jobs of the same pulse.\<close>

definition same_plan :: "siren_job \<Rightarrow> siren_job \<Rightarrow> bool" where
  "same_plan j j' \<longleftrightarrow> sj_off_id j' = sj_off_id j \<and> sj_generation j' = sj_generation j \<and>
     sq_session (sj_probe j') = sq_session (sj_probe j) \<and> sq_device (sj_probe j') = sq_device (sj_probe j)"

lemma plan_evidence: "same_plan j j' \<Longrightarrow> off_accepted w j' h = off_accepted w j h \<and> state_reported json w j' s h = state_reported json w j s h"
  by (auto simp: same_plan_def off_accepted_def state_reported_def)

lemma evidence_cong:
  assumes "siren_evidence json w h j" "same_plan j j'" "sj_offs j' = sj_offs j" "sj_off_error j' = sj_off_error j"
    "sq_state (sj_probe j') = sq_state (sj_probe j)" "sj_result j' = sj_result j"
  shows "siren_evidence json w h j'"
  using assms(1,3-6) plan_evidence [OF assms(2)] by (simp add: siren_evidence_def)

section \<open>Every step keeps the invariant\<close>

lemma siren_pay_ok:
  assumes "holds_reserve ao_siren (sj_reserve j) t (siren_left j) a" "map_of (siren_left j) kind = Some (Suc k)"
    "0 < length wire" "length wire \<le> 4096" "t \<le> tc" "sj_reserve paid = sj_reserve j" "siren_left paid = dict_set kind k (siren_left j)"
  shows "\<exists>a'. siren_pay kind wire tc failed paid a = (Inr (Some \<lparr>sk_kind = kind, sk_wire = wire\<rparr>), paid, a') \<and>
    holds_reserve ao_siren (sj_reserve paid) tc (siren_left paid) a'"
  using siren_reserve.holds_charge [OF assms(1,2), of "int (length wire)" tc] assms(3-7) by (auto simp: siren_pay_def)

lemma siren_budget_open: "siren_budget t j a \<Longrightarrow> sj_result j = None \<Longrightarrow> holds_reserve ao_siren (sj_reserve j) t (siren_left j) a"
  by (simp add: siren_budget_def siren_open_def)

lemma siren_finish_inv:
  assumes inv: "pulse_inv json w_on w_off t h j a" and none: "sj_result j = None"
    and conf: "confirmed \<Longrightarrow> sj_off_error j = Some 0 \<and> sq_state (sj_probe j) = Some 1"
    and fin: "siren_finish status confirmed (j, a) = (j', a')"
  shows "pulse_inv json w_on w_off t h j' a' \<and> sj_result j' \<noteq> None"
proof -
  note d = pulse_invD [OF inv]
  have j': "sj_started j' = sj_started j" "sj_offs j' = sj_offs j" "sj_receipts j' = sj_receipts j" "sj_probe j' = sj_probe j"
    "sj_node j' = sj_node j" "sj_off_error j' = sj_off_error j" "sj_retry_at j' = sj_retry_at j" "sj_reserve j' = sj_reserve j"
    "sj_off_id j' = sj_off_id j" "sj_generation j' = sj_generation j"
    "\<exists>r. sj_result j' = Some r \<and> sx_off_confirmed r = confirmed \<and> sx_start_attempted r = sj_started j"
    "a' = (if \<not> sj_started j \<or> confirmed then siren_close (sj_reserve j) a else a)"
    using fin by (auto simp: siren_finish_def)
  then obtain r where r: "sj_result j' = Some r" "sx_off_confirmed r = confirmed" "sx_start_attempted r = sj_started j" by blast
  have "siren_job_ok w_on w_off j'" using d(1) j' r(1) by (simp add: siren_job_ok_def)
  moreover have "siren_budget t j' a'" using siren_budget_open [OF d(2) none] j' r by (auto simp: siren_budget_def siren_open_def siren_left_def)
  moreover have "siren_sent_ok w_on w_off h j'" using d(3) j' by (simp add: siren_sent_ok_def)
  moreover have "siren_evidence json w_off h j'"
    using d(4) conf j' r plan_evidence [of j j'] by (auto simp: siren_evidence_def same_plan_def)
  ultimately show ?thesis using r(1) by (simp add: pulse_inv_def)
qed

lemma siren_left_kinds:
  "map_of (siren_left j) ''on'' = Some (if sj_started j then 0 else 1)" "map_of (siren_left j) ''off'' = Some (2 - sj_offs j)"
  "map_of (siren_left j) ''read'' = Some (3 - sq_index (sj_probe j))" "map_of (siren_left j) ''receipt'' = Some (6 - sj_receipts j)"
  by (simp_all add: siren_left_def)

lemma siren_start_inv:
  assumes inv: "pulse_inv json w_on w_off t h j a" and none: "sj_result j = None" and idle: "\<not> sj_started j" and t: "t \<le> tc"
  shows "\<exists>p j' a'. siren_start now tc source (j, a) = (Inr p, j', a') \<and>
    pulse_inv json w_on w_off tc (h @ (case p of None \<Rightarrow> [] | Some x \<Rightarrow> [Sent x])) j' a'"
proof (cases "sj_cancel j \<or> now \<ge> sj_admit_until j \<or> \<not> sequences_match (cn_session_id (sj_node j)) (sj_generation j) source")
  case True
  obtain j' a' where f: "siren_finish ''cancelled'' False (j, a) = (j', a')" by fastforce
  show ?thesis using siren_finish_inv [OF pulse_inv_later [OF inv t] none _ f] True f by (auto simp: siren_start_def)
next
  case False
  note d = pulse_invD [OF inv]
  let ?j = "j\<lparr>sj_started := True, sj_hold_until := now + of_int (sj_seconds j), sj_on_until := now + 3 / 2\<rparr>"
  have w: "sj_on j = w_on" "length w_on = 75" using d(1) none by (simp_all add: siren_job_ok_def)
  have sl: "siren_left ?j = dict_set ''on'' 0 (siren_left j)" by (simp add: siren_left_def)
  obtain a' where a': "siren_pay ''on'' (sj_on j) tc j ?j a = (Inr (Some \<lparr>sk_kind = ''on'', sk_wire = w_on\<rparr>), ?j, a')"
    "holds_reserve ao_siren (sj_reserve ?j) tc (siren_left ?j) a'"
    using siren_pay_ok [OF siren_budget_open [OF d(2) none], of "''on''" 0 w_on tc ?j j] w t sl idle siren_left_kinds(1) [of j] by auto
  have offs: "sj_offs j = 0" using d(1) idle by (simp add: siren_job_ok_def)
  have "siren_job_ok w_on w_off ?j" using d(1) by (simp add: siren_job_ok_def)
  moreover have "siren_budget tc ?j a'" using a'(2) by (simp add: siren_budget_def)
  moreover have "siren_sent_ok w_on w_off (h @ [Sent \<lparr>sk_kind = ''on'', sk_wire = w_on\<rparr>]) ?j"
    using d(3) idle by (auto simp: siren_sent_ok_def)
  moreover have "siren_evidence json w_off (h @ [Sent \<lparr>sk_kind = ''on'', sk_wire = w_on\<rparr>]) ?j"
    by (rule evidence_cong [OF siren_evidence_mono [OF d(4)]]) (simp_all add: same_plan_def)
  ultimately have "pulse_inv json w_on w_off tc (h @ [Sent \<lparr>sk_kind = ''on'', sk_wire = w_on\<rparr>]) ?j a'" by (simp add: pulse_inv_def)
  moreover have "siren_start now tc source (j, a) = (Inr (Some \<lparr>sk_kind = ''on'', sk_wire = w_on\<rparr>), ?j, a')"
    using False a'(1) by (simp add: siren_start_def)
  ultimately show ?thesis by (intro exI [of _ "Some \<lparr>sk_kind = ''on'', sk_wire = w_on\<rparr>"] exI [of _ ?j] exI [of _ a']) simp
qed

lemma send_off_inv:
  assumes inv: "pulse_inv json w_on w_off t h j a" and none: "sj_result j = None" and on: "sj_started j" and t: "t \<le> tc" and left: "sj_offs j < 2"
  shows "\<exists>j' a'. send_off now tc (j, a) = (Inr (Some \<lparr>sk_kind = ''off'', sk_wire = w_off\<rparr>), j', a') \<and>
    pulse_inv json w_on w_off tc (h @ [off_packet w_off]) j' a'"
proof -
  note d = pulse_invD [OF inv]
  let ?j = "j\<lparr>sj_offs := sj_offs j + 1, sj_retry_at := now + 1 / 2\<rparr>"
  have w: "sj_off j = w_off" "length w_off = 75" using d(1) none by (simp_all add: siren_job_ok_def)
  obtain k where k: "2 - sj_offs j = Suc k" using left by (metis Suc_diff_Suc)
  have sl: "siren_left ?j = dict_set ''off'' k (siren_left j)" using k by (simp add: siren_left_def)
  obtain a' where a': "siren_pay ''off'' (sj_off j) tc j ?j a = (Inr (Some \<lparr>sk_kind = ''off'', sk_wire = w_off\<rparr>), ?j, a')"
    "holds_reserve ao_siren (sj_reserve ?j) tc (siren_left ?j) a'"
    using siren_pay_ok [OF siren_budget_open [OF d(2) none], of "''off''" k w_off tc ?j j] w t sl k siren_left_kinds(2) [of j] by auto
  have "siren_job_ok w_on w_off ?j" using d(1) left on by (simp add: siren_job_ok_def)
  moreover have "siren_budget tc ?j a'" using a'(2) by (simp add: siren_budget_def)
  moreover have "siren_sent_ok w_on w_off (h @ [off_packet w_off]) ?j"
    using d(3) on by (simp add: siren_sent_ok_def off_packet_def)
  moreover have "siren_evidence json w_off (h @ [off_packet w_off]) ?j"
    using siren_evidence_mono [OF d(4), of "[off_packet w_off]"] plan_evidence [of j ?j] by (simp add: siren_evidence_def same_plan_def)
  ultimately show ?thesis using a'(1) by (auto simp: pulse_inv_def send_off_def)
qed

lemma siren_read_inv:
  assumes inv: "pulse_inv json w_on w_off t h j a" and none: "sj_result j = None" and on: "sj_started j" "sj_offs j \<noteq> 0" and t: "t \<le> tc"
    and q: "probe_next now (sj_probe j) = (Some wire, q)"
  shows "\<exists>a'. siren_pay ''read'' wire tc (j\<lparr>sj_probe := q\<rparr>) (j\<lparr>sj_probe := q\<rparr>) a =
      (Inr (Some \<lparr>sk_kind = ''read'', sk_wire = wire\<rparr>), j\<lparr>sj_probe := q\<rparr>, a') \<and>
    pulse_inv json w_on w_off tc (h @ [Sent \<lparr>sk_kind = ''read'', sk_wire = wire\<rparr>]) (j\<lparr>sj_probe := q\<rparr>) a'"
proof -
  note d = pulse_invD [OF inv]
  let ?j = "j\<lparr>sj_probe := q\<rparr>" let ?h = "h @ [Sent \<lparr>sk_kind = ''read'', sk_wire = wire\<rparr>]"
  have q': "sq_index (sj_probe j) < 3" "wire = sq_wires (sj_probe j) ! sq_index (sj_probe j)"
    "q = (sj_probe j)\<lparr>sq_index := sq_index (sj_probe j) + 1, sq_next_at := now + 2 / 5\<rparr>"
    using q by (auto simp: probe_next_def split: if_splits)
  have "wire \<in> set (sq_wires (sj_probe j))" using q'(1,2) d(1) by (simp add: siren_job_ok_def)
  then have len: "length wire = 55" using d(1) by (simp add: siren_job_ok_def)
  obtain k where k: "3 - sq_index (sj_probe j) = Suc k" using q'(1) by (metis Suc_diff_Suc)
  have sl: "siren_left ?j = dict_set ''read'' k (siren_left j)" using k q'(3) by (simp add: siren_left_def)
  obtain a' where a': "siren_pay ''read'' wire tc ?j ?j a = (Inr (Some \<lparr>sk_kind = ''read'', sk_wire = wire\<rparr>), ?j, a')"
    "holds_reserve ao_siren (sj_reserve ?j) tc (siren_left ?j) a'"
    using siren_pay_ok [OF siren_budget_open [OF d(2) none], of "''read''" k wire tc ?j ?j] len t sl k siren_left_kinds(3) [of j] by auto
  have "siren_job_ok w_on w_off ?j" using d(1) q' on by (simp add: siren_job_ok_def)
  moreover have "siren_budget tc ?j a'" using a'(2) by (simp add: siren_budget_def)
  moreover have "siren_sent_ok w_on w_off ?h ?j" using d(3) on q'(3) by (simp add: siren_sent_ok_def)
  moreover have "siren_evidence json w_off ?h ?j"
    by (rule evidence_cong [OF siren_evidence_mono [OF d(4)]]) (simp_all add: same_plan_def q'(3))
  ultimately show ?thesis using a'(1) by (auto simp: pulse_inv_def)
qed

text \<open>Fields the invariant does not read.\<close>

lemma pulse_inv_fields [simp]:
  "pulse_inv json w_on w_off t h (j\<lparr>sj_off_until := u\<rparr>) a = pulse_inv json w_on w_off t h j a"
  "pulse_inv json w_on w_off t h (j\<lparr>sj_cancel := b\<rparr>) a = pulse_inv json w_on w_off t h j a"
  "pulse_inv json w_on w_off t h (j\<lparr>sj_failed := b\<rparr>) a = pulse_inv json w_on w_off t h j a"
  "pulse_inv json w_on w_off t h (j\<lparr>sj_on_ack := b\<rparr>) a = pulse_inv json w_on w_off t h j a"
  "pulse_inv json w_on w_off t h (j\<lparr>sj_off_ack := b\<rparr>) a = pulse_inv json w_on w_off t h j a"
  "pulse_inv json w_on w_off t h (j\<lparr>sj_on_error := x\<rparr>) a = pulse_inv json w_on w_off t h j a"
  by (simp_all add: pulse_inv_def siren_job_ok_def siren_budget_def siren_open_def siren_left_def siren_sent_ok_def siren_evidence_def
      off_accepted_def state_reported_def)

lemma siren_cleanup_inv:
  assumes inv: "pulse_inv json w_on w_off t h j a" and none: "sj_result j = None" and on: "sj_started j" and t: "t \<le> tc"
  shows "\<exists>p j' a'. siren_cleanup now tc (j, a) = (Inr p, j', a') \<and>
    pulse_inv json w_on w_off tc (h @ (case p of None \<Rightarrow> [] | Some x \<Rightarrow> [Sent x])) j' a' \<and>
    (sj_offs j = 0 \<and> 0 \<le> now \<longrightarrow> p = Some \<lparr>sk_kind = ''off'', sk_wire = w_off\<rparr>)"
proof -
  note d = pulse_invD [OF inv]
  have zero: "sj_offs j = 0 \<Longrightarrow> sj_off_error j = None \<and> sj_retry_at j = 0" using d(1) by (simp add: siren_job_ok_def)
  define retry where "retry \<longleftrightarrow> (sj_off_error j = Some 0 \<longrightarrow> sq_state (sj_probe j) = Some 2) \<and> sj_offs j < 2 \<and> now \<ge> sj_retry_at j"
  consider (off) retry | (read) "\<not> retry" "sj_off_error j = Some 0" | (idle) "\<not> retry" "sj_off_error j \<noteq> Some 0" by blast
  then show ?thesis
  proof cases
    case off
    then have "sj_offs j < 2" by (simp add: retry_def)
    from send_off_inv [OF inv none on t this, of now] off show ?thesis
      by (auto simp: siren_cleanup_def retry_def off_packet_def)
  next
    case read
    then have offs: "sj_offs j \<noteq> 0" using zero by auto
    obtain w q where q: "probe_next now (sj_probe j) = (w, q)" by fastforce
    have cl: "siren_cleanup now tc (j, a) = (case w of None \<Rightarrow> (Inr None, j\<lparr>sj_probe := q\<rparr>, a)
        | Some wire \<Rightarrow> siren_pay ''read'' wire tc (j\<lparr>sj_probe := q\<rparr>) (j\<lparr>sj_probe := q\<rparr>) a)"
      using read q by (auto simp: siren_cleanup_def retry_def split: option.split)
    show ?thesis
    proof (cases w)
      case None
      then have "q = sj_probe j" using q by (auto simp: probe_next_def split: if_splits)
      then have "siren_cleanup now tc (j, a) = (Inr None, j, a)" using cl None by simp
      then show ?thesis using pulse_inv_later [OF inv t] offs by auto
    next
      case (Some wire)
      from siren_read_inv [OF inv none on offs t q [unfolded Some]] cl Some offs show ?thesis by auto
    qed
  next
    case idle
    then have "siren_cleanup now tc (j, a) = (Inr None, j, a)" by (auto simp: siren_cleanup_def retry_def)
    then show ?thesis using pulse_inv_later [OF inv t] idle zero by (auto simp: retry_def)
  qed
qed

lemma siren_next_inv:
  assumes inv: "pulse_inv json w_on w_off t h j a" and t: "t \<le> tc"
  shows "\<exists>p j' a'. siren_next now tc source (j, a) = (Inr p, j', a') \<and>
    pulse_inv json w_on w_off tc (h @ (case p of None \<Rightarrow> [] | Some x \<Rightarrow> [Sent x])) j' a' \<and>
    (sj_result j = None \<and> sj_started j \<and> sj_offs j = 0 \<and> must_stop now j \<and> 0 \<le> now \<longrightarrow>
       p = Some \<lparr>sk_kind = ''off'', sk_wire = w_off\<rparr>) \<and>
    (sj_started j \<and> sj_offs j \<noteq> 0 \<and> sj_off_until j \<le> now \<longrightarrow> sj_result j' \<noteq> None)"
proof -
  note later = pulse_inv_later [OF inv t]
  note d = pulse_invD [OF inv]
  consider (over) "sj_result j \<noteq> None" | (start) "sj_result j = None" "\<not> sj_started j"
    | (hold) "sj_result j = None" "sj_started j" "sj_offs j = 0" "\<not> must_stop now j"
    | (first) "sj_result j = None" "sj_started j" "sj_offs j = 0" "must_stop now j"
    | (settled) "sj_result j = None" "sj_started j" "sj_offs j \<noteq> 0" "off_settled j"
    | (late) "sj_result j = None" "sj_started j" "sj_offs j \<noteq> 0" "\<not> off_settled j" "now \<ge> sj_off_until j"
    | (drain) "sj_result j = None" "sj_started j" "sj_offs j \<noteq> 0" "\<not> off_settled j" "now < sj_off_until j" by linarith
  then show ?thesis
  proof cases
    case over
    then show ?thesis using later by (auto simp: siren_next_def)
  next
    case start
    then show ?thesis using siren_start_inv [OF inv start t, of now source] by (auto simp: siren_next_def)
  next
    case hold
    then show ?thesis using later by (auto simp: siren_next_def)
  next
    case first
    have "pulse_inv json w_on w_off t h (j\<lparr>sj_off_until := now + 2\<rparr>) a" using inv by simp
    from siren_cleanup_inv [OF this _ _ t, of now] first show ?thesis by (auto simp: siren_next_def)
  next
    case settled
    define c where "c \<longleftrightarrow> sj_off_error j = Some 0 \<and> sq_state (sj_probe j) = Some 1 \<and> \<not> sq_invalid (sj_probe j)"
    define status where "status = (if c \<and> sj_on_error j = Some 0 \<and> \<not> sj_cancel j then ''completed'' else if c then ''cancelled'' else ''off_rejected'')"
    obtain j' a' where f: "siren_finish status c (j, a) = (j', a')" by fastforce
    have "siren_next now tc source (j, a) = (Inr None, j', a')" using settled f unfolding siren_next_def Let_def status_def c_def by simp
    moreover have "pulse_inv json w_on w_off tc h j' a' \<and> sj_result j' \<noteq> None"
      by (rule siren_finish_inv [OF later settled(1) _ f]) (simp add: c_def)
    ultimately show ?thesis using settled(3) by auto
  next
    case late
    obtain j' a' where f: "siren_finish ''off_unconfirmed'' False (j, a) = (j', a')" by fastforce
    show ?thesis using siren_finish_inv [OF later late(1) _ f] late f by (auto simp: siren_next_def)
  next
    case drain
    then show ?thesis using siren_cleanup_inv [OF inv drain(1,2) t, of now] by (auto simp: siren_next_def)
  qed
qed


lemma pulse_inv_got: "pulse_inv json w_on w_off t h j a \<Longrightarrow> pulse_inv json w_on w_off t (h @ [Got b]) j a"
  using siren_evidence_mono [of json w_off h j "[Got b]"] by (simp add: pulse_inv_def siren_sent_ok_def)

lemma siren_receipt_inv:
  assumes inv: "pulse_inv json w_on w_off t h j a" and none: "sj_result j = None" and on: "sj_started j" and t: "t \<le> tc"
    and len: "16 \<le> length plain"
  shows "\<exists>ps j' a'. siren_receipt plain flags tc (j, a) = (Inr ps, j', a') \<and> pulse_inv json w_on w_off tc (h @ map Sent ps) j' a'"
proof (cases "drop_bit 18 flags AND 3 \<noteq> 0 \<and> sj_receipts j < 6")
  case False
  then have "siren_receipt plain flags tc (j, a) = (Inr [], j, a)" by (auto simp: siren_receipt_def)
  with pulse_inv_later [OF inv t] show ?thesis by auto
next
  case True
  note d = pulse_invD [OF inv]
  let ?j = "j\<lparr>sj_receipts := sj_receipts j + 1\<rparr>"
  have key: "length (cn_session_key (sj_node j)) = 32" using d(1) by (simp add: siren_job_ok_def)
  obtain w where w: "build_mode2_response_ack (sj_node j) plain = Inr w" using response_ack_opens [OF key len] by blast
  note wl = build_ack_length [OF w]
  obtain k where k: "6 - sj_receipts j = Suc k" using True by (metis Suc_diff_Suc)
  have sl: "siren_left ?j = dict_set ''receipt'' k (siren_left j)" using k by (simp add: siren_left_def)
  obtain a' where a': "siren_charge (sj_reserve j) ''receipt'' (int (length w)) tc a = (Inr (), a')"
    "holds_reserve ao_siren (sj_reserve j) tc (siren_left ?j) a'"
    using siren_reserve.holds_charge [OF siren_budget_open [OF d(2) none], of "''receipt''" k "int (length w)" tc] t wl sl k
      siren_left_kinds(4) [of j] by auto
  let ?p = "\<lparr>sk_kind = ''receipt'', sk_wire = w\<rparr>"
  have "siren_job_ok w_on w_off ?j" using d(1) True by (simp add: siren_job_ok_def)
  moreover have "siren_budget tc ?j a'" using a'(2) by (simp add: siren_budget_def)
  moreover have "siren_sent_ok w_on w_off (h @ [Sent ?p]) ?j" using d(3) on by (simp add: siren_sent_ok_def)
  moreover have "siren_evidence json w_off (h @ [Sent ?p]) ?j"
    by (rule evidence_cong [OF siren_evidence_mono [OF d(4)]]) (simp_all add: same_plan_def)
  ultimately have "pulse_inv json w_on w_off tc (h @ [Sent ?p]) ?j a'" by (simp add: pulse_inv_def)
  moreover have "siren_receipt plain flags tc (j, a) = (Inr [?p], ?j, a')" using True w a'(1) by (auto simp: siren_receipt_def)
  ultimately show ?thesis by fastforce
qed

lemma note_code_inv:
  assumes inv: "pulse_inv json w_on w_off t h j a" and none: "sj_result j = None"
    and code: "parse_siren_action_response plain (if sj_offs j \<noteq> 0 then sj_off_id j else sj_on_id j) = Some code"
  shows "pulse_inv json w_on w_off t (h @ [Got plain]) (note_code code j) a"
proof (cases "sj_offs j \<noteq> 0 \<and> (sj_off_error j = None \<or> sj_off_error j = Some 0)")
  case False
  then show ?thesis using pulse_inv_got [OF inv] by (auto simp: note_code_def)
next
  case True
  let ?j = "j\<lparr>sj_off_error := Some code\<rparr>"
  note d = pulse_invD [OF pulse_inv_got [OF inv, of plain]]
  have "off_packet w_off \<in> set h" using pulse_invD(4) [OF inv] True by (simp add: siren_evidence_def)
  then have acc: "code = 0 \<Longrightarrow> off_accepted w_off j (h @ [Got plain])" using code True by (auto simp: off_accepted_def)
  have "siren_job_ok w_on w_off ?j" using d(1) True by (simp add: siren_job_ok_def)
  moreover have "siren_budget t ?j a" using d(2) by (simp add: siren_budget_def siren_open_def siren_left_def)
  moreover have "siren_sent_ok w_on w_off (h @ [Got plain]) ?j" using d(3) by (simp add: siren_sent_ok_def)
  moreover have "siren_evidence json w_off (h @ [Got plain]) ?j"
    using d(4) acc none plan_evidence [of j ?j] by (auto simp: siren_evidence_def same_plan_def)
  ultimately show ?thesis using True by (simp add: pulse_inv_def note_code_def)
qed

lemma probe_observe_inv:
  assumes inv: "pulse_inv json w_on w_off t h j a" and none: "sj_result j = None" and acc: "sj_off_error j = Some 0" and offs: "sj_offs j \<noteq> 0"
    and q: "probe_observe json plain (sj_generation j) (sj_probe j) = (mine, q)"
  shows "pulse_inv json w_on w_off t (h @ [Got plain]) (j\<lparr>sj_probe := q\<rparr>) a"
proof -
  let ?j = "j\<lparr>sj_probe := q\<rparr>"
  note d = pulse_invD [OF pulse_inv_got [OF inv, of plain]]
  have same: "sq_index q = sq_index (sj_probe j)" "sq_wires q = sq_wires (sj_probe j)" "sq_session q = sq_session (sj_probe j)"
    "sq_device q = sq_device (sj_probe j)"
    using q by (auto simp: probe_observe_def split: if_splits option.splits)
  have "off_accepted w_off j h" using pulse_invD(4) [OF inv] acc by (simp add: siren_evidence_def)
  then have rep: "sq_state q = sq_state (sj_probe j) \<or> (\<exists>s. sq_state q = Some s \<and> state_reported json w_off j s (h @ [Got plain]))"
    using q unfolding state_reported_def probe_observe_def by (fastforce split: if_splits option.splits)
  have "siren_job_ok w_on w_off ?j" using d(1) same offs by (simp add: siren_job_ok_def)
  moreover have "siren_budget t ?j a" using d(2) same by (simp add: siren_budget_def siren_open_def siren_left_def)
  moreover have "siren_sent_ok w_on w_off (h @ [Got plain]) ?j" using d(3) same by (simp add: siren_sent_ok_def)
  moreover have "siren_evidence json w_off (h @ [Got plain]) ?j"
    using d(4) rep none same plan_evidence [of j ?j] by (auto simp: siren_evidence_def same_plan_def)
  ultimately show ?thesis by (simp add: pulse_inv_def)
qed

lemma note_receipt_inv: "pulse_inv json w_on w_off t h (note_receipt plain c j) a = pulse_inv json w_on w_off t h j a"
  by (simp add: note_receipt_def siren_cancel_def Let_def)

lemma siren_observe_inv:
  assumes inv: "pulse_inv json w_on w_off t h j a" and t: "t \<le> tc"
    and obs: "siren_observe json plain peer generation now tc (j, a) = (x, j', a')"
  shows "pulse_inv json w_on w_off tc (h @ Got plain # (case x of Inl e \<Rightarrow> [] | Inr ps \<Rightarrow> map Sent ps)) j' a'"
proof (cases "relevant plain peer generation now j")
  case False
  then show ?thesis using obs pulse_inv_later [OF pulse_inv_got [OF inv, of plain] t] by (auto simp: siren_observe_def)
next
  case rel: True
  then have r: "sj_result j = None" "sj_started j" "generation = sj_generation j" "16 \<le> length plain" by (auto simp: relevant_def)
  define mq where "mq = (if sj_offs j \<noteq> 0 \<and> sj_off_error j = Some 0 then probe_observe json plain generation (sj_probe j) else (False, sj_probe j))"
  obtain mine q where q: "mq = (mine, q)" by fastforce
  note later = pulse_inv_later [OF pulse_inv_got [OF inv, of plain] t]
  show ?thesis
  proof (cases mine)
    case True
    then have p: "probe_observe json plain (sj_generation j) (sj_probe j) = (True, q)" "sj_off_error j = Some 0" "sj_offs j \<noteq> 0"
      using q r(3) by (auto simp: mq_def split: if_splits)
    have o1: "siren_receipt plain (u32_at plain 20) tc (j\<lparr>sj_probe := q\<rparr>, a) = (x, j', a')"
      using obs rel q [unfolded mq_def] True by (simp add: siren_observe_def)
    from siren_receipt_inv [OF probe_observe_inv [OF inv r(1) p(2,3,1)] _ _ t r(4), of "u32_at plain 20"] r(1,2) o1
    show ?thesis by auto
  next
    case False
    define flags where "flags = u32_at plain 20"
    have "siren_observe json plain peer generation now tc (j, a) = (if bit flags 20 then
       if length plain \<noteq> 32 \<or> plain ! 1 \<noteq> 0xAC \<or> bit flags 21 then (Inr [], j, a)
       else (case gute_mode1_xor_checksum plain of
          Inl e \<Rightarrow> (Inl e, j, a)
        | Inr checksum \<Rightarrow> (Inr [], note_receipt plain checksum j, a))
     else case parse_siren_action_response plain (if sj_offs j \<noteq> 0 then sj_off_id j else sj_on_id j) of
       None \<Rightarrow> (Inr [], j, a)
     | Some code \<Rightarrow> siren_receipt plain flags tc (note_code code j, a))"
      using rel q [unfolded mq_def] False unfolding siren_observe_def flags_def by (simp add: Let_def split: option.split)
    note o2 = this [unfolded obs, symmetric]
    consider (ack) "bit flags 20" | (none) "\<not> bit flags 20" "parse_siren_action_response plain (if sj_offs j \<noteq> 0 then sj_off_id j else sj_on_id j) = None"
      | (code) code where "\<not> bit flags 20" "parse_siren_action_response plain (if sj_offs j \<noteq> 0 then sj_off_id j else sj_on_id j) = Some code"
      by fastforce
    then show ?thesis
    proof cases
      case ack
      then show ?thesis using o2 later by (auto simp: note_receipt_inv split: if_splits sum.splits)
    next
      case none
      then show ?thesis using o2 later by auto
    next
      case code
      have k: "sj_result (note_code code j) = None" "sj_started (note_code code j)" using r by (simp_all add: note_code_def)
      from siren_receipt_inv [OF note_code_inv [OF inv r(1) code(2)] k t r(4), of flags] o2 code show ?thesis by auto
    qed
  qed
qed


lemma build_siren_action_key: "build_siren_action node acc dev on sequence m rand15 = Inr w \<Longrightarrow> length (cn_session_key node) = 32"
  by (auto simp: build_siren_action_def bind_res_Inr Let_def finish_mode2_def gute_mode2_encrypt_def split: if_splits)

lemma siren_spec_init_Inr:
  "siren_spec_init acc dev seconds = Inr spec \<Longrightarrow>
   0 \<le> ss_access_id spec \<and> ss_access_id spec < 2 ^ 64 \<and> 0 \<le> ss_device_id spec \<and> ss_device_id spec < 2 ^ 64 \<and> ss_seconds spec \<in> {2, 5, 10}"
  by (auto simp: siren_spec_init_def split: if_splits)

lemma siren_action_wire:
  assumes "siren_spec_init acc dev seconds = Inr spec"
    "build_siren_action node (ss_access_id spec) (ss_device_id spec) on sequence m rand15 = Inr w"
  shows "length w = 75"
  using build_siren_action_opens [of "ss_access_id spec" "ss_device_id spec" node on sequence m rand15]
    siren_spec_init_Inr [OF assms(1)] build_siren_action_key [OF assms(2)] assms(2) by auto

lemma siren_read_path: "SIREN_READ_PATH \<in> set MODEL_READ_PATHS" "length SIREN_READ_PATH = 16"
  by (simp_all add: SIREN_READ_PATH_def MODEL_READ_PATHS_def)

lemma probe_wires_ok:
  "length (cn_session_key node) = 32 \<Longrightarrow> 0 \<le> dev \<Longrightarrow> dev < 2 ^ 64 \<Longrightarrow> probe_wires node dev xs = Inr ws \<Longrightarrow>
   length ws = length xs \<and> (\<forall>w \<in> set ws. length w = 55)"
proof (induction xs arbitrary: ws rule: list.induct)
  case (Cons x xs)
  obtain s m r where x: "x = (s, m, r)" by (cases x)
  with Cons.prems(4) obtain w ws' where w: "build_model_read node dev SIREN_READ_PATH s m r = Inr w" "probe_wires node dev xs = Inr ws'" "ws = w # ws'"
    by (auto simp: bind_res_Inr)
  with Cons.IH [OF Cons.prems(1-3) w(2)] build_model_read_opens [OF siren_read_path(1) Cons.prems(2,3,1), of s m r] siren_read_path(2)
  show ?case by auto
qed simp

text \<open>What a constructed job looks like.\<close>

lemma siren_init_inv:
  assumes init: "siren_init dr node generation spec admit_until now tr source b = (Inr j, source', a)"
    and spec: "siren_spec_init acc dev seconds = Inr spec" and dr: "length (sw_reads dr) = 3"
    and b: "ao_inv b" "tb_last (ao_traffic b) \<le> tr"
  shows "pulse_inv json (sj_on j) (sj_off j) tr [] j a"
proof -
  obtain r ids probe on off where r: "reserve_siren tr b = (Inr r, a)" "sequences_reserve 5 source = (Inr ids, source')"
    "siren_build dr node generation spec ids = Inr (probe, on, off)"
    and j: "sj_reserve j = r" "sj_probe j = probe" "sj_on j = on" "sj_off j = off" "sj_node j = node" "\<not> sj_started j" "sj_offs j = 0"
      "sj_receipts j = 0" "sj_off_error j = None" "sj_retry_at j = 0" "sj_result j = None"
    using init by (auto simp: siren_init_def Let_def split: if_splits prod.splits sum.splits)
  have ids: "length ids = 5" using r(2) by (simp add: sequences_reserve_Inr)
  from r(3) obtain ws where built: "build_siren_action node (ss_access_id spec) (ss_device_id spec) True (ids ! 0) (sw_on_id dr) (sw_on_flags dr) = Inr on"
    "build_siren_action node (ss_access_id spec) (ss_device_id spec) False (ids ! 1) (sw_on_id dr XOR 1) (sw_off_flags dr) = Inr off"
    "probe_wires node (ss_device_id spec) (zip (drop 2 ids) (sw_reads dr)) = Inr ws"
    and probe: "sq_wires probe = ws" "sq_index probe = 0" "sq_state probe = None"
    by (auto simp: siren_build_def probe_init_def bind_res_Inr split: if_splits)
  note key = build_siren_action_key [OF built(1)]
  have ws: "length ws = 3" "\<forall>w \<in> set ws. length w = 55"
    using probe_wires_ok [OF key _ _ built(3)] siren_spec_init_Inr [OF spec] ids dr by auto
  have "siren_job_ok on off j" using j probe ws key siren_action_wire [OF spec built(1)] siren_action_wire [OF spec built(2)]
    by (simp add: siren_job_ok_def)
  moreover have "siren_budget tr j a"
    using siren_reserve.reserved [OF b r(1)] j probe by (simp add: siren_budget_def siren_left_def siren_slots_def)
  moreover have "siren_sent_ok on off [] j" using j probe by (simp add: siren_sent_ok_def)
  moreover have "siren_evidence json off [] j" using j probe by (simp add: siren_evidence_def)
  ultimately show ?thesis using j(3,4) by (simp add: pulse_inv_def)
qed

lemma pulse_reachable_inv: "pulse json w_on w_off t h j a \<Longrightarrow> pulse_inv json w_on w_off t h j a"
proof (induction rule: pulse.induct)
  case (start packets octets policy capacity t_init b0 b tr acc dev seconds spec dr node generation admit_until now source j source' a)
  have "ao_inv b" using start(1,2) output_init_inv output_reach_inv by blast
  from siren_init_inv [OF start(6,4,5) this start(3)] start(7,8) show ?case by simp
next
  case (poll t h j a now tc source p j' a')
  have "t \<le> tc" using poll(2,3) by linarith
  from siren_next_inv [OF poll.IH this, of now source] poll(4) show ?case by auto
next
  case (observe t h j a tc plain peer generation now x j' a')
  from siren_observe_inv [OF observe.IH observe(2,3)] show ?case .
next
  case (others t h j a t' b)
  have "siren_budget t' j b" if "siren_budget t j a"
    using that siren_reserve.holds_others [OF others(3)] holds_reserve_later [OF _ others(2)] by (auto simp: siren_budget_def)
  with others.IH show ?case by (simp add: pulse_inv_def)
qed (simp_all add: siren_cancel_def siren_send_failed_def)

section \<open>What a pulse guarantees\<close>

text \<open>
  C26. The traffic of one pulse is bounded and ordered. The first packet is the one ON, which
  is never repeated; every OFF is the same prepared datagram and at most two are sent; at
  most three state reads and six receipts follow.
\<close>
theorem siren_packets_bounded:
  assumes "pulse json w_on w_off t h j a"
  shows "(sent h \<noteq> [] \<longrightarrow> hd (sent h) = \<lparr>sk_kind = ''on'', sk_wire = w_on\<rparr>) \<and> count_kind ''on'' h \<le> 1 \<and> count_kind ''off'' h \<le> 2 \<and>
    count_kind ''read'' h \<le> 3 \<and> count_kind ''receipt'' h \<le> 6 \<and>
    (\<forall>p \<in> set (sent h). sk_kind p \<in> {''on'', ''off'', ''read'', ''receipt''} \<and> (sk_kind p = ''off'' \<longrightarrow> sk_wire p = w_off))"
  using pulse_invD(1,3) [OF pulse_reachable_inv [OF assms]] by (auto simp: siren_sent_ok_def siren_job_ok_def)

text \<open>
  C8. A siren that was switched on is switched off. Once ON was handed out and the hold time
  is over, or the pulse was cancelled, refused, or not acknowledged in time, the next poll
  hands out OFF without an error, whatever the other users of the account spent.
\<close>
theorem siren_off_guaranteed:
  assumes "pulse json w_on w_off t h j a" "sj_started j" "sj_result j = None" "sj_offs j = 0" "must_stop now j" "0 \<le> now" "t \<le> t_charge"
  shows "\<exists>j' a'. siren_next now t_charge source (j, a) = (Inr (Some \<lparr>sk_kind = ''off'', sk_wire = w_off\<rparr>), j', a')"
  using siren_next_inv [OF pulse_reachable_inv [OF assms(1)] assms(7), of now source] assms(2-6) by auto

text \<open>
  C7. An outcome that claims the siren is off is backed by the camera: it accepted an OFF
  after it was sent, and a later, separate state report read off. Transport receipts are
  never enough.
\<close>
theorem siren_off_confirmed_honest:
  assumes "pulse json w_on w_off t h j a" "sj_result j = Some r" "sx_off_confirmed r"
  shows "off_accepted w_off j h \<and> state_reported json w_off j 1 h"
  using pulse_invD(4) [OF pulse_reachable_inv [OF assms(1)]] assms(2,3) by (simp add: siren_evidence_def)

text \<open>
  C27. While a pulse is running, or after one that ended with OFF unconfirmed, the account
  accepts no other pulse.
\<close>
theorem unconfirmed_siren_blocks:
  assumes "pulse json w_on w_off t h j a"
    "sj_result j = None \<or> (\<exists>r. sj_result j = Some r \<and> sx_start_attempted r \<and> \<not> sx_off_confirmed r)"
  shows "\<exists>e. fst (siren_init dr node generation spec admit_until now t_reserve source a) = Inl e"
proof -
  have "siren_open j" using assms(2) by (auto simp: siren_open_def)
  then have "holds_reserve ao_siren (sj_reserve j) t (siren_left j) a"
    using pulse_invD(2) [OF pulse_reachable_inv [OF assms(1)]] by (simp add: siren_budget_def)
  from siren_reserve.held_blocks [OF this, of t_reserve] show ?thesis by (cases "reserve_siren t_reserve a") (auto simp: siren_init_def Let_def)
qed


lemma siren_pay_deadline: "siren_pay kind w tc jf jp a = (res, j', a') \<Longrightarrow> j' = jf \<or> j' = jp"
  by (auto simp: siren_pay_def split: prod.splits sum.splits)

lemma siren_cleanup_deadline: "siren_cleanup now tc (j, a) = (res, j', a') \<Longrightarrow> sj_off_until j' = sj_off_until j"
  by (auto simp: siren_cleanup_def send_off_def split: if_splits prod.splits option.splits dest!: siren_pay_deadline)

lemma siren_start_deadline: "siren_start now tc source (j, a) = (res, j', a') \<Longrightarrow> sj_off_until j' = sj_off_until j \<and> sj_offs j' = sj_offs j"
  by (auto simp: siren_start_def siren_finish_def split: if_splits dest!: siren_pay_deadline)

lemma siren_next_deadline:
  assumes "siren_next now tc source (j, a) = (res, j', a')" "sj_offs j \<noteq> 0 \<longrightarrow> sj_off_until j \<le> u" "now + 2 \<le> u"
  shows "sj_offs j' \<noteq> 0 \<longrightarrow> sj_off_until j' \<le> u"
  using assms
  by (auto simp: siren_next_def siren_finish_def Let_def split: if_splits dest!: siren_cleanup_deadline siren_start_deadline)

lemma siren_observe_deadline:
  "siren_observe json plain peer generation now tc (j, a) = (x, j', a') \<Longrightarrow> sj_off_until j' = sj_off_until j \<and> sj_offs j' = sj_offs j"
  by (auto simp: siren_observe_def siren_receipt_def note_receipt_def note_code_def siren_cancel_def Let_def
      split: if_splits prod.splits sum.splits option.splits)

lemma off_deadline: "pulse json w_on w_off t h j a \<Longrightarrow> sj_offs j \<noteq> 0 \<longrightarrow> sj_off_until j \<le> t + 2"
proof (induction rule: pulse.induct)
  case (start packets octets policy capacity t_init b0 b tr acc dev seconds spec dr node generation admit_until now source j source' a)
  then show ?case by (auto simp: siren_init_def Let_def split: if_splits prod.splits sum.splits)
next
  case (poll t h j a now tc source p j' a')
  then show ?case by (intro siren_next_deadline [OF poll(4)]) auto
next
  case (observe t h j a tc plain peer generation now x j' a')
  then show ?case by (auto dest!: siren_observe_deadline)
qed (auto simp: siren_cancel_def siren_send_failed_def)

text \<open>
  A pulse ends. From any state in which ON was sent and OFF is due or already sent, one
  poll now and one poll at least two seconds later return without an error, and after the
  second the outcome is recorded, whatever is or is not received.
\<close>
theorem siren_pulse_ends:
  assumes "pulse json w_on w_off t h j a" "sj_started j" "must_stop n1 j \<or> sj_offs j \<noteq> 0" "0 \<le> n1" "t \<le> n1" "n1 \<le> c1" "c1 \<le> n2" "n1 + 2 \<le> n2" "n2 \<le> c2"
  shows "\<exists>p1 j1 a1 p2 j2 a2. siren_next n1 c1 source1 (j, a) = (Inr p1, j1, a1) \<and>
    siren_next n2 c2 source2 (j1, a1) = (Inr p2, j2, a2) \<and> sj_result j2 \<noteq> None"
proof -
  have tc: "t \<le> c1" "c1 \<le> c2" using assms(5-9) by linarith+
  obtain p1 j1 a1 where 1: "siren_next n1 c1 source1 (j, a) = (Inr p1, j1, a1)"
    "sj_result j = None \<and> sj_offs j = 0 \<and> must_stop n1 j \<longrightarrow> p1 = Some \<lparr>sk_kind = ''off'', sk_wire = w_off\<rparr>"
    using siren_next_inv [OF pulse_reachable_inv [OF assms(1)] tc(1), of n1 source1] assms(2,4) by blast
  note g = pulse.poll [OF assms(1,5,6) 1(1)]
  note d = pulse_invD [OF pulse_reachable_inv [OF g]]
  have offs: "sj_result j1 \<noteq> None \<or> sj_offs j1 \<noteq> 0"
  proof (cases "sj_result j = None \<and> sj_offs j = 0")
    case True
    then have "count_kind ''off'' (h @ (case p1 of None \<Rightarrow> [] | Some x \<Rightarrow> [Sent x])) \<noteq> 0" using 1(2) assms(3) by simp
    with d(3) show ?thesis unfolding siren_sent_ok_def by metis
  next
    case False
    have "sj_offs j \<le> sj_offs j1" using pulse_invD(3) [OF pulse_reachable_inv [OF assms(1)]] d(3) by (simp add: siren_sent_ok_def)
    moreover have "sj_result j \<noteq> None \<Longrightarrow> j1 = j" using 1(1) by (simp add: siren_next_def)
    ultimately show ?thesis using False by auto
  qed
  have dl: "sj_offs j1 \<noteq> 0 \<longrightarrow> sj_off_until j1 \<le> n1 + 2"
    by (rule siren_next_deadline [OF 1(1)]) (use off_deadline [OF assms(1)] assms(5) in auto)
  have st: "sj_started j1 \<or> sj_offs j1 = 0" using d(1) by (auto simp: siren_job_ok_def)
  obtain p2 j2 a2 where 2: "siren_next n2 c2 source2 (j1, a1) = (Inr p2, j2, a2)"
    "sj_started j1 \<and> sj_offs j1 \<noteq> 0 \<and> sj_off_until j1 \<le> n2 \<longrightarrow> sj_result j2 \<noteq> None"
    using siren_next_inv [OF pulse_reachable_inv [OF g] tc(2), of n2 source2] by blast
  have "sj_result j2 \<noteq> None" if "sj_result j1 \<noteq> None" using 2(1) that by (auto simp: siren_next_def)
  with offs dl st 2(2) assms(8) have "sj_result j2 \<noteq> None" by fastforce
  with 1(1) 2(1) show ?thesis by blast
qed


section \<open>A pulse that can be run\<close>

definition demo_siren_spec :: siren_spec where
  "demo_siren_spec = \<lparr>ss_access_id = 3, ss_device_id = 4, ss_seconds = 2\<rparr>"

definition demo_siren_draws :: siren_draws where
  "demo_siren_draws = \<lparr>sw_reads = [(1, 0), (2, 0), (3, 0)], sw_on_id = 0, sw_on_flags = 0, sw_off_flags = 0\<rparr>"

text \<open>The camera's answers: OFF accepted, and a report that reads off.\<close>

definition demo_accept :: bytes where
  "demo_accept = [126, 173, 54, 0, 7, 0, 0, 0, 0, 0, 0, 0, 0, 0, 0, 0, 0, 0, 0, 0, 0, 0, 2, 0] @ replicate 24 0 @ [1, 0, 0, 0, 0, 0]"

definition demo_report :: bytes where
  "demo_report = [126, 184, 40, 0, 7, 0, 0, 0, 0, 0, 0, 0, 0, 0, 0, 0, 7, 0, 0, 0, 0, 0, 34, 0, 4, 0, 0, 0, 0, 0, 0, 0, 1, 0, 0, 0, 0, 0, 0, 0]"

definition demo_json :: json_decoder where
  "demo_json bs = Some (JObj [(''t'', JInt 5), (''stVal'', JInt 1)])"

lemma demo_siren_job:
  "\<exists>on off j a. pulse demo_json on off 0 [] j a \<and> \<not> sj_started j \<and> sj_result j = None \<and> \<not> sj_cancel j \<and> sj_admit_until j = 1 \<and>
     sj_node j = demo_node \<and> sj_generation j = 1 \<and> sj_off_id j = 1 \<and> sj_seconds j = 2 \<and> sj_on_error j = None \<and>
     sq_session (sj_probe j) = 7 \<and> sq_device (sj_probe j) = 4 \<and> \<not> sq_invalid (sj_probe j) \<and> sq_next_at (sj_probe j) = 0 \<and>
     hd (sq_tickets (sj_probe j)) = \<lparr>rt_generation = 1, rt_sequence = 7, rt_kind = 0xB7\<rparr> \<and> sq_tickets (sj_probe j) \<noteq> []"
proof -
  have init: "output_init None None FINITE 1 0 = Inr demo_output"
    by (simp add: output_init_def traffic_init_def validate_media_capacity_def demo_output_def)
  obtain a where a: "reserve_siren 0 demo_output = (Inr 0, a)"
    by (simp add: reserve_siren_def demo_output_def output_reserved_def traffic_available_def new_reserve_def Let_def)
  have key: "length (cn_session_key demo_node) = 32" "cn_session_id demo_node = 7" by (simp_all add: demo_node_def)
  have ids: "sequences_reserve 5 demo_source = (Inr [5, 6, 7, 8, 9], demo_source\<lparr>bs_next := 10\<rparr>)"
    by (simp add: sequences_reserve_def demo_source_def upto.simps)
  obtain w1 w2 where w: "build_siren_action demo_node 3 4 True 5 0 0 = Inr w1" "build_siren_action demo_node 3 4 False 6 1 0 = Inr w2"
    using build_siren_action_opens [OF _ _ _ _ key(1), of 3 4] by fastforce
  obtain r1 r2 r3 where r: "build_model_read demo_node 4 SIREN_READ_PATH 7 1 0 = Inr r1" "build_model_read demo_node 4 SIREN_READ_PATH 8 2 0 = Inr r2"
    "build_model_read demo_node 4 SIREN_READ_PATH 9 3 0 = Inr r3"
    using build_model_read_opens [OF siren_read_path(1) _ _ key(1), of 4] by fastforce
  obtain q where q: "siren_build demo_siren_draws demo_node 1 demo_siren_spec [5, 6, 7, 8, 9] = Inr (q, w1, w2)" "sq_session q = 7" "sq_device q = 4"
    "\<not> sq_invalid q" "sq_next_at q = 0" "hd (sq_tickets q) = \<lparr>rt_generation = 1, rt_sequence = 7, rt_kind = 0xB7\<rparr>" "sq_tickets q \<noteq> []"
    using w r key(2) by (simp add: siren_build_def probe_init_def demo_siren_draws_def demo_siren_spec_def)
  have spec: "siren_spec_init 3 4 2 = Inr demo_siren_spec" by (simp add: siren_spec_init_def demo_siren_spec_def)
  have match: "sequences_match 7 1 demo_source" by (simp add: sequences_match_def demo_source_def)
  obtain j where j: "siren_init demo_siren_draws demo_node 1 demo_siren_spec None 0 0 demo_source demo_output = (Inr j, demo_source\<lparr>bs_next := 10\<rparr>, a)"
    "\<not> sj_started j" "sj_result j = None" "\<not> sj_cancel j" "sj_admit_until j = 1" "sj_node j = demo_node" "sj_generation j = 1"
    "sj_off_id j = 1" "sj_seconds j = 2" "sj_probe j = q" "sj_on_error j = None"
    using a ids q(1) key(2) match by (simp add: siren_init_def Let_def) (simp add: demo_siren_draws_def demo_siren_spec_def)
  have "pulse demo_json (sj_on j) (sj_off j) 0 [] j a"
    by (rule pulse.start [OF init output_reach.start _ spec _ j(1)]) (simp_all add: demo_output_def demo_siren_draws_def)
  with j q show ?thesis by blast
qed


lemma siren_pay_Inr: "siren_pay kind w tc jf jp a = (Inr x, j', a') \<Longrightarrow> x = Some \<lparr>sk_kind = kind, sk_wire = w\<rparr> \<and> j' = jp"
  by (auto simp: siren_pay_def split: prod.splits sum.splits)

lemma pulse_poll_exists:
  assumes "pulse json w_on w_off t h j a" "t \<le> now"
  shows "\<exists>p j' a'. siren_next now now source (j, a) = (Inr p, j', a') \<and>
    pulse json w_on w_off now (h @ (case p of None \<Rightarrow> [] | Some x \<Rightarrow> [Sent x])) j' a'"
  using siren_next_inv [OF pulse_reachable_inv [OF assms(1)] assms(2), of now source] pulse.poll [OF assms(1,2) order_refl] by blast

lemma demo_siren_started:
  "\<exists>on off h j a. pulse demo_json on off 0 h j a \<and> h = [on_packet on] \<and> sj_started j \<and> sj_result j = None \<and> sj_offs j = 0 \<and> \<not> sj_cancel j \<and>
     sj_hold_until j = 2 \<and> sj_node j = demo_node \<and> sj_generation j = 1 \<and> sj_off_id j = 1 \<and> sj_on_error j = None \<and>
     sq_session (sj_probe j) = 7 \<and> sq_device (sj_probe j) = 4 \<and> \<not> sq_invalid (sj_probe j) \<and> sq_next_at (sj_probe j) = 0 \<and>
     hd (sq_tickets (sj_probe j)) = \<lparr>rt_generation = 1, rt_sequence = 7, rt_kind = 0xB7\<rparr> \<and> sq_tickets (sj_probe j) \<noteq> []"
proof -
  obtain on off j a where g: "pulse demo_json on off 0 [] j a" and f: "\<not> sj_started j" "sj_result j = None" "\<not> sj_cancel j" "sj_admit_until j = 1"
     "sj_node j = demo_node" "sj_generation j = 1" and k: "sj_off_id j = 1" "sj_seconds j = 2" "sj_on_error j = None"
     "sq_session (sj_probe j) = 7" "sq_device (sj_probe j) = 4" "\<not> sq_invalid (sj_probe j)" "sq_next_at (sj_probe j) = 0"
     "hd (sq_tickets (sj_probe j)) = \<lparr>rt_generation = 1, rt_sequence = 7, rt_kind = 0xB7\<rparr>" "sq_tickets (sj_probe j) \<noteq> []"
    using demo_siren_job by blast
  have z: "sj_offs j = 0" "sj_on j = on" using pulse_invD(1) [OF pulse_reachable_inv [OF g]] f by (auto simp: siren_job_ok_def)
  obtain p j' a' where n: "siren_next 0 0 demo_source (j, a) = (Inr p, j', a')"
    "pulse demo_json on off 0 ([] @ (case p of None \<Rightarrow> [] | Some x \<Rightarrow> [Sent x])) j' a'"
    using pulse_poll_exists [OF g order_refl, of demo_source] by blast
  have "sequences_match (cn_session_id demo_node) 1 demo_source" by (simp add: sequences_match_def demo_source_def demo_node_def)
  then have "siren_pay ''on'' on 0 j (j\<lparr>sj_started := True, sj_hold_until := 2, sj_on_until := 3 / 2\<rparr>) a = (Inr p, j', a')"
    using n(1) f k(2) z(2) by (simp add: siren_next_def siren_start_def)
  from siren_pay_Inr [OF this] n(2) f k z(1) show ?thesis
    by (intro exI [of _ on] exI [of _ off] exI [of _ "[on_packet on]"] exI [of _ j'] exI [of _ a']) (simp add: on_packet_def)
qed

theorem siren_packets_bounded_witness:
  "\<exists>on off h j a. pulse demo_json on off 0 h j a \<and> hd (sent h) = \<lparr>sk_kind = ''on'', sk_wire = on\<rparr> \<and> count_kind ''on'' h \<le> 1"
proof -
  obtain on off h j a where g: "pulse demo_json on off 0 h j a" "h = [on_packet on]" using demo_siren_started by blast
  then have "sent h \<noteq> []" by (simp add: on_packet_def)
  with g siren_packets_bounded [OF g(1)] show ?thesis by blast
qed

theorem siren_off_guaranteed_witness:
  "\<exists>on off h j a j' a'. pulse demo_json on off 0 h j a \<and>
    siren_next 2 2 demo_source (j, a) = (Inr (Some \<lparr>sk_kind = ''off'', sk_wire = off\<rparr>), j', a')"
proof -
  obtain on off h j a where g: "pulse demo_json on off 0 h j a" "sj_started j" "sj_result j = None" "sj_offs j = 0" "sj_hold_until j = 2"
    using demo_siren_started by blast
  have "must_stop 2 j" using g(5) by (simp add: must_stop_def)
  from siren_off_guaranteed [OF g(1-4) this, of 2 demo_source] g(1) show ?thesis by fastforce
qed

theorem siren_pulse_ends_witness:
  "\<exists>on off h j a p1 j1 a1 p2 j2 a2. pulse demo_json on off 0 h j a \<and> siren_next 2 2 demo_source (j, a) = (Inr p1, j1, a1) \<and>
    siren_next 4 4 demo_source (j1, a1) = (Inr p2, j2, a2) \<and> sj_result j2 \<noteq> None"
proof -
  obtain on off h j a where g: "pulse demo_json on off 0 h j a" "sj_started j" "sj_hold_until j = 2" using demo_siren_started by blast
  have "\<exists>p1 j1 a1 p2 j2 a2. siren_next 2 2 demo_source (j, a) = (Inr p1, j1, a1) \<and>
      siren_next 4 4 demo_source (j1, a1) = (Inr p2, j2, a2) \<and> sj_result j2 \<noteq> None"
    by (rule siren_pulse_ends [OF g(1,2)]) (use g(3) in \<open>simp_all add: must_stop_def\<close>)
  with g(1) show ?thesis by blast
qed

theorem unconfirmed_siren_blocks_witness:
  "\<exists>on off h j a e. pulse demo_json on off 0 h j a \<and> sj_started j \<and>
    fst (siren_init demo_siren_draws demo_node 1 demo_siren_spec None 1 1 demo_source a) = Inl e"
proof -
  obtain on off h j a where g: "pulse demo_json on off 0 h j a" "sj_started j" "sj_result j = None" using demo_siren_started by blast
  from unconfirmed_siren_blocks [OF g(1), of demo_siren_draws demo_node 1 demo_siren_spec None 1 1 demo_source] g show ?thesis by blast
qed

lemma demo_accept_fields:
  "length demo_accept = 54" "demo_accept ! 0 = 126" "demo_accept ! 1 = 173" "u16_at demo_accept 2 = 54" "u64_at demo_accept 4 = 7"
  "u32_at demo_accept 20 = 131072" "u32_at demo_accept 48 = 1" "u16_at demo_accept 52 = 0"
  by (simp_all add: demo_accept_def pyslice_def)

lemma demo_report_fields:
  "length demo_report = 40" "demo_report ! 0 = 126" "demo_report ! 1 = 184" "u16_at demo_report 2 = 40" "u64_at demo_report 4 = 7"
  "u32_at demo_report 16 = 7" "u32_at demo_report 20 = 2228224" "u64_at demo_report 24 = 4" "demo_report ! 32 = 1"
  "u16_at demo_report 36 = 0" "u16_at demo_report 38 = 0"
  by (simp_all add: demo_report_def pyslice_def)

lemma demo_accept_read:
  assumes "sj_started j" "sj_result j = None" "sj_offs j = 1" "sj_node j = demo_node" "sj_generation j = 1" "sj_off_id j = 1" "sj_off_until j = 4"
    "sj_off_error j = None"
  shows "siren_observe demo_json demo_accept (''broker'', 1) 1 2 2 (j, a) = (Inr [], j\<lparr>sj_off_error := Some 0\<rparr>, a)"
proof -
  note flags = demo_accept_fields
  have "relevant demo_accept (''broker'', 1) 1 2 j"
    using assms flags by (simp add: relevant_def demo_node_def drop_bit_eq_div)
  moreover have "parse_siren_action_response demo_accept 1 = Some 0"
    using flags by (simp add: parse_siren_action_response_def parse_action_code_def)
  ultimately show ?thesis using assms(3,6,8) flags
    by (simp add: siren_observe_def siren_receipt_def note_code_def Let_def drop_bit_eq_div bit_iff_odd)
qed

lemma demo_report_read:
  assumes "sj_started j" "sj_result j = None" "sj_offs j = 1" "sj_node j = demo_node" "sj_generation j = 1" "sj_off_until j = 4"
    "sj_off_error j = Some 0" "sq_index (sj_probe j) = 1" "sq_session (sj_probe j) = 7" "sq_device (sj_probe j) = 4" "\<not> sq_invalid (sj_probe j)"
    "hd (sq_tickets (sj_probe j)) = \<lparr>rt_generation = 1, rt_sequence = 7, rt_kind = 0xB7\<rparr>" "sq_tickets (sj_probe j) \<noteq> []"
  shows "siren_observe demo_json demo_report (''broker'', 1) 1 2 2 (j, a) = (Inr [], j\<lparr>sj_probe := (sj_probe j)\<lparr>sq_state := Some 1\<rparr>\<rparr>, a)"
proof -
  note flags = demo_report_fields
  have rel: "relevant demo_report (''broker'', 1) 1 2 j"
    using assms flags by (simp add: relevant_def demo_node_def drop_bit_eq_div)
  have tk: "sq_tickets (sj_probe j) ! 0 = \<lparr>rt_generation = 1, rt_sequence = 7, rt_kind = 0xB7\<rparr>" using assms(12,13) by (simp add: hd_conv_nth)
  have corr: "reply_correlated demo_report 7" using flags by (simp add: reply_correlated_def bit_iff_odd mask_int_def)
  have parse: "parse_model_read_response demo_json demo_report 4 (Some 7) = Some (0, JObj [(''t'', JInt 5), (''stVal'', JInt 1)])"
    using corr flags by (simp add: parse_model_read_response_def Let_def demo_json_def)
  have "bounded_value (JObj [(''t'', JInt 5), (''stVal'', JInt 1)])" by (simp add: bounded_value_iff)
  with parse flags have "\<exists>reply. match_model_reply demo_json demo_report \<lparr>rt_generation = 1, rt_sequence = 7, rt_kind = 0xB7\<rparr> 1 7 4 = Some reply \<and>
      cm_error_code reply = 0 \<and> siren_state (cm_value reply) = Some 1"
    by (simp add: match_model_reply_def drop_bit_eq_div MAX_REPLY_BYTES_def siren_state_def)
  then have "probe_observe demo_json demo_report 1 (sj_probe j) = (True, (sj_probe j)\<lparr>sq_state := Some 1\<rparr>)"
    using tk assms(8-11) by (auto simp: probe_observe_def)
  with rel assms(3,7) flags show ?thesis by (simp add: siren_observe_def siren_receipt_def Let_def drop_bit_eq_div)
qed

theorem siren_off_confirmed_honest_witness:
  "\<exists>on off h j a. pulse demo_json on off 2 h j a \<and> sj_result j \<noteq> None \<and> off_accepted off j h \<and> state_reported demo_json off j 1 h"
proof -
  obtain on off h j a where g: "pulse demo_json on off 0 h j a" and f: "sj_started j" "sj_result j = None" "sj_offs j = 0"
     "sj_hold_until j = 2" "sj_node j = demo_node" "sj_generation j = 1" "sj_off_id j = 1"
     and q: "sq_session (sj_probe j) = 7" "sq_device (sj_probe j) = 4" "\<not> sq_invalid (sj_probe j)" "sq_next_at (sj_probe j) = 0"
     "hd (sq_tickets (sj_probe j)) = \<lparr>rt_generation = 1, rt_sequence = 7, rt_kind = 0xB7\<rparr>" "sq_tickets (sj_probe j) \<noteq> []"
    using demo_siren_started by blast
  have z: "sj_off_error j = None" "sj_retry_at j = 0" "sq_index (sj_probe j) = 0" "sq_state (sj_probe j) = None"
    using pulse_invD(1) [OF pulse_reachable_inv [OF g]] f(3) by (auto simp: siren_job_ok_def)
  define j2 where "j2 = j\<lparr>sj_off_until := 4, sj_offs := 1, sj_retry_at := 5 / 2\<rparr>"
  obtain p1 ja a1 where n1: "siren_next 2 2 demo_source (j, a) = (Inr p1, ja, a1)" and g1: "pulse demo_json on off 2 (h @ (case p1 of None \<Rightarrow> [] | Some x \<Rightarrow> [Sent x])) ja a1"
    using pulse_poll_exists [OF g, of 2 demo_source] by auto
  have "must_stop 2 j" using f(4) by (simp add: must_stop_def)
  then have "ja = j2" using n1 f z by (auto simp: siren_next_def siren_cleanup_def send_off_def j2_def dest!: siren_pay_Inr)
  note g2 = g1 [unfolded this]
  have o1: "siren_observe demo_json demo_accept (''broker'', 1) 1 2 2 (j2, a1) = (Inr [], j2\<lparr>sj_off_error := Some 0\<rparr>, a1)"
    by (rule demo_accept_read) (use f z in \<open>simp_all add: j2_def\<close>)
  note g3 = pulse.observe [OF g2 order_refl o1]
  define j3 where "j3 = j2\<lparr>sj_off_error := Some 0, sj_probe := (sj_probe j)\<lparr>sq_index := 1, sq_next_at := 12 / 5\<rparr>\<rparr>"
  obtain p2 jb a2 h2 where n2: "siren_next 2 2 demo_source (j2\<lparr>sj_off_error := Some 0\<rparr>, a1) = (Inr p2, jb, a2)" and g4: "pulse demo_json on off 2 h2 jb a2"
    using pulse_poll_exists [OF g3 order_refl, of demo_source] by blast
  have "\<not> off_settled (j2\<lparr>sj_off_error := Some 0\<rparr>)" using q(3) z(4) by (simp add: off_settled_def j2_def)
  then have "jb = j3" using n2 f q z
    by (auto simp: siren_next_def siren_cleanup_def probe_next_def j2_def j3_def dest!: siren_pay_Inr)
  note g5 = g4 [unfolded this]
  have o2: "siren_observe demo_json demo_report (''broker'', 1) 1 2 2 (j3, a2) = (Inr [], j3\<lparr>sj_probe := (sj_probe j3)\<lparr>sq_state := Some 1\<rparr>\<rparr>, a2)"
    by (rule demo_report_read) (use f q in \<open>simp_all add: j3_def j2_def\<close>)
  note g6 = pulse.observe [OF g5 order_refl o2]
  obtain p3 jc a3 h3 where n3: "siren_next 2 2 demo_source (j3\<lparr>sj_probe := (sj_probe j3)\<lparr>sq_state := Some 1\<rparr>\<rparr>, a2) = (Inr p3, jc, a3)"
    and g7: "pulse demo_json on off 2 h3 jc a3"
    using pulse_poll_exists [OF g6 order_refl, of demo_source] by blast
  obtain r where "sj_result jc = Some r" "sx_off_confirmed r"
    using n3 f q by (auto simp: siren_next_def off_settled_def siren_finish_def Let_def j3_def j2_def)
  with siren_off_confirmed_honest [OF g7 this] g7 show ?thesis by blast
qed

end
