(* ===== verification/Handoff.thy ===== *)
theory Handoff
  imports Siren Machine
begin

text \<open>
  The one-slot inboxes between driver callers and the account's socket worker:
  \<^verbatim>\<open>catalog_read_inbox.py\<close>, \<^verbatim>\<open>model_control_inbox.py\<close> and \<^verbatim>\<open>siren_pulse_inbox.py\<close>. A ticket is an
  object that caller, inbox and worker share and compare by identity, so the inbox keeps
  all the tickets it made and names each by its position. The three classes are the same
  program but for four decisions, which are arguments here: what a ticket that waited too
  long is answered with, when a cancelled ticket frees the slot, which results stop all
  admission, and how closing settles the ticket in the slot.
\<close>

section \<open>Tickets\<close>

text \<open>\<^verbatim>\<open>concurrent.futures.Future\<close> as the inboxes use it: nobody ever marks one running.\<close>

datatype 'r future = Pending | Result 'r | Cancelled

definition fut_done :: "'r future \<Rightarrow> bool" where
  "fut_done f \<longleftrightarrow> f \<noteq> Pending"

definition fut_cancel :: "'r future \<Rightarrow> 'r future" where
  "fut_cancel f = (if f = Pending then Cancelled else f)"

record ('s, 'r) ticket =
  tk_generation :: int
  tk_spec :: 's
  tk_deadline :: time
  tk_completion :: "'r future"
  tk_claimed :: bool

record ('s, 'r) handoff =
  hb_generation :: int
  hb_tickets :: "('s, 'r) ticket list"
  hb_slot :: "nat option"
  hb_closed :: bool

definition set_completion :: "nat \<Rightarrow> 'r future \<Rightarrow> ('s, 'r) handoff \<Rightarrow> ('s, 'r) handoff" where
  "set_completion i f b = b\<lparr>hb_tickets := (hb_tickets b)[i := (hb_tickets b ! i)\<lparr>tk_completion := f\<rparr>]\<rparr>"

definition handoff_init :: "string \<Rightarrow> int \<Rightarrow> exn + ('s, 'r) handoff" where
  "handoff_init message generation =
     (if \<not> (0 < generation \<and> generation < 2 ^ 64) then Inl (ValueError message)
      else Inr \<lparr>hb_generation = generation, hb_tickets = [], hb_slot = None, hb_closed = False\<rparr>)"

definition handoff_submit :: "string \<Rightarrow> time \<Rightarrow> 's \<Rightarrow> time \<Rightarrow> ('s, 'r) handoff \<Rightarrow> (exn + nat) \<times> ('s, 'r) handoff" where
  "handoff_submit message window spec now b =
     (if hb_closed b \<or> hb_slot b \<noteq> None then (Inl (ValueError message), b)
      else let i = length (hb_tickets b);
               ticket = \<lparr>tk_generation = hb_generation b, tk_spec = spec, tk_deadline = now + window,
                         tk_completion = Pending, tk_claimed = False\<rparr>
      in (Inr i, b\<lparr>hb_tickets := hb_tickets b @ [ticket], hb_slot := Some i\<rparr>))"

definition handoff_claim :: "'r \<Rightarrow> time \<Rightarrow> ('s, 'r) handoff \<Rightarrow> nat option \<times> ('s, 'r) handoff" where
  "handoff_claim expired now b =
     (case hb_slot b of
        None \<Rightarrow> (None, b)
      | Some i \<Rightarrow>
          let ticket = hb_tickets b ! i
          in if hb_closed b \<or> tk_claimed ticket \<or> fut_done (tk_completion ticket) then (None, b)
             else if now \<ge> tk_deadline ticket then (None, set_completion i (Result expired) b)
             else (Some i, b\<lparr>hb_tickets := (hb_tickets b)[i := ticket\<lparr>tk_claimed := True\<rparr>]\<rparr>))"

definition handoff_cancel :: "(bool \<Rightarrow> 'r future \<Rightarrow> bool) \<Rightarrow> nat \<Rightarrow> ('s, 'r) handoff \<Rightarrow> ('s, 'r) handoff" where
  "handoff_cancel frees i b =
     (if hb_slot b \<noteq> Some i then b
      else let f = fut_cancel (tk_completion (hb_tickets b ! i)); b = set_completion i f b
      in if frees (tk_claimed (hb_tickets b ! i)) f then b\<lparr>hb_slot := None\<rparr> else b)"

definition handoff_finish :: "('r \<Rightarrow> bool) \<Rightarrow> nat \<Rightarrow> 'r \<Rightarrow> ('s, 'r) handoff \<Rightarrow> ('s, 'r) handoff" where
  "handoff_finish poison i result b =
     (if hb_slot b \<noteq> Some i then b
      else let b = (if poison result then b\<lparr>hb_closed := True\<rparr> else b)
      in case tk_completion (hb_tickets b ! i) of
           Pending \<Rightarrow> set_completion i (Result result) b
         | Cancelled \<Rightarrow> b\<lparr>hb_slot := None\<rparr>
         | Result r \<Rightarrow> b)"

definition handoff_take :: "nat \<Rightarrow> ('s, 'r) handoff \<Rightarrow> 'r option \<times> ('s, 'r) handoff" where
  "handoff_take i b =
     (if hb_slot b \<noteq> Some i then (None, b)
      else case tk_completion (hb_tickets b ! i) of
        Result r \<Rightarrow> (Some r, b\<lparr>hb_slot := None\<rparr>)
      | _ \<Rightarrow> (None, b))"

definition handoff_close :: "(bool \<Rightarrow> 'r future) \<Rightarrow> ('s, 'r) handoff \<Rightarrow> ('s, 'r) handoff" where
  "handoff_close settle b =
     (let b = b\<lparr>hb_closed := True\<rparr>
      in case hb_slot b of
           None \<Rightarrow> b
         | Some i \<Rightarrow>
             if fut_done (tk_completion (hb_tickets b ! i)) then b
             else set_completion i (settle (tk_claimed (hb_tickets b ! i))) b)"

section \<open>The three inboxes\<close>

record catalog_read_spec =
  cs_access_id :: int
  cs_system :: bool

record 'c catalog_read_result =
  cr_status :: string
  cr_catalog :: "'c option"
  cr_transport_acknowledged :: bool

type_synonym 'c catalog_inbox = "(catalog_read_spec, 'c catalog_read_result) handoff"

abbreviation catalog_ended :: "string \<Rightarrow> 'c catalog_read_result" where
  "catalog_ended status \<equiv> \<lparr>cr_status = status, cr_catalog = None, cr_transport_acknowledged = False\<rparr>"

definition catalog_init :: "int \<Rightarrow> exn + 'c catalog_inbox" where
  "catalog_init = handoff_init ''catalogue generation required''"
definition catalog_submit :: "catalog_read_spec \<Rightarrow> time \<Rightarrow> 'c catalog_inbox \<Rightarrow> (exn + nat) \<times> 'c catalog_inbox" where
  "catalog_submit = handoff_submit ''catalogue read admission unavailable'' 2"
definition catalog_claim :: "time \<Rightarrow> 'c catalog_inbox \<Rightarrow> nat option \<times> 'c catalog_inbox" where
  "catalog_claim = handoff_claim (catalog_ended ''timeout'')"
definition catalog_cancel :: "nat \<Rightarrow> 'c catalog_inbox \<Rightarrow> 'c catalog_inbox" where
  "catalog_cancel = handoff_cancel (\<lambda>claimed f. \<not> claimed \<or> (fut_done f \<and> f \<noteq> Cancelled))"
definition catalog_finish :: "nat \<Rightarrow> 'c catalog_read_result \<Rightarrow> 'c catalog_inbox \<Rightarrow> 'c catalog_inbox" where
  "catalog_finish = handoff_finish (\<lambda>_. False)"
definition catalog_take :: "nat \<Rightarrow> 'c catalog_inbox \<Rightarrow> 'c catalog_read_result option \<times> 'c catalog_inbox" where
  "catalog_take = handoff_take"
definition catalog_close :: "'c catalog_inbox \<Rightarrow> 'c catalog_inbox" where
  "catalog_close = handoff_close (\<lambda>_. Result (catalog_ended ''cancelled''))"

record control_write_result =
  cw_status :: string
  cw_error_code :: "nat option"
  cw_transport_acknowledged :: bool

type_synonym 's control_inbox = "('s, control_write_result) handoff"

abbreviation control_ended :: "string \<Rightarrow> control_write_result" where
  "control_ended status \<equiv> \<lparr>cw_status = status, cw_error_code = None, cw_transport_acknowledged = False\<rparr>"

definition control_init :: "int \<Rightarrow> exn + 's control_inbox" where
  "control_init = handoff_init ''control generation required''"
definition control_submit :: "'s \<Rightarrow> time \<Rightarrow> 's control_inbox \<Rightarrow> (exn + nat) \<times> 's control_inbox" where
  "control_submit = handoff_submit ''control write admission unavailable'' 2"
definition control_claim :: "time \<Rightarrow> 's control_inbox \<Rightarrow> nat option \<times> 's control_inbox" where
  "control_claim = handoff_claim (control_ended ''timeout'')"
definition control_cancel :: "nat \<Rightarrow> 's control_inbox \<Rightarrow> 's control_inbox" where
  "control_cancel = handoff_cancel (\<lambda>claimed f. \<not> claimed)"
definition control_finish :: "nat \<Rightarrow> control_write_result \<Rightarrow> 's control_inbox \<Rightarrow> 's control_inbox" where
  "control_finish = handoff_finish (\<lambda>_. False)"
definition control_take :: "nat \<Rightarrow> 's control_inbox \<Rightarrow> control_write_result option \<times> 's control_inbox" where
  "control_take = handoff_take"
definition control_close :: "'s control_inbox \<Rightarrow> 's control_inbox" where
  "control_close = handoff_close (\<lambda>_. Result (control_ended ''cancelled''))"

type_synonym siren_inbox = "(siren_spec, siren_result) handoff"

definition siren_never_started :: siren_result where
  "siren_never_started = \<lparr>sx_status = ''cancelled'', sx_start_attempted = False, sx_off_attempts = 0, sx_off_confirmed = False,
     sx_on_error = None, sx_off_error = None, sx_transport_acknowledged = False, sx_send_failed = False\<rparr>"

definition siren_unsafe :: "siren_result \<Rightarrow> bool" where
  "siren_unsafe r \<longleftrightarrow> sx_start_attempted r \<and> \<not> sx_off_confirmed r"

definition pulse_init :: "int \<Rightarrow> exn + siren_inbox" where
  "pulse_init = handoff_init ''siren generation required''"
definition pulse_submit :: "siren_spec \<Rightarrow> time \<Rightarrow> siren_inbox \<Rightarrow> (exn + nat) \<times> siren_inbox" where
  "pulse_submit = handoff_submit ''siren admission unavailable'' 1"
definition pulse_claim :: "time \<Rightarrow> siren_inbox \<Rightarrow> nat option \<times> siren_inbox" where
  "pulse_claim = handoff_claim siren_never_started"
definition pulse_cancel :: "nat \<Rightarrow> siren_inbox \<Rightarrow> siren_inbox" where
  "pulse_cancel = handoff_cancel (\<lambda>claimed f. \<not> claimed \<or> f \<noteq> Cancelled)"
definition pulse_finish :: "nat \<Rightarrow> siren_result \<Rightarrow> siren_inbox \<Rightarrow> siren_inbox" where
  "pulse_finish = handoff_finish siren_unsafe"
definition pulse_take :: "nat \<Rightarrow> siren_inbox \<Rightarrow> siren_result option \<times> siren_inbox" where
  "pulse_take = handoff_take"
definition pulse_close :: "siren_inbox \<Rightarrow> siren_inbox" where
  "pulse_close = handoff_close (\<lambda>claimed. if claimed then Cancelled else Result siren_never_started)"

section \<open>Runs of an inbox\<close>

datatype ('s, 'r) handoff_op = Submit 's time | Claim time | Cancel nat | Finish nat 'r | Take nat | Close

datatype 'r handoff_event = Claimed nat | Dropped nat | Finished nat 'r | Taken nat 'r | Closed

text \<open>
  The operations of one class. \<open>Finished\<close> records a completion that reached the ticket in
  the slot; a completion of any other ticket changes nothing. Only a ticket that exists can
  be dropped.
\<close>

fun handoff_exec ::
  "('s \<Rightarrow> time \<Rightarrow> ('s, 'r) handoff \<Rightarrow> (exn + nat) \<times> ('s, 'r) handoff) \<Rightarrow> (time \<Rightarrow> ('s, 'r) handoff \<Rightarrow> nat option \<times> ('s, 'r) handoff) \<Rightarrow>
   (nat \<Rightarrow> ('s, 'r) handoff \<Rightarrow> ('s, 'r) handoff) \<Rightarrow> (nat \<Rightarrow> 'r \<Rightarrow> ('s, 'r) handoff \<Rightarrow> ('s, 'r) handoff) \<Rightarrow>
   (nat \<Rightarrow> ('s, 'r) handoff \<Rightarrow> 'r option \<times> ('s, 'r) handoff) \<Rightarrow> (('s, 'r) handoff \<Rightarrow> ('s, 'r) handoff) \<Rightarrow>
   ('s, 'r) handoff_op \<Rightarrow> ('s, 'r) handoff \<Rightarrow> 'r handoff_event list \<times> ('s, 'r) handoff"
where
  "handoff_exec submit claim cancel finish take_result close (Submit spec now) b = ([], snd (submit spec now b))"
| "handoff_exec submit claim cancel finish take_result close (Claim now) b =
     (case claim now b of (None, b) \<Rightarrow> ([], b) | (Some i, b) \<Rightarrow> ([Claimed i], b))"
| "handoff_exec submit claim cancel finish take_result close (Cancel i) b =
     (if i < length (hb_tickets b) then [Dropped i] else [], cancel i b)"
| "handoff_exec submit claim cancel finish take_result close (Finish i r) b =
     (if hb_slot b = Some i then [Finished i r] else [], finish i r b)"
| "handoff_exec submit claim cancel finish take_result close (Take i) b =
     (case take_result i b of (None, b) \<Rightarrow> ([], b) | (Some r, b) \<Rightarrow> ([Taken i r], b))"
| "handoff_exec submit claim cancel finish take_result close Close b = ([Closed], close b)"

abbreviation "catalog_run \<equiv> run_ops (handoff_exec catalog_submit catalog_claim catalog_cancel catalog_finish catalog_take catalog_close)"
abbreviation "control_run \<equiv> run_ops (handoff_exec control_submit control_claim control_cancel control_finish control_take control_close)"
abbreviation "pulse_run \<equiv> run_ops (handoff_exec pulse_submit pulse_claim pulse_cancel pulse_finish pulse_take pulse_close)"

section \<open>What every one-slot inbox guarantees\<close>

text \<open>
  The contract of the four decisions: a ticket the worker holds only loses the slot with
  its result, and closing leaves no ticket in the slot pending.
\<close>

locale one_slot =
  fixes message :: string and window :: time and expired :: 'r and frees :: "bool \<Rightarrow> 'r future \<Rightarrow> bool"
    and poison :: "'r \<Rightarrow> bool" and settle :: "bool \<Rightarrow> 'r future"
  assumes frees_held: "\<not> frees True Cancelled"
    and settled: "settle claimed \<noteq> Pending"
begin

definition exec :: "('s, 'r) handoff_op \<Rightarrow> ('s, 'r) handoff \<Rightarrow> 'r handoff_event list \<times> ('s, 'r) handoff" where
  "exec = handoff_exec (handoff_submit message window) (handoff_claim expired) (handoff_cancel frees) (handoff_finish poison) handoff_take
     (handoff_close settle)"

definition fresh :: "('s, 'r) handoff \<Rightarrow> bool" where
  "fresh b \<longleftrightarrow> hb_tickets b = [] \<and> hb_slot b = None \<and> \<not> hb_closed b"

text \<open>Ticket \<open>k\<close> was given back by the worker, and admission may go on.\<close>

definition given_back :: "'r handoff_event list \<Rightarrow> nat \<Rightarrow> bool" where
  "given_back h k \<longleftrightarrow> (\<exists>r. Finished k r \<in> set h \<and> \<not> poison r)"

definition slot_ok :: "'r handoff_event list \<Rightarrow> ('s, 'r) handoff \<Rightarrow> bool" where
  "slot_ok h b \<longleftrightarrow> (\<forall>i. hb_slot b = Some i \<longrightarrow> Suc i = length (hb_tickets b)) \<and>
     (\<forall>k < length (hb_tickets b). tk_claimed (hb_tickets b ! k) \<longleftrightarrow> Claimed k \<in> set h) \<and>
     (\<forall>k. Claimed k \<in> set h \<or> (\<exists>r. Finished k r \<in> set h) \<or> (\<exists>r. Taken k r \<in> set h) \<longrightarrow> k < length (hb_tickets b))"

definition released :: "'r handoff_event list \<Rightarrow> ('s, 'r) handoff \<Rightarrow> bool" where
  "released h b \<longleftrightarrow> hb_closed b \<or> (\<forall>k. Claimed k \<in> set h \<and> hb_slot b \<noteq> Some k \<longrightarrow> given_back h k) \<and>
     (\<forall>k r. hb_slot b = Some k \<and> tk_claimed (hb_tickets b ! k) \<and> tk_completion (hb_tickets b ! k) = Result r \<longrightarrow> given_back h k)"

text \<open>Where the result of the ticket in the slot comes from.\<close>

definition result_from :: "'r handoff_event list \<Rightarrow> nat \<Rightarrow> 'r \<Rightarrow> bool" where
  "result_from h i r \<longleftrightarrow> Finished i r \<in> set h \<or> (Claimed i \<notin> set h \<and> r = expired) \<or>
     (Closed \<in> set h \<and> settle (Claimed i \<in> set h) = Result r)"

definition results_ok :: "'r handoff_event list \<Rightarrow> ('s, 'r) handoff \<Rightarrow> bool" where
  "results_ok h b \<longleftrightarrow> (\<forall>i r. hb_slot b = Some i \<and> tk_completion (hb_tickets b ! i) = Result r \<longrightarrow> result_from h i r)"

definition justified :: "'r handoff_event list \<Rightarrow> 'r handoff_event \<Rightarrow> bool" where
  "justified h e \<longleftrightarrow> (case e of
     Claimed i \<Rightarrow> Claimed i \<notin> set h \<and> (\<forall>k. Claimed k \<in> set h \<longrightarrow> given_back h k)
   | Taken i r \<Rightarrow> result_from h i r \<and> (\<forall>r'. Taken i r' \<notin> set h)
   | _ \<Rightarrow> True)"

definition taken_gone :: "'r handoff_event list \<Rightarrow> ('s, 'r) handoff \<Rightarrow> bool" where
  "taken_gone h b \<longleftrightarrow> (\<forall>i r. Taken i r \<in> set h \<longrightarrow> hb_slot b \<noteq> Some i)"

definition inv :: "'r handoff_event list \<Rightarrow> ('s, 'r) handoff \<Rightarrow> bool" where
  "inv h b \<longleftrightarrow> slot_ok h b \<and> released h b \<and> results_ok h b \<and> taken_gone h b \<and> each_event justified h"


lemma given_back_mono: "given_back h k \<Longrightarrow> given_back (h @ g) k"
  by (auto simp: given_back_def)

lemma set_completion_simps [simp]:
  "hb_slot (set_completion i f b) = hb_slot b" "hb_closed (set_completion i f b) = hb_closed b"
  "length (hb_tickets (set_completion i f b)) = length (hb_tickets b)"
  "k < length (hb_tickets b) \<Longrightarrow> tk_claimed (hb_tickets (set_completion i f b) ! k) = tk_claimed (hb_tickets b ! k)"
  "k < length (hb_tickets b) \<Longrightarrow> tk_completion (hb_tickets (set_completion i f b) ! k) = (if k = i then f else tk_completion (hb_tickets b ! k))"
  by (cases "k = i"; simp add: set_completion_def)+

lemma inv_submit: "inv h b \<Longrightarrow> inv h (snd (handoff_submit message window spec now b))"
  by (auto simp: inv_def handoff_submit_def slot_ok_def released_def results_ok_def taken_gone_def Let_def nth_append less_Suc_eq)

lemma slot_bound: "inv h b \<Longrightarrow> hb_slot b = Some i \<Longrightarrow> i < length (hb_tickets b)"
  by (auto simp: inv_def slot_ok_def)

lemma inv_claim: "inv h b \<Longrightarrow> handoff_exec s (handoff_claim expired) c f t x (Claim now) b = (es, b') \<Longrightarrow> inv (h @ es) b'"
proof -
  assume I: "inv h b" and e: "handoff_exec s (handoff_claim expired) c f t x (Claim now) b = (es, b')"
  show "inv (h @ es) b'"
  proof (cases "hb_slot b")
    case None
    then show ?thesis using I e by (simp add: handoff_claim_def)
  next
    case (Some i)
    note bd = slot_bound [OF I Some]
    let ?t = "hb_tickets b ! i"
    consider (idle) "hb_closed b \<or> tk_claimed ?t \<or> fut_done (tk_completion ?t)"
      | (late) "\<not> hb_closed b" "\<not> tk_claimed ?t" "tk_completion ?t = Pending" "tk_deadline ?t \<le> now"
      | (go) "\<not> hb_closed b" "\<not> tk_claimed ?t" "tk_completion ?t = Pending" "now < tk_deadline ?t"
      by (auto simp: fut_done_def) linarith
    then show ?thesis
    proof cases
      case idle
      then show ?thesis using I e Some by (auto simp: handoff_claim_def Let_def)
    next
      case late
      then have "es = []" "b' = set_completion i (Result expired) b" using e Some by (auto simp: handoff_claim_def Let_def fut_done_def)
      then show ?thesis using I Some late bd
        by (auto simp: inv_def slot_ok_def released_def results_ok_def taken_gone_def result_from_def)
    next
      case go
      then have es: "es = [Claimed i]" "b' = b\<lparr>hb_tickets := (hb_tickets b)[i := ?t\<lparr>tk_claimed := True\<rparr>]\<rparr>"
        using e Some by (auto simp: handoff_claim_def Let_def fut_done_def)
      have "justified h (Claimed i)" using I go Some bd by (auto simp: justified_def inv_def slot_ok_def released_def)
      then show ?thesis using I Some go bd es
        by (auto simp: inv_def slot_ok_def released_def results_ok_def taken_gone_def nth_list_update given_back_def)
    qed
  qed
qed

text \<open>The three changes the other operations are made of: an event, a freed slot, a completion.\<close>

lemma inv_event:
  assumes I: "inv h b" and e: "e = Closed \<or> (\<exists>i. e = Dropped i) \<or> (\<exists>i r. e = Finished i r \<and> hb_slot b = Some i)"
  shows "inv (h @ [e]) b"
proof -
  have "justified h e" using e by (auto simp: justified_def)
  moreover have "slot_ok (h @ [e]) b" using I e slot_bound [OF I] by (auto simp: inv_def slot_ok_def)
  moreover have "released (h @ [e]) b" using I e by (auto simp: inv_def released_def intro: given_back_mono)
  moreover have "results_ok (h @ [e]) b" using I e by (fastforce simp: inv_def results_ok_def result_from_def)
  moreover have "taken_gone (h @ [e]) b" using I e by (auto simp: inv_def taken_gone_def)
  ultimately show ?thesis using I by (simp add: inv_def)
qed

lemma inv_closed: "inv h b \<Longrightarrow> inv h (b\<lparr>hb_closed := True\<rparr>)"
  by (auto simp: inv_def slot_ok_def released_def results_ok_def taken_gone_def)

lemma inv_free:
  assumes I: "inv h b" and s: "hb_slot b = Some i" and held: "Claimed i \<in> set h \<Longrightarrow> hb_closed b \<or> given_back h i"
  shows "inv h (b\<lparr>hb_slot := None\<rparr>)"
proof -
  have "given_back h k" if "Claimed k \<in> set h" "\<not> hb_closed b" for k
    using I s held that by (cases "k = i") (auto simp: inv_def released_def)
  then show ?thesis using I by (auto simp: inv_def slot_ok_def released_def results_ok_def taken_gone_def)
qed

lemma inv_complete:
  assumes I: "inv h b" and s: "hb_slot b = Some i"
    and f: "\<And>r. f = Result r \<Longrightarrow> result_from h i r \<and> (Claimed i \<in> set h \<longrightarrow> hb_closed b \<or> given_back h i)"
  shows "inv h (set_completion i f b)"
proof -
  note bd = slot_bound [OF I s]
  have c: "tk_claimed (hb_tickets b ! i) \<longleftrightarrow> Claimed i \<in> set h" using I bd by (simp add: inv_def slot_ok_def)
  have "released h (set_completion i f b)" using I s bd c f by (auto simp: inv_def released_def)
  moreover have "results_ok h (set_completion i f b)" using s bd f by (auto simp: results_ok_def)
  ultimately show ?thesis using I by (simp add: inv_def slot_ok_def taken_gone_def)
qed

lemma held_result:
  assumes "inv h b" "hb_slot b = Some i" "tk_completion (hb_tickets b ! i) = Result r" "Claimed i \<in> set h"
  shows "hb_closed b \<or> given_back h i"
  using assms slot_bound [OF assms(1,2)] by (auto simp: inv_def slot_ok_def released_def)

lemma inv_cancel:
  assumes I: "inv h b"
  shows "inv (h @ (if i < length (hb_tickets b) then [Dropped i] else [])) (handoff_cancel frees i b)"
proof (cases "hb_slot b = Some i")
  case False
  then show ?thesis using I inv_event [OF I, of "Dropped i"] by (simp add: handoff_cancel_def)
next
  case True
  note bd = slot_bound [OF I True]
  define f where "f = fut_cancel (tk_completion (hb_tickets b ! i))"
  let ?h = "h @ [Dropped i]" let ?b = "set_completion i f b"
  have I1: "inv ?h b" by (rule inv_event [OF I]) simp
  have r: "tk_completion (hb_tickets b ! i) = Result r" if "f = Result r" for r using that by (auto simp: f_def fut_cancel_def split: if_splits)
  have src: "result_from ?h i r" if "f = Result r" for r using I1 True r [OF that] by (auto simp: inv_def results_ok_def)
  have I2: "inv ?h ?b" by (rule inv_complete [OF I1 True]) (use src held_result [OF I1 True r] in blast)
  have "inv ?h (?b\<lparr>hb_slot := None\<rparr>)" if freed: "frees (tk_claimed (hb_tickets b ! i)) f"
  proof (rule inv_free [OF I2])
    show "hb_slot ?b = Some i" using True by simp
    assume c: "Claimed i \<in> set ?h"
    then have "tk_claimed (hb_tickets b ! i)" using I1 bd by (simp add: inv_def slot_ok_def)
    then obtain x where "f = Result x" using frees_held freed by (cases f) (auto simp: f_def fut_cancel_def split: if_splits)
    then show "hb_closed ?b \<or> given_back ?h i" using held_result [OF I1 True r c] by simp
  qed
  then show ?thesis using True I2 bd by (simp add: handoff_cancel_def Let_def f_def [symmetric])
qed

lemma inv_finish:
  assumes I: "inv h b"
  shows "inv (h @ (if hb_slot b = Some i then [Finished i r] else [])) (handoff_finish poison i r b)"
proof (cases "hb_slot b = Some i")
  case False
  then show ?thesis using I by (simp add: handoff_finish_def)
next
  case True
  let ?h = "h @ [Finished i r]"
  define b1 where "b1 = (if poison r then b\<lparr>hb_closed := True\<rparr> else b)"
  have I0: "inv ?h b" using inv_event [OF I, of "Finished i r"] True by simp
  then have I1: "inv ?h b1" using inv_closed [OF I0] by (simp add: b1_def)
  have s: "hb_slot b1 = Some i" "hb_tickets b1 = hb_tickets b" using True by (simp_all add: b1_def)
  have kept: "hb_closed b1 \<or> given_back ?h i" by (auto simp: b1_def given_back_def)
  have fin: "result_from ?h i r" by (simp add: result_from_def)
  have "inv ?h (set_completion i (Result r) b1)" by (rule inv_complete [OF I1 s(1)]) (use fin kept in simp)
  moreover have "inv ?h (b1\<lparr>hb_slot := None\<rparr>)" by (rule inv_free [OF I1 s(1)]) (use kept in simp)
  ultimately show ?thesis using True I1 s by (auto simp: handoff_finish_def b1_def [symmetric] Let_def split: future.split)
qed

lemma inv_take:
  assumes I: "inv h b" and e: "handoff_exec s c x f handoff_take y (Take i) b = (es, b')"
  shows "inv (h @ es) b'"
proof (cases "hb_slot b = Some i \<and> (\<exists>r. tk_completion (hb_tickets b ! i) = Result r)")
  case False
  then show ?thesis using I e by (auto simp: handoff_take_def split: if_splits future.splits)
next
  case True
  then obtain r where r: "hb_slot b = Some i" "tk_completion (hb_tickets b ! i) = Result r" by blast
  then have es: "es = [Taken i r]" "b' = b\<lparr>hb_slot := None\<rparr>" using e by (auto simp: handoff_take_def)
  have I1: "inv h (b\<lparr>hb_slot := None\<rparr>)" by (rule inv_free [OF I r(1)]) (rule held_result [OF I r])
  have "justified h (Taken i r)" using I r by (auto simp: justified_def inv_def results_ok_def taken_gone_def)
  then show ?thesis using I1 es slot_bound [OF I r(1)]
    by (auto simp: inv_def slot_ok_def released_def results_ok_def taken_gone_def intro: given_back_mono)
qed

lemma inv_close:
  assumes I: "inv h b"
  shows "inv (h @ [Closed]) (handoff_close settle b)"
proof (cases "\<exists>i. hb_slot b = Some i \<and> tk_completion (hb_tickets b ! i) = Pending")
  case False
  have "inv (h @ [Closed]) (b\<lparr>hb_closed := True\<rparr>)" by (rule inv_closed, rule inv_event [OF I]) simp
  then show ?thesis using False by (auto simp: handoff_close_def fut_done_def Let_def split: option.split)
next
  case True
  then obtain i where i: "hb_slot b = Some i" "tk_completion (hb_tickets b ! i) = Pending" by blast
  let ?h = "h @ [Closed]" let ?b = "b\<lparr>hb_closed := True\<rparr>"
  have I1: "inv ?h ?b" by (rule inv_closed, rule inv_event [OF I]) simp
  have c: "tk_claimed (hb_tickets b ! i) \<longleftrightarrow> Claimed i \<in> set h" using I slot_bound [OF I i(1)] by (simp add: inv_def slot_ok_def)
  have "inv ?h (set_completion i (settle (tk_claimed (hb_tickets b ! i))) ?b)"
    by (rule inv_complete [OF I1]) (use i c in \<open>auto simp: result_from_def\<close>)
  then show ?thesis using i by (simp add: handoff_close_def fut_done_def)
qed

lemma inv_exec_step:
  assumes I: "inv h b" and e: "exec op b = (es, b')"
  shows "inv (h @ es) b'"
proof (cases op)
  case (Submit spec now)
  then show ?thesis using inv_submit [OF I, of spec now] e by (auto simp: exec_def)
next
  case (Claim now)
  then show ?thesis using inv_claim [OF I] e by (simp only: exec_def)
next
  case (Cancel i)
  then show ?thesis using inv_cancel [OF I, of i] e by (auto simp: exec_def)
next
  case (Finish i r)
  then show ?thesis using inv_finish [OF I, of i r] e by (auto simp: exec_def)
next
  case (Take i)
  then show ?thesis using inv_take [OF I] e by (simp only: exec_def)
next
  case Close
  then show ?thesis using inv_close [OF I] e by (auto simp: exec_def)
qed

lemma inv_fresh: "fresh b \<Longrightarrow> inv [] b"
  by (simp add: fresh_def inv_def slot_ok_def released_def results_ok_def taken_gone_def)

end

sublocale one_slot \<subseteq> runs: machine exec fresh inv
  using inv_fresh inv_exec_step by unfold_locales

context one_slot
begin

text \<open>Every point of a run is justified by what came before.\<close>

lemma run_justified:
  assumes "fresh b" "run_ops exec ops b = (h1 @ e # h2, b')"
  shows "justified h1 e"
  using runs.reachable_inv [OF assms] by (auto simp: inv_def dest: each_eventD)

text \<open>Closing leaves nobody waiting: the ticket in the slot is answered or cancelled.\<close>

definition answered :: "('s, 'r) handoff \<Rightarrow> bool" where
  "answered b \<longleftrightarrow> (\<forall>i. hb_closed b \<and> hb_slot b = Some i \<longrightarrow> i < length (hb_tickets b) \<and> tk_completion (hb_tickets b ! i) \<noteq> Pending)"

lemma answered_step:
  assumes I: "inv h b" and A: "answered b" and e: "exec op b = (es, b')"
  shows "answered b'"
  using assms slot_bound [OF I] settled
  by (cases op) (auto simp: exec_def answered_def handoff_submit_def handoff_claim_def handoff_cancel_def handoff_finish_def handoff_take_def
      handoff_close_def fut_done_def fut_cancel_def Let_def split: if_splits option.splits future.splits)

lemma answered_run:
  assumes "fresh b" "run_ops exec ops b = (h, b')"
  shows "answered b'"
proof -
  have step: "inv (g @ es) s' \<and> answered s'" if "inv g s \<and> answered s" "exec op s = (es, s')" for g s op es s'
    using that inv_exec_step answered_step by blast
  have "inv [] b \<and> answered b" using assms(1) inv_fresh by (auto simp: answered_def fresh_def)
  from run_ops_induct [of "\<lambda>h b. inv h b \<and> answered b" "\<lambda>_. True", OF step this _ assms(2)] show ?thesis by simp
qed

end

text \<open>
  Two of the three inboxes also free the slot of a ticket whose result nobody will read:
  once the caller has given the ticket up and the worker has finished it, in either order,
  the next caller is admitted.
\<close>

locale prompt_slot = one_slot +
  assumes frees_result: "frees claimed (Result r)" and frees_waiting: "frees False f"
begin

definition dropped_ok :: "'r handoff_event list \<Rightarrow> ('s, 'r) handoff \<Rightarrow> bool" where
  "dropped_ok h b \<longleftrightarrow> (\<forall>i. Dropped i \<in> set h \<longrightarrow> i < length (hb_tickets b)) \<and> (\<forall>i. hb_slot b = Some i \<longrightarrow>
     (Dropped i \<in> set h \<longrightarrow> tk_completion (hb_tickets b ! i) = Cancelled \<and> tk_claimed (hb_tickets b ! i)) \<and>
     ((\<exists>r. Finished i r \<in> set h) \<longrightarrow> (\<exists>r. tk_completion (hb_tickets b ! i) = Result r)))"

lemma dropped_step:
  assumes I: "inv h b" and D: "dropped_ok h b" and e: "exec op b = (es, b')"
  shows "dropped_ok (h @ es) b'"
proof (cases op)
  case (Submit spec now)
  have "Finished (length (hb_tickets b)) r \<notin> set h" "Dropped (length (hb_tickets b)) \<notin> set h" for r
    using I D by (auto simp: inv_def slot_ok_def dropped_ok_def)
  then show ?thesis using Submit D e by (auto simp: exec_def dropped_ok_def handoff_submit_def nth_append Let_def less_Suc_eq split: if_splits)
next
  case (Claim now)
  then show ?thesis using D e slot_bound [OF I]
    by (auto simp: exec_def dropped_ok_def handoff_claim_def fut_done_def Let_def nth_list_update split: if_splits option.splits)
next
  case (Cancel i)
  then show ?thesis using D e slot_bound [OF I] frees_result frees_waiting
    by (cases "tk_completion (hb_tickets b ! i)"; cases "tk_claimed (hb_tickets b ! i)")
      (auto simp: exec_def dropped_ok_def handoff_cancel_def fut_cancel_def Let_def split: if_splits)
next
  case (Finish i r)
  then show ?thesis using D e slot_bound [OF I]
    by (auto simp: exec_def dropped_ok_def handoff_finish_def Let_def split: if_splits future.splits)
next
  case (Take i)
  then show ?thesis using D e by (auto simp: exec_def dropped_ok_def handoff_take_def split: if_splits future.splits)
next
  case Close
  then show ?thesis using D e slot_bound [OF I]
    by (auto simp: exec_def dropped_ok_def handoff_close_def fut_done_def Let_def split: if_splits option.splits)
qed

lemma given_up_freed:
  assumes "fresh b" "run_ops exec ops b = (h, b')" "Dropped i \<in> set h" "Claimed i \<in> set h \<Longrightarrow> \<exists>r. Finished i r \<in> set h"
  shows "hb_slot b' \<noteq> Some i"
proof -
  have step: "inv (g @ es) s' \<and> dropped_ok (g @ es) s'" if "inv g s \<and> dropped_ok g s" "exec op s = (es, s')" for g s op es s'
    using that inv_exec_step dropped_step by blast
  have "inv [] b \<and> dropped_ok [] b" using assms(1) inv_fresh by (auto simp: dropped_ok_def fresh_def)
  from run_ops_induct [of "\<lambda>h b. inv h b \<and> dropped_ok h b" "\<lambda>_. True", OF step this _ assms(2)]
  have "inv h b'" "dropped_ok h b'" by simp_all
  then show ?thesis using assms(3,4) by (auto simp: dropped_ok_def inv_def slot_ok_def)
qed

end


section \<open>The three inboxes meet the contract\<close>

interpretation catalog_slot: prompt_slot "''catalogue read admission unavailable''" 2 "catalog_ended ''timeout''"
  "\<lambda>claimed f. \<not> claimed \<or> (fut_done f \<and> f \<noteq> Cancelled)" "\<lambda>_. False" "\<lambda>_. Result (catalog_ended ''cancelled'')"
  by unfold_locales (auto simp: fut_done_def)

interpretation control_slot: one_slot "''control write admission unavailable''" 2 "control_ended ''timeout''"
  "\<lambda>claimed f. \<not> claimed" "\<lambda>_. False" "\<lambda>_. Result (control_ended ''cancelled'')"
  by unfold_locales auto

interpretation siren_slot: prompt_slot "''siren admission unavailable''" 1 siren_never_started
  "\<lambda>claimed f. \<not> claimed \<or> f \<noteq> Cancelled" siren_unsafe "\<lambda>claimed. if claimed then Cancelled else Result siren_never_started"
  by unfold_locales auto


lemmas catalog_defs = catalog_submit_def catalog_claim_def catalog_cancel_def catalog_finish_def catalog_take_def catalog_close_def
lemmas control_defs = control_submit_def control_claim_def control_cancel_def control_finish_def control_take_def control_close_def
lemmas pulse_defs = pulse_submit_def pulse_claim_def pulse_cancel_def pulse_finish_def pulse_take_def pulse_close_def

lemma slot_runs:
  "handoff_exec catalog_submit catalog_claim catalog_cancel catalog_finish catalog_take catalog_close = catalog_slot.exec"
  "handoff_exec control_submit control_claim control_cancel control_finish control_take control_close = control_slot.exec"
  "handoff_exec pulse_submit pulse_claim pulse_cancel pulse_finish pulse_take pulse_close = siren_slot.exec"
  unfolding catalog_slot.exec_def control_slot.exec_def siren_slot.exec_def catalog_defs control_defs pulse_defs by (rule refl)+

lemma slot_fresh:
  "catalog_init g = Inr b \<Longrightarrow> catalog_slot.fresh b" "control_init g = Inr b1 \<Longrightarrow> control_slot.fresh b1" "pulse_init g = Inr b2 \<Longrightarrow> siren_slot.fresh b2"
  by (auto simp: catalog_init_def control_init_def pulse_init_def handoff_init_def catalog_slot.fresh_def control_slot.fresh_def siren_slot.fresh_def
      split: if_splits)

section \<open>What the callers and the worker may rely on\<close>

text \<open>
  C28. A siren pulse is handed to the worker at most once, and only after every pulse handed out
  before was given back with its siren known to be off, or never switched on; whatever
  callers submit, cancel, read or close in between.
\<close>
theorem pulse_handed_over_safely:
  assumes "pulse_init g = Inr b0" "pulse_run ops b0 = (h1 @ Claimed i # h2, b)"
  shows "Claimed i \<notin> set h1 \<and> (\<forall>k. Claimed k \<in> set h1 \<longrightarrow> (\<exists>r. Finished k r \<in> set h1 \<and> (sx_start_attempted r \<longrightarrow> sx_off_confirmed r)))"
  using siren_slot.run_justified [OF slot_fresh(3) [OF assms(1)] assms(2) [unfolded slot_runs]]
  by (auto simp: siren_slot.justified_def siren_slot.given_back_def siren_unsafe_def)

text \<open>
  A control write is handed to the worker at most once, only after every earlier one was
  given back, and its caller reads a result at most once: the one the worker gave, a
  timeout of a write the worker never got, or the cancellation when the inbox was closed.
\<close>
theorem control_write_handed_once:
  assumes "control_init g = Inr b0" "control_run ops b0 = (h1 @ e # h2, b)"
  shows "case e of
      Claimed i \<Rightarrow> Claimed i \<notin> set h1 \<and> (\<forall>k. Claimed k \<in> set h1 \<longrightarrow> (\<exists>r. Finished k r \<in> set h1))
    | Taken i r \<Rightarrow> (\<forall>r'. Taken i r' \<notin> set h1) \<and> (Finished i r \<in> set h1 \<or> (Claimed i \<notin> set h1 \<and> r = control_ended ''timeout'') \<or>
        (Closed \<in> set h1 \<and> r = control_ended ''cancelled''))
    | _ \<Rightarrow> True"
  using control_slot.run_justified [OF slot_fresh(2) [OF assms(1)] assms(2) [unfolded slot_runs]]
  by (auto simp: control_slot.justified_def control_slot.given_back_def control_slot.result_from_def split: handoff_event.splits)

text \<open>
  A catalogue read that its caller gave up does not block the next one: once it was cancelled
  and the worker, if it had taken it, has finished it, in either order, it no longer
  occupies the slot.
\<close>
theorem catalog_slot_reusable:
  assumes "catalog_init g = Inr b0" "catalog_run ops b0 = (h, b)" "Dropped i \<in> set h" "Claimed i \<in> set h \<Longrightarrow> \<exists>r. Finished i r \<in> set h"
  shows "hb_slot b \<noteq> Some i"
  by (rule catalog_slot.given_up_freed [OF slot_fresh(1) [OF assms(1)] assms(2) [unfolded slot_runs] assms(3,4)])

text \<open>
  C29. The control inbox has no such guarantee. A write that the worker finishes after its caller
  read for the last time and before that caller's cancel keeps the slot for ever: no later
  submission of the generation is admitted, whatever is submitted, polled or cancelled.
\<close>
theorem control_slot_lost:
  assumes b0: "control_init g = Inr b0" and at: "claimed_at < submitted_at + 2"
    and ops: "\<forall>op \<in> set ops. op \<noteq> Take 0"
    and run: "control_run ([Submit spec submitted_at, Claim claimed_at, Take 0, Finish 0 r, Cancel 0] @ ops) b0 = (h, b)"
  shows "fst (control_submit spec' now b) = Inl (ValueError ''control write admission unavailable'')"
proof -
  define stuck :: "'a control_inbox \<Rightarrow> bool" where
    "stuck b \<longleftrightarrow> hb_slot b = Some 0 \<and> length (hb_tickets b) = 1 \<and> tk_completion (hb_tickets b ! 0) = Result r \<and> tk_claimed (hb_tickets b ! 0)" for b
  have keep: "stuck s'" if "stuck s" "op \<noteq> Take 0"
    "handoff_exec control_submit control_claim control_cancel control_finish control_take control_close op s = (es, s')" for s s' op es
    using that by (cases op) (auto simp: stuck_def control_defs handoff_submit_def handoff_claim_def handoff_cancel_def handoff_finish_def
        handoff_take_def handoff_close_def fut_done_def fut_cancel_def set_completion_def Let_def split: if_splits option.splits future.splits)
  obtain h1 b1 where 1: "control_run [Submit spec submitted_at, Claim claimed_at, Take 0, Finish 0 r, Cancel 0] b0 = (h1, b1)" by fastforce
  have "stuck b1" using b0 at 1
    by (auto simp: stuck_def control_init_def handoff_init_def control_defs handoff_submit_def handoff_claim_def handoff_cancel_def
        handoff_finish_def handoff_take_def fut_done_def fut_cancel_def set_completion_def Let_def split: if_splits)
  obtain h2 where 2: "control_run ops b1 = (h2, b)" using run 1 by (auto simp: run_ops_append Let_def split: prod.splits)
  have "stuck b" by (rule run_ops_induct [of "\<lambda>_. stuck" "\<lambda>op. op \<noteq> Take 0" _ "[]", OF _ \<open>stuck b1\<close> ops 2]) (rule keep)
  then show ?thesis by (simp add: stuck_def control_defs handoff_submit_def)
qed


definition demo_pulse_done :: siren_result where
  "demo_pulse_done = \<lparr>sx_status = ''completed'', sx_start_attempted = True, sx_off_attempts = 1, sx_off_confirmed = True,
     sx_on_error = Some 0, sx_off_error = Some 0, sx_transport_acknowledged = True, sx_send_failed = False\<rparr>"

lemmas handoff_run_defs = handoff_init_def handoff_submit_def handoff_claim_def handoff_cancel_def handoff_finish_def handoff_take_def
  fut_done_def fut_cancel_def set_completion_def

theorem pulse_handed_over_safely_witness:
  "\<exists>b0 b. pulse_init 1 = Inr b0 \<and>
     pulse_run [Submit demo_siren_spec 0, Claim 0, Finish 0 demo_pulse_done, Take 0, Submit demo_siren_spec 1, Claim 1] b0 =
       ([Claimed 0, Finished 0 demo_pulse_done, Taken 0 demo_pulse_done, Claimed 1], b) \<and>
     (\<exists>r. Finished 0 r \<in> {Claimed 0, Finished 0 demo_pulse_done, Taken 0 demo_pulse_done} \<and> (sx_start_attempted r \<longrightarrow> sx_off_confirmed r))"
proof -
  let ?ops = "[Submit demo_siren_spec 0, Claim 0, Finish 0 demo_pulse_done, Take 0, Submit demo_siren_spec 1, Claim 1]"
  obtain b0 where b0: "pulse_init 1 = Inr b0" by (simp add: pulse_init_def handoff_init_def)
  obtain b where b: "pulse_run ?ops b0 = ([Claimed 0, Finished 0 demo_pulse_done, Taken 0 demo_pulse_done] @ Claimed 1 # [], b)"
    using b0 by (auto simp: pulse_init_def pulse_defs handoff_run_defs siren_unsafe_def demo_pulse_done_def Let_def)
  from pulse_handed_over_safely [OF b0 b] b0 b show ?thesis by auto
qed

theorem control_write_handed_once_witness:
  "\<exists>b0 b. control_init 1 = Inr b0 \<and>
     control_run [Submit () 0, Claim 0, Finish 0 (control_ended ''response''), Take 0] b0 =
       ([Claimed 0, Finished 0 (control_ended ''response''), Taken 0 (control_ended ''response'')], b) \<and>
     (\<forall>r'. Taken 0 r' \<notin> {Claimed 0, Finished 0 (control_ended ''response'')})"
proof -
  let ?r = "control_ended ''response''"
  obtain b0 :: "unit control_inbox" where b0: "control_init 1 = Inr b0" by (simp add: control_init_def handoff_init_def)
  obtain b where b: "control_run [Submit () 0, Claim 0, Finish 0 ?r, Take 0] b0 = ([Claimed 0, Finished 0 ?r] @ Taken 0 ?r # [], b)"
    using b0 by (auto simp: control_init_def control_defs handoff_run_defs Let_def)
  from control_write_handed_once [OF b0 b] b0 b show ?thesis by auto
qed

theorem catalog_slot_reusable_witness:
  "\<exists>(b0 :: unit catalog_inbox) h b. catalog_init 1 = Inr b0 \<and>
     catalog_run [Submit \<lparr>cs_access_id = 3, cs_system = True\<rparr> 0, Claim 0, Finish 0 (catalog_ended ''timeout''), Cancel 0] b0 = (h, b) \<and>
     Finished 0 (catalog_ended ''timeout'') \<in> set h \<and> hb_slot b \<noteq> Some 0"
proof -
  let ?ops = "[Submit \<lparr>cs_access_id = 3, cs_system = True\<rparr> 0, Claim 0, Finish 0 (catalog_ended ''timeout''), Cancel 0]"
  obtain b0 :: "unit catalog_inbox" where b0: "catalog_init 1 = Inr b0" by (simp add: catalog_init_def handoff_init_def)
  obtain h b where r: "catalog_run ?ops b0 = (h, b)" by fastforce
  then have h: "h = [Claimed 0, Finished 0 (catalog_ended ''timeout''), Dropped 0]"
    using b0 by (auto simp: catalog_init_def catalog_defs handoff_run_defs Let_def)
  have "hb_slot b \<noteq> Some 0" by (rule catalog_slot_reusable [OF b0 r]) (auto simp: h)
  with b0 r h show ?thesis by auto
qed

theorem control_slot_lost_witness:
  "\<exists>(b0 :: unit control_inbox) h b. control_init 1 = Inr b0 \<and>
     control_run ([Submit () 0, Claim 0, Take 0, Finish 0 (control_ended ''response''), Cancel 0] @ [Submit () 5, Cancel 0]) b0 = (h, b) \<and>
     fst (control_submit () 9 b) = Inl (ValueError ''control write admission unavailable'')"
proof -
  obtain b0 :: "unit control_inbox" where b0: "control_init 1 = Inr b0" by (simp add: control_init_def handoff_init_def)
  obtain h b where r: "control_run ([Submit () 0, Claim 0, Take 0, Finish 0 (control_ended ''response''), Cancel 0] @ [Submit () 5, Cancel 0]) b0 = (h, b)"
    by fastforce
  have "fst (control_submit () 9 b) = Inl (ValueError ''control write admission unavailable'')"
    by (rule control_slot_lost [OF b0 _ _ r]) simp_all
  with b0 r show ?thesis by blast
qed

end
