(* ===== verification/ModelSession.thy ===== *)
theory ModelSession
  imports ModelProtocol
begin

text \<open>
  Exchanges over a session's own socket: \<^verbatim>\<open>session_io.py\<close>, \<^verbatim>\<open>model_session.py\<close> and
  \<^verbatim>\<open>model_write_session.py\<close>. What the network does in one attempt is an argument: the deadline
  had passed, or these datagrams arrived before the attempt ended, or the socket failed.
  The random message number and header bits of a request are arguments too.
\<close>

section \<open>Frames of the access node\<close>

definition decrypt_node_frame :: "bytes \<Rightarrow> certified_node \<Rightarrow> bytes option" where
  "decrypt_node_frame wire node =
     (if length wire < 0x20 \<or> (wire ! 0 \<noteq> 0x7E \<and> wire ! 0 \<noteq> 0x7F) then None
      else let mode = wire ! 0x16 AND 3
      in if mode = 2 then (case gute_mode2_decrypt wire (cn_session_key node) of Inl e \<Rightarrow> None | Inr plain \<Rightarrow> Some plain)
         else if mode = 1 then (case gute_mode1_decrypt wire of Inl e \<Rightarrow> None | Inr plain \<Rightarrow> Some plain)
         else if mode = 0 then Some wire else None)"

text \<open>The acknowledgements that are sent, to the node's address.\<close>

definition acknowledge_reliable_node_frame :: "certified_node \<Rightarrow> bytes \<Rightarrow> exn + bytes list" where
  "acknowledge_reliable_node_frame node frame =
     (let flags = u32_at frame 0x14
      in if bit flags 20 \<or> drop_bit 18 flags AND 3 = 0 then Inr []
      else let mode = drop_bit 16 flags AND 3
      in if mode = 2 then bind_res (build_mode2_response_ack node frame) (\<lambda>ack. Inr [ack])
         else if mode = 1 then bind_res (build_mode1_response_ack node frame) (\<lambda>ack. Inr [ack])
         else Inr [])"

type_synonym datagram = "bytes \<times> string \<times> int"

datatype attempt = Lapsed | Heard "datagram list" | SocketError

record exchange =
  xe_message :: int
  xe_flags :: nat
  xe_attempts :: "attempt list"

section \<open>Reads\<close>

record model_read_result =
  mr_transport_acknowledged :: bool
  mr_error_code :: "nat option"
  mr_value :: json

definition report_concerns :: "string \<Rightarrow> string \<Rightarrow> bool" where
  "report_concerns path report_path \<longleftrightarrow> report_path = path \<or> take (length path + 1) report_path = path @ ''.'' \<or>
     take (length report_path + 1) path = report_path @ ''.''"

text \<open>
  The datagrams of one attempt, up to the first answer: whether the request was
  acknowledged, what was sent back, and the answer.
\<close>

fun model_read_heard ::
  "(bytes \<Rightarrow> string option) \<Rightarrow> json_decoder \<Rightarrow> certified_node \<Rightarrow> int \<Rightarrow> string \<Rightarrow> int \<Rightarrow> bool \<Rightarrow> bool \<Rightarrow> datagram list \<Rightarrow>
   exn + bool \<times> bytes list \<times> (nat \<times> json) option"
where
  "model_read_heard decode json_loads node device_id path sequence correlated acknowledged [] = Inr (acknowledged, [], None)"
| "model_read_heard decode json_loads node device_id path sequence correlated acknowledged ((wire, peer) # rest) =
     (let continue = (\<lambda>ack out. bind_res (model_read_heard decode json_loads node device_id path sequence correlated ack rest)
                        (\<lambda>(ack, more, answer). Inr (ack, out @ more, answer)))
      in if peer \<noteq> cn_address node then continue acknowledged []
      else case decrypt_node_frame wire node of
        None \<Rightarrow> continue acknowledged []
      | Some plain \<Rightarrow>
          if bit (u32_at plain 0x14) 20
          then continue (acknowledged \<or> (plain ! 1 = 0xB7 \<and> u32_at plain 0x0C = mask_int 32 sequence)) []
          else bind_res (acknowledge_reliable_node_frame node plain) (\<lambda>out.
            case parse_model_report decode json_loads plain of
              Some (destination, report_path, report_value) \<Rightarrow>
                if correlated then continue acknowledged out
                else if destination \<noteq> None \<and> destination \<noteq> Some (nat device_id) then continue acknowledged out
                else if report_concerns path report_path then Inr (acknowledged, out, Some (0, report_value))
                else continue acknowledged out
            | None \<Rightarrow>
                if correlated \<and> u64_at plain 4 \<noteq> mask_int 64 (cn_session_id node) then continue acknowledged out
                else (case parse_model_read_response json_loads plain device_id (Some sequence) of
                        None \<Rightarrow> continue acknowledged out
                      | Some (error_code, value) \<Rightarrow> Inr (acknowledged, out, Some (error_code, value)))))"

fun model_read_attempts ::
  "(bytes \<Rightarrow> string option) \<Rightarrow> json_decoder \<Rightarrow> certified_node \<Rightarrow> int \<Rightarrow> string \<Rightarrow> int \<Rightarrow> bool \<Rightarrow> bool \<Rightarrow> bytes \<Rightarrow> attempt list \<Rightarrow>
   exn + bytes list \<times> model_read_result"
where
  "model_read_attempts decode json_loads node device_id path sequence correlated acknowledged request [] =
     Inr ([], \<lparr>mr_transport_acknowledged = acknowledged, mr_error_code = None, mr_value = JNull\<rparr>)"
| "model_read_attempts decode json_loads node device_id path sequence correlated acknowledged request (Lapsed # rest) =
     Inr ([], \<lparr>mr_transport_acknowledged = acknowledged, mr_error_code = None, mr_value = JNull\<rparr>)"
| "model_read_attempts decode json_loads node device_id path sequence correlated acknowledged request (SocketError # rest) =
     Inl (OSError ''socket'')"
| "model_read_attempts decode json_loads node device_id path sequence correlated acknowledged request (Heard datagrams # rest) =
     bind_res (model_read_heard decode json_loads node device_id path sequence correlated acknowledged datagrams) (\<lambda>(acknowledged, out, answer).
       case answer of
         Some (error_code, value) \<Rightarrow>
           Inr (request # out, \<lparr>mr_transport_acknowledged = acknowledged, mr_error_code = Some error_code, mr_value = value\<rparr>)
       | None \<Rightarrow>
           bind_res (model_read_attempts decode json_loads node device_id path sequence correlated acknowledged request rest)
             (\<lambda>(more, result). Inr (request # out @ more, result)))"

definition exchange_model_read ::
  "(bytes \<Rightarrow> string option) \<Rightarrow> json_decoder \<Rightarrow> certified_node \<Rightarrow> int \<Rightarrow> string \<Rightarrow> int \<Rightarrow> nat \<Rightarrow> bool \<Rightarrow> exchange \<Rightarrow>
   exn + bytes list \<times> model_read_result"
where
  "exchange_model_read decode json_loads node device_id path sequence retries correlated x =
     (if retries < 1 then Inl (ValueError ''model-read retries must be positive'')
      else bind_res (build_model_read node device_id path sequence (xe_message x) (xe_flags x)) (\<lambda>request.
        model_read_attempts decode json_loads node device_id path sequence correlated False request (take retries (xe_attempts x))))"

section \<open>Writes\<close>

record model_write_result =
  mw_transport_acknowledged :: bool
  mw_error_code :: "nat option"

fun model_write_heard :: "certified_node \<Rightarrow> int \<Rightarrow> bool \<Rightarrow> datagram list \<Rightarrow> exn + bool \<times> bytes list \<times> nat option" where
  "model_write_heard node message_id acknowledged [] = Inr (acknowledged, [], None)"
| "model_write_heard node message_id acknowledged ((wire, peer) # rest) =
     (let continue = (\<lambda>ack out. bind_res (model_write_heard node message_id ack rest)
                        (\<lambda>(ack, more, answer). Inr (ack, out @ more, answer)))
      in if peer \<noteq> cn_address node then continue acknowledged []
      else case decrypt_node_frame wire node of
        None \<Rightarrow> continue acknowledged []
      | Some plain \<Rightarrow>
          if bit (u32_at plain 0x14) 20 then continue (acknowledged \<or> plain ! 1 = 0xD2) []
          else bind_res (acknowledge_reliable_node_frame node plain) (\<lambda>out.
            case parse_model_write_response plain message_id of
              None \<Rightarrow> continue acknowledged out
            | Some code \<Rightarrow> Inr (acknowledged, out, Some code)))"

fun model_write_attempts :: "certified_node \<Rightarrow> int \<Rightarrow> bool \<Rightarrow> bytes \<Rightarrow> attempt list \<Rightarrow> exn + bytes list \<times> model_write_result" where
  "model_write_attempts node message_id acknowledged request [] =
     Inr ([], \<lparr>mw_transport_acknowledged = acknowledged, mw_error_code = None\<rparr>)"
| "model_write_attempts node message_id acknowledged request (Lapsed # rest) =
     Inr ([], \<lparr>mw_transport_acknowledged = acknowledged, mw_error_code = None\<rparr>)"
| "model_write_attempts node message_id acknowledged request (SocketError # rest) = Inl (OSError ''socket'')"
| "model_write_attempts node message_id acknowledged request (Heard datagrams # rest) =
     bind_res (model_write_heard node message_id acknowledged datagrams) (\<lambda>(acknowledged, out, answer).
       case answer of
         Some code \<Rightarrow> Inr (request # out, \<lparr>mw_transport_acknowledged = acknowledged, mw_error_code = Some code\<rparr>)
       | None \<Rightarrow>
           bind_res (model_write_attempts node message_id acknowledged request rest)
             (\<lambda>(more, result). Inr (request # out @ more, result)))"

definition exchange_model_write_request ::
  "certified_node \<Rightarrow> bytes \<Rightarrow> int \<Rightarrow> nat \<Rightarrow> attempt list \<Rightarrow> exn + bytes list \<times> model_write_result"
where
  "exchange_model_write_request node request message_id retries attempts =
     (if retries < 1 then Inl (ValueError ''model-write retries must be positive'')
      else model_write_attempts node message_id False request (take retries attempts))"

definition exchange_model_write ::
  "certified_node \<Rightarrow> int \<Rightarrow> string \<Rightarrow> scalar \<Rightarrow> int \<Rightarrow> nat \<Rightarrow> exchange \<Rightarrow> exn + bytes list \<times> model_write_result"
where
  "exchange_model_write node device_id path value sequence retries x =
     (if retries < 1 then Inl (ValueError ''model-write retries must be positive'')
      else bind_res (build_model_write node device_id path value sequence (xe_message x) (xe_flags x)) (\<lambda>request.
        exchange_model_write_request node request (xe_message x) retries (xe_attempts x)))"

section \<open>An answer was heard\<close>

text \<open>The datagrams that an exchange can have read.\<close>

fun heard :: "attempt list \<Rightarrow> datagram set" where
  "heard [] = {}"
| "heard (Heard datagrams # rest) = set datagrams \<union> heard rest"
| "heard (a # rest) = {}"

text \<open>Among them, the node's answer to this very request about this very device.\<close>

definition answered_read ::
  "json_decoder \<Rightarrow> certified_node \<Rightarrow> int \<Rightarrow> int \<Rightarrow> exchange \<Rightarrow> nat \<Rightarrow> json \<Rightarrow> bool"
where
  "answered_read json_loads node device_id sequence x error_code value \<longleftrightarrow>
     (\<exists>wire plain. (wire, cn_address node) \<in> heard (xe_attempts x) \<and> decrypt_node_frame wire node = Some plain \<and>
        \<not> bit (u32_at plain 0x14) 20 \<and> u64_at plain 4 = mask_int 64 (cn_session_id node) \<and>
        parse_model_read_response json_loads plain device_id (Some sequence) = Some (error_code, value))"

definition answered_write :: "certified_node \<Rightarrow> exchange \<Rightarrow> nat \<Rightarrow> bool" where
  "answered_write node x code \<longleftrightarrow>
     (\<exists>wire plain. (wire, cn_address node) \<in> heard (xe_attempts x) \<and> decrypt_node_frame wire node = Some plain \<and>
        \<not> bit (u32_at plain 0x14) 20 \<and> parse_model_write_response plain (xe_message x) = Some code)"

lemma model_read_heard_answer:
  "model_read_heard decode json node dev path seq True acked ds = Inr (ack', out, Some (e, v)) \<Longrightarrow>
   \<exists>wire plain. (wire, cn_address node) \<in> set ds \<and> decrypt_node_frame wire node = Some plain \<and> \<not> bit (u32_at plain 0x14) 20 \<and>
     u64_at plain 4 = mask_int 64 (cn_session_id node) \<and> parse_model_read_response json plain dev (Some seq) = Some (e, v)"
proof (induction ds arbitrary: acked out)
  case (Cons d ds)
  obtain wire peer where d: "d = (wire, peer)" by (rule prod.exhaust)
  from Cons.prems d consider (later) a o' where "model_read_heard decode json node dev path seq True a ds = Inr (ack', o', Some (e, v))"
    | (here) plain where "peer = cn_address node" "decrypt_node_frame wire node = Some plain" "\<not> bit (u32_at plain 0x14) 20"
        "u64_at plain 4 = mask_int 64 (cn_session_id node)" "parse_model_read_response json plain dev (Some seq) = Some (e, v)"
    by (auto simp: bind_res_Inr Let_def split: if_splits option.splits prod.splits)
  then show ?case
  proof cases
    case later
    from Cons.IH [OF this] show ?thesis by auto
  next
    case here
    then show ?thesis using d by auto
  qed
qed simp

lemma model_read_attempts_answer:
  "model_read_attempts decode json node dev path seq True acked request as = Inr (out, r) \<Longrightarrow> mr_error_code r = Some e \<Longrightarrow>
   \<exists>wire plain. (wire, cn_address node) \<in> heard as \<and> decrypt_node_frame wire node = Some plain \<and> \<not> bit (u32_at plain 0x14) 20 \<and>
     u64_at plain 4 = mask_int 64 (cn_session_id node) \<and> parse_model_read_response json plain dev (Some seq) = Some (e, mr_value r)"
proof (induction as arbitrary: acked out rule: heard.induct)
  case (2 ds rest)
  from "2.prems" obtain a o' ans where h: "model_read_heard decode json node dev path seq True acked ds = Inr (a, o', ans)"
    by (auto simp: bind_res_Inr)
  show ?case
  proof (cases ans)
    case None
    with "2.prems" h obtain o'' where "model_read_attempts decode json node dev path seq True a request rest = Inr (o'', r)"
      by (auto simp: bind_res_Inr)
    from "2.IH" [OF this "2.prems"(2)] show ?thesis by auto
  next
    case (Some ev)
    with "2.prems" h have "ans = Some (e, mr_value r)" by (cases ev) (auto simp: bind_res_Inr)
    from model_read_heard_answer [OF h [unfolded this]] show ?thesis by auto
  qed
qed auto

lemma heard_take: "heard (take n as) \<subseteq> heard as"
  by (induction as arbitrary: n rule: heard.induct) (auto simp: take_Cons split: nat.splits)

text \<open>A correlated read only reports what the node answered.\<close>

lemma exchange_model_read_answer:
  assumes "exchange_model_read decode json node dev path seq retries True x = Inr (out, r)" "mr_error_code r = Some e"
  shows "answered_read json node dev seq x e (mr_value r)"
proof -
  obtain req where "model_read_attempts decode json node dev path seq True False req (take retries (xe_attempts x)) = Inr (out, r)"
    using assms(1) by (auto simp: exchange_model_read_def bind_res_Inr split: if_splits)
  from model_read_attempts_answer [OF this assms(2)] heard_take [of retries "xe_attempts x"] show ?thesis
    unfolding answered_read_def by blast
qed

lemma model_write_heard_answer:
  "model_write_heard node m acked ds = Inr (ack', out, Some c) \<Longrightarrow>
   \<exists>wire plain. (wire, cn_address node) \<in> set ds \<and> decrypt_node_frame wire node = Some plain \<and> \<not> bit (u32_at plain 0x14) 20 \<and>
     parse_model_write_response plain m = Some c"
proof (induction ds arbitrary: acked out)
  case (Cons d ds)
  obtain wire peer where d: "d = (wire, peer)" by (rule prod.exhaust)
  show ?case
  proof (cases "\<exists>a o'. model_write_heard node m a ds = Inr (ack', o', Some c)")
    case True
    then obtain a o' where "model_write_heard node m a ds = Inr (ack', o', Some c)" by blast
    from Cons.IH [OF this] show ?thesis by auto
  next
    case False
    from Cons.prems False d obtain plain where "peer = cn_address node" "decrypt_node_frame wire node = Some plain" "\<not> bit (u32_at plain 0x14) 20"
        "parse_model_write_response plain m = Some c"
      by (auto simp: bind_res_Inr Let_def split: if_splits option.splits prod.splits)
    then show ?thesis using d by auto
  qed
qed simp

lemma model_write_attempts_answer:
  "model_write_attempts node m acked request as = Inr (out, r) \<Longrightarrow> mw_error_code r = Some c \<Longrightarrow>
   \<exists>wire plain. (wire, cn_address node) \<in> heard as \<and> decrypt_node_frame wire node = Some plain \<and> \<not> bit (u32_at plain 0x14) 20 \<and>
     parse_model_write_response plain m = Some c"
proof (induction as arbitrary: acked out rule: heard.induct)
  case (2 ds rest)
  from "2.prems" obtain a o' ans where h: "model_write_heard node m acked ds = Inr (a, o', ans)" by (auto simp: bind_res_Inr)
  show ?case
  proof (cases ans)
    case None
    with "2.prems" h obtain o'' where "model_write_attempts node m a request rest = Inr (o'', r)" by (auto simp: bind_res_Inr)
    from "2.IH" [OF this "2.prems"(2)] show ?thesis by auto
  next
    case (Some ev)
    with "2.prems" h have "ans = Some c" by (auto simp: bind_res_Inr)
    from model_write_heard_answer [OF h [unfolded this]] show ?thesis by auto
  qed
qed auto

lemma write_request_answer:
  assumes "exchange_model_write_request node request (xe_message x) retries (xe_attempts x) = Inr (out, r)" "mw_error_code r = Some c"
  shows "answered_write node x c"
proof -
  have "model_write_attempts node (xe_message x) False request (take retries (xe_attempts x)) = Inr (out, r)"
    using assms(1) by (auto simp: exchange_model_write_request_def split: if_splits)
  from model_write_attempts_answer [OF this assms(2)] heard_take [of retries "xe_attempts x"] show ?thesis
    unfolding answered_write_def by blast
qed

end
