(* ===== verification/Fragments.thy ===== *)
theory Fragments
  imports ModelSession Budget Quicklz
begin

text \<open>
  Fragmented frames of the broker: the fragment codec and the bounded reassembler of
  \<^verbatim>\<open>resource_service_protocol.py\<close>, expansion of compressed frames (\<^verbatim>\<open>resource_service_session.py\<close>)
  and the receive path that acknowledges them (\<^verbatim>\<open>broker_maintenance.py\<close>). Random header masks
  are arguments.
\<close>

section \<open>Fragment headers\<close>

record fragment_packet =
  fp_decoded_header :: bytes
  fp_identity :: nat
  fp_sequence :: nat
  fp_original_length :: nat
  fp_total :: nat
  fp_index :: nat
  fp_large_payload :: bool
  fp_payload :: bytes

text \<open>The loops over \<^verbatim>\<open>range(4, 0x14, 2)\<close>: every field is masked and the checksum collects the clear values.\<close>

definition header_offsets :: "nat list" where
  "header_offsets = [4, 6, 8, 10, 12, 14, 16, 18]"

definition mask_field :: "nat \<Rightarrow> nat \<Rightarrow> nat \<times> bytes \<Rightarrow> nat \<times> bytes" where
  "mask_field msk offset = (\<lambda>(checksum, frame).
     let v = u16_at frame offset in (checksum OR v, put frame offset (le_bytes 2 (v XOR msk))))"

definition unmask_field :: "nat \<Rightarrow> nat \<Rightarrow> nat \<times> bytes \<Rightarrow> nat \<times> bytes" where
  "unmask_field msk offset = (\<lambda>(checksum, frame).
     let v = u16_at frame offset XOR msk in (checksum OR v, put frame offset (le_bytes 2 v)))"

definition encode_fragment_header :: "bytes \<Rightarrow> int \<Rightarrow> exn + bytes" where
  "encode_fragment_header decoded random_mask =
     (if length decoded < 0x18 \<or> decoded ! 0 \<noteq> 0x70 then Inl (ValueError ''invalid decoded fragment header'')
      else if \<not> (0 \<le> random_mask \<and> random_mask \<le> 0xFFFF) then Inl (ValueError ''fragment mask must fit in 16 bits'')
      else let msk = nat random_mask;
               (checksum, frame) = fold (mask_field msk) header_offsets (msk, put decoded 0x14 (le_bytes 2 msk))
      in Inr (put frame 0x16 (le_bytes 2 checksum)))"

definition decode_fragment_packet :: "bytes \<Rightarrow> exn + fragment_packet" where
  "decode_fragment_packet wire =
     (if length wire < 0x18 \<or> take 2 wire \<noteq> [0x70, 0x01] then Inl (ValueError ''not a gute fragment-data packet'')
      else if u16_at wire 2 \<noteq> length wire then Inl (ValueError ''fragment packet length is invalid'')
      else let msk = u16_at wire 0x14;
               (checksum, frame) = fold (unmask_field msk) header_offsets (msk, wire)
      in if checksum \<noteq> u16_at frame 0x16 then Inl (ValueError ''fragment header checksum is invalid'')
      else let count_and_flags = frame ! 0x12
      in Inr \<lparr>fp_decoded_header = take 0x18 frame, fp_identity = u64_at frame 4, fp_sequence = u32_at frame 0x0C,
              fp_original_length = u16_at frame 0x10, fp_total = unat (count_and_flags AND 0x7F), fp_index = unat (frame ! 0x13),
              fp_large_payload = (count_and_flags AND 0x80 \<noteq> 0), fp_payload = drop 0x18 frame\<rparr>)"

definition build_fragment_ack :: "fragment_packet \<Rightarrow> int \<Rightarrow> exn + bytes" where
  "build_fragment_ack packet msk =
     encode_fragment_header (put (put (replicate 0x18 0) 0 [0x70, 0x02, 0x18, 0x00]) 4 (pyslice (fp_decoded_header packet) 4 0x14)) msk"

section \<open>Reassembly\<close>

type_synonym fragment_key = "nat \<times> nat \<times> nat \<times> nat \<times> bool"

record reassembler =
  fr_max_groups :: nat
  fr_groups :: "(fragment_key, (nat, bytes) dict) dict"

definition reassembler_init :: "int \<Rightarrow> exn + reassembler" where
  "reassembler_init max_groups =
     (if \<not> (1 \<le> max_groups \<and> max_groups \<le> 16) then Inl (ValueError ''fragment group limit must be between 1 and 16'')
      else Inr \<lparr>fr_max_groups = nat max_groups, fr_groups = []\<rparr>)"

definition packet_key :: "fragment_packet \<Rightarrow> fragment_key" where
  "packet_key p = (fp_identity p, fp_sequence p, fp_original_length p, fp_total p, fp_large_payload p)"

text \<open>The checks on a complete group and its concatenation.\<close>

definition join_parts :: "fragment_packet \<Rightarrow> bytes list \<Rightarrow> exn + bytes option" where
  "join_parts packet ordered =
     (let chunk_size = length (ordered ! 0)
      in if fp_total packet > 1 \<and> (chunk_size = 0 \<or> (\<exists>part \<in> set (butlast ordered). length part \<noteq> chunk_size))
         then Inl (ValueError ''fragment chunks have inconsistent sizes'')
      else if fp_total packet > 1 \<and> length (last ordered) > chunk_size
      then Inl (ValueError ''final fragment is larger than preceding chunks'')
      else let assembled = concat ordered
      in if length assembled \<noteq> fp_original_length packet
         then Inl (ValueError ''reassembled frame length does not match the fragment header'')
      else Inr (Some assembled))"

definition reassembler_add :: "fragment_packet \<Rightarrow> reassembler \<Rightarrow> (exn + bytes option) \<times> reassembler" where
  "reassembler_add packet r =
     (if \<not> (1 \<le> fp_total packet \<and> fp_total packet \<le> 0x7F) \<or> \<not> fp_index packet < fp_total packet
      then (Inl (ValueError ''fragment index/count is invalid''), r)
      else let key = packet_key packet
      in if map_of (fr_groups r) key = None \<and> length (fr_groups r) \<ge> fr_max_groups r
         then (Inl (ValueError ''too many incomplete fragment groups''), r)
      else let groups = (if map_of (fr_groups r) key = None then dict_set key [] (fr_groups r) else fr_groups r);
               parts = (case map_of groups key of None \<Rightarrow> [] | Some parts \<Rightarrow> parts)
      in if (case map_of parts (fp_index packet) of None \<Rightarrow> False | Some previous \<Rightarrow> previous \<noteq> fp_payload packet)
         then (Inl (ValueError ''conflicting duplicate fragment''), r\<lparr>fr_groups := dict_pop key groups\<rparr>)
      else let parts = dict_set (fp_index packet) (fp_payload packet) parts
      in if length parts \<noteq> fp_total packet then (Inr None, r\<lparr>fr_groups := dict_set key parts groups\<rparr>)
      else let ordered = map (\<lambda>index. case map_of parts index of Some part \<Rightarrow> part | None \<Rightarrow> []) [0..<fp_total packet]
      in (join_parts packet ordered, r\<lparr>fr_groups := dict_pop key (dict_set key parts groups)\<rparr>))"

section \<open>Compressed frames\<close>

definition compressed_gute_payload_length :: "bytes \<Rightarrow> exn + nat option" where
  "compressed_gute_payload_length frame =
     (if length frame < 0x18 then Inl (ValueError ''gute frame is truncated'')
      else let flags = u32_at frame 0x14
      in if \<not> bit flags 0 then Inr None
      else let len = drop_bit 1 flags AND 0x7FFF
      in if len = 0 then Inl (ValueError ''compressed gute frame has no original length'') else Inr (Some len))"

definition expand_compressed_frame :: "bytes \<Rightarrow> (bytes \<Rightarrow> int \<Rightarrow> exn + bytes) option \<Rightarrow> exn + bytes option \<times> bool" where
  "expand_compressed_frame frame decompressor =
     bind_res (compressed_gute_payload_length frame) (\<lambda>expected.
       case expected of
         None \<Rightarrow> Inr (Some frame, False)
       | Some expected_length \<Rightarrow>
           (case decompressor of
              None \<Rightarrow> Inr (None, True)
            | Some f \<Rightarrow>
                (case f (drop 0x18 frame) (int expected_length) of
                   Inl e \<Rightarrow> if is_value_error e \<or> (\<exists>m. e = TypeError m) then Inr (None, True) else Inl e
                 | Inr payload \<Rightarrow>
                     if length payload \<noteq> expected_length then Inr (None, True)
                     else let expanded = take 0x18 frame @ payload
                     in if length expanded > 0xFFFF then Inr (None, True)
                     else let expanded = put expanded 2 (le_bytes 2 (length expanded));
                              flags = u32_at expanded 0x14
                     in Inr (Some (put expanded 0x14 (le_bytes 4 (flags AND 0xFFFF0000))), False))))"

section \<open>The broker's receive path\<close>

datatype tcp_profile = SHORT | EXTENDED

fun broker_seconds :: "tcp_profile \<Rightarrow> time" where
  "broker_seconds SHORT = 15"
| "broker_seconds EXTENDED = 28"

record broker_maintenance =
  mn_acknowledge_messages :: bool
  mn_node :: "certified_node option"
  mn_deadline :: "time option"
  mn_fragments :: reassembler
  mn_closed :: bool
  mn_datagrams :: nat
  mn_received_bytes :: nat
  mn_messages :: nat
  mn_acknowledgements :: nat
  mn_input :: traffic_budget

text \<open>A deadline of None is \<^verbatim>\<open>float("inf")\<close>. \<^verbatim>\<open>TrafficBudget\<close> is made with its defaults.\<close>

definition maintenance_init :: "certified_node \<Rightarrow> tcp_profile \<Rightarrow> bool \<Rightarrow> (nat \<Rightarrow> time) \<Rightarrow> exn + broker_maintenance" where
  "maintenance_init node profile acknowledge_messages clock =
     bind_res (reassembler_init 2) (\<lambda>fragments.
       bind_res (traffic_init 512 (1024 * 1024) FINITE 1 (clock 1)) (\<lambda>input.
         Inr \<lparr>mn_acknowledge_messages = acknowledge_messages, mn_node = Some node, mn_deadline = Some (clock 0 + broker_seconds profile),
              mn_fragments = fragments, mn_closed = False, mn_datagrams = 0, mn_received_bytes = 0, mn_messages = 0,
              mn_acknowledgements = 0, mn_input = input\<rparr>))"

definition account_check :: "certified_node \<Rightarrow> bool \<Rightarrow> account_policy \<Rightarrow> (nat \<Rightarrow> time) \<Rightarrow> exn + broker_maintenance" where
  "account_check node acknowledge_messages policy clock =
     bind_res (maintenance_init node SHORT acknowledge_messages clock) (\<lambda>owner.
       bind_res (traffic_init 512 (1024 * 1024) policy 1 (clock 3)) (\<lambda>input.
         Inr (owner\<lparr>mn_deadline := (if policy = FINITE then Some (clock 2 + 60) else None), mn_input := input\<rparr>)))"

definition maintenance_close :: "broker_maintenance \<Rightarrow> broker_maintenance" where
  "maintenance_close m = m\<lparr>mn_closed := True, mn_node := None, mn_fragments := \<lparr>fr_max_groups = 2, fr_groups = []\<rparr>\<rparr>"

text \<open>A complete frame: decrypted, inspected by the caller and acknowledged if it asks for it.\<close>

definition maintain_message ::
  "(bytes \<Rightarrow> exn + unit) option \<Rightarrow> certified_node \<Rightarrow> bytes \<Rightarrow> bytes list \<Rightarrow> broker_maintenance \<Rightarrow> (exn + bytes list) \<times> broker_maintenance"
where
  "maintain_message inspect_message node wire replies m =
     (if length wire < 32 \<or> wire ! 0x16 AND 3 \<noteq> 2 then (Inr replies, m)
      else case decrypt_node_frame wire node of
        None \<Rightarrow> (Inr replies, m)
      | Some plain \<Rightarrow>
          if int (u64_at plain 4) \<noteq> cn_session_id node then (Inr replies, m)
          else let m = m\<lparr>mn_messages := mn_messages m + 1\<rparr>
          in case (case inspect_message of None \<Rightarrow> Inr () | Some f \<Rightarrow> f plain) of
               Inl e \<Rightarrow> (Inl e, m)
             | Inr u \<Rightarrow>
                 let flags = u32_at plain 20
                 in if mn_acknowledge_messages m \<and> \<not> bit flags 20 \<and> drop_bit 18 flags AND 3 \<noteq> 0
                    then (case build_mode2_response_ack node plain of
                            Inl e \<Rightarrow> (Inl e, m)
                          | Inr ack \<Rightarrow> (Inr (replies @ [ack]), m\<lparr>mn_acknowledgements := mn_acknowledgements m + 1\<rparr>))
                    else (Inr replies, m))"

definition maintain_datagram ::
  "(bytes \<Rightarrow> exn + unit) option \<Rightarrow> bytes \<Rightarrow> string \<times> int \<Rightarrow> int \<Rightarrow> time \<Rightarrow> time \<Rightarrow> broker_maintenance \<Rightarrow> (exn + bytes list) \<times> broker_maintenance"
where
  "maintain_datagram inspect_message wire peer msk now charged_at m =
     (let m = m\<lparr>mn_datagrams := mn_datagrams m + 1, mn_received_bytes := mn_received_bytes m + length wire\<rparr>
      in if (case mn_deadline m of None \<Rightarrow> False | Some deadline \<Rightarrow> now \<ge> deadline) \<or> length wire > 4096
         then (Inl (ValueError ''broker maintenance budget exhausted''), m)
      else case traffic_charge (int (length wire)) 0 charged_at (mn_input m) of
        (Inl e, input) \<Rightarrow> (Inl e, m\<lparr>mn_input := input\<rparr>)
      | (Inr u, input) \<Rightarrow>
          let m = m\<lparr>mn_input := input\<rparr>
          in case mn_node m of
               None \<Rightarrow> (Inl AssertionError, m)
             | Some node \<Rightarrow>
                 if peer \<noteq> cn_address node then (Inr [], m)
                 else if take 2 wire = [0x70, 0x01]
                 then (case decode_fragment_packet wire of
                         Inl e \<Rightarrow> (Inl e, m)
                       | Inr fragment \<Rightarrow>
                           (case reassembler_add fragment (mn_fragments m) of
                              (Inl e, fragments) \<Rightarrow> (Inl e, m\<lparr>mn_fragments := fragments\<rparr>)
                            | (Inr assembled, fragments) \<Rightarrow>
                                let m = m\<lparr>mn_fragments := fragments\<rparr>
                                in (case build_fragment_ack fragment msk of
                                      Inl e \<Rightarrow> (Inl e, m)
                                    | Inr ack \<Rightarrow>
                                        let m = m\<lparr>mn_acknowledgements := mn_acknowledgements m + 1\<rparr>
                                        in (case assembled of
                                              None \<Rightarrow> (Inr [ack], m)
                                            | Some frame \<Rightarrow> maintain_message inspect_message node frame [ack] m))))
                 else maintain_message inspect_message node wire [] m)"

definition maintenance_receive ::
  "(bytes \<Rightarrow> exn + unit) option \<Rightarrow> bytes \<Rightarrow> string \<times> int \<Rightarrow> int \<Rightarrow> time \<Rightarrow> time \<Rightarrow> broker_maintenance \<Rightarrow> (exn + bytes list) \<times> broker_maintenance"
where
  "maintenance_receive inspect_message wire peer msk now charged_at m =
     (if mn_closed m then (Inl (ValueError ''broker maintenance is closed''), m)
      else case maintain_datagram inspect_message wire peer msk now charged_at m of
        (Inl e, m) \<Rightarrow> (Inl e, if is_value_error e \<or> (\<exists>t. e = TypeError t) then maintenance_close m else m)
      | (Inr replies, m) \<Rightarrow> (Inr replies, m))"

section \<open>The header codec\<close>

text \<open>Both loops, by what they add to the checksum and what they write for a field \<open>v\<close>.\<close>

definition each_field :: "(nat \<Rightarrow> nat) \<Rightarrow> (nat \<Rightarrow> nat) \<Rightarrow> nat \<Rightarrow> nat \<times> bytes \<Rightarrow> nat \<times> bytes" where
  "each_field a n offset = (\<lambda>(checksum, frame). (checksum OR a (u16_at frame offset), put frame offset (le_bytes 2 (n (u16_at frame offset)))))"

lemma field_loops:
  "mask_field m = each_field (\<lambda>v. v) (\<lambda>v. v XOR m)" "unmask_field m = each_field (\<lambda>v. v XOR m) (\<lambda>v. v XOR m)"
  by (simp_all add: mask_field_def unmask_field_def each_field_def Let_def fun_eq_iff)

lemma each_field_pair:
  "each_field a n offset (checksum, frame) = (checksum OR a (u16_at frame offset), put frame offset (le_bytes 2 (n (u16_at frame offset))))"
  by (simp add: each_field_def)

lemma each_field_fold:
  assumes "sorted_wrt (\<lambda>i j. i + 2 \<le> j) offs" "\<forall>i \<in> set offs. i + 2 \<le> length f" "\<forall>v. v < 65536 \<longrightarrow> n v < 65536"
    "fold (each_field a n) offs (c, f) = (c', f')"
  shows "length f' = length f \<and> (\<forall>i \<in> set offs. u16_at f' i = n (u16_at f i)) \<and>
    (\<forall>i j. (\<forall>k \<in> set offs. j \<le> k \<or> k + 2 \<le> i) \<longrightarrow> pyslice f' i j = pyslice f i j) \<and> c' = fold (\<lambda>i x. x OR a (u16_at f i)) offs c"
  using assms
proof (induction offs arbitrary: c f)
  case (Cons off offs)
  let ?g = "put f off (le_bytes 2 (n (u16_at f off)))"
  have v: "n (u16_at f off) < 256 ^ 2" using Cons.prems(3) le_val_slice_bound [of "256 ^ 2" "off + 2" off f] by simp
  have len: "length ?g = length f" using Cons.prems(2) by simp
  have run: "fold (each_field a n) offs (c OR a (u16_at f off), ?g) = (c', f')" using Cons.prems(4) by (simp only: fold_simps each_field_pair)
  have off: "off + 2 \<le> i" if "i \<in> set offs" for i using Cons.prems(1) that by auto
  have same: "pyslice ?g i j = pyslice f i j" if "j \<le> off \<or> off + 2 \<le> i" for i j
    using Cons.prems(2) that by (intro slice_put_disjoint) auto
  have u: "u16_at ?g i = u16_at f i" if "i \<in> set offs" for i using same [of "i + 2" i] off [OF that] by simp
  have IH: "length f' = length ?g \<and> (\<forall>i \<in> set offs. u16_at f' i = n (u16_at ?g i)) \<and>
    (\<forall>i j. (\<forall>k \<in> set offs. j \<le> k \<or> k + 2 \<le> i) \<longrightarrow> pyslice f' i j = pyslice ?g i j) \<and>
    c' = fold (\<lambda>i x. x OR a (u16_at ?g i)) offs (c OR a (u16_at f off))"
    by (rule Cons.IH [OF _ _ _ run]) (use Cons.prems len in auto)
  have here: "u16_at f' off = n (u16_at f off)"
  proof -
    have "pyslice f' off (off + 2) = pyslice ?g off (off + 2)" using IH off by blast
    then show ?thesis using Cons.prems(2) v by (simp add: slice_put_same le_val_le_bytes)
  qed
  have "fold (\<lambda>i x. x OR a (u16_at ?g i)) offs z = fold (\<lambda>i x. x OR a (u16_at f i)) offs z" for z
    using u by (intro fold_cong) auto
  with IH here same u len show ?case by simp
qed simp

lemmas each_field_facts = each_field_fold [THEN conjunct1] each_field_fold [THEN conjunct2, THEN conjunct1]
  each_field_fold [THEN conjunct2, THEN conjunct2, THEN conjunct1] each_field_fold [THEN conjunct2, THEN conjunct2, THEN conjunct2]

lemma xor_bound: "a < 65536 \<Longrightarrow> b < 65536 \<Longrightarrow> a XOR b < (65536 :: nat)"
proof -
  assume "a < 65536" "b < 65536"
  then have "take_bit 16 a = a" "take_bit 16 b = b" by (simp_all add: take_bit_nat_eq_self)
  then have "a XOR b = take_bit 16 (a XOR b)" by simp
  also have "\<dots> < 2 ^ 16" by (rule take_bit_nat_less_exp)
  finally show ?thesis by simp
qed

lemma slice_split: "i \<le> j \<Longrightarrow> j \<le> k \<Longrightarrow> pyslice f i k = pyslice f i j @ pyslice f j k"
  using take_add [of "j - i" "k - j" "drop i f"] by (simp add: pyslice_def)

lemma header_slice: "pyslice f 4 20 = concat (map (\<lambda>i. pyslice f i (i + 2)) header_offsets)"
proof -
  have "pyslice f 4 20 = pyslice f 4 6 @ pyslice f 6 20" "pyslice f 6 20 = pyslice f 6 8 @ pyslice f 8 20"
    "pyslice f 8 20 = pyslice f 8 10 @ pyslice f 10 20" "pyslice f 10 20 = pyslice f 10 12 @ pyslice f 12 20"
    "pyslice f 12 20 = pyslice f 12 14 @ pyslice f 14 20" "pyslice f 14 20 = pyslice f 14 16 @ pyslice f 16 20"
    "pyslice f 16 20 = pyslice f 16 18 @ pyslice f 18 20" by (rule slice_split; simp)+
  note s = this
  show ?thesis unfolding s by (simp add: header_offsets_def)
qed

lemma slice_u16: "i + 2 \<le> length f \<Longrightarrow> pyslice f i (i + 2) = le_bytes 2 (u16_at f i)"
  by (rule le_bytes_le_val [symmetric]) simp

text \<open>Unmasking undoes masking, and both loops see the same clear values.\<close>

lemma unmask_mask:
  assumes len: "24 \<le> length f" "24 \<le> length g" and m: "m < 65536" and enc: "fold (mask_field m) header_offsets (c, f) = (c1, f1)"
    and g: "\<And>i. i \<in> set header_offsets \<Longrightarrow> u16_at g i = u16_at f1 i" and dec: "fold (unmask_field m) header_offsets (c, g) = (c2, f2)"
  shows "c2 = c1" "pyslice f2 4 20 = pyslice f 4 20"
proof -
  have sp: "sorted_wrt (\<lambda>i j. i + 2 \<le> j) header_offsets" and inside: "\<forall>i \<in> set header_offsets. i + 2 \<le> length f"
    and inside': "\<forall>i \<in> set header_offsets. i + 2 \<le> length g" using len by (auto simp: header_offsets_def)
  have xb: "\<forall>v. v < 65536 \<longrightarrow> v XOR m < 65536" using xor_bound m by blast
  note F = each_field_facts [OF sp inside xb enc [unfolded field_loops]]
  note G = each_field_facts [OF sp inside' xb dec [unfolded field_loops]]
  have v: "u16_at g i XOR m = u16_at f i" if "i \<in> set header_offsets" for i
    unfolding g [OF that] bspec [OF F(2) that] by (simp add: xor.assoc)
  have "fold (\<lambda>i x. x OR (u16_at g i XOR m)) header_offsets c = fold (\<lambda>i x. x OR u16_at f i) header_offsets c"
    by (rule fold_cong) (simp_all only: v)
  then show "c2 = c1" unfolding F(4) G(4) .
  have "pyslice f2 i (i + 2) = pyslice f i (i + 2)" if "i \<in> set header_offsets" for i
  proof -
    have a: "i + 2 \<le> length f2" unfolding G(1) by (rule bspec [OF inside' that])
    have b: "i + 2 \<le> length f" by (rule bspec [OF inside that])
    have "u16_at f2 i = u16_at f i" unfolding bspec [OF G(2) that] by (rule v [OF that])
    then have "le_bytes 2 (u16_at f2 i) = le_bytes 2 (u16_at f i)" by (simp only:)
    then show ?thesis by (rule box_equals [OF _ slice_u16 [OF a, symmetric] slice_u16 [OF b, symmetric]])
  qed
  then show "pyslice f2 4 20 = pyslice f 4 20" unfolding header_slice by (intro arg_cong [of _ _ concat] map_cong refl)
qed

text \<open>The loops touch only the bytes from 4 to 20.\<close>

lemma field_loop_outside:
  assumes len: "24 \<le> length f" and m: "m < 65536"
    and loop: "fold (mask_field m) header_offsets (c, f) = (c', f') \<or> fold (unmask_field m) header_offsets (c, f) = (c', f')"
  shows "length f' = length f" "j \<le> 4 \<or> 20 \<le> i \<Longrightarrow> pyslice f' i j = pyslice f i j"
proof -
  have sp: "sorted_wrt (\<lambda>i j. i + 2 \<le> j) header_offsets" and inside: "\<forall>i \<in> set header_offsets. i + 2 \<le> length f"
    using len by (auto simp: header_offsets_def)
  have gap: "\<forall>k \<in> set header_offsets. j \<le> k \<or> k + 2 \<le> i" if "j \<le> 4 \<or> 20 \<le> i"
    using that by (auto simp: header_offsets_def)
  have xb: "\<forall>v. v < 65536 \<longrightarrow> v XOR m < 65536" using xor_bound m by blast
  from loop obtain a where "fold (each_field a (\<lambda>v. v XOR m)) header_offsets (c, f) = (c', f')" unfolding field_loops by blast
  note F = each_field_facts [OF sp inside xb this]
  show "length f' = length f" by (rule F(1))
  show "j \<le> 4 \<or> 20 \<le> i \<Longrightarrow> pyslice f' i j = pyslice f i j" by (rule F(3) [THEN spec, THEN spec, THEN mp, OF gap])
qed

lemma or_bound: "a < 65536 \<Longrightarrow> b < 65536 \<Longrightarrow> a OR b < (65536 :: nat)"
proof -
  assume "a < 65536" "b < 65536"
  then have "take_bit 16 a = a" "take_bit 16 b = b" by (simp_all add: take_bit_nat_eq_self)
  then have "a OR b = take_bit 16 (a OR b)" by simp
  also have "\<dots> < 2 ^ 16" by (rule take_bit_nat_less_exp)
  finally show ?thesis by simp
qed

lemma checksum_bound:
  assumes "fold (mask_field m) offs (c, f) = (c', f')" "c < 65536"
  shows "c' < 65536"
  using assms
proof (induction offs arbitrary: c f)
  case (Cons i offs)
  have "u16_at f i < 65536" using le_val_slice_bound [of "256 ^ 2" "i + 2" i f] by simp
  with Cons.prems(2) have "c OR u16_at f i < 65536" by (rule or_bound)
  from Cons.IH [OF _ this] Cons.prems(1) show ?case by (simp add: mask_field_def Let_def)
qed simp

lemma count_bits: "unat (b AND 0x7F :: byte) = unat b mod 128" "(b AND 0x80 :: byte) \<noteq> 0 \<longleftrightarrow> unat b \<ge> 128"
proof -
  have "b AND 0x7F = take_bit 7 b" by (simp add: take_bit_eq_mask mask_eq_exp_minus_1)
  then show "unat (b AND 0x7F) = unat b mod 128" by (simp only: unsigned_take_bit_eq) (simp add: take_bit_eq_mod)
  have "(b AND 0x80 \<noteq> 0) = bit b 7" using and_exp_eq_0_iff_not_bit [of b 7] by simp
  also have "\<dots> = bit (unat b) 7" by (simp add: bit_unsigned_iff)
  also have "\<dots> = (unat b \<ge> 128)"
  proof -
    define n where "n = unat b"
    have "n < 256" by (simp add: n_def)
    then have "n div 128 = 0 \<or> n div 128 = 1" using less_mult_imp_div_less [of n 2 128] by auto
    moreover have "n div 128 = 0 \<longleftrightarrow> n < 128" by (simp add: div_eq_0_iff)
    ultimately have "odd (n div 128) = (n \<ge> 128)" by (auto simp: not_less)
    then show ?thesis by (simp add: bit_iff_odd n_def)
  qed
  finally show "(b AND 0x80 \<noteq> 0) = (unat b \<ge> 128)" .
qed

lemma encode_header_ok:
  assumes "24 \<le> length decoded" "decoded ! 0 = 0x70" "0 \<le> random_mask" "random_mask \<le> 0xFFFF"
  shows "\<exists>header. encode_fragment_header decoded random_mask = Inr header"
  using assms by (simp add: encode_fragment_header_def split_beta Let_def)

text \<open>
  C39. A fragment reads back as it was sent: encoding a 24-byte header with any 16-bit mask and
  decoding it with the payload behind it gives the header's identity, sequence, length, count,
  index and flag, and the payload.
\<close>
theorem fragment_roundtrip:
  assumes "length decoded = 0x18" "take 2 decoded = [0x70, 0x01]" "u16_at decoded 2 = 0x18 + length payload"
    "encode_fragment_header decoded random_mask = Inr header"
  shows "\<exists>p. decode_fragment_packet (header @ payload) = Inr p \<and> fp_identity p = u64_at decoded 4 \<and> fp_sequence p = u32_at decoded 0x0C \<and>
    fp_original_length p = u16_at decoded 0x10 \<and> fp_total p = unat (decoded ! 0x12) mod 128 \<and> fp_index p = unat (decoded ! 0x13) \<and>
    (fp_large_payload p \<longleftrightarrow> unat (decoded ! 0x12) \<ge> 128) \<and> fp_payload p = payload"
proof -
  let ?m = "nat random_mask" and ?d = "put decoded 0x14 (le_bytes 2 (nat random_mask))"
  have h: "\<not> (length decoded < 0x18 \<or> decoded ! 0 \<noteq> 0x70)" "0 \<le> random_mask \<and> random_mask \<le> 0xFFFF"
    using assms(4) by (auto simp: encode_fragment_header_def split: if_splits)
  have m: "?m < 65536" using h(2) by linarith
  obtain c1 f1 where e: "fold (mask_field ?m) header_offsets (?m, ?d) = (c1, f1)" by fastforce
  have header: "header = put f1 0x16 (le_bytes 2 c1)" using assms(4) h e by (simp add: encode_fragment_header_def)
  obtain c2 f2 where d: "fold (unmask_field ?m) header_offsets (?m, header @ payload) = (c2, f2)" by fastforce
  have ld: "length ?d = 24" using assms(1) by simp
  have o1: "length f1 = 24" "\<And>i j. j \<le> 4 \<or> 20 \<le> i \<Longrightarrow> pyslice f1 i j = pyslice ?d i j"
    using field_loop_outside [of ?d ?m ?m c1 f1] ld m e by simp_all
  let ?w = "header @ payload"
  have lh: "length header = 24" using o1(1) by (simp add: header)
  have w: "pyslice ?w i j = pyslice f1 i j" if "j \<le> 22" for i j
    using that o1(1) lh by (simp add: slice_append_left) (simp add: header slice_put_disjoint)
  have o2: "length f2 = length ?w" "\<And>i j. j \<le> 4 \<or> 20 \<le> i \<Longrightarrow> pyslice f2 i j = pyslice ?w i j"
    using field_loop_outside [of ?w ?m ?m c2 f2] lh m d by simp_all
  have mid: "c2 = c1" "pyslice f2 4 20 = pyslice ?d 4 20"
  proof -
    have g: "u16_at ?w i = u16_at f1 i" if "i \<in> set header_offsets" for i
      using w [of "i + 2" i] that by (auto simp: header_offsets_def)
    show "c2 = c1" "pyslice f2 4 20 = pyslice ?d 4 20"
      using unmask_mask [OF _ _ m e g d] ld lh by simp_all
  qed
  have d4: "pyslice ?d i j = pyslice decoded i j" if "j \<le> 20" for i j using that assms(1) by (intro slice_put_disjoint) auto
  have c1: "c1 < 65536" by (rule checksum_bound [OF e m])
  have sum: "u16_at f2 22 = c1"
  proof -
    have "pyslice f2 22 24 = pyslice ?w 22 24" by (rule o2(2)) simp
    also have "\<dots> = le_bytes 2 c1" using lh o1(1) by (simp add: slice_append_left) (simp add: header slice_put_same)
    finally show ?thesis using c1 by (simp add: le_val_le_bytes)
  qed
  have pre: "take 2 ?w = [0x70, 0x01]" "u16_at ?w 2 = length ?w" "u16_at ?w 20 = ?m"
  proof -
    have "pyslice ?w 0 2 = pyslice decoded 0 2" "pyslice ?w 2 4 = pyslice decoded 2 4" using w o1(2) d4 by simp_all
    then show "take 2 ?w = [0x70, 0x01]" "u16_at ?w 2 = length ?w" using assms(2,3) lh by (simp_all add: pyslice_def)
    have "pyslice ?w 20 22 = pyslice ?d 20 22" using w o1(2) by simp
    also have "\<dots> = le_bytes 2 ?m" using assms(1) by (simp add: slice_put_same)
    finally show "u16_at ?w 20 = ?m" using m by (simp add: le_val_le_bytes)
  qed
  have field: "pyslice f2 i j = pyslice decoded i j" if "4 \<le> i" "j \<le> 20" for i j
    using that mid(2) d4 [of 20 4] slice_slice [of "j - 4" 20 4 f2 "i - 4"] slice_slice [of "j - 4" 20 4 decoded "i - 4"]
    by (cases "j \<le> i") (auto simp: pyslice_def)
  have nth: "f2 ! i = decoded ! i" if "4 \<le> i" "i < 20" for i
    using arg_cong [OF field [of i "Suc i"], of "\<lambda>x. x ! 0"] that o2(1) lh assms(1) by simp
  have rest: "drop 24 f2 = payload"
    using o2(2) [where i = 24 and j = "length f2"] o2(1) lh by (simp add: slice_to_end [symmetric] slice_append_right)
  have dec: "decode_fragment_packet ?w = Inr \<lparr>fp_decoded_header = take 0x18 f2, fp_identity = u64_at f2 4, fp_sequence = u32_at f2 0x0C,
      fp_original_length = u16_at f2 0x10, fp_total = unat (f2 ! 0x12 AND 0x7F), fp_index = unat (f2 ! 0x13),
      fp_large_payload = (f2 ! 0x12 AND 0x80 \<noteq> 0), fp_payload = drop 0x18 f2\<rparr>"
    using pre d mid(1) sum lh by (simp add: decode_fragment_packet_def Let_def)
  show ?thesis unfolding dec
    using field nth rest count_bits [of "decoded ! 18"] by simp
qed

section \<open>Reassembly of a fragmented frame\<close>

text \<open>\<open>p\<close> carries its chunk of \<open>frame\<close>, cut into chunks of \<open>c\<close> bytes.\<close>

definition chunk :: "bytes \<Rightarrow> nat \<Rightarrow> nat \<Rightarrow> bytes" where
  "chunk frame c i = pyslice frame (i * c) (i * c + c)"

definition fragment_of :: "bytes \<Rightarrow> nat \<Rightarrow> fragment_packet \<Rightarrow> bool" where
  "fragment_of frame c p \<longleftrightarrow> 0 < c \<and> 1 \<le> fp_total p \<and> fp_total p \<le> 127 \<and> (fp_total p - 1) * c < length frame \<and> length frame \<le> fp_total p * c \<and>
     fp_index p < fp_total p \<and> fp_payload p = chunk frame c (fp_index p) \<and> fp_original_length p = length frame"

lemma concat_chunks: "concat (map (chunk frame c) [0..<n]) = take (n * c) frame"
proof (induction n)
  case (Suc n)
  have "take (n * c + c) frame = take (n * c) frame @ take c (drop (n * c) frame)" by (rule take_add)
  with Suc show ?case by (simp add: chunk_def pyslice_def ac_simps)
qed simp

lemma join_chunks:
  assumes f: "fragment_of frame c p" and total: "fp_total p = n"
  shows "join_parts p (map (chunk frame c) [0..<n]) = Inr (Some frame)"
proof -
  have c: "0 < c" "1 \<le> n" "(n - 1) * c < length frame" "length frame \<le> n * c" "fp_original_length p = length frame"
    using f total by (simp_all add: fragment_of_def)
  have full: "length (chunk frame c i) = c" if "i < n - 1" for i
  proof -
    have "Suc i * c \<le> (n - 1) * c" using that by (intro mult_right_mono) simp_all
    with c(3) show ?thesis by (simp add: chunk_def)
  qed
  have short: "length (chunk frame c i) \<le> c" for i by (simp add: chunk_def)
  have n: "[0..<n] = [0..<n - 1] @ [n - 1]" using c(2) by (cases n) simp_all
  have but: "butlast (map (chunk frame c) [0..<n]) = map (chunk frame c) [0..<n - 1]" "last (map (chunk frame c) [0..<n]) = chunk frame c (n - 1)"
    unfolding n by simp_all
  have 0: "map (chunk frame c) [0..<n] ! 0 = chunk frame c 0" using c(2) by simp
  have "concat (map (chunk frame c) [0..<n]) = frame" using c(4) by (simp add: concat_chunks)
  moreover have "1 < n \<Longrightarrow> length (chunk frame c 0) = c" using full [of 0] by simp
  moreover have "\<forall>part \<in> set (butlast (map (chunk frame c) [0..<n])). length part = c" using full by (auto simp: but)
  moreover have "length (last (map (chunk frame c) [0..<n])) \<le> c" unfolding but by (rule short)
  ultimately show ?thesis using c total by (cases "1 < n") (simp_all add: join_parts_def 0 Let_def)
qed

text \<open>The group of \<open>key\<close> holds exactly the chunks with indices in \<open>seen\<close>.\<close>

definition holds :: "bytes \<Rightarrow> nat \<Rightarrow> fragment_key \<Rightarrow> nat set \<Rightarrow> reassembler \<Rightarrow> bool" where
  "holds frame c key seen r \<longleftrightarrow> (case map_of (fr_groups r) key of
       None \<Rightarrow> seen = {}
     | Some parts \<Rightarrow> distinct (map fst parts) \<and> map_of parts = (\<lambda>i. if i \<in> seen then Some (chunk frame c i) else None))"

lemma add_other:
  assumes "packet_key p \<noteq> key" "reassembler_add p r = (res, r')"
  shows "map_of (fr_groups r') key = map_of (fr_groups r) key"
  using assms by (auto simp: reassembler_add_def Let_def split: if_splits)

lemma add_max: "reassembler_add p r = (res, r') \<Longrightarrow> fr_max_groups r' = fr_max_groups r"
  by (auto simp: reassembler_add_def Let_def split: if_splits)

text \<open>A fragment of the frame is taken whenever its group exists or there is room for one.\<close>

lemma add_own:
  assumes h: "holds frame c key seen r" and p: "fragment_of frame c p" "packet_key p = key"
    and free: "map_of (fr_groups r) key = None \<longrightarrow> length (fr_groups r) < fr_max_groups r"
    and seen: "seen \<subset> {0..<fp_total p}"
  shows "if insert (fp_index p) seen = {0..<fp_total p}
    then \<exists>r'. reassembler_add p r = (Inr (Some frame), r') \<and> map_of (fr_groups r') key = None
    else \<exists>r'. reassembler_add p r = (Inr None, r') \<and> holds frame c key (insert (fp_index p) seen) r' \<and> map_of (fr_groups r') key \<noteq> None"
proof -
  define groups where "groups = (if map_of (fr_groups r) key = None then dict_set key [] (fr_groups r) else fr_groups r)"
  define parts where "parts = (case map_of groups key of None \<Rightarrow> [] | Some parts \<Rightarrow> parts)"
  define ps where "ps = dict_set (fp_index p) (fp_payload p) parts"
  let ?seen = "insert (fp_index p) seen"
  have parts: "distinct (map fst parts)" "map_of parts = (\<lambda>i. if i \<in> seen then Some (chunk frame c i) else None)"
    using h by (auto simp: parts_def groups_def holds_def split: option.splits if_splits)
  have payload: "fp_payload p = chunk frame c (fp_index p)" "fp_index p < fp_total p" "1 \<le> fp_total p" "fp_total p \<le> 127"
    using p(1) by (simp_all add: fragment_of_def)
  have new: "distinct (map fst ps)" "map_of ps = (\<lambda>i. if i \<in> ?seen then Some (chunk frame c i) else None)"
    using parts payload(1) by (auto simp: ps_def fun_eq_iff)
  have "length ps = card (fst ` set ps)" using new(1) distinct_card [of "map fst ps"] by simp
  also have "fst ` set ps = ?seen" using new(2) dom_map_of_conv_image_fst [of ps] by (auto simp: dom_def split: if_splits)
  finally have len: "length ps = card ?seen" .
  have sub: "?seen \<subseteq> {0..<fp_total p}" using seen payload(2) by auto
  have full: "card ?seen = fp_total p \<longleftrightarrow> ?seen = {0..<fp_total p}"
    using card_subset_eq [OF _ sub] by auto
  have ok: "\<not> (\<not> (1 \<le> fp_total p \<and> fp_total p \<le> 0x7F) \<or> \<not> fp_index p < fp_total p)" using payload by simp
  have cap: "\<not> (map_of (fr_groups r) key = None \<and> length (fr_groups r) \<ge> fr_max_groups r)"
    using free by auto
  have same: "\<not> (case map_of parts (fp_index p) of None \<Rightarrow> False | Some previous \<Rightarrow> previous \<noteq> fp_payload p)"
    using parts(2) payload(1) by simp
  have r: "reassembler_add p r = (if length ps \<noteq> fp_total p then (Inr None, r\<lparr>fr_groups := dict_set key ps groups\<rparr>)
      else (join_parts p (map (\<lambda>index. case map_of ps index of Some part \<Rightarrow> part | None \<Rightarrow> []) [0..<fp_total p]),
            r\<lparr>fr_groups := dict_pop key (dict_set key ps groups)\<rparr>))"
    unfolding reassembler_add_def Let_def p(2) groups_def [symmetric] parts_def [symmetric] ps_def [symmetric]
      if_not_P [OF ok] if_not_P [OF cap] if_not_P [OF same] ..
  show ?thesis
  proof (cases "?seen = {0..<fp_total p}")
    case True
    have "map (\<lambda>index. case map_of ps index of Some part \<Rightarrow> part | None \<Rightarrow> []) [0..<fp_total p] = map (chunk frame c) [0..<fp_total p]"
      using True new(2) by (intro map_cong) auto
    note o = this
    have "length ps = fp_total p" using True full len by simp
    then have "reassembler_add p r = (Inr (Some frame), r\<lparr>fr_groups := dict_pop key (dict_set key ps groups)\<rparr>)"
      using r unfolding o join_chunks [OF p(1) refl] by simp
    then show ?thesis using True by simp
  next
    case False
    then show ?thesis using r full len new by (simp add: holds_def)
  qed
qed

text \<open>A sequence of fragments, with the result of each.\<close>

fun add_all :: "fragment_packet list \<Rightarrow> reassembler \<Rightarrow> (exn + bytes option) list \<times> reassembler" where
  "add_all [] r = ([], r)"
| "add_all (p # ps) r = (let (x, r) = reassembler_add p r; (xs, r) = add_all ps r in (x # xs, r))"

abbreviation own_indices :: "fragment_key \<Rightarrow> fragment_packet list \<Rightarrow> nat set" where
  "own_indices key ps \<equiv> fp_index ` {p \<in> set ps. packet_key p = key}"

text \<open>When the first fragment of \<open>key\<close> arrives, a group is free for it.\<close>

definition room :: "fragment_key \<Rightarrow> fragment_packet list \<Rightarrow> reassembler \<Rightarrow> bool" where
  "room key ps r \<longleftrightarrow> (map_of (fr_groups r) key = None \<longrightarrow>
     length (fr_groups (snd (add_all (takeWhile (\<lambda>q. packet_key q \<noteq> key) ps) r))) < fr_max_groups r)"

lemma room_other:
  assumes "packet_key p \<noteq> key" "reassembler_add p r = (x, r1)" "room key (p # ps) r"
  shows "room key ps r1"
  using assms(3) add_other [OF assms(1,2)] add_max [OF assms(2)] assms(1,2) by (simp add: room_def split_beta Let_def)

lemma room_own: "packet_key p = key \<Longrightarrow> room key (p # ps) r \<Longrightarrow> map_of (fr_groups r) key = None \<longrightarrow> length (fr_groups r) < fr_max_groups r"
  by (simp add: room_def)

lemma add_all_holds:
  assumes "holds frame c key seen r" "add_all ps r = (xs, r')" "room key (ps @ rest) r"
    "\<forall>p \<in> set ps. packet_key p = key \<longrightarrow> fragment_of frame c p \<and> fp_total p = n" "seen \<union> own_indices key ps \<subset> {0..<n}"
  shows "holds frame c key (seen \<union> own_indices key ps) r' \<and> room key rest r' \<and> length xs = length ps \<and>
    (\<forall>i < length ps. packet_key (ps ! i) = key \<longrightarrow> xs ! i = Inr None)"
  using assms
proof (induction ps arbitrary: r seen xs)
  case (Cons p ps)
  obtain x r1 where x: "reassembler_add p r = (x, r1)" by fastforce
  obtain xs1 where xs: "add_all ps r1 = (xs1, r')" "xs = x # xs1" using Cons.prems(2) x by (auto split: prod.splits)
  have frags: "\<forall>q \<in> set ps. packet_key q = key \<longrightarrow> fragment_of frame c q \<and> fp_total q = n" using Cons.prems(4) by simp
  show ?case
  proof (cases "packet_key p = key")
    case False
    have h: "holds frame c key seen r1" using Cons.prems(1) add_other [OF False x] by (simp add: holds_def)
    have rm: "room key (ps @ rest) r1" using room_other [OF False x] Cons.prems(3) by simp
    have own: "own_indices key (p # ps) = own_indices key ps" using False by auto
    have "seen \<union> own_indices key ps \<subset> {0..<n}" using Cons.prems(5) unfolding own .
    note IH = Cons.IH [OF h xs(1) rm frags this]
    have "xs ! i = Inr None" if i: "i < length (p # ps)" "packet_key ((p # ps) ! i) = key" for i
    proof (cases i)
      case (Suc j)
      then show ?thesis using IH i xs(2) by simp
    qed (use i False in simp)
    with IH xs(2) show ?thesis unfolding own by simp
  next
    case True
    let ?s = "insert (fp_index p) seen"
    have f: "fragment_of frame c p" "fp_total p = n" using Cons.prems(4) True by simp_all
    have free: "map_of (fr_groups r) key = None \<longrightarrow> length (fr_groups r) < fr_max_groups r"
      using room_own [OF True] Cons.prems(3) by simp
    have sub: "?s \<union> own_indices key ps = seen \<union> own_indices key (p # ps)" using True by auto
    have s: "?s \<union> own_indices key ps \<subset> {0..<n}" unfolding sub by (rule Cons.prems(5))
    then have lt: "seen \<subset> {0..<fp_total p}" "?s \<noteq> {0..<fp_total p}" unfolding f(2) by blast+
    obtain r2 where r2: "reassembler_add p r = (Inr None, r2)" "holds frame c key ?s r2" "map_of (fr_groups r2) key \<noteq> None"
      using add_own [OF Cons.prems(1) f(1) True free lt(1), unfolded if_not_P [OF lt(2)]] by blast
    then have "r2 = r1" "x = Inr None" using x by simp_all
    note 1 = this(2) r2(2,3) [unfolded this(1)]
    have rm: "room key (ps @ rest) r1" using 1(3) unfolding room_def by blast
    note IH = Cons.IH [OF 1(2) xs(1) rm frags s]
    have "xs ! i = Inr None" if i: "i < length (p # ps)" "packet_key ((p # ps) ! i) = key" for i
    proof (cases i)
      case (Suc j)
      then show ?thesis using IH i xs(2) by simp
    qed (use 1(1) xs(2) in simp)
    with IH xs(2) show ?thesis unfolding sub [symmetric] by simp
  qed
qed simp

lemma add_all_snoc:
  "add_all (qs @ [q]) s = (fst (add_all qs s) @ [fst (reassembler_add q (snd (add_all qs s)))], snd (reassembler_add q (snd (add_all qs s))))"
  by (induction qs arbitrary: s) (simp_all add: split_beta Let_def)

text \<open>
  C38. A frame that was cut into at most 127 equal chunks, the last of which may be shorter, comes
  back whole. Whatever the order in which its fragments arrive, however often each is
  repeated, and whatever fragments of other frames, good or bad, arrive in between: when a
  group is free at the moment its first fragment arrives, every fragment of it is accepted,
  the one that completes the set is answered with exactly the frame, no earlier one is, and
  its group is free again.
\<close>
theorem fragments_reassemble:
  assumes "map_of (fr_groups r) key = None" "room key (ps @ [p]) r"
    "\<forall>q \<in> set (ps @ [p]). packet_key q = key \<longrightarrow> fragment_of frame c q" "packet_key p = key"
    "own_indices key ps \<union> {fp_index p} = {0..<fp_total p}" "fp_index p \<notin> own_indices key ps"
  shows "\<exists>xs r'. add_all (ps @ [p]) r = (xs @ [Inr (Some frame)], r') \<and> length xs = length ps \<and>
    (\<forall>i < length ps. packet_key (ps ! i) = key \<longrightarrow> xs ! i = Inr None) \<and> map_of (fr_groups r') key = None"
proof -
  obtain xs r1 where r1: "add_all ps r = (xs, r1)" by fastforce
  have total: "fp_total q = fp_total p" if "packet_key q = key" for q using that assms(4) by (auto simp: packet_key_def)
  have frags: "\<forall>q \<in> set ps. packet_key q = key \<longrightarrow> fragment_of frame c q \<and> fp_total q = fp_total p"
    using assms(3) total by simp
  have less: "{} \<union> own_indices key ps \<subset> {0..<fp_total p}" using assms(5,6) by blast
  have h: "holds frame c key {} r" using assms(1) by (simp add: holds_def)
  note k = add_all_holds [OF h r1 assms(2) frags less, unfolded Un_empty_left]
  have free: "map_of (fr_groups r1) key = None \<longrightarrow> length (fr_groups r1) < fr_max_groups r1" using k room_own [OF assms(4)] by blast
  have f: "fragment_of frame c p" using assms(3,4) by simp
  have full: "insert (fp_index p) (own_indices key ps) = {0..<fp_total p}" using assms(5) by blast
  have sub: "own_indices key ps \<subset> {0..<fp_total p}" using less by blast
  obtain r' where "reassembler_add p r1 = (Inr (Some frame), r')" "map_of (fr_groups r') key = None"
    using add_own [OF conjunct1 [OF k] f assms(4) free sub] full by auto
  with k r1 show ?thesis by (intro exI [of _ xs] exI [of _ r']) (simp add: add_all_snoc)
qed

section \<open>What the receive path keeps\<close>

definition key_total :: "fragment_key \<Rightarrow> nat" where
  "key_total key = fst (snd (snd (snd key)))"

definition group_ok :: "fragment_key \<Rightarrow> (nat, bytes) dict \<Rightarrow> bool" where
  "group_ok key parts \<longleftrightarrow> key_total key \<le> 127 \<and> distinct (map fst parts) \<and> length parts < key_total key \<and>
     (\<forall>(i, part) \<in> set parts. i < key_total key \<and> length part \<le> 4072)"

definition groups_ok :: "reassembler \<Rightarrow> bool" where
  "groups_ok r \<longleftrightarrow> length (fr_groups r) \<le> fr_max_groups r \<and> distinct (map fst (fr_groups r)) \<and> (\<forall>(key, parts) \<in> set (fr_groups r). group_ok key parts)"

lemma groups_ok_pop: "groups_ok r \<Longrightarrow> groups_ok (r\<lparr>fr_groups := dict_pop key (fr_groups r)\<rparr>)"
  using length_dict_pop_le [of key "fr_groups r"] by (auto simp: groups_ok_def distinct_dict_pop set_dict_pop)

lemma dict_set_twice: "dict_set k v (dict_set k w d) = dict_set k v d"
  by (induction k w d rule: dict_set.induct) auto

lemma dict_pop_set: "dict_pop k (dict_set k v d) = dict_pop k d"
  by (induction k v d rule: dict_set.induct) (auto simp: dict_pop_def)

lemma add_groups_ok:
  assumes ok: "groups_ok r" and small: "length (fp_payload p) \<le> 4072" and a: "reassembler_add p r = (res, r')"
  shows "groups_ok r' \<and> fr_max_groups r' = fr_max_groups r"
proof -
  define key where "key = packet_key p"
  define groups where "groups = (if map_of (fr_groups r) key = None then dict_set key [] (fr_groups r) else fr_groups r)"
  define parts where "parts = (case map_of groups key of None \<Rightarrow> [] | Some parts \<Rightarrow> parts)"
  let ?ps = "dict_set (fp_index p) (fp_payload p) parts"
  have pop: "dict_pop key groups = dict_pop key (fr_groups r)" by (simp add: groups_def dict_pop_set)
  have set: "dict_set key x groups = dict_set key x (fr_groups r)" for x
    by (simp add: groups_def dict_set_twice)
  consider "r' = r" | "r' = r\<lparr>fr_groups := dict_pop key (fr_groups r)\<rparr>"
    | "r' = r\<lparr>fr_groups := dict_set key ?ps (fr_groups r)\<rparr>" "1 \<le> fp_total p" "fp_total p \<le> 127" "fp_index p < fp_total p"
      "map_of (fr_groups r) key \<noteq> None \<or> length (fr_groups r) < fr_max_groups r" "length ?ps \<noteq> fp_total p"
    using a unfolding reassembler_add_def Let_def key_def [symmetric] groups_def [symmetric] parts_def [symmetric]
    by (auto simp: pop set dict_pop_set split: if_splits)
  then show ?thesis
  proof cases
    case 3
    have total: "key_total key = fp_total p" by (simp add: key_def packet_key_def key_total_def)
    have old: "distinct (map fst parts) \<and> length parts < fp_total p \<and> (\<forall>(i, part) \<in> set parts. i < fp_total p \<and> length part \<le> 4072)"
    proof (cases "map_of (fr_groups r) key")
      case None
      then have "parts = []" by (simp add: parts_def groups_def)
      then show ?thesis using 3(2) by simp
    next
      case (Some x)
      then have "group_ok key x" "parts = x" using ok map_of_SomeD [OF Some] by (auto simp: groups_ok_def parts_def groups_def)
      then show ?thesis using total by (simp add: group_ok_def)
    qed
    have "(i, part) \<in> set ?ps \<Longrightarrow> i < fp_total p \<and> length part \<le> 4072" for i part
      using old 3(4) small by (auto simp: set_dict_set split: if_splits)
    moreover have "length ?ps < fp_total p" using old 3(6) by (auto simp: length_dict_set split: if_splits)
    ultimately have "group_ok key ?ps" using old total 3(3) by (auto simp: group_ok_def)
    moreover have "length (dict_set key ?ps (fr_groups r)) \<le> fr_max_groups r"
      using ok 3(5) by (auto simp: groups_ok_def length_dict_set map_of_None_keys)
    ultimately have "groups_ok r'" unfolding 3(1) using ok by (auto simp: groups_ok_def set_dict_set split: if_splits)
    then show ?thesis by (simp add: 3(1))
  qed (use ok groups_ok_pop in auto)
qed

text \<open>The receive path of one owner: each datagram with its peer, header mask and clock readings.\<close>

fun receive_all ::
  "(bytes \<Rightarrow> exn + unit) option \<Rightarrow> (bytes \<times> (string \<times> int) \<times> int \<times> time \<times> time) list \<Rightarrow> broker_maintenance \<Rightarrow> broker_maintenance"
where
  "receive_all inspect [] m = m"
| "receive_all inspect ((wire, peer, msk, now, charged_at) # rest) m =
     receive_all inspect rest (snd (maintenance_receive inspect wire peer msk now charged_at m))"

lemma message_fragments:
  assumes "maintain_message inspect node wire replies m = (res, m')"
  shows "mn_fragments m' = mn_fragments m" "mn_closed m' = mn_closed m"
  using assms by (auto simp: maintain_message_def Let_def split: if_splits option.splits sum.splits)

lemma decoded_payload:
  assumes "decode_fragment_packet wire = Inr p"
  shows "length (fp_payload p) = length wire - 24"
proof -
  obtain c f where f: "fold (unmask_field (u16_at wire 0x14)) header_offsets (u16_at wire 0x14, wire) = (c, f)" by fastforce
  have "24 \<le> length wire" using assms by (auto simp: decode_fragment_packet_def split: if_splits)
  moreover have "u16_at wire 0x14 < 65536" using le_val_slice_bound [of "256 ^ 2" "20 + 2" 20 wire] by simp
  ultimately have "length f = length wire" using field_loop_outside(1) f by blast
  moreover have "fp_payload p = drop 24 f" using assms f by (auto simp: decode_fragment_packet_def Let_def split: if_splits)
  ultimately show ?thesis by simp
qed

lemma datagram_groups_ok:
  assumes "groups_ok (mn_fragments m)" "maintain_datagram inspect wire peer msk now charged_at m = (res, m')"
  shows "groups_ok (mn_fragments m') \<and> fr_max_groups (mn_fragments m') = fr_max_groups (mn_fragments m)"
proof (cases "\<exists>p. decode_fragment_packet wire = Inr p \<and> length wire \<le> 4096")
  case True
  then obtain p where p: "decode_fragment_packet wire = Inr p" "length wire \<le> 4096" by blast
  obtain x r where x: "reassembler_add p (mn_fragments m) = (x, r)" by fastforce
  have "groups_ok r \<and> fr_max_groups r = fr_max_groups (mn_fragments m)"
    by (rule add_groups_ok [OF assms(1) _ x]) (use decoded_payload [OF p(1)] p(2) in simp)
  then show ?thesis using assms p x message_fragments(1)
    by (auto simp: maintain_datagram_def Let_def split: if_splits option.splits sum.splits prod.splits)
next
  case False
  then show ?thesis using assms message_fragments(1)
    by (auto simp: maintain_datagram_def Let_def split: if_splits option.splits sum.splits prod.splits)
qed

lemma receive_groups_ok:
  assumes "groups_ok (mn_fragments m)" "fr_max_groups (mn_fragments m) = 2"
  shows "groups_ok (mn_fragments (snd (maintenance_receive inspect wire peer msk now charged_at m))) \<and>
    fr_max_groups (mn_fragments (snd (maintenance_receive inspect wire peer msk now charged_at m))) = 2"
proof -
  obtain res m' where d: "maintain_datagram inspect wire peer msk now charged_at m = (res, m')" by fastforce
  from datagram_groups_ok [OF assms(1) d] assms d show ?thesis
    by (auto simp: maintenance_receive_def maintenance_close_def groups_ok_def split: sum.splits)
qed

text \<open>
  C40. Whatever arrives, a receive path keeps at most two incomplete frames, of at most 126
  fragments each, and no fragment above 4072 bytes.
\<close>
theorem maintenance_bounded:
  assumes "maintenance_init node profile acknowledge clock = Inr m0 \<or> account_check node acknowledge policy clock = Inr m0"
    "(key, parts) \<in> set (fr_groups (mn_fragments (receive_all inspect datagrams m0)))"
  shows "length (fr_groups (mn_fragments (receive_all inspect datagrams m0))) \<le> 2 \<and> length parts \<le> 126 \<and> (\<forall>(i, part) \<in> set parts. length part \<le> 4072)"
proof -
  have "groups_ok (mn_fragments m0) \<and> fr_max_groups (mn_fragments m0) = 2"
    using assms(1) by (auto simp: maintenance_init_def account_check_def reassembler_init_def bind_res_Inr groups_ok_def)
  then have "groups_ok (mn_fragments (receive_all inspect datagrams m0)) \<and> fr_max_groups (mn_fragments (receive_all inspect datagrams m0)) = 2"
    by (induction inspect datagrams m0 rule: receive_all.induct) (use receive_groups_ok in auto)
  with assms(2) show ?thesis by (fastforce simp: groups_ok_def group_ok_def)
qed

text \<open>
  The two groups are never given back while the owner runs: once two frames are incomplete, the
  first fragment of a third one from the broker ends the receive path, whatever the policy and
  however much time has passed, and everything received afterwards is refused.
\<close>
theorem third_frame_ends_maintenance:
  assumes "\<not> mn_closed m" "mn_node m = Some node" "length (fr_groups (mn_fragments m)) = 2" "fr_max_groups (mn_fragments m) = 2"
    "decode_fragment_packet wire = Inr p" "map_of (fr_groups (mn_fragments m)) (packet_key p) = None"
    "maintenance_receive inspect wire (cn_address node) msk now charged_at m = (res, m')"
  shows "(\<exists>e. res = Inl e \<and> is_value_error e) \<and> mn_closed m' \<and>
    maintenance_receive inspect wire' peer msk' now' charged_at' m' = (Inl (ValueError ''broker maintenance is closed''), m')"
proof -
  have add: "\<exists>t. reassembler_add p (mn_fragments m) = (Inl (ValueError t), mn_fragments m)"
    using assms(3,4,6) by (auto simp: reassembler_add_def Let_def)
  have two: "take 2 wire = [0x70, 0x01]" using assms(5) by (auto simp: decode_fragment_packet_def split: if_splits)
  have "\<exists>e m1. maintain_datagram inspect wire (cn_address node) msk now charged_at m = (Inl e, m1) \<and> is_value_error e"
  proof (cases "(case mn_deadline m of None \<Rightarrow> False | Some deadline \<Rightarrow> now \<ge> deadline) \<or> length wire > 4096")
    case True
    then show ?thesis by (auto simp: maintain_datagram_def Let_def split: option.splits)
  next
    case False
    obtain c input where c: "traffic_charge (int (length wire)) 0 charged_at (mn_input m) = (c, input)" by fastforce
    show ?thesis
    proof (cases c)
      case (Inl e)
      then have "is_value_error e" using c by (auto simp: traffic_charge_def traffic_available_def Let_def split: if_splits)
      then show ?thesis using False c Inl by (auto simp: maintain_datagram_def Let_def split: option.splits)
    next
      case (Inr u)
      then show ?thesis using False c assms(2,5) add two by (auto simp: maintain_datagram_def Let_def split: option.splits)
    qed
  qed
  then have "\<exists>e. res = Inl e \<and> is_value_error e \<and> mn_closed m'"
    using assms(1,7) by (auto simp: maintenance_receive_def maintenance_close_def)
  then show ?thesis by (auto simp: maintenance_receive_def)
qed

definition demo_header :: bytes where
  "demo_header = [0x70, 1, 26, 0] @ replicate 12 0 @ [4, 0, 2, 0, 0, 0, 0, 0]"

definition demo_fragment :: bytes where
  "demo_fragment = [0x70, 1, 26, 0] @ replicate 12 0 @ [4, 0, 2, 0, 0, 0, 6, 0, 7, 7]"

definition demo_packet :: fragment_packet where
  "demo_packet = \<lparr>fp_decoded_header = take 24 demo_fragment, fp_identity = 0, fp_sequence = 0, fp_original_length = 4, fp_total = 2, fp_index = 0,
     fp_large_payload = False, fp_payload = [7, 7]\<rparr>"

theorem fragment_roundtrip_witness:
  "\<exists>header p. encode_fragment_header demo_header 4660 = Inr header \<and> decode_fragment_packet (header @ [7, 7]) = Inr p \<and>
     fp_original_length p = 4 \<and> fp_total p = 2 \<and> fp_payload p = [7, 7]"
proof -
  have d: "length demo_header = 24" "take 2 demo_header = [0x70, 1]" "u16_at demo_header 2 = 24 + length [7, 7 :: byte]"
    "u16_at demo_header 16 = 4" "demo_header ! 18 = 2" "demo_header ! 0 = 0x70"
    by (simp_all add: demo_header_def pyslice_def nth_append)
  obtain header where h: "encode_fragment_header demo_header 4660 = Inr header"
    using encode_header_ok [of demo_header 4660] d by auto
  from fragment_roundtrip [OF d(1,2,3) h] d h show ?thesis by auto
qed

theorem fragments_reassemble_witness:
  "\<exists>xs r'. add_all ([demo_packet\<lparr>fp_index := 1, fp_payload := [3], fp_original_length := 3\<rparr>, demo_packet,
         demo_packet\<lparr>fp_index := 1, fp_payload := [3], fp_original_length := 3\<rparr>] @ [demo_packet\<lparr>fp_original_length := 3\<rparr>])
       \<lparr>fr_max_groups = 2, fr_groups = []\<rparr> = (xs @ [Inr (Some [7, 7, 3])], r')"
proof -
  let ?q = "demo_packet\<lparr>fp_index := 1, fp_payload := [3], fp_original_length := 3\<rparr>" and ?p = "demo_packet\<lparr>fp_original_length := 3\<rparr>"
  let ?r = "\<lparr>fr_max_groups = 2, fr_groups = []\<rparr>"
  have key: "packet_key ?q = packet_key ?p" "packet_key demo_packet \<noteq> packet_key ?p" by (simp_all add: packet_key_def demo_packet_def)
  have frag: "fragment_of [7, 7, 3] 2 ?q" "fragment_of [7, 7, 3] 2 ?p"
    by (simp_all add: fragment_of_def demo_packet_def chunk_def pyslice_def)
  have room: "room (packet_key ?p) ([?q, demo_packet, ?q] @ [?p]) ?r" using key(1) by (simp add: room_def)
  have "{p \<in> set [?q, demo_packet, ?q]. packet_key p = packet_key ?p} = {?q}" using key by auto
  then have own: "own_indices (packet_key ?p) [?q, demo_packet, ?q] = {1}" by simp
  have idx: "{0..<fp_total ?p} = {0, 1}" "fp_index ?p = 0" by (auto simp: demo_packet_def)
  have "\<forall>q \<in> set ([?q, demo_packet, ?q] @ [?p]). packet_key q = packet_key ?p \<longrightarrow> fragment_of [7, 7, 3] 2 q" using key frag by auto
  from fragments_reassemble [OF _ room this refl] own idx show ?thesis by auto
qed

lemma demo_decode: "decode_fragment_packet demo_fragment = Inr demo_packet"
  by code_simp

abbreviation demo_traffic :: traffic_budget where
  "demo_traffic \<equiv> \<lparr>tb_max_packets = 512, tb_max_octets = 1024 * 1024, tb_packets = 512, tb_octets = 1024 * 1024, tb_policy = FINITE,
     tb_cleanup_reserves = 24, tb_last = 0\<rparr>"

definition demo_maintenance :: broker_maintenance where
  "demo_maintenance = \<lparr>mn_acknowledge_messages = True, mn_node = Some demo_node, mn_deadline = Some 15, mn_fragments = \<lparr>fr_max_groups = 2, fr_groups = []\<rparr>,
     mn_closed = False, mn_datagrams = 0, mn_received_bytes = 0, mn_messages = 0, mn_acknowledgements = 0, mn_input = demo_traffic\<rparr>"

theorem maintenance_bounded_witness:
  "maintenance_init demo_node SHORT True (\<lambda>_. 0) = Inr demo_maintenance \<and>
   (\<exists>parts. (packet_key demo_packet, parts) \<in> set (fr_groups (mn_fragments (receive_all None [(demo_fragment, cn_address demo_node, 0, 1, 1)] demo_maintenance))) \<and>
     length parts \<le> 126)"
proof -
  have i: "maintenance_init demo_node SHORT True (\<lambda>_. 0) = Inr demo_maintenance"
    by (simp add: maintenance_init_def reassembler_init_def traffic_init_def validate_media_capacity_def demo_maintenance_def)
  have "\<exists>ack. build_fragment_ack demo_packet 0 = Inr ack"
    unfolding build_fragment_ack_def by (rule encode_header_ok) (simp_all add: demo_packet_def demo_fragment_def nth_put)
  then obtain ack where ack: "build_fragment_ack demo_packet 0 = Inr ack" by blast
  have pre: "take 2 demo_fragment = [0x70, 1]" "length demo_fragment = 26" by (simp_all add: demo_fragment_def)
  have add: "reassembler_add demo_packet \<lparr>fr_max_groups = 2, fr_groups = []\<rparr> = (Inr None, \<lparr>fr_max_groups = 2, fr_groups = [(packet_key demo_packet, [(0, [7, 7])])]\<rparr>)"
    by (simp add: reassembler_add_def packet_key_def demo_packet_def Let_def)
  have m: "(packet_key demo_packet, [(0, [7, 7])]) \<in>
      set (fr_groups (mn_fragments (receive_all None [(demo_fragment, cn_address demo_node, 0, 1, 1)] demo_maintenance)))"
    using ack pre add by (simp add: maintenance_receive_def maintain_datagram_def demo_maintenance_def demo_decode traffic_charge_def traffic_available_def Let_def)
  from maintenance_bounded [OF disjI1 [OF i] m] i m show ?thesis by blast
qed

theorem third_frame_ends_maintenance_witness:
  "let m = demo_maintenance\<lparr>mn_fragments := \<lparr>fr_max_groups = 2, fr_groups = [((1, 0, 4, 2, False), [(0, [1])]), ((2, 0, 4, 2, False), [(1, [1])])]\<rparr>\<rparr>;
       (res, m') = maintenance_receive None demo_fragment (cn_address demo_node) 0 1 1 m
   in mn_closed m' \<and> maintenance_receive None [] (cn_address demo_node) 0 2 2 m' = (Inl (ValueError ''broker maintenance is closed''), m')"
proof -
  let ?m = "demo_maintenance\<lparr>mn_fragments := \<lparr>fr_max_groups = 2, fr_groups = [((1, 0, 4, 2, False), [(0, [1])]), ((2, 0, 4, 2, False), [(1, [1])])]\<rparr>\<rparr>"
  obtain res m' where r: "maintenance_receive None demo_fragment (cn_address demo_node) 0 1 1 ?m = (res, m')" by fastforce
  have "mn_closed m' \<and> maintenance_receive None [] (cn_address demo_node) 0 2 2 m' = (Inl (ValueError ''broker maintenance is closed''), m')"
    using third_frame_ends_maintenance [OF _ _ _ _ demo_decode _ r] by (simp add: demo_maintenance_def packet_key_def demo_packet_def)
  with r show ?thesis by simp
qed

end
