(* ===== verification/Controls.thy ===== *)
theory Controls
  imports ModelSession
begin

text \<open>
  The typed camera controls: \<^verbatim>\<open>volume.py\<close>, \<^verbatim>\<open>orientation.py\<close>, \<^verbatim>\<open>night_vision.py\<close>, \<^verbatim>\<open>smart_protection.py\<close>,
  \<^verbatim>\<open>smart_protection_schedule.py\<close> and \<^verbatim>\<open>guard_plan.py\<close>. A control knows its property path, the values
  it accepts, how a value is read from a report, and how it is changed: a read first, one
  write, and up to five fresh reads until one shows the new value. The session is opened
  elsewhere; its outcome and the network of each exchange are arguments.
\<close>

section \<open>Values\<close>

definition VOLUME_READ_PATH :: string where "VOLUME_READ_PATH = ''ProWritable.volume''"
definition VOLUME_WRITE_PATH :: string where "VOLUME_WRITE_PATH = ''ProWritable.volume.setVal''"
definition VOLUME_RAW_BY_PERCENT :: "(int \<times> int) list" where
  "VOLUME_RAW_BY_PERCENT = [(0, 0), (25, 2), (50, 5), (75, 7), (100, 10)]"

definition build_volume_write :: "certified_node \<Rightarrow> int \<Rightarrow> int \<Rightarrow> int \<Rightarrow> int \<Rightarrow> nat \<Rightarrow> exn + bytes" where
  "build_volume_write node device_id volume_percent sequence message_id rand15 =
     (case map_of VOLUME_RAW_BY_PERCENT volume_percent of
        None \<Rightarrow> Inl (ValueError ''speaker volume must be 0, 25, 50, 75 or 100 percent'')
      | Some raw \<Rightarrow> build_model_write node device_id VOLUME_WRITE_PATH (SInt raw) sequence message_id rand15)"

definition extract_volume_raw :: "json \<Rightarrow> int option" where
  "extract_volume_raw value =
     (case obj_get value ''setVal'' of Some (JInt raw) \<Rightarrow> if 0 \<le> raw \<and> raw \<le> 10 then Some raw else None | _ \<Rightarrow> None)"

definition volume_percent :: "int \<Rightarrow> exn + int" where
  "volume_percent raw =
     (if \<not> (0 \<le> raw \<and> raw \<le> 10) then Inl (ValueError ''raw speaker volume must be between 0 and 10'')
      else if raw = 0 then Inr 0 else if raw \<le> 2 then Inr 25 else if raw \<le> 5 then Inr 50 else if raw \<le> 7 then Inr 75 else Inr 100)"

definition ORIENTATION_PATH :: string where "ORIENTATION_PATH = ''ProWritable.videoParm.setVal.multiFlip''"
definition ORIENTATION_READ_PATH :: string where "ORIENTATION_READ_PATH = ''ProWritable.videoParm''"
definition ORIENTATION_VALUES :: "(string \<times> int) list" where "ORIENTATION_VALUES = [(''normal'', 1), (''inverted'', 3)]"

definition build_orientation_write :: "certified_node \<Rightarrow> int \<Rightarrow> string \<Rightarrow> int \<Rightarrow> int \<Rightarrow> nat \<Rightarrow> exn + bytes" where
  "build_orientation_write node device_id orientation sequence message_id rand15 =
     (case map_of ORIENTATION_VALUES orientation of
        None \<Rightarrow> Inl (ValueError ''orientation must be normal or inverted'')
      | Some v \<Rightarrow> build_model_write node device_id ORIENTATION_PATH (SInt v) sequence message_id rand15)"

text \<open>\<^verbatim>\<open>value.get("setVal", value)\<close>, when both are objects; then one integer field.\<close>

definition set_field :: "string \<Rightarrow> json \<Rightarrow> int option" where
  "set_field name value =
     (if \<not> is_obj value then None
      else let fields = (case obj_get value ''setVal'' of None \<Rightarrow> value | Some v \<Rightarrow> v)
      in if \<not> is_obj fields then None else case obj_get fields name of Some (JInt i) \<Rightarrow> Some i | _ \<Rightarrow> None)"

definition extract_orientation :: "json \<Rightarrow> int option" where
  "extract_orientation value = (case set_field ''multiFlip'' value of
     Some state \<Rightarrow> if state \<in> snd ` set ORIENTATION_VALUES then Some state else None | None \<Rightarrow> None)"

definition NIGHT_VISION_READ_PATH :: string where "NIGHT_VISION_READ_PATH = ''ProWritable.videoParm''"
definition NIGHT_VISION_WRITE_PATH :: string where "NIGHT_VISION_WRITE_PATH = ''ProWritable.videoParm.setVal.nightViewMode''"
definition NIGHT_VISION_VALUES :: "(string \<times> int) list" where
  "NIGHT_VISION_VALUES = [(''automatic'', 0), (''daytime'', 1), (''night'', 2)]"

definition build_night_vision_write :: "certified_node \<Rightarrow> int \<Rightarrow> string \<Rightarrow> int \<Rightarrow> int \<Rightarrow> nat \<Rightarrow> exn + bytes" where
  "build_night_vision_write node device_id mode sequence message_id rand15 =
     (case map_of NIGHT_VISION_VALUES mode of
        None \<Rightarrow> Inl (ValueError ''night-vision mode must be automatic, daytime or night'')
      | Some v \<Rightarrow> build_model_write node device_id NIGHT_VISION_WRITE_PATH (SInt v) sequence message_id rand15)"

definition extract_night_vision_mode :: "json \<Rightarrow> int option" where
  "extract_night_vision_mode value = (case set_field ''nightViewMode'' value of
     Some mode \<Rightarrow> if mode \<in> snd ` set NIGHT_VISION_VALUES then Some mode else None | None \<Rightarrow> None)"

definition SMART_PROTECTION_READ_PATH :: string where "SMART_PROTECTION_READ_PATH = ''ProWritable.guardParm''"
definition SMART_PROTECTION_WRITE_PATH :: string where "SMART_PROTECTION_WRITE_PATH = ''ProWritable.guardParm.setVal.enable''"

definition extract_smart_protection_enabled :: "json \<Rightarrow> bool option" where
  "extract_smart_protection_enabled value = (case set_field ''enable'' value of
     Some direct \<Rightarrow> if direct \<in> {0, 1} then Some (direct \<noteq> 0) else None | None \<Rightarrow> None)"

definition build_smart_protection_write :: "certified_node \<Rightarrow> int \<Rightarrow> bool \<Rightarrow> int \<Rightarrow> int \<Rightarrow> nat \<Rightarrow> exn + bytes" where
  "build_smart_protection_write node device_id enabled sequence message_id rand15 =
     build_model_write node device_id SMART_PROTECTION_WRITE_PATH (SInt (if enabled then 1 else 0)) sequence message_id rand15"

section \<open>The weekly guard plan\<close>

definition WEEKDAYS :: "string list" where "WEEKDAYS = [''sun'', ''mon'', ''tue'', ''wed'', ''thu'', ''fri'', ''sat'']"

definition is_digit :: "nat \<Rightarrow> nat \<Rightarrow> char \<Rightarrow> bool" where
  "is_digit lo hi c \<longleftrightarrow> 48 + lo \<le> (of_char c :: nat) \<and> (of_char c :: nat) \<le> 48 + hi"

definition clock_ok :: "string \<Rightarrow> bool" where
  "clock_ok s \<longleftrightarrow> (case s of
     [a, b, colon, c, d] \<Rightarrow> ((is_digit 0 1 a \<and> is_digit 0 9 b) \<or> (is_digit 2 2 a \<and> is_digit 0 3 b)) \<and> colon = CHR 0x3A \<and>
       is_digit 0 5 c \<and> is_digit 0 9 d
   | _ \<Rightarrow> False)"

record weekly_schedule =
  ws_start :: string
  ws_end :: string
  ws_weekdays :: "string list"

definition schedule_init :: "string \<Rightarrow> string \<Rightarrow> string list \<Rightarrow> exn + weekly_schedule" where
  "schedule_init start end_at weekdays =
     (if \<not> clock_ok start \<or> \<not> clock_ok end_at then Inl (ValueError ''weekly-schedule times must use 24-hour HH:MM'')
      else if weekdays = [] \<or> \<not> distinct weekdays then Inl (ValueError ''weekly schedule must contain unique active weekdays'')
      else if \<exists>day \<in> set weekdays. day \<notin> set WEEKDAYS then Inl (ValueError ''weekly schedule contains an unknown weekday'')
      else Inr \<lparr>ws_start = start, ws_end = end_at, ws_weekdays = weekdays\<rparr>)"

definition WEEKDAY_BITS :: "(string \<times> int) list" where
  "WEEKDAY_BITS = [(''sun'', 1), (''mon'', 2), (''tue'', 4), (''wed'', 8), (''thu'', 16), (''fri'', 32), (''sat'', 64)]"

definition pad2 :: "nat \<Rightarrow> string" where
  "pad2 n = (if n < 10 then ''0'' @ show_nat n else show_nat n)"

definition plan_clock :: "json \<Rightarrow> string option" where
  "plan_clock value =
     (if \<not> is_obj value then None
      else case (obj_get value ''hour'', obj_get value ''min'') of
        (Some (JInt hour), Some (JInt minute)) \<Rightarrow>
          if \<not> (0 \<le> hour \<and> hour \<le> 23) \<or> \<not> (0 \<le> minute \<and> minute \<le> 59) then None
          else Some (pad2 (nat hour) @ '':'' @ pad2 (nat minute))
      | _ \<Rightarrow> None)"

definition field :: "json \<Rightarrow> string \<Rightarrow> json" where
  "field value key = (case obj_get value key of None \<Rightarrow> JNull | Some v \<Rightarrow> v)"

definition parse_guard_plan :: "json \<Rightarrow> weekly_schedule option" where
  "parse_guard_plan value =
     (if \<not> is_obj value then None
      else case (plan_clock (field value ''start''), plan_clock (field value ''end''), field value ''weekdayEn'') of
        (Some start, Some end_at, JInt bits) \<Rightarrow>
          if \<not> (1 \<le> bits \<and> bits \<le> 0x7F) then None
          else Some \<lparr>ws_start = start, ws_end = end_at, ws_weekdays = map fst (filter (\<lambda>(day, b). bits AND b \<noteq> 0) WEEKDAY_BITS)\<rparr>
      | _ \<Rightarrow> None)"

text \<open>\<^verbatim>\<open>int(text)\<close> of a validated clock part, and the object the camera stores.\<close>

fun digits_value :: "nat \<Rightarrow> string \<Rightarrow> nat" where
  "digits_value acc [] = acc"
| "digits_value acc (c # cs) = digits_value (10 * acc + (of_char c - 48)) cs"

definition native_clock :: "string \<Rightarrow> json" where
  "native_clock value =
     (let hour = takeWhile (\<lambda>c. c \<noteq> CHR 0x3A) value; minute = drop 1 (dropWhile (\<lambda>c. c \<noteq> CHR 0x3A) value)
      in JObj [(''hour'', JInt (int (digits_value 0 hour))), (''min'', JInt (int (digits_value 0 minute)))])"

fun weekday_mask :: "string list \<Rightarrow> int \<Rightarrow> exn + int" where
  "weekday_mask [] bits = Inr bits"
| "weekday_mask (day # days) bits =
     (case map_of WEEKDAY_BITS day of None \<Rightarrow> Inl (KeyError day) | Some b \<Rightarrow> weekday_mask days (bits OR b))"

definition native_smart_protection_schedule :: "weekly_schedule \<Rightarrow> exn + json" where
  "native_smart_protection_schedule schedule =
     bind_res (weekday_mask (ws_weekdays schedule) 0) (\<lambda>bits.
       Inr (JObj [(''start'', native_clock (ws_start schedule)), (''end'', native_clock (ws_end schedule)), (''weekdayEn'', JInt bits)]))"

lemma obj_get_nodes: "obj_get value key = Some v \<Longrightarrow> nodes v < nodes value"
proof (cases "value")
  case (JObj ps)
  assume "obj_get value key = Some v"
  then have "(key, v) \<in> set ps" using JObj by (auto dest: map_of_SomeD)
  then have "nodes v \<in> set (map (\<lambda>p. nodes (snd p)) ps)" by force
  then have "nodes v \<le> (\<Sum>p\<leftarrow>ps. nodes (snd p))" by (rule member_le_sum_list) simp
  then show ?thesis using JObj by simp
qed simp_all

text \<open>The nested search of a report; every call is on a part of the value.\<close>

function extract_smart_protection_schedule :: "json \<Rightarrow> weekly_schedule option" where
  "extract_smart_protection_schedule value =
     (if \<not> is_obj value then None
      else if obj_get value ''start'' \<noteq> None \<and> obj_get value ''end'' \<noteq> None \<and> obj_get value ''weekdayEn'' \<noteq> None
      then parse_guard_plan value
      else let try = (\<lambda>key. case obj_get value key of None \<Rightarrow> None | Some v \<Rightarrow> extract_smart_protection_schedule v)
      in case try ''plan'' of Some s \<Rightarrow> Some s | None \<Rightarrow>
         case try ''setVal'' of Some s \<Rightarrow> Some s | None \<Rightarrow>
         case try ''guardParm'' of Some s \<Rightarrow> Some s | None \<Rightarrow> try ''ProWritable'')"
  by pat_completeness auto

termination
  by (relation "measure nodes") (auto dest: obj_get_nodes)

declare extract_smart_protection_schedule.simps [simp del]

text \<open>\<^verbatim>\<open>json.dumps\<close> with compact separators, on what the controls encode.\<close>

fun json_text :: "json \<Rightarrow> string" and json_members :: "(string \<times> json) list \<Rightarrow> string" where
  "json_text (JInt i) = show_int i"
| "json_text (JStr s) = json_dumps (SStr s)"
| "json_text (JObj ps) = ''{'' @ json_members ps @ ''}''"
| "json_members [] = ''''"
| "json_members [(k, v)] = json_dumps (SStr k) @ '':'' @ json_text v"
| "json_members ((k, v) # p # ps) = json_dumps (SStr k) @ '':'' @ json_text v @ '','' @ json_members (p # ps)"

definition SMART_PROTECTION_SCHEDULE_READ_PATH :: string where "SMART_PROTECTION_SCHEDULE_READ_PATH = ''ProWritable.guardParm''"
definition SMART_PROTECTION_SCHEDULE_WRITE_PATH :: string where
  "SMART_PROTECTION_SCHEDULE_WRITE_PATH = ''ProWritable.guardParm.setVal.plan''"

definition build_smart_protection_schedule_write ::
  "certified_node \<Rightarrow> int \<Rightarrow> weekly_schedule \<Rightarrow> int \<Rightarrow> int \<Rightarrow> nat \<Rightarrow> exn + bytes"
where
  "build_smart_protection_schedule_write node device_id schedule sequence message_id rand15 =
     bind_res (native_smart_protection_schedule schedule) (\<lambda>plan.
       write_frame node device_id SMART_PROTECTION_SCHEDULE_WRITE_PATH (json_text plan) sequence message_id rand15)"

text \<open>\<^verbatim>\<open>shared_guard.py\<close> puts the days of a request in the order of the mask first.\<close>

definition canonical_schedule :: "weekly_schedule \<Rightarrow> exn + weekly_schedule" where
  "canonical_schedule schedule =
     schedule_init (ws_start schedule) (ws_end schedule) (filter (\<lambda>day. day \<in> set (ws_weekdays schedule)) (map fst WEEKDAY_BITS))"

section \<open>Changing a control\<close>

record change_text =
  ct_mismatch :: string
  ct_state :: string
  ct_rejected :: string
  ct_unconfirmed :: string
  ct_failed :: string

text \<open>Errors of the operating system and of values become the control's own error.\<close>

definition sanitized :: "string \<Rightarrow> exn + 'a \<Rightarrow> exn + 'a" where
  "sanitized text r = (case r of
     Inl e \<Rightarrow> if is_value_error e \<or> (\<exists>m. e = OSError m) then Inl (P2PProbeError text) else Inl e
   | Inr x \<Rightarrow> Inr x)"

fun readback ::
  "(int \<Rightarrow> exchange \<Rightarrow> exn + bytes list \<times> model_read_result) \<Rightarrow> (model_read_result \<Rightarrow> bool) \<Rightarrow> int \<Rightarrow> exchange list \<Rightarrow> exn + bool"
where
  "readback read confirmed sequence [] = Inr False"
| "readback read confirmed sequence (x # xs) =
     bind_res (read (sequence mod 2 ^ 32) x) (\<lambda>(out, r). if confirmed r then Inr True else readback read confirmed (sequence + 1) xs)"

datatype 'v change = Unchanged 'v | Changed 'v model_write_result

text \<open>
  \<open>back\<close> are the readbacks that were made: the first always, each later one if the deadline
  had not passed before it.
\<close>

definition change_control ::
  "change_text \<Rightarrow> (bytes \<Rightarrow> string option) \<Rightarrow> json_decoder \<Rightarrow> string \<Rightarrow> (json \<Rightarrow> 'v option) \<Rightarrow> ('v \<Rightarrow> bool) \<Rightarrow> ('v \<Rightarrow> bool) \<Rightarrow>
   (certified_node \<Rightarrow> int \<Rightarrow> int \<Rightarrow> int \<Rightarrow> nat \<Rightarrow> exn + bytes) \<Rightarrow> string \<Rightarrow> exn + certified_node \<times> online_device \<times> int \<Rightarrow>
   exchange \<Rightarrow> exchange \<Rightarrow> exchange list \<Rightarrow> exn + 'v change"
where
  "change_control text decode json_loads path extract already confirmed build device_id opened pre wr back =
     sanitized (ct_failed text) (bind_res opened (\<lambda>(node, target, sequence).
       if show_nat (od_device_id target) \<noteq> device_id then Inl (P2PProbeError (ct_mismatch text))
       else let target_id = int (od_device_id target)
       in bind_res (exchange_model_read decode json_loads node target_id path sequence 3 True pre) (\<lambda>(out, preflight).
         case extract (mr_value preflight) of
           None \<Rightarrow> Inl (P2PProbeError (ct_state text))
         | Some previous \<Rightarrow>
             if mr_error_code preflight \<noteq> Some 0 then Inl (P2PProbeError (ct_state text))
             else if already previous then Inr (Unchanged previous)
             else bind_res (build node target_id ((sequence + 1) mod 2 ^ 32) (xe_message wr) (xe_flags wr)) (\<lambda>request.
               bind_res (exchange_model_write_request node request (xe_message wr) 3 (xe_attempts wr)) (\<lambda>(out, written).
                 if mw_error_code written \<noteq> Some 0 then Inl (P2PProbeError (ct_rejected text))
                 else bind_res (readback (\<lambda>s. exchange_model_read decode json_loads node target_id path s 1 True)
                                  (\<lambda>r. mr_error_code r = Some 0 \<and> (case extract (mr_value r) of None \<Rightarrow> False | Some v \<Rightarrow> confirmed v))
                                  (sequence + 2) (take 5 back)) (\<lambda>verified.
                   if verified then Inr (Changed previous written) else Inl (P2PProbeError (ct_unconfirmed text))))))))"


text \<open>What a change returns to its caller: \<open>'p\<close> describes a value as the result shows it.\<close>

record ('v, 'p) control_write =
  kw_device_id :: string
  kw_value :: 'v
  kw_previous :: 'p
  kw_requested :: 'p
  kw_changed :: bool
  kw_transport_acknowledged :: bool
  kw_error_code :: "nat option"
  kw_verified :: bool

definition write_result :: "string \<Rightarrow> 'v \<Rightarrow> ('r \<Rightarrow> 'p) \<Rightarrow> 'p \<Rightarrow> 'r change \<Rightarrow> ('v, 'p) control_write" where
  "write_result device_id v shown requested c = (case c of
     Unchanged previous \<Rightarrow>
       \<lparr>kw_device_id = device_id, kw_value = v, kw_previous = shown previous, kw_requested = requested, kw_changed = False,
        kw_transport_acknowledged = False, kw_error_code = Some 0, kw_verified = True\<rparr>
   | Changed previous written \<Rightarrow>
       \<lparr>kw_device_id = device_id, kw_value = v, kw_previous = shown previous, kw_requested = requested, kw_changed = True,
        kw_transport_acknowledged = mw_transport_acknowledged written, kw_error_code = mw_error_code written, kw_verified = True\<rparr>)"

definition volume_shown :: "int \<Rightarrow> (exn + int) \<times> int" where
  "volume_shown raw = (volume_percent raw, raw)"

definition set_camera_speaker_volume ::
  "(bytes \<Rightarrow> string option) \<Rightarrow> json_decoder \<Rightarrow> string \<Rightarrow> int \<Rightarrow> exn + certified_node \<times> online_device \<times> int \<Rightarrow> exchange \<Rightarrow> exchange \<Rightarrow>
   exchange list \<Rightarrow> exn + (int, (exn + int) \<times> int) control_write"
where
  "set_camera_speaker_volume decode json_loads device_id volume opened pre wr back =
     (case map_of VOLUME_RAW_BY_PERCENT volume of
        None \<Rightarrow> Inl (ValueError ''speaker volume must be 0, 25, 50, 75 or 100 percent'')
      | Some requested_raw \<Rightarrow>
          bind_res (change_control
              \<lparr>ct_mismatch = ''speaker-volume session device identity mismatch'',
               ct_state = ''speaker-volume preflight returned no supported state'',
               ct_rejected = ''camera rejected the speaker-volume change'',
               ct_unconfirmed = ''camera did not confirm the speaker-volume change'', ct_failed = ''P2P speaker-volume change failed''\<rparr>
              decode json_loads VOLUME_READ_PATH extract_volume_raw (\<lambda>raw. volume_percent raw = Inr volume) (\<lambda>raw. raw = requested_raw)
              (\<lambda>node dev. build_volume_write node dev volume) device_id opened pre wr back) (\<lambda>c.
            Inr (write_result device_id volume volume_shown (Inr volume, requested_raw) c)))"

definition set_camera_orientation ::
  "(bytes \<Rightarrow> string option) \<Rightarrow> json_decoder \<Rightarrow> string \<Rightarrow> string \<Rightarrow> exn + certified_node \<times> online_device \<times> int \<Rightarrow> exchange \<Rightarrow> exchange \<Rightarrow>
   exchange list \<Rightarrow> exn + (string, int) control_write"
where
  "set_camera_orientation decode json_loads device_id orientation opened pre wr back =
     (case map_of ORIENTATION_VALUES orientation of
        None \<Rightarrow> Inl (ValueError ''orientation must be normal or inverted'')
      | Some requested \<Rightarrow>
          bind_res (change_control
              \<lparr>ct_mismatch = ''orientation session device identity mismatch'',
               ct_state = ''camera orientation preflight returned no supported state'',
               ct_rejected = ''camera rejected the orientation change'',
               ct_unconfirmed = ''camera did not confirm the orientation change'', ct_failed = ''P2P orientation change failed''\<rparr>
              decode json_loads ORIENTATION_READ_PATH extract_orientation (\<lambda>v. v = requested) (\<lambda>v. v = requested)
              (\<lambda>node dev. build_orientation_write node dev orientation) device_id opened pre wr back) (\<lambda>c.
            Inr (write_result device_id orientation id requested c)))"

definition set_camera_night_vision ::
  "(bytes \<Rightarrow> string option) \<Rightarrow> json_decoder \<Rightarrow> string \<Rightarrow> string \<Rightarrow> exn + certified_node \<times> online_device \<times> int \<Rightarrow> exchange \<Rightarrow> exchange \<Rightarrow>
   exchange list \<Rightarrow> exn + (string, int) control_write"
where
  "set_camera_night_vision decode json_loads device_id mode opened pre wr back =
     (case map_of NIGHT_VISION_VALUES mode of
        None \<Rightarrow> Inl (ValueError ''night-vision mode must be automatic, daytime or night'')
      | Some requested \<Rightarrow>
          bind_res (change_control
              \<lparr>ct_mismatch = ''night-vision session device identity mismatch'',
               ct_state = ''night-vision preflight returned no supported legacy state'',
               ct_rejected = ''camera rejected the night-vision change'',
               ct_unconfirmed = ''camera did not confirm the night-vision change'', ct_failed = ''P2P night-vision change failed''\<rparr>
              decode json_loads NIGHT_VISION_READ_PATH extract_night_vision_mode (\<lambda>v. v = requested) (\<lambda>v. v = requested)
              (\<lambda>node dev. build_night_vision_write node dev mode) device_id opened pre wr back) (\<lambda>c.
            Inr (write_result device_id mode id requested c)))"

definition set_camera_smart_protection ::
  "(bytes \<Rightarrow> string option) \<Rightarrow> json_decoder \<Rightarrow> string \<Rightarrow> bool \<Rightarrow> exn + certified_node \<times> online_device \<times> int \<Rightarrow> exchange \<Rightarrow> exchange \<Rightarrow>
   exchange list \<Rightarrow> exn + (bool, bool) control_write"
where
  "set_camera_smart_protection decode json_loads device_id enabled opened pre wr back =
     bind_res (change_control
         \<lparr>ct_mismatch = ''smart-protection session device identity mismatch'',
          ct_state = ''smart-protection preflight returned no supported state'',
          ct_rejected = ''camera rejected the smart-protection change'',
          ct_unconfirmed = ''camera did not confirm the smart-protection change'', ct_failed = ''P2P smart-protection change failed''\<rparr>
         decode json_loads SMART_PROTECTION_READ_PATH extract_smart_protection_enabled (\<lambda>v. v = enabled) (\<lambda>v. v = enabled)
         (\<lambda>node dev. build_smart_protection_write node dev enabled) device_id opened pre wr back) (\<lambda>c.
       Inr (write_result device_id enabled id enabled c))"

definition set_camera_smart_protection_schedule ::
  "(bytes \<Rightarrow> string option) \<Rightarrow> json_decoder \<Rightarrow> string \<Rightarrow> weekly_schedule \<Rightarrow> exn + certified_node \<times> online_device \<times> int \<Rightarrow> exchange \<Rightarrow> exchange \<Rightarrow>
   exchange list \<Rightarrow> exn + (weekly_schedule, weekly_schedule) control_write"
where
  "set_camera_smart_protection_schedule decode json_loads device_id schedule opened pre wr back =
     bind_res (change_control
         \<lparr>ct_mismatch = ''smart-protection session device identity mismatch'',
          ct_state = ''smart-protection schedule preflight returned no supported state'',
          ct_rejected = ''camera rejected the smart-protection schedule'',
          ct_unconfirmed = ''camera did not confirm the smart-protection schedule'',
          ct_failed = ''P2P smart-protection schedule change failed''\<rparr>
         decode json_loads SMART_PROTECTION_SCHEDULE_READ_PATH extract_smart_protection_schedule (\<lambda>s. s = schedule) (\<lambda>s. s = schedule)
         (\<lambda>node dev. build_smart_protection_schedule_write node dev schedule) device_id opened pre wr back) (\<lambda>c.
       Inr (write_result device_id schedule id schedule c))"

text \<open>Reading a control on request: one correlated exchange, and its value as the camera gave it.\<close>

definition read_control ::
  "string \<Rightarrow> string \<Rightarrow> string \<Rightarrow> (bytes \<Rightarrow> string option) \<Rightarrow> json_decoder \<Rightarrow> string \<Rightarrow> (json \<Rightarrow> 'v option) \<Rightarrow> string \<Rightarrow>
   exn + certified_node \<times> online_device \<times> int \<Rightarrow> exchange \<Rightarrow> exn + 'v \<times> model_read_result"
where
  "read_control mismatch unsupported failed decode json_loads path extract device_id opened x =
     sanitized failed (bind_res opened (\<lambda>(node, target, sequence).
       if show_nat (od_device_id target) \<noteq> device_id then Inl (P2PProbeError mismatch)
       else bind_res (exchange_model_read decode json_loads node (int (od_device_id target)) path sequence 3 True x) (\<lambda>(out, r).
         case extract (mr_value r) of
           None \<Rightarrow> Inl (P2PProbeError unsupported)
         | Some v \<Rightarrow> if mr_error_code r \<noteq> Some 0 then Inl (P2PProbeError unsupported) else Inr (v, r))))"

record 'v control_state =
  ks_device_id :: string
  ks_value :: 'v
  ks_authenticated :: bool
  ks_direct_handshake :: bool
  ks_transport_acknowledged :: bool
  ks_error_code :: "nat option"

definition read_state :: "string \<Rightarrow> 'v \<Rightarrow> model_read_result \<Rightarrow> 'v control_state" where
  "read_state device_id v r = \<lparr>ks_device_id = device_id, ks_value = v, ks_authenticated = True, ks_direct_handshake = False,
     ks_transport_acknowledged = mr_transport_acknowledged r, ks_error_code = mr_error_code r\<rparr>"

definition read_camera_speaker_volume ::
  "(bytes \<Rightarrow> string option) \<Rightarrow> json_decoder \<Rightarrow> string \<Rightarrow> exn + certified_node \<times> online_device \<times> int \<Rightarrow> exchange \<Rightarrow> exn + ((exn + int) \<times> int) control_state"
where
  "read_camera_speaker_volume decode json_loads device_id opened x =
     bind_res (read_control
         ''speaker-volume session device identity mismatch'' ''camera returned no supported speaker-volume state''
         ''P2P speaker-volume read failed''
         decode json_loads VOLUME_READ_PATH extract_volume_raw device_id opened x) (\<lambda>(raw, r). Inr (read_state device_id (volume_shown raw) r))"

definition read_camera_smart_protection ::
  "(bytes \<Rightarrow> string option) \<Rightarrow> json_decoder \<Rightarrow> string \<Rightarrow> exn + certified_node \<times> online_device \<times> int \<Rightarrow> exchange \<Rightarrow> exn + bool control_state"
where
  "read_camera_smart_protection decode json_loads device_id opened x =
     bind_res (read_control
         ''smart-protection session device identity mismatch'' ''camera returned no supported smart-protection state''
         ''P2P smart-protection read failed''
         decode json_loads SMART_PROTECTION_READ_PATH extract_smart_protection_enabled device_id opened x) (\<lambda>(v, r). Inr (read_state device_id v r))"

definition read_camera_smart_protection_schedule ::
  "(bytes \<Rightarrow> string option) \<Rightarrow> json_decoder \<Rightarrow> string \<Rightarrow> exn + certified_node \<times> online_device \<times> int \<Rightarrow> exchange \<Rightarrow> exn + weekly_schedule control_state"
where
  "read_camera_smart_protection_schedule decode json_loads device_id opened x =
     bind_res (read_control
         ''smart-protection session device identity mismatch'' ''camera returned no supported smart-protection schedule''
         ''P2P smart-protection schedule read failed''
         decode json_loads SMART_PROTECTION_SCHEDULE_READ_PATH extract_smart_protection_schedule device_id opened x) (\<lambda>(v, r). Inr (read_state device_id v r))"

section \<open>A reported change was seen\<close>

lemma sanitized_Inr [simp]: "sanitized text r = Inr x \<longleftrightarrow> r = Inr x"
  by (auto simp: sanitized_def split: sum.split)

lemma readback_confirmed:
  "readback read confirmed s xs = Inr True \<Longrightarrow>
   \<exists>k < length xs. \<exists>out r. read ((s + int k) mod 2 ^ 32) (xs ! k) = Inr (out, r) \<and> confirmed r"
proof (induction xs arbitrary: s)
  case (Cons x xs)
  obtain out r where r: "read (s mod 2 ^ 32) x = Inr (out, r)" using Cons.prems by (cases "read (s mod 2 ^ 32) x") auto
  show ?case
  proof (cases "confirmed r")
    case True
    then show ?thesis using r by (intro exI [of _ 0] conjI exI [of _ out] exI [of _ r]) simp_all
  next
    case False
    then have "readback read confirmed (s + 1) xs = Inr True" using Cons.prems r by simp
    from Cons.IH [OF this] obtain k out' r' where "k < length xs" "read ((s + 1 + int k) mod 2 ^ 32) (xs ! k) = Inr (out', r')" "confirmed r'"
      by blast
    then show ?thesis by (intro exI [of _ "Suc k"] conjI exI [of _ out'] exI [of _ r']) (simp_all add: algebra_simps)
  qed
qed simp

lemma read_control_answered:
  assumes "read_control mismatch unsupported failed decode json path extract device_id opened x = Inr (v, r)"
  shows "\<exists>node target sequence. opened = Inr (node, target, sequence) \<and> show_nat (od_device_id target) = device_id \<and>
    answered_read json node (int (od_device_id target)) sequence x 0 (mr_value r) \<and> extract (mr_value r) = Some v"
  using assms exchange_model_read_answer by (fastforce simp: read_control_def bind_res_Inr split: if_splits option.splits)

text \<open>
  The evidence behind a change: the write was answered with success, and after it, in a read
  with a sequence number of its own, the node's answer for this device showed the value.
\<close>

definition change_seen ::
  "json_decoder \<Rightarrow> (json \<Rightarrow> 'v option) \<Rightarrow> ('v \<Rightarrow> bool) \<Rightarrow> string \<Rightarrow> exn + certified_node \<times> online_device \<times> int \<Rightarrow> exchange \<Rightarrow> exchange list \<Rightarrow> bool"
where
  "change_seen json_loads extract confirmed device_id opened wr back \<longleftrightarrow>
     (\<exists>node target sequence k v w. opened = Inr (node, target, sequence) \<and> show_nat (od_device_id target) = device_id \<and> answered_write node wr 0 \<and>
        k < 5 \<and> k < length back \<and> answered_read json_loads node (int (od_device_id target)) ((sequence + 2 + int k) mod 2 ^ 32) (back ! k) 0 v \<and>
        extract v = Some w \<and> confirmed w)"

lemma change_control_seen:
  assumes "change_control text decode json path extract already confirmed build device_id opened pre wr back = Inr (Changed p w)"
  shows "change_seen json extract confirmed device_id opened wr back \<and> mw_error_code w = Some 0"
proof -
  obtain node target sequence out preflight request out2 where o: "opened = Inr (node, target, sequence)" "show_nat (od_device_id target) = device_id"
    and wr: "exchange_model_write_request node request (xe_message wr) 3 (xe_attempts wr) = Inr (out2, w)" "mw_error_code w = Some 0"
    and rb: "readback (\<lambda>s. exchange_model_read decode json node (int (od_device_id target)) path s 1 True)
        (\<lambda>r. mr_error_code r = Some 0 \<and> (case extract (mr_value r) of None \<Rightarrow> False | Some v \<Rightarrow> confirmed v)) (sequence + 2) (take 5 back) = Inr True"
    using assms by (auto simp: change_control_def bind_res_Inr Let_def split: if_splits option.splits)
  from readback_confirmed [OF rb] obtain k out3 r where k: "k < length (take 5 back)"
    "exchange_model_read decode json node (int (od_device_id target)) path ((sequence + 2 + int k) mod 2 ^ 32) 1 True (take 5 back ! k) = Inr (out3, r)"
    "mr_error_code r = Some 0" "case extract (mr_value r) of None \<Rightarrow> False | Some v \<Rightarrow> confirmed v" by blast
  from exchange_model_read_answer [OF k(2,3)] k(1)
  have "answered_read json node (int (od_device_id target)) ((sequence + 2 + int k) mod 2 ^ 32) (back ! k) 0 (mr_value r)" by simp
  moreover obtain v where "extract (mr_value r) = Some v" "confirmed v" using k(4) by (auto split: option.splits)
  ultimately show ?thesis using o wr(2) write_request_answer [OF wr] k(1) unfolding change_seen_def by auto
qed


section \<open>Values round trip\<close>

lemma volume_positions: "map_of VOLUME_RAW_BY_PERCENT p = Some raw \<Longrightarrow> volume_percent raw = Inr p"
  by (auto simp: VOLUME_RAW_BY_PERCENT_def volume_percent_def split: if_splits)

lemma pad2_digits: "x \<le> 9 \<Longrightarrow> y \<le> 9 \<Longrightarrow> pad2 (10 * x + y) = [char_of (48 + x), char_of (48 + y)]"
proof (cases "x = 0")
  case True
  assume "y \<le> 9"
  moreover have "char_of (48 :: nat) = CHR ''0''" by (simp add: char_of_def bit_iff_odd)
  ultimately show ?thesis using True by (simp add: pad2_def show_nat.simps)
next
  case False
  assume "x \<le> 9" "y \<le> 9"
  with False show ?thesis by (simp add: pad2_def show_nat.simps [of "10 * x + y"] show_nat.simps [of x])
qed

lemma is_digit_char: "is_digit lo hi c \<Longrightarrow> \<exists>x. of_char c = 48 + x \<and> lo \<le> x \<and> x \<le> hi \<and> c = char_of (48 + x :: nat)"
  by (rule exI [of _ "of_char c - 48"]) (auto simp: is_digit_def)

lemma clock_roundtrip:
  assumes "clock_ok s"
  shows "plan_clock (native_clock s) = Some s"
proof -
  obtain a b c d where s: "s = [a, b, CHR 0x3A, c, d]"
    and h: "(is_digit 0 1 a \<and> is_digit 0 9 b) \<or> (is_digit 2 2 a \<and> is_digit 0 3 b)" "is_digit 0 5 c" "is_digit 0 9 d"
    using assms by (auto simp: clock_ok_def split: list.splits)
  obtain x y where ab: "of_char a = 48 + x" "of_char b = 48 + y" "10 * x + y \<le> (23 :: nat)" "x \<le> 9" "y \<le> 9" "a = char_of (48 + x)" "b = char_of (48 + y)"
    using h(1)
  proof
    assume "is_digit 0 1 a \<and> is_digit 0 9 b"
    then show ?thesis using is_digit_char [of 0 1 a] is_digit_char [of 0 9 b] that by fastforce
  next
    assume "is_digit 2 2 a \<and> is_digit 0 3 b"
    then show ?thesis using is_digit_char [of 2 2 a] is_digit_char [of 0 3 b] that by fastforce
  qed
  obtain z w where cd: "of_char c = 48 + z" "of_char d = 48 + w" "z \<le> (5 :: nat)" "w \<le> (9 :: nat)" "c = char_of (48 + z)" "d = char_of (48 + w)"
    using is_digit_char [OF h(2)] is_digit_char [OF h(3)] by auto
  have colon: "of_char (CHR 0x3A) = (58 :: nat)" by simp
  have ne: "a \<noteq> CHR 0x3A" "b \<noteq> CHR 0x3A" using ab colon by force+
  have native: "native_clock s = JObj [(''hour'', JInt (int (10 * x + y))), (''min'', JInt (int (10 * z + w)))]"
    using ne ab(1,2) cd(1,2) by (simp add: s native_clock_def)
  have "pad2 (10 * x + y) = [a, b]" "pad2 (10 * z + w) = [c, d]" using pad2_digits [of x y] pad2_digits [of z w] ab cd by auto
  then show ?thesis using ab(3) cd(3,4) unfolding native by (simp add: plan_clock_def s del: of_nat_add of_nat_mult)
qed

lemma weekday_bits_disjoint:
  "\<forall>(day, b) \<in> set WEEKDAY_BITS. \<forall>(day', b') \<in> set WEEKDAY_BITS. b' AND b \<noteq> 0 \<longleftrightarrow> day' = day"
  by (simp add: WEEKDAY_BITS_def)

lemma weekday_mask_and:
  "weekday_mask days m = Inr m' \<Longrightarrow> m' AND b \<noteq> 0 \<longleftrightarrow> m AND b \<noteq> 0 \<or> (\<exists>d \<in> set days. \<exists>b'. map_of WEEKDAY_BITS d = Some b' \<and> b' AND b \<noteq> 0)"
proof (induction days arbitrary: m)
  case (Cons day days)
  then obtain c where c: "map_of WEEKDAY_BITS day = Some c" "weekday_mask days (m OR c) = Inr m'" by (auto split: option.splits)
  have "(m OR c) AND b \<noteq> 0 \<longleftrightarrow> m AND b \<noteq> 0 \<or> c AND b \<noteq> 0" by (simp add: bit.conj_disj_distrib2 or_eq_0_iff)
  with Cons.IH [OF c(2)] c(1) show ?case by auto
qed simp

lemma weekday_mask_range: "weekday_mask days m = Inr m' \<Longrightarrow> 0 \<le> m \<Longrightarrow> m < 128 \<Longrightarrow> 0 \<le> m' \<and> m' < 128"
proof (induction days arbitrary: m)
  case (Cons day days)
  then obtain c where c: "map_of WEEKDAY_BITS day = Some c" "weekday_mask days (m OR c) = Inr m'" by (auto split: option.splits)
  have "0 \<le> c" "c < 128" using map_of_SomeD [OF c(1)] by (auto simp: WEEKDAY_BITS_def)
  then have "m OR c < 2 ^ 7" using Cons.prems(2,3) by (intro OR_upper) auto
  moreover have "0 \<le> m OR c" using Cons.prems(2) \<open>0 \<le> c\<close> by simp
  ultimately show ?case using Cons.IH [OF c(2)] by simp
qed simp

lemma weekday_mask_total: "set days \<subseteq> set WEEKDAYS \<Longrightarrow> \<exists>m'. weekday_mask days m = Inr m'"
  by (induction days arbitrary: m) (auto simp: WEEKDAYS_def WEEKDAY_BITS_def)

lemma weekday_names: "map fst WEEKDAY_BITS = WEEKDAYS" "distinct WEEKDAYS"
  by (simp_all add: WEEKDAY_BITS_def WEEKDAYS_def)

lemma weekday_mask_days:
  assumes "weekday_mask days 0 = Inr m"
  shows "map fst (filter (\<lambda>(day, b). m AND b \<noteq> 0) WEEKDAY_BITS) = filter (\<lambda>day. day \<in> set days) WEEKDAYS"
proof -
  have "m AND b \<noteq> 0 \<longleftrightarrow> day \<in> set days" if "(day, b) \<in> set WEEKDAY_BITS" for day b
  proof -
    have "map_of WEEKDAY_BITS day = Some b" using that weekday_names by (simp add: map_of_is_SomeI)
    then show ?thesis using weekday_mask_and [OF assms, of b] weekday_bits_disjoint that by (fastforce dest: map_of_SomeD)
  qed
  then have "\<forall>x \<in> set WEEKDAY_BITS. (case x of (day, b) \<Rightarrow> m AND b \<noteq> 0) \<longleftrightarrow> fst x \<in> set days" by fastforce
  then have "filter (\<lambda>(day, b). m AND b \<noteq> 0) WEEKDAY_BITS = filter ((\<lambda>day. day \<in> set days) \<circ> fst) WEEKDAY_BITS"
    by (intro filter_cong refl) simp
  then show ?thesis by (simp add: filter_map [symmetric] weekday_names)
qed

lemma guard_plan_read_back:
  assumes "schedule_init start end_at days = Inr schedule"
  shows "\<exists>plan. native_smart_protection_schedule schedule = Inr plan \<and>
    parse_guard_plan plan = Some (schedule\<lparr>ws_weekdays := filter (\<lambda>day. day \<in> set days) WEEKDAYS\<rparr>)"
proof -
  have s: "schedule = \<lparr>ws_start = start, ws_end = end_at, ws_weekdays = days\<rparr>" "clock_ok start" "clock_ok end_at" "days \<noteq> []" "set days \<subseteq> set WEEKDAYS"
    using assms by (auto simp: schedule_init_def split: if_splits)
  obtain m where m: "weekday_mask days 0 = Inr m" using weekday_mask_total [OF s(5)] by blast
  have range: "0 \<le> m" "m < 128" using weekday_mask_range [OF m] by auto
  obtain d where d: "d \<in> set days" "d \<in> set WEEKDAYS" using s(4,5) by (cases days) auto
  then have "d \<in> fst ` set WEEKDAY_BITS" unfolding weekday_names(1) [symmetric] by simp
  then obtain b where b: "(d, b) \<in> set WEEKDAY_BITS" by force
  have "map_of WEEKDAY_BITS d = Some b" using b weekday_names by (intro map_of_is_SomeI) simp_all
  moreover have "b AND b \<noteq> 0" using bspec [OF bspec [OF weekday_bits_disjoint b, simplified] b] by simp
  ultimately have "m AND b \<noteq> 0" using weekday_mask_and [OF m, of b] d(1) by blast
  then have "m \<noteq> 0" by auto
  with range have "1 \<le> m" "m \<le> 0x7F" by auto
  then show ?thesis using m s weekday_mask_days [OF m]
    by (simp add: native_smart_protection_schedule_def parse_guard_plan_def field_def clock_roundtrip)
qed

text \<open>
  C31. The guard plan survives the camera. For every schedule the program accepts, the object
  written to the camera reads back as the same hours and the same days, in the order of
  the mask.
\<close>
theorem guard_plan_roundtrip:
  assumes "schedule_init start end_at days = Inr schedule"
  shows "\<exists>plan. native_smart_protection_schedule schedule = Inr plan \<and>
    parse_guard_plan plan = Some (schedule\<lparr>ws_weekdays := filter (\<lambda>day. day \<in> set days) WEEKDAYS\<rparr>)"
  by (rule guard_plan_read_back [OF assms])


lemma parse_guard_plan_Some:
  "parse_guard_plan v = Some s \<Longrightarrow> \<exists>m. ws_weekdays s = map fst (filter (\<lambda>(day, b). m AND b \<noteq> 0) WEEKDAY_BITS)"
  by (cases "plan_clock (field v ''start'')"; cases "plan_clock (field v ''end'')"; cases "field v ''weekdayEn''")
    (auto simp: parse_guard_plan_def split: if_splits)

text \<open>The days that a set of keys selects are in the order of the table.\<close>

lemma selected_days:
  assumes "distinct (map fst xs)"
  shows "map fst (filter P xs) = filter (\<lambda>k. k \<in> set (map fst (filter P xs))) (map fst xs)"
proof -
  define Q where "Q = (\<lambda>k. k \<in> set (map fst (filter P xs)))"
  have "P x \<longleftrightarrow> (Q \<circ> fst) x" if "x \<in> set xs" for x
    using that assms by (fastforce simp: distinct_map inj_on_def Q_def)
  then have "filter P xs = filter (Q \<circ> fst) xs" by (intro filter_cong) auto
  then have "map fst (filter P xs) = map fst (filter (Q \<circ> fst) xs)" by (rule arg_cong)
  also have "\<dots> = filter Q (map fst xs)" by (simp only: filter_map)
  finally show ?thesis unfolding Q_def .
qed

lemma parse_guard_plan_days:
  assumes "parse_guard_plan v = Some s"
  shows "ws_weekdays s = filter (\<lambda>day. day \<in> set (ws_weekdays s)) WEEKDAYS"
  using parse_guard_plan_Some [OF assms] selected_days [of WEEKDAY_BITS] weekday_names by metis

lemma extract_schedule_days:
  "extract_smart_protection_schedule v = Some s \<Longrightarrow> ws_weekdays s = filter (\<lambda>day. day \<in> set (ws_weekdays s)) WEEKDAYS"
proof (induction v rule: extract_smart_protection_schedule.induct)
  case (1 v)
  show ?case
  proof (cases "obj_get v ''start'' \<noteq> None \<and> obj_get v ''end'' \<noteq> None \<and> obj_get v ''weekdayEn'' \<noteq> None")
    case True
    then show ?thesis using "1.prems" by (auto simp: extract_smart_protection_schedule.simps [of v] split: if_splits intro: parse_guard_plan_days)
  next
    case False
    obtain key x where "obj_get v key = Some x" "extract_smart_protection_schedule x = Some s"
      using "1.prems" False by (auto simp: extract_smart_protection_schedule.simps [of v] split: if_splits option.splits)
    then show ?thesis using "1.IH" False "1.prems" by (cases v) (auto simp: extract_smart_protection_schedule.simps [of v])
  qed
qed


lemma change_control_Inr:
  assumes "change_control text decode json path extract already confirmed build device_id opened pre wr back = Inr c"
  shows "\<exists>v x. extract v = Some x \<and> (already x \<or> confirmed x)"
proof (cases c)
  case (Unchanged p)
  then show ?thesis using assms
    by (fastforce simp: change_control_def bind_res_Inr Let_def split: if_splits option.splits)
next
  case (Changed p w)
  then show ?thesis using change_control_seen [OF assms [unfolded Changed]] by (auto simp: change_seen_def)
qed

text \<open>
  What a returned result is backed by: before anything else the node answered a read for this
  device, and its value is the previous one of the result; when that value was already the
  wanted one nothing was changed, and otherwise the change was seen.
\<close>

definition change_honest ::
  "json_decoder \<Rightarrow> (json \<Rightarrow> 'r option) \<Rightarrow> ('r \<Rightarrow> 'p) \<Rightarrow> ('r \<Rightarrow> bool) \<Rightarrow> ('r \<Rightarrow> bool) \<Rightarrow> string \<Rightarrow>
   exn + certified_node \<times> online_device \<times> int \<Rightarrow> exchange \<Rightarrow> exchange \<Rightarrow> exchange list \<Rightarrow> ('v, 'p) control_write \<Rightarrow> bool"
where
  "change_honest json_loads extract shown already confirmed device_id opened pre wr back r \<longleftrightarrow>
     kw_device_id r = device_id \<and> kw_verified r \<and> kw_error_code r = Some 0 \<and>
     (\<exists>node target sequence v x. opened = Inr (node, target, sequence) \<and> show_nat (od_device_id target) = device_id \<and>
        answered_read json_loads node (int (od_device_id target)) sequence pre 0 v \<and> extract v = Some x \<and>
        kw_previous r = shown x \<and> (kw_changed r \<longleftrightarrow> \<not> already x)) \<and>
     (kw_changed r \<longrightarrow> change_seen json_loads extract confirmed device_id opened wr back)"

lemma change_control_preflight:
  assumes "change_control text decode json path extract already confirmed build device_id opened pre wr back = Inr c"
  shows "\<exists>node target sequence v x. opened = Inr (node, target, sequence) \<and> show_nat (od_device_id target) = device_id \<and>
    answered_read json node (int (od_device_id target)) sequence pre 0 v \<and> extract v = Some x \<and>
    (if already x then c = Unchanged x else \<exists>w. c = Changed x w)"
proof -
  obtain node target sequence out preflight x where o: "opened = Inr (node, target, sequence)" "show_nat (od_device_id target) = device_id"
    "exchange_model_read decode json node (int (od_device_id target)) path sequence 3 True pre = Inr (out, preflight)"
    "extract (mr_value preflight) = Some x" "mr_error_code preflight = Some 0" "if already x then c = Unchanged x else \<exists>w. c = Changed x w"
    using assms by (auto simp: change_control_def bind_res_Inr Let_def split: if_splits option.splits)
  then show ?thesis using exchange_model_read_answer [OF o(3,5)] by blast
qed

lemma write_result_honest:
  assumes "change_control text decode json path extract already confirmed build device_id opened pre wr back = Inr c"
  shows "change_honest json extract shown already confirmed device_id opened pre wr back (write_result device_id v shown requested c)"
proof -
  obtain node target sequence u x where p: "opened = Inr (node, target, sequence)" "show_nat (od_device_id target) = device_id"
    "answered_read json node (int (od_device_id target)) sequence pre 0 u" "extract u = Some x"
    "if already x then c = Unchanged x else \<exists>w. c = Changed x w"
    using change_control_preflight [OF assms] by blast
  show ?thesis
  proof (cases "already x")
    case True
    with p show ?thesis by (auto simp: change_honest_def write_result_def)
  next
    case False
    then obtain w where w: "c = Changed x w" using p(5) by auto
    with change_control_seen [OF assms [unfolded w]] p False show ?thesis by (auto simp: change_honest_def write_result_def)
  qed
qed

text \<open>
  C30. A control change is reported honestly, for every one of the five controls that are written
  over a session: volume, orientation, night vision, the guard switch and the guard plan. A
  result is returned only when the node answered a read for the enrolled device first; a change
  is reported as made only when, after that, the node answered the write with success and a
  later read with a sequence number of its own was answered by the node, for this device,
  without an error and with exactly the value the request stands for; that nothing had to be
  changed is reported only when the first read showed the requested setting. In every other
  case the caller gets an error.
\<close>
theorem control_change_honest:
  "(\<forall>percent r. set_camera_speaker_volume decode json device_id percent opened pre wr back = Inr r \<longrightarrow>
      change_honest json extract_volume_raw volume_shown (\<lambda>raw. volume_percent raw = Inr percent)
        (\<lambda>raw. map_of VOLUME_RAW_BY_PERCENT percent = Some raw) device_id opened pre wr back r) \<and>
   (\<forall>orientation r. set_camera_orientation decode json device_id orientation opened pre wr back = Inr r \<longrightarrow>
      change_honest json extract_orientation id (\<lambda>v. map_of ORIENTATION_VALUES orientation = Some v)
        (\<lambda>v. map_of ORIENTATION_VALUES orientation = Some v) device_id opened pre wr back r) \<and>
   (\<forall>mode r. set_camera_night_vision decode json device_id mode opened pre wr back = Inr r \<longrightarrow>
      change_honest json extract_night_vision_mode id (\<lambda>v. map_of NIGHT_VISION_VALUES mode = Some v)
        (\<lambda>v. map_of NIGHT_VISION_VALUES mode = Some v) device_id opened pre wr back r) \<and>
   (\<forall>enabled r. set_camera_smart_protection decode json device_id enabled opened pre wr back = Inr r \<longrightarrow>
      change_honest json extract_smart_protection_enabled id (\<lambda>v. v = enabled) (\<lambda>v. v = enabled) device_id opened pre wr back r) \<and>
   (\<forall>schedule r. set_camera_smart_protection_schedule decode json device_id schedule opened pre wr back = Inr r \<longrightarrow>
      change_honest json extract_smart_protection_schedule id (\<lambda>s. s = schedule) (\<lambda>s. s = schedule) device_id opened pre wr back r)"
proof -
  have flip: "(\<lambda>v. v = x) = (\<lambda>v. Some x = Some v)" for x :: int by auto
  show ?thesis
    by (auto simp: set_camera_speaker_volume_def set_camera_orientation_def set_camera_night_vision_def set_camera_smart_protection_def
        set_camera_smart_protection_schedule_def bind_res_Inr flip split: option.splits intro: write_result_honest)
qed

text \<open>
  C32. A schedule whose days are not in the order of the mask can never be confirmed over a
  session of its own. Whatever the camera answers, the change ends in an error, although the
  write may have been accepted: the days read back are in the order of the mask and are
  compared with the request as they are.
\<close>
theorem schedule_change_never_confirmed:
  assumes "ws_weekdays schedule \<noteq> filter (\<lambda>day. day \<in> set (ws_weekdays schedule)) WEEKDAYS"
  shows "\<exists>e. set_camera_smart_protection_schedule decode json device_id schedule opened pre wr back = Inl e"
proof (rule ccontr)
  assume "\<not> ?thesis"
  then obtain r where "set_camera_smart_protection_schedule decode json device_id schedule opened pre wr back = Inr r"
    by (cases "set_camera_smart_protection_schedule decode json device_id schedule opened pre wr back") auto
  then obtain tx c where "change_control tx decode json SMART_PROTECTION_SCHEDULE_READ_PATH extract_smart_protection_schedule (\<lambda>s. s = schedule)
      (\<lambda>s. s = schedule) (\<lambda>node dev. build_smart_protection_schedule_write node dev schedule) device_id opened pre wr back = Inr c"
    by (auto simp: set_camera_smart_protection_schedule_def bind_res_Inr)
  from change_control_Inr [OF this] obtain v where "extract_smart_protection_schedule v = Some schedule" by auto
  from extract_schedule_days [OF this] assms show False by simp
qed

text \<open>The order that the shared path establishes is the one that reads back.\<close>

lemma canonical_schedule_stable:
  assumes "schedule_init start end_at days = Inr schedule"
  shows "\<exists>c plan. canonical_schedule schedule = Inr c \<and> native_smart_protection_schedule c = Inr plan \<and> parse_guard_plan plan = Some c"
proof -
  have s: "schedule = \<lparr>ws_start = start, ws_end = end_at, ws_weekdays = days\<rparr>" "clock_ok start" "clock_ok end_at" "days \<noteq> []" "set days \<subseteq> set WEEKDAYS"
    using assms by (auto simp: schedule_init_def split: if_splits)
  let ?ds = "filter (\<lambda>day. day \<in> set days) WEEKDAYS"
  have "set ?ds = set days" using s(5) by auto
  then have ne: "?ds \<noteq> []" using s(4) by (metis set_empty)
  have c: "schedule_init start end_at ?ds = Inr \<lparr>ws_start = start, ws_end = end_at, ws_weekdays = ?ds\<rparr>"
    using s weekday_names(2) ne by (simp add: schedule_init_def)
  have "filter (\<lambda>day. day \<in> set ?ds) WEEKDAYS = ?ds" using \<open>set ?ds = set days\<close> by simp
  with guard_plan_read_back [OF c] c s(1) weekday_names(1) show ?thesis by (simp add: canonical_schedule_def)
qed


section \<open>A change that can be run\<close>

definition demo_schedule :: weekly_schedule where
  "demo_schedule = \<lparr>ws_start = ''08:30'', ws_end = ''17:05'', ws_weekdays = [''mon'', ''sun'']\<rparr>"

lemma demo_schedule_init: "schedule_init ''08:30'' ''17:05'' [''mon'', ''sun''] = Inr demo_schedule"
  by (simp add: schedule_init_def clock_ok_def is_digit_def WEEKDAYS_def demo_schedule_def)

theorem guard_plan_roundtrip_witness:
  "\<exists>plan. native_smart_protection_schedule demo_schedule = Inr plan \<and>
     parse_guard_plan plan = Some (demo_schedule\<lparr>ws_weekdays := [''sun'', ''mon'']\<rparr>)"
  using guard_plan_roundtrip [OF demo_schedule_init] by (simp add: WEEKDAYS_def)

definition demo_device :: online_device where
  "demo_device = \<lparr>od_device_id = 4, od_status = 1, od_new_platform = True, od_server_id = 0, od_terminal_id = []\<rparr>"

text \<open>A reply about device 4 to the read numbered \<open>s\<close>, with one byte of text; and the answer to a write.\<close>

definition demo_reply :: "byte \<Rightarrow> byte \<Rightarrow> bytes" where
  "demo_reply s b = [126, 184, 41, 0, 7, 0, 0, 0, 0, 0, 0, 0, 0, 0, 0, 0, s, 0, 0, 0, 0, 0, 32, 0, 4, 0, 0, 0, 0, 0, 0, 0, 1, 0, 0, 0, 0, 0, 1, 0, b]"

definition demo_written :: bytes where
  "demo_written = [126, 211, 54, 0, 7, 0, 0, 0, 0, 0, 0, 0, 0, 0, 0, 0, 0, 0, 0, 0, 0, 0, 0, 0] @ replicate 24 0 @ [9, 0, 0, 0, 0, 0]"

definition demo_switch :: json_decoder where
  "demo_switch bs = Some (JObj [(''enable'', JInt (if bs = [49] then 1 else 0))])"

definition demo_read :: "bytes \<Rightarrow> exchange" where
  "demo_read wire = \<lparr>xe_message = 9, xe_flags = 0, xe_attempts = [Heard [(wire, ''broker'', 1)]]\<rparr>"

theorem schedule_change_never_confirmed_witness:
  "\<exists>e. set_camera_smart_protection_schedule (\<lambda>_. None) demo_switch ''4'' demo_schedule (Inr (demo_node, demo_device, 6))
     (demo_read (demo_reply 6 48)) (demo_read demo_written) [demo_read (demo_reply 8 49)] = Inl e"
  by (rule schedule_change_never_confirmed) (simp add: demo_schedule_def WEEKDAYS_def)

lemma demo_reply_fields:
  "length (demo_reply s b) = 41" "demo_reply s b ! 0 = 126" "demo_reply s b ! 1 = 184" "demo_reply s b ! 22 = 32" "demo_reply s b ! 32 = 1"
  "u16_at (demo_reply s b) 2 = 41" "u64_at (demo_reply s b) 4 = 7" "u32_at (demo_reply s b) 16 = unat s" "u32_at (demo_reply s b) 20 = 2097152"
  "u64_at (demo_reply s b) 24 = 4" "u16_at (demo_reply s b) 36 = 0" "u16_at (demo_reply s b) 38 = 1" "pyslice (demo_reply s b) 40 41 = [b]"
  by (simp_all add: demo_reply_def pyslice_def)

lemma demo_written_fields:
  "length demo_written = 54" "demo_written ! 0 = 126" "demo_written ! 1 = 211" "demo_written ! 22 = 0" "u32_at demo_written 20 = 0"
  "u32_at demo_written 48 = 9" "u16_at demo_written 52 = 0"
  by (simp_all add: demo_written_def pyslice_def)

lemma demo_reply_heard:
  assumes "unat s = mask_int 32 seq"
  shows "model_read_heard decode demo_switch demo_node 4 path seq True ack [(demo_reply s b, ''broker'', 1)] =
    Inr (ack, [], Some (0, JObj [(''enable'', JInt (if b = 49 then 1 else 0))]))"
proof -
  note f = demo_reply_fields [of s b]
  have d: "decrypt_node_frame (demo_reply s b) demo_node = Some (demo_reply s b)" using f by (simp add: decrypt_node_frame_def Let_def)
  have nb: "\<not> bit (u32_at (demo_reply s b) 20) 20" "bit (u32_at (demo_reply s b) 20) 21" using f by (simp_all add: bit_iff_odd)
  have a: "acknowledge_reliable_node_frame demo_node (demo_reply s b) = Inr []"
    using f by (simp add: acknowledge_reliable_node_frame_def Let_def drop_bit_eq_div)
  have r: "parse_model_report decode demo_switch (demo_reply s b) = None" using f by (simp add: parse_model_report_def)
  have c: "reply_correlated (demo_reply s b) seq" using f nb assms by (simp add: reply_correlated_def)
  have p: "parse_model_read_response demo_switch (demo_reply s b) 4 (Some seq) = Some (0, JObj [(''enable'', JInt (if b = 49 then 1 else 0))])"
    using f c by (simp add: parse_model_read_response_def Let_def demo_switch_def)
  have "cn_address demo_node = (''broker'', 1)" "u64_at (demo_reply s b) 4 = mask_int 64 (cn_session_id demo_node)"
    using f by (simp_all add: demo_node_def mask_int_def)
  then show ?thesis using d nb a r p by (simp add: Let_def)
qed

lemma demo_read_answers:
  assumes "unat s = mask_int 32 seq" "1 \<le> retries"
  shows "\<exists>out. exchange_model_read decode demo_switch demo_node 4 SMART_PROTECTION_READ_PATH seq retries True (demo_read (demo_reply s b)) =
    Inr (out, \<lparr>mr_transport_acknowledged = False, mr_error_code = Some 0, mr_value = JObj [(''enable'', JInt (if b = 49 then 1 else 0))]\<rparr>)"
proof -
  have path: "SMART_PROTECTION_READ_PATH \<in> set MODEL_READ_PATHS" by (simp add: SMART_PROTECTION_READ_PATH_def MODEL_READ_PATHS_def)
  have "length (cn_session_key demo_node) = 32" by (simp add: demo_node_def)
  from build_model_read_opens [OF path _ _ this, of 4 seq 9 0] obtain w where
    w: "build_model_read demo_node 4 SMART_PROTECTION_READ_PATH seq 9 0 = Inr w" by auto
  have t: "take retries [Heard [(demo_reply s b, ''broker'', 1)]] = [Heard [(demo_reply s b, ''broker'', 1)]]" using assms(2) by (simp add: take_Cons')
  show ?thesis using w assms(2) demo_reply_heard [OF assms(1), of decode SMART_PROTECTION_READ_PATH False b]
    by (simp add: exchange_model_read_def demo_read_def t del: model_read_heard.simps)
qed

theorem control_change_honest_witness:
  "\<exists>r. set_camera_smart_protection (\<lambda>_. None) demo_switch ''4'' True (Inr (demo_node, demo_device, 6))
       (demo_read (demo_reply 6 48)) (demo_read demo_written) [demo_read (demo_reply 8 49)] = Inr r \<and> kw_changed r \<and>
     change_honest demo_switch extract_smart_protection_enabled id (\<lambda>v. v = True) (\<lambda>v. v = True) ''4'' (Inr (demo_node, demo_device, 6))
       (demo_read (demo_reply 6 48)) (demo_read demo_written) [demo_read (demo_reply 8 49)] r"
proof -
  let ?opened = "Inr (demo_node, demo_device, 6)"
  have key: "length (cn_session_key demo_node) = 32" "cn_address demo_node = (''broker'', 1)" by (simp_all add: demo_node_def)
  note f = demo_written_fields
  obtain o1 where pre: "exchange_model_read (\<lambda>_. None) demo_switch demo_node 4 SMART_PROTECTION_READ_PATH 6 3 True (demo_read (demo_reply 6 48)) =
      Inr (o1, \<lparr>mr_transport_acknowledged = False, mr_error_code = Some 0, mr_value = JObj [(''enable'', JInt 0)]\<rparr>)"
    using demo_read_answers [of 6 6 3 "\<lambda>_. None" 48] by (auto simp: mask_int_def)
  obtain o3 where rb: "exchange_model_read (\<lambda>_. None) demo_switch demo_node 4 SMART_PROTECTION_READ_PATH 8 1 True (demo_read (demo_reply 8 49)) =
      Inr (o3, \<lparr>mr_transport_acknowledged = False, mr_error_code = Some 0, mr_value = JObj [(''enable'', JInt 1)]\<rparr>)"
    using demo_read_answers [of 8 8 1 "\<lambda>_. None" 49] by (auto simp: mask_int_def)
  have j1: "json_dumps (SInt 1) = ''1''" by (simp add: show_int_def show_nat.simps char_of_def bit_iff_odd)
  have hi: "has_infix ''.setVal'' SMART_PROTECTION_WRITE_PATH"
    unfolding has_infix_def by (rule bexI [of _ 21]) (simp_all add: SMART_PROTECTION_WRITE_PATH_def)
  have pl: "take 12 SMART_PROTECTION_WRITE_PATH = ''ProWritable.''" "length SMART_PROTECTION_WRITE_PATH = 35"
    by (simp_all add: SMART_PROTECTION_WRITE_PATH_def)
  obtain request where req: "build_smart_protection_write demo_node 4 True 7 9 0 = Inr request"
    using write_frame_opens [OF _ _ key(1), of 4 SMART_PROTECTION_WRITE_PATH "''1''" 7 9 0] j1 hi pl
    by (auto simp: build_smart_protection_write_def build_model_write_def)
  have d: "decrypt_node_frame demo_written demo_node = Some demo_written" using f by (simp add: decrypt_node_frame_def Let_def)
  have wh: "model_write_heard demo_node 9 False [(demo_written, ''broker'', 1)] = Inr (False, [], Some 0)"
    using f d key(2) by (simp add: acknowledge_reliable_node_frame_def parse_model_write_response_def parse_action_code_def Let_def)
  have wrote: "exchange_model_write_request demo_node request 9 3 (xe_attempts (demo_read demo_written)) =
      Inr ([request], \<lparr>mw_transport_acknowledged = False, mw_error_code = Some 0\<rparr>)"
    using wh by (simp add: exchange_model_write_request_def demo_read_def del: model_write_heard.simps)
  have ex: "extract_smart_protection_enabled (JObj [(''enable'', JInt 0)]) = Some False"
    "extract_smart_protection_enabled (JObj [(''enable'', JInt 1)]) = Some True"
    by (simp_all add: extract_smart_protection_enabled_def set_field_def)
  have dev: "od_device_id demo_device = 4" "show_nat 4 = ''4''"
    by (simp_all add: demo_device_def show_nat.simps char_of_def bit_iff_odd)
  have msg: "xe_message (demo_read demo_written) = 9" "xe_flags (demo_read demo_written) = 0" by (simp_all add: demo_read_def)
  obtain r where r: "set_camera_smart_protection (\<lambda>_. None) demo_switch ''4'' True ?opened (demo_read (demo_reply 6 48)) (demo_read demo_written)
      [demo_read (demo_reply 8 49)] = Inr r" "kw_changed r"
    using pre rb req wrote ex dev msg by (simp add: set_camera_smart_protection_def change_control_def write_result_def sanitized_def Let_def)
  from control_change_honest [of "\<lambda>_. None" demo_switch "''4''" ?opened "demo_read (demo_reply 6 48)" "demo_read demo_written"
      "[demo_read (demo_reply 8 49)]"] r show ?thesis by blast
qed

end
