(* ===== verification/Mp4Output.thy ===== *)
theory Mp4Output
  imports Machine "HOL-Library.Sublist"
begin

text \<open>
  The path of a decoded stream to its viewers: \<^verbatim>\<open>media/fragmented_mp4.py\<close> cuts the byte
  stream of the local muxer into an initialization and fragments, and
  \<^verbatim>\<open>media/mp4_fanout.py\<close> shares them between readers through one bounded ring. The first
  is shown equal to a budget-free parser of the whole stream, whatever the reads; the
  second to give every reader the initialization and a gap-free run of fragments.
\<close>

section \<open>The collector of fragmented MP4\<close>

definition MP4_MAX_BYTES :: nat where
  "MP4_MAX_BYTES = 2 * 1024 * 1024"

definition MP4_MAX_CHUNKS :: nat where
  "MP4_MAX_CHUNKS = 8"

record mp4_chunk =
  mc_initialization :: bool
  mc_data :: bytes

definition size_error :: "nat \<Rightarrow> bytes \<Rightarrow> exn" where
  "size_error declared_size kind = Mp4SizeError declared_size
     (case find (\<lambda>s. ascii s = kind) [''ftyp'', ''moov'', ''moof'', ''mdat''] of
        None \<Rightarrow> ''unknown'' | Some s \<Rightarrow> s)"

definition order_label :: "bytes \<Rightarrow> string" where
  "order_label kind =
     (case find (\<lambda>s. ascii s = kind) [''ftyp'', ''moov'', ''moof'', ''mdat'', ''free'', ''sidx'', ''styp'', ''mfra'', ''mfro''] of
        None \<Rightarrow> ''unknown'' | Some s \<Rightarrow> s)"

definition order_error :: "bytes \<Rightarrow> bytes \<Rightarrow> exn" where
  "order_error expected actual = Mp4OrderError (order_label expected) (order_label actual)"

record fragmented_mp4 =
  fm_buffer :: bytes
  fm_pair :: bytes
  fm_expected :: bytes
  fm_chunks :: "mp4_chunk list"
  fm_queued_bytes :: int
  fm_started :: bool
  fm_claimed :: bool
  fm_closed :: bool

definition mp4_init :: fragmented_mp4 where
  "mp4_init = \<lparr>fm_buffer = [], fm_pair = [], fm_expected = ascii ''ftyp'', fm_chunks = [], fm_queued_bytes = 0,
     fm_started = False, fm_claimed = False, fm_closed = False\<rparr>"

definition mp4_claim :: "fragmented_mp4 \<Rightarrow> (exn + unit) \<times> fragmented_mp4" where
  "mp4_claim m =
     (if fm_closed m \<or> fm_started m \<or> fm_claimed m then (Inl (ValueError ''fresh MP4 output required''), m)
      else (Inr (), m\<lparr>fm_claimed := True\<rparr>))"

definition mp4_buffered_bytes :: "fragmented_mp4 \<Rightarrow> int" where
  "mp4_buffered_bytes m = int (length (fm_buffer m)) + int (length (fm_pair m)) + fm_queued_bytes m"

definition mp4_close :: "fragmented_mp4 \<Rightarrow> fragmented_mp4" where
  "mp4_close m = m\<lparr>fm_closed := True, fm_buffer := [], fm_pair := [], fm_chunks := [], fm_queued_bytes := 0\<rparr>"

text \<open>The \<^verbatim>\<open>while\<close> loop of \<^verbatim>\<open>feed\<close>; every iteration consumes a box of at least 8 bytes.\<close>

function mp4_boxes :: "nat \<Rightarrow> fragmented_mp4 \<Rightarrow> (exn + unit) \<times> fragmented_mp4" where
  "mp4_boxes boxes m =
     (if length (fm_buffer m) < 8 then (Inr (), m)
      else let size' = be_val (take 4 (fm_buffer m)); kind = pyslice (fm_buffer m) 4 8
      in if \<not> (8 \<le> size' \<and> size' \<le> MP4_MAX_BYTES) then (Inl (size_error size' kind), m)
      else if kind \<noteq> fm_expected m then (Inl (order_error (fm_expected m) kind), m)
      else if length (fm_buffer m) < size' then (Inr (), m)
      else if boxes + 1 > 64 then (Inl (Mp4CapacityError ''MP4 box budget exceeded''), m)
      else let box = take size' (fm_buffer m); m = m\<lparr>fm_buffer := drop size' (fm_buffer m)\<rparr>
      in if kind = ascii ''ftyp'' \<or> kind = ascii ''moof''
      then mp4_boxes (boxes + 1) (m\<lparr>fm_pair := box,
             fm_expected := if kind = ascii ''ftyp'' then ascii ''moov'' else ascii ''mdat''\<rparr>)
      else if length (fm_chunks m) \<ge> MP4_MAX_CHUNKS then (Inl (Mp4CapacityError ''MP4 consumer stalled''), m)
      else let chunk = \<lparr>mc_initialization = (kind = ascii ''moov''), mc_data = fm_pair m @ box\<rparr>
      in mp4_boxes (boxes + 1) (m\<lparr>fm_pair := [], fm_chunks := fm_chunks m @ [chunk],
             fm_queued_bytes := fm_queued_bytes m + int (length (mc_data chunk)), fm_expected := ascii ''moof''\<rparr>))"
  by pat_completeness auto
termination
  by (relation "measure (\<lambda>(boxes, m). length (fm_buffer m))") auto

declare mp4_boxes.simps [simp del]

definition mp4_feed :: "bytes \<Rightarrow> fragmented_mp4 \<Rightarrow> (exn + unit) \<times> fragmented_mp4" where
  "mp4_feed data m =
     (if fm_closed m then (Inl (ValueError ''MP4 output closed''), m)
      else if mp4_buffered_bytes m + int (length data) > int MP4_MAX_BYTES
      then (Inl (Mp4CapacityError ''MP4 output capacity exceeded''), mp4_close m)
      else case mp4_boxes 0 (m\<lparr>fm_started := fm_started m \<or> data \<noteq> [], fm_buffer := fm_buffer m @ data\<rparr>) of
        (Inl e, m) \<Rightarrow> (Inl e, mp4_close m)
      | (Inr _, m) \<Rightarrow> (Inr (), m))"

definition mp4_take :: "fragmented_mp4 \<Rightarrow> mp4_chunk option \<times> fragmented_mp4" where
  "mp4_take m =
     (case fm_chunks m of
        [] \<Rightarrow> (None, m)
      | chunk # rest \<Rightarrow>
          (Some chunk, m\<lparr>fm_chunks := rest, fm_queued_bytes := fm_queued_bytes m - int (length (mc_data chunk))\<rparr>))"

section \<open>The stream the collector stands for\<close>

text \<open>
  The reference: the parser of a whole stream without budgets or reads. It stops at the
  first box that is incomplete, has a wrong kind or a size out of range.
\<close>

definition next_box :: "bytes \<Rightarrow> bytes \<Rightarrow> nat option" where
  "next_box expected xs =
     (let n = be_val (take 4 xs)
      in if 8 \<le> length xs \<and> 8 \<le> n \<and> n \<le> MP4_MAX_BYTES \<and> pyslice xs 4 8 = expected \<and> n \<le> length xs then Some n else None)"

definition after_box :: "bytes \<Rightarrow> bytes" where
  "after_box kind = (if kind = ascii ''ftyp'' then ascii ''moov''
     else if kind = ascii ''moof'' then ascii ''mdat'' else ascii ''moof'')"

function parse_boxes :: "bytes \<Rightarrow> bytes \<Rightarrow> bytes \<Rightarrow> mp4_chunk list \<times> bytes \<times> bytes \<times> bytes" where
  "parse_boxes e p xs =
     (case next_box e xs of
        None \<Rightarrow> ([], e, p, xs)
      | Some n \<Rightarrow>
          if e = ascii ''ftyp'' \<or> e = ascii ''moof'' then parse_boxes (after_box e) (take n xs) (drop n xs)
          else let (cs, r) = parse_boxes (after_box e) [] (drop n xs)
               in (\<lparr>mc_initialization = (e = ascii ''moov''), mc_data = p @ take n xs\<rparr> # cs, r))"
  by pat_completeness auto
termination
  by (relation "measure (\<lambda>(e, p, xs). length xs)") (auto simp: next_box_def Let_def split: if_splits)

declare parse_boxes.simps [simp del]

lemma parse_boxes_None: "next_box e xs = None \<Longrightarrow> parse_boxes e p xs = ([], e, p, xs)"
  by (simp add: parse_boxes.simps)

definition bad_header :: "bytes \<Rightarrow> bytes \<Rightarrow> bool" where
  "bad_header expected xs \<longleftrightarrow> 8 \<le> length xs \<and>
     (\<not> (8 \<le> be_val (take 4 xs) \<and> be_val (take 4 xs) \<le> MP4_MAX_BYTES) \<or> pyslice xs 4 8 \<noteq> expected)"

lemma next_box_append: "next_box e xs = Some n \<Longrightarrow> next_box e (xs @ ys) = Some n"
  by (auto simp: next_box_def Let_def slice_append_left split: if_splits)

lemma next_box_le: "next_box e xs = Some n \<Longrightarrow> 8 \<le> n \<and> n \<le> length xs"
  by (auto simp: next_box_def Let_def split: if_splits)

lemma next_box_bad_header: "bad_header e xs \<Longrightarrow> next_box e (xs @ ys) = None"
  by (auto simp: bad_header_def next_box_def Let_def slice_append_left split: if_splits)

text \<open>Parsing is incremental: a longer stream continues where the shorter one stopped.\<close>

lemma parse_boxes_append:
  "parse_boxes e p xs = (cs, e', p', r) \<Longrightarrow>
   parse_boxes e p (xs @ ys) = (let (cs', t) = parse_boxes e' p' (r @ ys) in (cs @ cs', t))"
proof (induction e p xs arbitrary: cs rule: parse_boxes.induct)
  case (1 e p xs)
  show ?case
  proof (cases "next_box e xs")
    case None
    then show ?thesis using "1.prems" by (simp add: parse_boxes.simps [of e p xs] split: prod.splits)
  next
    case (Some n)
    note next_box_append [OF Some, of ys] next_box_le [OF Some]
    then show ?thesis using "1.prems" "1.IH" [OF Some] Some
      by (subst parse_boxes.simps) (auto simp: parse_boxes.simps [of e p xs] split: if_splits prod.splits)
  qed
qed

lemma parse_boxes_stop: "parse_boxes e p xs = (cs, e', p', r) \<Longrightarrow> next_box e' r = None"
  by (induction e p xs arbitrary: cs rule: parse_boxes.induct)
     (subst (asm) (3) parse_boxes.simps, auto split: option.splits if_splits prod.splits)

lemma box_kinds [simp]:
  "ascii ''ftyp'' \<noteq> ascii ''moov''" "ascii ''ftyp'' \<noteq> ascii ''moof''" "ascii ''ftyp'' \<noteq> ascii ''mdat''"
  "ascii ''moov'' \<noteq> ascii ''ftyp''" "ascii ''moof'' \<noteq> ascii ''ftyp''" "ascii ''mdat'' \<noteq> ascii ''ftyp''"
  "ascii ''moov'' \<noteq> ascii ''moof''" "ascii ''moof'' \<noteq> ascii ''moov''" "ascii ''mdat'' \<noteq> ascii ''moof''"
  "ascii ''moof'' \<noteq> ascii ''mdat''" "ascii ''moov'' \<noteq> ascii ''mdat''" "ascii ''mdat'' \<noteq> ascii ''moov''"
  by (simp_all add: ascii_def)

definition chunk_bytes :: "mp4_chunk list \<Rightarrow> int" where
  "chunk_bytes cs = int (sum_list (map (\<lambda>c. length (mc_data c)) cs))"

lemma chunk_bytes_simps [simp]:
  "chunk_bytes [] = 0" "chunk_bytes (c # cs) = int (length (mc_data c)) + chunk_bytes cs"
  "chunk_bytes (cs @ ds) = chunk_bytes cs + chunk_bytes ds"
  by (simp_all add: chunk_bytes_def)

lemma chunk_bytes_nonneg [simp]: "0 \<le> chunk_bytes cs"
  by (simp add: chunk_bytes_def)

text \<open>The loop does what the reference does, or stops at a budget or a bad header.\<close>

definition parsed_to :: "fragmented_mp4 \<Rightarrow> mp4_chunk list \<Rightarrow> bytes \<Rightarrow> bytes \<Rightarrow> bytes \<Rightarrow> fragmented_mp4" where
  "parsed_to m cs e p r = m\<lparr>fm_buffer := r, fm_pair := p, fm_expected := e, fm_chunks := fm_chunks m @ cs,
     fm_queued_bytes := fm_queued_bytes m + chunk_bytes cs\<rparr>"

text \<open>The error the code raises for a header.\<close>

definition header_error :: "bytes \<Rightarrow> bytes \<Rightarrow> exn" where
  "header_error expected xs =
     (let n = be_val (take 4 xs); kind = pyslice xs 4 8
      in if \<not> (8 \<le> n \<and> n \<le> MP4_MAX_BYTES) then size_error n kind else order_error expected kind)"

definition boxes_result :: "fragmented_mp4 \<Rightarrow> (exn + unit) \<Rightarrow> fragmented_mp4 \<Rightarrow> mp4_chunk list \<times> bytes \<times> bytes \<times> bytes \<Rightarrow> bool" where
  "boxes_result m res m' = (\<lambda>(cs, e, p, r).
     case res of Inr _ \<Rightarrow> m' = parsed_to m cs e p r \<and> length (fm_chunks m) + length cs \<le> MP4_MAX_CHUNKS \<and> \<not> bad_header e r
     | Inl x \<Rightarrow> x = Mp4CapacityError ''MP4 consumer stalled'' \<and> length (fm_chunks m) + length cs > MP4_MAX_CHUNKS \<or>
         bad_header e r \<and> x = header_error e r)"

lemma boxes_result_pair:
  "boxes_result (m\<lparr>fm_buffer := b, fm_pair := q, fm_expected := k\<rparr>) res m' = boxes_result m res m'"
  by (rule ext) (auto simp: boxes_result_def parsed_to_def split: sum.splits)

text \<open>
  A bound on the boxes the loop can still take before the queue is full. It starts below the
  box budget and goes down with every box, so the budget of 64 is never what stops the loop.
\<close>

definition boxes_left :: "fragmented_mp4 \<Rightarrow> nat" where
  "boxes_left m = 2 * (MP4_MAX_CHUNKS - length (fm_chunks m)) +
     (if fm_expected m = ascii ''ftyp'' \<or> fm_expected m = ascii ''moof'' then 2 else 1)"

lemma mp4_boxes_parse:
  "mp4_boxes n m = (res, m') \<Longrightarrow> n + boxes_left m \<le> 64 \<Longrightarrow> length (fm_chunks m) \<le> MP4_MAX_CHUNKS \<Longrightarrow>
   boxes_result m res m' (parse_boxes (fm_expected m) (fm_pair m) (fm_buffer m))"
proof (induction n m rule: mp4_boxes.induct)
  case (1 n m)
  let ?b = "fm_buffer m" let ?n = "be_val (take 4 ?b)" let ?k = "pyslice ?b 4 8"
  consider (short) "length ?b < 8" | (size) "\<not> length ?b < 8" "\<not> (8 \<le> ?n \<and> ?n \<le> MP4_MAX_BYTES)"
    | (kind) "\<not> length ?b < 8" "8 \<le> ?n \<and> ?n \<le> MP4_MAX_BYTES" "?k \<noteq> fm_expected m"
    | (wait) "\<not> length ?b < 8" "8 \<le> ?n \<and> ?n \<le> MP4_MAX_BYTES" "?k = fm_expected m" "length ?b < ?n"
    | (box) "\<not> length ?b < 8" "8 \<le> ?n \<and> ?n \<le> MP4_MAX_BYTES" "?k = fm_expected m" "\<not> length ?b < ?n"
    by argo
  then show ?case
  proof cases
    case box
    then have nb: "next_box (fm_expected m) ?b = Some ?n" by (simp add: next_box_def)
    have go: "n + 1 \<le> 64" using "1.prems"(2) by (simp add: boxes_left_def split: if_splits)
    show ?thesis
    proof (cases "fm_expected m = ascii ''ftyp'' \<or> fm_expected m = ascii ''moof''")
      case True
      let ?m = "m\<lparr>fm_buffer := drop ?n ?b, fm_pair := take ?n ?b,
        fm_expected := if ?k = ascii ''ftyp'' then ascii ''moov'' else ascii ''mdat''\<rparr>"
      have ab: "(if ?k = ascii ''ftyp'' then ascii ''moov'' else ascii ''mdat'') = after_box (fm_expected m)"
        unfolding box(3) using True by (auto simp: after_box_def)
      have step: "mp4_boxes n m = mp4_boxes (n + 1) ?m"
        using box go True by (subst mp4_boxes.simps) (simp add: Let_def)
      have l: "n + 1 + boxes_left ?m \<le> 64" using "1.prems"(2) True unfolding ab by (auto simp: boxes_left_def after_box_def)
      have "boxes_result ?m res m' (parse_boxes (fm_expected ?m) (fm_pair ?m) (fm_buffer ?m))"
        by (rule "1.IH"(1) [OF box(1) refl refl _ _ box(4) _ refl refl])
          (use box go True in simp, use box in simp, use go in simp, use box True in simp,
           use step "1.prems"(1) in simp, rule l, use "1.prems"(3) in simp)
      moreover have "parse_boxes (fm_expected m) (fm_pair m) ?b = parse_boxes (fm_expected ?m) (fm_pair ?m) (fm_buffer ?m)"
        using nb True unfolding ab by (simp add: parse_boxes.simps [of "fm_expected m" "fm_pair m" ?b])
      ultimately show ?thesis unfolding boxes_result_pair by metis
    next
      case mfalse: False
      let ?c = "\<lparr>mc_initialization = (fm_expected m = ascii ''moov''), mc_data = fm_pair m @ take ?n ?b\<rparr>"
      let ?m = "m\<lparr>fm_buffer := drop ?n ?b, fm_pair := [], fm_chunks := fm_chunks m @ [?c],
        fm_queued_bytes := fm_queued_bytes m + int (length (mc_data ?c)), fm_expected := ascii ''moof''\<rparr>"
      have ref: "parse_boxes (fm_expected m) (fm_pair m) ?b =
          (let (cs, r) = parse_boxes (ascii ''moof'') [] (drop ?n ?b) in (?c # cs, r))"
        using nb mfalse by (simp add: parse_boxes.simps [of "fm_expected m" "fm_pair m" ?b] after_box_def)
      show ?thesis
      proof (cases "length (fm_chunks m) \<ge> MP4_MAX_CHUNKS")
        case True
        then have "res = Inl (Mp4CapacityError ''MP4 consumer stalled'')" using box go mfalse "1.prems"(1)
          by (simp add: mp4_boxes.simps [of n m])
        with True ref show ?thesis by (simp add: boxes_result_def split_beta Let_def)
      next
        case False
        have step: "mp4_boxes n m = mp4_boxes (n + 1) ?m"
          using box go False mfalse by (subst mp4_boxes.simps) (auto simp: Let_def)
        have l: "n + 1 + boxes_left ?m \<le> 64" "length (fm_chunks ?m) \<le> MP4_MAX_CHUNKS"
          using "1.prems"(2) mfalse False by (auto simp: boxes_left_def)
        have IH: "boxes_result ?m res m' (parse_boxes (fm_expected ?m) (fm_pair ?m) (fm_buffer ?m))"
          using "1.IH"(2) [OF box(1) refl refl _ _ box(4) _ refl refl] box go False mfalse "1.prems"(1) step l
          by simp
        obtain cs e p r where c: "parse_boxes (ascii ''moof'') [] (drop ?n ?b) = (cs, e, p, r)" by (metis prod_cases4)
        have "parsed_to ?m cs e p r = parsed_to m (?c # cs) e p r" by (simp add: parsed_to_def)
        with IH ref c show ?thesis by (cases res) (simp_all add: boxes_result_def)
      qed
    qed
  next
    case short
    then have "next_box (fm_expected m) ?b = None" "res = Inr ()" "m' = m"
      using "1.prems"(1) by (auto simp: next_box_def mp4_boxes.simps [of n m])
    with short "1.prems"(3) show ?thesis by (simp add: parse_boxes_None boxes_result_def parsed_to_def bad_header_def)
  next
    case size
    then have "next_box (fm_expected m) ?b = None" "res = Inl (size_error ?n ?k)"
      using "1.prems"(1) by (auto simp: next_box_def mp4_boxes.simps [of n m] Let_def)
    with size show ?thesis by (simp add: parse_boxes_None boxes_result_def bad_header_def header_error_def Let_def)
  next
    case kind
    then have "next_box (fm_expected m) ?b = None" "res = Inl (order_error (fm_expected m) ?k)"
      using "1.prems"(1) by (auto simp: next_box_def mp4_boxes.simps [of n m] Let_def)
    with kind show ?thesis by (simp add: parse_boxes_None boxes_result_def bad_header_def header_error_def Let_def)
  next
    case wait
    then have "next_box (fm_expected m) ?b = None" "res = Inr ()" "m' = m"
      using "1.prems"(1) by (auto simp: next_box_def mp4_boxes.simps [of n m])
    with wait "1.prems"(3) show ?thesis by (simp add: parse_boxes_None boxes_result_def parsed_to_def bad_header_def)
  qed
qed

text \<open>
  The collector as a machine: the decoder claims it and feeds what it read, the fan-out takes
  chunks, either may close it.
\<close>

datatype mp4_op = Feed bytes | Take | ClaimOutput | CloseOutput

datatype mp4_event = Fed bytes | Rejected bytes exn | Took mp4_chunk | OutputClosed

definition mp4_exec :: "mp4_op \<Rightarrow> fragmented_mp4 \<Rightarrow> mp4_event list \<times> fragmented_mp4" where
  "mp4_exec op m = (case op of
     Feed data \<Rightarrow> (case mp4_feed data m of (Inl e, m) \<Rightarrow> ([Rejected data e], m) | (Inr _, m) \<Rightarrow> ([Fed data], m))
   | Take \<Rightarrow> (case mp4_take m of (None, m) \<Rightarrow> ([], m) | (Some c, m) \<Rightarrow> ([Took c], m))
   | ClaimOutput \<Rightarrow> ([], snd (mp4_claim m))
   | CloseOutput \<Rightarrow> ([OutputClosed], mp4_close m))"

definition offered :: "mp4_event list \<Rightarrow> bytes" where
  "offered h = concat (map (\<lambda>e. case e of Fed d \<Rightarrow> d | Rejected d x \<Rightarrow> d | _ \<Rightarrow> []) h)"

definition collected :: "mp4_event list \<Rightarrow> mp4_chunk list" where
  "collected h = concat (map (\<lambda>e. case e of Took c \<Rightarrow> [c] | _ \<Rightarrow> []) h)"

definition ended :: "mp4_event list \<Rightarrow> bool" where
  "ended h \<longleftrightarrow> OutputClosed \<in> set h \<or> (\<exists>d x. Rejected d x \<in> set h)"

lemma stream_simps [simp]:
  "offered [] = []" "offered (h @ h') = offered h @ offered h'" "offered [Fed d] = d" "offered [Rejected d e] = d"
  "offered [Took c] = []" "offered [OutputClosed] = []" "collected [] = []" "collected (h @ h') = collected h @ collected h'"
  "collected [Fed d] = []" "collected [Rejected d e] = []" "collected [Took c] = [c]" "collected [OutputClosed] = []"
  "\<not> ended []" "ended (h @ h') \<longleftrightarrow> ended h \<or> ended h'" "\<not> ended [Fed d]" "ended [Rejected d e]" "\<not> ended [Took c]" "ended [OutputClosed]"
  by (auto simp: offered_def collected_def ended_def)

abbreviation reference_chunks :: "bytes \<Rightarrow> mp4_chunk list" where
  "reference_chunks xs \<equiv> fst (parse_boxes (ascii ''ftyp'') [] xs)"

lemma reference_chunks_mono: "prefix xs ys \<Longrightarrow> prefix (reference_chunks xs) (reference_chunks ys)"
proof -
  assume "prefix xs ys"
  then obtain zs where ys: "ys = xs @ zs" by (auto simp: prefix_def)
  obtain cs e p r where "parse_boxes (ascii ''ftyp'') [] xs = (cs, e, p, r)" by (metis prod_cases4)
  from this parse_boxes_append [OF this, of zs] show ?thesis using ys by (simp add: split_beta)
qed

text \<open>
  Why a read is refused after a history, in terms of the bytes offered and the chunks taken
  alone: the output was closed or refused a read before; with this read more than 2 MiB were
  offered and not taken; more than eight chunks of the whole stream would wait; or the
  reference stops at a bad header, which the error describes.
\<close>

definition refused :: "mp4_event list \<Rightarrow> bytes \<Rightarrow> exn \<Rightarrow> bool" where
  "refused h d x \<longleftrightarrow>
     (if ended h then x = ValueError ''MP4 output closed''
      else if int (length (offered h @ d)) - chunk_bytes (collected h) > int MP4_MAX_BYTES
      then x = Mp4CapacityError ''MP4 output capacity exceeded''
      else case parse_boxes (ascii ''ftyp'') [] (offered h @ d) of (cs, e, p, r) \<Rightarrow>
        x = Mp4CapacityError ''MP4 consumer stalled'' \<and> length cs > length (collected h) + MP4_MAX_CHUNKS \<or>
        bad_header e r \<and> x = header_error e r)"

fun feed_justified :: "mp4_event list \<Rightarrow> mp4_event \<Rightarrow> bool" where
  "feed_justified h (Rejected d x) \<longleftrightarrow> refused h d x"
| "feed_justified h (Fed d) \<longleftrightarrow> (\<nexists>x. refused h d x)"
| "feed_justified h _ \<longleftrightarrow> True"

definition mp4_inv :: "mp4_event list \<Rightarrow> fragmented_mp4 \<Rightarrow> bool" where
  "mp4_inv h m \<longleftrightarrow> fm_queued_bytes m = chunk_bytes (fm_chunks m) \<and> length (fm_chunks m) \<le> MP4_MAX_CHUNKS \<and>
     mp4_buffered_bytes m \<le> int MP4_MAX_BYTES \<and> prefix (collected h) (reference_chunks (offered h)) \<and>
     (fm_closed m \<longleftrightarrow> ended h) \<and> (fm_closed m \<longrightarrow> fm_chunks m = []) \<and> each_event feed_justified h \<and>
     (\<not> fm_closed m \<longrightarrow>
        (fm_expected m = ascii ''ftyp'' \<or> fm_expected m = ascii ''moof'' \<longrightarrow> fm_pair m = []) \<and>
        mp4_buffered_bytes m = int (length (offered h)) - chunk_bytes (collected h) \<and>
        parse_boxes (ascii ''ftyp'') [] (offered h) = (collected h @ fm_chunks m, fm_expected m, fm_pair m, fm_buffer m))"

lemma mp4_inv_init: "mp4_inv [] mp4_init"
  by (simp add: mp4_inv_def mp4_init_def mp4_buffered_bytes_def parse_boxes.simps next_box_def)

lemma collected_prefix:
  "prefix (collected h) (reference_chunks (offered h)) \<Longrightarrow> prefix (collected h) (reference_chunks (offered h @ d))"
  using reference_chunks_mono [of "offered h" "offered h @ d"] prefix_order.trans by auto

lemma mp4_inv_close:
  "mp4_inv h m \<Longrightarrow> collected [x] = [] \<Longrightarrow> ended [x] \<Longrightarrow> feed_justified h x \<Longrightarrow> mp4_inv (h @ [x]) (mp4_close m')"
  using collected_prefix by (auto simp: mp4_inv_def mp4_close_def mp4_buffered_bytes_def)

lemma parse_boxes_length:
  "parse_boxes e p xs = (cs, e', p', r) \<Longrightarrow> (e = ascii ''ftyp'' \<or> e = ascii ''moof'' \<longrightarrow> p = []) \<Longrightarrow>
   chunk_bytes cs + int (length p') + int (length r) = int (length p) + int (length xs) \<and>
   (e' = ascii ''ftyp'' \<or> e' = ascii ''moof'' \<longrightarrow> p' = [])"
proof (induction e p xs arbitrary: cs rule: parse_boxes.induct)
  case (1 e p xs)
  show ?case
  proof (cases "next_box e xs")
    case None
    then show ?thesis using "1.prems" by (simp add: parse_boxes.simps [of e p xs])
  next
    case (Some n)
    note le = next_box_le [OF Some]
    show ?thesis
    proof (cases "e = ascii ''ftyp'' \<or> e = ascii ''moof''")
      case True
      then have "parse_boxes (after_box e) (take n xs) (drop n xs) = (cs, e', p', r)"
        using "1.prems"(1) Some by (simp add: parse_boxes.simps [of e p xs])
      from "1.IH"(1) [OF Some True this] True le "1.prems"(2) show ?thesis by (auto simp: after_box_def)
    next
      case False
      then obtain ds where "parse_boxes (after_box e) [] (drop n xs) = (ds, e', p', r)"
        "cs = \<lparr>mc_initialization = (e = ascii ''moov''), mc_data = p @ take n xs\<rparr> # ds"
        using "1.prems"(1) Some by (auto simp: parse_boxes.simps [of e p xs] split: prod.splits)
      with "1.IH"(2) [OF Some False this(1)] le show ?thesis by auto
    qed
  qed
qed

text \<open>A read of an open collector, by the reference on everything offered.\<close>

lemma mp4_feed_reference:
  assumes "mp4_inv h m" "\<not> fm_closed m" "mp4_buffered_bytes m + int (length d) \<le> int MP4_MAX_BYTES" "mp4_feed d m = (res, m')"
    "parse_boxes (ascii ''ftyp'') [] (offered h @ d) = (all, e, p, r)"
  shows "(\<exists>x. res = Inl x \<and> m' = mp4_close m' \<and>
       (x = Mp4CapacityError ''MP4 consumer stalled'' \<and> length all > length (collected h) + MP4_MAX_CHUNKS \<or>
        bad_header e r \<and> x = header_error e r)) \<or>
    (\<exists>cs. res = Inr () \<and> all = collected h @ fm_chunks m @ cs \<and> length (fm_chunks m) + length cs \<le> MP4_MAX_CHUNKS \<and>
       \<not> bad_header e r \<and> parse_boxes (fm_expected m) (fm_pair m) (fm_buffer m @ d) = (cs, e, p, r) \<and>
       m' = parsed_to (m\<lparr>fm_started := fm_started m \<or> d \<noteq> [], fm_buffer := fm_buffer m @ d\<rparr>) cs e p r)"
proof -
  let ?m = "m\<lparr>fm_started := fm_started m \<or> d \<noteq> [], fm_buffer := fm_buffer m @ d\<rparr>"
  obtain res' m1 where b: "mp4_boxes 0 ?m = (res', m1)" by fastforce
  obtain cs e1 p1 r1 where pb: "parse_boxes (fm_expected m) (fm_pair m) (fm_buffer m @ d) = (cs, e1, p1, r1)"
    by (metis prod_cases4)
  have inv: "length (fm_chunks m) \<le> MP4_MAX_CHUNKS"
    "parse_boxes (ascii ''ftyp'') [] (offered h) = (collected h @ fm_chunks m, fm_expected m, fm_pair m, fm_buffer m)"
    using assms(1,2) by (auto simp: mp4_inv_def)
  have same: "all = collected h @ fm_chunks m @ cs" "e1 = e" "p1 = p" "r1 = r"
    using parse_boxes_append [OF inv(2), of d] pb assms(5) by simp_all
  have "MP4_MAX_CHUNKS - length (fm_chunks m) \<le> 8" by (simp add: MP4_MAX_CHUNKS_def)
  then have left: "boxes_left ?m \<le> 64" by (auto simp: boxes_left_def)
  have "boxes_result ?m res' m1 (cs, e, p, r)"
    using mp4_boxes_parse [OF b] inv(1) pb same left by simp
  with assms(2-4) b same pb show ?thesis
    by (cases res') (auto simp: mp4_feed_def boxes_result_def mp4_close_def)
qed

lemma mp4_feed_inv:
  assumes "mp4_inv h m" "mp4_feed d m = (res, m')"
  shows "mp4_inv (h @ [case res of Inl e \<Rightarrow> Rejected d e | Inr _ \<Rightarrow> Fed d]) m'"
proof -
  have held: "mp4_buffered_bytes m = int (length (offered h)) - chunk_bytes (collected h)" if "\<not> fm_closed m"
    using assms(1) that by (simp add: mp4_inv_def)
  have over: "ended h \<longleftrightarrow> fm_closed m" using assms(1) by (simp add: mp4_inv_def)
  obtain all e p r where ref: "parse_boxes (ascii ''ftyp'') [] (offered h @ d) = (all, e, p, r)" by (metis prod_cases4)
  consider (closed) "fm_closed m" | (full) "\<not> fm_closed m" "mp4_buffered_bytes m + int (length d) > int MP4_MAX_BYTES"
    | (run) "\<not> fm_closed m" "mp4_buffered_bytes m + int (length d) \<le> int MP4_MAX_BYTES" by linarith
  then show ?thesis
  proof cases
    case closed
    then have "res = Inl (ValueError ''MP4 output closed'')" "m' = m" using assms(2) by (auto simp: mp4_feed_def)
    moreover have "feed_justified h (Rejected d (ValueError ''MP4 output closed''))"
      using closed over by (simp add: refused_def)
    ultimately show ?thesis using assms(1) closed collected_prefix by (auto simp: mp4_inv_def simp del: feed_justified.simps)
  next
    case full
    then have "res = Inl (Mp4CapacityError ''MP4 output capacity exceeded'')" "m' = mp4_close m" using assms(2) by (auto simp: mp4_feed_def)
    moreover have "feed_justified h (Rejected d (Mp4CapacityError ''MP4 output capacity exceeded''))"
      using full held over by (simp add: refused_def)
    ultimately show ?thesis using mp4_inv_close [OF assms(1), of "Rejected d (Mp4CapacityError ''MP4 output capacity exceeded'')" m] by simp
  next
    case run
    have rf: "refused h d x \<longleftrightarrow> x = Mp4CapacityError ''MP4 consumer stalled'' \<and> length all > length (collected h) + MP4_MAX_CHUNKS \<or>
        bad_header e r \<and> x = header_error e r" for x
      using run held over ref by (simp add: refused_def)
    from mp4_feed_reference [OF assms(1) run assms(2) ref]
    consider (err) x where "res = Inl x" "m' = mp4_close m'" "refused h d x"
      | (ok) cs where "res = Inr ()" "all = collected h @ fm_chunks m @ cs" "length (fm_chunks m) + length cs \<le> MP4_MAX_CHUNKS"
        "\<not> bad_header e r" "parse_boxes (fm_expected m) (fm_pair m) (fm_buffer m @ d) = (cs, e, p, r)"
        "m' = parsed_to (m\<lparr>fm_started := fm_started m \<or> d \<noteq> [], fm_buffer := fm_buffer m @ d\<rparr>) cs e p r"
      unfolding rf by blast
    then show ?thesis
    proof cases
      case err
      with mp4_inv_close [OF assms(1), of "Rejected d x" m'] show ?thesis by simp
    next
      case ok
      have nr: "\<nexists>x. refused h d x" using rf ok(2-4) by simp
      have len: "chunk_bytes cs + int (length p) + int (length r) = int (length (fm_pair m)) + int (length (fm_buffer m @ d))"
        "e = ascii ''ftyp'' \<or> e = ascii ''moof'' \<longrightarrow> p = []"
        using parse_boxes_length [OF ok(5)] assms(1) run(1) by (auto simp: mp4_inv_def)
      have q: "mp4_buffered_bytes m' = mp4_buffered_bytes m + int (length d)"
        using len(1) by (simp add: ok(6) parsed_to_def mp4_buffered_bytes_def)
      have "prefix (collected h) all" by (simp add: ok(2))
      with nr len(2) q assms(1) run ok ref show ?thesis
        by (simp add: mp4_inv_def parsed_to_def)
    qed
  qed
qed

lemma mp4_take_inv:
  "mp4_inv h m \<Longrightarrow> mp4_take m = (res, m') \<Longrightarrow> mp4_inv (h @ (case res of None \<Rightarrow> [] | Some c \<Rightarrow> [Took c])) m'"
  by (auto simp: mp4_take_def mp4_inv_def mp4_buffered_bytes_def split: list.splits)

lemma mp4_claim_inv: "mp4_inv h m \<Longrightarrow> mp4_inv h (snd (mp4_claim m))"
  by (auto simp: mp4_claim_def mp4_inv_def mp4_buffered_bytes_def)

interpretation collector: machine mp4_exec "\<lambda>m. m = mp4_init" mp4_inv
proof unfold_locales
  show "mp4_inv (h @ es) m'" if "mp4_inv h m" "mp4_exec op m = (es, m')" for h m op es m'
    using that mp4_feed_inv [of h m] mp4_take_inv [of h m] mp4_claim_inv [of h m] mp4_inv_close [of h m OutputClosed m]
    by (cases op) (fastforce simp: mp4_exec_def split: prod.splits sum.splits option.splits)+
qed (simp add: mp4_inv_init)

text \<open>What the muxer writes: one initialization pair, then fragment pairs.\<close>

definition mp4_box :: "bytes \<Rightarrow> bytes \<Rightarrow> bytes" where
  "mp4_box kind body = rev (le_bytes 4 (8 + length body)) @ kind @ body"

definition mux :: "bool \<Rightarrow> bytes \<times> bytes \<Rightarrow> mp4_chunk" where
  "mux initial p = \<lparr>mc_initialization = initial, mc_data =
     (if initial then mp4_box (ascii ''ftyp'') (fst p) @ mp4_box (ascii ''moov'') (snd p)
      else mp4_box (ascii ''moof'') (fst p) @ mp4_box (ascii ''mdat'') (snd p))\<rparr>"

fun muxed :: "(bytes \<times> bytes) list \<Rightarrow> mp4_chunk list" where
  "muxed [] = []"
| "muxed (p # ps) = mux True p # map (mux False) ps"

definition body_fits :: "bytes \<times> bytes \<Rightarrow> bool" where
  "body_fits p \<longleftrightarrow> 8 + length (fst p) \<le> MP4_MAX_BYTES \<and> 8 + length (snd p) \<le> MP4_MAX_BYTES"

lemma length_mp4_box [simp]: "length (mp4_box kind body) = 4 + length kind + length body"
  by (simp add: mp4_box_def)

lemma next_box_mp4_box:
  assumes "length kind = 4" "8 + length body \<le> MP4_MAX_BYTES"
  shows "next_box kind (mp4_box kind body @ xs) = Some (8 + length body)"
proof -
  have "be_val (rev (le_bytes 4 (8 + length body))) = 8 + length body"
    using assms(2) by (simp add: be_val_def le_val_le_bytes MP4_MAX_BYTES_def)
  then show ?thesis using assms by (simp add: next_box_def mp4_box_def slice_fields)
qed

lemma parse_pair:
  assumes "e = ascii ''ftyp'' \<or> e = ascii ''moof''" "8 + length a \<le> MP4_MAX_BYTES" "8 + length b \<le> MP4_MAX_BYTES"
  shows "parse_boxes e p (mp4_box e a @ mp4_box (after_box e) b @ xs) =
    (let (cs, r) = parse_boxes (ascii ''moof'') [] xs
     in (\<lparr>mc_initialization = (e = ascii ''ftyp''), mc_data = mp4_box e a @ mp4_box (after_box e) b\<rparr> # cs, r))"
proof -
  have "length e = 4" "length (after_box e) = 4" using assms(1) by (auto simp: after_box_def)
  then show ?thesis using assms
    by (subst parse_boxes.simps, subst parse_boxes.simps)
       (auto simp: next_box_mp4_box after_box_def split: prod.splits)
qed

lemma parse_fragments:
  "\<forall>p \<in> set ps. body_fits p \<Longrightarrow>
   parse_boxes (ascii ''moof'') [] (concat (map mc_data (map (mux False) ps))) = (map (mux False) ps, ascii ''moof'', [], [])"
proof (induction ps)
  case Nil
  then show ?case by (simp add: parse_boxes_None next_box_def)
next
  case (Cons p ps)
  then show ?case using parse_pair [of "ascii ''moof''" "fst p" "snd p" "[]" "concat (map mc_data (map (mux False) ps))"]
    by (simp add: body_fits_def mux_def [of False p] after_box_def)
qed

lemma parse_muxed:
  assumes "\<forall>p \<in> set ps. body_fits p"
  shows "\<exists>e. parse_boxes (ascii ''ftyp'') [] (concat (map mc_data (muxed ps))) = (muxed ps, e, [], [])"
proof (cases ps)
  case Nil
  then show ?thesis by (simp add: parse_boxes_None next_box_def)
next
  case (Cons p ps')
  then show ?thesis using assms parse_fragments [of ps']
      parse_pair [of "ascii ''ftyp''" "fst p" "snd p" "[]" "concat (map mc_data (map (mux False) ps'))"]
    by (simp add: body_fits_def mux_def [of True p] after_box_def)
qed

lemma muxed_no_bad_header:
  assumes "\<forall>p \<in> set ps. body_fits p" "concat (map mc_data (muxed ps)) = xs @ ys" "parse_boxes (ascii ''ftyp'') [] xs = (cs, e, p, r)"
  shows "\<not> bad_header e r"
proof
  assume bad: "bad_header e r"
  then have "parse_boxes e p (r @ ys) = ([], e, p, r @ ys)" by (simp add: parse_boxes_None next_box_bad_header)
  then have "r @ ys = []" using parse_muxed [OF assms(1)] parse_boxes_append [OF assms(3), of ys] assms(2) by auto
  with bad show False by (simp add: bad_header_def)
qed

text \<open>
  C21. The collector is the reference parser, whatever bytes are offered, however they are cut
  into reads and however the consumer is scheduled. While it is open, the chunks taken and
  queued, the half of a pair and the bytes waiting are exactly what the parser of the whole
  stream finds; what was taken is always a prefix of the parser's chunks. A read is refused
  exactly for the reasons the reference gives: the output was closed, over 2 MiB would wait,
  over eight chunks would wait, or the stream has a bad header, which the error names; the
  box budget of a read is never exceeded. A stream of the muxer is collected chunk for chunk
  and no read of it is refused for its framing.
\<close>
theorem mp4_stream_collected:
  assumes "run_ops mp4_exec ops mp4_init = (h, m)"
  shows "prefix (collected h) (reference_chunks (offered h)) \<and> (fm_closed m \<longleftrightarrow> ended h) \<and>
    (\<not> fm_closed m \<longrightarrow>
       parse_boxes (ascii ''ftyp'') [] (offered h) = (collected h @ fm_chunks m, fm_expected m, fm_pair m, fm_buffer m)) \<and>
    each_event feed_justified h \<and>
    (\<forall>ps. (\<forall>p \<in> set ps. body_fits p) \<and> prefix (offered h) (concat (map mc_data (muxed ps))) \<longrightarrow>
       prefix (collected h) (muxed ps) \<and>
       (\<not> fm_closed m \<and> offered h = concat (map mc_data (muxed ps)) \<longrightarrow> collected h @ fm_chunks m = muxed ps) \<and>
       (\<forall>d x. Rejected d x \<in> set h \<longrightarrow> x = ValueError ''MP4 output closed'' \<or>
          x = Mp4CapacityError ''MP4 output capacity exceeded'' \<or> x = Mp4CapacityError ''MP4 consumer stalled''))"
proof -
  have inv: "mp4_inv h m" by (rule collector.reachable_inv [OF refl assms])
  have mux: "prefix (collected h) (muxed ps) \<and>
       (\<not> fm_closed m \<and> offered h = concat (map mc_data (muxed ps)) \<longrightarrow> collected h @ fm_chunks m = muxed ps)"
    if "\<forall>p \<in> set ps. body_fits p" "prefix (offered h) (concat (map mc_data (muxed ps)))" for ps
  proof -
    have all: "reference_chunks (concat (map mc_data (muxed ps))) = muxed ps" using parse_muxed [OF that(1)] by auto
    then have "prefix (reference_chunks (offered h)) (muxed ps)" using reference_chunks_mono [OF that(2)] by simp
    then have "prefix (collected h) (muxed ps)" using inv prefix_order.trans by (auto simp: mp4_inv_def)
    with all inv show ?thesis by (auto simp: mp4_inv_def)
  qed
  have clean: "x = ValueError ''MP4 output closed'' \<or> x = Mp4CapacityError ''MP4 output capacity exceeded'' \<or>
      x = Mp4CapacityError ''MP4 consumer stalled''"
    if ps: "\<forall>p \<in> set ps. body_fits p" "prefix (offered h) (concat (map mc_data (muxed ps)))" and r: "Rejected d x \<in> set h" for ps d x
  proof -
    obtain h1 h2 where h: "h = h1 @ Rejected d x # h2" using r by (auto simp: in_set_conv_decomp)
    have "refused h1 d x" using each_eventD [of feed_justified h1 "Rejected d x" h2] inv h by (simp add: mp4_inv_def)
    moreover obtain ys where ys: "concat (map mc_data (muxed ps)) = (offered h1 @ d) @ ys"
      using ps(2) h by (auto simp: prefix_def offered_def)
    ultimately show ?thesis using muxed_no_bad_header [OF ps(1) ys] by (auto simp: refused_def split: if_splits prod.splits)
  qed
  from inv mux clean show ?thesis by (auto simp: mp4_inv_def)
qed

definition demo_bodies :: "(bytes \<times> bytes) list" where
  "demo_bodies = [([], [1]), ([2], [3])]"

definition demo_reads :: "mp4_op list" where
  "demo_reads = [Feed (take 5 (concat (map mc_data (muxed demo_bodies)))), Take,
     Feed (drop 5 (concat (map mc_data (muxed demo_bodies)))), Take]"

theorem mp4_stream_collected_witness:
  "\<exists>h m. run_ops mp4_exec demo_reads mp4_init = (h, m) \<and> collected h = [mux True ([], [1])] \<and>
     collected h @ fm_chunks m = muxed demo_bodies"
proof -
  obtain h m where r: "run_ops mp4_exec demo_reads mp4_init = (h, m)" by fastforce
  have "fst (run_ops mp4_exec demo_reads mp4_init) = [Fed (take 5 (concat (map mc_data (muxed demo_bodies)))),
      Fed (drop 5 (concat (map mc_data (muxed demo_bodies)))), Took (mux True ([], [1]))] \<and>
    \<not> fm_closed (snd (run_ops mp4_exec demo_reads mp4_init))"
    by (simp add: demo_reads_def demo_bodies_def mux_def mp4_box_def le_bytes_4 mp4_exec_def mp4_feed_def mp4_take_def
        mp4_buffered_bytes_def mp4_boxes.simps mp4_init_def MP4_MAX_BYTES_def MP4_MAX_CHUNKS_def be_val_def pyslice_def ascii_def)
  with r have h: "offered h = concat (map mc_data (muxed demo_bodies))" "\<not> fm_closed m" "collected h = [mux True ([], [1])]"
    by (simp_all add: offered_def collected_def)
  have "\<forall>p \<in> set demo_bodies. body_fits p" by (simp add: demo_bodies_def body_fits_def MP4_MAX_BYTES_def)
  then have "collected h @ fm_chunks m = muxed demo_bodies" using mp4_stream_collected [OF r] h by auto
  with r h show ?thesis by blast
qed

end
