(* ===== verification/Mp4Fanout.thy ===== *)
theory Mp4Fanout
  imports Mp4Output
begin

text \<open>
  \<^verbatim>\<open>media/mp4_fanout.py\<close>: one ring of fragments shared by all readers of a camera. Every
  method runs under the hub's lock. Subscription objects are numbered in the order of
  their creation; the hub's set of readers holds the numbers of the live ones, and an
  operation is only applied to a subscription that exists.
\<close>

section \<open>The hub\<close>

definition MAX_READERS :: nat where
  "MAX_READERS = 16"

definition MAX_INIT_BYTES :: nat where
  "MAX_INIT_BYTES = 256 * 1024"

datatype stream_error = StreamClosed | SlowConsumer

record subscription =
  su_sequence :: nat
  su_initialization_pending :: bool
  su_error :: "stream_error option"

record mp4_fanout =
  fo_initialization :: "mp4_chunk option"
  fo_fragments :: "(nat \<times> mp4_chunk) list"
  fo_readers :: "nat set"
  fo_bytes :: int
  fo_sequence :: nat
  fo_closed :: bool
  fo_subscriptions :: "subscription list"

definition fan_init :: mp4_fanout where
  "fan_init = \<lparr>fo_initialization = None, fo_fragments = [], fo_readers = {}, fo_bytes = 0, fo_sequence = 0,
     fo_closed = False, fo_subscriptions = []\<rparr>"

definition raise_stream_error :: "stream_error \<Rightarrow> string \<Rightarrow> exn" where
  "raise_stream_error e message = (case e of StreamClosed \<Rightarrow> StreamClosedError message | SlowConsumer \<Rightarrow> SlowConsumerError message)"

text \<open>Give the error \<open>e\<close> to every subscription in \<open>I\<close>.\<close>

definition mark_error :: "nat set \<Rightarrow> stream_error \<Rightarrow> subscription list \<Rightarrow> subscription list" where
  "mark_error I e subs = map (\<lambda>i. if i \<in> I then (subs ! i)\<lparr>su_error := Some e\<rparr> else subs ! i) [0..<length subs]"

definition fan_close :: "mp4_fanout \<Rightarrow> mp4_fanout" where
  "fan_close f = f\<lparr>fo_closed := True, fo_subscriptions := mark_error (fo_readers f) StreamClosed (fo_subscriptions f),
     fo_readers := {}, fo_fragments := [], fo_initialization := None, fo_bytes := 0\<rparr>"

fun evict :: "nat \<Rightarrow> (nat \<times> mp4_chunk) list \<Rightarrow> int \<Rightarrow> (nat \<times> mp4_chunk) list \<times> int" where
  "evict n [] b = ([], b)"
| "evict n (x # xs) b =
     (if length (x # xs) \<ge> MP4_MAX_CHUNKS \<or> b + int n > int MP4_MAX_BYTES
      then evict n xs (b - int (length (mc_data (snd x)))) else (x # xs, b))"

definition drop_slow :: "mp4_fanout \<Rightarrow> mp4_fanout" where
  "drop_slow f = (let first = fst (hd (fo_fragments f));
       slow = {i \<in> fo_readers f. su_sequence (fo_subscriptions f ! i) < first}
     in f\<lparr>fo_subscriptions := mark_error slow SlowConsumer (fo_subscriptions f), fo_readers := fo_readers f - slow\<rparr>)"

definition fan_publish :: "mp4_chunk \<Rightarrow> mp4_fanout \<Rightarrow> (exn + unit) \<times> mp4_fanout" where
  "fan_publish chunk f =
     (let fail = (\<lambda>message. (Inl (ValueError message), fan_close f)); n = length (mc_data chunk)
      in if fo_closed f then (Inl (StreamClosedError ''native output epoch ended''), f)
      else if mc_data chunk = [] then fail ''invalid MP4 chunk''
      else if mc_initialization chunk then
        if fo_initialization f \<noteq> None \<or> n > MAX_INIT_BYTES then fail ''invalid MP4 initialization''
        else (Inr (), f\<lparr>fo_initialization := Some chunk, fo_bytes := int n\<rparr>)
      else case fo_initialization f of
        None \<Rightarrow> fail ''MP4 initialization required''
      | Some initialization \<Rightarrow>
          if n + length (mc_data initialization) > MP4_MAX_BYTES then fail ''MP4 fragment exceeds ring budget''
          else case evict n (fo_fragments f) (fo_bytes f) of (fragments, b) \<Rightarrow>
            (Inr (), drop_slow (f\<lparr>fo_fragments := fragments @ [(fo_sequence f, chunk)],
               fo_sequence := fo_sequence f + 1, fo_bytes := b + int n\<rparr>)))"

definition fan_subscribe :: "mp4_fanout \<Rightarrow> (exn + nat) \<times> mp4_fanout" where
  "fan_subscribe f =
     (if fo_closed f \<or> fo_fragments f = [] then (Inl (StreamClosedError ''native output is not ready''), f)
      else if card (fo_readers f) \<ge> MAX_READERS
      then (Inl (StreamClosedError ''native output reader capacity reached''), f)
      else let i = length (fo_subscriptions f);
               reader = \<lparr>su_sequence = fst (last (fo_fragments f)), su_initialization_pending = True, su_error = None\<rparr>
           in (Inr i, f\<lparr>fo_subscriptions := fo_subscriptions f @ [reader], fo_readers := insert i (fo_readers f)\<rparr>))"

text \<open>Python's indexing of a list or deque: a negative index counts from the end.\<close>

definition py_getitem :: "'a list \<Rightarrow> int \<Rightarrow> exn + 'a" where
  "py_getitem xs i =
     (if 0 \<le> i \<and> i < int (length xs) then Inr (xs ! nat i)
      else if - int (length xs) \<le> i \<and> i < 0 then Inr (xs ! nat (int (length xs) + i)) else Inl IndexError)"

definition fan_take :: "nat \<Rightarrow> mp4_fanout \<Rightarrow> (exn + mp4_chunk option) \<times> mp4_fanout" where
  "fan_take i f =
     (let reader = fo_subscriptions f ! i
      in case su_error reader of
        Some e \<Rightarrow> (Inl (raise_stream_error e ''native output subscription ended''), f)
      | None \<Rightarrow>
        if i \<notin> fo_readers f \<or> fo_closed f then (Inl (StreamClosedError ''native output subscription ended''), f)
        else if su_initialization_pending reader
        then (Inr (fo_initialization f), f\<lparr>fo_subscriptions := (fo_subscriptions f)[i := reader\<lparr>su_initialization_pending := False\<rparr>]\<rparr>)
        else case py_getitem (fo_fragments f) 0 of
          Inl e \<Rightarrow> (Inl e, f)
        | Inr first \<Rightarrow>
          let index = int (su_sequence reader) - int (fst first)
          in if index \<ge> int (length (fo_fragments f)) then (Inr None, f)
          else case py_getitem (fo_fragments f) index of
            Inl e \<Rightarrow> (Inl e, f)
          | Inr (_, chunk) \<Rightarrow>
              (Inr (Some chunk), f\<lparr>fo_subscriptions := (fo_subscriptions f)[i := reader\<lparr>su_sequence := su_sequence reader + 1\<rparr>]\<rparr>))"

definition reader_close :: "nat \<Rightarrow> mp4_fanout \<Rightarrow> mp4_fanout" where
  "reader_close i f =
     (let reader = fo_subscriptions f ! i
      in f\<lparr>fo_readers := fo_readers f - {i}, fo_subscriptions := (fo_subscriptions f)[i :=
           reader\<lparr>su_error := (case su_error reader of None \<Rightarrow> Some StreamClosed | Some e \<Rightarrow> Some e)\<rparr>]\<rparr>)"

section \<open>Histories\<close>

datatype fan_op = Publish mp4_chunk | Subscribe | FanTake nat | ReaderClose nat | FanClose

datatype fan_event = Published mp4_chunk | Subscribed nat | Delivered nat mp4_chunk | TakeFailed nat exn

definition fan_exec :: "fan_op \<Rightarrow> mp4_fanout \<Rightarrow> fan_event list \<times> mp4_fanout" where
  "fan_exec op f = (case op of
     Publish c \<Rightarrow> (case fan_publish c f of (Inr _, f) \<Rightarrow> ([Published c], f) | (Inl _, f) \<Rightarrow> ([], f))
   | Subscribe \<Rightarrow> (case fan_subscribe f of (Inr i, f) \<Rightarrow> ([Subscribed i], f) | (Inl _, f) \<Rightarrow> ([], f))
   | FanTake i \<Rightarrow> if i < length (fo_subscriptions f) then
       case fan_take i f of (Inl e, f) \<Rightarrow> ([TakeFailed i e], f) | (Inr None, f) \<Rightarrow> ([], f) | (Inr (Some c), f) \<Rightarrow> ([Delivered i c], f)
       else ([], f)
   | ReaderClose i \<Rightarrow> ([], if i < length (fo_subscriptions f) then reader_close i f else f)
   | FanClose \<Rightarrow> ([], fan_close f))"

definition published :: "bool \<Rightarrow> fan_event list \<Rightarrow> mp4_chunk list" where
  "published initial h = concat (map (\<lambda>e. case e of Published c \<Rightarrow> if mc_initialization c = initial then [c] else [] | _ \<Rightarrow> []) h)"

definition delivered :: "nat \<Rightarrow> fan_event list \<Rightarrow> mp4_chunk list" where
  "delivered i h = concat (map (\<lambda>e. case e of Delivered j c \<Rightarrow> if j = i then [c] else [] | _ \<Rightarrow> []) h)"

lemma fan_history_simps [simp]:
  "published b [] = []" "published b (h @ h') = published b h @ published b h'"
  "published b [Published c] = (if mc_initialization c = b then [c] else [])"
  "published b [Subscribed i] = []" "published b [Delivered i c] = []" "published b [TakeFailed i e] = []"
  "delivered i [] = []" "delivered i (h @ h') = delivered i h @ delivered i h'"
  "delivered i [Delivered j c] = (if j = i then [c] else [])"
  "delivered i [Published c] = []" "delivered i [Subscribed j] = []" "delivered i [TakeFailed j e] = []"
  by (simp_all add: published_def delivered_def)

text \<open>The ring holds the last fragments published, numbered from the first.\<close>

definition ring_ok :: "fan_event list \<Rightarrow> mp4_fanout \<Rightarrow> bool" where
  "ring_ok h f \<longleftrightarrow> (let F = published False h; n = length F - length (fo_fragments f) in
     length (fo_fragments f) \<le> length F \<and> length (fo_fragments f) \<le> MP4_MAX_CHUNKS \<and>
     fo_fragments f = zip [n..<length F] (drop n F) \<and> (F \<noteq> [] \<longrightarrow> fo_fragments f \<noteq> []) \<and>
     published True h = (case fo_initialization f of None \<Rightarrow> [] | Some c \<Rightarrow> [c]) \<and>
     (fo_initialization f = None \<longrightarrow> F = []) \<and>
     fo_bytes f = chunk_bytes (published True h) + chunk_bytes (map snd (fo_fragments f)) \<and> fo_bytes f \<le> int MP4_MAX_BYTES)"

text \<open>What reader \<open>i\<close>, who joined when fragment number \<open>k\<close> was the newest, has been given.\<close>

definition reader_ok :: "fan_event list \<Rightarrow> subscription \<Rightarrow> nat \<Rightarrow> nat \<Rightarrow> bool" where
  "reader_ok h s i k \<longleftrightarrow> k \<le> su_sequence s \<and> su_sequence s \<le> length (published False h) \<and> k < length (published False h) \<and>
     (su_initialization_pending s \<longrightarrow> su_sequence s = k) \<and>
     delivered i h = (if su_initialization_pending s then []
       else published True h @ take (su_sequence s - k) (drop k (published False h)))"

definition readers_ok :: "fan_event list \<Rightarrow> subscription list \<Rightarrow> bool" where
  "readers_ok h subs \<longleftrightarrow> (\<forall>h1 i h2. h = h1 @ Subscribed i # h2 \<longrightarrow> i < length subs \<and>
     reader_ok h (subs ! i) i (length (published False h1) - 1))"

definition fan_inv :: "fan_event list \<Rightarrow> mp4_fanout \<Rightarrow> bool" where
  "fan_inv h f \<longleftrightarrow> fo_sequence f = length (published False h) \<and> length (published True h) \<le> 1 \<and>
     (if fo_closed f then fo_readers f = {} \<and> fo_bytes f = 0 \<and> fo_fragments f = [] else ring_ok h f) \<and>
     card (fo_readers f) \<le> MAX_READERS \<and> fo_readers f \<subseteq> {..<length (fo_subscriptions f)} \<and>
     (\<forall>i < length (fo_subscriptions f). su_error (fo_subscriptions f ! i) = None \<longleftrightarrow> i \<in> fo_readers f) \<and>
     (\<forall>i \<in> fo_readers f. fo_fragments f \<noteq> [] \<and> fst (hd (fo_fragments f)) \<le> su_sequence (fo_subscriptions f ! i)) \<and>
     readers_ok h (fo_subscriptions f) \<and> (\<forall>i. length (fo_subscriptions f) \<le> i \<longrightarrow> delivered i h = []) \<and>
     (\<forall>i e. TakeFailed i e \<in> set h \<longrightarrow> (\<exists>t. e = StreamClosedError t \<or> e = SlowConsumerError t))"

lemma fan_inv_init: "fan_inv [] fan_init"
  by (simp add: fan_inv_def fan_init_def ring_ok_def readers_ok_def)

lemma length_mark_error [simp]: "length (mark_error I e subs) = length subs"
  by (simp add: mark_error_def)

lemma nth_mark_error [simp]:
  "i < length subs \<Longrightarrow> mark_error I e subs ! i = (if i \<in> I then (subs ! i)\<lparr>su_error := Some e\<rparr> else subs ! i)"
  by (simp add: mark_error_def)

lemma reader_ok_error [simp]: "reader_ok h (s\<lparr>su_error := e\<rparr>) i k = reader_ok h s i k"
  by (simp add: reader_ok_def)

lemma readers_ok_map:
  "readers_ok h subs \<Longrightarrow> length subs' = length subs \<Longrightarrow>
   (\<And>i k. i < length subs \<Longrightarrow> reader_ok h (subs ! i) i k \<Longrightarrow> reader_ok h (subs' ! i) i k) \<Longrightarrow> readers_ok h subs'"
  unfolding readers_ok_def by metis

lemma readers_ok_snoc:
  assumes "readers_ok h subs" "\<And>i. e \<noteq> Subscribed i" "length subs' = length subs"
    "\<And>i k. i < length subs \<Longrightarrow> reader_ok h (subs ! i) i k \<Longrightarrow> reader_ok (h @ [e]) (subs' ! i) i k"
  shows "readers_ok (h @ [e]) subs'"
  using assms unfolding readers_ok_def history_snoc_split by metis

lemma readers_ok_join:
  assumes "readers_ok h subs" "reader_ok (h @ [Subscribed (length subs)]) s (length subs) (length (published False h) - 1)"
  shows "readers_ok (h @ [Subscribed (length subs)]) (subs @ [s])"
proof -
  have "reader_ok (h @ [Subscribed i]) s j k = reader_ok h s j k" for i s j k by (simp add: reader_ok_def)
  then show ?thesis using assms unfolding readers_ok_def history_snoc_split
    by (auto simp: nth_append less_Suc_eq)
qed

lemma fan_close_inv: "fan_inv h f \<Longrightarrow> fan_inv h (fan_close f)"
  by (auto simp: fan_inv_def fan_close_def elim!: readers_ok_map)

lemma reader_close_inv:
  assumes "fan_inv h f" "i < length (fo_subscriptions f)"
  shows "fan_inv h (reader_close i f)"
proof -
  have "card (fo_readers f - {i}) \<le> card (fo_readers f)"
    using assms finite_subset [of "fo_readers f" "{..<length (fo_subscriptions f)}"] by (auto simp: fan_inv_def intro: card_mono)
  then show ?thesis using assms
    by (auto simp: fan_inv_def reader_close_def Let_def nth_list_update ring_ok_def split: option.splits elim!: readers_ok_map)
qed

lemma ring_nth:
  assumes "ring_ok h f" "j < length (fo_fragments f)"
  shows "fo_fragments f ! j = (length (published False h) - length (fo_fragments f) + j,
    published False h ! (length (published False h) - length (fo_fragments f) + j))"
proof -
  let ?F = "published False h" let ?n = "length ?F - length (fo_fragments f)"
  have "fo_fragments f = zip [?n..<length ?F] (drop ?n ?F)" "length (fo_fragments f) \<le> length ?F"
    using assms(1) by (simp_all add: ring_ok_def Let_def)
  then have "fo_fragments f ! j = zip [?n..<length ?F] (drop ?n ?F) ! j" "?n + j < length ?F" using assms(2) by auto
  then show ?thesis by simp
qed

lemma ring_ends:
  assumes "ring_ok h f" "fo_fragments f \<noteq> []"
  shows "fst (hd (fo_fragments f)) = length (published False h) - length (fo_fragments f)"
    "fst (last (fo_fragments f)) = length (published False h) - 1" "published False h \<noteq> []"
    "length (fo_fragments f) \<le> length (published False h)" "\<exists>c. fo_initialization f = Some c"
proof -
  have len: "length (fo_fragments f) \<le> length (published False h)" "0 < length (fo_fragments f)"
    "fo_initialization f = None \<longrightarrow> published False h = []"
    using assms by (simp_all add: ring_ok_def Let_def)
  with ring_nth [OF assms(1), of 0] ring_nth [OF assms(1), of "length (fo_fragments f) - 1"] assms(2)
  show "fst (hd (fo_fragments f)) = length (published False h) - length (fo_fragments f)"
    "fst (last (fo_fragments f)) = length (published False h) - 1" "published False h \<noteq> []"
    "length (fo_fragments f) \<le> length (published False h)" "\<exists>c. fo_initialization f = Some c"
    by (auto simp: hd_conv_nth last_conv_nth)
qed

lemma fan_subscribe_inv:
  assumes "fan_inv h f" "fan_subscribe f = (Inr i, f')"
  shows "fan_inv (h @ [Subscribed i]) f'"
proof -
  let ?s = "\<lparr>su_sequence = fst (last (fo_fragments f)), su_initialization_pending = True, su_error = None\<rparr>"
  have f: "\<not> fo_closed f" "fo_fragments f \<noteq> []" "card (fo_readers f) < MAX_READERS" "i = length (fo_subscriptions f)"
    "f' = f\<lparr>fo_subscriptions := fo_subscriptions f @ [?s], fo_readers := insert i (fo_readers f)\<rparr>"
    using assms(2) by (auto simp: fan_subscribe_def Let_def split: if_splits)
  have ring: "ring_ok h f" using assms(1) f(1) by (simp add: fan_inv_def)
  note ends = ring_ends [OF ring f(2)]
  have card: "card (insert i (fo_readers f)) \<le> MAX_READERS"
    using f(3,4) assms(1) finite_subset [of "fo_readers f" "{..<length (fo_subscriptions f)}"]
    by (auto simp: fan_inv_def card_insert_if)
  have new: "reader_ok (h @ [Subscribed i]) ?s i (length (published False h) - 1)"
    using assms(1) ends f(4) by (auto simp: reader_ok_def fan_inv_def)
  have "fst (hd (fo_fragments f)) \<le> fst (last (fo_fragments f))"
    using ends(1,2,4) f(2) by (cases "fo_fragments f") auto
  moreover have "ring_ok (h @ [Subscribed i]) f'" using ring f(5) by (simp add: ring_ok_def)
  moreover have "readers_ok (h @ [Subscribed i]) (fo_subscriptions f')"
    using readers_ok_join [of h "fo_subscriptions f"] assms(1) new f(4,5) by (simp add: fan_inv_def)
  ultimately show ?thesis using assms(1) f card
    unfolding fan_inv_def by (auto simp: nth_append less_Suc_eq)
qed

lemma evict_spec:
  "evict n xs b = (ys, b') \<Longrightarrow> \<exists>m. m \<le> length xs \<and> ys = drop m xs \<and> b' = b - chunk_bytes (map snd (take m xs)) \<and>
     (ys = [] \<or> length ys < MP4_MAX_CHUNKS \<and> b' + int n \<le> int MP4_MAX_BYTES)"
proof (induction n xs b rule: evict.induct)
  case (2 n x xs b)
  show ?case
  proof (cases "length (x # xs) \<ge> MP4_MAX_CHUNKS \<or> b + int n > int MP4_MAX_BYTES")
    case True
    then obtain m where "m \<le> length xs" "ys = drop m xs" "b' = b - int (length (mc_data (snd x))) - chunk_bytes (map snd (take m xs))"
      "ys = [] \<or> length ys < MP4_MAX_CHUNKS \<and> b' + int n \<le> int MP4_MAX_BYTES" using 2 by auto
    then show ?thesis by (intro exI [of _ "Suc m"]) auto
  next
    case False
    then show ?thesis using "2.prems" by (intro exI [of _ 0]) auto
  qed
qed simp

lemma ring_drop: "drop m (zip [n..<L] (drop n F)) = zip [n + m..<L] (drop (n + m) F)"
  by (simp add: drop_zip ac_simps)

lemma reader_ok_published:
  "reader_ok h s i k \<Longrightarrow> \<not> mc_initialization c \<Longrightarrow> reader_ok (h @ [Published c]) s i k"
  by (auto simp: reader_ok_def)

lemma publish_init_inv:
  assumes "fan_inv h f" "\<not> fo_closed f" "mc_initialization c" "fo_initialization f = None" "length (mc_data c) \<le> MAX_INIT_BYTES"
  shows "fan_inv (h @ [Published c]) (f\<lparr>fo_initialization := Some c, fo_bytes := int (length (mc_data c))\<rparr>)"
proof -
  have ring: "ring_ok h f" using assms by (simp add: fan_inv_def)
  then have F: "published False h = []" "fo_fragments f = []" "published True h = []"
    using assms(4) by (auto simp: ring_ok_def Let_def)
  moreover have "readers_ok (h @ [Published c]) (fo_subscriptions f)"
    by (rule readers_ok_snoc [where subs = "fo_subscriptions f"]) (use assms F in \<open>auto simp: fan_inv_def reader_ok_def\<close>)
  ultimately show ?thesis using assms
    by (auto simp: fan_inv_def ring_ok_def MAX_INIT_BYTES_def MP4_MAX_BYTES_def)
qed

lemma publish_fragment_inv:
  assumes "fan_inv h f" "\<not> fo_closed f" "\<not> mc_initialization c" "fo_initialization f = Some ini"
    "length (mc_data c) + length (mc_data ini) \<le> MP4_MAX_BYTES"
    "evict (length (mc_data c)) (fo_fragments f) (fo_bytes f) = (fragments, b)"
  shows "fan_inv (h @ [Published c]) (drop_slow (f\<lparr>fo_fragments := fragments @ [(fo_sequence f, c)],
     fo_sequence := fo_sequence f + 1, fo_bytes := b + int (length (mc_data c))\<rparr>))"
proof -
  let ?F = "published False h" let ?L = "length ?F" let ?n = "?L - length (fo_fragments f)"
  let ?f = "f\<lparr>fo_fragments := fragments @ [(fo_sequence f, c)], fo_sequence := fo_sequence f + 1,
    fo_bytes := b + int (length (mc_data c))\<rparr>"
  have ring: "ring_ok h f" and seq: "fo_sequence f = ?L" using assms(1,2) by (simp_all add: fan_inv_def)
  obtain m where m: "m \<le> length (fo_fragments f)" "fragments = drop m (fo_fragments f)"
    "b = fo_bytes f - chunk_bytes (map snd (take m (fo_fragments f)))"
    "fragments = [] \<or> length fragments < MP4_MAX_CHUNKS \<and> b + int (length (mc_data c)) \<le> int MP4_MAX_BYTES"
    using evict_spec [OF assms(6)] by blast
  have len: "length (fo_fragments f) \<le> ?L" "fo_fragments f = zip [?n..<?L] (drop ?n ?F)"
    "fo_bytes f = int (length (mc_data ini)) + chunk_bytes (map snd (fo_fragments f))"
    using ring assms(4) by (simp_all add: ring_ok_def Let_def)
  have "chunk_bytes (map snd (fo_fragments f)) = chunk_bytes (map snd (take m (fo_fragments f))) + chunk_bytes (map snd fragments)"
    unfolding m(2) by (metis append_take_drop_id chunk_bytes_simps(3) map_append)
  then have bytes: "b = int (length (mc_data ini)) + chunk_bytes (map snd fragments)" using m(3) len(3) by simp
  have frag: "fragments = zip [?n + m..<?L] (drop (?n + m) ?F)"
    unfolding m(2) by (subst len(2)) (rule ring_drop)
  have nm: "Suc ?L - Suc (length fragments) = ?n + m" "?n + m \<le> ?L" using m(1,2) len(1) by auto
  have ring': "ring_ok (h @ [Published c]) ?f"
  proof -
    have "fragments @ [(?L, c)] = zip [?n + m..<Suc ?L] (drop (?n + m) (?F @ [c]))"
      using frag nm(2) by (simp add: zip_append)
    moreover have "b + int (length (mc_data c)) \<le> int MP4_MAX_BYTES" using m(4) bytes assms(5) by auto
    moreover have "length fragments \<le> ?L" using m(1,2) len(1) by simp
    moreover have "Suc (length fragments) \<le> MP4_MAX_CHUNKS" using m(4) by (auto simp: MP4_MAX_CHUNKS_def)
    ultimately show ?thesis using ring assms(3,4) seq nm bytes len(1) m(1,2) by (auto simp: ring_ok_def Let_def)
  qed
  let ?slow = "{i \<in> fo_readers f. su_sequence (fo_subscriptions f ! i) < fst (hd (fo_fragments ?f))}"
  have sub: "drop_slow ?f = ?f\<lparr>fo_subscriptions := mark_error ?slow SlowConsumer (fo_subscriptions f), fo_readers := fo_readers f - ?slow\<rparr>"
    by (simp add: drop_slow_def Let_def)
  have "readers_ok (h @ [Published c]) (mark_error ?slow SlowConsumer (fo_subscriptions f))"
    by (rule readers_ok_snoc [where subs = "fo_subscriptions f"])
       (use assms(1,3) in \<open>auto simp: fan_inv_def intro: reader_ok_published\<close>)
  moreover have "card (fo_readers f - ?slow) \<le> card (fo_readers f)"
    using assms(1) finite_subset [of "fo_readers f" "{..<length (fo_subscriptions f)}"] by (auto simp: fan_inv_def intro: card_mono)
  moreover have "su_sequence (mark_error ?slow SlowConsumer (fo_subscriptions f) ! i) = su_sequence (fo_subscriptions f ! i)"
    if "i \<in> fo_readers f" for i using that assms(1) by (auto simp: fan_inv_def)
  moreover have "ring_ok (h @ [Published c]) (drop_slow ?f)" using ring' unfolding sub by (simp add: ring_ok_def)
  ultimately show ?thesis using assms(1-3) seq unfolding sub
    by (auto simp: fan_inv_def)
qed

lemma fan_publish_inv:
  assumes "fan_inv h f" "fan_publish c f = (res, f')"
  shows "fan_inv (h @ (case res of Inl _ \<Rightarrow> [] | Inr _ \<Rightarrow> [Published c])) f'"
proof (cases res)
  case (Inl e)
  then have "f' = f \<or> f' = fan_close f"
    using assms(2) by (auto simp: fan_publish_def Let_def split: if_splits option.splits prod.splits)
  then show ?thesis using assms(1) fan_close_inv Inl by auto
next
  case (Inr u)
  show ?thesis
  proof (cases "mc_initialization c")
    case True
    then show ?thesis using assms Inr publish_init_inv [OF assms(1), of c]
      by (auto simp: fan_publish_def Let_def split: if_splits)
  next
    case False
    then show ?thesis using assms Inr publish_fragment_inv [OF assms(1), of c]
      by (auto simp: fan_publish_def Let_def split: if_splits option.splits prod.splits)
  qed
qed

text \<open>A live reader's cursor is in the ring or one past its end: the index is never negative.\<close>

lemma reader_index:
  assumes "fan_inv h f" "i \<in> fo_readers f"
  shows "\<not> fo_closed f" "ring_ok h f" "fo_fragments f \<noteq> []" "i < length (fo_subscriptions f)"
    "length (published False h) - length (fo_fragments f) \<le> su_sequence (fo_subscriptions f ! i)"
    "su_error (fo_subscriptions f ! i) = None"
proof -
  show c: "\<not> fo_closed f" and r: "ring_ok h f" and n: "fo_fragments f \<noteq> []" and "i < length (fo_subscriptions f)"
    and "su_error (fo_subscriptions f ! i) = None"
    using assms by (auto simp: fan_inv_def split: if_splits)
  show "length (published False h) - length (fo_fragments f) \<le> su_sequence (fo_subscriptions f ! i)"
    using assms ring_ends(1) [OF r n] by (auto simp: fan_inv_def)
qed

lemma fan_take_dead:
  "fan_inv h f \<Longrightarrow> i < length (fo_subscriptions f) \<Longrightarrow> i \<notin> fo_readers f \<Longrightarrow>
   \<exists>t e. fan_take i f = (Inl e, f) \<and> (e = StreamClosedError t \<or> e = SlowConsumerError t)"
  by (auto simp: fan_inv_def fan_take_def raise_stream_error_def Let_def split: option.splits stream_error.splits)

lemma fan_take_live:
  assumes "fan_inv h f" "i \<in> fo_readers f"
  shows "fan_take i f = (let s = fo_subscriptions f ! i; F = published False h
    in if su_initialization_pending s
       then (Inr (fo_initialization f), f\<lparr>fo_subscriptions := (fo_subscriptions f)[i := s\<lparr>su_initialization_pending := False\<rparr>]\<rparr>)
       else if length F \<le> su_sequence s then (Inr None, f)
       else (Inr (Some (F ! su_sequence s)), f\<lparr>fo_subscriptions := (fo_subscriptions f)[i := s\<lparr>su_sequence := su_sequence s + 1\<rparr>]\<rparr>))"
proof -
  let ?s = "fo_subscriptions f ! i" let ?F = "published False h" let ?n = "length ?F - length (fo_fragments f)"
  note live = reader_index [OF assms]
  note ends = ring_ends [OF live(2,3)]
  have first: "py_getitem (fo_fragments f) 0 = Inr (fo_fragments f ! 0)" "fst (fo_fragments f ! 0) = ?n"
    using live(3) ends(1) by (auto simp: py_getitem_def hd_conv_nth)
  have "py_getitem (fo_fragments f) (int (su_sequence ?s) - int ?n) = Inr (su_sequence ?s, ?F ! su_sequence ?s)"
    if "su_sequence ?s < length ?F"
  proof -
    have "nat (int (su_sequence ?s) - int ?n) = su_sequence ?s - ?n" using live(5) by linarith
    moreover have "su_sequence ?s - ?n < length (fo_fragments f)" using that live(5) ends(4) live(3) by linarith
    ultimately show ?thesis using ring_nth [OF live(2), of "su_sequence ?s - ?n"] live(5)
      by (simp add: py_getitem_def)
  qed
  then show ?thesis using live assms(2) first ends(4)
    by (simp add: fan_take_def Let_def)
qed

lemma reader_ok_pending:
  "reader_ok h s i k \<Longrightarrow> su_initialization_pending s \<Longrightarrow> published True h = [c] \<Longrightarrow>
   reader_ok (h @ [Delivered i c]) (s\<lparr>su_initialization_pending := False\<rparr>) i k"
  by (simp add: reader_ok_def)

lemma reader_ok_next:
  assumes "reader_ok h s i k" "\<not> su_initialization_pending s" "su_sequence s < length (published False h)"
  shows "reader_ok (h @ [Delivered i (published False h ! su_sequence s)]) (s\<lparr>su_sequence := su_sequence s + 1\<rparr>) i k"
proof -
  have "take (Suc (su_sequence s - k)) (drop k (published False h)) =
      take (su_sequence s - k) (drop k (published False h)) @ [published False h ! su_sequence s]"
    using assms take_Suc_conv_app_nth [of "su_sequence s - k" "drop k (published False h)"] by (auto simp: reader_ok_def)
  then show ?thesis using assms by (simp add: reader_ok_def Suc_diff_le)
qed

lemma reader_ok_other: "reader_ok h s j k \<Longrightarrow> j \<noteq> i \<Longrightarrow> reader_ok (h @ [Delivered i c]) s j k"
  by (simp add: reader_ok_def)

lemma fan_delivered_inv:
  assumes "fan_inv h f" "i \<in> fo_readers f" "f' = f\<lparr>fo_subscriptions := (fo_subscriptions f)[i := s]\<rparr>"
    "su_error s = None" "su_sequence (fo_subscriptions f ! i) \<le> su_sequence s"
    "\<And>k. reader_ok h (fo_subscriptions f ! i) i k \<Longrightarrow> reader_ok (h @ [Delivered i c]) s i k"
  shows "fan_inv (h @ [Delivered i c]) f'"
proof -
  have i: "i < length (fo_subscriptions f)" by (rule reader_index(4) [OF assms(1,2)])
  have "readers_ok (h @ [Delivered i c]) ((fo_subscriptions f)[i := s])"
  proof (rule readers_ok_snoc [where subs = "fo_subscriptions f"])
    fix j k assume "j < length (fo_subscriptions f)" "reader_ok h (fo_subscriptions f ! j) j k"
    then show "reader_ok (h @ [Delivered i c]) ((fo_subscriptions f)[i := s] ! j) j k"
      using assms(6) reader_ok_other by (cases "j = i") auto
  qed (use assms(1) in \<open>auto simp: fan_inv_def\<close>)
  moreover have "ring_ok (h @ [Delivered i c]) f'" if "ring_ok h f" using that assms(3) by (simp add: ring_ok_def)
  moreover have "fst (hd (fo_fragments f)) \<le> su_sequence s" using assms(1,2,5) by (auto simp: fan_inv_def)
  ultimately show ?thesis using assms i
    by (auto simp: fan_inv_def nth_list_update)
qed

lemma fan_take_inv:
  assumes "fan_inv h f" "i < length (fo_subscriptions f)" "fan_take i f = (res, f')"
  shows "fan_inv (h @ (case res of Inl e \<Rightarrow> [TakeFailed i e] | Inr None \<Rightarrow> [] | Inr (Some c) \<Rightarrow> [Delivered i c])) f'"
proof (cases "i \<in> fo_readers f")
  case False
  have "readers_ok (h @ [TakeFailed i e]) (fo_subscriptions f)" for e
    by (rule readers_ok_snoc [where subs = "fo_subscriptions f"]) (use assms(1) in \<open>auto simp: fan_inv_def reader_ok_def\<close>)
  moreover have "ring_ok (h @ [TakeFailed i e]) f" if "ring_ok h f" for e using that by (simp add: ring_ok_def)
  ultimately show ?thesis using fan_take_dead [OF assms(1,2) False] assms(1,3)
    by (auto simp: fan_inv_def split: if_splits)
next
  case True
  let ?s = "fo_subscriptions f ! i"
  note live = reader_index [OF assms(1) True]
  obtain c where c: "fo_initialization f = Some c" using ring_ends(5) [OF live(2,3)] by blast
  then have c': "published True h = [c]" using live(2) by (simp add: ring_ok_def Let_def)
  consider (pending) "su_initialization_pending ?s" | (none) "\<not> su_initialization_pending ?s" "length (published False h) \<le> su_sequence ?s"
    | (more) "\<not> su_initialization_pending ?s" "su_sequence ?s < length (published False h)" by linarith
  then show ?thesis
  proof cases
    case pending
    then have "res = Inr (Some c)" "f' = f\<lparr>fo_subscriptions := (fo_subscriptions f)[i := ?s\<lparr>su_initialization_pending := False\<rparr>]\<rparr>"
      using fan_take_live [OF assms(1) True] assms(3) c by (auto simp: Let_def)
    then show ?thesis using fan_delivered_inv [OF assms(1) True, of f' _ c] reader_ok_pending [OF _ pending c'] live(6) by simp
  next
    case none
    then show ?thesis using fan_take_live [OF assms(1) True] assms by (auto simp: Let_def)
  next
    case more
    then have "res = Inr (Some (published False h ! su_sequence ?s))"
      "f' = f\<lparr>fo_subscriptions := (fo_subscriptions f)[i := ?s\<lparr>su_sequence := su_sequence ?s + 1\<rparr>]\<rparr>"
      using fan_take_live [OF assms(1) True] assms(3) by (auto simp: Let_def)
    then show ?thesis
      using fan_delivered_inv [OF assms(1) True, of f' _ "published False h ! su_sequence ?s"] reader_ok_next [OF _ more] live(6) by simp
  qed
qed

interpretation fanout: machine fan_exec "\<lambda>f. f = fan_init" fan_inv
proof unfold_locales
  show "fan_inv (h @ es) f'" if i: "fan_inv h f" and e: "fan_exec op f = (es, f')" for h f op es f'
  proof (cases op)
    case (Publish c)
    then show ?thesis using e fan_publish_inv [OF i, of c] by (auto simp: fan_exec_def split: prod.splits sum.splits)
  next
    case Subscribe
    then show ?thesis using e i fan_subscribe_inv [OF i] by (auto simp: fan_exec_def fan_subscribe_def Let_def split: prod.splits sum.splits if_splits)
  next
    case (FanTake j)
    then show ?thesis using e i fan_take_inv [OF i, of j]
      by (fastforce simp: fan_exec_def split: prod.splits sum.splits option.splits if_splits)
  next
    case (ReaderClose j)
    then show ?thesis using e i reader_close_inv [OF i, of j] by (auto simp: fan_exec_def)
  next
    case FanClose
    then show ?thesis using e fan_close_inv [OF i] by (simp add: fan_exec_def)
  qed
qed (simp add: fan_inv_init)

section \<open>What readers are promised\<close>

text \<open>
  C9. Every reader sees one uninterrupted stream. Whatever is published, taken, joined,
  left or closed in between, what a reader has been given is a prefix of the
  initialization followed by all fragments from the one that was newest when it joined,
  in order and without a gap; a reader that cannot keep up gets an error, never a hole.
\<close>
theorem fanout_reader_stream:
  assumes "run_ops fan_exec ops fan_init = (h1 @ Subscribed i # h2, f)"
  shows "prefix (delivered i (h1 @ Subscribed i # h2))
    (published True (h1 @ Subscribed i # h2) @ drop (length (published False h1) - 1) (published False (h1 @ Subscribed i # h2)))"
proof -
  have "reader_ok (h1 @ Subscribed i # h2) (fo_subscriptions f ! i) i (length (published False h1) - 1)"
    using fanout.reachable_inv [OF refl assms] unfolding fan_inv_def readers_ok_def by blast
  then show ?thesis unfolding reader_ok_def by (simp add: take_is_prefix del: fan_history_simps split: if_splits)
qed

text \<open>
  The ring is bounded and consistent in every reachable state: at most 8 fragments,
  2 MiB and 16 readers, an exact byte count; and a reader's \<^verbatim>\<open>take\<close> fails only with the
  documented stream errors, never with an index error.
\<close>
theorem fanout_bounded:
  assumes "run_ops fan_exec ops fan_init = (h, f)"
  shows "length (fo_fragments f) \<le> 8 \<and> fo_bytes f \<le> 2 * 1024 * 1024 \<and> card (fo_readers f) \<le> 16 \<and>
    (\<not> fo_closed f \<longrightarrow> fo_bytes f = (case fo_initialization f of None \<Rightarrow> 0 | Some c \<Rightarrow> int (length (mc_data c))) +
       int (sum_list (map (\<lambda>x. length (mc_data (snd x))) (fo_fragments f)))) \<and>
    (\<forall>i e. TakeFailed i e \<in> set h \<longrightarrow> (\<exists>t. e = StreamClosedError t \<or> e = SlowConsumerError t))"
proof -
  have "fan_inv h f" by (rule fanout.reachable_inv [OF refl assms])
  then show ?thesis
    by (auto simp: fan_inv_def ring_ok_def Let_def chunk_bytes_def comp_def MAX_READERS_def MP4_MAX_CHUNKS_def MP4_MAX_BYTES_def
        split: if_splits option.splits)
qed

definition demo_fan :: "fan_op list" where
  "demo_fan = [Publish \<lparr>mc_initialization = True, mc_data = [1]\<rparr>, Publish \<lparr>mc_initialization = False, mc_data = [2]\<rparr>,
     Publish \<lparr>mc_initialization = False, mc_data = [3]\<rparr>, Subscribe, FanTake 0,
     Publish \<lparr>mc_initialization = False, mc_data = [4]\<rparr>, FanTake 0, FanTake 0]"

lemma demo_fan_run:
  "fst (run_ops fan_exec demo_fan fan_init) =
     [Published \<lparr>mc_initialization = True, mc_data = [1]\<rparr>, Published \<lparr>mc_initialization = False, mc_data = [2]\<rparr>,
      Published \<lparr>mc_initialization = False, mc_data = [3]\<rparr>] @ Subscribed 0 #
     [Delivered 0 \<lparr>mc_initialization = True, mc_data = [1]\<rparr>, Published \<lparr>mc_initialization = False, mc_data = [4]\<rparr>,
      Delivered 0 \<lparr>mc_initialization = False, mc_data = [3]\<rparr>, Delivered 0 \<lparr>mc_initialization = False, mc_data = [4]\<rparr>]"
  by (simp add: demo_fan_def fan_exec_def fan_init_def fan_publish_def fan_subscribe_def fan_take_def drop_slow_def
      mark_error_def py_getitem_def MAX_INIT_BYTES_def MP4_MAX_BYTES_def MP4_MAX_CHUNKS_def MAX_READERS_def)

theorem fanout_reader_stream_witness:
  "\<exists>h1 h2 f. run_ops fan_exec demo_fan fan_init = (h1 @ Subscribed 0 # h2, f) \<and>
     delivered 0 (h1 @ Subscribed 0 # h2) \<noteq> [] \<and>
     prefix (delivered 0 (h1 @ Subscribed 0 # h2)) (published True (h1 @ Subscribed 0 # h2) @
       drop (length (published False h1) - 1) (published False (h1 @ Subscribed 0 # h2)))"
proof -
  obtain h f where r: "run_ops fan_exec demo_fan fan_init = (h, f)" by fastforce
  then have h: "h = fst (run_ops fan_exec demo_fan fan_init)" by simp
  have "delivered 0 h \<noteq> []" unfolding h demo_fan_run by (simp add: delivered_def)
  moreover obtain h1 h2 where h1: "h = h1 @ Subscribed 0 # h2" unfolding h demo_fan_run by blast
  ultimately have "delivered 0 (h1 @ Subscribed 0 # h2) \<noteq> []" by blast
  with fanout_reader_stream [OF r [unfolded h1]] r h1 show ?thesis by blast
qed

theorem fanout_bounded_witness:
  "card (fo_readers (snd (run_ops fan_exec demo_fan fan_init))) \<le> 16 \<and>
   fo_bytes (snd (run_ops fan_exec demo_fan fan_init)) \<le> 2 * 1024 * 1024"
  using fanout_bounded [of demo_fan "fst (run_ops fan_exec demo_fan fan_init)" "snd (run_ops fan_exec demo_fan fan_init)"] by simp

end
