(* ===== verification/HevcGate.thy ===== *)
theory HevcGate
  imports Machine
begin

text \<open>
  \<^verbatim>\<open>media/hevc_access.py\<close> and \<^verbatim>\<open>media/hevc_recovery.py\<close>: the inspection of one Annex-B
  access unit and the gate that decides which units may reach the decoder. SHA-256 is an
  argument; the gate only compares digests.
\<close>

section \<open>Access units\<close>

definition MAX_ACCESS_UNIT :: nat where
  "MAX_ACCESS_UNIT = 1024 * 1024"

definition MAX_NALS :: nat where
  "MAX_NALS = 128"

record nal =
  nl_kind :: nat
  nl_data :: bytes

definition first_slice :: "nal \<Rightarrow> bool" where
  "first_slice n \<longleftrightarrow> nl_kind n < 32 \<and> nl_data n ! 2 AND 0x80 \<noteq> 0"

text \<open>The matches of \<^verbatim>\<open>00 00 (00)? 01\<close> from left to right, without overlap: start and end.\<close>

function start_codes :: "nat \<Rightarrow> bytes \<Rightarrow> (nat \<times> nat) list" where
  "start_codes p xs =
     (if xs = [] then []
      else if take 4 xs = [0, 0, 0, 1] then (p, p + 4) # start_codes (p + 4) (drop 4 xs)
      else if take 3 xs = [0, 0, 1] then (p, p + 3) # start_codes (p + 3) (drop 3 xs)
      else start_codes (p + 1) (tl xs))"
  by pat_completeness auto
termination
  by (relation "measure (\<lambda>(p, xs). length xs)") auto

declare start_codes.simps [simp del]

definition rstrip_zeros :: "bytes \<Rightarrow> bytes" where
  "rstrip_zeros xs = rev (dropWhile (\<lambda>b. b = 0) (rev xs))"

fun nal_units :: "bytes \<Rightarrow> (nat \<times> nat) list \<Rightarrow> exn + nal list" where
  "nal_units payload [] = Inr []"
| "nal_units payload ((s, start) # starts) =
     (let end' = (case starts of [] \<Rightarrow> length payload | (s', _) # _ \<Rightarrow> s');
          body = rstrip_zeros (pyslice payload start end')
      in if length body < 3 \<or> body ! 0 AND 0x80 \<noteq> 0 \<or> body ! 1 AND 7 = 0
      then Inl (ValueError ''invalid HEVC NAL header'')
      else if push_bit 5 (unat (body ! 0) AND 1) OR drop_bit 3 (unat (body ! 1)) \<noteq> 0
      then Inl (ValueError ''multilayer HEVC is not supported by this gate'')
      else bind_res (nal_units payload starts) (\<lambda>result.
        Inr (\<lparr>nl_kind = drop_bit 1 (unat (body ! 0)) AND 63, nl_data = body\<rparr> # result)))"

definition video_nals :: "nal list \<Rightarrow> nal list" where
  "video_nals units = filter (\<lambda>n. nl_kind n < 32) units"

definition inspect_access_unit :: "bytes \<Rightarrow> exn + nal list" where
  "inspect_access_unit payload =
     (if payload = [] \<or> length payload > MAX_ACCESS_UNIT then Inl (ValueError ''HEVC access-unit size out of bounds'')
      else let starts = start_codes 0 payload
      in if length starts > MAX_NALS then Inl (ValueError ''too many HEVC NAL units'')
      else if starts = [] \<or> (\<exists>b \<in> set (take (fst (hd starts)) payload). b \<noteq> 0)
      then Inl (ValueError ''HEVC Annex-B prefix missing'')
      else bind_res (nal_units payload starts) (\<lambda>result.
        let video = video_nals result
        in if video \<noteq> [] \<and> (\<not> first_slice (hd video) \<or> length (filter first_slice video) \<noteq> 1)
        then Inl (ValueError ''expected one complete HEVC picture per access unit'')
        else Inr result))"

section \<open>The restart gate\<close>

record video_decision =
  vd_emit :: bool
  vd_restart_decoder :: bool
  vd_epoch :: nat
  vd_reason :: string

record hevc_recovery =
  hr_waiting :: bool
  hr_epoch :: nat
  hr_last_timestamp :: "int option"
  hr_configuration :: "bytes list option"

definition recovery_init :: hevc_recovery where
  "recovery_init = \<lparr>hr_waiting = True, hr_epoch = 0, hr_last_timestamp = None, hr_configuration = None\<rparr>"

definition discontinuity :: "hevc_recovery \<Rightarrow> hevc_recovery" where
  "discontinuity r = r\<lparr>hr_waiting := True, hr_last_timestamp := None, hr_configuration := None\<rparr>"

definition drop_unit :: "string \<Rightarrow> hevc_recovery \<Rightarrow> video_decision \<times> hevc_recovery" where
  "drop_unit reason r =
     (let r = discontinuity r
      in (\<lparr>vd_emit = False, vd_restart_decoder = False, vd_epoch = hr_epoch r, vd_reason = reason\<rparr>, r))"

definition parameter_nals :: "nal list \<Rightarrow> nal list" where
  "parameter_nals units = filter (\<lambda>n. nl_kind n = 32 \<or> nl_kind n = 33 \<or> nl_kind n = 34) units"

text \<open>\<^verbatim>\<open>units.index(x)\<close> and the slice up to and including it.\<close>

fun up_to :: "'a \<Rightarrow> 'a list \<Rightarrow> 'a list" where
  "up_to x [] = []"
| "up_to x (y # ys) = (if y = x then [y] else y # up_to x ys)"

definition complete_configuration :: "nal list \<Rightarrow> bool" where
  "complete_configuration units \<longleftrightarrow> (let params = parameter_nals units in
     params \<noteq> [] \<and> map nl_kind params = [32, 33, 34] \<and> (\<forall>n \<in> set (up_to (last params) units). nl_kind n \<ge> 32))"

definition idr_picture :: "nal list \<Rightarrow> bool" where
  "idr_picture units \<longleftrightarrow> (\<forall>n \<in> set (video_nals units). nl_kind n = 19 \<or> nl_kind n = 20)"

definition config_digests :: "(bytes \<Rightarrow> bytes) \<Rightarrow> nal list \<Rightarrow> bytes list" where
  "config_digests sha256 units = map (\<lambda>n. sha256 (nl_data n)) (parameter_nals units)"

text \<open>The end of \<^verbatim>\<open>inspect\<close>, after the unit was found well formed.\<close>

definition compare_configuration :: "bytes list option \<Rightarrow> hevc_recovery \<Rightarrow> hevc_recovery" where
  "compare_configuration config r =
     (if config \<noteq> None \<and> hr_configuration r \<noteq> None \<and> config \<noteq> hr_configuration r then r\<lparr>hr_waiting := True\<rparr> else r)"

definition emit_unit :: "bytes list option \<Rightarrow> int \<Rightarrow> hevc_recovery \<Rightarrow> video_decision \<times> hevc_recovery" where
  "emit_unit config timestamp r =
     (let restart = hr_waiting r;
          r = (if restart then r\<lparr>hr_epoch := hr_epoch r + 1\<rparr> else r);
          r = r\<lparr>hr_waiting := False, hr_last_timestamp := Some timestamp\<rparr>;
          r = (if config \<noteq> None then r\<lparr>hr_configuration := config\<rparr> else r)
      in (\<lparr>vd_emit = True, vd_restart_decoder = restart, vd_epoch = hr_epoch r,
           vd_reason = if restart then ''configured_idr'' else ''continuous''\<rparr>, r))"

definition recovery_admit ::
  "(bytes \<Rightarrow> bytes) \<Rightarrow> nal list \<Rightarrow> int \<Rightarrow> hevc_recovery \<Rightarrow> video_decision \<times> hevc_recovery"
where
  "recovery_admit sha256 units timestamp r =
     (let complete = complete_configuration units; idr = idr_picture units
      in if parameter_nals units \<noteq> [] \<and> (\<not> complete \<or> \<not> idr) then drop_unit ''incomplete_or_unpaired_configuration'' r
      else let config = (if complete then Some (config_digests sha256 units) else None);
               r = compare_configuration config r
      in if hr_waiting r \<and> \<not> (idr \<and> complete)
      then (\<lparr>vd_emit = False, vd_restart_decoder = False, vd_epoch = hr_epoch r, vd_reason = ''waiting_for_configured_idr''\<rparr>, r)
      else emit_unit config timestamp r)"

definition recovery_inspect ::
  "(bytes \<Rightarrow> bytes) \<Rightarrow> bytes \<Rightarrow> int \<Rightarrow> hevc_recovery \<Rightarrow> video_decision \<times> hevc_recovery"
where
  "recovery_inspect sha256 payload timestamp r =
     (if \<not> (0 \<le> timestamp \<and> timestamp \<le> 0xFFFFFFFFFFFFFFFF) then drop_unit ''invalid_timestamp'' r
      else case inspect_access_unit payload of
        Inl _ \<Rightarrow> drop_unit ''invalid_access_unit'' r
      | Inr units \<Rightarrow>
        if video_nals units = [] then drop_unit ''no_picture'' r
        else let r = (if (case hr_last_timestamp r of None \<Rightarrow> False | Some t \<Rightarrow> timestamp < t) then discontinuity r else r)
        in recovery_admit sha256 units timestamp r)"

text \<open>Every error of the inspection is a \<^verbatim>\<open>ValueError\<close>, which \<^verbatim>\<open>inspect\<close> catches.\<close>

lemma nal_units_error: "nal_units payload starts = Inl e \<Longrightarrow> is_value_error e"
  by (induction payload starts rule: nal_units.induct) (auto simp: Let_def bind_res_Inl split: if_splits)

lemma inspect_access_unit_error: "inspect_access_unit payload = Inl e \<Longrightarrow> is_value_error e"
  by (auto simp: inspect_access_unit_def Let_def bind_res_Inl dest: nal_units_error split: if_splits)

section \<open>What reaches the decoder\<close>

datatype recovery_op = Inspect bytes int | Gap

datatype recovery_event = Unit bytes int video_decision | GapEvent

definition recovery_exec :: "(bytes \<Rightarrow> bytes) \<Rightarrow> recovery_op \<Rightarrow> hevc_recovery \<Rightarrow> recovery_event list \<times> hevc_recovery" where
  "recovery_exec sha256 op r = (case op of
     Inspect payload t \<Rightarrow> (case recovery_inspect sha256 payload t r of (d, r) \<Rightarrow> ([Unit payload t d], r))
   | Gap \<Rightarrow> ([GapEvent], discontinuity r))"

definition restarts :: "recovery_event list \<Rightarrow> nat" where
  "restarts h = length (filter (\<lambda>e. case e of Unit p t d \<Rightarrow> vd_restart_decoder d | GapEvent \<Rightarrow> False) h)"

text \<open>The parameter-set digests of the unit that opened the current epoch.\<close>

fun opened_with :: "(bytes \<Rightarrow> bytes) \<Rightarrow> recovery_event list \<Rightarrow> bytes list option" where
  "opened_with sha256 [] = None"
| "opened_with sha256 (Unit p t d # h) =
     (if vd_restart_decoder d then case inspect_access_unit p of Inl _ \<Rightarrow> None | Inr units \<Rightarrow> Some (config_digests sha256 units)
      else opened_with sha256 h)"
| "opened_with sha256 (GapEvent # h) = opened_with sha256 h"

definition emission_ok :: "(bytes \<Rightarrow> bytes) \<Rightarrow> recovery_event list \<Rightarrow> bytes \<Rightarrow> int \<Rightarrow> video_decision \<Rightarrow> bool" where
  "emission_ok sha256 h1 p t d \<longleftrightarrow> (\<exists>units. inspect_access_unit p = Inr units \<and> video_nals units \<noteq> [] \<and>
     (if vd_restart_decoder d then vd_epoch d = restarts h1 + 1 \<and> idr_picture units \<and> complete_configuration units
      else vd_epoch d = restarts h1 \<and>
        (\<exists>h0 p' t' d'. h1 = h0 @ [Unit p' t' d'] \<and> vd_emit d' \<and> vd_epoch d' = vd_epoch d \<and> t' \<le> t) \<and>
        (parameter_nals units \<noteq> [] \<longrightarrow> opened_with sha256 (rev h1) = Some (config_digests sha256 units))))"

definition recovery_inv :: "(bytes \<Rightarrow> bytes) \<Rightarrow> recovery_event list \<Rightarrow> hevc_recovery \<Rightarrow> bool" where
  "recovery_inv sha256 h r \<longleftrightarrow> hr_epoch r = restarts h \<and>
     (\<not> hr_waiting r \<longrightarrow> (\<exists>h0 p t d. h = h0 @ [Unit p t d] \<and> vd_emit d \<and> vd_epoch d = hr_epoch r \<and> hr_last_timestamp r = Some t) \<and>
        hr_configuration r \<noteq> None \<and> hr_configuration r = opened_with sha256 (rev h)) \<and>
     each_event (\<lambda>h1 e. case e of GapEvent \<Rightarrow> True | Unit p t d \<Rightarrow>
       (vd_restart_decoder d \<longrightarrow> vd_emit d) \<and> (vd_emit d \<longrightarrow> emission_ok sha256 h1 p t d)) h"

lemma restarts_simps [simp]:
  "restarts [] = 0" "restarts (h @ h') = restarts h + restarts h'" "restarts [GapEvent] = 0"
  "restarts [Unit p t d] = (if vd_restart_decoder d then 1 else 0)"
  by (simp_all add: restarts_def)

lemma recovery_inv_drop:
  "recovery_inv sha256 h r \<Longrightarrow> drop_unit reason r = (d, r') \<Longrightarrow> recovery_inv sha256 (h @ [Unit p t d]) r'"
  by (auto simp: recovery_inv_def drop_unit_def discontinuity_def Let_def)


lemma recovery_inv_gap:
  "recovery_inv sha256 h r \<Longrightarrow> recovery_inv sha256 (h @ [GapEvent]) (discontinuity r)"
  by (auto simp: recovery_inv_def discontinuity_def)

text \<open>Forgetting the reference frame without an event keeps everything but the continuation.\<close>

lemma recovery_inv_discontinuity: "recovery_inv sha256 h r \<Longrightarrow> recovery_inv sha256 h (discontinuity r)"
  by (auto simp: recovery_inv_def discontinuity_def)

lemma complete_has_parameters: "complete_configuration units \<Longrightarrow> parameter_nals units \<noteq> []"
  by (auto simp: complete_configuration_def Let_def)

lemma recovery_admit_inv:
  assumes "recovery_inv sha256 h r" "inspect_access_unit p = Inr units" "video_nals units \<noteq> []"
    "case hr_last_timestamp r of None \<Rightarrow> True | Some t' \<Rightarrow> t' \<le> t" "recovery_admit sha256 units t r = (d, r')"
  shows "recovery_inv sha256 (h @ [Unit p t d]) r'"
proof -
  let ?new = "complete_configuration units \<and> hr_configuration r \<noteq> None \<and> Some (config_digests sha256 units) \<noteq> hr_configuration r"
  consider (bad) "parameter_nals units \<noteq> [] \<and> (\<not> complete_configuration units \<or> \<not> idr_picture units)"
    | (wait) "parameter_nals units = []" "hr_waiting r"
    | (restart) "complete_configuration units" "idr_picture units" "hr_waiting r \<or> ?new"
    | (more) "\<not> hr_waiting r" "\<not> ?new" "parameter_nals units = [] \<or> complete_configuration units \<and> idr_picture units"
    using complete_has_parameters [of units] by blast
  then show ?thesis
  proof cases
    case bad
    then show ?thesis using assms(1,5) recovery_inv_drop by (simp add: recovery_admit_def Let_def)
  next
    case wait
    then have "\<not> complete_configuration units" using complete_has_parameters by blast
    with wait assms(5) have "\<not> vd_emit d" "\<not> vd_restart_decoder d" "r' = r"
      by (auto simp: recovery_admit_def compare_configuration_def)
    then show ?thesis using assms(1) wait by (auto simp: recovery_inv_def)
  next
    case restart
    let ?c = "Some (config_digests sha256 units)"
    have "compare_configuration ?c r = r\<lparr>hr_waiting := True\<rparr>"
      using restart(3) by (auto simp: compare_configuration_def)
    then have "(d, r') = emit_unit ?c t (r\<lparr>hr_waiting := True\<rparr>)"
      using restart(1,2) assms(5) by (simp add: recovery_admit_def)
    then show ?thesis using assms(1-3) restart(1,2) by (auto simp: emit_unit_def recovery_inv_def emission_ok_def)
  next
    case more
    let ?c = "if complete_configuration units then Some (config_digests sha256 units) else None"
    obtain cfg where cfg: "hr_configuration r = Some cfg" using assms(1) more(1) by (auto simp: recovery_inv_def)
    have same: "complete_configuration units \<Longrightarrow> config_digests sha256 units = cfg" using more(2) cfg by simp
    have "compare_configuration ?c r = r" using more(2) by (auto simp: compare_configuration_def)
    then have "(d, r') = emit_unit ?c t r" using more(1,3) assms(5) complete_has_parameters [of units]
      by (auto simp: recovery_admit_def Let_def)
    then have d: "d = \<lparr>vd_emit = True, vd_restart_decoder = False, vd_epoch = hr_epoch r, vd_reason = ''continuous''\<rparr>"
      "r' = r\<lparr>hr_last_timestamp := Some t\<rparr>"
      using more(1) cfg same by (auto simp: emit_unit_def split: if_splits)
    have "parameter_nals units \<noteq> [] \<longrightarrow> opened_with sha256 (rev h) = Some (config_digests sha256 units)"
      using assms(1) more cfg same by (auto simp: recovery_inv_def)
    then have "emission_ok sha256 h p t d" using assms(1-4) more(1) unfolding d emission_ok_def recovery_inv_def by auto
    moreover have "hr_epoch r = restarts h" "opened_with sha256 (rev h) = Some cfg" "each_event (\<lambda>h1 e. case e of GapEvent \<Rightarrow> True
        | Unit p t d \<Rightarrow> (vd_restart_decoder d \<longrightarrow> vd_emit d) \<and> (vd_emit d \<longrightarrow> emission_ok sha256 h1 p t d)) h"
      using assms(1) more(1) cfg unfolding recovery_inv_def by auto
    ultimately show ?thesis using more(1) cfg unfolding d recovery_inv_def by simp
  qed
qed

lemma recovery_inspect_inv:
  assumes "recovery_inv sha256 h r" "recovery_inspect sha256 p t r = (d, r')"
  shows "recovery_inv sha256 (h @ [Unit p t d]) r'"
proof (cases "inspect_access_unit p")
  case (Inl e)
  then show ?thesis using assms recovery_inv_drop by (auto simp: recovery_inspect_def split: if_splits)
next
  case (Inr units)
  let ?r = "if (case hr_last_timestamp r of None \<Rightarrow> False | Some t' \<Rightarrow> t < t') then discontinuity r else r"
  have "recovery_inv sha256 h ?r" using assms(1) recovery_inv_discontinuity by simp
  moreover have "case hr_last_timestamp ?r of None \<Rightarrow> True | Some t' \<Rightarrow> t' \<le> t"
    by (auto simp: discontinuity_def split: option.splits)
  ultimately show ?thesis using assms Inr recovery_inv_drop recovery_admit_inv [of sha256 h ?r p units t d r']
    by (auto simp: recovery_inspect_def Let_def split: if_splits)
qed

interpretation gate: machine "recovery_exec sha256" "\<lambda>r. r = recovery_init" "recovery_inv sha256" for sha256
proof unfold_locales
  show "recovery_inv sha256 (h @ es) r'" if "recovery_inv sha256 h r" "recovery_exec sha256 op r = (es, r')" for h r op es r'
    using that recovery_inspect_inv recovery_inv_gap
    by (cases op) (auto simp: recovery_exec_def split: prod.splits)
qed (simp add: recovery_inv_def recovery_init_def)

text \<open>
  C20. Only decodable video passes the gate, whatever units, gaps and clock jumps arrive.
  A unit passed with a decoder restart is one complete picture, all of it IDR, with VPS,
  SPS and PPS before the picture, and gets a fresh epoch number. A unit passed without
  a restart directly follows a passed unit of the same epoch, with no gap or dropped
  unit between, its timestamp is not smaller, and parameter sets in it have the digests
  of those that opened the epoch.
\<close>
theorem decoder_gate:
  assumes "run_ops (recovery_exec sha256) ops recovery_init = (h1 @ Unit p t d # h2, r)" "vd_emit d"
  shows "\<exists>units. inspect_access_unit p = Inr units \<and> video_nals units \<noteq> [] \<and>
    (if vd_restart_decoder d then vd_epoch d = restarts h1 + 1 \<and> idr_picture units \<and> complete_configuration units
     else vd_epoch d = restarts h1 \<and>
       (\<exists>h0 p' t' d'. h1 = h0 @ [Unit p' t' d'] \<and> vd_emit d' \<and> vd_epoch d' = vd_epoch d \<and> t' \<le> t) \<and>
       (parameter_nals units \<noteq> [] \<longrightarrow> opened_with sha256 (rev h1) = Some (config_digests sha256 units)))"
proof -
  have "recovery_inv sha256 (h1 @ Unit p t d # h2) r" by (rule gate.reachable_inv [OF refl assms(1)])
  then have "emission_ok sha256 h1 p t d" using assms(2) each_eventD unfolding recovery_inv_def by fastforce
  then show ?thesis by (simp only: emission_ok_def)
qed

definition demo_idr :: bytes where
  "demo_idr = [0, 0, 1, 0x40, 1, 1, 0, 0, 1, 0x42, 1, 1, 0, 0, 1, 0x44, 1, 1, 0, 0, 0, 1, 0x26, 1, 0x80]"

definition demo_trail :: bytes where
  "demo_trail = [0, 0, 1, 2, 1, 0x80]"

lemma demo_idr_units:
  "inspect_access_unit demo_idr = Inr [\<lparr>nl_kind = 32, nl_data = [0x40, 1, 1]\<rparr>, \<lparr>nl_kind = 33, nl_data = [0x42, 1, 1]\<rparr>,
     \<lparr>nl_kind = 34, nl_data = [0x44, 1, 1]\<rparr>, \<lparr>nl_kind = 19, nl_data = [0x26, 1, 0x80]\<rparr>]"
  by (simp add: inspect_access_unit_def demo_idr_def MAX_ACCESS_UNIT_def MAX_NALS_def start_codes.simps rstrip_zeros_def
      pyslice_def video_nals_def first_slice_def)

lemma demo_trail_units: "inspect_access_unit demo_trail = Inr [\<lparr>nl_kind = 1, nl_data = [2, 1, 0x80]\<rparr>]"
  by (simp add: inspect_access_unit_def demo_trail_def MAX_ACCESS_UNIT_def MAX_NALS_def start_codes.simps rstrip_zeros_def
      pyslice_def video_nals_def first_slice_def)

theorem decoder_gate_witness:
  "\<exists>h d r units. run_ops (recovery_exec (\<lambda>x. x)) [Inspect demo_idr 5, Inspect demo_trail 6] recovery_init =
     (h @ [Unit demo_trail 6 d], r) \<and> vd_emit d \<and> inspect_access_unit demo_trail = Inr units \<and> vd_epoch d = restarts h"
proof -
  let ?d = "\<lparr>vd_emit = True, vd_restart_decoder = True, vd_epoch = 1, vd_reason = ''configured_idr''\<rparr>"
  let ?d' = "\<lparr>vd_emit = True, vd_restart_decoder = False, vd_epoch = 1, vd_reason = ''continuous''\<rparr>"
  obtain r where r: "run_ops (recovery_exec (\<lambda>x. x)) [Inspect demo_idr 5, Inspect demo_trail 6] recovery_init =
     ([Unit demo_idr 5 ?d] @ Unit demo_trail 6 ?d' # [], r)"
    by (simp add: recovery_exec_def recovery_inspect_def recovery_admit_def compare_configuration_def emit_unit_def recovery_init_def demo_idr_units demo_trail_units
        video_nals_def parameter_nals_def complete_configuration_def idr_picture_def)
  from decoder_gate [OF r] r show ?thesis by fastforce
qed

end
