(* ===== verification/SourceRegistry.thy ===== *)
theory SourceRegistry
  imports Machine
begin

text \<open>
  \<^verbatim>\<open>media/source_registry.py\<close>: which sources may run. A call of \<^verbatim>\<open>run\<close> holds the lock only
  in short sections and spends its time in the driver's factory and in the source itself,
  so it is modelled as the sequence of its atomic sections; any interleaving of the
  sections of all calls with \<^verbatim>\<open>stop\<close>, \<^verbatim>\<open>subscribe\<close> and \<^verbatim>\<open>begin_shutdown\<close> is a run of the
  machine. Entry objects live in a store, because the table and the running call share
  and mutate them; object identities are numbers.
\<close>

section \<open>Camera identities\<close>

definition lower_hex :: "char \<Rightarrow> bool" where
  "lower_hex c \<longleftrightarrow> c \<in> set ''0123456789abcdef''"

text \<open>\<^verbatim>\<open>re.fullmatch(r"cam_[0-9a-f]{24}", value)\<close>\<close>

definition valid_camera_id :: "string \<Rightarrow> bool" where
  "valid_camera_id value' \<longleftrightarrow> length value' = 28 \<and> take 4 value' = ''cam_'' \<and> (\<forall>c \<in> set (drop 4 value'). lower_hex c)"

section \<open>The registry\<close>

datatype source_owner = GivenOwner nat | FreshOwner nat

record source_entry =
  se_domain :: string
  se_owner :: source_owner
  se_stop :: bool
  se_source :: "nat option"
  se_phase :: string

record source_registry =
  sr_capacity :: "int option"
  sr_entries :: "(string, nat) dict"
  sr_closed :: bool
  sr_store :: "source_entry list"

definition registry_init :: "int option \<Rightarrow> exn + source_registry" where
  "registry_init capacity =
     (if (case capacity of None \<Rightarrow> False | Some n \<Rightarrow> n < 1) then Inl (ValueError ''source capacity must be positive or automatic'')
      else Inr \<lparr>sr_capacity = capacity, sr_entries = [], sr_closed = False, sr_store = []\<rparr>)"

definition validate_camera :: "string \<Rightarrow> exn + unit" where
  "validate_camera camera_id = (if valid_camera_id camera_id then Inr () else Inl (ValueError ''public camera ID required''))"

definition registry_state :: "string \<Rightarrow> source_registry \<Rightarrow> exn + string" where
  "registry_state camera_id g = bind_res (validate_camera camera_id) (\<lambda>_.
     case map_of (sr_entries g) camera_id of None \<Rightarrow> Inr ''idle'' | Some e \<Rightarrow> Inr (se_phase (sr_store g ! e)))"

definition registry_camera_ids :: "source_registry \<Rightarrow> string list" where
  "registry_camera_ids g = map fst (sr_entries g)"

definition registry_owns :: "string \<Rightarrow> source_owner \<Rightarrow> source_registry \<Rightarrow> exn + bool" where
  "registry_owns camera_id owner g = bind_res (validate_camera camera_id) (\<lambda>_.
     case map_of (sr_entries g) camera_id of None \<Rightarrow> Inr False | Some e \<Rightarrow> Inr (se_owner (sr_store g ! e) = owner))"

text \<open>\<open>recovering\<close> and \<open>recording\<close> read the attribute of a source object, if it has it.\<close>

definition registry_states :: "(nat \<Rightarrow> bool) \<Rightarrow> source_registry \<Rightarrow> (string \<times> string) list" where
  "registry_states recovering g = map (\<lambda>(camera_id, e).
     let entry = sr_store g ! e
     in (camera_id, if sr_closed g \<and> se_phase entry \<noteq> ''blocked'' then ''stopping''
          else if se_phase entry = ''running'' \<and> (case se_source entry of None \<Rightarrow> False | Some s \<Rightarrow> recovering s) then ''recovering''
          else se_phase entry)) (sr_entries g)"

definition registry_is_recording :: "(nat \<Rightarrow> bool) \<Rightarrow> string \<Rightarrow> source_registry \<Rightarrow> bool" where
  "registry_is_recording recording camera_id g =
     (case map_of (sr_entries g) camera_id of
        None \<Rightarrow> False
      | Some e \<Rightarrow> \<not> sr_closed g \<and> se_phase (sr_store g ! e) = ''running'' \<and>
          (case se_source (sr_store g ! e) of None \<Rightarrow> False | Some s \<Rightarrow> recording s))"

definition domain_ok :: "string \<Rightarrow> bool" where
  "domain_ok domain \<longleftrightarrow> 1 \<le> length domain \<and> length domain \<le> 128 \<and>
     (\<forall>c \<in> set domain. 33 \<le> (of_char c :: nat) \<and> (of_char c :: nat) \<le> 126)"

text \<open>
  \<^verbatim>\<open>run\<close>, up to the end of its first locked section: the new entry object, registered.
\<close>

definition run_admit :: "string \<Rightarrow> string \<Rightarrow> bool \<Rightarrow> nat option \<Rightarrow> source_registry \<Rightarrow> (exn + nat) \<times> source_registry" where
  "run_admit camera_id domain cancelled owner g =
     (if \<not> valid_camera_id camera_id then (Inl (ValueError ''public camera ID required''), g)
      else if \<not> domain_ok domain then (Inl (ValueError ''driver resource domain required''), g)
      else if cancelled then (Inl (SourceUnavailable ''source admission cancelled''), g)
      else if sr_closed g then (Inl (SourceUnavailable ''source registry shutting down''), g)
      else if camera_id \<in> fst ` set (sr_entries g) \<or>
              (case sr_capacity g of None \<Rightarrow> False | Some n \<Rightarrow> int (length (sr_entries g)) \<ge> n) \<or>
              (\<exists>(c, e) \<in> set (sr_entries g). se_domain (sr_store g ! e) = domain)
      then (Inl (SourceUnavailable ''source or driver resource already reserved''), g)
      else let e = length (sr_store g);
               entry = \<lparr>se_domain = domain, se_owner = (case owner of None \<Rightarrow> FreshOwner e | Some x \<Rightarrow> GivenOwner x),
                        se_stop = False, se_source = None, se_phase = ''starting''\<rparr>
           in (Inr e, g\<lparr>sr_store := sr_store g @ [entry], sr_entries := dict_set camera_id e (sr_entries g)\<rparr>))"

text \<open>The factory returned \<open>source\<close>: the second section.\<close>

definition run_started :: "nat \<Rightarrow> nat \<Rightarrow> source_registry \<Rightarrow> source_registry" where
  "run_started e source g =
     (let entry = (sr_store g ! e)\<lparr>se_source := Some source\<rparr>
      in g\<lparr>sr_store := (sr_store g)[e := entry\<lparr>se_phase := if se_stop entry then ''stopping'' else ''running''\<rparr>]\<rparr>)"

text \<open>\<^verbatim>\<open>source.run\<close> returned normally: the third section; its value is \<^verbatim>\<open>confirmed\<close>.\<close>

definition run_returned :: "nat \<Rightarrow> source_registry \<Rightarrow> exn + bool" where
  "run_returned e g = (if se_phase (sr_store g ! e) = ''blocked'' then Inl (SourceCleanupUnconfirmed ''source cleanup uncertain'') else Inr True)"

text \<open>The \<^verbatim>\<open>finally\<close> section.\<close>

definition run_finally :: "string \<Rightarrow> nat \<Rightarrow> bool \<Rightarrow> source_registry \<Rightarrow> source_registry" where
  "run_finally camera_id e confirmed g =
     (if confirmed \<and> se_phase (sr_store g ! e) \<noteq> ''blocked'' then g\<lparr>sr_entries := dict_pop camera_id (sr_entries g)\<rparr>
      else g\<lparr>sr_store := (sr_store g)[e := (sr_store g ! e)\<lparr>se_phase := ''blocked''\<rparr>]\<rparr>)"

definition registry_subscribe :: "string \<Rightarrow> source_owner option \<Rightarrow> source_registry \<Rightarrow> exn + nat" where
  "registry_subscribe camera_id owner g = bind_res (validate_camera camera_id) (\<lambda>_.
     case map_of (sr_entries g) camera_id of
       None \<Rightarrow> Inl (SourceUnavailable ''source is not accepting readers'')
     | Some e \<Rightarrow>
         let entry = sr_store g ! e
         in case se_source entry of
           None \<Rightarrow> Inl (SourceUnavailable ''source is not accepting readers'')
         | Some source \<Rightarrow>
             if sr_closed g \<or> se_phase entry \<noteq> ''running'' \<or> (case owner of None \<Rightarrow> False | Some x \<Rightarrow> se_owner entry \<noteq> x)
             then Inl (SourceUnavailable ''source is not accepting readers'') else Inr source)"

definition registry_stop :: "string \<Rightarrow> source_owner option \<Rightarrow> source_registry \<Rightarrow> (exn + bool) \<times> source_registry" where
  "registry_stop camera_id owner g =
     (if \<not> valid_camera_id camera_id then (Inl (ValueError ''public camera ID required''), g)
      else case map_of (sr_entries g) camera_id of
        None \<Rightarrow> (Inr False, g)
      | Some e \<Rightarrow>
          let entry = sr_store g ! e
          in if (case owner of None \<Rightarrow> False | Some x \<Rightarrow> se_owner entry \<noteq> x) then (Inr False, g)
          else if se_phase entry = ''blocked'' then (Inl (SourceCleanupUnconfirmed ''source cleanup already uncertain''), g)
          else (Inr True, g\<lparr>sr_store := (sr_store g)[e := entry\<lparr>se_stop := True, se_phase := ''stopping''\<rparr>]\<rparr>))"

text \<open>The cameras are collected under the lock; each \<^verbatim>\<open>stop\<close> then takes it again.\<close>

fun stop_all :: "string list \<Rightarrow> bool \<Rightarrow> source_registry \<Rightarrow> (exn + bool) \<times> source_registry" where
  "stop_all [] failed g = (Inr failed, g)"
| "stop_all (camera_id # cameras) failed g =
     (case registry_stop camera_id None g of
        (Inl (SourceCleanupUnconfirmed m), g) \<Rightarrow> stop_all cameras True g
      | (Inl e, g) \<Rightarrow> (Inl e, g)
      | (Inr _, g) \<Rightarrow> stop_all cameras failed g)"

definition begin_shutdown :: "source_registry \<Rightarrow> (exn + unit) \<times> source_registry" where
  "begin_shutdown g =
     (case stop_all (registry_camera_ids g) False (g\<lparr>sr_closed := True\<rparr>) of
        (Inl e, g) \<Rightarrow> (Inl e, g)
      | (Inr failed, g) \<Rightarrow>
          if failed then (Inl (SourceCleanupUnconfirmed ''one or more sources have uncertain cleanup''), g) else (Inr (), g))"

section \<open>Interleavings\<close>

text \<open>
  Where a call of \<^verbatim>\<open>run\<close> is: before the factory returns, in the source, before its
  \<^verbatim>\<open>finally\<close> section (with the value of \<^verbatim>\<open>confirmed\<close>), or over. Calls are numbered by their
  entry objects. Closing the registry and every \<^verbatim>\<open>stop\<close> of a shutdown are separate steps.
\<close>

datatype run_pc = InFactory | InSource | BeforeFinally bool | Over

type_synonym registry_world = "source_registry \<times> (string \<times> run_pc) list"

datatype registry_op =
    Run string string bool "nat option"
  | FactoryEnds nat "nat option"
  | SourceEnds nat bool
  | RunFinally nat
  | StopSource string "source_owner option"
  | CloseRegistry

datatype registry_event = Admitted nat string string | Returned nat | Released nat

definition registry_exec :: "registry_op \<Rightarrow> registry_world \<Rightarrow> registry_event list \<times> registry_world" where
  "registry_exec op w = (case w of (g, calls) \<Rightarrow> case op of
     Run camera_id domain cancelled owner \<Rightarrow>
       (case run_admit camera_id domain cancelled owner g of
          (Inl _, g) \<Rightarrow> ([], g, calls)
        | (Inr e, g) \<Rightarrow> ([Admitted e camera_id domain], g, calls @ [(camera_id, InFactory)]))
   | FactoryEnds e result \<Rightarrow>
       if e < length calls \<and> snd (calls ! e) = InFactory then
         case result of
           None \<Rightarrow> ([], g, calls[e := (fst (calls ! e), BeforeFinally False)])
         | Some source \<Rightarrow> ([], run_started e source g, calls[e := (fst (calls ! e), InSource)])
       else ([], g, calls)
   | SourceEnds e normally \<Rightarrow>
       if e < length calls \<and> snd (calls ! e) = InSource then
         if normally then case run_returned e g of
             Inl _ \<Rightarrow> ([], g, calls[e := (fst (calls ! e), BeforeFinally False)])
           | Inr c \<Rightarrow> ([Returned e], g, calls[e := (fst (calls ! e), BeforeFinally c)])
         else ([], g, calls[e := (fst (calls ! e), BeforeFinally False)])
       else ([], g, calls)
   | RunFinally e \<Rightarrow>
       if e < length calls then
         case snd (calls ! e) of
           BeforeFinally c \<Rightarrow>
             (let g' = run_finally (fst (calls ! e)) e c g
              in (if sr_entries g' = sr_entries g then [] else [Released e], g', calls[e := (fst (calls ! e), Over)]))
         | _ \<Rightarrow> ([], g, calls)
       else ([], g, calls)
   | StopSource camera_id owner \<Rightarrow> ([], snd (registry_stop camera_id owner g), calls)
   | CloseRegistry \<Rightarrow> ([], g\<lparr>sr_closed := True\<rparr>, calls))"

definition in_table :: "source_registry \<Rightarrow> (string \<times> run_pc) list \<Rightarrow> nat \<Rightarrow> bool" where
  "in_table g calls e \<longleftrightarrow> map_of (sr_entries g) (fst (calls ! e)) = Some e"

definition table_ok :: "source_registry \<Rightarrow> (string \<times> run_pc) list \<Rightarrow> bool" where
  "table_ok g calls \<longleftrightarrow> length calls = length (sr_store g) \<and> distinct (map fst (sr_entries g)) \<and>
     (\<forall>c e. map_of (sr_entries g) c = Some e \<longrightarrow> e < length calls \<and> fst (calls ! e) = c) \<and>
     (\<forall>c e c' e'. map_of (sr_entries g) c = Some e \<and> map_of (sr_entries g) c' = Some e' \<and>
        se_domain (sr_store g ! e) = se_domain (sr_store g ! e') \<longrightarrow> e = e') \<and>
     (case sr_capacity g of None \<Rightarrow> True | Some n \<Rightarrow> int (length (sr_entries g)) \<le> n)"

definition calls_ok :: "registry_event list \<Rightarrow> source_registry \<Rightarrow> (string \<times> run_pc) list \<Rightarrow> bool" where
  "calls_ok h g calls \<longleftrightarrow> (\<forall>e < length calls.
     (snd (calls ! e) \<noteq> Over \<longrightarrow> in_table g calls e \<and> se_phase (sr_store g ! e) \<noteq> ''blocked'') \<and>
     (snd (calls ! e) = BeforeFinally True \<longrightarrow> Returned e \<in> set h))"

definition justified :: "registry_event list \<Rightarrow> registry_event \<Rightarrow> bool" where
  "justified h1 x = (case x of
     Admitted e c d \<Rightarrow> \<forall>e' c' d'. Admitted e' c' d' \<in> set h1 \<and> (c' = c \<or> d' = d) \<longrightarrow> Released e' \<in> set h1
   | Released e \<Rightarrow> Returned e \<in> set h1
   | Returned e \<Rightarrow> True)"

definition history_ok :: "registry_event list \<Rightarrow> source_registry \<Rightarrow> (string \<times> run_pc) list \<Rightarrow> bool" where
  "history_ok h g calls \<longleftrightarrow>
     (\<forall>e c d. Admitted e c d \<in> set h \<longrightarrow> e < length calls \<and> fst (calls ! e) = c \<and> se_domain (sr_store g ! e) = d \<and>
        (Released e \<in> set h \<or> in_table g calls e)) \<and>
     each_event justified h"

definition registry_inv :: "registry_event list \<Rightarrow> registry_world \<Rightarrow> bool" where
  "registry_inv h w \<longleftrightarrow> (case w of (g, calls) \<Rightarrow> table_ok g calls \<and> calls_ok h g calls \<and> history_ok h g calls)"

lemmas registry_inv_defs = registry_inv_def table_ok_def calls_ok_def history_ok_def in_table_def

text \<open>A section that only rewrites entry objects, keeping their domains.\<close>

lemma registry_inv_update:
  assumes inv: "registry_inv h (g, calls)" and same: "sr_entries g' = sr_entries g" "sr_capacity g' = sr_capacity g"
    "length (sr_store g') = length (sr_store g)" "length calls' = length calls"
    and upd: "\<And>e. e < length calls \<Longrightarrow> se_domain (sr_store g' ! e) = se_domain (sr_store g ! e) \<and> fst (calls' ! e) = fst (calls ! e) \<and>
       (snd (calls' ! e) \<noteq> Over \<longrightarrow> snd (calls ! e) \<noteq> Over \<and>
         (se_phase (sr_store g ! e) \<noteq> ''blocked'' \<longrightarrow> se_phase (sr_store g' ! e) \<noteq> ''blocked'')) \<and>
       (snd (calls' ! e) = BeforeFinally True \<longrightarrow> snd (calls ! e) = BeforeFinally True \<or> Returned e \<in> set h)"
  shows "registry_inv h (g', calls')"
proof -
  have parts: "table_ok g calls" "calls_ok h g calls" "history_ok h g calls" using inv by (simp_all add: registry_inv_def)
  have tab: "in_table g' calls' e = in_table g calls e" if "e < length calls" for e
    using that upd same(1) by (simp add: in_table_def)
  have lt: "map_of (sr_entries g) c = Some e \<Longrightarrow> e < length calls" for c e using parts(1) by (auto simp: table_ok_def)
  have "table_ok g' calls'" using parts(1) same upd lt unfolding table_ok_def by (auto; metis)
  moreover have "calls_ok h g' calls'" using parts(2) upd same(4) tab unfolding calls_ok_def by auto
  moreover have "history_ok h g' calls'" using parts(3) upd same(4) tab unfolding history_ok_def by auto
  ultimately show ?thesis by (simp add: registry_inv_def)
qed

lemma registry_inv_returned: "registry_inv h w \<Longrightarrow> registry_inv (h @ [Returned e]) w"
  by (auto simp: registry_inv_def calls_ok_def history_ok_def justified_def split: prod.splits)

lemma run_admit_inv:
  assumes inv: "registry_inv h (g, calls)" and run: "run_admit c d cancelled owner g = (Inr e, g')"
  shows "registry_inv (h @ [Admitted e c d]) (g', calls @ [(c, InFactory)])"
proof -
  have parts: "table_ok g calls" "calls_ok h g calls" "history_ok h g calls" using inv by (simp_all add: registry_inv_def)
  define entry where "entry = \<lparr>se_domain = d, se_owner = (case owner of None \<Rightarrow> FreshOwner e | Some x \<Rightarrow> GivenOwner x),
    se_stop = False, se_source = None, se_phase = ''starting''\<rparr>"
  have g': "e = length (sr_store g)" "g' = g\<lparr>sr_store := sr_store g @ [entry], sr_entries := dict_set c e (sr_entries g)\<rparr>"
    using run by (auto simp: run_admit_def Let_def entry_def split: if_splits)
  have free: "c \<notin> fst ` set (sr_entries g)" "\<not> (case sr_capacity g of None \<Rightarrow> False | Some n \<Rightarrow> int (length (sr_entries g)) \<ge> n)"
    "\<not> (\<exists>(c', e') \<in> set (sr_entries g). se_domain (sr_store g ! e') = d)"
    using run by (simp_all add: run_admit_def split: if_splits)
  have e: "e = length calls" "map_of (sr_entries g) c = None" using parts(1) g'(1) free(1) by (simp_all add: table_ok_def map_of_eq_None_iff)
  have dom: "se_domain (sr_store g ! e') \<noteq> d" "e' < length calls" if "map_of (sr_entries g) c' = Some e'" for c' e'
    using map_of_SomeD [OF that] free(3) parts(1) that by (auto simp: table_ok_def)
  have tbl: "e1 < length calls \<and> fst (calls ! e1) = c1" if "map_of (sr_entries g) c1 = Some e1" for c1 e1
    using parts(1) that unfolding table_ok_def by blast
  have len: "length (sr_store g) = length calls" using parts(1) by (simp add: table_ok_def)
  have tab: "in_table g' (calls @ [(c, InFactory)]) e' \<longleftrightarrow> in_table g calls e'" if "e' < length calls" for e'
    using that e by (cases "fst (calls ! e') = c") (simp_all add: in_table_def g'(2) nth_append)
  have "table_ok g' (calls @ [(c, InFactory)])" unfolding table_ok_def
  proof (intro conjI allI impI)
    show "length (calls @ [(c, InFactory)]) = length (sr_store g')" "distinct (map fst (sr_entries g'))"
      using parts(1) by (simp_all add: g'(2) table_ok_def)
    show "case sr_capacity g' of None \<Rightarrow> True | Some n \<Rightarrow> int (length (sr_entries g')) \<le> n"
      using free(1,2) by (simp add: g'(2) length_dict_set split: option.splits)
    fix c1 e1 assume "map_of (sr_entries g') c1 = Some e1"
    then show "e1 < length (calls @ [(c, InFactory)])" "fst ((calls @ [(c, InFactory)]) ! e1) = c1"
      using tbl [of c1 e1] e(1) by (cases "c1 = c"; simp add: g'(2) nth_append)+
  next
    fix c1 e1 c2 e2 assume m: "map_of (sr_entries g') c1 = Some e1 \<and> map_of (sr_entries g') c2 = Some e2 \<and>
      se_domain (sr_store g' ! e1) = se_domain (sr_store g' ! e2)"
    show "e1 = e2"
    proof (cases "c1 = c \<or> c2 = c")
      case True
      then show ?thesis using m e(1) len dom [of c1 e1] dom [of c2 e2]
        by (cases "c1 = c"; cases "c2 = c"; simp add: g'(2) nth_append entry_def)
    next
      case False
      then have "map_of (sr_entries g) c1 = Some e1" "map_of (sr_entries g) c2 = Some e2" using m by (simp_all add: g'(2))
      moreover from this have "se_domain (sr_store g ! e1) = se_domain (sr_store g ! e2)"
        using m dom len by (simp add: g'(2) nth_append)
      ultimately show ?thesis using parts(1) unfolding table_ok_def by blast
    qed
  qed
  moreover have "calls_ok (h @ [Admitted e c d]) g' (calls @ [(c, InFactory)])" unfolding calls_ok_def
  proof (intro allI impI)
    fix x assume "x < length (calls @ [(c, InFactory)])"
    then consider "x < length calls" | "x = length calls" by fastforce
    then show "(snd ((calls @ [(c, InFactory)]) ! x) \<noteq> Over \<longrightarrow> in_table g' (calls @ [(c, InFactory)]) x \<and> se_phase (sr_store g' ! x) \<noteq> ''blocked'') \<and>
        (snd ((calls @ [(c, InFactory)]) ! x) = BeforeFinally True \<longrightarrow> Returned x \<in> set (h @ [Admitted e c d]))"
    proof cases
      case 1
      then show ?thesis using parts(2) tab [OF 1] len by (simp add: calls_ok_def nth_append g'(2))
    next
      case 2
      then show ?thesis using e(1) len by (simp add: in_table_def nth_append g'(2) entry_def)
    qed
  qed
  moreover have "history_ok (h @ [Admitted e c d]) g' (calls @ [(c, InFactory)])" unfolding history_ok_def
  proof (intro conjI allI impI)
    have "Released e' \<in> set h" if a: "Admitted e' c' d' \<in> set h" "c' = c \<or> d' = d" for e' c' d'
    proof -
      have "Released e' \<in> set h \<or> in_table g calls e'" "fst (calls ! e') = c'" "se_domain (sr_store g ! e') = d'"
        using parts(3) a(1) unfolding history_ok_def by blast+
      then show ?thesis using a(2) e(2) dom(1) by (auto simp: in_table_def)
    qed
    then show "each_event justified (h @ [Admitted e c d])" using parts(3) by (auto simp: history_ok_def justified_def)
  next
    fix x c1 d1 assume "Admitted x c1 d1 \<in> set (h @ [Admitted e c d])"
    then consider "Admitted x c1 d1 \<in> set h" | "x = e" "c1 = c" "d1 = d" by auto
    then have "x < length (calls @ [(c, InFactory)]) \<and> fst ((calls @ [(c, InFactory)]) ! x) = c1 \<and> se_domain (sr_store g' ! x) = d1 \<and>
      (Released x \<in> set h \<or> in_table g' (calls @ [(c, InFactory)]) x)"
    proof cases
      case 1
      then have "x < length calls" "fst (calls ! x) = c1" "se_domain (sr_store g ! x) = d1" "Released x \<in> set h \<or> in_table g calls x"
        using parts(3) unfolding history_ok_def by blast+
      then show ?thesis using tab [of x] len by (simp add: nth_append g'(2))
    next
      case 2
      then show ?thesis using e(1) len by (simp add: in_table_def nth_append g'(2) entry_def)
    qed
    then show "x < length (calls @ [(c, InFactory)])" "fst ((calls @ [(c, InFactory)]) ! x) = c1" "se_domain (sr_store g' ! x) = d1"
      "Released x \<in> set (h @ [Admitted e c d]) \<or> in_table g' (calls @ [(c, InFactory)]) x" by simp_all
  qed
  ultimately show ?thesis by (simp add: registry_inv_def)
qed

text \<open>The \<^verbatim>\<open>finally\<close> section of a confirmed call removes its own entry and no other.\<close>

lemma run_release_inv:
  assumes inv: "registry_inv h (g, calls)" and e: "e < length calls" "snd (calls ! e) = BeforeFinally True"
  shows "registry_inv (h @ [Released e]) (g\<lparr>sr_entries := dict_pop (fst (calls ! e)) (sr_entries g)\<rparr>, calls[e := (fst (calls ! e), Over)])"
    (is "registry_inv _ (?g, ?calls)")
proof -
  have parts: "table_ok g calls" "calls_ok h g calls" "history_ok h g calls" using inv by (simp_all add: registry_inv_def)
  have own: "map_of (sr_entries g) (fst (calls ! e)) = Some e" "Returned e \<in> set h"
    using parts(2) e by (simp_all add: calls_ok_def in_table_def)
  have fst_calls: "fst (?calls ! x) = fst (calls ! x)" for x using e(1) by (cases "x = e") simp_all
  have tab: "in_table ?g ?calls x \<longleftrightarrow> in_table g calls x \<and> x \<noteq> e" for x
    using own by (auto simp: in_table_def fst_calls)
  have "table_ok ?g ?calls"
    using parts(1) length_dict_pop_le [of "fst (calls ! e)" "sr_entries g"] unfolding table_ok_def fst_calls
    by (auto simp: distinct_dict_pop simp del: map_of_eq_Some_iff split: option.splits if_splits)
  moreover have "calls_ok (h @ [Released e]) ?g ?calls"
    using parts(2) unfolding calls_ok_def tab by (auto simp: nth_update split: if_splits)
  moreover have "history_ok (h @ [Released e]) ?g ?calls"
    using parts(3) own(2) unfolding history_ok_def tab fst_calls by (auto simp: justified_def)
  ultimately show ?thesis by (simp add: registry_inv_def)
qed

lemma run_finally_inv:
  assumes inv: "registry_inv h (g, calls)" and e: "e < length calls" "snd (calls ! e) = BeforeFinally c"
  shows "registry_inv (h @ (if sr_entries (run_finally (fst (calls ! e)) e c g) = sr_entries g then [] else [Released e]))
    (run_finally (fst (calls ! e)) e c g, calls[e := (fst (calls ! e), Over)])"
proof -
  have own: "map_of (sr_entries g) (fst (calls ! e)) = Some e" "se_phase (sr_store g ! e) \<noteq> ''blocked''" "length calls = length (sr_store g)"
    using inv e by (simp_all add: registry_inv_defs)
  show ?thesis
  proof (cases c)
    case True
    have "fst (calls ! e) \<in> fst ` set (sr_entries g)" using own(1) by (metis domI dom_map_of_conv_image_fst)
    then have "dict_pop (fst (calls ! e)) (sr_entries g) \<noteq> sr_entries g" by (metis Diff_iff insertI1 set_keys_dict_pop)
    then show ?thesis using run_release_inv [OF inv e(1)] e(2) own(2) True by (simp add: run_finally_def)
  next
    case False
    have "registry_inv h (g\<lparr>sr_store := (sr_store g)[e := (sr_store g ! e)\<lparr>se_phase := ''blocked''\<rparr>]\<rparr>, calls[e := (fst (calls ! e), Over)])"
      by (rule registry_inv_update [OF inv]) (use own(3) e(1) in \<open>auto simp: nth_list_update\<close>)
    then show ?thesis using False by (simp add: run_finally_def)
  qed
qed

lemma registry_exec_inv:
  assumes inv: "registry_inv h w" and exec: "registry_exec op w = (es, w')"
  shows "registry_inv (h @ es) w'"
proof -
  obtain g calls where w: "w = (g, calls)" by fastforce
  note inv = inv [unfolded w]
  have len: "length calls = length (sr_store g)" using inv by (simp add: registry_inv_defs)
  show ?thesis
  proof (cases op)
    case (Run c d cancelled owner)
    have "g' = g" if "run_admit c d cancelled owner g = (Inl x, g')" for x g'
      using that by (auto simp: run_admit_def Let_def split: if_splits)
    then show ?thesis using exec w Run inv run_admit_inv [OF inv, of c d cancelled owner]
      by (auto simp: registry_exec_def split: prod.splits sum.splits)
  next
    case (FactoryEnds e result)
    have upd: "registry_inv h (g', calls[e := (fst (calls ! e), pc)])"
      if "e < length calls" "snd (calls ! e) = InFactory" "pc = BeforeFinally False \<and> g' = g \<or> (\<exists>s. pc = InSource \<and> g' = run_started e s g)" for g' pc
      by (rule registry_inv_update [OF inv]) (use that len in \<open>auto simp: run_started_def Let_def nth_list_update split: if_splits\<close>)
    then show ?thesis using exec w FactoryEnds inv
      by (auto simp: registry_exec_def split: if_splits option.splits)
  next
    case (SourceEnds e normally)
    have upd: "registry_inv h' (g, calls[e := (fst (calls ! e), BeforeFinally b)])"
      if "e < length calls" "snd (calls ! e) = InSource" "b \<longrightarrow> Returned e \<in> set h'" "registry_inv h' (g, calls)" for b h'
      by (rule registry_inv_update [OF that(4)]) (use that len in \<open>auto simp: nth_list_update\<close>)
    show ?thesis using exec w SourceEnds inv upd [OF _ _ _ inv] upd [OF _ _ _ registry_inv_returned [OF inv, of e]]
      by (auto simp: registry_exec_def run_returned_def split: if_splits)
  next
    case (RunFinally e)
    then show ?thesis using exec w inv run_finally_inv [OF inv, of e]
      by (auto simp: registry_exec_def Let_def split: if_splits run_pc.splits)
  next
    case (StopSource c owner)
    have "registry_inv h (snd (registry_stop c owner g), calls)"
      by (rule registry_inv_update [OF inv])
         (use len in \<open>auto simp: registry_stop_def Let_def nth_update split: option.splits\<close>)
    then show ?thesis using exec w StopSource by (simp add: registry_exec_def)
  next
    case CloseRegistry
    have "registry_inv h (g\<lparr>sr_closed := True\<rparr>, calls)" by (rule registry_inv_update [OF inv]) auto
    then show ?thesis using exec w CloseRegistry by (simp add: registry_exec_def)
  qed
qed

definition registry_start :: "int option \<Rightarrow> registry_world \<Rightarrow> bool" where
  "registry_start capacity w \<longleftrightarrow> registry_init capacity = Inr (fst w) \<and> snd w = []"

lemma registry_start_inv: "registry_start capacity w \<Longrightarrow> registry_inv [] w"
  by (auto simp: registry_start_def registry_init_def registry_inv_defs split: prod.splits option.splits if_splits)

interpretation sources: machine registry_exec "registry_start capacity" registry_inv for capacity
  by unfold_locales (fact registry_start_inv, fact registry_exec_inv)

text \<open>
  C5. Two sources never overlap on a camera or on a driver resource. Whatever calls of
  \<^verbatim>\<open>run\<close>, stops and shutdowns interleave, when a source is admitted, every source admitted
  before it for the same camera or the same resource domain has been released, and a
  source is released only after its own run returned normally; one whose factory or run
  raised holds its reservation for good.
\<close>
theorem sources_exclusive:
  assumes "registry_init capacity = Inr g" "run_ops registry_exec ops (g, []) = (h1 @ Admitted e c d # h2, w)"
    "Admitted e' c' d' \<in> set h1" "c' = c \<or> d' = d"
  shows "\<exists>a b. h1 = a @ Released e' # b \<and> Returned e' \<in> set a"
proof -
  have "registry_inv (h1 @ Admitted e c d # h2) w"
    by (rule sources.reachable_inv [OF _ assms(2), of capacity]) (simp add: registry_start_def assms(1))
  then have j: "each_event justified (h1 @ Admitted e c d # h2)" by (auto simp: registry_inv_def history_ok_def)
  have "Released e' \<in> set h1" using each_eventD [OF j] assms(3,4) by (fastforce simp: justified_def)
  then obtain a b where "h1 = a @ Released e' # b" by (auto simp: in_set_conv_decomp)
  moreover from this j have "justified a (Released e')" using each_eventD [of justified a "Released e'" "b @ Admitted e c d # h2"] by simp
  ultimately show ?thesis by (auto simp: justified_def)
qed

definition demo_camera :: string where
  "demo_camera = ''cam_0123456789abcdef01234567''"

definition demo_runs :: "registry_op list" where
  "demo_runs = [Run demo_camera ''lan/1'' False None, FactoryEnds 0 (Some 7), Run demo_camera ''lan/2'' False None,
     StopSource demo_camera None, SourceEnds 0 True, RunFinally 0, Run demo_camera ''lan/1'' False None]"

lemma demo_camera_valid [simp]: "valid_camera_id demo_camera"
  by (simp add: valid_camera_id_def demo_camera_def lower_hex_def)

theorem sources_exclusive_witness:
  "\<exists>g h1 h2 w a b. registry_init (Some 1) = Inr g \<and>
     run_ops registry_exec demo_runs (g, []) = (h1 @ Admitted 1 demo_camera ''lan/1'' # h2, w) \<and>
     h1 = a @ Released 0 # b \<and> Returned 0 \<in> set a"
proof -
  define g where "g = \<lparr>sr_capacity = Some (1 :: int), sr_entries = [] :: (string, nat) dict, sr_closed = False, sr_store = []\<rparr>"
  have init: "registry_init (Some 1) = Inr g" by (simp add: registry_init_def g_def)
  have dom: "domain_ok ''lan/1''" "domain_ok ''lan/2''" by (simp_all add: domain_ok_def)
  obtain w where run: "run_ops registry_exec demo_runs (g, []) =
    ([Admitted 0 demo_camera ''lan/1'', Returned 0, Released 0] @ Admitted 1 demo_camera ''lan/1'' # [], w)"
    using dom by (simp add: demo_runs_def registry_exec_def run_admit_def run_started_def run_returned_def run_finally_def
        registry_stop_def g_def dict_pop_def)
  have "\<exists>a b. [Admitted 0 demo_camera ''lan/1'', Returned 0, Released 0] = a @ Released 0 # b \<and> Returned 0 \<in> set a"
    by (rule sources_exclusive [OF init run, of 0 demo_camera "''lan/1''"]) simp_all
  with init run show ?thesis by blast
qed

end
