(* ===== verification/SourceGates.thy ===== *)
theory SourceGates
  imports SourceRegistry
begin

text \<open>
  The gates a source handoff closes and opens: viewers (\<^verbatim>\<open>media/viewer_gate.py\<close>), the
  recorder's own consumer (\<^verbatim>\<open>recording/ingress_gate.py\<close>) and the durable choice of source
  (\<^verbatim>\<open>db/source_policy.py\<close>).
\<close>

section \<open>Viewer admission\<close>

record viewer_lease =
  vl_camera_id :: string
  vl_cancelled :: bool

record viewer_gate =
  vg_capacity :: int
  vg_leases :: "(nat, viewer_lease) dict"
  vg_holds :: "(string, string) dict"
  vg_next :: nat

text \<open>\<open>vg_next\<close> is the identity of the next lease object.\<close>

definition viewer_init :: "int \<Rightarrow> exn + viewer_gate" where
  "viewer_init capacity =
     (if \<not> (1 \<le> capacity \<and> capacity \<le> 256) then Inl (ValueError ''viewer capacity must be between 1 and 256'')
      else Inr \<lparr>vg_capacity = capacity, vg_leases = [], vg_holds = [], vg_next = 0\<rparr>)"

definition held :: "string \<Rightarrow> viewer_gate \<Rightarrow> bool" where
  "held camera_id g \<longleftrightarrow> map_of (vg_holds g) camera_id \<noteq> None"

definition watched :: "string \<Rightarrow> viewer_gate \<Rightarrow> bool" where
  "watched camera_id g \<longleftrightarrow> (\<exists>(i, lease) \<in> set (vg_leases g). vl_camera_id lease = camera_id)"

definition viewer_admit :: "string \<Rightarrow> viewer_gate \<Rightarrow> (exn + nat) \<times> viewer_gate" where
  "viewer_admit camera_id g =
     (if \<not> valid_camera_id camera_id then (Inl (ValueError ''public camera ID required''), g)
      else if held camera_id g \<or> int (length (vg_leases g)) \<ge> vg_capacity g
      then (Inl (SourceUnavailable ''viewer admission unavailable''), g)
      else let i = vg_next g; lease = \<lparr>vl_camera_id = camera_id, vl_cancelled = False\<rparr>
           in (Inr i, g\<lparr>vg_leases := dict_set i lease (vg_leases g), vg_next := i + 1\<rparr>))"

definition viewer_release :: "nat \<Rightarrow> viewer_gate \<Rightarrow> viewer_gate" where
  "viewer_release i g = g\<lparr>vg_leases := dict_pop i (vg_leases g)\<rparr>"

definition viewer_is_suspended :: "string \<Rightarrow> viewer_gate \<Rightarrow> exn + bool" where
  "viewer_is_suspended camera_id g = bind_res (validate_camera camera_id) (\<lambda>_. Inr (held camera_id g))"

definition viewer_is_drained :: "string \<Rightarrow> viewer_gate \<Rightarrow> exn + bool" where
  "viewer_is_drained camera_id g = bind_res (validate_camera camera_id) (\<lambda>_.
     Inr (map_of (vg_holds g) camera_id = Some ''drained'' \<and> \<not> watched camera_id g))"

definition cancel_leases :: "string \<Rightarrow> viewer_gate \<Rightarrow> viewer_gate" where
  "cancel_leases camera_id g = g\<lparr>vg_leases := map (\<lambda>(i, lease).
     (i, if vl_camera_id lease = camera_id then lease\<lparr>vl_cancelled := True\<rparr> else lease)) (vg_leases g)\<rparr>"

definition viewer_hold :: "string \<Rightarrow> viewer_gate \<Rightarrow> (exn + unit) \<times> viewer_gate" where
  "viewer_hold camera_id g =
     (if \<not> valid_camera_id camera_id then (Inl (ValueError ''public camera ID required''), g)
      else if \<not> held camera_id g \<and> length (vg_holds g) \<ge> 32
      then (Inl (SourceUnavailable ''viewer suspension capacity reached''), g)
      else let g = (if held camera_id g then g else g\<lparr>vg_holds := dict_set camera_id ''blocked'' (vg_holds g)\<rparr>)
           in (Inr (), cancel_leases camera_id g))"

text \<open>
  \<^verbatim>\<open>suspend\<close> waits on the condition variable, which gives up the lock, so it is three
  sections: closing admission, one evaluation of the wait loop, and the exception handler.
\<close>

definition suspend_begin :: "string \<Rightarrow> time \<Rightarrow> time \<Rightarrow> viewer_gate \<Rightarrow> (exn + time) \<times> viewer_gate" where
  "suspend_begin camera_id timeout now g =
     (if \<not> valid_camera_id camera_id then (Inl (ValueError ''public camera ID required''), g)
      else if \<not> (0 < timeout \<and> timeout \<le> 30) then (Inl (ValueError ''bounded viewer drain timeout required''), g)
      else if map_of (vg_holds g) camera_id = Some ''draining''
      then (Inl (SourceUnavailable ''viewer drain already in progress''), g)
      else if \<not> held camera_id g \<and> length (vg_holds g) \<ge> 32
      then (Inl (SourceUnavailable ''viewer suspension capacity reached''), g)
      else (Inr (now + timeout), cancel_leases camera_id (g\<lparr>vg_holds := dict_set camera_id ''draining'' (vg_holds g)\<rparr>)))"

definition suspend_abort :: "string \<Rightarrow> viewer_gate \<Rightarrow> viewer_gate" where
  "suspend_abort camera_id g = g\<lparr>vg_holds := dict_set camera_id ''blocked'' (vg_holds g)\<rparr>"

text \<open>\<open>Inr True\<close> is the normal return, \<open>Inr False\<close> another wait.\<close>

definition suspend_wait :: "string \<Rightarrow> time \<Rightarrow> time \<Rightarrow> viewer_gate \<Rightarrow> (exn + bool) \<times> viewer_gate" where
  "suspend_wait camera_id deadline now g =
     (if watched camera_id g then
        if deadline - now \<le> 0 then (Inl (SourceCleanupUnconfirmed ''viewer drain unconfirmed''), suspend_abort camera_id g)
        else (Inr False, g)
      else (Inr True, g\<lparr>vg_holds := dict_set camera_id ''drained'' (vg_holds g)\<rparr>))"

definition viewer_resume :: "string \<Rightarrow> viewer_gate \<Rightarrow> (exn + bool) \<times> viewer_gate" where
  "viewer_resume camera_id g =
     (if \<not> valid_camera_id camera_id then (Inl (ValueError ''public camera ID required''), g)
      else case map_of (vg_holds g) camera_id of
        None \<Rightarrow> (Inr False, g)
      | Some state \<Rightarrow>
          if state \<noteq> ''drained'' \<or> watched camera_id g
          then (Inl (SourceCleanupUnconfirmed ''viewer suspension unconfirmed''), g)
          else (Inr True, g\<lparr>vg_holds := dict_pop camera_id (vg_holds g)\<rparr>))"

text \<open>The boolean of \<open>viewer_resume\<close> only tells whether there was a hold to remove.\<close>

datatype viewer_op =
    Admit string | Release nat | Hold string | Suspend string time time | Wait string time time | Interrupt string | Resume string

datatype viewer_event = Joined nat string | Departed nat | Drained string | Resumed string

definition viewer_exec :: "viewer_op \<Rightarrow> viewer_gate \<Rightarrow> viewer_event list \<times> viewer_gate" where
  "viewer_exec op g = (case op of
     Admit c \<Rightarrow> (case viewer_admit c g of (Inr i, g) \<Rightarrow> ([Joined i c], g) | (Inl _, g) \<Rightarrow> ([], g))
   | Release i \<Rightarrow> ([Departed i], viewer_release i g)
   | Hold c \<Rightarrow> ([], snd (viewer_hold c g))
   | Suspend c timeout now \<Rightarrow> ([], snd (suspend_begin c timeout now g))
   | Wait c deadline now \<Rightarrow>
       if map_of (vg_holds g) c = Some ''draining'' then
         case suspend_wait c deadline now g of (Inr True, g) \<Rightarrow> ([Drained c], g) | (_, g) \<Rightarrow> ([], g)
       else ([], g)
   | Interrupt c \<Rightarrow> ([], if map_of (vg_holds g) c = Some ''draining'' then suspend_abort c g else g)
   | Resume c \<Rightarrow> (case viewer_resume c g of (Inr True, g) \<Rightarrow> ([Resumed c], g) | (_, g) \<Rightarrow> ([], g)))"

text \<open>A camera whose viewers were drained and not yet readmitted.\<close>

definition certified :: "string \<Rightarrow> viewer_event list \<Rightarrow> bool" where
  "certified c h \<longleftrightarrow> (let turns = filter (\<lambda>e. e = Drained c \<or> e = Resumed c) h in turns \<noteq> [] \<and> last turns = Drained c)"

definition gone :: "string \<Rightarrow> viewer_event list \<Rightarrow> bool" where
  "gone c h \<longleftrightarrow> (\<forall>i. Joined i c \<in> set h \<longrightarrow> Departed i \<in> set h)"

definition lease_cameras :: "viewer_gate \<Rightarrow> (nat \<times> string) list" where
  "lease_cameras g = map (\<lambda>(i, lease). (i, vl_camera_id lease)) (vg_leases g)"

definition viewer_inv :: "viewer_event list \<Rightarrow> viewer_gate \<Rightarrow> bool" where
  "viewer_inv h g \<longleftrightarrow> (\<forall>(i, c) \<in> set (lease_cameras g). i < vg_next g) \<and> int (length (lease_cameras g)) \<le> vg_capacity g \<and>
     (\<forall>i c. Joined i c \<in> set h \<longrightarrow> i < vg_next g \<and> (Departed i \<in> set h \<or> (i, c) \<in> set (lease_cameras g))) \<and>
     (\<forall>c. certified c h \<longrightarrow> held c g) \<and>
     each_event (\<lambda>h1 e. case e of Joined i c \<Rightarrow> \<not> certified c h1 | Drained c \<Rightarrow> gone c h1 | _ \<Rightarrow> True) h"

lemma certified_simps [simp]:
  "\<not> certified c []" "certified c (h @ [Joined i d]) = certified c h" "certified c (h @ [Departed i]) = certified c h"
  "certified c (h @ [Drained d]) = (c = d \<or> certified c h)" "certified c (h @ [Resumed d]) = (c \<noteq> d \<and> certified c h)"
  by (auto simp: certified_def Let_def)

lemma watched_lease_cameras: "watched c g \<longleftrightarrow> (\<exists>i. (i, c) \<in> set (lease_cameras g))"
  by (force simp: watched_def lease_cameras_def)

lemma lease_cameras_simps [simp]:
  "lease_cameras (g\<lparr>vg_holds := x\<rparr>) = lease_cameras g" "lease_cameras (cancel_leases c g) = lease_cameras g"
  "lease_cameras (viewer_release i g) = filter (\<lambda>(j, c). j \<noteq> i) (lease_cameras g)"
  by (simp_all add: lease_cameras_def cancel_leases_def viewer_release_def dict_pop_def filter_map comp_def case_prod_unfold)

text \<open>A section that keeps the leases' owners and closes admission at least as much.\<close>

lemma viewer_inv_hold:
  "viewer_inv h g \<Longrightarrow> vg_next g' = vg_next g \<Longrightarrow> vg_capacity g' = vg_capacity g \<Longrightarrow> lease_cameras g' = lease_cameras g \<Longrightarrow>
   (\<And>c. held c g \<Longrightarrow> held c g') \<Longrightarrow> viewer_inv h g'"
  unfolding viewer_inv_def by auto

lemma held_simps [simp]:
  "held c (g\<lparr>vg_holds := dict_set d x (vg_holds g)\<rparr>) \<longleftrightarrow> c = d \<or> held c g"
  "held c (g\<lparr>vg_holds := dict_pop d (vg_holds g)\<rparr>) \<longleftrightarrow> c \<noteq> d \<and> held c g"
  "held c (cancel_leases d g) = held c g" "held c (viewer_release i g) = held c g"
  by (auto simp: held_def cancel_leases_def viewer_release_def)

lemma gate_fields [simp]:
  "vg_next (cancel_leases c g) = vg_next g" "vg_capacity (cancel_leases c g) = vg_capacity g"
  "vg_next (viewer_release i g) = vg_next g" "vg_capacity (viewer_release i g) = vg_capacity g"
  by (simp_all add: cancel_leases_def viewer_release_def)

lemma viewer_admit_inv:
  assumes inv: "viewer_inv h g" and adm: "viewer_admit c g = (Inr i, g')"
  shows "viewer_inv (h @ [Joined i c]) g'"
proof -
  have g': "i = vg_next g" "lease_cameras g' = lease_cameras g @ [(i, c)]" "vg_next g' = Suc i" "vg_capacity g' = vg_capacity g"
    "vg_holds g' = vg_holds g" "\<not> held c g" "int (length (lease_cameras g)) < vg_capacity g"
  proof -
    have "i \<notin> fst ` set (vg_leases g)" if "i = vg_next g" using inv that by (fastforce simp: viewer_inv_def lease_cameras_def)
    then show "i = vg_next g" "lease_cameras g' = lease_cameras g @ [(i, c)]" "vg_next g' = Suc i" "vg_capacity g' = vg_capacity g"
      "vg_holds g' = vg_holds g" "\<not> held c g" "int (length (lease_cameras g)) < vg_capacity g"
      using adm by (auto simp: viewer_admit_def Let_def lease_cameras_def dict_set_new split: if_splits)
  qed
  have "held c' g' = held c' g" for c' using g'(5) by (simp add: held_def)
  then show ?thesis using inv g' unfolding viewer_inv_def by (auto simp: less_Suc_eq)
qed

lemma viewer_release_inv: "viewer_inv h g \<Longrightarrow> viewer_inv (h @ [Departed i]) (viewer_release i g)"
proof -
  assume inv: "viewer_inv h g"
  have "int (length (filter (\<lambda>(j, c). j \<noteq> i) (lease_cameras g))) \<le> vg_capacity g"
    by (rule order.trans [of _ "int (length (lease_cameras g))"]) (use inv in \<open>simp_all add: viewer_inv_def\<close>)
  moreover have "Joined j c \<in> set h \<Longrightarrow> j < vg_next g \<and> (Departed j \<in> set h \<or> (j, c) \<in> set (lease_cameras g))" for j c
    using inv by (simp add: viewer_inv_def)
  ultimately show ?thesis using inv unfolding viewer_inv_def by (simp add: split_beta) blast
qed

lemma viewer_exec_inv:
  assumes inv: "viewer_inv h g" and exec: "viewer_exec op g = (es, g')"
  shows "viewer_inv (h @ es) g'"
proof (cases op)
  case (Admit c)
  then show ?thesis using exec inv viewer_admit_inv [OF inv, of c]
    by (auto simp: viewer_exec_def viewer_admit_def Let_def split: if_splits)
next
  case (Release i)
  then show ?thesis using exec viewer_release_inv [OF inv] by (auto simp: viewer_exec_def)
next
  case (Hold c)
  have "viewer_inv h (snd (viewer_hold c g))"
    by (rule viewer_inv_hold [OF inv]) (auto simp: viewer_hold_def Let_def)
  then show ?thesis using exec Hold by (simp add: viewer_exec_def)
next
  case (Suspend c timeout now)
  have "viewer_inv h (snd (suspend_begin c timeout now g))"
    by (rule viewer_inv_hold [OF inv]) (auto simp: suspend_begin_def)
  then show ?thesis using exec Suspend by (simp add: viewer_exec_def)
next
  case (Wait c deadline now)
  have abort: "viewer_inv h (suspend_abort c g)" by (rule viewer_inv_hold [OF inv]) (auto simp: suspend_abort_def)
  have drained: "viewer_inv (h @ [Drained c]) (g\<lparr>vg_holds := dict_set c ''drained'' (vg_holds g)\<rparr>)" if "\<not> watched c g"
    using inv that unfolding viewer_inv_def watched_lease_cameras gone_def by auto
  show ?thesis using exec Wait inv abort drained by (auto simp: viewer_exec_def suspend_wait_def split: if_splits)
next
  case (Interrupt c)
  have "viewer_inv h (suspend_abort c g)" by (rule viewer_inv_hold [OF inv]) (auto simp: suspend_abort_def)
  then show ?thesis using exec Interrupt inv by (auto simp: viewer_exec_def split: if_splits)
next
  case (Resume c)
  have "viewer_inv (h @ [Resumed c]) (g\<lparr>vg_holds := dict_pop c (vg_holds g)\<rparr>)"
    using inv unfolding viewer_inv_def by auto
  then show ?thesis using exec Resume inv by (auto simp: viewer_exec_def viewer_resume_def split: if_splits option.splits)
qed

interpretation viewers: machine viewer_exec "\<lambda>g. viewer_init capacity = Inr g" viewer_inv for capacity
proof unfold_locales
  show "viewer_inv [] g" if "viewer_init capacity = Inr g" for g
    using that by (auto simp: viewer_init_def viewer_inv_def lease_cameras_def split: if_splits)
qed (rule viewer_exec_inv)

text \<open>
  C11. A successful drain is a certificate. In every interleaving of viewers and
  coordinators: when \<^verbatim>\<open>suspend\<close> returns, every viewer admitted for that camera has been
  released; from then on no viewer of the camera is admitted until \<^verbatim>\<open>resume\<close> has
  succeeded; and the number of viewers stays within the capacity.
\<close>
theorem viewer_drain_certified:
  assumes "viewer_init capacity = Inr g0" "run_ops viewer_exec ops g0 = (h, g)"
  shows "(\<forall>h1 c h2 i. h = h1 @ Drained c # h2 \<and> Joined i c \<in> set h1 \<longrightarrow> Departed i \<in> set h1) \<and>
    (\<forall>h1 c h2 i h3. h = h1 @ Drained c # h2 @ Joined i c # h3 \<longrightarrow> Resumed c \<in> set h2) \<and>
    int (length (vg_leases g)) \<le> vg_capacity g"
proof (intro conjI allI impI)
  have inv: "viewer_inv h g" by (rule viewers.reachable_inv [OF assms])
  then have j: "each_event (\<lambda>h1 e. case e of Joined i c \<Rightarrow> \<not> certified c h1 | Drained c \<Rightarrow> gone c h1 | _ \<Rightarrow> True) h"
    by (simp add: viewer_inv_def)
  show "int (length (vg_leases g)) \<le> vg_capacity g" using inv by (simp add: viewer_inv_def lease_cameras_def)
  show "Departed i \<in> set h1" if "h = h1 @ Drained c # h2 \<and> Joined i c \<in> set h1" for h1 c h2 i
    using each_eventD [OF j [unfolded conjunct1 [OF that]]] that by (simp add: gone_def)
  show "Resumed c \<in> set h2" if "h = h1 @ Drained c # h2 @ Joined i c # h3" for h1 c h2 i h3
  proof (rule ccontr)
    assume "Resumed c \<notin> set h2"
    then have "filter (\<lambda>e. e = Drained c \<or> e = Resumed c) h2 = filter (\<lambda>e. e = Drained c) h2"
      by (intro filter_cong) auto
    moreover have "x # filter (\<lambda>e. e = x) xs = filter (\<lambda>e. e = x) xs @ [x]" for x and xs :: "viewer_event list"
      by (induction xs) auto
    ultimately have "certified c (h1 @ Drained c # h2)" by (simp add: certified_def Let_def)
    moreover have "h = (h1 @ Drained c # h2) @ Joined i c # h3" using that by simp
    ultimately show False using each_eventD [OF j [unfolded \<open>h = (h1 @ Drained c # h2) @ Joined i c # h3\<close>]] by simp
  qed
qed

definition demo_viewers :: "viewer_op list" where
  "demo_viewers = [Admit demo_camera, Suspend demo_camera 8 0, Release 0, Wait demo_camera 8 1, Admit demo_camera,
     Resume demo_camera, Admit demo_camera]"

theorem viewer_drain_certified_witness:
  "\<exists>g0 g. viewer_init 64 = Inr g0 \<and>
     run_ops viewer_exec demo_viewers g0 = ([Joined 0 demo_camera, Departed 0] @ Drained demo_camera #
       [Resumed demo_camera] @ Joined 1 demo_camera # [], g) \<and> int (length (vg_leases g)) \<le> vg_capacity g"
proof -
  define g0 where "g0 = \<lparr>vg_capacity = (64 :: int), vg_leases = [] :: (nat, viewer_lease) dict, vg_holds = [] :: (string, string) dict, vg_next = 0\<rparr>"
  have init: "viewer_init 64 = Inr g0" by (simp add: viewer_init_def g0_def)
  obtain g where run: "run_ops viewer_exec demo_viewers g0 = ([Joined 0 demo_camera, Departed 0] @ Drained demo_camera #
       [Resumed demo_camera] @ Joined 1 demo_camera # [], g)"
    by (simp add: demo_viewers_def g0_def viewer_exec_def viewer_admit_def viewer_release_def suspend_begin_def suspend_wait_def
        viewer_resume_def cancel_leases_def held_def watched_def dict_pop_def)
  then show ?thesis using viewer_drain_certified [OF init run] init by blast
qed

section \<open>The recorder's consumer\<close>

text \<open>
  The gate runs under the recorder's lock; \<open>retire\<close> is the exception that the recorder's
  retirement of its child raises, if any, and \<open>has_process\<close> whether a child is known.
\<close>

definition MAX_HOLDS :: nat where
  "MAX_HOLDS = 32"

type_synonym recording_gate = "(string, bool) dict"

definition held_locked :: "string \<Rightarrow> recording_gate \<Rightarrow> bool" where
  "held_locked camera_id r \<longleftrightarrow> map_of r camera_id \<noteq> None"

definition recording_is_suspended :: "string \<Rightarrow> recording_gate \<Rightarrow> exn + bool" where
  "recording_is_suspended camera_id r = bind_res (validate_camera camera_id) (\<lambda>_. Inr (held_locked camera_id r))"

definition recording_is_retired :: "string \<Rightarrow> bool \<Rightarrow> recording_gate \<Rightarrow> exn + bool" where
  "recording_is_retired camera_id has_process r = bind_res (validate_camera camera_id) (\<lambda>_.
     Inr (map_of r camera_id = Some True \<and> \<not> has_process))"

definition recording_suspend :: "string \<Rightarrow> exn option \<Rightarrow> recording_gate \<Rightarrow> (exn + unit) \<times> recording_gate" where
  "recording_suspend camera_id retire r =
     (if \<not> valid_camera_id camera_id then (Inl (ValueError ''public camera ID required''), r)
      else if \<not> held_locked camera_id r \<and> length r \<ge> MAX_HOLDS
      then (Inl (RuntimeError ''recording suspension capacity reached''), r)
      else let r = dict_set camera_id False r
           in case retire of Some e \<Rightarrow> (Inl e, r) | None \<Rightarrow> (Inr (), dict_set camera_id True r))"

definition recording_resume :: "string \<Rightarrow> bool \<Rightarrow> recording_gate \<Rightarrow> (exn + unit) \<times> recording_gate" where
  "recording_resume camera_id has_process r =
     (if \<not> valid_camera_id camera_id then (Inl (ValueError ''public camera ID required''), r)
      else case map_of r camera_id of
        None \<Rightarrow> (Inr (), r)
      | Some retired \<Rightarrow>
          if \<not> retired \<or> has_process then (Inl (RecorderCleanupUnconfirmed ''recording suspension cleanup unconfirmed''), r)
          else (Inr (), dict_pop camera_id r))"

text \<open>A failed retirement keeps admission closed and cannot be resumed.\<close>

lemma recording_failed_retirement:
  assumes "recording_suspend c (Some e) r = (x, r')" "valid_camera_id c" "held_locked c r \<or> length r < MAX_HOLDS"
  shows "x = Inl e" "held_locked c r'" "fst (recording_resume c p r') = Inl (RecorderCleanupUnconfirmed ''recording suspension cleanup unconfirmed'')"
    "snd (recording_resume c p r') = r'"
  using assms by (auto simp: recording_suspend_def recording_resume_def held_locked_def Let_def split: if_splits)

lemma recording_resume_confirmed:
  "recording_resume c p r = (Inr (), r') \<Longrightarrow> held_locked c r \<Longrightarrow> map_of r c = Some True \<and> \<not> p \<and> \<not> held_locked c r'"
  by (auto simp: recording_resume_def held_locked_def split: if_splits)

section \<open>The durable choice of source\<close>

definition MODES :: "string set" where
  "MODES = {''legacy_rtsp'', ''owned_rtsp'', ''native''}"

definition PHASES :: "string set" where
  "PHASES = {''active'', ''transition'', ''blocked''}"

definition MAX_REVISION :: int where
  "MAX_REVISION = 2 ^ 63 - 1"

record selection =
  sl_mode :: string
  sl_phase :: string
  sl_revision :: int

definition permits_legacy_rtsp :: "selection \<Rightarrow> bool" where
  "permits_legacy_rtsp s \<longleftrightarrow> sl_mode s = ''legacy_rtsp'' \<and> sl_phase s = ''active''"

text \<open>A stored row; the revision is \<open>None\<close> when the stored value is not an integer.\<close>

record policy_row =
  pr_mode :: string
  pr_phase :: string
  pr_revision :: "int option"

record policy_db =
  pd_cameras :: "string list"
  pd_rows :: "(string, policy_row) dict"

definition row_selection :: "policy_row option \<Rightarrow> selection" where
  "row_selection row = (case row of
     None \<Rightarrow> \<lparr>sl_mode = ''legacy_rtsp'', sl_phase = ''active'', sl_revision = 0\<rparr>
   | Some r \<Rightarrow> (case pr_revision r of
       Some n \<Rightarrow> if pr_mode r \<in> MODES \<and> pr_phase r \<in> PHASES \<and> 1 \<le> n \<and> n \<le> MAX_REVISION
                 then \<lparr>sl_mode = pr_mode r, sl_phase = pr_phase r, sl_revision = n\<rparr>
                 else \<lparr>sl_mode = ''legacy_rtsp'', sl_phase = ''blocked'', sl_revision = - 1\<rparr>
     | None \<Rightarrow> \<lparr>sl_mode = ''legacy_rtsp'', sl_phase = ''blocked'', sl_revision = - 1\<rparr>))"

definition current :: "policy_db \<Rightarrow> string \<Rightarrow> selection" where
  "current db camera_id = row_selection (map_of (pd_rows db) camera_id)"

definition policy_snapshot :: "string list \<Rightarrow> policy_db \<Rightarrow> exn + (string \<times> selection) list" where
  "policy_snapshot camera_ids db =
     (if \<exists>c \<in> set camera_ids. \<not> valid_camera_id c then Inl (ValueError ''public camera ID required'')
      else Inr (map (\<lambda>c. (c, current db c)) (rev (remdups (rev camera_ids)))))"

definition required_phases :: "string \<Rightarrow> string set" where
  "required_phases phase = (if phase = ''transition'' then {''active''} else if phase = ''active'' then {''transition''}
     else {''active'', ''transition''})"

definition policy_change :: "string \<Rightarrow> int \<Rightarrow> string \<Rightarrow> string option \<Rightarrow> policy_db \<Rightarrow> (exn + selection) \<times> policy_db" where
  "policy_change camera_id expected phase mode db =
     (if \<not> valid_camera_id camera_id then (Inl (ValueError ''public camera ID required''), db)
      else if \<not> (0 \<le> expected \<and> expected < MAX_REVISION) then (Inl (ValueError ''valid source revision required''), db)
      else if camera_id \<notin> set (pd_cameras db) then (Inl (ValueError ''configured camera required''), db)
      else let old = current db camera_id
      in if sl_revision old \<noteq> expected \<or> sl_phase old \<notin> required_phases phase
      then (Inl (SourcePolicyConflict ''source policy revision or phase changed''), db)
      else let result = \<lparr>sl_mode = (case mode of None \<Rightarrow> sl_mode old | Some m \<Rightarrow> m), sl_phase = phase, sl_revision = expected + 1\<rparr>
      in (Inr result, db\<lparr>pd_rows := dict_set camera_id \<lparr>pr_mode = sl_mode result, pr_phase = phase,
            pr_revision = Some (expected + 1)\<rparr> (pd_rows db)\<rparr>))"

definition begin_change :: "string \<Rightarrow> string \<Rightarrow> int \<Rightarrow> policy_db \<Rightarrow> (exn + selection) \<times> policy_db" where
  "begin_change camera_id mode expected_revision db =
     (if mode \<notin> MODES then (Inl (ValueError ''supported source mode required''), db)
      else policy_change camera_id expected_revision ''transition'' (Some mode) db)"

definition activate :: "string \<Rightarrow> int \<Rightarrow> policy_db \<Rightarrow> (exn + selection) \<times> policy_db" where
  "activate camera_id expected_revision db = policy_change camera_id expected_revision ''active'' None db"

definition block :: "string \<Rightarrow> int \<Rightarrow> policy_db \<Rightarrow> (exn + selection) \<times> policy_db" where
  "block camera_id expected_revision db = policy_change camera_id expected_revision ''blocked'' None db"

text \<open>A row that cannot be read is a blocked choice that no change can leave.\<close>

lemma corrupt_row_blocked:
  assumes "map_of (pd_rows db) c = Some r" "pr_mode r \<notin> MODES \<or> pr_phase r \<notin> PHASES \<or> pr_revision r = None"
  shows "\<not> permits_legacy_rtsp (current db c)" "snd (policy_change c expected phase mode db) = db"
  using assms by (auto simp: current_def row_selection_def permits_legacy_rtsp_def policy_change_def Let_def split: option.splits)

lemma row_selection_mode: "sl_mode (row_selection row) \<in> MODES"
  by (auto simp: row_selection_def MODES_def split: option.splits)

lemma policy_change_ok:
  assumes "policy_change c expected phase mode db = (Inr s, db')" "phase \<in> PHASES" "mode = None \<or> (\<exists>m \<in> MODES. mode = Some m)"
  shows "current db' = (current db)(c := s)" "sl_revision s = sl_revision (current db c) + 1" "sl_phase s = phase"
    "sl_phase (current db c) \<in> required_phases phase" "0 \<le> sl_revision (current db c)"
proof -
  have ch: "sl_revision (current db c) = expected" "0 \<le> expected" "expected < MAX_REVISION" "sl_phase (current db c) \<in> required_phases phase"
    "s = \<lparr>sl_mode = (case mode of None \<Rightarrow> sl_mode (current db c) | Some m \<Rightarrow> m), sl_phase = phase, sl_revision = expected + 1\<rparr>"
    "db' = db\<lparr>pd_rows := dict_set c \<lparr>pr_mode = sl_mode s, pr_phase = phase, pr_revision = Some (expected + 1)\<rparr> (pd_rows db)\<rparr>"
    using assms(1) by (auto simp: policy_change_def Let_def split: if_splits)
  have "sl_mode s \<in> MODES" using assms(3) row_selection_mode by (auto simp: ch(5) current_def)
  then have "current db' c' = ((current db)(c := s)) c'" for c'
    using ch(2,3,5) assms(2) by (simp add: current_def ch(6) row_selection_def)
  then show "current db' = (current db)(c := s)" ..
  show "sl_revision s = sl_revision (current db c) + 1" "sl_phase s = phase"
    "sl_phase (current db c) \<in> required_phases phase" "0 \<le> sl_revision (current db c)" using ch(1,2,4,5) by simp_all
qed

datatype policy_op = Begin string string int | Activate string int | Block string int

datatype policy_event = Changed string selection

definition policy_exec :: "policy_op \<Rightarrow> policy_db \<Rightarrow> policy_event list \<times> policy_db" where
  "policy_exec op db =
     (let (c, result, db') = (case op of
            Begin c mode expected \<Rightarrow> (c, begin_change c mode expected db)
          | Activate c expected \<Rightarrow> (c, activate c expected db)
          | Block c expected \<Rightarrow> (c, block c expected db))
      in case result of Inl _ \<Rightarrow> ([], db') | Inr s \<Rightarrow> ([Changed c s], db'))"

text \<open>Every change follows, in the order of the phases, the state the row had before it.\<close>

definition policy_inv :: "policy_event list \<Rightarrow> policy_db \<Rightarrow> bool" where
  "policy_inv h db \<longleftrightarrow>
     (\<forall>c s. Changed c s \<in> set h \<longrightarrow> sl_revision s \<le> sl_revision (current db c) \<and>
        (sl_phase s = ''blocked'' \<longrightarrow> sl_phase (current db c) = ''blocked'')) \<and>
     each_event (\<lambda>h1 e. case e of Changed c s \<Rightarrow> \<forall>s'. Changed c s' \<in> set h1 \<longrightarrow>
        sl_revision s' < sl_revision s \<and> sl_phase s' \<noteq> ''blocked'') h"

lemma policy_change_inv:
  assumes inv: "policy_inv h db" and ch: "policy_change c expected phase mode db = (Inr s, db')" "phase \<in> PHASES"
    "mode = None \<or> (\<exists>m \<in> MODES. mode = Some m)"
  shows "policy_inv (h @ [Changed c s]) db'"
proof -
  note ok = policy_change_ok [OF ch]
  have "sl_phase (current db c) \<noteq> ''blocked''" using ok(4) by (auto simp: required_phases_def split: if_splits)
  then have old: "sl_revision s' < sl_revision s \<and> sl_phase s' \<noteq> ''blocked''" if "Changed c s' \<in> set h" for s'
    using inv that ok(2) by (force simp: policy_inv_def)
  then show ?thesis using inv ok(1,3) unfolding policy_inv_def by (auto simp: less_imp_le)
qed

lemma policy_change_error: "policy_change c expected phase mode db = (Inl e, db') \<Longrightarrow> db' = db"
  by (auto simp: policy_change_def Let_def split: if_splits)

lemma policy_exec_inv: "policy_inv h db \<Longrightarrow> policy_exec op db = (es, db') \<Longrightarrow> policy_inv (h @ es) db'"
proof (cases op)
  case (Begin c mode expected)
  assume "policy_inv h db" "policy_exec op db = (es, db')"
  then show ?thesis using Begin policy_change_inv [of h db c expected "''transition''" "Some mode"]
    by (auto simp: policy_exec_def begin_change_def PHASES_def dest: policy_change_error split: if_splits prod.splits sum.splits)
next
  case (Activate c expected)
  assume "policy_inv h db" "policy_exec op db = (es, db')"
  then show ?thesis using Activate policy_change_inv [of h db c expected "''active''" None]
    by (auto simp: policy_exec_def activate_def PHASES_def dest: policy_change_error split: prod.splits sum.splits)
next
  case (Block c expected)
  assume "policy_inv h db" "policy_exec op db = (es, db')"
  then show ?thesis using Block policy_change_inv [of h db c expected "''blocked''" None]
    by (auto simp: policy_exec_def block_def PHASES_def dest: policy_change_error split: prod.splits sum.splits)
qed

interpretation policy: machine policy_exec "\<lambda>_. True" policy_inv
  by unfold_locales (simp add: policy_inv_def, rule policy_exec_inv)

text \<open>
  Changes of a camera's source are linear, from whatever the database holds at the
  start and whoever issues them: of two successful changes the later one has the larger
  revision, so a revision is used by at most one change, and after a camera was blocked
  no change of it succeeds any more.
\<close>
theorem policy_changes_linear:
  assumes "run_ops policy_exec ops db = (h1 @ Changed c s # h2 @ Changed c s' # h3, db')"
  shows "sl_revision s < sl_revision s' \<and> sl_phase s \<noteq> ''blocked''"
proof -
  have "policy_inv ((h1 @ Changed c s # h2) @ Changed c s' # h3) db'"
    using policy.reachable_inv [OF TrueI assms] by simp
  then show ?thesis unfolding policy_inv_def using each_eventD [of _ "h1 @ Changed c s # h2" "Changed c s'" h3] by fastforce
qed

theorem policy_changes_linear_witness:
  "\<exists>s s' db. run_ops policy_exec [Begin demo_camera ''native'' 0, Activate demo_camera 0, Activate demo_camera 1]
       \<lparr>pd_cameras = [demo_camera], pd_rows = []\<rparr> = ([] @ Changed demo_camera s # [] @ Changed demo_camera s' # [], db) \<and>
     sl_revision s < sl_revision s'"
proof -
  let ?s = "\<lparr>sl_mode = ''native'', sl_phase = ''transition'', sl_revision = 1\<rparr>"
  let ?s' = "\<lparr>sl_mode = ''native'', sl_phase = ''active'', sl_revision = 2\<rparr>"
  obtain db where run: "run_ops policy_exec [Begin demo_camera ''native'' 0, Activate demo_camera 0, Activate demo_camera 1]
       \<lparr>pd_cameras = [demo_camera], pd_rows = []\<rparr> = ([] @ Changed demo_camera ?s # [] @ Changed demo_camera ?s' # [], db)"
    by (simp add: policy_exec_def begin_change_def activate_def policy_change_def current_def row_selection_def required_phases_def
        MODES_def PHASES_def MAX_REVISION_def)
  from policy_changes_linear [OF run] run show ?thesis by blast
qed

end
