(* ===== verification/Access.thy ===== *)
theory Access
  imports Machine
begin

text \<open>
  Who may do what: pacing of login attempts (\<^verbatim>\<open>login_throttle.py\<close>), delegated keys and their
  store (\<^verbatim>\<open>access_keys.py\<close>, \<^verbatim>\<open>db/access_keys.py\<close>), sessions (\<^verbatim>\<open>auth.py\<close>) and what a
  delegated session may request (\<^verbatim>\<open>session_permissions.py\<close>). The hashes, the signed-cookie
  decoder of the \<^verbatim>\<open>itsdangerous\<close> package and the outcome of the origin check are arguments.
\<close>

section \<open>Login pacing\<close>

definition BURST :: nat where "BURST = 10"
definition INTERVAL :: time where "INTERVAL = 6"
definition SLOTS :: nat where "SLOTS = 4096"

record login_throttle =
  lt_next :: "time list"

definition throttle_init :: login_throttle where
  "throttle_init = \<lparr>lt_next = replicate SLOTS 0\<rparr>"

text \<open>\<open>digest\<close> is the keyed hash of the caller's normalized address, as an integer.\<close>

definition throttle_slot :: "(string \<Rightarrow> nat) \<Rightarrow> string \<Rightarrow> nat" where
  "throttle_slot digest host = digest host mod SLOTS"

definition retry_after :: "(string \<Rightarrow> nat) \<Rightarrow> string \<Rightarrow> time \<Rightarrow> login_throttle \<Rightarrow> int \<times> login_throttle" where
  "retry_after digest host now t =
     (let slot = throttle_slot digest host;
          earliest = lt_next t ! slot - real (BURST - 1) * INTERVAL
      in if earliest > now then (\<lceil>earliest - now\<rceil>, t)
      else (0, t\<lparr>lt_next := (lt_next t)[slot := max now (lt_next t ! slot) + INTERVAL]\<rparr>))"

text \<open>A sequence of attempts, and how many of them the slot \<open>j\<close> admitted.\<close>

fun attempts :: "(string \<Rightarrow> nat) \<Rightarrow> nat \<Rightarrow> (string \<times> time) list \<Rightarrow> login_throttle \<Rightarrow> nat \<times> login_throttle" where
  "attempts digest j [] t = (0, t)"
| "attempts digest j ((host, now) # xs) t =
     (case retry_after digest host now t of (r, t) \<Rightarrow>
        case attempts digest j xs t of (n, t) \<Rightarrow> (n + (if r = 0 \<and> throttle_slot digest host = j then 1 else 0), t))"

lemma throttle_slot_less [simp]: "throttle_slot digest host < SLOTS"
  by (simp add: throttle_slot_def SLOTS_def)

lemma retry_after_refused: "fst (retry_after digest host now t) \<noteq> 0 \<Longrightarrow> snd (retry_after digest host now t) = t"
  by (auto simp: retry_after_def Let_def split: if_splits)

lemma retry_after_zero:
  "fst (retry_after digest host now t) = 0 \<longleftrightarrow> lt_next t ! throttle_slot digest host \<le> now + 54"
proof -
  let ?e = "lt_next t ! throttle_slot digest host - 54"
  have r: "fst (retry_after digest host now t) = (if ?e > now then \<lceil>?e - now\<rceil> else 0)"
    by (simp add: retry_after_def Let_def BURST_def INTERVAL_def)
  have "\<lceil>?e - now\<rceil> \<noteq> 0" if "?e > now" using that by (metis diff_gt_0_iff_gt less_irrefl zero_less_ceiling)
  then show ?thesis by (auto simp: r)
qed

lemma attempts_bound:
  assumes "attempts digest j xs t = (n, t')" "length (lt_next t) = SLOTS" "j < SLOTS" "\<forall>(host, now) \<in> set xs. a \<le> now \<and> now \<le> b"
    "n0 = 0 \<or> a + 6 * real n0 \<le> lt_next t ! j \<and> lt_next t ! j \<le> b + 60"
  shows "n0 + n = 0 \<or> 6 * real (n0 + n) \<le> b - a + 60"
  using assms
proof (induction digest j xs t arbitrary: n n0 rule: attempts.induct)
  case (1 digest j t)
  then show ?case by auto
next
  case (2 digest j host now xs t)
  obtain r t1 where r: "retry_after digest host now t = (r, t1)" by fastforce
  obtain m where m: "attempts digest j xs t1 = (m, t')" "n = m + (if r = 0 \<and> throttle_slot digest host = j then 1 else 0)"
    using "2.prems"(1) r by (auto split: prod.splits)
  have win: "a \<le> now" "now \<le> b" using "2.prems"(4) by auto
  have len: "length (lt_next t1) = SLOTS" using r "2.prems"(2) by (auto simp: retry_after_def Let_def split: if_splits)
  let ?k = "if r = 0 \<and> throttle_slot digest host = j then 1 else 0 :: nat"
  have inv: "n0 + ?k = 0 \<or> a + 6 * real (n0 + ?k) \<le> lt_next t1 ! j \<and> lt_next t1 ! j \<le> b + 60"
  proof (cases "r = 0 \<and> throttle_slot digest host = j")
    case True
    then have "lt_next t ! j \<le> now + 54" using retry_after_zero [of digest host now t] r by simp
    moreover have "lt_next t1 ! j = max now (lt_next t ! j) + 6"
      using True r "2.prems"(2,3) calculation by (auto simp: retry_after_def Let_def BURST_def INTERVAL_def split: if_splits)
    ultimately show ?thesis using True "2.prems"(5) win by (auto simp: max_def)
  next
    case False
    then have "lt_next t1 ! j = lt_next t ! j"
      using r retry_after_refused [of digest host now t] by (auto simp: retry_after_def Let_def split: if_splits)
    then show ?thesis using False "2.prems"(5) by auto
  qed
  have "(n0 + ?k) + m = 0 \<or> 6 * real ((n0 + ?k) + m) \<le> b - a + 60"
    by (rule "2.IH" [OF r [symmetric] m(1) len "2.prems"(3) _ inv]) (use "2.prems"(4) in auto)
  moreover have "(n0 + ?k) + m = n0 + n" using m(2) by simp
  ultimately show ?case by (simp only:)
qed

text \<open>
  Login attempts are paced. From any state and for any hash, a slot admits at most
  ten attempts plus one per six seconds in any window of time, whatever the hosts and the
  order of the readings of the clock; and the delay reported to a refused caller is
  honest: an attempt after it, with none in the slot between, is admitted.
\<close>
theorem login_attempts_paced:
  assumes "length (lt_next t) = SLOTS" "j < SLOTS" "\<forall>(host, now) \<in> set xs. a \<le> now \<and> now \<le> b"
  shows "real (fst (attempts digest j xs t)) \<le> 10 + max 0 (b - a) / 6 \<and>
    (\<forall>host now later. real_of_int (fst (retry_after digest host now t)) \<le> later - now \<and> fst (retry_after digest host now t) \<noteq> 0 \<longrightarrow>
       fst (retry_after digest host later (snd (retry_after digest host now t))) = 0)"
proof (intro conjI allI impI)
  show "real (fst (attempts digest j xs t)) \<le> 10 + max 0 (b - a) / 6"
    using attempts_bound [of digest j xs t "fst (attempts digest j xs t)" "snd (attempts digest j xs t)" a b 0] assms
    by (auto simp: field_simps max_def)
  fix host now later
  assume w: "real_of_int (fst (retry_after digest host now t)) \<le> later - now \<and> fst (retry_after digest host now t) \<noteq> 0"
  then have "lt_next t ! throttle_slot digest host - 54 - now \<le> later - now"
    by (auto simp: retry_after_def Let_def BURST_def INTERVAL_def split: if_splits) linarith
  then show "fst (retry_after digest host later (snd (retry_after digest host now t))) = 0"
    using w retry_after_refused by (simp add: retry_after_zero)
qed

theorem login_attempts_paced_witness:
  "length (lt_next throttle_init) = SLOTS \<and>
   real (fst (attempts length 9 [(''10.0.0.1'', 3), (''10.0.0.1'', 4)] throttle_init)) \<le> 10 + 1 / 6"
  using login_attempts_paced [of throttle_init 9 "[(''10.0.0.1'', 3), (''10.0.0.1'', 4)]" 3 4 length]
  by (simp add: throttle_init_def SLOTS_def)

section \<open>Delegated keys\<close>

definition LEGACY_PERMISSIONS :: "string list" where
  "LEGACY_PERMISSIONS = [''live'', ''recordings'']"

record access_key =
  ak_label :: string
  ak_verifier :: string
  ak_created_at :: time
  ak_expires_at :: "time option"
  ak_revoked_at :: "time option"
  ak_permissions :: "string list"

type_synonym key_store = "(string, access_key) dict"

definition keys_insert :: "string \<Rightarrow> access_key \<Rightarrow> key_store \<Rightarrow> (exn + unit) \<times> key_store" where
  "keys_insert key_id row ks =
     (if key_id \<in> fst ` set ks \<or> (case ak_expires_at row of None \<Rightarrow> False | Some e \<Rightarrow> \<not> e > ak_created_at row)
      then (Inl (DatabaseError ''constraint failed''), ks)
      else (Inr (), dict_set key_id (row\<lparr>ak_revoked_at := None\<rparr>) ks))"

definition keys_get :: "string \<Rightarrow> key_store \<Rightarrow> access_key option" where
  "keys_get key_id ks = map_of ks key_id"

text \<open>\<^verbatim>\<open>ORDER BY created_at DESC, id LIMIT ? OFFSET ?\<close>\<close>

fun text_less :: "string \<Rightarrow> string \<Rightarrow> bool" where
  "text_less xs [] = False"
| "text_less [] (y # ys) = True"
| "text_less (x # xs) (y # ys) = ((of_char x :: nat) < of_char y \<or> x = y \<and> text_less xs ys)"

definition row_before :: "string \<times> access_key \<Rightarrow> string \<times> access_key \<Rightarrow> bool" where
  "row_before x y \<longleftrightarrow> ak_created_at (snd x) > ak_created_at (snd y) \<or>
     (ak_created_at (snd x) = ak_created_at (snd y) \<and> text_less (fst x) (fst y))"

fun insert_row :: "string \<times> access_key \<Rightarrow> (string \<times> access_key) list \<Rightarrow> (string \<times> access_key) list" where
  "insert_row x [] = [x]"
| "insert_row x (y # ys) = (if row_before y x then y # insert_row x ys else x # y # ys)"

definition keys_page :: "nat \<Rightarrow> nat \<Rightarrow> key_store \<Rightarrow> (string \<times> access_key) list" where
  "keys_page limit offset ks = take limit (drop offset (foldr insert_row ks []))"

definition keys_revoke :: "string \<Rightarrow> time \<Rightarrow> key_store \<Rightarrow> access_key option \<times> key_store" where
  "keys_revoke key_id now ks =
     (case map_of ks key_id of
        None \<Rightarrow> (None, ks)
      | Some row \<Rightarrow>
          let row = row\<lparr>ak_revoked_at := (case ak_revoked_at row of None \<Rightarrow> Some now | Some t \<Rightarrow> Some t)\<rparr>
          in (Some row, dict_set key_id row ks))"

record key_metadata =
  km_id :: string
  km_label :: string
  km_created_at :: time
  km_expires_at :: "time option"
  km_permissions :: "string list"
  km_revoked_at :: "time option"
  km_status :: string

definition key_metadata_of :: "string \<Rightarrow> access_key \<Rightarrow> time \<Rightarrow> key_metadata" where
  "key_metadata_of key_id row now = \<lparr>km_id = key_id, km_label = ak_label row, km_created_at = ak_created_at row,
     km_expires_at = ak_expires_at row, km_permissions = ak_permissions row, km_revoked_at = ak_revoked_at row,
     km_status = (if ak_revoked_at row \<noteq> None then ''revoked''
       else if (case ak_expires_at row of None \<Rightarrow> False | Some e \<Rightarrow> e \<le> now) then ''expired'' else ''active'')\<rparr>"

definition hex_digit :: "char \<Rightarrow> bool" where
  "hex_digit c \<longleftrightarrow> c \<in> set ''0123456789abcdef''"

definition valid_key_id :: "string \<Rightarrow> bool" where
  "valid_key_id k \<longleftrightarrow> length k = 32 \<and> (\<forall>c \<in> set k. hex_digit c)"

definition urlsafe_char :: "char \<Rightarrow> bool" where
  "urlsafe_char c \<longleftrightarrow> c \<in> set ''ABCDEFGHIJKLMNOPQRSTUVWXYZabcdefghijklmnopqrstuvwxyz0123456789_-''"

text \<open>\<open>key_id\<close> and \<open>token\<close> are the random draws; \<open>sha256\<close> is the hexadecimal digest.\<close>

definition create_key ::
  "(string \<Rightarrow> string) \<Rightarrow> string \<Rightarrow> time option \<Rightarrow> string list \<Rightarrow> time \<Rightarrow> string \<Rightarrow> string \<Rightarrow> key_store \<Rightarrow>
   (exn + key_metadata \<times> string) \<times> key_store"
where
  "create_key sha256 label expiry permissions now key_id token ks =
     (if (case expiry of None \<Rightarrow> False | Some e \<Rightarrow> e \<le> now) then (Inl (ValueError ''Expiration must be in the future''), ks)
      else let secret = ''ccg_tmp_'' @ key_id @ ''.'' @ token;
               row = \<lparr>ak_label = label, ak_verifier = sha256 secret, ak_created_at = now, ak_expires_at = expiry,
                      ak_revoked_at = None, ak_permissions = permissions\<rparr>
      in case keys_insert key_id row ks of
        (Inl e, ks) \<Rightarrow> (Inl e, ks)
      | (Inr _, ks) \<Rightarrow>
          (Inr (\<lparr>km_id = key_id, km_label = label, km_created_at = now, km_expires_at = expiry, km_permissions = permissions,
                 km_revoked_at = None, km_status = ''active''\<rparr>, secret), ks))"

definition list_keys :: "int \<Rightarrow> int \<Rightarrow> time \<Rightarrow> key_store \<Rightarrow> exn + key_metadata list" where
  "list_keys limit offset now ks =
     (if \<not> (1 \<le> limit \<and> limit \<le> 100) \<or> offset < 0 then Inl (ValueError ''Invalid pagination'')
      else Inr (map (\<lambda>(k, row). key_metadata_of k row now) (keys_page (nat limit) (nat offset) ks)))"

definition revoke_key :: "string \<Rightarrow> time \<Rightarrow> key_store \<Rightarrow> key_metadata option \<times> key_store" where
  "revoke_key key_id now ks =
     (if \<not> valid_key_id key_id then (None, ks)
      else case keys_revoke key_id now ks of
        (None, ks) \<Rightarrow> (None, ks) | (Some row, ks) \<Rightarrow> (Some (key_metadata_of key_id row now), ks))"

definition active_key :: "string \<Rightarrow> time \<Rightarrow> key_store \<Rightarrow> key_metadata option" where
  "active_key key_id now ks =
     (if \<not> valid_key_id key_id then None
      else case keys_get key_id ks of
        None \<Rightarrow> None
      | Some row \<Rightarrow>
          let metadata = key_metadata_of key_id row now
          in if km_status metadata = ''active'' then Some metadata else None)"

text \<open>\<^verbatim>\<open>ccg_tmp_([0-9a-f]{32})\.([A-Za-z0-9_-]{43})\<close>: the identity in a credential.\<close>

definition credential_id :: "string \<Rightarrow> string option" where
  "credential_id secret =
     (let key_id = take 32 (drop 8 secret); token = drop 41 secret
      in if length secret = 84 \<and> take 8 secret = ''ccg_tmp_'' \<and> valid_key_id key_id \<and> secret ! 40 = CHR ''.'' \<and>
            (\<forall>c \<in> set token. urlsafe_char c)
         then Some key_id else None)"

text \<open>\<^verbatim>\<open>authenticate\<close> reads the store twice; another session may change it in between.\<close>

definition authenticate :: "(string \<Rightarrow> string) \<Rightarrow> string \<Rightarrow> key_store \<Rightarrow> time \<Rightarrow> key_store \<Rightarrow> key_metadata option" where
  "authenticate sha256 secret ks now ks' =
     (case credential_id secret of
        None \<Rightarrow> None
      | Some key_id \<Rightarrow>
        (case keys_get key_id ks of
           None \<Rightarrow> None
         | Some row \<Rightarrow> if sha256 secret = ak_verifier row then active_key key_id now ks' else None))"

section \<open>Sessions\<close>

record session_principal =
  sn_authentication :: string
  sn_session_id :: "string option"
  sn_key_id :: "string option"
  sn_permissions :: "string list"

definition can_manage :: "session_principal \<Rightarrow> bool" where
  "can_manage p \<longleftrightarrow> sn_authentication p = ''primary''"

definition issue_token :: "(json \<Rightarrow> string) \<Rightarrow> string \<Rightarrow> string" where
  "issue_token dumps sid = dumps (JObj [(''v'', JInt 1), (''authentication'', JStr ''primary''), (''sid'', JStr sid)])"

definition issue_temporary_token ::
  "(json \<Rightarrow> string) \<Rightarrow> (string \<Rightarrow> string) \<Rightarrow> string \<Rightarrow> string \<Rightarrow> key_store \<Rightarrow> time \<Rightarrow> key_store \<Rightarrow> string option"
where
  "issue_temporary_token dumps sha256 submitted sid ks now ks' =
     (case authenticate sha256 submitted ks now ks' of
        None \<Rightarrow> None
      | Some key \<Rightarrow> Some (dumps (JObj [(''v'', JInt 1), (''authentication'', JStr ''temporary''), (''sid'', JStr sid),
                                       (''key_id'', JStr (km_id key))])))"

definition obj_keys :: "json \<Rightarrow> string set" where
  "obj_keys j = (case j of JObj ps \<Rightarrow> fst ` set ps | _ \<Rightarrow> {})"

fun str_value :: "json option \<Rightarrow> string option" where
  "str_value (Some (JStr s)) = Some s"
| "str_value _ = None"

text \<open>The end of \<^verbatim>\<open>token_principal\<close> for a temporary session: the key is read again.\<close>

definition key_session :: "string \<Rightarrow> string option \<Rightarrow> time \<Rightarrow> key_store \<Rightarrow> session_principal option" where
  "key_session sid key_id now ks =
     (case key_id of
        None \<Rightarrow> None
      | Some k \<Rightarrow>
          if \<not> valid_key_id k then None
          else (case active_key k now ks of
            None \<Rightarrow> None
          | Some key \<Rightarrow> Some \<lparr>sn_authentication = ''temporary'', sn_session_id = Some sid, sn_key_id = Some k,
                             sn_permissions = km_permissions key\<rparr>))"

text \<open>\<open>loads\<close> checks signature and age and decodes; \<open>None\<close> is \<^verbatim>\<open>BadData\<close>.\<close>

definition token_principal :: "(string \<Rightarrow> json option) \<Rightarrow> string \<Rightarrow> time \<Rightarrow> key_store \<Rightarrow> session_principal option" where
  "token_principal loads token now ks =
     (if token = [] \<or> length token > 2048 then None
      else case loads token of
        None \<Rightarrow> None
      | Some payload \<Rightarrow>
        if \<not> is_obj payload then None
        else if obj_keys payload = {''ok''} \<and> obj_get payload ''ok'' = Some (JBool True)
        then Some \<lparr>sn_authentication = ''legacy'', sn_session_id = None, sn_key_id = None, sn_permissions = []\<rparr>
        else let temporary = (obj_get payload ''authentication'' = Some (JStr ''temporary''))
        in if obj_keys payload \<noteq> (if temporary then {''v'', ''authentication'', ''sid'', ''key_id''} else {''v'', ''authentication'', ''sid''})
        then None
        else if obj_get payload ''v'' \<noteq> Some (JInt 1) then None
        else if obj_get payload ''authentication'' \<noteq> Some (JStr ''primary'') \<and> \<not> temporary then None
        else case str_value (obj_get payload ''sid'') of
          None \<Rightarrow> None
        | Some sid \<Rightarrow>
            if \<not> valid_key_id sid then None
            else if temporary then key_session sid (str_value (obj_get payload ''key_id'')) now ks
            else Some \<lparr>sn_authentication = ''primary'', sn_session_id = Some sid, sn_key_id = None, sn_permissions = []\<rparr>)"

definition verify_channel_token :: "(string \<Rightarrow> json option) \<Rightarrow> string \<Rightarrow> time \<Rightarrow> key_store \<Rightarrow> bool" where
  "verify_channel_token loads token now ks =
     (case token_principal loads token now ks of None \<Rightarrow> False | Some p \<Rightarrow> sn_authentication p \<noteq> ''temporary'')"

definition verify_permission_token :: "(string \<Rightarrow> json option) \<Rightarrow> string \<Rightarrow> string \<Rightarrow> time \<Rightarrow> key_store \<Rightarrow> bool" where
  "verify_permission_token loads token permission now ks =
     (case token_principal loads token now ks of
        None \<Rightarrow> False | Some p \<Rightarrow> sn_authentication p \<noteq> ''temporary'' \<or> permission \<in> set (sn_permissions p))"

section \<open>What a delegated session may request\<close>

definition route_in :: "string option \<Rightarrow> string list \<Rightarrow> bool" where
  "route_in route routes \<longleftrightarrow> (case route of None \<Rightarrow> False | Some r \<Rightarrow> r \<in> set routes)"

definition POST_GRANTS :: "(string, string) dict" where
  "POST_GRANTS = [(''/api/recordings/prepare'', ''recordings''), (''/api/cameras/{camera_id}/ptz'', ''ptz''),
     (''/api/cameras/{camera_id}/reboot'', ''reboot''), (''/api/cameras/{camera_id}/intercom/messages'', ''intercom'')]"

definition action_grant :: "string \<Rightarrow> bool" where
  "action_grant g \<longleftrightarrow> g \<in> {''live'', ''recordings'', ''ptz'', ''intercom'', ''reboot''}"

definition temporary_http_allowed :: "string \<Rightarrow> string option \<Rightarrow> string list \<Rightarrow> string option \<Rightarrow> bool" where
  "temporary_http_allowed method route permissions control_key =
     (if method = ''GET'' \<and> route_in route [''/api/cameras'', ''/api/cameras/status''] then permissions \<noteq> []
      else if method = ''GET'' \<and> route_in route [''/api/recordings'', ''/api/recordings/playback-status'', ''/api/storage'',
              ''/api/recordings/file'', ''/api/recordings/download''] then ''recordings'' \<in> set permissions
      else if method = ''GET'' \<and> route_in route [''/api/media/streams'', ''/api/media/activity''] then ''live'' \<in> set permissions
      else if method = ''POST'' then
        (case (case route of None \<Rightarrow> None | Some r \<Rightarrow> map_of POST_GRANTS r) of
           None \<Rightarrow> False | Some required \<Rightarrow> required \<in> set permissions)
      else if (method = ''GET'' \<or> method = ''PUT'') \<and> route_in route [''/api/cameras/{camera_id}/controls/{control_key}'',
              ''/api/cameras/{camera_id}/controls/{control_key}/options'']
      then (case control_key of None \<Rightarrow> False | Some k \<Rightarrow> k \<in> set permissions \<and> \<not> action_grant k)
      else False)"

text \<open>\<open>origin\<close> is the exception of \<^verbatim>\<open>require_browser_write\<close>, if it raises.\<close>

definition require_auth ::
  "session_principal option \<Rightarrow> exn option \<Rightarrow> string \<Rightarrow> string option \<Rightarrow> string option \<Rightarrow> exn + unit"
where
  "require_auth session origin method route control_key =
     (case session of
        None \<Rightarrow> Inl (HTTPException 401 ''Not authenticated'')
      | Some p \<Rightarrow>
        (case origin of
           Some e \<Rightarrow> Inl e
         | None \<Rightarrow>
             if sn_authentication p = ''temporary'' \<and> \<not> temporary_http_allowed method route (sn_permissions p) control_key
             then Inl (HTTPException 403 ''Operation unavailable for temporary sessions'') else Inr ()))"

definition require_primary_session :: "session_principal option \<Rightarrow> exn option \<Rightarrow> exn + session_principal" where
  "require_primary_session session origin =
     (case session of
        None \<Rightarrow> Inl (HTTPException 401 ''Not authenticated'')
      | Some p \<Rightarrow>
          if \<not> can_manage p then Inl (HTTPException 403 ''Sign in with the primary key to manage settings'')
          else case origin of Some e \<Rightarrow> Inl e | None \<Rightarrow> Inr p)"

section \<open>Revocation and scope\<close>

datatype key_op = CreateKey string "time option" "string list" time string string | RevokeKey string time

datatype key_event = Revoked string

definition key_exec :: "(string \<Rightarrow> string) \<Rightarrow> key_op \<Rightarrow> key_store \<Rightarrow> key_event list \<times> key_store" where
  "key_exec sha256 op ks = (case op of
     CreateKey label expiry permissions now key_id token \<Rightarrow> ([], snd (create_key sha256 label expiry permissions now key_id token ks))
   | RevokeKey key_id now \<Rightarrow> (case revoke_key key_id now ks of (None, ks) \<Rightarrow> ([], ks) | (Some m, ks) \<Rightarrow> ([Revoked key_id], ks)))"

definition key_inv :: "key_event list \<Rightarrow> key_store \<Rightarrow> bool" where
  "key_inv h ks \<longleftrightarrow> (\<forall>k. Revoked k \<in> set h \<longrightarrow> (\<exists>row t. map_of ks k = Some row \<and> ak_revoked_at row = Some t))"

lemma create_key_keeps:
  "map_of ks k = Some row \<Longrightarrow> map_of (snd (create_key sha256 label expiry permissions now key_id token ks)) k = Some row"
  by (auto simp: create_key_def keys_insert_def Let_def rev_image_eqI dest!: map_of_SomeD split: prod.splits sum.splits if_splits option.splits)

interpretation keys: machine "key_exec sha256" "\<lambda>_. True" key_inv for sha256
proof unfold_locales
  show "key_inv (h @ es) ks'" if "key_inv h ks" "key_exec sha256 op ks = (es, ks')" for h ks op es ks'
  proof (cases op)
    case (CreateKey label expiry permissions now key_id token)
    then show ?thesis using that create_key_keeps unfolding key_inv_def key_exec_def by fastforce
  next
    case (RevokeKey key_id now)
    then show ?thesis using that unfolding key_inv_def
      by (fastforce simp: key_exec_def revoke_key_def keys_revoke_def Let_def split: if_splits option.splits prod.splits)
  qed
qed (simp add: key_inv_def)

lemma active_key_row:
  "active_key k now ks = Some m \<Longrightarrow> km_id m = k \<and> (\<exists>row. map_of ks k = Some row \<and> km_permissions m = ak_permissions row \<and>
     ak_revoked_at row = None \<and> (\<forall>e. ak_expires_at row = Some e \<longrightarrow> now < e))"
  by (auto simp: active_key_def keys_get_def key_metadata_of_def Let_def split: if_splits option.splits)

lemma key_session_row:
  "key_session sid key_id now ks = Some p \<Longrightarrow> sn_authentication p = ''temporary'' \<and>
   (\<exists>k m. sn_key_id p = Some k \<and> active_key k now ks = Some m \<and> sn_permissions p = km_permissions m)"
  by (auto simp: key_session_def split: option.splits if_splits)

lemma token_principal_cases:
  assumes "token_principal loads token now ks = Some p"
  shows "p = \<lparr>sn_authentication = ''legacy'', sn_session_id = None, sn_key_id = None, sn_permissions = []\<rparr> \<or>
    (\<exists>sid. p = \<lparr>sn_authentication = ''primary'', sn_session_id = Some sid, sn_key_id = None, sn_permissions = []\<rparr>) \<or>
    (\<exists>sid key_id. key_session sid key_id now ks = Some p)"
  using assms unfolding token_principal_def Let_def
  by (simp only: split: if_split_asm option.split_asm) (simp; fail | blast)+

lemma temporary_principal:
  assumes "token_principal loads token now ks = Some p" "sn_key_id p \<noteq> None \<or> sn_authentication p = ''temporary''"
  shows "\<exists>k m. sn_key_id p = Some k \<and> active_key k now ks = Some m \<and> sn_permissions p = km_permissions m"
proof -
  obtain sid key_id where "key_session sid key_id now ks = Some p"
    using token_principal_cases [OF assms(1)] assms(2) by auto
  then show ?thesis using key_session_row by blast
qed

text \<open>
  C4. Revocation is final. Once a key has been revoked, whatever keys are created or
  revoked afterwards, no session token of it gives a session and its credential does not
  authenticate, at any time, even when the credential was checked against a copy of the
  store read before the revocation.
\<close>
theorem revoked_key_dead:
  assumes "run_ops (key_exec sha256) ops ks = (h, ks')" "Revoked k \<in> set h"
  shows "(\<forall>p. token_principal loads token now ks' = Some p \<longrightarrow> sn_key_id p \<noteq> Some k) \<and>
    (\<forall>m. authenticate sha256 secret stale now ks' = Some m \<longrightarrow> km_id m \<noteq> k)"
proof -
  have "key_inv h ks'" by (rule keys.reachable_inv [OF TrueI assms(1)])
  then obtain row t where "map_of ks' k = Some row" "ak_revoked_at row = Some t" using assms(2) by (auto simp: key_inv_def)
  then have dead: "active_key k now ks' = None" using active_key_row [of k now ks'] by (cases "active_key k now ks'") auto
  have "sn_key_id p \<noteq> Some k" if "token_principal loads token now ks' = Some p" for p
    using temporary_principal [OF that] dead by auto
  moreover have "km_id m \<noteq> k" if a: "authenticate sha256 secret stale now ks' = Some m" for m
  proof -
    obtain k' where "active_key k' now ks' = Some m"
      using a by (auto simp: authenticate_def split: option.splits if_splits)
    then show ?thesis using active_key_row [of k' now ks' m] dead by auto
  qed
  ultimately show ?thesis by blast
qed

definition demo_key :: string where
  "demo_key = ''0123456789abcdef0123456789abcdef''"

theorem revoked_key_dead_witness:
  "\<exists>ks. run_ops (key_exec (\<lambda>x. x)) [CreateKey ''guest'' None [''live''] 5 demo_key ''t'', RevokeKey demo_key 7] [] = ([Revoked demo_key], ks) \<and>
     token_principal (\<lambda>t. Some (JObj [(''v'', JInt 1), (''authentication'', JStr ''temporary''), (''sid'', JStr demo_key),
       (''key_id'', JStr demo_key)])) ''cookie'' 8 ks = None"
proof -
  let ?loads = "\<lambda>t. Some (JObj [(''v'', JInt 1), (''authentication'', JStr ''temporary''), (''sid'', JStr demo_key), (''key_id'', JStr demo_key)])"
  have v: "valid_key_id demo_key" by (simp add: valid_key_id_def demo_key_def hex_digit_def)
  obtain ks where run: "run_ops (key_exec (\<lambda>x. x)) [CreateKey ''guest'' None [''live''] 5 demo_key ''t'', RevokeKey demo_key 7] [] = ([Revoked demo_key], ks)"
    using v by (simp add: key_exec_def create_key_def keys_insert_def revoke_key_def keys_revoke_def Let_def)
  have "sn_key_id p = Some demo_key" if "token_principal ?loads ''cookie'' 8 ks = Some p" for p
  proof -
    have "key_session demo_key (Some demo_key) 8 ks = Some p"
      using that v by (auto simp: token_principal_def obj_keys_def split: if_splits)
    then show ?thesis by (auto simp: key_session_def split: if_splits option.splits)
  qed
  then have "token_principal ?loads ''cookie'' 8 ks = None"
    using revoked_key_dead [OF run, of demo_key ?loads "''cookie''" 8] by (cases "token_principal ?loads ''cookie'' 8 ks") auto
  with run show ?thesis by blast
qed

text \<open>
  The access matrix of a delegated session: the verbs and routes it may use at all and the grant
  each of them takes. What is not a row is refused.
\<close>

datatype requirement = AnyGrant | Needs string | OwnControl

definition ACCESS_MATRIX :: "((string \<times> string) \<times> requirement) list" where
  "ACCESS_MATRIX =
    [((''GET'', ''/api/cameras''), AnyGrant),
     ((''GET'', ''/api/cameras/status''), AnyGrant),
     ((''GET'', ''/api/recordings''), Needs ''recordings''),
     ((''GET'', ''/api/recordings/playback-status''), Needs ''recordings''),
     ((''GET'', ''/api/storage''), Needs ''recordings''),
     ((''GET'', ''/api/recordings/file''), Needs ''recordings''),
     ((''GET'', ''/api/recordings/download''), Needs ''recordings''),
     ((''GET'', ''/api/media/streams''), Needs ''live''),
     ((''GET'', ''/api/media/activity''), Needs ''live''),
     ((''POST'', ''/api/recordings/prepare''), Needs ''recordings''),
     ((''POST'', ''/api/cameras/{camera_id}/ptz''), Needs ''ptz''),
     ((''POST'', ''/api/cameras/{camera_id}/reboot''), Needs ''reboot''),
     ((''POST'', ''/api/cameras/{camera_id}/intercom/messages''), Needs ''intercom''),
     ((''GET'', ''/api/cameras/{camera_id}/controls/{control_key}''), OwnControl),
     ((''GET'', ''/api/cameras/{camera_id}/controls/{control_key}/options''), OwnControl),
     ((''PUT'', ''/api/cameras/{camera_id}/controls/{control_key}''), OwnControl),
     ((''PUT'', ''/api/cameras/{camera_id}/controls/{control_key}/options''), OwnControl)]"

text \<open>A control is named by its own grant; the names of the five actions are not controls.\<close>

fun satisfied :: "requirement \<Rightarrow> string set \<Rightarrow> string option \<Rightarrow> bool" where
  "satisfied AnyGrant grants control_key \<longleftrightarrow> grants \<noteq> {}"
| "satisfied (Needs g) grants control_key \<longleftrightarrow> g \<in> grants"
| "satisfied OwnControl grants control_key \<longleftrightarrow>
     (\<exists>c. control_key = Some c \<and> c \<in> grants - {''live'', ''recordings'', ''ptz'', ''intercom'', ''reboot''})"

definition matrix_allows :: "string \<Rightarrow> string option \<Rightarrow> string set \<Rightarrow> string option \<Rightarrow> bool" where
  "matrix_allows verb route grants control_key \<longleftrightarrow>
     (\<exists>r q. route = Some r \<and> ((verb, r), q) \<in> set ACCESS_MATRIX \<and> satisfied q grants control_key)"

lemma control_key_grants:
  "(case control_key of None \<Rightarrow> False | Some k \<Rightarrow> k \<in> set permissions \<and> \<not> action_grant k) =
   satisfied OwnControl (set permissions) control_key"
  by (auto simp: action_grant_def split: option.split)

lemma matrix_exact:
  "temporary_http_allowed verb route permissions control_key = matrix_allows verb route (set permissions) control_key"
proof (cases route)
  case None
  then show ?thesis by (simp add: temporary_http_allowed_def matrix_allows_def route_in_def)
next
  case (Some r)
  consider "verb = ''GET''" | "verb = ''POST''" | "verb = ''PUT''" | "verb \<notin> {''GET'', ''POST'', ''PUT''}" by blast
  then show ?thesis
  proof cases
    case 1
    show ?thesis
      unfolding temporary_http_allowed_def matrix_allows_def control_key_grants Some 1
      by (auto simp: route_in_def ACCESS_MATRIX_def simp del: satisfied.simps(3))
  next
    case 2
    show ?thesis
      unfolding temporary_http_allowed_def matrix_allows_def control_key_grants Some 2
      by (simp add: route_in_def ACCESS_MATRIX_def POST_GRANTS_def)
  next
    case 3
    show ?thesis
      unfolding temporary_http_allowed_def matrix_allows_def control_key_grants Some 3
      by (auto simp: route_in_def ACCESS_MATRIX_def simp del: satisfied.simps(3))
  next
    case 4
    then show ?thesis by (simp add: temporary_http_allowed_def matrix_allows_def ACCESS_MATRIX_def)
  qed
qed

text \<open>
  C16. A delegated session can do exactly what its key's grants name. Its key is in the store,
  neither revoked nor expired, and a request of the session passes if and only if the origin
  check passes and the verb and the matched route are a row of the access matrix whose
  requirement the grants stored with the key meet; every other verb and route is refused,
  and so is management.
\<close>
theorem delegated_session_scope:
  assumes "token_principal loads token now ks = Some p" "sn_authentication p = ''temporary''"
  shows "\<exists>k row. sn_key_id p = Some k \<and> map_of ks k = Some row \<and> ak_revoked_at row = None \<and>
      (\<forall>e. ak_expires_at row = Some e \<longrightarrow> now < e) \<and>
      (\<forall>origin verb route control_key. require_auth (Some p) origin verb route control_key = Inr () \<longleftrightarrow>
         origin = None \<and> matrix_allows verb route (set (ak_permissions row)) control_key) \<and>
      (\<forall>o'. require_primary_session (Some p) o' = Inl (HTTPException 403 ''Sign in with the primary key to manage settings''))"
proof -
  obtain k m where k: "sn_key_id p = Some k" "active_key k now ks = Some m" "sn_permissions p = km_permissions m"
    using temporary_principal [OF assms(1)] assms(2) by blast
  obtain row where row: "map_of ks k = Some row" "sn_permissions p = ak_permissions row" "ak_revoked_at row = None"
    "\<forall>e. ak_expires_at row = Some e \<longrightarrow> now < e" using active_key_row [OF k(2)] k(3) by auto
  have "require_auth (Some p) origin verb route control_key = Inr () \<longleftrightarrow>
      origin = None \<and> matrix_allows verb route (set (ak_permissions row)) control_key" for origin verb route control_key
    using assms(2) row(2) by (simp add: require_auth_def matrix_exact split: option.split)
  moreover have "\<forall>o'. require_primary_session (Some p) o' = Inl (HTTPException 403 ''Sign in with the primary key to manage settings'')"
    using assms(2) by (simp add: require_primary_session_def can_manage_def)
  ultimately show ?thesis using k(1) row(1,3,4) by (intro exI [of _ k] exI [of _ row]) simp
qed

definition demo_store :: key_store where
  "demo_store = [(demo_key, \<lparr>ak_label = ''guest'', ak_verifier = [], ak_created_at = 5, ak_expires_at = Some 9,
     ak_revoked_at = None, ak_permissions = [''ptz'']\<rparr>)]"

theorem delegated_session_scope_witness:
  "\<exists>p. token_principal (\<lambda>t. Some (JObj [(''v'', JInt 1), (''authentication'', JStr ''temporary''), (''sid'', JStr demo_key),
       (''key_id'', JStr demo_key)])) ''cookie'' 8 demo_store = Some p \<and>
     require_auth (Some p) None ''POST'' (Some ''/api/cameras/{camera_id}/ptz'') None = Inr () \<and>
     require_auth (Some p) None ''GET'' (Some ''/api/recordings'') None \<noteq> Inr () \<and>
     require_primary_session (Some p) None = Inl (HTTPException 403 ''Sign in with the primary key to manage settings'')"
proof -
  let ?loads = "\<lambda>t. Some (JObj [(''v'', JInt 1), (''authentication'', JStr ''temporary''), (''sid'', JStr demo_key), (''key_id'', JStr demo_key)])"
  let ?p = "\<lparr>sn_authentication = ''temporary'', sn_session_id = Some demo_key, sn_key_id = Some demo_key, sn_permissions = [''ptz'']\<rparr>"
  have v: "valid_key_id demo_key" by (simp add: valid_key_id_def demo_key_def hex_digit_def)
  have t: "token_principal ?loads ''cookie'' 8 demo_store = Some ?p"
    using v by (simp add: token_principal_def obj_keys_def key_session_def active_key_def keys_get_def key_metadata_of_def demo_store_def)
  obtain row where row: "map_of demo_store demo_key = Some row"
    "\<forall>origin verb route control_key. require_auth (Some ?p) origin verb route control_key = Inr () \<longleftrightarrow>
       origin = None \<and> matrix_allows verb route (set (ak_permissions row)) control_key"
    "\<forall>o'. require_primary_session (Some ?p) o' = Inl (HTTPException 403 ''Sign in with the primary key to manage settings'')"
    using delegated_session_scope [OF t] by auto
  have "set (ak_permissions row) = {''ptz''}" using row(1) by (auto simp: demo_store_def)
  moreover have "matrix_allows ''POST'' (Some ''/api/cameras/{camera_id}/ptz'') {''ptz''} None"
    "\<not> matrix_allows ''GET'' (Some ''/api/recordings'') {''ptz''} None"
    by (simp_all add: matrix_allows_def ACCESS_MATRIX_def)
  ultimately show ?thesis using t row(2,3) by (intro exI [of _ ?p]) simp
qed

end
