(* ===== verification/Recording.thy ===== *)
theory Recording
  imports SourceGates
begin

text \<open>
  The recorder's supervision of its ffmpeg children (\<^verbatim>\<open>recording/recorder.py\<close>,
  \<^verbatim>\<open>recording/process_lifecycle.py\<close>). A child is a number; the children that are running belong to the modelled world, and what the
  operating system answers (whether a spawn, a kill or a wait succeeds, memory use,
  readings of the clock) comes in a record of the environment of a call.
\<close>

section \<open>Supervision of recording children\<close>

definition BACKOFF_BASE :: time where "BACKOFF_BASE = 5"
definition BACKOFF_MAX :: time where "BACKOFF_MAX = 120"
definition HEALTHY_AFTER :: time where "HEALTHY_AFTER = 60"

record recorder =
  rc_procs :: "(string, nat) dict"
  rc_spawned_at :: "(string, time) dict"
  rc_fails :: "(string, nat) dict"
  rc_retry_at :: "(string, time) dict"
  rc_cameras :: "string list"
  rc_paused :: bool
  rc_held :: recording_gate
  rc_next :: nat
  rc_alive :: "nat set"

text \<open>
  \<open>en_clock c\<close>: the two readings taken while spawning camera \<open>c\<close>. \<open>en_permits\<close>: whether the
  durable choice of source, with a ready owned binding, lets the recorder consume the hub,
  or what reading it raises. \<open>en_retire\<close>: what \<^verbatim>\<open>retire_process\<close> raises, \<open>None\<close> when the child was
  reaped. \<open>en_spawn\<close>: what \<^verbatim>\<open>_spawn\<close> raises. \<open>en_runaway\<close>: resident memory above the limit.
  \<open>en_killed\<close>: the watchdog's kill was confirmed, and the reading taken then.
\<close>

record environment =
  en_clock :: "string \<Rightarrow> time \<times> time"
  en_permits :: "string \<Rightarrow> exn + bool"
  en_retire :: "nat \<Rightarrow> exn option"
  en_spawn :: "string \<Rightarrow> exn option"
  en_runaway :: "nat \<Rightarrow> bool"
  en_killed :: "nat \<Rightarrow> time option"

datatype child_event = Spawned nat string | Reaped nat

definition get_or :: "('k, 'v) dict \<Rightarrow> 'k \<Rightarrow> 'v \<Rightarrow> 'v" where
  "get_or d k x = (case map_of d k of None \<Rightarrow> x | Some v \<Rightarrow> v)"

definition recorder_init :: recorder where
  "recorder_init = \<lparr>rc_procs = [], rc_spawned_at = [], rc_fails = [], rc_retry_at = [], rc_cameras = [],
     rc_paused = False, rc_held = [], rc_next = 0, rc_alive = {}\<rparr>"

definition retry_delay :: "string \<Rightarrow> recorder \<Rightarrow> time" where
  "retry_delay camera_id r = (let fails = get_or (rc_fails r) camera_id 0
     in if fails = 0 then 0 else min (BACKOFF_BASE * 2 ^ (fails - 1)) BACKOFF_MAX)"

definition forget :: "string \<Rightarrow> recorder \<Rightarrow> recorder" where
  "forget camera_id r = r\<lparr>rc_procs := dict_pop camera_id (rc_procs r), rc_spawned_at := dict_pop camera_id (rc_spawned_at r),
     rc_fails := dict_pop camera_id (rc_fails r), rc_retry_at := dict_pop camera_id (rc_retry_at r)\<rparr>"

definition spawn_hub_locked :: "environment \<Rightarrow> string \<Rightarrow> recorder \<Rightarrow> (exn + unit) \<times> child_event list \<times> recorder" where
  "spawn_hub_locked env camera_id r =
     (let (t1, t2) = en_clock env camera_id
      in case map_of (rc_procs r) camera_id of
        Some p \<Rightarrow>
          if p \<in> rc_alive r then (Inr (), [], r)
          else let ran = t1 - get_or (rc_spawned_at r) camera_id 0;
                   r = r\<lparr>rc_spawned_at := dict_pop camera_id (rc_spawned_at r), rc_procs := dict_pop camera_id (rc_procs r)\<rparr>;
                   r = r\<lparr>rc_fails := dict_set camera_id
                         (if ran \<ge> HEALTHY_AFTER then 0 else get_or (rc_fails r) camera_id 0 + 1) (rc_fails r)\<rparr>
               in (Inr (), [Reaped p], r\<lparr>rc_retry_at := dict_set camera_id (t2 + retry_delay camera_id r) (rc_retry_at r)\<rparr>)
      | None \<Rightarrow>
          if t1 < get_or (rc_retry_at r) camera_id 0 then (Inr (), [], r)
          else (case en_spawn env camera_id of
            Some e \<Rightarrow> (Inl e, [], r)
          | None \<Rightarrow>
              let p = rc_next r
              in (Inr (), [Spawned p camera_id],
                  r\<lparr>rc_procs := dict_set camera_id p (rc_procs r), rc_spawned_at := dict_set camera_id t2 (rc_spawned_at r),
                    rc_next := p + 1, rc_alive := insert p (rc_alive r)\<rparr>)))"

definition spawn_locked :: "environment \<Rightarrow> string \<Rightarrow> recorder \<Rightarrow> (exn + unit) \<times> child_event list \<times> recorder" where
  "spawn_locked env camera_id r =
     (if rc_paused r \<or> held_locked camera_id (rc_held r) then (Inr (), [], r)
      else case en_permits env camera_id of
        Inl e \<Rightarrow> (Inl e, [], r)
      | Inr permitted \<Rightarrow> if permitted then spawn_hub_locked env camera_id r else (Inr (), [], r))"

definition retire_locked :: "environment \<Rightarrow> string \<Rightarrow> recorder \<Rightarrow> (exn + unit) \<times> child_event list \<times> recorder" where
  "retire_locked env camera_id r =
     (case map_of (rc_procs r) camera_id of
        None \<Rightarrow> (Inr (), [], forget camera_id r)
      | Some p \<Rightarrow>
          (case en_retire env p of
             Some e \<Rightarrow> (Inl e, [], r)
           | None \<Rightarrow> (Inr (), [Reaped p], forget camera_id (r\<lparr>rc_alive := rc_alive r - {p}\<rparr>))))"

text \<open>A \<^verbatim>\<open>for\<close> loop over cameras: an exception leaves it.\<close>

fun each_camera ::
  "(string \<Rightarrow> recorder \<Rightarrow> (exn + unit) \<times> child_event list \<times> recorder) \<Rightarrow> string list \<Rightarrow> recorder \<Rightarrow>
   (exn + unit) \<times> child_event list \<times> recorder"
where
  "each_camera step [] r = (Inr (), [], r)"
| "each_camera step (c # cs) r =
     (case step c r of
        (Inl e, es, r) \<Rightarrow> (Inl e, es, r)
      | (Inr _, es, r) \<Rightarrow> (case each_camera step cs r of (x, es', r) \<Rightarrow> (x, es @ es', r)))"

definition recorder_start :: "environment \<Rightarrow> string list \<Rightarrow> recorder \<Rightarrow> (exn + unit) \<times> child_event list \<times> recorder" where
  "recorder_start env cameras r =
     (let r = r\<lparr>rc_cameras := cameras\<rparr>
      in case each_camera (retire_locked env) (filter (\<lambda>c. c \<notin> set cameras) (map fst (rc_procs r))) r of
        (Inl e, es, r) \<Rightarrow> (Inl e, es, r)
      | (Inr _, es, r) \<Rightarrow> (case each_camera (spawn_locked env) cameras r of (x, es', r) \<Rightarrow> (x, es @ es', r)))"

text \<open>One child of \<^verbatim>\<open>_terminate_all_locked\<close>: failures are noted and the loop goes on.\<close>

fun terminate_children :: "environment \<Rightarrow> (string \<times> nat) list \<Rightarrow> bool \<Rightarrow> recorder \<Rightarrow> bool \<times> child_event list \<times> recorder" where
  "terminate_children env [] failed r = (failed, [], r)"
| "terminate_children env ((camera_id, p) # procs) failed r =
     (case en_retire env p of
        Some e \<Rightarrow> terminate_children env procs True r
      | None \<Rightarrow> (case terminate_children env procs failed (forget camera_id (r\<lparr>rc_alive := rc_alive r - {p}\<rparr>)) of
          (failed, es, r) \<Rightarrow> (failed, Reaped p # es, r)))"

definition pending_ids :: "recorder \<Rightarrow> string list" where
  "pending_ids r = filter (\<lambda>c. c \<notin> fst ` set (rc_procs r)) (map fst (rc_fails r) @ map fst (rc_retry_at r) @ map fst (rc_spawned_at r))"

definition terminate_all_locked :: "environment \<Rightarrow> recorder \<Rightarrow> (exn + unit) \<times> child_event list \<times> recorder" where
  "terminate_all_locked env r =
     (case terminate_children env (rc_procs r) False r of
        (failed, es, r) \<Rightarrow>
          let r = fold forget (pending_ids r) r
          in (if failed then Inl (RecorderCleanupUnconfirmed ''one or more recording processes did not confirm exit'') else Inr (), es, r))"

definition recorder_pause :: "environment \<Rightarrow> recorder \<Rightarrow> (exn + unit) \<times> child_event list \<times> recorder" where
  "recorder_pause env r =
     (if rc_paused r \<and> rc_procs r = [] then (Inr (), [], r)
      else terminate_all_locked env (r\<lparr>rc_paused := True\<rparr>))"

definition recorder_resume :: "environment \<Rightarrow> recorder \<Rightarrow> (exn + unit) \<times> child_event list \<times> recorder" where
  "recorder_resume env r =
     (case (if rc_paused r \<and> rc_procs r \<noteq> [] then terminate_all_locked env r else (Inr (), [], r)) of
        (Inl e, es, r) \<Rightarrow> (Inl e, es, r)
      | (Inr _, es, r) \<Rightarrow> (Inr (), es, r\<lparr>rc_paused := False\<rparr>))"

fun watchdog :: "environment \<Rightarrow> (string \<times> nat) list \<Rightarrow> recorder \<Rightarrow> child_event list \<times> recorder" where
  "watchdog env [] r = ([], r)"
| "watchdog env ((camera_id, p) # procs) r =
     (if p \<notin> rc_alive r \<or> \<not> en_runaway env p \<or> en_killed env p = None then watchdog env procs r
      else let r = r\<lparr>rc_alive := rc_alive r - {p}, rc_procs := dict_pop camera_id (rc_procs r),
                     rc_spawned_at := dict_pop camera_id (rc_spawned_at r),
                     rc_fails := dict_set camera_id (get_or (rc_fails r) camera_id 0 + 1) (rc_fails r)\<rparr>;
               r = r\<lparr>rc_retry_at := dict_set camera_id (the (en_killed env p) + retry_delay camera_id r) (rc_retry_at r)\<rparr>
           in case watchdog env procs r of (es, r) \<Rightarrow> (Reaped p # es, r))"

text \<open>
  The locked section of a maintenance pass; its exceptions are logged and dropped. The
  pause flag was read before the lock was taken.
\<close>

definition maintain_pass :: "environment \<Rightarrow> bool \<Rightarrow> recorder \<Rightarrow> child_event list \<times> recorder" where
  "maintain_pass env paused r =
     (if paused then ([], r)
      else case watchdog env (rc_procs r) r of
        (es, r) \<Rightarrow> (case each_camera (spawn_locked env) (rc_cameras r) r of (x, es', r) \<Rightarrow> (es @ es', r)))"

definition is_recording :: "string \<Rightarrow> recorder \<Rightarrow> bool" where
  "is_recording camera_id r = (case map_of (rc_procs r) camera_id of None \<Rightarrow> False | Some p \<Rightarrow> p \<in> rc_alive r)"

definition ingress_suspend :: "environment \<Rightarrow> string \<Rightarrow> recorder \<Rightarrow> (exn + unit) \<times> child_event list \<times> recorder" where
  "ingress_suspend env camera_id r =
     (if \<not> valid_camera_id camera_id then (Inl (ValueError ''public camera ID required''), [], r)
      else if \<not> held_locked camera_id (rc_held r) \<and> length (rc_held r) \<ge> MAX_HOLDS
      then (Inl (RuntimeError ''recording suspension capacity reached''), [], r)
      else case retire_locked env camera_id (r\<lparr>rc_held := dict_set camera_id False (rc_held r)\<rparr>) of
        (Inl e, es, r) \<Rightarrow> (Inl e, es, r)
      | (Inr _, es, r) \<Rightarrow> (Inr (), es, r\<lparr>rc_held := dict_set camera_id True (rc_held r)\<rparr>))"

definition ingress_resume :: "string \<Rightarrow> recorder \<Rightarrow> (exn + unit) \<times> recorder" where
  "ingress_resume camera_id r =
     (case recording_resume camera_id (map_of (rc_procs r) camera_id \<noteq> None) (rc_held r) of
        (x, gate) \<Rightarrow> (x, r\<lparr>rc_held := gate\<rparr>))"

text \<open>The gate of the previous theory with the recorder's own callbacks.\<close>

lemma ingress_suspend_gate:
  "fst (ingress_suspend env c r) = fst (recording_suspend c (case map_of (rc_procs r) c of None \<Rightarrow> None | Some p \<Rightarrow> en_retire env p) (rc_held r)) \<and>
   rc_held (snd (snd (ingress_suspend env c r))) =
     snd (recording_suspend c (case map_of (rc_procs r) c of None \<Rightarrow> None | Some p \<Rightarrow> en_retire env p) (rc_held r))"
  by (auto simp: ingress_suspend_def recording_suspend_def retire_locked_def forget_def Let_def split: option.splits)

section \<open>One writer per camera\<close>

datatype recorder_op =
    StartCameras environment "string list" | PauseAll environment | ResumeAll environment | MaintainPass environment bool
  | SuspendCamera environment string | ResumeCamera string | StopAll environment | ChildExits nat

definition recorder_exec :: "recorder_op \<Rightarrow> recorder \<Rightarrow> child_event list \<times> recorder" where
  "recorder_exec op r = (case op of
     StartCameras env cameras \<Rightarrow> snd (recorder_start env cameras r)
   | PauseAll env \<Rightarrow> snd (recorder_pause env r)
   | ResumeAll env \<Rightarrow> snd (recorder_resume env r)
   | MaintainPass env paused \<Rightarrow> maintain_pass env paused r
   | SuspendCamera env c \<Rightarrow> snd (ingress_suspend env c r)
   | ResumeCamera c \<Rightarrow> ([], snd (ingress_resume c r))
   | StopAll env \<Rightarrow> snd (terminate_all_locked env r)
   | ChildExits p \<Rightarrow> ([], r\<lparr>rc_alive := rc_alive r - {p}\<rparr>))"

text \<open>
  Every child that was not confirmed dead is the one the table holds for its camera; a
  confirmed one does not run.
\<close>

definition single_writer :: "child_event list \<Rightarrow> child_event \<Rightarrow> bool" where
  "single_writer h1 e = (case e of Reaped p \<Rightarrow> True | Spawned p c \<Rightarrow> \<forall>p'. Spawned p' c \<in> set h1 \<longrightarrow> Reaped p' \<in> set h1)"

definition children_ok :: "child_event list \<Rightarrow> recorder \<Rightarrow> bool" where
  "children_ok h r \<longleftrightarrow>
     (\<forall>p c. Spawned p c \<in> set h \<longrightarrow> p < rc_next r \<and> (Reaped p \<in> set h \<or> map_of (rc_procs r) c = Some p)) \<and>
     (\<forall>p. Reaped p \<in> set h \<longrightarrow> p \<notin> rc_alive r \<and> p < rc_next r) \<and>
     (\<forall>c p. map_of (rc_procs r) c = Some p \<longrightarrow> Spawned p c \<in> set h) \<and>
     (\<forall>p \<in> rc_alive r. \<exists>c. Spawned p c \<in> set h) \<and> each_event single_writer h"

lemma children_okD:
  assumes "children_ok h r"
  shows "Spawned p c \<in> set h \<Longrightarrow> p < rc_next r" "Spawned p c \<in> set h \<Longrightarrow> Reaped p \<notin> set h \<Longrightarrow> map_of (rc_procs r) c = Some p"
    "Reaped p \<in> set h \<Longrightarrow> p \<notin> rc_alive r" "Reaped p \<in> set h \<Longrightarrow> p < rc_next r" "map_of (rc_procs r) c = Some p \<Longrightarrow> Spawned p c \<in> set h"
    "p \<in> rc_alive r \<Longrightarrow> \<exists>c. Spawned p c \<in> set h" "each_event single_writer h"
  using assms unfolding children_ok_def by blast+

text \<open>Steps that leave the table and start no child.\<close>

lemma children_ok_cong:
  assumes "children_ok h r" "rc_procs r' = rc_procs r" "rc_next r' = rc_next r" "rc_alive r' \<subseteq> rc_alive r"
  shows "children_ok h r'"
  using assms unfolding children_ok_def by (simp add: subset_iff) metis

text \<open>A confirmed exit takes the child out of the table.\<close>

lemma children_ok_reap:
  assumes ok: "children_ok h r" and p: "map_of (rc_procs r) c = Some p"
    and r': "rc_procs r' = dict_pop c (rc_procs r)" "rc_next r' = rc_next r" "rc_alive r' = rc_alive r - {p}"
  shows "children_ok (h @ [Reaped p]) r'"
  unfolding children_ok_def
proof (intro conjI allI impI ballI)
  note d = children_okD [OF ok]
  have sp: "Spawned p c \<in> set h" by (rule d(5) [OF p])
  show "q < rc_next r'" if "Spawned q b \<in> set (h @ [Reaped p])" for q b using that d(1) r'(2) by auto
  show "Reaped q \<in> set (h @ [Reaped p]) \<or> map_of (rc_procs r') b = Some q" if "Spawned q b \<in> set (h @ [Reaped p])" for q b
    using that d(2) [of q b] p by (cases "b = c") (auto simp: r'(1))
  show "q \<notin> rc_alive r'" "q < rc_next r'" if "Reaped q \<in> set (h @ [Reaped p])" for q
    using that d(1) [OF sp] d(3,4) r'(2,3) by auto
  show "Spawned q b \<in> set (h @ [Reaped p])" if "map_of (rc_procs r') b = Some q" for b q
    using that d(5) [of b q] by (simp add: r'(1) split: if_splits)
  show "\<exists>b. Spawned q b \<in> set (h @ [Reaped p])" if "q \<in> rc_alive r'" for q using that d(6) by (auto simp: r'(3))
  show "each_event single_writer (h @ [Reaped p])" using d(7) by (simp add: single_writer_def)
qed

lemma children_ok_spawn:
  assumes ok: "children_ok h r" and c: "map_of (rc_procs r) c = None"
    and r': "rc_procs r' = dict_set c (rc_next r) (rc_procs r)" "rc_next r' = Suc (rc_next r)" "rc_alive r' = insert (rc_next r) (rc_alive r)"
  shows "children_ok (h @ [Spawned (rc_next r) c]) r'"
  unfolding children_ok_def
proof (intro conjI allI impI ballI)
  note d = children_okD [OF ok]
  let ?h = "h @ [Spawned (rc_next r) c]"
  show "q < rc_next r'" if "Spawned q b \<in> set ?h" for q b using that d(1) [of q b] r'(2) by auto
  show "Reaped q \<in> set ?h \<or> map_of (rc_procs r') b = Some q" if "Spawned q b \<in> set ?h" for q b
    using that d(2) [of q b] c by (cases "b = c") (auto simp: r'(1))
  show "q \<notin> rc_alive r'" "q < rc_next r'" if "Reaped q \<in> set ?h" for q
    using that d(3,4) [of q] r'(2,3) by auto
  show "Spawned q b \<in> set ?h" if "map_of (rc_procs r') b = Some q" for b q
    using that d(5) [of b q] by (simp add: r'(1) split: if_splits)
  show "\<exists>b. Spawned q b \<in> set ?h" if "q \<in> rc_alive r'" for q using that d(6) [of q] by (auto simp: r'(3))
  show "each_event single_writer ?h" using d(7) d(2) c by (fastforce simp: single_writer_def)
qed

lemma spawn_hub_ok: "children_ok h r \<Longrightarrow> spawn_hub_locked env c r = (x, es, r') \<Longrightarrow> children_ok (h @ es) r'"
  by (auto simp: spawn_hub_locked_def Let_def split: prod.splits option.splits if_splits
      intro: children_ok_reap children_ok_spawn)

lemma spawn_ok: "children_ok h r \<Longrightarrow> spawn_locked env c r = (x, es, r') \<Longrightarrow> children_ok (h @ es) r'"
  by (auto simp: spawn_locked_def spawn_hub_ok split: if_splits sum.splits)

lemma retire_ok: "children_ok h r \<Longrightarrow> retire_locked env c r = (x, es, r') \<Longrightarrow> children_ok (h @ es) r'"
  by (auto simp: retire_locked_def forget_def dict_pop_absent map_of_eq_None_iff split: option.splits
      intro: children_ok_reap children_ok_cong)

lemma forget_fields [simp]:
  "rc_procs (forget c r) = dict_pop c (rc_procs r)" "rc_next (forget c r) = rc_next r" "rc_alive (forget c r) = rc_alive r"
  "rc_paused (forget c r) = rc_paused r" "rc_held (forget c r) = rc_held r" "rc_cameras (forget c r) = rc_cameras r"
  by (simp_all add: forget_def)

definition recorder_inv :: "child_event list \<Rightarrow> recorder \<Rightarrow> bool" where
  "recorder_inv h r \<longleftrightarrow> children_ok h r \<and> distinct (map fst (rc_procs r))"

lemma spawn_hub_distinct:
  "spawn_hub_locked env c r = (x, es, r') \<Longrightarrow> distinct (map fst (rc_procs r)) \<Longrightarrow> distinct (map fst (rc_procs r'))"
  by (auto simp: spawn_hub_locked_def Let_def distinct_dict_pop split: if_splits prod.splits option.splits)

lemma spawn_inv: "recorder_inv h r \<Longrightarrow> spawn_locked env c r = (x, es, r') \<Longrightarrow> recorder_inv (h @ es) r'"
  using spawn_hub_ok [of h r env c x es r'] spawn_hub_distinct [of env c r x es r']
  by (auto simp: recorder_inv_def spawn_locked_def split: if_splits sum.splits)

lemma retire_inv: "recorder_inv h r \<Longrightarrow> retire_locked env c r = (x, es, r') \<Longrightarrow> recorder_inv (h @ es) r'"
  using retire_ok [of h r env c x es r']
  by (auto simp: recorder_inv_def retire_locked_def distinct_dict_pop split: option.splits)

lemma each_camera_inv:
  assumes step: "\<And>h r c x es r'. I h r \<Longrightarrow> step c r = (x, es, r') \<Longrightarrow> I (h @ es) r'"
  shows "I h r \<Longrightarrow> each_camera step cs r = (x, es, r') \<Longrightarrow> I (h @ es) r'"
proof (induction cs arbitrary: h r x es r')
  case (Cons c cs)
  obtain x1 e1 r1 where s: "step c r = (x1, e1, r1)" by (metis prod_cases3)
  have ok: "I (h @ e1) r1" by (rule step [OF Cons.prems(1) s])
  obtain x2 e2 r2 where t: "each_camera step cs r1 = (x2, e2, r2)" by (metis prod_cases3)
  have "I ((h @ e1) @ e2) r2" by (rule Cons.IH [OF ok t])
  then show ?case using Cons.prems(2) s t ok by (auto split: sum.splits)
qed simp

lemma keys_of: "distinct (map fst d) \<Longrightarrow> (c, p) \<in> set d \<Longrightarrow> map_of d c = Some p"
  by simp

lemma terminate_children_inv:
  assumes "terminate_children env items failed r = (f, es, r')" "recorder_inv h r" "distinct (map fst items)"
    "\<And>c p. (c, p) \<in> set items \<Longrightarrow> map_of (rc_procs r) c = Some p"
  shows "recorder_inv (h @ es) r'"
  using assms
proof (induction env items failed r arbitrary: h f es r' rule: terminate_children.induct)
  case (2 env c p items failed r)
  have here: "map_of (rc_procs r) c = Some p" using "2.prems"(4) by simp
  have rest: "distinct (map fst items)" "c \<notin> fst ` set items" using "2.prems"(3) by auto
  show ?case
  proof (cases "en_retire env p")
    case None
    let ?r = "forget c (r\<lparr>rc_alive := rc_alive r - {p}\<rparr>)"
    obtain f1 e1 where t: "terminate_children env items failed ?r = (f1, e1, r')" "es = Reaped p # e1"
      using "2.prems"(1) None by (auto split: prod.splits)
    have "recorder_inv (h @ [Reaped p]) ?r"
      using "2.prems"(2) children_ok_reap [OF _ here, of h ?r] by (auto simp: recorder_inv_def distinct_dict_pop)
    moreover have "map_of (rc_procs ?r) c' = Some p'" if "(c', p') \<in> set items" for c' p'
      using "2.prems"(4) [of c' p'] that rest(2) by (auto simp: rev_image_eqI)
    ultimately have "recorder_inv ((h @ [Reaped p]) @ e1) r'" using "2.IH"(1) [OF None t(1) _ rest(1)] by blast
    then show ?thesis using t(2) by simp
  next
    case (Some e)
    then show ?thesis using "2.IH"(2) [OF Some _ "2.prems"(2) rest(1)] "2.prems"(1,4) by simp
  qed
qed simp

lemma watchdog_inv:
  assumes "watchdog env items r = (es, r')" "recorder_inv h r" "distinct (map fst items)"
    "\<And>c p. (c, p) \<in> set items \<Longrightarrow> map_of (rc_procs r) c = Some p"
  shows "recorder_inv (h @ es) r'"
  using assms
proof (induction env items r arbitrary: h es r' rule: watchdog.induct)
  case (2 env c p items r)
  have here: "map_of (rc_procs r) c = Some p" using "2.prems"(4) by simp
  have rest: "distinct (map fst items)" "c \<notin> fst ` set items" using "2.prems"(3) by auto
  show ?case
  proof (cases "p \<notin> rc_alive r \<or> \<not> en_runaway env p \<or> en_killed env p = None")
    case True
    then show ?thesis using "2.IH"(1) [OF True _ "2.prems"(2) rest(1)] "2.prems"(1,4) by simp
  next
    case False
    define r1 where "r1 = r\<lparr>rc_alive := rc_alive r - {p}, rc_procs := dict_pop c (rc_procs r),
      rc_spawned_at := dict_pop c (rc_spawned_at r), rc_fails := dict_set c (get_or (rc_fails r) c 0 + 1) (rc_fails r)\<rparr>"
    define r2 where "r2 = r1\<lparr>rc_retry_at := dict_set c (the (en_killed env p) + retry_delay c r1) (rc_retry_at r1)\<rparr>"
    obtain e1 where t: "watchdog env items r2 = (e1, r')" "es = Reaped p # e1"
      using "2.prems"(1) False by (auto simp: r1_def r2_def Let_def split: prod.splits)
    have "recorder_inv (h @ [Reaped p]) r2"
      using "2.prems"(2) children_ok_reap [OF _ here, of h r2] by (auto simp: recorder_inv_def distinct_dict_pop r1_def r2_def)
    moreover have "map_of (rc_procs r2) c' = Some p'" if "(c', p') \<in> set items" for c' p'
      using "2.prems"(4) [of c' p'] that rest(2) by (auto simp: rev_image_eqI r1_def r2_def)
    ultimately have "recorder_inv ((h @ [Reaped p]) @ e1) r'"
      using "2.IH"(2) [OF False r1_def r2_def t(1) _ rest(1)] by blast
    then show ?thesis using t(2) by simp
  qed
qed simp

lemma fold_forget:
  "\<forall>c \<in> set cs. c \<notin> fst ` set (rc_procs r) \<Longrightarrow> rc_procs (fold forget cs r) = rc_procs r \<and> rc_next (fold forget cs r) = rc_next r \<and>
   rc_alive (fold forget cs r) = rc_alive r \<and> rc_paused (fold forget cs r) = rc_paused r \<and> rc_held (fold forget cs r) = rc_held r"
  by (induction cs arbitrary: r) (simp_all add: dict_pop_absent)

lemma terminate_all_inv:
  assumes "recorder_inv h r" "terminate_all_locked env r = (x, es, r')"
  shows "recorder_inv (h @ es) r'"
proof -
  obtain f e1 r1 where t: "terminate_children env (rc_procs r) False r = (f, e1, r1)" by (metis prod_cases3)
  have inv: "recorder_inv (h @ e1) r1"
    using terminate_children_inv [OF t assms(1)] assms(1) keys_of by (auto simp: recorder_inv_def)
  have r': "es = e1" "r' = fold forget (pending_ids r1) r1" using assms(2) t by (simp_all add: terminate_all_locked_def Let_def)
  have "\<forall>c \<in> set (pending_ids r1). c \<notin> fst ` set (rc_procs r1)" by (auto simp: pending_ids_def)
  then show ?thesis using inv fold_forget [of "pending_ids r1" r1] children_ok_cong [of "h @ e1" r1 r'] by (simp add: recorder_inv_def r')
qed

lemma recorder_inv_cong:
  "recorder_inv h r \<Longrightarrow> rc_procs r' = rc_procs r \<Longrightarrow> rc_next r' = rc_next r \<Longrightarrow> rc_alive r' \<subseteq> rc_alive r \<Longrightarrow> recorder_inv h r'"
  using children_ok_cong [of h r r'] by (simp add: recorder_inv_def)

lemma recorder_exec_inv:
  assumes inv: "recorder_inv h r" and exec: "recorder_exec op r = (es, r')"
  shows "recorder_inv (h @ es) r'"
proof (cases op)
  case (StartCameras env cs)
  let ?r = "r\<lparr>rc_cameras := cs\<rparr>" let ?gone = "filter (\<lambda>c. c \<notin> set cs) (map fst (rc_procs ?r))"
  obtain x1 e1 r1 where a: "each_camera (retire_locked env) ?gone ?r = (x1, e1, r1)" by (metis prod_cases3)
  obtain x2 e2 r2 where b: "each_camera (spawn_locked env) cs r1 = (x2, e2, r2)" by (metis prod_cases3)
  have i1: "recorder_inv (h @ e1) r1"
    by (rule each_camera_inv [where I = recorder_inv, OF retire_inv _ a]) (use recorder_inv_cong [OF inv] in auto)
  have i2: "recorder_inv ((h @ e1) @ e2) r2" by (rule each_camera_inv [where I = recorder_inv, OF spawn_inv i1 b])
  show ?thesis using exec StartCameras a b i1 i2 by (auto simp: recorder_exec_def recorder_start_def Let_def split: sum.splits)
next
  case (PauseAll env)
  have "recorder_inv h (r\<lparr>rc_paused := True\<rparr>)" by (rule recorder_inv_cong [OF inv]) auto
  moreover obtain x1 e1 r1 where a: "terminate_all_locked env (r\<lparr>rc_paused := True\<rparr>) = (x1, e1, r1)" by (metis prod_cases3)
  ultimately have "recorder_inv (h @ e1) r1" by (rule terminate_all_inv)
  then show ?thesis using exec PauseAll inv a by (auto simp: recorder_exec_def recorder_pause_def split: if_splits)
next
  case (ResumeAll env)
  obtain x1 e1 r1 where a: "(if rc_paused r \<and> rc_procs r \<noteq> [] then terminate_all_locked env r else (Inr (), [], r)) = (x1, e1, r1)"
    by (metis prod_cases3)
  have i1: "recorder_inv (h @ e1) r1" using a inv terminate_all_inv [OF inv] by (auto split: if_splits)
  then have "recorder_inv (h @ e1) (r1\<lparr>rc_paused := False\<rparr>)" by (rule recorder_inv_cong) auto
  then show ?thesis using exec ResumeAll a i1 by (auto simp: recorder_exec_def recorder_resume_def split: sum.splits)
next
  case (MaintainPass env paused)
  obtain e1 r1 where a: "watchdog env (rc_procs r) r = (e1, r1)" by fastforce
  obtain x2 e2 r2 where b: "each_camera (spawn_locked env) (rc_cameras r1) r1 = (x2, e2, r2)" by (metis prod_cases3)
  have i1: "recorder_inv (h @ e1) r1" using watchdog_inv [OF a inv] inv keys_of by (auto simp: recorder_inv_def)
  have "recorder_inv ((h @ e1) @ e2) r2" by (rule each_camera_inv [where I = recorder_inv, OF spawn_inv i1 b])
  then show ?thesis using exec MaintainPass a b inv by (auto simp: recorder_exec_def maintain_pass_def split: if_splits)
next
  case (SuspendCamera env c)
  let ?r = "r\<lparr>rc_held := dict_set c False (rc_held r)\<rparr>"
  obtain x1 e1 r1 where a: "retire_locked env c ?r = (x1, e1, r1)" by (metis prod_cases3)
  have "recorder_inv h ?r" by (rule recorder_inv_cong [OF inv]) auto
  then have i1: "recorder_inv (h @ e1) r1" by (rule retire_inv [OF _ a])
  then have "recorder_inv (h @ e1) (r1\<lparr>rc_held := g\<rparr>)" for g by (rule recorder_inv_cong) auto
  then show ?thesis using exec SuspendCamera a i1 inv
    by (auto simp: recorder_exec_def ingress_suspend_def split: if_splits sum.splits)
next
  case (ResumeCamera c)
  have "recorder_inv h (r\<lparr>rc_held := g\<rparr>)" for g by (rule recorder_inv_cong [OF inv]) auto
  then show ?thesis using exec ResumeCamera by (auto simp: recorder_exec_def ingress_resume_def split: prod.splits)
next
  case (StopAll env)
  then show ?thesis using exec terminate_all_inv [OF inv, of env "fst (terminate_all_locked env r)" es r']
    by (simp add: recorder_exec_def prod_eq_iff)
next
  case (ChildExits p)
  have "recorder_inv h (r\<lparr>rc_alive := rc_alive r - {p}\<rparr>)" by (rule recorder_inv_cong [OF inv]) auto
  then show ?thesis using exec ChildExits by (auto simp: recorder_exec_def)
qed

interpretation supervision: machine recorder_exec "\<lambda>r. r = recorder_init" recorder_inv
proof unfold_locales
  show "recorder_inv [] r" if "r = recorder_init" for r using that by (simp add: recorder_inv_def children_ok_def recorder_init_def)
qed (rule recorder_exec_inv)

text \<open>
  A camera for which admission is closed, by a pause or by its hold, and that has no
  child; no operation spawns one while the closure lasts.
\<close>

definition quiet :: "string \<Rightarrow> bool \<Rightarrow> recording_gate \<Rightarrow> child_event list \<Rightarrow> recorder \<Rightarrow> bool" where
  "quiet c paused gate h r \<longleftrightarrow> rc_paused r = paused \<and> rc_held r = gate \<and> (paused \<or> held_locked c gate) \<and>
     map_of (rc_procs r) c = None \<and> (\<forall>p. Spawned p c \<notin> set h)"

lemma quiet_spawn: "quiet c b g h r \<Longrightarrow> spawn_locked env d r = (x, es, r') \<Longrightarrow> quiet c b g (h @ es) r'"
  by (auto simp: quiet_def spawn_locked_def spawn_hub_locked_def Let_def split: if_splits prod.splits option.splits sum.splits)

lemma quiet_retire: "quiet c b g h r \<Longrightarrow> retire_locked env d r = (x, es, r') \<Longrightarrow> quiet c b g (h @ es) r'"
  by (auto simp: quiet_def retire_locked_def split: if_splits option.splits)

lemma quiet_terminate: "quiet c b g h r \<Longrightarrow> terminate_children env items failed r = (f, es, r') \<Longrightarrow> quiet c b g (h @ es) r'"
proof (induction env items failed r arbitrary: h f es r' rule: terminate_children.induct)
  case (2 env d p items failed r)
  let ?r = "forget d (r\<lparr>rc_alive := rc_alive r - {p}\<rparr>)"
  have "quiet c b g (h @ [Reaped p]) ?r" using "2.prems"(1) by (auto simp: quiet_def)
  then show ?case using "2.IH"(1) [of "h @ [Reaped p]"] "2.IH"(2) [OF _ "2.prems"(1)] "2.prems"(2)
    by (auto split: option.splits prod.splits)
qed simp

lemma quiet_watchdog: "quiet c b g h r \<Longrightarrow> watchdog env items r = (es, r') \<Longrightarrow> quiet c b g (h @ es) r'"
proof (induction env items r arbitrary: h es r' rule: watchdog.induct)
  case (2 env d p items r)
  show ?case
  proof (cases "p \<notin> rc_alive r \<or> \<not> en_runaway env p \<or> en_killed env p = None")
    case True
    then show ?thesis using "2.IH"(1) [OF True "2.prems"(1)] "2.prems"(2) by simp
  next
    case False
    define r1 where "r1 = r\<lparr>rc_alive := rc_alive r - {p}, rc_procs := dict_pop d (rc_procs r),
      rc_spawned_at := dict_pop d (rc_spawned_at r), rc_fails := dict_set d (get_or (rc_fails r) d 0 + 1) (rc_fails r)\<rparr>"
    define r2 where "r2 = r1\<lparr>rc_retry_at := dict_set d (the (en_killed env p) + retry_delay d r1) (rc_retry_at r1)\<rparr>"
    obtain e1 where t: "watchdog env items r2 = (e1, r')" "es = Reaped p # e1"
      using "2.prems"(2) False by (auto simp: r1_def r2_def Let_def split: prod.splits)
    have "quiet c b g (h @ [Reaped p]) r2" using "2.prems"(1) by (auto simp: quiet_def r1_def r2_def)
    then show ?thesis using "2.IH"(2) [OF False r1_def r2_def, of "h @ [Reaped p]" e1 r'] t by simp
  qed
qed simp

lemma quiet_terminate_all:
  assumes "quiet c b g h r" "terminate_all_locked env r = (x, es, r')"
  shows "quiet c b g (h @ es) r'"
proof -
  obtain f e1 r1 where t: "terminate_children env (rc_procs r) False r = (f, e1, r1)" by (metis prod_cases3)
  have r': "es = e1" "r' = fold forget (pending_ids r1) r1" using assms(2) t by (simp_all add: terminate_all_locked_def Let_def)
  have "\<forall>c \<in> set (pending_ids r1). c \<notin> fst ` set (rc_procs r1)" by (auto simp: pending_ids_def)
  then show ?thesis using quiet_terminate [OF assms(1) t] fold_forget [of "pending_ids r1" r1] by (simp add: quiet_def r')
qed

lemma quiet_pause:
  assumes "quiet c b g h r" "recorder_pause env r = (x, es, r')"
  shows "\<exists>b'. (b \<longrightarrow> b') \<and> quiet c b' g (h @ es) r'"
proof (cases "rc_paused r \<and> rc_procs r = []")
  case False
  have "quiet c True g h (r\<lparr>rc_paused := True\<rparr>)" using assms(1) by (auto simp: quiet_def)
  then show ?thesis using quiet_terminate_all [of c True g h] assms(2) False by (auto simp: recorder_pause_def)
qed (use assms in \<open>auto simp: recorder_pause_def\<close>)

lemma quiet_start:
  assumes "quiet c b g h r" "recorder_start env cs r = (x, es, r')"
  shows "quiet c b g (h @ es) r'"
proof -
  let ?r = "r\<lparr>rc_cameras := cs\<rparr>" let ?gone = "filter (\<lambda>c. c \<notin> set cs) (map fst (rc_procs ?r))"
  obtain x1 e1 r1 where a: "each_camera (retire_locked env) ?gone ?r = (x1, e1, r1)" by (metis prod_cases3)
  obtain x2 e2 r2 where t: "each_camera (spawn_locked env) cs r1 = (x2, e2, r2)" by (metis prod_cases3)
  have i1: "quiet c b g (h @ e1) r1"
    by (rule each_camera_inv [where I = "quiet c b g", OF quiet_retire _ a]) (use assms(1) in \<open>auto simp: quiet_def\<close>)
  have i2: "quiet c b g ((h @ e1) @ e2) r2" by (rule each_camera_inv [where I = "quiet c b g", OF quiet_spawn i1 t])
  show ?thesis using assms(2) a t i1 i2 by (auto simp: recorder_start_def Let_def split: sum.splits)
qed

lemma quiet_maintain:
  assumes "quiet c b g h r" "maintain_pass env paused r = (es, r')"
  shows "quiet c b g (h @ es) r'"
proof -
  obtain e1 r1 where a: "watchdog env (rc_procs r) r = (e1, r1)" by fastforce
  obtain x2 e2 r2 where t: "each_camera (spawn_locked env) (rc_cameras r1) r1 = (x2, e2, r2)" by (metis prod_cases3)
  have i1: "quiet c b g (h @ e1) r1" by (rule quiet_watchdog [OF assms(1) a])
  have "quiet c b g ((h @ e1) @ e2) r2" by (rule each_camera_inv [where I = "quiet c b g", OF quiet_spawn i1 t])
  then show ?thesis using assms a t by (auto simp: maintain_pass_def split: if_splits)
qed

text \<open>A camera whose suspension succeeded stays without a child until it is resumed.\<close>

definition suspended :: "string \<Rightarrow> child_event list \<Rightarrow> recorder \<Rightarrow> bool" where
  "suspended c h r \<longleftrightarrow> held_locked c (rc_held r) \<and> map_of (rc_procs r) c = None \<and> (\<forall>p. Spawned p c \<notin> set h)"

lemma suspended_quiet: "suspended c h r \<longleftrightarrow> held_locked c (rc_held r) \<and> quiet c (rc_paused r) (rc_held r) h r"
  by (auto simp: suspended_def quiet_def)

lemma quiet_suspended: "quiet c b g h r \<Longrightarrow> held_locked c g \<Longrightarrow> suspended c h r"
  by (simp add: suspended_def quiet_def)

lemma held_locked_set [simp]: "held_locked c (dict_set d v g) \<longleftrightarrow> c = d \<or> held_locked c g"
  by (auto simp: held_locked_def)

lemma suspended_exec:
  assumes s: "suspended c h r" and op: "op \<noteq> ResumeCamera c" and exec: "recorder_exec op r = (es, r')"
  shows "suspended c (h @ es) r'"
proof -
  have held: "held_locked c (rc_held r)" and q: "quiet c (rc_paused r) (rc_held r) h r" using s by (simp_all add: suspended_quiet)
  note up = quiet_suspended [OF _ held]
  show ?thesis
  proof (cases op)
    case (StartCameras env cs)
    then show ?thesis using exec up quiet_start [OF q, of env cs "fst (recorder_start env cs r)" es r']
      by (simp add: recorder_exec_def prod_eq_iff)
  next
    case (PauseAll env)
    then show ?thesis using exec up quiet_pause [OF q, of env "fst (recorder_pause env r)" es r']
      by (auto simp: recorder_exec_def prod_eq_iff)
  next
    case (ResumeAll env)
    obtain x1 e1 r1 where a: "(if rc_paused r \<and> rc_procs r \<noteq> [] then terminate_all_locked env r else (Inr (), [], r)) = (x1, e1, r1)"
      by (metis prod_cases3)
    have "suspended c (h @ e1) r1" using a q s up quiet_terminate_all [OF q, of env x1 e1 r1] by (auto split: if_splits)
    then show ?thesis using exec ResumeAll a by (auto simp: recorder_exec_def recorder_resume_def suspended_def split: sum.splits)
  next
    case (MaintainPass env paused)
    then show ?thesis using exec up [OF quiet_maintain [OF q, of env paused es r']] by (simp add: recorder_exec_def)
  next
    case (SuspendCamera env d)
    then show ?thesis using exec s
      by (auto simp: recorder_exec_def ingress_suspend_def suspended_def retire_locked_def split: if_splits option.splits)
  next
    case (ResumeCamera d)
    then show ?thesis using exec s op
      by (auto simp: recorder_exec_def ingress_resume_def recording_resume_def suspended_def held_locked_def split: if_splits option.splits)
  next
    case (StopAll env)
    then show ?thesis using exec up quiet_terminate_all [OF q, of env "fst (terminate_all_locked env r)" es r']
      by (simp add: recorder_exec_def prod_eq_iff)
  next
    case (ChildExits p)
    then show ?thesis using exec s by (auto simp: recorder_exec_def suspended_def)
  qed
qed

lemma suspend_suspended: "ingress_suspend env c r = (Inr (), es, r') \<Longrightarrow> suspended c [] r'"
  by (auto simp: ingress_suspend_def retire_locked_def suspended_def split: if_splits option.splits)

text \<open>
  C3. For every interleaving of the recorder's operations with children that exit on their
  own: when a child is spawned for a camera, every child spawned for it before has been
  confirmed dead, so at most one child of a camera ever runs, and no confirmed child runs.
\<close>
theorem recorder_single_writer:
  assumes "run_ops recorder_exec ops recorder_init = (h, r)"
  shows "(h = h1 @ Spawned p c # h2 \<longrightarrow> Spawned q c \<in> set h1 \<longrightarrow> Reaped q \<in> set h1) \<and>
    (Spawned p c \<in> set h \<and> Spawned q c \<in> set h \<and> p \<in> rc_alive r \<and> q \<in> rc_alive r \<longrightarrow> p = q) \<and>
    (Reaped p \<in> set h \<longrightarrow> p \<notin> rc_alive r)"
proof -
  have ok: "children_ok h r" using supervision.reachable_inv [OF refl assms] by (simp add: recorder_inv_def)
  note d = children_okD [OF ok]
  have "Reaped q \<in> set h1" if "h = h1 @ Spawned p c # h2" "Spawned q c \<in> set h1"
    using each_eventD [OF d(7) [unfolded that(1)]] that(2) by (auto simp: single_writer_def)
  moreover have "p = q" if "Spawned p c \<in> set h" "Spawned q c \<in> set h" "p \<in> rc_alive r" "q \<in> rc_alive r"
    using d(2) [OF that(1)] d(2) [OF that(2)] d(3) [of p] d(3) [of q] that(3,4) by (metis option.inject)
  ultimately show ?thesis using d(3) [of p] by blast
qed

definition demo_environment :: environment where
  "demo_environment = \<lparr>en_clock = (\<lambda>c. (10, 11)), en_permits = (\<lambda>c. Inr True), en_retire = (\<lambda>p. None),
     en_spawn = (\<lambda>c. None), en_runaway = (\<lambda>p. False), en_killed = (\<lambda>p. None)\<rparr>"

lemmas recorder_evaluation = recorder_exec_def recorder_start_def recorder_pause_def recorder_resume_def maintain_pass_def
  spawn_locked_def spawn_hub_locked_def retire_locked_def terminate_all_locked_def pending_ids_def ingress_suspend_def
  recorder_init_def demo_environment_def forget_def get_or_def held_locked_def retry_delay_def BACKOFF_BASE_def HEALTHY_AFTER_def
  BACKOFF_MAX_def dict_pop_def Let_def

definition demo_supervision :: "recorder_op list" where
  "demo_supervision = [StartCameras demo_environment [''a'', ''b''], ChildExits 0,
     MaintainPass (demo_environment\<lparr>en_clock := \<lambda>c. (90, 91)\<rparr>) False, MaintainPass (demo_environment\<lparr>en_clock := \<lambda>c. (95, 96)\<rparr>) False]"

lemma demo_supervision_run:
  "fst (run_ops recorder_exec demo_supervision recorder_init) = [Spawned 0 ''a'', Spawned 1 ''b'', Reaped 0, Spawned 2 ''a'']"
  by (simp add: demo_supervision_def recorder_evaluation)

theorem recorder_single_writer_witness:
  "fst (run_ops recorder_exec demo_supervision recorder_init) = [Spawned 0 ''a'', Spawned 1 ''b'', Reaped 0] @ Spawned 2 ''a'' # [] \<and>
   Reaped 0 \<in> set [Spawned 0 ''a'', Spawned 1 ''b'', Reaped 0]"
  using recorder_single_writer [where ops = demo_supervision and ?h1.0 = "[Spawned 0 ''a'', Spawned 1 ''b'', Reaped 0]" and p = 2
      and c = "''a''" and ?h2.0 = "[]" and q = 0, OF prod.collapse [symmetric]]
  by (simp add: demo_supervision_run)

text \<open>
  C23. A camera whose suspension succeeded in any reachable state has no running child, and no
  operation other than its own resumption spawns one: not a new camera list, a resume of
  the disk guard or a maintenance pass.
\<close>
theorem recorder_suspension_certified:
  assumes run: "run_ops recorder_exec ops recorder_init = (h, r)"
    and suspend: "ingress_suspend env c r = (Inr (), es, r1)"
    and more: "run_ops recorder_exec ops' r1 = (h2, r2)" "\<forall>op \<in> set ops'. op \<noteq> ResumeCamera c"
  shows "Spawned p c \<notin> set h2 \<and> (Spawned p c \<in> set h \<longrightarrow> p \<notin> rc_alive r2) \<and> \<not> is_recording c r2"
proof -
  have s: "suspended c h2 r2"
    using run_ops_induct [of "suspended c" "\<lambda>op. op \<noteq> ResumeCamera c" recorder_exec "[]" r1 ops' h2 r2]
      suspended_exec suspend_suspended [OF suspend] more by auto
  have "run_ops recorder_exec (ops @ SuspendCamera env c # ops') recorder_init = (h @ es @ h2, r2)"
    using run suspend more(1) by (simp add: run_ops_append recorder_exec_def)
  then have ok: "children_ok (h @ es @ h2) r2" using supervision.reachable_inv [OF refl] by (auto simp: recorder_inv_def)
  have "p \<notin> rc_alive r2" if "Spawned p c \<in> set h"
    using children_okD(2) [OF ok, of p c] children_okD(3) [OF ok, of p] that s by (auto simp: suspended_def)
  then show ?thesis using s by (simp add: suspended_def is_recording_def)
qed

theorem recorder_suspension_certified_witness:
  "let (h, r) = run_ops recorder_exec [StartCameras demo_environment [demo_camera]] recorder_init;
       (x, es, r1) = ingress_suspend demo_environment demo_camera r;
       (h2, r2) = run_ops recorder_exec [ResumeAll demo_environment, MaintainPass demo_environment False] r1
   in h = [Spawned 0 demo_camera] \<and> x = Inr () \<and> 0 \<notin> rc_alive r2 \<and> \<not> is_recording demo_camera r2"
proof -
  obtain h r where 1: "run_ops recorder_exec [StartCameras demo_environment [demo_camera]] recorder_init = (h, r)" by fastforce
  obtain x es r1 where 2: "ingress_suspend demo_environment demo_camera r = (x, es, r1)" by (metis prod_cases3)
  obtain h2 r2 where 3: "run_ops recorder_exec [ResumeAll demo_environment, MaintainPass demo_environment False] r1 = (h2, r2)" by fastforce
  have h: "h = [Spawned 0 demo_camera]" using 1 by (auto simp: recorder_evaluation)
  have x: "x = Inr ()" using 1 2 by (auto simp: recorder_evaluation demo_camera_valid MAX_HOLDS_def)
  show ?thesis using recorder_suspension_certified [OF 1 2 [unfolded x] 3, of 0] 1 2 3 h x by simp
qed

end
