(* ===== verification/StorageGuard.thy ===== *)
theory StorageGuard
  imports Recording
begin

text \<open>
  The disk guard (\<^verbatim>\<open>recording/storage.py\<close>): it pauses the recorder when the recordings
  volume is full and resumes it below a lower mark. A reading of the disk is an argument
  of a check; percentages are exact reals. Two readings are taken, one for the policy and
  one, with the time of day, for the state that is returned.
\<close>

section \<open>The guard\<close>

type_synonym disk_usage = "nat \<times> nat \<times> nat"

definition OK :: string where "OK = ''ok''"
definition ALERT :: string where "ALERT = ''alert''"
definition FULL :: string where "FULL = ''full''"

record storage_state =
  ss_total :: nat
  ss_used :: nat
  ss_free :: nat
  ss_percent :: real
  ss_status :: string
  ss_saving_paused :: bool
  ss_checked_at :: string

record storage_monitor =
  sm_alert :: int
  sm_full :: int
  sm_resume :: int
  sm_paused_by_full :: bool
  sm_pause_pending :: bool

definition monitor_init :: "int \<Rightarrow> int \<Rightarrow> int \<Rightarrow> storage_monitor" where
  "monitor_init alert full resume = \<lparr>sm_alert = alert, sm_full = full, sm_resume = resume,
     sm_paused_by_full = False, sm_pause_pending = False\<rparr>"

definition used_percent :: "disk_usage \<Rightarrow> real" where
  "used_percent du = (let (total, used, free) = du in if total \<noteq> 0 then real used / real total * 100 else 0)"

text \<open>\<^verbatim>\<open>round(x, 1)\<close> on an exact value: to the nearest tenth, a tie to the even one.\<close>

definition round_tenth :: "real \<Rightarrow> real" where
  "round_tenth x =
     (let n = \<lfloor>x * 10\<rfloor>; rest = x * 10 - of_int n
      in of_int (if rest < 1 / 2 \<or> rest = 1 / 2 \<and> even n then n else n + 1) / 10)"

definition monitor_state :: "exn + disk_usage \<times> string \<Rightarrow> storage_monitor \<Rightarrow> recorder option \<Rightarrow> exn + storage_state" where
  "monitor_state reading m rec = bind_res reading (\<lambda>(du, checked_at).
     let (total, used, free) = du; pct = used_percent du;
         status = (if pct \<ge> of_int (sm_full m) \<or> sm_paused_by_full m then FULL
                   else if pct \<ge> of_int (sm_alert m) then ALERT else OK);
         paused = (case rec of Some r \<Rightarrow> rc_paused r | None \<Rightarrow> sm_paused_by_full m)
     in Inr \<lparr>ss_total = total, ss_used = used, ss_free = free, ss_percent = round_tenth pct, ss_status = status,
          ss_saving_paused = paused, ss_checked_at = checked_at\<rparr>)"

definition apply_pause ::
  "environment \<Rightarrow> storage_monitor \<Rightarrow> recorder option \<Rightarrow> (exn + unit) \<times> child_event list \<times> storage_monitor \<times> recorder option"
where
  "apply_pause env m rec =
     (let m = m\<lparr>sm_paused_by_full := True, sm_pause_pending := True\<rparr>
      in case rec of
        None \<Rightarrow> (Inr (), [], m\<lparr>sm_pause_pending := False\<rparr>, None)
      | Some r \<Rightarrow> (case recorder_pause env r of
          (Inl e, es, r) \<Rightarrow> (Inl e, es, m, Some r)
        | (Inr _, es, r) \<Rightarrow> (Inr (), es, m\<lparr>sm_pause_pending := False\<rparr>, Some r)))"

definition apply_resume ::
  "environment \<Rightarrow> storage_monitor \<Rightarrow> recorder option \<Rightarrow> (exn + unit) \<times> child_event list \<times> storage_monitor \<times> recorder option"
where
  "apply_resume env m rec =
     (case rec of
        None \<Rightarrow> (Inr (), [], m\<lparr>sm_paused_by_full := False\<rparr>, None)
      | Some r \<Rightarrow> (case recorder_resume env r of
          (Inl e, es, r) \<Rightarrow> (Inl e, es, m, Some r)
        | (Inr _, es, r) \<Rightarrow> (Inr (), es, m\<lparr>sm_paused_by_full := False\<rparr>, Some r)))"

definition monitor_check ::
  "environment \<Rightarrow> exn + disk_usage \<Rightarrow> exn + disk_usage \<times> string \<Rightarrow> storage_monitor \<Rightarrow> recorder option \<Rightarrow>
   (exn + storage_state) \<times> child_event list \<times> storage_monitor \<times> recorder option"
where
  "monitor_check env reading reading' m rec =
     (case reading of
        Inl e \<Rightarrow> (Inl e, [], m, rec)
      | Inr du \<Rightarrow>
          let pct = used_percent du
          in case (if sm_pause_pending m \<or> (\<not> sm_paused_by_full m \<and> pct \<ge> of_int (sm_full m)) then apply_pause env m rec
                   else if sm_paused_by_full m \<and> pct \<le> of_int (sm_resume m) then apply_resume env m rec
                   else (Inr (), [], m, rec)) of
            (Inl e, es, m, rec) \<Rightarrow> (Inl e, es, m, rec)
          | (Inr _, es, m, rec) \<Rightarrow> (monitor_state reading' m rec, es, m, rec))"

text \<open>
  The background loop over the passes it gets to make before it is stopped; it swallows
  \<^verbatim>\<open>OSError\<close> only. The first component: the thread is still running.
\<close>

fun is_os_error :: "exn \<Rightarrow> bool" where
  "is_os_error (OSError m) = True"
| "is_os_error e = False"

fun monitor_loop ::
  "(environment \<times> (exn + disk_usage) \<times> (exn + disk_usage \<times> string)) list \<Rightarrow> storage_monitor \<Rightarrow> recorder option \<Rightarrow>
   bool \<times> child_event list \<times> storage_monitor \<times> recorder option"
where
  "monitor_loop [] m rec = (True, [], m, rec)"
| "monitor_loop ((env, reading, reading') # passes) m rec =
     (case monitor_check env reading reading' m rec of
        (x, es, m, rec) \<Rightarrow>
          if (case x of Inl e \<Rightarrow> is_os_error e | Inr _ \<Rightarrow> True)
          then (case monitor_loop passes m rec of (running, es', m, rec) \<Rightarrow> (running, es @ es', m, rec))
          else (False, es, m, rec))"

section \<open>The guard and the recorder\<close>

text \<open>The operations other than pause and resume keep the flag.\<close>

lemma paused_spawn: "spawn_locked env c r = (x, es, r') \<Longrightarrow> rc_paused r' = rc_paused r"
  by (auto simp: spawn_locked_def spawn_hub_locked_def Let_def split: if_splits prod.splits option.splits sum.splits)

lemma paused_retire: "retire_locked env c r = (x, es, r') \<Longrightarrow> rc_paused r' = rc_paused r"
  by (auto simp: retire_locked_def split: option.splits)

lemma paused_terminate: "terminate_children env items failed r = (f, es, r') \<Longrightarrow> rc_paused r' = rc_paused r"
  by (induction env items failed r arbitrary: f es r' rule: terminate_children.induct) (auto split: option.splits prod.splits)

lemma fold_forget_paused: "rc_paused (fold forget cs r) = rc_paused r"
  by (induction cs arbitrary: r) simp_all

lemma paused_terminate_all: "terminate_all_locked env r = (x, es, r') \<Longrightarrow> rc_paused r' = rc_paused r"
  using paused_terminate [of env "rc_procs r" False r]
  by (cases "terminate_children env (rc_procs r) False r") (auto simp: terminate_all_locked_def Let_def fold_forget_paused)

lemma paused_watchdog: "watchdog env items r = (es, r') \<Longrightarrow> rc_paused r' = rc_paused r"
  by (induction env items r arbitrary: es r' rule: watchdog.induct) (auto simp: Let_def split: prod.splits if_splits)

lemma paused_each:
  assumes "\<And>c r x es r'. step c r = (x, es, r') \<Longrightarrow> rc_paused r' = rc_paused r" "each_camera step cs r = (x, es, r')"
  shows "rc_paused r' = rc_paused r"
  using each_camera_inv [of "\<lambda>h s. rc_paused s = rc_paused r" step "[]" r cs x es r'] assms by auto

definition supervises :: "recorder_op \<Rightarrow> bool" where
  "supervises op = (case op of PauseAll env \<Rightarrow> False | ResumeAll env \<Rightarrow> False | _ \<Rightarrow> True)"

lemma paused_start: "recorder_start env cs r = (x, es, r') \<Longrightarrow> rc_paused r' = rc_paused r"
proof -
  assume start: "recorder_start env cs r = (x, es, r')"
  let ?r = "r\<lparr>rc_cameras := cs\<rparr>" let ?gone = "filter (\<lambda>c. c \<notin> set cs) (map fst (rc_procs ?r))"
  obtain x1 e1 r1 where a: "each_camera (retire_locked env) ?gone ?r = (x1, e1, r1)" by (metis prod_cases3)
  obtain x2 e2 r2 where t: "each_camera (spawn_locked env) cs r1 = (x2, e2, r2)" by (metis prod_cases3)
  show "rc_paused r' = rc_paused r"
    using start a t paused_each [OF paused_retire a] paused_each [OF paused_spawn t]
    by (auto simp: recorder_start_def Let_def split: sum.splits)
qed

lemma paused_maintain: "maintain_pass env paused r = (es, r') \<Longrightarrow> rc_paused r' = rc_paused r"
proof -
  assume pass: "maintain_pass env paused r = (es, r')"
  obtain e1 r1 where a: "watchdog env (rc_procs r) r = (e1, r1)" by fastforce
  obtain x2 e2 r2 where t: "each_camera (spawn_locked env) (rc_cameras r1) r1 = (x2, e2, r2)" by (metis prod_cases3)
  show "rc_paused r' = rc_paused r"
    using pass a t paused_watchdog [OF a] paused_each [OF paused_spawn t] by (auto simp: maintain_pass_def split: if_splits)
qed

lemma paused_suspend: "ingress_suspend env c r = (x, es, r') \<Longrightarrow> rc_paused r' = rc_paused r"
  by (auto simp: ingress_suspend_def retire_locked_def split: if_splits option.splits)

lemma paused_exec:
  assumes "recorder_exec op r = (es, r')" "supervises op"
  shows "rc_paused r' = rc_paused r"
proof -
  have "rc_paused (snd (snd (recorder_start env cs r))) = rc_paused r" for env cs by (rule paused_start) (simp add: prod_eq_iff)
  moreover have "rc_paused (snd (snd (ingress_suspend env c r))) = rc_paused r" for env c by (rule paused_suspend) (simp add: prod_eq_iff)
  moreover have "rc_paused (snd (snd (terminate_all_locked env r))) = rc_paused r" for env
    by (rule paused_terminate_all) (simp add: prod_eq_iff)
  ultimately show ?thesis using assms paused_maintain
    by (cases op) (auto simp: recorder_exec_def supervises_def ingress_resume_def prod_eq_iff split: prod.splits)
qed

text \<open>A paused recorder without children stays without children.\<close>

definition silent :: "recorder \<Rightarrow> bool" where
  "silent r \<longleftrightarrow> rc_paused r \<and> rc_procs r = []"

lemma no_keys: "(\<forall>c. map_of d c = None) \<longleftrightarrow> d = []"
  by (cases d) (auto split: if_splits)

lemma silent_quiet: "silent r \<Longrightarrow> quiet c True (rc_held r) [] r"
  by (simp add: silent_def quiet_def)

lemma quiet_silent: "(\<And>c. quiet c True g h r) \<Longrightarrow> silent r"
  using no_keys [of "rc_procs r"] by (auto simp: silent_def quiet_def)

lemma silent_exec:
  assumes s: "silent r" and exec: "recorder_exec op r = (es, r')" and op: "supervises op"
  shows "silent r'"
proof (cases op)
  case (StartCameras env cs)
  then have "recorder_start env cs r = (fst (recorder_start env cs r), es, r')" using exec by (simp add: recorder_exec_def prod_eq_iff)
  from quiet_silent [OF quiet_start [OF silent_quiet [OF s] this]] show ?thesis .
next
  case (MaintainPass env b)
  then have "maintain_pass env b r = (es, r')" using exec by (simp add: recorder_exec_def)
  from quiet_silent [OF quiet_maintain [OF silent_quiet [OF s] this]] show ?thesis .
next
  case (StopAll env)
  then have "terminate_all_locked env r = (fst (terminate_all_locked env r), es, r')" using exec by (simp add: recorder_exec_def prod_eq_iff)
  from quiet_silent [OF quiet_terminate_all [OF silent_quiet [OF s] this]] show ?thesis .
next
  case (SuspendCamera env c)
  then show ?thesis using exec s by (auto simp: recorder_exec_def ingress_suspend_def retire_locked_def silent_def dict_pop_def split: if_splits)
next
  case (ResumeCamera c)
  then show ?thesis using exec s by (auto simp: recorder_exec_def ingress_resume_def silent_def split: prod.splits)
next
  case (ChildExits p)
  then show ?thesis using exec s by (auto simp: recorder_exec_def silent_def)
qed (use op in \<open>auto simp: supervises_def\<close>)

text \<open>What a pause and a resume leave.\<close>

lemma terminate_children_left:
  "terminate_children env items failed r = (f, es, r') \<Longrightarrow> \<not> f \<Longrightarrow> \<not> failed \<and> rc_procs r' = fold dict_pop (map fst items) (rc_procs r)"
  by (induction env items failed r arbitrary: f es r' rule: terminate_children.induct) (auto split: option.splits prod.splits)

lemma pop_all: "fst ` set d \<subseteq> set ks \<Longrightarrow> fold dict_pop ks d = []"
proof (induction ks arbitrary: d)
  case (Cons k ks)
  have "fst ` set (dict_pop k d) \<subseteq> set ks" using Cons.prems by auto
  then show ?case using Cons.IH by simp
qed simp

lemma terminate_all_left:
  assumes "terminate_all_locked env r = (Inr (), es, r')"
  shows "rc_procs r' = []"
proof -
  obtain f e1 r1 where t: "terminate_children env (rc_procs r) False r = (f, e1, r1)" by (metis prod_cases3)
  have f: "\<not> f" and r': "r' = fold forget (pending_ids r1) r1" using assms t by (simp_all add: terminate_all_locked_def Let_def split: if_splits)
  have "rc_procs r1 = []" using terminate_children_left [OF t f] pop_all [of "rc_procs r" "map fst (rc_procs r)"] by simp
  then show ?thesis using fold_forget [of "pending_ids r1" r1] r' by simp
qed

lemma pause_silent: "recorder_pause env r = (Inr (), es, r') \<Longrightarrow> silent r'"
  using terminate_all_left [of env "r\<lparr>rc_paused := True\<rparr>" es r'] paused_terminate_all [of env "r\<lparr>rc_paused := True\<rparr>"]
  by (auto simp: recorder_pause_def silent_def split: if_splits)

lemma pause_paused: "recorder_pause env r = (x, es, r') \<Longrightarrow> rc_paused r'"
  using paused_terminate_all [of env "r\<lparr>rc_paused := True\<rparr>"] by (auto simp: recorder_pause_def split: if_splits)

lemma resume_paused: "recorder_resume env r = (x, es, r') \<Longrightarrow> rc_paused r' = (case x of Inl e \<Rightarrow> rc_paused r | Inr _ \<Rightarrow> False)"
  by (cases "terminate_all_locked env r")
    (auto simp: recorder_resume_def dest: paused_terminate_all split: if_splits sum.splits)

datatype guard_op = GuardCheck environment "exn + disk_usage" "exn + disk_usage \<times> string" | Supervise recorder_op

fun guard_exec :: "guard_op \<Rightarrow> storage_monitor \<times> recorder \<Rightarrow> child_event list \<times> storage_monitor \<times> recorder" where
  "guard_exec (GuardCheck env d d') (m, r) =
     (case monitor_check env d d' m (Some r) of (x, es, m', rec) \<Rightarrow> (es, m', the rec))"
| "guard_exec (Supervise op) (m, r) = (case recorder_exec op r of (es, r') \<Rightarrow> (es, m, r'))"

text \<open>Others may pause the recorder too (\<^verbatim>\<open>native_installation.py\<close> does), but only the guard resumes it.\<close>

definition guard_op_ok :: "guard_op \<Rightarrow> bool" where
  "guard_op_ok op = (case op of Supervise (ResumeAll env) \<Rightarrow> False | _ \<Rightarrow> True)"

definition guard_inv :: "child_event list \<Rightarrow> storage_monitor \<times> recorder \<Rightarrow> bool" where
  "guard_inv h w = (case w of (m, r) \<Rightarrow> recorder_inv h r \<and> (sm_paused_by_full m \<longrightarrow> rc_paused r) \<and>
     (sm_pause_pending m \<longrightarrow> sm_paused_by_full m) \<and> (sm_paused_by_full m \<longrightarrow> sm_pause_pending m \<or> silent r))"

lemma recorder_inv_pause: "recorder_inv h r \<Longrightarrow> recorder_pause env r = (x, es, r') \<Longrightarrow> recorder_inv (h @ es) r'"
  using recorder_exec_inv [of h r "PauseAll env" es r'] by (simp add: recorder_exec_def)

lemma recorder_inv_resume: "recorder_inv h r \<Longrightarrow> recorder_resume env r = (x, es, r') \<Longrightarrow> recorder_inv (h @ es) r'"
  using recorder_exec_inv [of h r "ResumeAll env" es r'] by (simp add: recorder_exec_def)

lemma apply_pause_guard:
  assumes "guard_inv h (m, r)" "apply_pause env m (Some r) = (x, es, m', rec)"
  obtains r' where "rec = Some r'" "guard_inv (h @ es) (m', r')" "rc_paused r'" "x = Inr () \<Longrightarrow> silent r'"
    "sm_paused_by_full m'" "sm_pause_pending m' \<longleftrightarrow> x \<noteq> Inr ()"
proof -
  obtain y es' r' where p: "recorder_pause env r = (y, es', r')" by (metis prod_cases3)
  have "recorder_inv (h @ es') r'" "rc_paused r'" "y = Inr () \<Longrightarrow> silent r'"
    using recorder_inv_pause [OF _ p] pause_paused [OF p] pause_silent assms(1) p by (auto simp: guard_inv_def)
  then show ?thesis using that [of r'] assms(2) p by (auto simp: apply_pause_def guard_inv_def Let_def split: sum.splits)
qed

lemma apply_resume_guard:
  assumes "guard_inv h (m, r)" "apply_resume env m (Some r) = (x, es, m', rec)" "\<not> sm_pause_pending m" "sm_paused_by_full m"
  obtains r' where "rec = Some r'" "guard_inv (h @ es) (m', r')" "\<not> rc_paused r'" "\<not> sm_paused_by_full m'" "\<not> sm_pause_pending m'"
proof -
  obtain y es' r' where p: "recorder_resume env r = (y, es', r')" by (metis prod_cases3)
  have sil: "silent r" using assms by (auto simp: guard_inv_def)
  then have y: "y = Inr ()" using p by (auto simp: recorder_resume_def silent_def)
  have "recorder_inv (h @ es') r'" "\<not> rc_paused r'"
    using recorder_inv_resume [OF _ p] resume_paused [OF p] assms(1) y by (auto simp: guard_inv_def)
  then show ?thesis using that [of r'] assms(2,3) p y by (auto simp: apply_resume_def guard_inv_def)
qed

lemma monitor_check_guard:
  assumes inv: "guard_inv h (m, r)" and chk: "monitor_check env d d' m (Some r) = (x, es, m', rec)"
  obtains r' where "rec = Some r'" "guard_inv (h @ es) (m', r')"
proof (cases d)
  case (Inl e)
  then show ?thesis using that [of r] inv chk by (simp add: monitor_check_def)
next
  case (Inr du)
  define act where "act = (if sm_pause_pending m \<or> (\<not> sm_paused_by_full m \<and> used_percent du \<ge> of_int (sm_full m)) then apply_pause env m (Some r)
    else if sm_paused_by_full m \<and> used_percent du \<le> of_int (sm_resume m) then apply_resume env m (Some r) else (Inr (), [], m, Some r))"
  obtain y es1 m1 rec1 where a: "act = (y, es1, m1, rec1)" by (metis prod_cases4)
  have "es = es1" "m' = m1" "rec = rec1" using chk Inr a by (auto simp: monitor_check_def act_def [symmetric] Let_def split: sum.splits)
  moreover have "\<exists>r'. rec1 = Some r' \<and> guard_inv (h @ es1) (m1, r')"
  proof (cases "sm_pause_pending m \<or> (\<not> sm_paused_by_full m \<and> used_percent du \<ge> of_int (sm_full m))")
    case True
    then have "apply_pause env m (Some r) = (y, es1, m1, rec1)" using a by (simp add: act_def)
    then show ?thesis by (rule apply_pause_guard [OF inv]) blast
  next
    case False
    then consider "apply_resume env m (Some r) = (y, es1, m1, rec1)" "\<not> sm_pause_pending m" "sm_paused_by_full m"
      | "es1 = []" "m1 = m" "rec1 = Some r" using a by (auto simp: act_def split: if_splits)
    then show ?thesis
    proof cases
      case 1
      then show ?thesis by (rule apply_resume_guard [OF inv]) blast
    qed (use inv in auto)
  qed
  ultimately show ?thesis using that by blast
qed

lemma guard_exec_inv:
  assumes "guard_inv h w" "guard_op_ok op" "guard_exec op w = (es, w')"
  shows "guard_inv (h @ es) w'"
proof (cases w)
  case (Pair m r)
  show ?thesis
  proof (cases op)
    case (GuardCheck env d d')
    obtain x es1 m1 rec1 where c: "monitor_check env d d' m (Some r) = (x, es1, m1, rec1)" by (metis prod_cases4)
    show ?thesis using monitor_check_guard [OF assms(1) [unfolded Pair] c] assms(3) Pair GuardCheck c by fastforce
  next
    case (Supervise act)
    obtain es1 r1 where c: "recorder_exec act r = (es1, r1)" by fastforce
    have inv: "guard_inv h (m, r)" using assms(1) Pair by simp
    have keeps: "(rc_paused r \<longrightarrow> rc_paused r1) \<and> (silent r \<longrightarrow> silent r1)"
    proof (cases "supervises act")
      case True
      then show ?thesis using paused_exec [OF c] silent_exec [OF _ c] by simp
    next
      case False
      then obtain env where act: "act = PauseAll env"
        using assms(2) Supervise by (cases act) (auto simp: supervises_def guard_op_ok_def)
      obtain y es2 r2 where p: "recorder_pause env r = (y, es2, r2)" by (metis prod_cases3)
      then have "r1 = r2" using c act by (simp add: recorder_exec_def)
      moreover have "silent r \<Longrightarrow> r2 = r" using p by (simp add: recorder_pause_def silent_def)
      ultimately show ?thesis using pause_paused [OF p] by auto
    qed
    have "w' = (m, r1)" "es = es1" using assms(3) Pair Supervise c by simp_all
    with inv keeps recorder_exec_inv [OF _ c] show ?thesis by (auto simp: guard_inv_def)
  qed
qed

lemma silent_alive: "recorder_inv h r \<Longrightarrow> silent r \<Longrightarrow> rc_alive r = {}"
  using children_okD [of h r] by (fastforce simp: recorder_inv_def silent_def)

lemma guard_reachable:
  assumes "run_ops guard_exec ops (monitor_init a f u, recorder_init) = (h, m, r)" "\<forall>op \<in> set ops. guard_op_ok op"
  shows "guard_inv h (m, r)"
proof -
  have "guard_inv [] (monitor_init a f u, recorder_init)"
    by (simp add: guard_inv_def monitor_init_def recorder_init_def recorder_inv_def children_ok_def)
  from run_ops_induct [of guard_inv guard_op_ok guard_exec, OF guard_exec_inv this assms(2) assms(1)] show ?thesis by simp
qed

lemma guard_quiet: "guard_inv h (m, r) \<Longrightarrow> sm_paused_by_full m \<Longrightarrow> \<not> sm_pause_pending m \<Longrightarrow> rc_alive r = {}"
  using silent_alive [of h r] by (auto simp: guard_inv_def)

text \<open>
  C24. The disk guard, in every interleaving of its checks with the recorder's own work and with
  pauses by others, when nobody else resumes and the resume mark lies below the full mark.
  While the guard holds the recorder, saving is paused, and no recording child runs unless a
  retry of the pause is pending. A check does what its reading says: it takes hold at a full
  volume, and with a pending retry at any reading, and then saving is paused with nothing
  running or a retry still pending; it releases a held recorder at or below the resume mark; in
  every other case (not held and not full, or held and above the resume mark, with no retry
  pending) it changes nothing.
\<close>
theorem disk_guard_holds:
  assumes run: "run_ops guard_exec ops (monitor_init a f u, recorder_init) = (h, m, r)" "\<forall>op \<in> set ops. guard_op_ok op"
    and marks: "sm_resume m < sm_full m"
  shows "(sm_paused_by_full m \<longrightarrow> rc_paused r \<and> (sm_pause_pending m \<or> rc_alive r = {})) \<and>
    (\<exists>x es m' r'. monitor_check env (Inr du) d' m (Some r) = (x, es, m', Some r') \<and>
      (if sm_pause_pending m \<or> used_percent du \<ge> of_int (sm_full m)
       then sm_paused_by_full m' \<and> rc_paused r' \<and> (sm_pause_pending m' \<or> rc_alive r' = {})
       else if sm_paused_by_full m \<and> used_percent du \<le> of_int (sm_resume m)
       then \<not> sm_paused_by_full m' \<and> \<not> sm_pause_pending m' \<and> \<not> rc_paused r'
       else m' = m \<and> r' = r))"
proof -
  note inv = guard_reachable [OF run]
  obtain x es m' rec where chk: "monitor_check env (Inr du) d' m (Some r) = (x, es, m', rec)" by (metis prod_cases4)
  obtain r' where r': "rec = Some r'" "guard_inv (h @ es) (m', r')" by (rule monitor_check_guard [OF inv chk])
  have hold: "sm_paused_by_full m'" if full: "sm_pause_pending m \<or> used_percent du \<ge> of_int (sm_full m)"
  proof (cases "sm_pause_pending m \<or> \<not> sm_paused_by_full m")
    case True
    obtain y es2 m2 rec2 where a: "apply_pause env m (Some r) = (y, es2, m2, rec2)" by (metis prod_cases4)
    show ?thesis by (rule apply_pause_guard [OF inv a])
      (use chk True full a in \<open>auto simp: monitor_check_def Let_def split: sum.splits\<close>)
  next
    case False
    then have "\<not> used_percent du \<le> of_int (sm_resume m)" using full marks by linarith
    then show ?thesis using chk False by (auto simp: monitor_check_def Let_def)
  qed
  have release: "\<not> sm_paused_by_full m' \<and> \<not> sm_pause_pending m' \<and> \<not> rc_paused r'"
    if "\<not> sm_pause_pending m" "sm_paused_by_full m" "used_percent du \<le> of_int (sm_resume m)"
  proof -
    obtain y es2 m2 rec2 where a: "apply_resume env m (Some r) = (y, es2, m2, rec2)" by (metis prod_cases4)
    show ?thesis by (rule apply_resume_guard [OF inv a that(1,2)])
      (use chk that a r'(1) in \<open>auto simp: monitor_check_def Let_def split: sum.splits\<close>)
  qed
  have rest: "m' = m \<and> r' = r"
    if "\<not> sm_pause_pending m" "\<not> used_percent du \<ge> of_int (sm_full m)" "\<not> (sm_paused_by_full m \<and> used_percent du \<le> of_int (sm_resume m))"
    using chk r'(1) that by (auto simp: monitor_check_def Let_def)
  have now: "sm_paused_by_full m \<longrightarrow> rc_paused r \<and> (sm_pause_pending m \<or> rc_alive r = {})"
    using inv guard_quiet [OF inv] by (auto simp: guard_inv_def)
  have after: "sm_paused_by_full m' \<longrightarrow> rc_paused r' \<and> (sm_pause_pending m' \<or> rc_alive r' = {})"
    using r'(2) guard_quiet [OF r'(2)] by (auto simp: guard_inv_def)
  show ?thesis using chk r'(1) hold release rest now after by auto
qed

definition demo_guard :: "guard_op list" where
  "demo_guard = [Supervise (StartCameras demo_environment [''a''])]"

lemmas guard_evaluation = demo_guard_def monitor_init_def monitor_check_def apply_pause_def monitor_state_def used_percent_def recorder_evaluation

theorem disk_guard_holds_witness:
  "\<exists>h m r x es m' r'. run_ops guard_exec demo_guard (monitor_init 80 98 95, recorder_init) = (h, m, r) \<and> rc_alive r = {0} \<and>
     monitor_check demo_environment (Inr (100, 99, 1)) (Inr ((100, 99, 1), ''now'')) m (Some r) = (x, es, m', Some r') \<and> rc_paused r' \<and>
     (sm_pause_pending m' \<or> rc_alive r' = {})"
proof -
  obtain h m r where 1: "run_ops guard_exec demo_guard (monitor_init 80 98 95, recorder_init) = (h, m, r)" by (metis prod_cases3)
  have m: "sm_resume m < sm_full m" "sm_full m = 98" "rc_alive r = {0}" using 1 by (auto simp: guard_evaluation)
  have "\<forall>op \<in> set demo_guard. guard_op_ok op" by (simp add: demo_guard_def guard_op_ok_def)
  from disk_guard_holds [OF 1 this m(1), of demo_environment "(100, 99, 1)" "Inr ((100, 99, 1), ''now'')"] 1 m(2,3)
  show ?thesis by (auto simp: used_percent_def)
qed

lemma terminate_children_failed:
  "failed \<or> (\<exists>c p. (c, p) \<in> set items \<and> en_retire env p \<noteq> None) \<Longrightarrow> fst (terminate_children env items failed r)"
proof (induction env items failed r rule: terminate_children.induct)
  case (2 env camera p items failed r)
  show ?case
  proof (cases "en_retire env p")
    case None
    then have "failed \<or> (\<exists>c p. (c, p) \<in> set items \<and> en_retire env p \<noteq> None)" using "2.prems" by auto
    from "2.IH"(1) [OF None this] None show ?thesis by (auto split: prod.splits)
  qed (use "2.IH"(2) in auto)
qed simp

text \<open>
  C25. The guard retries a pause that left a child unconfirmed (\<open>sm_pause_pending\<close>), but its
  own loop does not survive to retry it: \<^verbatim>\<open>RecorderCleanupUnconfirmed\<close> is not an \<^verbatim>\<open>OSError\<close>, so
  the thread ends in the pass that met it and no later pass is made, whatever it would read.
\<close>
theorem guard_loop_ends_unconfirmed:
  assumes "\<not> sm_paused_by_full m" "used_percent du \<ge> of_int (sm_full m)" "(c, p) \<in> set (rc_procs r)" "en_retire env p \<noteq> None"
  shows "\<exists>es m' r'. monitor_loop ((env, Inr du, d') # passes) m (Some r) = (False, es, m', Some r') \<and>
    sm_pause_pending m' \<and> sm_paused_by_full m'"
proof -
  let ?r = "r\<lparr>rc_paused := True\<rparr>"
  obtain f es1 r1 where t: "terminate_children env (rc_procs ?r) False ?r = (f, es1, r1)" by (metis prod_cases3)
  have f: "f" using terminate_children_failed [of False "rc_procs ?r" env ?r] assms(3,4) t by force
  have "rc_procs r \<noteq> []" using assms(3) by auto
  then show ?thesis using assms(1,2) t f
    by (auto simp: monitor_check_def apply_pause_def recorder_pause_def terminate_all_locked_def Let_def)
qed

theorem guard_loop_ends_unconfirmed_witness:
  "\<exists>es m' r'. monitor_loop
      [(demo_environment\<lparr>en_retire := \<lambda>p. Some TimeoutExpired\<rparr>, Inr (100, 99, 1), Inr ((100, 99, 1), ''now'')), (demo_environment, Inr (100, 99, 1), Inr ((100, 99, 1), ''now''))]
      (monitor_init 80 98 95) (Some (recorder_init\<lparr>rc_procs := [(''a'', 0)], rc_alive := {0}\<rparr>)) = (False, es, m', Some r') \<and>
    sm_pause_pending m' \<and> sm_paused_by_full m'"
  by (rule guard_loop_ends_unconfirmed [where c = "''a''" and p = 0]) (simp_all add: monitor_init_def used_percent_def demo_environment_def recorder_init_def)

end
