(* ===== verification/Spec2Isabelle.thy ===== *)
theory Spec2Isabelle
  imports Prelude Machine Rc5 KeyTransforms GuteFrame Des MediaProtocol KcpReceive Framing TcpRelay Quicklz
    StreamProtocol Broker Budget ConnAuth AccessProtocol PtzProtocol Reserve PtzScheduler PtzInbox ModelProtocol Reads Mailbox Siren Handoff ModelSession Fragments Controls
    Mp4Output Mp4Fanout HevcGate SourceRegistry SourceGates Access Recording StorageGuard
begin

text \<open>
  CommunityCamGuard: a verification library of the server's own logic.

  \<^bold>\<open>The program.\<close> CommunityCamGuard is a self-hosted video server for IP cameras. Its
  backend (\<^verbatim>\<open>src/backend/app\<close>) speaks the cameras' vendor protocol, turns the media it
  receives into fragmented MP4, fans it out to viewers, supervises recording children and
  decides which source may own a camera. The parts modelled here, from the wire up:

  \<^item> \<^emph>\<open>cryptography and keys\<close> (\<open>Rc5\<close>, \<open>KeyTransforms\<close>, \<open>Des\<close>, \<open>GuteFrame\<close>): \<^verbatim>\<open>crypto.py\<close>. RC5 and the
    key transforms on words, DES on bit lists with its tables (\<open>DesTables\<close>), the mode-1 and
    mode-2 framing with its checksum. The theorems are round trips.
  \<^item> \<^emph>\<open>account access\<close> (\<open>ConnAuth\<close>, \<open>AccessProtocol\<close>): \<^verbatim>\<open>auth.py\<close>, \<^verbatim>\<open>access_protocol.py\<close>. Building and
    parsing of authentication frames, certification, acknowledgements and node lists; AES,
    HMAC and random draws are parameters.
  \<^item> \<^emph>\<open>account transactions and budgets\<close> (\<open>Broker\<close>, \<open>Budget\<close>): \<^verbatim>\<open>broker_sequences.py\<close>,
    \<^verbatim>\<open>broker_transactions.py\<close>, \<^verbatim>\<open>account_output_budget.py\<close>, \<^verbatim>\<open>media_policy.py\<close>. Tickets resolved at most
    once, reserved cleanup capacity, token buckets.
  \<^item> \<^emph>\<open>account reads\<close> (\<open>Reads\<close>, \<open>Mailbox\<close>): \<^verbatim>\<open>broker_reads.py\<close>, \<^verbatim>\<open>broker_heartbeat.py\<close>,
    \<^verbatim>\<open>broker_heartbeat_reply.py\<close>, \<^verbatim>\<open>broker_mailbox.py\<close>. A registered read ends exactly once, for the
    reason its completion names; a mailbox slot keeps its type invariant, every answer a client
    takes was asked for, claimed, bound and finished, and a slot comes back.
  \<^item> \<^emph>\<open>account datagrams\<close> (\<open>Fragments\<close>): \<^verbatim>\<open>resource_service_protocol.py\<close>, \<^verbatim>\<open>tcp_budget.py\<close>,
    \<^verbatim>\<open>broker_maintenance.py\<close>. Fragment headers are masked field by field and read back; fragments in any
    order give the frame; the receiver stays within its datagram, byte and memory budgets.
  \<^item> \<^emph>\<open>media transport\<close> (\<open>MediaProtocol\<close>, \<open>KcpReceive\<close>, \<open>Framing\<close>, \<open>TcpRelay\<close>): \<^verbatim>\<open>media_protocol.py\<close>,
    \<^verbatim>\<open>kcp_window.py\<close>, \<^verbatim>\<open>kcp_receive.py\<close>, \<^verbatim>\<open>push_framing.py\<close>, \<^verbatim>\<open>mtp_tcp_framing.py\<close>, \<^verbatim>\<open>mtp_tcp_kcp.py\<close>. The receiver
    is shown to refine an in-order, exactly-once channel whatever the network does; the
    framers to deliver the records of the stream however it is cut into reads.
  \<^item> \<^emph>\<open>payloads\<close> (\<open>Quicklz\<close>, \<open>StreamProtocol\<close>): \<^verbatim>\<open>quicklz.py\<close>, \<^verbatim>\<open>stream_protocol.py\<close>, \<^verbatim>\<open>v1_receive.py\<close>.
  \<^item> \<^emph>\<open>pan and tilt\<close> (\<open>PtzProtocol\<close>, \<open>PtzScheduler\<close>, \<open>PtzInbox\<close>): \<^verbatim>\<open>ptz_protocol.py\<close>, \<^verbatim>\<open>ptz_scheduler.py\<close>,
    \<^verbatim>\<open>ptz_release_delivery.py\<close>, \<^verbatim>\<open>ptz_command_reservation.py\<close>, \<^verbatim>\<open>ptz_authority.py\<close>, \<^verbatim>\<open>ptz_motion.py\<close>,
    \<^verbatim>\<open>ptz_inbox.py\<close>. A camera that was told to move is always told to stop.
  \<^item> \<^emph>\<open>thing-model requests and the siren\<close> (\<open>ModelProtocol\<close>, \<open>Siren\<close>): \<^verbatim>\<open>model_protocol.py\<close>,
    \<^verbatim>\<open>model_write_protocol.py\<close>, \<^verbatim>\<open>broker_model_reply.py\<close>, \<^verbatim>\<open>siren.py\<close>, \<^verbatim>\<open>siren_off_probe.py\<close>, \<^verbatim>\<open>siren_pulse_job.py\<close>.
    A siren that was switched on is switched off, and only the camera's own word counts as off.
  \<^item> \<^emph>\<open>inboxes between callers and the account worker\<close> (\<open>Handoff\<close>): \<^verbatim>\<open>catalog_read_inbox.py\<close>,
    \<^verbatim>\<open>model_control_inbox.py\<close>, \<^verbatim>\<open>siren_pulse_inbox.py\<close>, one program with four decisions (locale \<open>one_slot\<close>).
  \<^item> \<^emph>\<open>camera controls\<close> (\<open>ModelSession\<close>, \<open>Controls\<close>): \<^verbatim>\<open>session_io.py\<close>, \<^verbatim>\<open>model_session.py\<close>, \<^verbatim>\<open>model_write_session.py\<close>,
    \<^verbatim>\<open>volume.py\<close>, \<^verbatim>\<open>orientation.py\<close>, \<^verbatim>\<open>night_vision.py\<close>, \<^verbatim>\<open>smart_protection.py\<close>, \<^verbatim>\<open>smart_protection_schedule.py\<close>,
    \<^verbatim>\<open>guard_plan.py\<close>. What a socket delivers in an attempt is an argument; a change is reported only
    when a later read of the camera showed it.
  \<^item> \<^emph>\<open>media output\<close> (\<open>Mp4Output\<close>, \<open>Mp4Fanout\<close>, \<open>HevcGate\<close>): \<^verbatim>\<open>media/fragmented_mp4.py\<close>,
    \<^verbatim>\<open>media/mp4_fanout.py\<close>, \<^verbatim>\<open>media/hevc_access.py\<close>, \<^verbatim>\<open>media/hevc_recovery.py\<close>.
  \<^item> \<^emph>\<open>ownership of a camera\<close> (\<open>SourceRegistry\<close>, \<open>SourceGates\<close>, \<open>Recording\<close>, \<open>StorageGuard\<close>):
    \<^verbatim>\<open>media/source_registry.py\<close>, \<^verbatim>\<open>media/viewer_gate.py\<close>, \<^verbatim>\<open>recording/ingress_gate.py\<close>, \<^verbatim>\<open>db/source_policy.py\<close>,
    \<^verbatim>\<open>recording/recorder.py\<close>, \<^verbatim>\<open>recording/storage.py\<close>. One source and one recording child per camera,
    certified drains and suspensions, the disk guard against everyone who pauses the recorder.
  \<^item> \<^emph>\<open>access control\<close> (\<open>Access\<close>): \<^verbatim>\<open>login_throttle.py\<close>, \<^verbatim>\<open>access_keys.py\<close>, \<^verbatim>\<open>db/access_keys.py\<close>, \<^verbatim>\<open>auth.py\<close>,
    \<^verbatim>\<open>session_permissions.py\<close>.

  \<^bold>\<open>How code becomes definitions.\<close> A class is a \<open>record\<close>, a method a function from the record to
  a result and the new record; a raise is the left side of a sum over \<open>exn\<close>, with the
  attributes the code gives the exception. Bytes are \<open>8 word\<close> lists, machine integers words,
  Python integers \<open>int\<close> or \<open>nat\<close>; where a theorem is about staying in range (\<open>Quicklz\<close>) every
  index and every unpacking is checked and fails as Python's does; a dict is an association list in insertion order with
  \<open>dict_set\<close> and \<open>dict_pop\<close> (\<open>Prelude\<close>). Clock readings, random draws and the outcomes of the
  operating system are arguments; a float is an exact real. Code outside the repository
  (AES, HMAC, SHA-256, JSON decoding, the signature of session cookies, \<^verbatim>\<open>inet_aton\<close>) is a
  parameter, and what a theorem needs of it is a named hypothesis with a witness.

  \<^bold>\<open>Concurrency.\<close> A class whose methods hold one lock is a machine (\<open>Machine\<close>): its methods are
  the operations, a method that releases the lock in the middle is several, and every
  interleaving of threads is a list of operations. \<open>run_ops\<close> executes the list and collects
  the events a caller can see; the locale \<open>machine\<close> turns an invariant of history and state
  that each operation keeps into a fact about all runs. It is interpreted for the broker
  transactions and reads, the mailbox, the MP4 collector, the fanout, the decoder gate, the
  source registry, the viewer gate, the source policy, the key store and the recorder;
  \<open>KcpReceive\<close>, \<open>PtzScheduler\<close> and \<open>PtzInbox\<close> carry step relations and histories of their own,
  and the framers share the locale of incremental parsers in \<open>Framing\<close>.

  \<^bold>\<open>Reserved capacity.\<close> The gesture and the pulse rest on one contract of the output budget, the
  locale \<open>cleanup_reserve\<close> of \<open>Reserve\<close>: a held reserve keeps its slots whatever the other users
  of the account do, each slot that is left can be spent, and no second reserve of the kind
  is given out. It is interpreted for the PTZ and for the siren reserve.

  \<^bold>\<open>Loops.\<close> Every loop is a terminating function; there is no fuel. The loops of the framers
  and parsers recurse on the length of the buffer, those over cameras, tickets and
  segments on lists. Background threads are sequences of passes.

  \<^bold>\<open>Not modelled.\<close> Sockets, threads, subprocess command lines, SQLite and FastAPI glue; the
  discovery scans; camera drivers other than the vendor protocol; the account workers that
  drive sockets; the onboard playback and intercom sessions; the frontend. They are listed
  with the reason in the manifest.
\<close>

end
